(* ===== verification/Prelude.thy ===== *)
theory Prelude imports Main "HOL-Library.Word" begin

text \<open>
  What the components share: strings of Unicode scalar values, the whitespace of Rust's standard
  library, machines that answer an input with a list of outputs, and generic lemmas on lists.

  A Rust \<open>str\<close> is a sequence of Unicode scalar values stored as UTF-8. It is modelled as the list of
  the values (natural numbers), because the code walks over \<open>char\<close>s; where it counts bytes,
  \<open>utf8_size\<close> counts them. A literal is written \<open>lit ''abc''\<close>.
\<close>

section \<open>Collections\<close>

named_theorems ops_def "definitions of the operations of a component"
named_theorems frame "what an operation leaves unchanged"

section \<open>Strings\<close>

type_synonym str = "nat list"

definition lit :: "string \<Rightarrow> str" where
  "lit s = map of_char s"

lemma lit_Nil [simp]: "lit [] = []"
  by (simp add: lit_def)

lemma lit_Cons [simp]: "lit (c # s) = of_char c # lit s"
  by (simp add: lit_def)

definition utf8_len :: "nat \<Rightarrow> nat" where
  "utf8_len c = (if c < 128 then 1 else if c < 2048 then 2 else if c < 65536 then 3 else 4)"

definition utf8_size :: "str \<Rightarrow> nat" where
  "utf8_size s = sum_list (map utf8_len s)"

lemma utf8_len_pos [simp]: "0 < utf8_len c"
  by (simp add: utf8_len_def)

lemma utf8_size_simps [simp]:
  "utf8_size [] = 0"
  "utf8_size (c # s) = utf8_len c + utf8_size s"
  "utf8_size (s @ t) = utf8_size s + utf8_size t"
  by (simp_all add: utf8_size_def)

lemma length_le_utf8_size: "length s \<le> utf8_size s"
proof (induction s)
  case Nil
  show ?case by simp
next
  case (Cons c s)
  then show ?case using utf8_len_pos [of c] by (simp del: utf8_len_pos)
qed

text \<open>\<open>char::is_whitespace\<close>: the Unicode property \<open>White_Space\<close>.\<close>

definition is_whitespace :: "nat \<Rightarrow> bool" where
  "is_whitespace c \<longleftrightarrow>
     (9 \<le> c \<and> c \<le> 13) \<or> c = 32 \<or> c = 133 \<or> c = 160 \<or> c = 5760 \<or> (8192 \<le> c \<and> c \<le> 8202) \<or>
     c = 8232 \<or> c = 8233 \<or> c = 8239 \<or> c = 8287 \<or> c = 12288"

definition is_blank :: "nat \<Rightarrow> bool" where
  "is_blank c \<longleftrightarrow> c = 32 \<or> c = 9"

text \<open>\<open>str::trim_start\<close>, \<open>str::trim_end\<close>, \<open>str::trim\<close>.\<close>

definition trim_start :: "str \<Rightarrow> str" where
  "trim_start s = dropWhile is_whitespace s"

definition trim_end :: "str \<Rightarrow> str" where
  "trim_end s = rev (dropWhile is_whitespace (rev s))"

definition trim :: "str \<Rightarrow> str" where
  "trim s = trim_end (trim_start s)"

text \<open>\<open>str::split_whitespace\<close>: the maximal runs of other characters.\<close>

fun words_from :: "str \<Rightarrow> str \<Rightarrow> str list" where
  "words_from w [] = (if w = [] then [] else [w])"
| "words_from w (c # s) =
     (if is_whitespace c then (if w = [] then words_from [] s else w # words_from [] s)
      else words_from (w @ [c]) s)"

definition split_whitespace :: "str \<Rightarrow> str list" where
  "split_whitespace s = words_from [] s"

text \<open>\<open>[T]::join\<close>.\<close>

fun join :: "str \<Rightarrow> str list \<Rightarrow> str" where
  "join sep [] = []"
| "join sep [s] = s"
| "join sep (s # t # ts) = s @ sep @ join sep (t # ts)"

lemma join_append: "xs \<noteq> [] \<Longrightarrow> ys \<noteq> [] \<Longrightarrow> join sep (xs @ ys) = join sep xs @ sep @ join sep ys"
proof (induction sep xs rule: join.induct)
  case (2 sep s)
  then show ?case by (cases ys) simp_all
qed simp_all

lemma words_from_nonempty: "w \<in> set (words_from v s) \<Longrightarrow> w \<noteq> []"
  by (induction v s rule: words_from.induct) (auto split: if_splits)

lemma trim_end_empty_iff: "trim_end s = [] \<longleftrightarrow> (\<forall>c \<in> set s. is_whitespace c)"
  by (simp add: trim_end_def)

lemma trim_empty_iff: "trim s = [] \<longleftrightarrow> (\<forall>c \<in> set s. is_whitespace c)"
proof -
  have "(\<forall>c \<in> set (dropWhile P s). P c) \<longleftrightarrow> (\<forall>c \<in> set s. P c)" for P and s :: str
    by (induction s) auto
  then show ?thesis by (simp add: trim_def trim_start_def trim_end_empty_iff)
qed

section \<open>Machines\<close>

text \<open>
  A component with state answers an input with the new state and the outputs of that call.
  \<open>run_machine\<close> feeds a list of inputs and collects the outputs in order.
\<close>

fun run_machine :: "('s \<Rightarrow> 'i \<Rightarrow> 's \<times> 'o list) \<Rightarrow> 's \<Rightarrow> 'i list \<Rightarrow> 's \<times> 'o list" where
  "run_machine step s [] = (s, [])"
| "run_machine step s (i # is) =
     (let (s1, out1) = step s i; (s2, out2) = run_machine step s1 is in (s2, out1 @ out2))"

lemma run_machine_append:
  "run_machine step s (is @ js) =
     (let (s1, out1) = run_machine step s is; (s2, out2) = run_machine step s1 js
      in (s2, out1 @ out2))"
  by (induction "is" arbitrary: s) (simp_all add: Let_def split: prod.splits)

text \<open>
  The contract of a machine: a state invariant every step keeps, and an account of what was
  emitted so far (\<open>log\<close>) that every step extends consistently.
\<close>

locale machine =
  fixes step :: "'s \<Rightarrow> 'i \<Rightarrow> 's \<times> 'o list"
    and inv :: "'s \<Rightarrow> 'o list \<Rightarrow> bool"
  assumes step_inv: "inv s log \<Longrightarrow> step s i = (t, out) \<Longrightarrow> inv t (log @ out)"
begin

lemma run_inv: "inv s log \<Longrightarrow> run_machine step s is = (t, out) \<Longrightarrow> inv t (log @ out)"
proof (induction "is" arbitrary: s log out)
  case Nil
  then show ?case by simp
next
  case (Cons i "is")
  obtain s1 o1 where s: "step s i = (s1, o1)" by (cases "step s i")
  obtain o2 where r: "run_machine step s1 is = (t, o2)" and out: "out = o1 @ o2"
    using Cons.prems(2) s by (auto simp: Let_def split: prod.splits)
  have "inv s1 (log @ o1)" using Cons.prems(1) s by (rule step_inv)
  then have "inv t ((log @ o1) @ o2)" using r by (rule Cons.IH)
  then show ?case by (simp add: out)
qed

lemma run_inv_from_start: "inv s [] \<Longrightarrow> inv (fst (run_machine step s is)) (snd (run_machine step s is))"
  using run_inv [of s "[]" "is"] by (cases "run_machine step s is") simp

end

section \<open>Lists\<close>

lemma nth_enumerate_in: "i < length xs \<Longrightarrow> (i, xs ! i) \<in> set (enumerate 0 xs)"
  by (auto simp: in_set_enumerate_eq)

lemma distinct_append_snoc:
  "distinct (xs @ [x]) \<longleftrightarrow> distinct xs \<and> x \<notin> set xs"
  by auto

text \<open>\<open>slice::get\<close>: the element, or nothing past the end.\<close>

definition get :: "'a list \<Rightarrow> nat \<Rightarrow> 'a option" where
  "get xs i = (if i < length xs then Some (xs ! i) else None)"

lemma get_drop: "get xs i = (case drop i xs of [] \<Rightarrow> None | x # _ \<Rightarrow> Some x)"
  by (cases "i < length xs") (simp_all add: get_def Cons_nth_drop_Suc [symmetric])

text \<open>\<open>Vec::remove\<close> and \<open>Vec::insert\<close> at an index in range.\<close>

definition remove_at :: "nat \<Rightarrow> 'a list \<Rightarrow> 'a list" where
  "remove_at i xs = take i xs @ drop (i + 1) xs"

definition insert_at :: "nat \<Rightarrow> 'a \<Rightarrow> 'a list \<Rightarrow> 'a list" where
  "insert_at i x xs = take i xs @ x # drop i xs"

lemma length_remove_at: "i < length xs \<Longrightarrow> length (remove_at i xs) = length xs - 1"
  by (simp add: remove_at_def)

lemma set_insert_at [simp]: "set (insert_at i x xs) = insert x (set xs)"
proof -
  have "set (take i xs) \<union> set (drop i xs) = set xs" by (metis append_take_drop_id set_append)
  then show ?thesis by (auto simp: insert_at_def)
qed

lemma length_insert_at [simp]: "length (insert_at i x xs) = Suc (length xs)"
  by (simp add: insert_at_def)

text \<open>The first element that satisfies a predicate, changed in place (\<open>iter_mut().find\<close>).\<close>

fun upd_first :: "('a \<Rightarrow> bool) \<Rightarrow> ('a \<Rightarrow> 'a) \<Rightarrow> 'a list \<Rightarrow> 'a list" where
  "upd_first P f [] = []"
| "upd_first P f (x # xs) = (if P x then f x # xs else x # upd_first P f xs)"

text \<open>\<open>Iterator::position\<close>.\<close>

fun position :: "('a \<Rightarrow> bool) \<Rightarrow> 'a list \<Rightarrow> nat option" where
  "position P [] = None"
| "position P (x # xs) = (if P x then Some 0 else map_option Suc (position P xs))"

lemma position_None [simp]: "position P xs = None \<longleftrightarrow> (\<forall>x \<in> set xs. \<not> P x)"
  by (induction xs) auto

lemma position_Some: "position P xs = Some i \<Longrightarrow> i < length xs \<and> P (xs ! i) \<and> (\<forall>j < i. \<not> P (xs ! j))"
proof (induction xs arbitrary: i)
  case Nil
  then show ?case by simp
next
  case (Cons x xs)
  then show ?case by (cases i) (auto split: if_splits simp: less_Suc_eq_0_disj)
qed

end
