(* ===== verification/Chunks.thy ===== *)
theory Chunks imports Prelude begin

text \<open>
  Splitting one text into the chunks of one item: \<open>crates/sonara-core/src/reader/chunks.rs\<close> and the
  code markers of \<open>crates/sonara-core/src/code_speech.rs\<close>.

  Two things the file calls are parameters here, in the record \<open>text_lib\<close>: the Unicode property
  behind \<open>char::is_alphanumeric\<close>, and the prose assembler run over a whole text as one final delta
  (\<open>ProseAssembler::new().feed(text, 0, true)\<close>). The offsets of the source are byte offsets that are
  only used to cut; here a cut is made on the list of characters.
\<close>

section \<open>Code markers\<close>

datatype code_kind = Prose | Start | Line

definition CODE_LINE :: nat where "CODE_LINE = 0xE000"
definition CODE_START :: nat where "CODE_START = 0xE001"
definition SPOKEN :: nat where "SPOKEN = 0xE002"

definition kind :: "str \<Rightarrow> code_kind" where
  "kind chunk =
     (case chunk of
        [] \<Rightarrow> Prose
      | c # _ \<Rightarrow> if c = CODE_LINE then Line else if c = CODE_START then Start else Prose)"

definition unmarked :: "str \<Rightarrow> str" where
  "unmarked s =
     (case s of
        [] \<Rightarrow> s
      | c # rest \<Rightarrow> if c = CODE_LINE \<or> c = CODE_START \<or> c = SPOKEN then rest else s)"

section \<open>The assembler's output and the parameters\<close>

datatype asm_chunk =
    Text str
  | Code str "str list" str
  | ParagraphBreak

record text_lib =
  is_alphanumeric :: "nat \<Rightarrow> bool"
  assemble_whole :: "str \<Rightarrow> asm_chunk list"

section \<open>Text already in its spoken form\<close>

text \<open>
  \<open>blank_line\<close> matches the regular expression \<open>\n[ \t]*\n\<close> at the head of its argument and returns the
  rest after the match; \<open>split_blank_lines\<close> is \<open>BLANK_LINE.split\<close>.
\<close>

definition blank_line :: "str \<Rightarrow> str option" where
  "blank_line s =
     (case s of
        [] \<Rightarrow> None
      | c # r \<Rightarrow>
          if c = 10 then
            (case dropWhile is_blank r of
               [] \<Rightarrow> None
             | d # rest \<Rightarrow> if d = 10 then Some rest else None)
          else None)"

lemma blank_line_shorter: "blank_line s = Some rest \<Longrightarrow> length rest < length s"
proof -
  assume a: "blank_line s = Some rest"
  then obtain c r where s: "s = c # r" by (cases s) (auto simp: blank_line_def)
  with a obtain d where "dropWhile is_blank r = d # rest"
    by (auto simp: blank_line_def split: if_splits list.splits)
  then show ?thesis using length_dropWhile_le [of is_blank r] by (simp add: s)
qed

function split_blank_lines :: "str \<Rightarrow> str \<Rightarrow> str list" where
  "split_blank_lines para [] = [para]"
| "split_blank_lines para (c # s) =
     (case blank_line (c # s) of
        Some rest \<Rightarrow> para # split_blank_lines [] rest
      | None \<Rightarrow> split_blank_lines (para @ [c]) s)"
  by pat_completeness auto
termination
  by (relation "measure (\<lambda>(para, s). length s)") (auto dest: blank_line_shorter)

definition is_stop :: "nat \<Rightarrow> bool" where
  "is_stop c \<longleftrightarrow> c = 46 \<or> c = 33 \<or> c = 63"

definition is_closer :: "nat \<Rightarrow> bool" where
  "is_closer c \<longleftrightarrow> c = 34 \<or> c = 39 \<or> c = 41 \<or> c = 93 \<or> c = 0x201D \<or> c = 0x2019"

text \<open>
  The loop of \<open>spoken_paragraphs\<close> over one paragraph: \<open>prev\<close> is the character before, \<open>cur\<close> the
  sentence being collected. A sentence ends at a stop, or at a closing quote or bracket right after
  a stop, when whitespace or the end follows.
\<close>

fun spoken_cuts :: "nat option \<Rightarrow> str \<Rightarrow> str \<Rightarrow> str list" where
  "spoken_cuts prev cur [] = [cur]"
| "spoken_cuts prev cur (c # s) =
     (let cur' = cur @ [c];
          stop = is_stop c \<or> (is_closer c \<and> (case prev of None \<Rightarrow> False | Some p \<Rightarrow> is_stop p));
          before_space = (case s of [] \<Rightarrow> True | n # _ \<Rightarrow> is_whitespace n)
      in if stop \<and> before_space then cur' # spoken_cuts (Some c) [] s
         else spoken_cuts (Some c) cur' s)"

definition spoken_sentences :: "text_lib \<Rightarrow> str \<Rightarrow> str list" where
  "spoken_sentences L para =
     filter (\<lambda>s. \<exists>c \<in> set s. is_alphanumeric L c)
       (map (\<lambda>s. join (lit '' '') (split_whitespace s)) (spoken_cuts None [] para))"

definition spoken_paragraphs :: "text_lib \<Rightarrow> str \<Rightarrow> str list list" where
  "spoken_paragraphs L s =
     filter (\<lambda>p. p \<noteq> []) (map (spoken_sentences L) (split_blank_lines [] s))"

definition spoken_form :: "str \<Rightarrow> bool \<times> str" where
  "spoken_form s =
     (case s of
        [] \<Rightarrow> (False, s)
      | c # rest \<Rightarrow> if c = SPOKEN then (True, rest) else (False, s))"

section \<open>Segments\<close>

datatype seg = ProseSeg str | CodeSeg str

definition is_marker :: "nat \<Rightarrow> bool" where
  "is_marker c \<longleftrightarrow> c = CODE_LINE \<or> c = CODE_START"

text \<open>
  \<open>segments\<close> cuts at each marker; a code chunk runs from its marker to the end of its line or the
  next marker. The line end itself stays in the rest, as \<open>rest = &body[end..]\<close> keeps it.
\<close>

function segments :: "str \<Rightarrow> seg list" where
  "segments s =
     (case dropWhile (\<lambda>c. \<not> is_marker c) s of
        [] \<Rightarrow> [ProseSeg s]
      | m # body \<Rightarrow>
          ProseSeg (takeWhile (\<lambda>c. \<not> is_marker c) s) #
          CodeSeg (trim_end (m # takeWhile (\<lambda>c. c \<noteq> 10 \<and> \<not> is_marker c) body)) #
          segments (dropWhile (\<lambda>c. c \<noteq> 10 \<and> \<not> is_marker c) body))"
  by pat_completeness auto
termination
proof (relation "measure length")
  fix s m body
  assume d: "dropWhile (\<lambda>c. \<not> is_marker c) s = m # body"
  have "length (dropWhile (\<lambda>c. c \<noteq> 10 \<and> \<not> is_marker c) body) \<le> length body"
    by (rule length_dropWhile_le)
  moreover have "length (m # body) \<le> length s"
    using length_dropWhile_le [of "\<lambda>c. \<not> is_marker c" s] by (simp add: d)
  ultimately show "(dropWhile (\<lambda>c. c \<noteq> 10 \<and> \<not> is_marker c) body, s) \<in> measure length"
    by simp
qed simp

declare segments.simps [simp del]

section \<open>Chunks of an item\<close>

definition spoken_part :: "asm_chunk \<Rightarrow> str option" where
  "spoken_part c =
     (case c of
        Text s \<Rightarrow> if trim s \<noteq> [] then Some s else None
      | Code s _ _ \<Rightarrow> if trim s \<noteq> [] then Some s else None
      | ParagraphBreak \<Rightarrow> None)"

definition prose_chunks :: "text_lib \<Rightarrow> str \<Rightarrow> str list" where
  "prose_chunks L s =
     (if trim s = [] then [] else List.map_filter spoken_part (assemble_whole L s))"

definition split_chunks :: "text_lib \<Rightarrow> str \<Rightarrow> str list" where
  "split_chunks L s =
     (let (spoken, body) = spoken_form s
      in concat (map (\<lambda>seg. case seg of
             ProseSeg t \<Rightarrow> if spoken then concat (spoken_paragraphs L t) else prose_chunks L t
           | CodeSeg c \<Rightarrow> if trim (unmarked c) \<noteq> [] then [c] else [])
         (segments body)))"

text \<open>The paragraphs of the assembler's output; \<open>cur\<close> is the paragraph being collected.\<close>

fun group_paragraphs :: "str list \<Rightarrow> asm_chunk list \<Rightarrow> str list list" where
  "group_paragraphs cur [] = (if cur \<noteq> [] then [cur] else [])"
| "group_paragraphs cur (c # cs) =
     (case spoken_part c of
        Some s \<Rightarrow> group_paragraphs (cur @ [s]) cs
      | None \<Rightarrow>
          if c = ParagraphBreak \<and> cur \<noteq> [] then cur # group_paragraphs [] cs
          else group_paragraphs cur cs)"

definition paragraphs :: "text_lib \<Rightarrow> str \<Rightarrow> bool \<Rightarrow> str list list" where
  "paragraphs L s spoken =
     (if spoken then spoken_paragraphs L s else group_paragraphs [] (assemble_whole L s))"

section \<open>Packing a message\<close>

definition size_of :: "bool \<Rightarrow> str \<Rightarrow> nat" where
  "size_of bytes s = (if bytes then utf8_size s else length s)"

definition join_unit :: "str \<Rightarrow> bool \<Rightarrow> str \<Rightarrow> str" where
  "join_unit cur start s =
     (if cur = [] then s
      else if start then cur @ [10, 10] @ s
      else cur @ [32] @ s)"

text \<open>The closure \<open>pack\<close>: fill each chunk up to the limit, sentence by sentence.\<close>

fun pack :: "nat \<Rightarrow> bool \<Rightarrow> str \<Rightarrow> (bool \<times> str) list \<Rightarrow> str list" where
  "pack lim bytes cur [] = (if cur \<noteq> [] then [cur] else [])"
| "pack lim bytes cur ((start, s) # us) =
     (let nxt = join_unit cur start s
      in if cur \<noteq> [] \<and> lim < size_of bytes nxt then cur # pack lim bytes s us
         else pack lim bytes nxt us)"

definition units :: "str list list \<Rightarrow> (bool \<times> str) list" where
  "units paras = concat (map (\<lambda>p. map (\<lambda>(i, s). (i = 0, s)) (enumerate 0 p)) paras)"

text \<open>The loop that keeps paragraphs whole where it can.\<close>

fun pack_paragraphs :: "nat \<Rightarrow> bool \<Rightarrow> str \<Rightarrow> str list list \<Rightarrow> str list" where
  "pack_paragraphs lim bytes cur [] = (if cur \<noteq> [] then [cur] else [])"
| "pack_paragraphs lim bytes cur (p # ps) =
     (let whole = join [32] p;
          nxt = join_unit cur True whole
      in if size_of bytes nxt \<le> lim then pack_paragraphs lim bytes nxt ps
         else
           (let pushed = (if cur \<noteq> [] then [cur] else [])
            in if size_of bytes whole \<le> lim then pushed @ pack_paragraphs lim bytes whole ps
               else
                 (let parts = pack lim bytes [] (map (\<lambda>s. (False, s)) p);
                      cur' = (if parts = [] then [] else last parts)
                  in pushed @ butlast parts @ pack_paragraphs lim bytes cur' ps)))"

definition pack_prose :: "text_lib \<Rightarrow> str \<Rightarrow> nat \<Rightarrow> bool \<Rightarrow> bool \<Rightarrow> str list" where
  "pack_prose L s lim bytes spoken =
     (let lim = (if lim < 1 then 1 else lim);
          paras = paragraphs L s spoken;
          fewest = pack lim bytes [] (units paras)
      in if length fewest \<le> 1 then fewest
         else
           (let by_para = pack_paragraphs lim bytes [] paras
            in if length by_para \<le> length fewest then by_para else fewest))"

definition pack_message :: "text_lib \<Rightarrow> str \<Rightarrow> nat \<Rightarrow> bool \<Rightarrow> str list" where
  "pack_message L s lim bytes =
     (let (spoken, body) = spoken_form s
      in concat (map (\<lambda>seg. case seg of
             ProseSeg t \<Rightarrow> if trim t \<noteq> [] then pack_prose L t lim bytes spoken else []
           | CodeSeg c \<Rightarrow> if trim (unmarked c) \<noteq> [] then [c] else [])
         (segments body)))"

end
