(* ===== verification/Reader.thy ===== *)
theory Reader imports Chunks begin

text \<open>
  The reader state machine of \<open>crates/sonara-core/src/reader/mod.rs\<close> with the types of
  \<open>reader/types.rs\<close>: one queue of items, the playback controls, step mode and the events. A method
  that creates \<open>let mut fx = Vec::new()\<close> and threads it through its helpers is a function on the
  record with the field \<open>fx\<close>: empty between calls, filled during one. Ids, generations and
  sequence numbers are \<open>u64\<close> counters that start near 0 and are bumped once per call; they are
  natural numbers here (2 to the 64 calls do not happen). An index that would panic sets
  \<open>panicked\<close>, so that "no input makes it panic" is a statement about the model.
\<close>

section \<open>Types (reader/types.rs)\<close>

record item =
  item_id :: nat
  item_label :: "str option"
  item_text :: str
  item_chunks :: "str list"

datatype queue_mode = Append | Replace

datatype control_cmd =
    Play | Pause | Toggle | Stop | Skip | Previous | Next | Restart | Mute | Unmute
  | NextLine | PreviousLine

datatype item_phase = Started | Finished | Skipped | Failed

record now_playing =
  np_item_id :: nat
  np_label :: "str option"
  np_text :: str
  np_chunk :: nat
  np_chunks :: nat
  np_code :: bool

record reader_state =
  st_seq :: nat
  st_now_playing :: "now_playing option"
  st_queued :: nat
  st_paused :: bool
  st_stepping :: bool
  st_muted :: bool
  st_volume :: "8 word"
  st_rate :: "32 word"
  st_voice :: "str option"

datatype event = StateEv reader_state | ItemEv nat item_phase

datatype effect =
    Synthesize nat nat str
  | PlayChunk nat nat nat
  | PauseOutput
  | ResumeOutput
  | StopOutput
  | MuteOutput
  | UnmuteOutput
  | SetVolume "8 word"
  | Emit event

datatype audio_event = ChunkStarted nat | ChunkFinished nat | AudioFailed nat str

section \<open>The state (reader/mod.rs)\<close>

definition MAX_LOOKAHEAD :: nat where "MAX_LOOKAHEAD = 4"

datatype chunking = Sentences | Message nat bool

record current =
  cur_item :: item
  cur_chunk :: nat
  cur_played_any :: bool

record reader =
  next_id :: nat
  gen :: nat
  current :: "current option"
  queue :: "item list"
  last_item :: "item option"
  paused :: bool
  loaded :: "nat option"
  muted :: bool
  volume :: "8 word"
  rate :: "32 word"
  voice :: "str option"
  requested :: "(nat \<times> nat) set"
  lookahead :: nat
  chunk_mode :: chunking
  code_step :: bool
  released :: bool
  step_wait :: bool
  shown :: reader_state
  panicked :: bool
  fx :: "effect list"

section \<open>Effects\<close>

definition push_fx :: "effect \<Rightarrow> reader \<Rightarrow> reader" where
  "push_fx e r = r\<lparr>fx := fx r @ [e]\<rparr>"

definition emit_item :: "nat \<Rightarrow> item_phase \<Rightarrow> reader \<Rightarrow> reader" where
  "emit_item iid ph r = push_fx (Emit (ItemEv iid ph)) r"

definition request :: "nat \<Rightarrow> nat \<Rightarrow> str \<Rightarrow> reader \<Rightarrow> reader" where
  "request it chunk txt r =
     (if (it, chunk) \<in> requested r then r
      else push_fx (Synthesize it chunk txt) (r\<lparr>requested := insert (it, chunk) (requested r)\<rparr>))"

definition stop_output :: "reader \<Rightarrow> reader" where
  "stop_output r =
     (case loaded r of None \<Rightarrow> r | Some _ \<Rightarrow> push_fx StopOutput (r\<lparr>loaded := None\<rparr>))"

definition forget :: "nat \<Rightarrow> item_phase \<Rightarrow> reader \<Rightarrow> reader" where
  "forget iid ph r = emit_item iid ph (r\<lparr>requested := Set.filter (\<lambda>p. fst p \<noteq> iid) (requested r)\<rparr>)"

definition end_current :: "item_phase \<Rightarrow> reader \<Rightarrow> reader" where
  "end_current ph r =
     (let r = stop_output r
      in case current r of
           None \<Rightarrow> r
         | Some cur \<Rightarrow>
             (forget (item_id (cur_item cur)) ph (r\<lparr>current := None\<rparr>))
               \<lparr>last_item := Some (cur_item cur)\<rparr>)"

section \<open>Code chunks and the snapshot\<close>

text \<open>\<open>c.item.chunks[c.chunk]\<close>: in range, or a panic.\<close>

definition in_range :: "current \<Rightarrow> bool" where
  "in_range cur \<longleftrightarrow> cur_chunk cur < length (item_chunks (cur_item cur))"

definition check_index :: "reader \<Rightarrow> reader" where
  "check_index r =
     (case current r of
        None \<Rightarrow> r
      | Some cur \<Rightarrow> if in_range cur then r else r\<lparr>panicked := True\<rparr>)"

definition chunk_text :: "current \<Rightarrow> str" where
  "chunk_text cur = item_chunks (cur_item cur) ! cur_chunk cur"

definition in_code :: "reader \<Rightarrow> bool" where
  "in_code r \<longleftrightarrow>
     step_wait r \<or>
     (case current r of None \<Rightarrow> False | Some cur \<Rightarrow> kind (chunk_text cur) \<noteq> Prose)"

definition kind_at :: "reader \<Rightarrow> nat \<Rightarrow> code_kind" where
  "kind_at r i =
     (case current r of
        None \<Rightarrow> Prose
      | Some cur \<Rightarrow>
          if i < length (item_chunks (cur_item cur)) then kind (item_chunks (cur_item cur) ! i)
          else Prose)"

definition snapshot :: "nat \<Rightarrow> reader \<Rightarrow> reader_state" where
  "snapshot seq r =
     \<lparr>st_seq = seq,
      st_now_playing = map_option (\<lambda>cur.
        \<lparr>np_item_id = item_id (cur_item cur),
         np_label = item_label (cur_item cur),
         np_text = unmarked (chunk_text cur),
         np_chunk = cur_chunk cur,
         np_chunks = length (item_chunks (cur_item cur)),
         np_code = in_code r\<rparr>) (current r),
      st_queued = length (queue r),
      st_paused = paused r,
      st_stepping = step_wait r,
      st_muted = muted r,
      st_volume = volume r,
      st_rate = rate r,
      st_voice = voice r\<rparr>"

section \<open>Transitions\<close>

definition end_wait :: "reader \<Rightarrow> reader" where
  "end_wait r = (if step_wait r then r\<lparr>step_wait := False, paused := False\<rparr> else r)"

definition release_code :: "reader \<Rightarrow> reader" where
  "release_code r = (if step_wait r then r\<lparr>released := True\<rparr> else r)"

definition begin_chunk :: "reader \<Rightarrow> reader" where
  "begin_chunk r =
     (case current r of
        None \<Rightarrow> r
      | Some cur \<Rightarrow>
          let iid = item_id (cur_item cur);
              r = request iid (cur_chunk cur) (chunk_text cur) (check_index r)
          in if paused r then r
             else push_fx (PlayChunk iid (cur_chunk cur) (gen r + 1))
                    (r\<lparr>gen := gen r + 1, loaded := Some (gen r + 1)\<rparr>))"

text \<open>\<open>enter_item\<close> is the branch of \<open>start_next\<close> that makes the popped item current.\<close>

definition enter_item :: "item \<Rightarrow> item list \<Rightarrow> reader \<Rightarrow> reader" where
  "enter_item it q r =
     (emit_item (item_id it) Started (r\<lparr>queue := q, released := False\<rparr>))
       \<lparr>current := Some \<lparr>cur_item = it, cur_chunk = 0, cur_played_any = False\<rparr>\<rparr>"

definition start_next :: "reader \<Rightarrow> reader" where
  "start_next r =
     (let r = end_wait r
      in case queue r of
           [] \<Rightarrow> r\<lparr>paused := False\<rparr>
         | it # q \<Rightarrow> begin_chunk (enter_item it q r))"

definition pause_reader :: "reader \<Rightarrow> reader" where
  "pause_reader r =
     (let r = r\<lparr>step_wait := False\<rparr>
      in if current r = None \<or> paused r then r
         else (let r = r\<lparr>paused := True\<rparr>
               in if loaded r \<noteq> None then push_fx PauseOutput r else r))"

definition resume_reader :: "reader \<Rightarrow> reader" where
  "resume_reader r =
     (let r = r\<lparr>paused := False, step_wait := False\<rparr>
      in if loaded r \<noteq> None then push_fx ResumeOutput r else begin_chunk r)"

text \<open>\<open>while let Some(dropped) = self.queue.pop_front() { self.forget(..., Skipped) }\<close>\<close>

definition drop_queue :: "reader \<Rightarrow> reader" where
  "drop_queue r = fold (\<lambda>it. forget (item_id it) Skipped) (queue r) (r\<lparr>queue := []\<rparr>)"

definition stop_reader :: "reader \<Rightarrow> reader" where
  "stop_reader r =
     (let r = r\<lparr>last_item := None\<rparr>
      in if current r = None \<and> queue r = [] then r
         else (drop_queue (end_current Skipped r))
                \<lparr>last_item := None, paused := False, step_wait := False\<rparr>)"

definition skip_item :: "reader \<Rightarrow> reader" where
  "skip_item r = start_next (end_current Skipped r)"

definition move_to :: "nat \<Rightarrow> reader \<Rightarrow> reader" where
  "move_to to r =
     (let r = stop_output (end_wait r);
          r = r\<lparr>current := map_option (\<lambda>cur. cur\<lparr>cur_chunk := to\<rparr>) (current r)\<rparr>;
          r = (if kind_at r to \<noteq> Line then r\<lparr>released := False\<rparr> else r)
      in begin_chunk r)"

definition waits_after :: "code_kind \<Rightarrow> code_kind \<Rightarrow> bool" where
  "waits_after ended nxt =
     (case ended of Prose \<Rightarrow> False | Start \<Rightarrow> nxt = Line | Line \<Rightarrow> True)"

definition advance :: "reader \<Rightarrow> reader" where
  "advance r =
     (case current r of
        None \<Rightarrow> r
      | Some cur \<Rightarrow>
          if cur_chunk cur + 1 < length (item_chunks (cur_item cur)) then
            let ended = kind (item_chunks (cur_item cur) ! cur_chunk cur);
                nxt = kind (item_chunks (cur_item cur) ! (cur_chunk cur + 1));
                was_released = released r;
                r = r\<lparr>current := Some (cur\<lparr>cur_chunk := cur_chunk cur + 1\<rparr>)\<rparr>;
                r = (if nxt \<noteq> Line then r\<lparr>released := False\<rparr> else r);
                r = (if code_step r \<and> \<not> was_released \<and> waits_after ended nxt \<and> \<not> paused r
                     then r\<lparr>paused := True, step_wait := True\<rparr> else r)
            in begin_chunk r
          else
            start_next (end_current (if cur_played_any cur then Finished else Failed) r))"

definition line_step :: "bool \<Rightarrow> reader \<Rightarrow> reader" where
  "line_step nxt r =
     (case current r of
        None \<Rightarrow> r
      | Some cur \<Rightarrow>
          let r = check_index r
          in if \<not> in_code r then r
             else
               let at = cur_chunk cur;
                   len = length (item_chunks (cur_item cur));
                   waiting = (paused r \<and> loaded r = None);
                   to = (if nxt then (if waiting then at else at + 1)
                         else if 0 < at \<and> kind_at r (at - 1) = Line then at - 1
                         else at);
                   r = r\<lparr>paused := False, step_wait := False, released := False\<rparr>
               in if len \<le> to then skip_item r else move_to to r)"

section \<open>Prefetch and the end of a call\<close>

definition chunks_of :: "item \<Rightarrow> (nat \<times> nat \<times> str) list" where
  "chunks_of it = map (\<lambda>(i, t). (item_id it, i, t)) (enumerate 0 (item_chunks it))"

definition ahead :: "reader \<Rightarrow> (nat \<times> nat \<times> str) list" where
  "ahead r =
     (case current r of
        None \<Rightarrow> []
      | Some cur \<Rightarrow>
          take (lookahead r)
            (drop (cur_chunk cur + 1) (chunks_of (cur_item cur)) @ concat (map chunks_of (queue r))))"

definition prefetch :: "reader \<Rightarrow> reader" where
  "prefetch r =
     (if loaded r = None \<or> current r = None then r
      else fold (\<lambda>(iid, chunk, t). request iid chunk t) (ahead r) r)"

definition finish :: "reader \<Rightarrow> reader" where
  "finish r =
     (let r = check_index (prefetch r)
      in if snapshot (st_seq (shown r)) r \<noteq> shown r then
           (let st = snapshot (st_seq (shown r) + 1) r
            in push_fx (Emit (StateEv st)) (r\<lparr>shown := st\<rparr>))
         else r)"

section \<open>The public methods\<close>

definition blank_state :: reader_state where
  "blank_state =
     \<lparr>st_seq = 0, st_now_playing = None, st_queued = 0, st_paused = False, st_stepping = False,
      st_muted = False, st_volume = 0, st_rate = 0, st_voice = None\<rparr>"

definition new_reader :: reader where
  "new_reader =
     (let r = \<lparr>next_id = 1, gen = 0, current = None, queue = [], last_item = None,
               paused = False, loaded = None, muted = False, volume = 100, rate = 200,
               voice = None, requested = {}, lookahead = 1, chunk_mode = Sentences,
               code_step = False, released = False, step_wait = False, shown = blank_state,
               panicked = False, fx = []\<rparr>
      in r\<lparr>shown := snapshot 0 r\<rparr>)"

definition cut :: "text_lib \<Rightarrow> chunking \<Rightarrow> str \<Rightarrow> str list" where
  "cut L c txt =
     (case c of Sentences \<Rightarrow> split_chunks L txt | Message lim bytes \<Rightarrow> pack_message L txt lim bytes)"

definition place_item :: "item \<Rightarrow> bool \<Rightarrow> reader \<Rightarrow> reader" where
  "place_item it interrupt r =
     (if interrupt \<and> current r \<noteq> None then
        (let r = end_current Skipped r in start_next (r\<lparr>queue := it # queue r\<rparr>))
      else
        (let r = r\<lparr>queue := queue r @ [it]\<rparr>
         in if current r = None then start_next r else r))"

definition speak :: "text_lib \<Rightarrow> str \<Rightarrow> queue_mode \<Rightarrow> bool \<Rightarrow> str option \<Rightarrow> reader \<Rightarrow> reader" where
  "speak L txt mode interrupt label r =
     (let iid = next_id r;
          r = r\<lparr>next_id := next_id r + 1\<rparr>;
          chunks = cut L (chunk_mode r) txt
      in if chunks = [] then emit_item iid Skipped r
         else
           let it = \<lparr>item_id = iid, item_label = label, item_text = txt, item_chunks = chunks\<rparr>;
               r = (if mode = Replace then drop_queue r else r)
           in finish (place_item it interrupt r))"

definition restart :: "reader \<Rightarrow> reader" where
  "restart r =
     (case current r of
        Some _ \<Rightarrow> move_to 0 r
      | None \<Rightarrow>
          (case last_item r of
             None \<Rightarrow> r
           | Some it \<Rightarrow>
               start_next
                 (r\<lparr>last_item := None, next_id := next_id r + 1,
                    queue := it\<lparr>item_id := next_id r\<rparr> # queue r\<rparr>)))"

definition apply_control :: "control_cmd \<Rightarrow> reader \<Rightarrow> reader" where
  "apply_control c r =
     (case c of
        Play \<Rightarrow> if paused r then resume_reader (release_code r) else r
      | Pause \<Rightarrow> pause_reader r
      | Toggle \<Rightarrow> if paused r then resume_reader (release_code r) else pause_reader r
      | Stop \<Rightarrow> stop_reader r
      | Skip \<Rightarrow> if current r \<noteq> None then skip_item r else r
      | Previous \<Rightarrow>
          (case current r of None \<Rightarrow> r | Some cur \<Rightarrow> move_to (cur_chunk cur - 1) r)
      | Next \<Rightarrow>
          (case current r of
             None \<Rightarrow> r
           | Some cur \<Rightarrow>
               if cur_chunk cur + 1 < length (item_chunks (cur_item cur))
               then move_to (cur_chunk cur + 1) r
               else skip_item r)
      | Restart \<Rightarrow> restart r
      | Mute \<Rightarrow> if muted r then r else push_fx MuteOutput (r\<lparr>muted := True\<rparr>)
      | Unmute \<Rightarrow> if muted r then push_fx UnmuteOutput (r\<lparr>muted := False\<rparr>) else r
      | NextLine \<Rightarrow> line_step True r
      | PreviousLine \<Rightarrow> line_step False r)"

definition control :: "control_cmd \<Rightarrow> reader \<Rightarrow> reader" where
  "control c r = finish (apply_control c r)"

definition set_code_step :: "bool \<Rightarrow> reader \<Rightarrow> reader" where
  "set_code_step on r =
     (let r = r\<lparr>code_step := on\<rparr>
      in finish (if \<not> on \<and> step_wait r then resume_reader r else r))"

fun audio_gen :: "audio_event \<Rightarrow> nat" where
  "audio_gen (ChunkStarted g) = g"
| "audio_gen (ChunkFinished g) = g"
| "audio_gen (AudioFailed g reason) = g"

definition mark_played :: "reader \<Rightarrow> reader" where
  "mark_played r = r\<lparr>current := map_option (\<lambda>cur. cur\<lparr>cur_played_any := True\<rparr>) (current r)\<rparr>"

definition on_audio :: "audio_event \<Rightarrow> reader \<Rightarrow> reader" where
  "on_audio e r =
     (if loaded r \<noteq> Some (audio_gen e) then r
      else finish
        (case e of
           ChunkStarted _ \<Rightarrow> mark_played r
         | ChunkFinished _ \<Rightarrow> advance (mark_played (r\<lparr>loaded := None\<rparr>))
         | AudioFailed _ _ \<Rightarrow> advance (r\<lparr>loaded := None\<rparr>)))"

definition set_volume :: "8 word \<Rightarrow> reader \<Rightarrow> reader" where
  "set_volume v r =
     finish (if v \<noteq> volume r then push_fx (SetVolume v) (r\<lparr>volume := v\<rparr>) else r)"

definition set_rate :: "32 word \<Rightarrow> reader \<Rightarrow> reader" where
  "set_rate n r = finish (r\<lparr>rate := n\<rparr>)"

definition set_voice :: "str option \<Rightarrow> reader \<Rightarrow> reader" where
  "set_voice v r = finish (r\<lparr>voice := v\<rparr>)"

definition set_lookahead :: "nat \<Rightarrow> reader \<Rightarrow> reader" where
  "set_lookahead n r = finish (r\<lparr>lookahead := max 1 (min n MAX_LOOKAHEAD)\<rparr>)"

definition set_chunking :: "chunking \<Rightarrow> reader \<Rightarrow> reader" where
  "set_chunking c r = finish (r\<lparr>chunk_mode := c\<rparr>)"

section \<open>The reader as a machine\<close>

datatype input =
    Speak str queue_mode bool "str option"
  | Control control_cmd
  | SetCodeStep bool
  | OnAudio audio_event
  | SetVolumeTo "8 word"
  | SetRate "32 word"
  | SetVoice "str option"
  | SetLookahead nat
  | SetChunking chunking

fun apply_input :: "text_lib \<Rightarrow> input \<Rightarrow> reader \<Rightarrow> reader" where
  "apply_input L (Speak txt mode interrupt label) r = speak L txt mode interrupt label r"
| "apply_input L (Control c) r = control c r"
| "apply_input L (SetCodeStep on) r = set_code_step on r"
| "apply_input L (OnAudio e) r = on_audio e r"
| "apply_input L (SetVolumeTo v) r = set_volume v r"
| "apply_input L (SetRate n) r = set_rate n r"
| "apply_input L (SetVoice v) r = set_voice v r"
| "apply_input L (SetLookahead n) r = set_lookahead n r"
| "apply_input L (SetChunking c) r = set_chunking c r"

definition reader_step :: "text_lib \<Rightarrow> reader \<Rightarrow> input \<Rightarrow> reader \<times> effect list" where
  "reader_step L r i = (let r' = apply_input L i r in (r'\<lparr>fx := []\<rparr>, fx r'))"

definition run_reader :: "text_lib \<Rightarrow> input list \<Rightarrow> reader \<times> effect list" where
  "run_reader L is = run_machine (reader_step L) new_reader is"

end
