(* ===== verification/Reader_Inv.thy ===== *)
theory Reader_Inv imports Reader begin

text \<open>
  The structural invariant of the reader: every index is in range (the code never panics), an idle
  reader is not paused and holds nothing, a reader that is neither idle nor paused has a chunk in
  the output, and a step wait is a pause with an empty output. Each helper is shown to keep the
  part that holds during a call (\<open>wf_core\<close>), each public method the whole (\<open>wf\<close>).
\<close>

section \<open>The invariant\<close>

definition wf_core :: "reader \<Rightarrow> bool" where
  "wf_core r \<longleftrightarrow>
     (\<forall>cur. current r = Some cur \<longrightarrow> in_range cur) \<and>
     (\<forall>it \<in> set (queue r). item_chunks it \<noteq> []) \<and>
     (\<forall>it. last_item r = Some it \<longrightarrow> item_chunks it \<noteq> []) \<and>
     (\<forall>g. loaded r = Some g \<longrightarrow> g = gen r \<and> current r \<noteq> None) \<and>
     (step_wait r \<longrightarrow> paused r \<and> loaded r = None) \<and>
     1 \<le> lookahead r \<and> lookahead r \<le> MAX_LOOKAHEAD \<and>
     \<not> panicked r"

definition settled :: "reader \<Rightarrow> bool" where
  "settled r \<longleftrightarrow>
     (current r = None \<longrightarrow>
        queue r = [] \<and> \<not> paused r \<and> loaded r = None \<and> \<not> step_wait r) \<and>
     (current r \<noteq> None \<and> \<not> paused r \<longrightarrow> loaded r \<noteq> None)"

definition up_to_date :: "reader \<Rightarrow> bool" where
  "up_to_date r \<longleftrightarrow> shown r = snapshot (st_seq (shown r)) r"

definition wf :: "reader \<Rightarrow> bool" where
  "wf r \<longleftrightarrow> wf_core r \<and> settled r \<and> up_to_date r"

section \<open>What the primitive steps leave unchanged\<close>

text \<open>
  \<open>same_core r s\<close>: the two states agree on everything but the ids handed out, the chunks already
  requested, the state shown and the effects. Requests, item events and prefetching only move
  between such states.
\<close>

definition same_core :: "reader \<Rightarrow> reader \<Rightarrow> bool" where
  "same_core r s \<longleftrightarrow>
     gen s = gen r \<and> current s = current r \<and> queue s = queue r \<and> last_item s = last_item r \<and>
     paused s = paused r \<and> loaded s = loaded r \<and> muted s = muted r \<and> volume s = volume r \<and>
     rate s = rate r \<and> voice s = voice r \<and> lookahead s = lookahead r \<and>
     chunk_mode s = chunk_mode r \<and> code_step s = code_step r \<and> released s = released r \<and>
     step_wait s = step_wait r \<and> panicked s = panicked r"

lemma same_core_refl [simp]: "same_core r r"
  by (simp add: same_core_def)

lemma same_core_trans: "same_core r s \<Longrightarrow> same_core s t \<Longrightarrow> same_core r t"
  by (simp add: same_core_def)

lemma same_core_wf_core: "same_core r s \<Longrightarrow> wf_core s = wf_core r"
  by (simp add: same_core_def wf_core_def)

lemma same_core_settled: "same_core r s \<Longrightarrow> settled s = settled r"
  by (simp add: same_core_def settled_def)

lemma same_core_snapshot: "same_core r s \<Longrightarrow> snapshot q s = snapshot q r"
  by (simp add: same_core_def snapshot_def in_code_def)

lemma push_fx_same [simp]: "same_core r (push_fx e r)"
  by (simp add: same_core_def push_fx_def)

lemma emit_item_same [simp]: "same_core r (emit_item iid ph r)"
  by (simp add: emit_item_def)

lemma request_same [simp]: "same_core r (request iid c t r)"
  by (simp add: same_core_def request_def push_fx_def)

lemma forget_same [simp]: "same_core r (forget iid ph r)"
  by (simp add: same_core_def forget_def emit_item_def push_fx_def)

lemma fold_same:
  assumes "\<And>x r. same_core r (f x r)"
  shows "same_core r (fold f xs r)"
proof (induction xs arbitrary: r)
  case Nil
  show ?case by simp
next
  case (Cons x xs)
  have "same_core r (f x r)" by (rule assms)
  moreover have "same_core (f x r) (fold f xs (f x r))" by (rule Cons.IH)
  ultimately have "same_core r (fold f xs (f x r))" by (rule same_core_trans)
  then show ?case by simp
qed

lemma prefetch_same [simp]: "same_core r (prefetch r)"
  by (auto simp: prefetch_def intro!: fold_same)

lemma drop_queue_same: "same_core (r\<lparr>queue := []\<rparr>) (drop_queue r)"
  by (auto simp: drop_queue_def intro!: fold_same)

lemmas same_coreD =
  same_core_wf_core same_core_settled same_core_snapshot

lemma request_fields [simp]:
  "gen (request iid c t r) = gen r" "current (request iid c t r) = current r"
  "queue (request iid c t r) = queue r" "last_item (request iid c t r) = last_item r"
  "paused (request iid c t r) = paused r" "loaded (request iid c t r) = loaded r"
  "step_wait (request iid c t r) = step_wait r" "panicked (request iid c t r) = panicked r"
  "lookahead (request iid c t r) = lookahead r" "released (request iid c t r) = released r"
  "code_step (request iid c t r) = code_step r" "muted (request iid c t r) = muted r"
  using request_same [of r iid c t] by (simp_all add: same_core_def)

lemma drop_queue_fields [simp]:
  "gen (drop_queue r) = gen r" "current (drop_queue r) = current r"
  "queue (drop_queue r) = []" "last_item (drop_queue r) = last_item r"
  "paused (drop_queue r) = paused r" "loaded (drop_queue r) = loaded r"
  "step_wait (drop_queue r) = step_wait r" "panicked (drop_queue r) = panicked r"
  "lookahead (drop_queue r) = lookahead r" "code_step (drop_queue r) = code_step r"
  using drop_queue_same [of r] by (simp_all add: same_core_def)

section \<open>The helpers keep the core\<close>

lemma check_index_id: "wf_core r \<Longrightarrow> check_index r = r"
  by (auto simp: check_index_def wf_core_def split: option.splits)

lemma stop_output_core: "wf_core r \<Longrightarrow> wf_core (stop_output r)"
  by (auto simp: stop_output_def wf_core_def push_fx_def split: option.splits)

lemma stop_output_fields [simp]:
  "current (stop_output r) = current r" "queue (stop_output r) = queue r"
  "loaded (stop_output r) = None" "paused (stop_output r) = paused r"
  "step_wait (stop_output r) = step_wait r" "last_item (stop_output r) = last_item r"
  "gen (stop_output r) = gen r" "code_step (stop_output r) = code_step r"
  "panicked (stop_output r) = panicked r" "lookahead (stop_output r) = lookahead r"
  "released (stop_output r) = released r"
  by (auto simp: stop_output_def push_fx_def split: option.splits)

lemma end_current_fields [simp]:
  "current (end_current ph r) = None" "queue (end_current ph r) = queue r"
  "loaded (end_current ph r) = None" "paused (end_current ph r) = paused r"
  "step_wait (end_current ph r) = step_wait r" "gen (end_current ph r) = gen r"
  "code_step (end_current ph r) = code_step r" "panicked (end_current ph r) = panicked r"
  "lookahead (end_current ph r) = lookahead r" "released (end_current ph r) = released r"
  by (auto simp: end_current_def forget_def emit_item_def push_fx_def Let_def split: option.splits)

lemma end_current_last:
  "last_item (end_current ph r) =
     (case current r of None \<Rightarrow> last_item r | Some cur \<Rightarrow> Some (cur_item cur))"
  by (auto simp: end_current_def forget_def emit_item_def push_fx_def Let_def split: option.splits)

lemma in_range_nonempty: "in_range cur \<Longrightarrow> item_chunks (cur_item cur) \<noteq> []"
  by (auto simp: in_range_def)

lemma end_current_core: "wf_core r \<Longrightarrow> wf_core (end_current ph r)"
  by (auto simp: wf_core_def end_current_last in_range_nonempty split: option.splits)

lemma end_wait_core: "wf_core r \<Longrightarrow> wf_core (end_wait r)"
  by (auto simp: wf_core_def end_wait_def)

lemma end_wait_fields [simp]:
  "current (end_wait r) = current r" "queue (end_wait r) = queue r"
  "loaded (end_wait r) = loaded r" "\<not> step_wait (end_wait r)"
  "last_item (end_wait r) = last_item r" "gen (end_wait r) = gen r"
  "code_step (end_wait r) = code_step r" "released (end_wait r) = released r"
  by (auto simp: end_wait_def)

text \<open>\<open>begin_chunk\<close> is called with nothing in the output; then it settles the reader.\<close>

lemma begin_chunk_core:
  "wf_core r \<Longrightarrow> loaded r = None \<Longrightarrow> wf_core (begin_chunk r)"
  by (auto simp: begin_chunk_def check_index_id Let_def push_fx_def wf_core_def split: option.splits)

lemma begin_chunk_settled:
  "wf_core r \<Longrightarrow> current r \<noteq> None \<Longrightarrow> settled (begin_chunk r)"
  by (auto simp: begin_chunk_def check_index_id settled_def push_fx_def Let_def split: option.splits)

lemma enter_item_fields [simp]:
  "current (enter_item it q r) = Some \<lparr>cur_item = it, cur_chunk = 0, cur_played_any = False\<rparr>"
  "queue (enter_item it q r) = q" "loaded (enter_item it q r) = loaded r"
  "paused (enter_item it q r) = paused r" "step_wait (enter_item it q r) = step_wait r"
  "last_item (enter_item it q r) = last_item r" "gen (enter_item it q r) = gen r"
  "panicked (enter_item it q r) = panicked r" "lookahead (enter_item it q r) = lookahead r"
  "code_step (enter_item it q r) = code_step r"
  by (simp_all add: enter_item_def emit_item_def push_fx_def)

lemma enter_item_core:
  "wf_core r \<Longrightarrow> queue r = it # q \<Longrightarrow> wf_core (enter_item it q r)"
  by (auto simp: wf_core_def in_range_def)

lemma start_next_Nil: "queue r = [] \<Longrightarrow> start_next r = (end_wait r)\<lparr>paused := False\<rparr>"
  by (simp add: start_next_def)

lemma start_next_Cons:
  "queue r = it # q \<Longrightarrow> start_next r = begin_chunk (enter_item it q (end_wait r))"
  by (simp add: start_next_def Let_def)

lemma start_next_wf:
  assumes "wf_core r" "current r = None" "loaded r = None"
  shows "wf_core (start_next r) \<and> settled (start_next r)"
proof (cases "queue r")
  case Nil
  have "wf_core (end_wait r)" using assms(1) by (rule end_wait_core)
  then show ?thesis using Nil assms(2,3)
    by (auto simp: start_next_Nil wf_core_def settled_def)
next
  case (Cons it q)
  have "wf_core (enter_item it q (end_wait r))"
    using end_wait_core [OF assms(1)] Cons by (simp add: enter_item_core)
  then show ?thesis using Cons assms(3)
    by (simp add: start_next_Cons begin_chunk_core begin_chunk_settled)
qed

lemma skip_item_wf:
  assumes "wf_core r"
  shows "wf_core (skip_item r) \<and> settled (skip_item r)"
  using end_current_core [OF assms] by (simp add: skip_item_def start_next_wf)

lemma pause_wf: "wf_core r \<Longrightarrow> settled r \<Longrightarrow> wf_core (pause_reader r) \<and> settled (pause_reader r)"
  by (auto simp: pause_reader_def wf_core_def settled_def push_fx_def Let_def)

lemma release_code_core: "wf_core r \<Longrightarrow> wf_core (release_code r)"
  by (auto simp: release_code_def wf_core_def)

lemma release_code_fields [simp]:
  "current (release_code r) = current r" "loaded (release_code r) = loaded r"
  "queue (release_code r) = queue r" "paused (release_code r) = paused r"
  by (simp_all add: release_code_def)

lemma resume_wf:
  assumes "wf_core r" "current r \<noteq> None"
  shows "wf_core (resume_reader r) \<and> settled (resume_reader r)"
proof -
  let ?r = "r\<lparr>paused := False, step_wait := False\<rparr>"
  have core: "wf_core ?r" using assms(1) by (auto simp: wf_core_def)
  show ?thesis
  proof (cases "loaded r")
    case None
    then have "resume_reader r = begin_chunk ?r" by (simp add: resume_reader_def)
    then show ?thesis using core None assms(2) by (simp add: begin_chunk_core begin_chunk_settled)
  next
    case (Some g)
    then have "resume_reader r = push_fx ResumeOutput ?r" by (simp add: resume_reader_def)
    moreover have "settled ?r" using assms(2) Some by (auto simp: settled_def)
    ultimately show ?thesis using core
      by (simp add: same_core_wf_core [OF push_fx_same] same_core_settled [OF push_fx_same])
  qed
qed

lemma stop_wf:
  assumes "wf_core r" "settled r"
  shows "wf_core (stop_reader r) \<and> settled (stop_reader r)"
proof -
  have "wf_core (end_current Skipped (r\<lparr>last_item := None\<rparr>))"
    using assms(1) by (intro end_current_core) (auto simp: wf_core_def)
  then show ?thesis using assms
    by (auto simp: stop_reader_def Let_def wf_core_def settled_def)
qed

text \<open>The state \<open>move_to\<close> and \<open>advance\<close> hand to \<open>begin_chunk\<close>.\<close>

definition moved :: "nat \<Rightarrow> reader \<Rightarrow> reader" where
  "moved to r =
     (let r = stop_output (end_wait r);
          r = r\<lparr>current := map_option (\<lambda>cur. cur\<lparr>cur_chunk := to\<rparr>) (current r)\<rparr>
      in if kind_at r to \<noteq> Line then r\<lparr>released := False\<rparr> else r)"

lemma move_to_eq: "move_to to r = begin_chunk (moved to r)"
  by (simp add: move_to_def moved_def Let_def)

lemma moved_fields [simp]:
  "current (moved to r) = map_option (\<lambda>cur. cur\<lparr>cur_chunk := to\<rparr>) (current r)"
  "queue (moved to r) = queue r" "loaded (moved to r) = None" "\<not> step_wait (moved to r)"
  "last_item (moved to r) = last_item r" "gen (moved to r) = gen r"
  "code_step (moved to r) = code_step r"
  by (simp_all add: moved_def Let_def)

lemma moved_core:
  assumes "wf_core r" "current r = Some cur" "to < length (item_chunks (cur_item cur))"
  shows "wf_core (moved to r)"
  using stop_output_core [OF end_wait_core [OF assms(1)]] assms(2,3)
  by (auto simp: moved_def Let_def wf_core_def in_range_def)

lemma move_to_wf:
  assumes "wf_core r" "current r = Some cur" "to < length (item_chunks (cur_item cur))"
  shows "wf_core (move_to to r) \<and> settled (move_to to r)"
  using moved_core [OF assms] assms(2)
  by (simp add: move_to_eq begin_chunk_core begin_chunk_settled)

definition advanced :: "current \<Rightarrow> reader \<Rightarrow> reader" where
  "advanced cur r =
     (let ended = kind (item_chunks (cur_item cur) ! cur_chunk cur);
          nxt = kind (item_chunks (cur_item cur) ! (cur_chunk cur + 1));
          was_released = released r;
          r = r\<lparr>current := Some (cur\<lparr>cur_chunk := cur_chunk cur + 1\<rparr>)\<rparr>;
          r = (if nxt \<noteq> Line then r\<lparr>released := False\<rparr> else r)
      in if code_step r \<and> \<not> was_released \<and> waits_after ended nxt \<and> \<not> paused r
         then r\<lparr>paused := True, step_wait := True\<rparr> else r)"

lemma advance_within:
  "current r = Some cur \<Longrightarrow> cur_chunk cur + 1 < length (item_chunks (cur_item cur)) \<Longrightarrow>
   advance r = begin_chunk (advanced cur r)"
  by (simp add: advance_def advanced_def Let_def)

lemma advance_at_end:
  "current r = Some cur \<Longrightarrow> \<not> cur_chunk cur + 1 < length (item_chunks (cur_item cur)) \<Longrightarrow>
   advance r = start_next (end_current (if cur_played_any cur then Finished else Failed) r)"
  by (simp add: advance_def Let_def)

lemma advanced_fields [simp]:
  "current (advanced cur r) = Some (cur\<lparr>cur_chunk := cur_chunk cur + 1\<rparr>)"
  "queue (advanced cur r) = queue r" "loaded (advanced cur r) = loaded r"
  "last_item (advanced cur r) = last_item r" "gen (advanced cur r) = gen r"
  "code_step (advanced cur r) = code_step r"
  by (simp_all add: advanced_def Let_def)

lemma advanced_core:
  assumes "wf_core r" "loaded r = None" "cur_chunk cur + 1 < length (item_chunks (cur_item cur))"
  shows "wf_core (advanced cur r)"
  using assms by (auto simp: advanced_def Let_def wf_core_def in_range_def)

lemma advance_wf:
  assumes "wf_core r" "current r \<noteq> None" "loaded r = None"
  shows "wf_core (advance r) \<and> settled (advance r)"
proof -
  obtain cur where cur: "current r = Some cur" using assms(2) by blast
  show ?thesis
  proof (cases "cur_chunk cur + 1 < length (item_chunks (cur_item cur))")
    case True
    then show ?thesis using advanced_core [OF assms(1,3) True] cur assms(3)
      by (simp add: advance_within begin_chunk_core begin_chunk_settled)
  next
    case False
    then show ?thesis using end_current_core [OF assms(1)] cur
      by (simp add: advance_at_end start_next_wf)
  qed
qed

lemma line_step_wf:
  assumes "wf_core r" "settled r"
  shows "wf_core (line_step nxt r) \<and> settled (line_step nxt r)"
proof (cases "current r")
  case None
  then show ?thesis using assms by (simp add: line_step_def)
next
  case (Some cur)
  let ?r = "r\<lparr>paused := False, step_wait := False, released := False\<rparr>"
  have core: "wf_core ?r" using assms(1) by (auto simp: wf_core_def)
  have "wf_core (move_to to ?r) \<and> settled (move_to to ?r)"
    if "to < length (item_chunks (cur_item cur))" for to
    using move_to_wf [OF core, of cur] that by (simp add: Some)
  then show ?thesis using assms skip_item_wf [OF core] Some
    by (auto simp: line_step_def check_index_id Let_def not_le)
qed

lemma restart_wf:
  assumes "wf_core r" "settled r"
  shows "wf_core (restart r) \<and> settled (restart r)"
proof (cases "current r")
  case (Some cur)
  then have "0 < length (item_chunks (cur_item cur))"
    using assms(1) by (auto simp: wf_core_def in_range_def)
  then show ?thesis using move_to_wf [OF assms(1) Some] Some by (simp add: restart_def)
next
  case None
  show ?thesis
  proof (cases "last_item r")
    case None': None
    then show ?thesis using assms None by (simp add: restart_def)
  next
    case (Some it)
    let ?r = "r\<lparr>last_item := None, next_id := next_id r + 1,
               queue := it\<lparr>item_id := next_id r\<rparr> # queue r\<rparr>"
    have "wf_core ?r" using assms(1) Some by (auto simp: wf_core_def)
    moreover have "loaded r = None" using assms(2) None by (simp add: settled_def)
    ultimately show ?thesis using None Some by (simp add: restart_def start_next_wf)
  qed
qed

section \<open>The public methods keep the invariant\<close>

lemma apply_control_wf:
  assumes "wf_core r" "settled r"
  shows "wf_core (apply_control c r) \<and> settled (apply_control c r)"
proof -
  have paused_busy: "paused r \<Longrightarrow> current (release_code r) \<noteq> None"
    using assms(2) by (auto simp: settled_def)
  have in_cur: "current r = Some cur \<Longrightarrow> in_range cur" for cur
    using assms(1) by (auto simp: wf_core_def)
  have resume: "paused r \<Longrightarrow>
      wf_core (resume_reader (release_code r)) \<and> settled (resume_reader (release_code r))"
    using release_code_core [OF assms(1)] paused_busy by (simp add: resume_wf)
  show ?thesis
  proof (cases c)
    case Previous
    have "wf_core (move_to (cur_chunk cur - 1) r) \<and> settled (move_to (cur_chunk cur - 1) r)"
      if "current r = Some cur" for cur
      using assms(1) that in_cur [OF that] by (intro move_to_wf) (auto simp: in_range_def)
    then show ?thesis using assms Previous by (auto simp: apply_control_def split: option.splits)
  next
    case Next
    then show ?thesis using assms skip_item_wf [OF assms(1)] move_to_wf [OF assms(1)]
      by (auto simp: apply_control_def split: option.splits)
  next
    case Mute
    then show ?thesis using assms
      by (auto simp: apply_control_def push_fx_def wf_core_def settled_def)
  next
    case Unmute
    then show ?thesis using assms
      by (auto simp: apply_control_def push_fx_def wf_core_def settled_def)
  qed (use assms resume in \<open>auto simp: apply_control_def pause_wf stop_wf skip_item_wf restart_wf
        line_step_wf\<close>)
qed

lemma finish_wf:
  assumes "wf_core r" "settled r"
  shows "wf (finish r)"
proof -
  let ?r = "prefetch r"
  have core: "wf_core ?r" and set: "settled ?r"
    using assms by (simp_all add: same_core_wf_core [OF prefetch_same]
        same_core_settled [OF prefetch_same])
  let ?st = "snapshot (st_seq (shown ?r) + 1) ?r"
  have upd: "same_core ?r (push_fx (Emit (StateEv ?st)) (?r\<lparr>shown := ?st\<rparr>))"
    by (simp add: same_core_def push_fx_def)
  show ?thesis
  proof (cases "snapshot (st_seq (shown ?r)) ?r = shown ?r")
    case True
    then show ?thesis using core set
      by (simp add: finish_def check_index_id Let_def wf_def up_to_date_def)
  next
    case False
    have seq: "st_seq ?st = st_seq (shown ?r) + 1" by (simp add: snapshot_def)
    have "snapshot (st_seq ?st) (push_fx (Emit (StateEv ?st)) (?r\<lparr>shown := ?st\<rparr>)) = ?st"
      by (simp only: same_core_snapshot [OF upd] seq)
    then have "up_to_date (push_fx (Emit (StateEv ?st)) (?r\<lparr>shown := ?st\<rparr>))"
      by (simp add: up_to_date_def push_fx_def)
    then show ?thesis using False core set same_core_wf_core [OF upd] same_core_settled [OF upd]
      by (simp add: finish_def check_index_id Let_def wf_def)
  qed
qed

lemma same_wf:
  assumes "same_core r s" "shown s = shown r" "wf r"
  shows "wf s"
  using assms same_core_snapshot [OF assms(1)]
  by (auto simp: wf_def same_core_wf_core same_core_settled up_to_date_def)

lemma place_item_wf:
  assumes "wf_core r" "settled r" "item_chunks it \<noteq> []"
  shows "wf_core (place_item it interrupt r) \<and> settled (place_item it interrupt r)"
proof (cases "interrupt \<and> current r \<noteq> None")
  case True
  let ?c = "end_current Skipped r"
  have "wf_core (?c\<lparr>queue := it # queue ?c\<rparr>)"
    using end_current_core [OF assms(1), of Skipped] assms(3) by (auto simp: wf_core_def)
  then show ?thesis using True by (simp add: place_item_def Let_def start_next_wf)
next
  case False
  let ?c = "r\<lparr>queue := queue r @ [it]\<rparr>"
  have c: "wf_core ?c" using assms(1,3) by (auto simp: wf_core_def)
  show ?thesis
  proof (cases "current r = None")
    case True
    then have "loaded r = None" using assms(2) by (simp add: settled_def)
    then show ?thesis using c True by (simp add: place_item_def start_next_wf)
  next
    case busy: False
    then show ?thesis using c assms(2) False by (auto simp: place_item_def Let_def settled_def)
  qed
qed

lemma drop_queue_wf:
  "wf_core r \<Longrightarrow> settled r \<Longrightarrow> wf_core (drop_queue r) \<and> settled (drop_queue r)"
  by (simp add: wf_core_def settled_def)

lemma speak_wf:
  assumes "wf r"
  shows "wf (speak L txt mode interrupt label r)"
proof -
  let ?a = "r\<lparr>next_id := Suc (next_id r)\<rparr>"
  let ?b = "if mode = Replace then drop_queue ?a else ?a"
  have "same_core r ?a" by (simp add: same_core_def)
  then have a: "wf_core ?a" "settled ?a"
    using assms by (simp_all add: wf_def same_core_wf_core same_core_settled)
  then have b: "wf_core ?b" "settled ?b" using drop_queue_wf [OF a] by auto
  have "same_core r (emit_item (next_id r) Skipped ?a)"
    "shown (emit_item (next_id r) Skipped ?a) = shown r"
    by (simp_all add: same_core_def emit_item_def push_fx_def)
  then have "wf (emit_item (next_id r) Skipped ?a)" using assms by (rule same_wf)
  moreover have "item_chunks it \<noteq> [] \<Longrightarrow> wf (finish (place_item it interrupt ?b))" for it
    using place_item_wf [OF b] by (blast intro: finish_wf)
  ultimately show ?thesis
    by (cases "cut L (chunk_mode r) txt = []") (simp_all add: speak_def Let_def split del: if_split)
qed

lemma on_audio_wf:
  assumes "wf r"
  shows "wf (on_audio e r)"
proof (cases "loaded r = Some (audio_gen e)")
  case False
  then show ?thesis using assms by (simp add: on_audio_def)
next
  case True
  have core: "wf_core r" "settled r" using assms by (simp_all add: wf_def)
  have busy: "current r \<noteq> None" using core(1) True by (auto simp: wf_core_def)
  have "wf_core (mark_played r) \<and> settled (mark_played r)"
    using core by (auto simp: mark_played_def wf_core_def settled_def in_range_def)
  moreover have "wf_core (mark_played (r\<lparr>loaded := None\<rparr>))" "wf_core (r\<lparr>loaded := None\<rparr>)"
    using core(1) by (auto simp: mark_played_def wf_core_def in_range_def)
  moreover have "current (mark_played (r\<lparr>loaded := None\<rparr>)) \<noteq> None"
    "loaded (mark_played (r\<lparr>loaded := None\<rparr>)) = None"
    using busy by (simp_all add: mark_played_def)
  ultimately show ?thesis using True busy
    by (cases e) (auto simp: on_audio_def intro!: finish_wf conjunct1 [OF advance_wf]
        conjunct2 [OF advance_wf])
qed

lemma set_volume_wf: "wf r \<Longrightarrow> wf (set_volume v r)"
  unfolding set_volume_def
  by (rule finish_wf) (auto simp: wf_def push_fx_def wf_core_def settled_def)

lemma set_rate_wf: "wf r \<Longrightarrow> wf (set_rate n r)"
  unfolding set_rate_def by (rule finish_wf) (auto simp: wf_def wf_core_def settled_def)

lemma set_voice_wf: "wf r \<Longrightarrow> wf (set_voice v r)"
  unfolding set_voice_def by (rule finish_wf) (auto simp: wf_def wf_core_def settled_def)

lemma set_lookahead_wf: "wf r \<Longrightarrow> wf (set_lookahead n r)"
  unfolding set_lookahead_def
  by (rule finish_wf) (auto simp: wf_def wf_core_def settled_def MAX_LOOKAHEAD_def)

lemma set_chunking_wf: "wf r \<Longrightarrow> wf (set_chunking c r)"
  unfolding set_chunking_def by (rule finish_wf) (auto simp: wf_def wf_core_def settled_def)

lemmas setters_wf = set_volume_wf set_rate_wf set_voice_wf set_lookahead_wf set_chunking_wf

lemma set_code_step_wf:
  assumes "wf r"
  shows "wf (set_code_step on r)"
proof -
  let ?r = "r\<lparr>code_step := on\<rparr>"
  have core: "wf_core ?r" "settled ?r" using assms by (auto simp: wf_def wf_core_def settled_def)
  have "step_wait r \<Longrightarrow> current ?r \<noteq> None" using core(2) by (auto simp: settled_def)
  then show ?thesis using core resume_wf [OF core(1)]
    by (cases "\<not> on \<and> step_wait r") (auto simp: set_code_step_def Let_def finish_wf)
qed

lemma apply_input_wf: "wf r \<Longrightarrow> wf (apply_input L i r)"
proof (cases i)
  case (Control c)
  assume "wf r"
  then show ?thesis using Control apply_control_wf [of r c]
    by (simp add: control_def finish_wf wf_def [of r])
qed (simp_all add: speak_wf on_audio_wf setters_wf set_code_step_wf)

lemma new_reader_wf: "wf new_reader"
  by (simp add: new_reader_def Let_def wf_def wf_core_def settled_def up_to_date_def
      MAX_LOOKAHEAD_def snapshot_def in_code_def)

lemma wf_clear_fx: "wf r \<Longrightarrow> wf (r\<lparr>fx := []\<rparr>)"
  by (erule same_wf [rotated 2]) (simp_all add: same_core_def)

interpretation rwf: machine "reader_step L" "\<lambda>r log. wf r \<and> fx r = []" for L
  by unfold_locales (auto simp: reader_step_def Let_def apply_input_wf wf_clear_fx)

lemma run_reader_wf: "wf (fst (run_reader L is))"
  using rwf.run_inv_from_start [of new_reader L "is"] new_reader_wf
  by (simp add: run_reader_def new_reader_def Let_def)

end
