(* ===== verification/Reader_Host.thy ===== *)
theory Reader_Host imports Reader_Inv begin

text \<open>
  What the reader promises its host: the comments on \<open>Effect\<close>, \<open>Event\<close>, \<open>ItemId\<close> and \<open>AudioEvent\<close> in
  \<open>reader/types.rs\<close>, stated as an automaton that watches the inputs and the effects go by
  (\<open>host_ok\<close>, \<open>host_upd\<close>). Every trace of the reader is accepted by it; the proof is a simulation
  (\<open>sim\<close>) between the reader and the automaton, kept by every helper.
\<close>

section \<open>The contract\<close>

datatype action = In input | Out effect

record host =
  h_started :: "nat set"
  h_final :: "nat set"
  h_synth :: "(nat \<times> nat) set"
  h_gen :: nat
  h_seq :: nat
  h_out :: "(nat \<times> bool) option"
  h_muted :: bool

definition host0 :: host where
  "host0 = \<lparr>h_started = {}, h_final = {}, h_synth = {}, h_gen = 0, h_seq = 0, h_out = None,
            h_muted = False\<rparr>"

text \<open>
  \<open>h_out\<close> is what the output holds: the generation of the chunk and whether it is paused there.
  \<^item> a chunk is synthesized at most once, and never after its item ended;
  \<^item> a chunk is played with the next generation, into an empty output, after its synthesis, and
    only while its item is alive and started;
  \<^item> the output is paused when it plays, resumed when it is paused, stopped when it holds a chunk;
  \<^item> an item starts at most once, ends at most once, and is reported finished or failed only after
    it started;
  \<^item> mute and unmute alternate, and the sequence numbers of the states count up by one.
\<close>

fun host_ok :: "host \<Rightarrow> action \<Rightarrow> bool" where
  "host_ok h (In i) \<longleftrightarrow> True"
| "host_ok h (Out (Synthesize it c t)) \<longleftrightarrow> (it, c) \<notin> h_synth h \<and> it \<notin> h_final h"
| "host_ok h (Out (PlayChunk it c g)) \<longleftrightarrow>
     g = h_gen h + 1 \<and> h_out h = None \<and> (it, c) \<in> h_synth h \<and> it \<in> h_started h \<and>
     it \<notin> h_final h"
| "host_ok h (Out PauseOutput) \<longleftrightarrow> (case h_out h of None \<Rightarrow> False | Some (g, p) \<Rightarrow> \<not> p)"
| "host_ok h (Out ResumeOutput) \<longleftrightarrow> (case h_out h of None \<Rightarrow> False | Some (g, p) \<Rightarrow> p)"
| "host_ok h (Out StopOutput) \<longleftrightarrow> h_out h \<noteq> None"
| "host_ok h (Out MuteOutput) \<longleftrightarrow> \<not> h_muted h"
| "host_ok h (Out UnmuteOutput) \<longleftrightarrow> h_muted h"
| "host_ok h (Out (SetVolume v)) \<longleftrightarrow> True"
| "host_ok h (Out (Emit (StateEv s))) \<longleftrightarrow> st_seq s = h_seq h + 1"
| "host_ok h (Out (Emit (ItemEv it ph))) \<longleftrightarrow>
     it \<notin> h_final h \<and>
     (case ph of Started \<Rightarrow> it \<notin> h_started h | Skipped \<Rightarrow> True
      | Finished \<Rightarrow> it \<in> h_started h | Failed \<Rightarrow> it \<in> h_started h)"

definition out_ended :: "nat \<Rightarrow> host \<Rightarrow> host" where
  "out_ended g h =
     (case h_out h of
        None \<Rightarrow> h
      | Some (g', p) \<Rightarrow> if g' = g then h\<lparr>h_out := None\<rparr> else h)"

fun host_upd :: "host \<Rightarrow> action \<Rightarrow> host" where
  "host_upd h (In (OnAudio (ChunkFinished g))) = out_ended g h"
| "host_upd h (In (OnAudio (AudioFailed g reason))) = out_ended g h"
| "host_upd h (In i) = h"
| "host_upd h (Out (Synthesize it c t)) = h\<lparr>h_synth := insert (it, c) (h_synth h)\<rparr>"
| "host_upd h (Out (PlayChunk it c g)) = h\<lparr>h_gen := g, h_out := Some (g, False)\<rparr>"
| "host_upd h (Out PauseOutput) = h\<lparr>h_out := map_option (\<lambda>(g, p). (g, True)) (h_out h)\<rparr>"
| "host_upd h (Out ResumeOutput) = h\<lparr>h_out := map_option (\<lambda>(g, p). (g, False)) (h_out h)\<rparr>"
| "host_upd h (Out StopOutput) = h\<lparr>h_out := None\<rparr>"
| "host_upd h (Out MuteOutput) = h\<lparr>h_muted := True\<rparr>"
| "host_upd h (Out UnmuteOutput) = h\<lparr>h_muted := False\<rparr>"
| "host_upd h (Out (SetVolume v)) = h"
| "host_upd h (Out (Emit (StateEv s))) = h\<lparr>h_seq := st_seq s\<rparr>"
| "host_upd h (Out (Emit (ItemEv it ph))) =
     (if ph = Started then h\<lparr>h_started := insert it (h_started h)\<rparr>
      else h\<lparr>h_final := insert it (h_final h)\<rparr>)"

fun run_host :: "host \<Rightarrow> action list \<Rightarrow> host option" where
  "run_host h [] = Some h"
| "run_host h (a # as) = (if host_ok h a then run_host (host_upd h a) as else None)"

lemma run_host_append:
  "run_host h (as @ bs) = (case run_host h as of None \<Rightarrow> None | Some h' \<Rightarrow> run_host h' bs)"
  by (induction "as" arbitrary: h) auto

lemma run_host_snoc:
  "run_host h as = Some h' \<Longrightarrow> host_ok h' a \<Longrightarrow> run_host h (as @ [a]) = Some (host_upd h' a)"
  by (simp add: run_host_append)

section \<open>The simulation\<close>

definition cur_ids :: "reader \<Rightarrow> nat list" where
  "cur_ids r = (case current r of None \<Rightarrow> [] | Some cur \<Rightarrow> [item_id (cur_item cur)])"

definition alive_ids :: "reader \<Rightarrow> nat list" where
  "alive_ids r = cur_ids r @ map item_id (queue r)"

text \<open>
  \<open>P\<close> holds the ids of items that are neither in the reader nor reported yet (inside a call: the
  item being spoken, the queue being dropped). \<open>b\<close> says whether the loaded chunk is paused in the
  output.
\<close>

definition sim :: "nat set \<Rightarrow> bool \<Rightarrow> host \<Rightarrow> reader \<Rightarrow> bool" where
  "sim P b h r \<longleftrightarrow>
     h_gen h = gen r \<and> h_seq h = st_seq (shown r) \<and> h_muted h = muted r \<and>
     h_out h = map_option (\<lambda>g. (g, b)) (loaded r) \<and>
     1 \<le> next_id r \<and>
     distinct (alive_ids r) \<and> set (alive_ids r) \<inter> P = {} \<and>
     h_final h \<inter> (set (alive_ids r) \<union> P) = {} \<and>
     h_final h \<union> set (alive_ids r) \<union> P = {1..<next_id r} \<and>
     h_started h \<subseteq> {1..<next_id r} \<and>
     h_started h \<inter> (item_id ` set (queue r) \<union> P) = {} \<and>
     set (cur_ids r) \<subseteq> h_started h \<and>
     (\<forall>p. fst p \<in> set (alive_ids r) \<union> P \<longrightarrow> (p \<in> requested r \<longleftrightarrow> p \<in> h_synth h)) \<and>
     (\<forall>p \<in> requested r. fst p \<in> set (alive_ids r) \<union> P) \<and>
     (\<forall>p \<in> h_synth h. fst p < next_id r)"

definition good :: "action list \<Rightarrow> nat set \<Rightarrow> bool \<Rightarrow> reader \<Rightarrow> bool" where
  "good pre P b r \<longleftrightarrow> (\<exists>h. run_host host0 (pre @ map Out (fx r)) = Some h \<and> sim P b h r)"

lemma good_push:
  assumes "run_host host0 (pre @ map Out (fx r)) = Some h" "host_ok h (Out e)"
    and "sim P b (host_upd h (Out e)) (push_fx e s)" "fx s = fx r"
  shows "good pre P b (push_fx e s)"
proof -
  have "run_host host0 (pre @ map Out (fx (push_fx e s))) = Some (host_upd h (Out e))"
    using run_host_snoc [OF assms(1,2)] assms(4) by (simp add: push_fx_def)
  then show ?thesis using assms(3) by (auto simp: good_def)
qed

lemma good_cong:
  assumes "good pre P b r" "fx s = fx r" "\<And>h. sim P b h r \<Longrightarrow> sim P' b' h s"
  shows "good pre P' b' s"
  using assms by (auto simp: good_def)

lemmas sim_simps = sim_def alive_ids_def cur_ids_def push_fx_def

lemma good_request:
  assumes "good pre P b r" "iid \<in> set (alive_ids r)"
  shows "good pre P b (request iid c t r)"
proof (cases "(iid, c) \<in> requested r")
  case True
  then show ?thesis using assms(1) by (simp add: request_def)
next
  case False
  obtain h where h: "run_host host0 (pre @ map Out (fx r)) = Some h" "sim P b h r"
    using assms(1) by (auto simp: good_def)
  have ok: "host_ok h (Out (Synthesize iid c t))"
    using h(2) assms(2) False unfolding sim_def by fastforce
  have lt: "iid < next_id r"
  proof -
    have "iid \<in> h_final h \<union> set (alive_ids r) \<union> P" using assms(2) by simp
    also have "\<dots> = {1..<next_id r}" using h(2) by (simp add: sim_def)
    finally show ?thesis by simp
  qed
  have "sim P b (host_upd h (Out (Synthesize iid c t)))
          (push_fx (Synthesize iid c t) (r\<lparr>requested := insert (iid, c) (requested r)\<rparr>))"
    using h(2) assms(2) lt by (auto simp: sim_simps split: option.splits)
  then show ?thesis using good_push [OF h(1) ok] False by (simp add: request_def)
qed

lemma good_goodE:
  assumes "good pre P b r"
  obtains h where "run_host host0 (pre @ map Out (fx r)) = Some h" "sim P b h r"
  using assms by (auto simp: good_def)

lemma good_stop_output: "good pre P b r \<Longrightarrow> good pre P b' (stop_output r)"
proof (cases "loaded r")
  case None
  assume "good pre P b r"
  then show ?thesis using None
    by (auto simp: stop_output_def intro: good_cong simp: sim_def)
next
  case (Some g)
  assume "good pre P b r"
  then obtain h where h: "run_host host0 (pre @ map Out (fx r)) = Some h" "sim P b h r"
    by (rule good_goodE)
  have "sim P b' (host_upd h (Out StopOutput)) (push_fx StopOutput (r\<lparr>loaded := None\<rparr>))"
    using h(2) by (auto simp: sim_simps split: option.splits)
  moreover have "host_ok h (Out StopOutput)" using h(2) Some by (simp add: sim_def)
  ultimately show ?thesis using good_push [OF h(1)] Some by (simp add: stop_output_def)
qed

lemma good_forget_pending:
  assumes "good pre (insert iid P) b r" "iid \<notin> P"
  shows "good pre P b (forget iid Skipped r)"
proof -
  obtain h where h: "run_host host0 (pre @ map Out (fx r)) = Some h" "sim (insert iid P) b h r"
    using assms(1) by (rule good_goodE)
  let ?r = "r\<lparr>requested := Set.filter (\<lambda>p. fst p \<noteq> iid) (requested r)\<rparr>"
  have "host_ok h (Out (Emit (ItemEv iid Skipped)))" using h(2) by (simp add: sim_def)
  moreover have "sim P b (host_upd h (Out (Emit (ItemEv iid Skipped))))
      (push_fx (Emit (ItemEv iid Skipped)) ?r)"
    using h(2) assms(2) by (auto simp: sim_simps split: option.splits)
  ultimately show ?thesis using good_push [OF h(1)] by (simp add: forget_def emit_item_def)
qed

text \<open>Dropping a list of pending items reports each of them once.\<close>

lemma good_forget_all:
  assumes "good pre (set ids \<union> P) b r" "distinct ids" "set ids \<inter> P = {}" "ids = map item_id its"
  shows "good pre P b (fold (\<lambda>it. forget (item_id it) Skipped) its r)"
  using assms
proof (induction its arbitrary: r ids)
  case Nil
  then show ?case by simp
next
  case (Cons it its)
  have "good pre (set (map item_id its) \<union> P) b (forget (item_id it) Skipped r)"
    using Cons.prems by (intro good_forget_pending) auto
  then have "good pre P b (fold (\<lambda>it. forget (item_id it) Skipped) its (forget (item_id it) Skipped r))"
    using Cons.prems by (intro Cons.IH [where ids = "map item_id its"]) auto
  then show ?case by simp
qed

lemma good_drop_queue:
  assumes "good pre P b r"
  shows "good pre P b (drop_queue r)"
proof -
  obtain h where h: "sim P b h r" using assms by (rule good_goodE)
  have "good pre (set (map item_id (queue r)) \<union> P) b (r\<lparr>queue := []\<rparr>)"
    using assms by (rule good_cong) (auto simp: sim_simps split: option.splits)
  moreover have "distinct (map item_id (queue r))" "set (map item_id (queue r)) \<inter> P = {}"
    using h by (auto simp: sim_def alive_ids_def)
  ultimately show ?thesis unfolding drop_queue_def by (rule good_forget_all) simp
qed

lemma good_end_current:
  assumes "good pre P b r" "ph \<noteq> Started"
  shows "good pre P b' (end_current ph r)"
proof (cases "current r")
  case None
  then show ?thesis using good_stop_output [OF assms(1)] by (simp add: end_current_def)
next
  case (Some cur)
  let ?s = "stop_output r"
  let ?i = "item_id (cur_item cur)"
  let ?t = "?s\<lparr>current := None, requested := Set.filter (\<lambda>p. fst p \<noteq> ?i) (requested ?s)\<rparr>"
  have "good pre P b' ?s" using assms(1) by (rule good_stop_output)
  then obtain h where h: "run_host host0 (pre @ map Out (fx ?s)) = Some h" "sim P b' h ?s"
    by (rule good_goodE)
  have cur: "current ?s = Some cur" using Some by simp
  have "?i \<notin> item_id ` set (queue r)"
    using h(2) cur by (simp add: sim_def alive_ids_def cur_ids_def)
  then have notin: "\<forall>it \<in> set (queue r). item_id it \<noteq> ?i" by (metis imageI)
  have "host_ok h (Out (Emit (ItemEv ?i ph)))"
    using h(2) cur assms(2) by (cases ph) (auto simp: sim_simps)
  moreover have "sim P b' (host_upd h (Out (Emit (ItemEv ?i ph)))) (push_fx (Emit (ItemEv ?i ph)) ?t)"
    using h(2) cur assms(2) notin by (auto simp: sim_simps)
  ultimately have "good pre P b' (push_fx (Emit (ItemEv ?i ph)) ?t)" using good_push [OF h(1)] by simp
  then have "good pre P b' ((push_fx (Emit (ItemEv ?i ph)) ?t)\<lparr>last_item := Some (cur_item cur)\<rparr>)"
    by (rule good_cong) (auto simp: sim_simps push_fx_def split: option.splits)
  then show ?thesis using cur by (simp add: end_current_def forget_def emit_item_def Let_def)
qed

lemma good_begin_chunk:
  assumes "good pre P b r" "loaded r = None" "wf_core r"
  shows "good pre P False (begin_chunk r)"
proof (cases "current r")
  case None
  have "good pre P False r" using assms(1) by (rule good_cong) (simp_all add: sim_def assms(2))
  then show ?thesis using None by (simp add: begin_chunk_def)
next
  case (Some cur)
  let ?i = "item_id (cur_item cur)" and ?c = "cur_chunk cur"
  let ?r = "request ?i ?c (chunk_text cur) r"
  have "good pre P b ?r" using assms(1) Some by (intro good_request) (simp_all add: alive_ids_def cur_ids_def)
  then obtain h where h: "run_host host0 (pre @ map Out (fx ?r)) = Some h" "sim P b h ?r"
    by (rule good_goodE)
  have req: "(?i, ?c) \<in> requested ?r" by (simp add: request_def push_fx_def)
  have alive: "?i \<in> set (alive_ids ?r)" "?i \<in> set (cur_ids ?r)"
    using Some by (simp_all add: alive_ids_def cur_ids_def)
  show ?thesis
  proof (cases "paused r")
    case True
    have "good pre P False ?r"
      using \<open>good pre P b ?r\<close> by (rule good_cong) (simp_all add: sim_def assms(2))
    then show ?thesis using True Some assms(3) by (simp add: begin_chunk_def check_index_id Let_def)
  next
    case False
    let ?e = "PlayChunk ?i ?c (gen ?r + 1)"
    have "host_ok h (Out ?e)"
      using h(2) req alive assms(2) by (auto simp: sim_def)
    moreover have "sim P False (host_upd h (Out ?e))
        (push_fx ?e (?r\<lparr>gen := gen ?r + 1, loaded := Some (gen ?r + 1)\<rparr>))"
      using h(2) by (auto simp: sim_simps split: option.splits)
    ultimately show ?thesis using good_push [OF h(1)] False Some assms(3)
      by (simp add: begin_chunk_def check_index_id Let_def)
  qed
qed

lemma good_end_wait: "good pre P b r \<Longrightarrow> good pre P b (end_wait r)"
  by (erule good_cong) (auto simp: end_wait_def sim_simps split: option.splits)

lemma good_enter_item:
  assumes "good pre P b r" "current r = None" "queue r = it # q"
  shows "good pre P b (enter_item it q r)"
proof -
  obtain h where h: "run_host host0 (pre @ map Out (fx r)) = Some h" "sim P b h r"
    using assms(1) by (rule good_goodE)
  let ?e = "Emit (ItemEv (item_id it) Started)"
  let ?r = "r\<lparr>queue := q, released := False, current := Some \<lparr>cur_item = it, cur_chunk = 0, cur_played_any = False\<rparr>\<rparr>"
  have "host_ok h (Out ?e)" using h(2) assms(2,3) by (auto simp: sim_simps)
  moreover have "sim P b (host_upd h (Out ?e)) (push_fx ?e ?r)"
    using h(2) assms(2,3) by (auto simp: sim_simps)
  ultimately have "good pre P b (push_fx ?e ?r)" using good_push [OF h(1)] by simp
  moreover have "enter_item it q r = push_fx ?e ?r"
    by (cases r) (simp add: enter_item_def emit_item_def push_fx_def)
  ultimately show ?thesis by simp
qed

lemma good_start_next:
  assumes "good pre P b r" "current r = None" "loaded r = None" "wf_core r"
  shows "good pre P False (start_next r)"
proof (cases "queue r")
  case Nil
  have "good pre P b (end_wait r)" using assms(1) by (rule good_end_wait)
  then have "good pre P False ((end_wait r)\<lparr>paused := False\<rparr>)"
    by (rule good_cong) (auto simp: sim_simps assms(3) split: option.splits)
  then show ?thesis using Nil by (simp add: start_next_Nil)
next
  case (Cons it q)
  have "good pre P b (enter_item it q (end_wait r))"
    using good_end_wait [OF assms(1)] assms(2) Cons by (intro good_enter_item) simp_all
  then show ?thesis using Cons assms(3) enter_item_core [OF end_wait_core [OF assms(4)]]
    by (simp add: start_next_Cons good_begin_chunk)
qed

lemma good_skip_item:
  assumes "good pre P b r" "wf_core r"
  shows "good pre P False (skip_item r)"
  unfolding skip_item_def
  by (rule good_start_next [OF good_end_current [OF assms(1)]])
    (simp_all add: end_current_core [OF assms(2)])

lemma good_moved: "good pre P b r \<Longrightarrow> good pre P b' (moved to r)"
proof -
  assume "good pre P b r"
  then have "good pre P b' (stop_output (end_wait r))"
    by (intro good_stop_output good_end_wait)
  then show ?thesis unfolding moved_def Let_def
    by (rule good_cong) (auto simp: sim_simps split: option.splits)
qed

lemma good_move_to:
  assumes "good pre P b r" "wf_core r" "current r = Some cur" "to < length (item_chunks (cur_item cur))"
  shows "good pre P False (move_to to r)"
  unfolding move_to_eq
  by (rule good_begin_chunk [OF good_moved [OF assms(1)]]) (simp_all add: moved_core [OF assms(2-4)])

lemma good_advance:
  assumes "good pre P b r" "wf_core r" "loaded r = None"
  shows "good pre P False (advance r)"
proof (cases "current r")
  case None
  have "good pre P False r" using assms(1) by (rule good_cong) (simp_all add: sim_def assms(3))
  then show ?thesis using None by (simp add: advance_def)
next
  case (Some cur)
  show ?thesis
  proof (cases "cur_chunk cur + 1 < length (item_chunks (cur_item cur))")
    case True
    have "good pre P False (advanced cur r)"
      using assms(1) unfolding advanced_def Let_def
      by (rule good_cong) (auto simp: sim_simps Some assms(3))
    then show ?thesis using True Some assms(3) advanced_core [OF assms(2,3) True]
      by (simp add: advance_within good_begin_chunk)
  next
    case False
    let ?ph = "if cur_played_any cur then Finished else Failed"
    have "good pre P False (end_current ?ph r)" using assms(1) by (rule good_end_current) simp
    then have "good pre P False (start_next (end_current ?ph r))"
      using end_current_core [OF assms(2)] by (intro good_start_next) simp_all
    then show ?thesis using False Some by (simp add: advance_at_end)
  qed
qed

section \<open>The calls\<close>

text \<open>Between calls the loaded chunk is paused in the output exactly when the reader is paused.\<close>

definition at_rest :: "action list \<Rightarrow> reader \<Rightarrow> bool" where
  "at_rest pre r \<longleftrightarrow> wf_core r \<and> settled r \<and> good pre {} (paused r) r"

lemma good_b: "loaded r = None \<Longrightarrow> good pre P b r \<Longrightarrow> good pre P b' r"
  by (erule good_cong) (simp_all add: sim_def)

text \<open>A helper that ends in \<open>begin_chunk\<close> leaves a chunk playing, or nothing in the output.\<close>

lemma loaded_unpaused:
  assumes "good pre {} False r" "loaded r \<noteq> None \<longrightarrow> \<not> paused r"
  shows "good pre {} (paused r) r"
  using assms good_b [of r pre "{}" False "paused r"] by (cases "loaded r") auto

lemma begin_chunk_loaded:
  "loaded r = None \<Longrightarrow> loaded (begin_chunk r) \<noteq> None \<longrightarrow> \<not> paused (begin_chunk r)"
  by (auto simp: begin_chunk_def check_index_def Let_def push_fx_def split: option.splits)

lemma start_next_loaded:
  "loaded r = None \<Longrightarrow> loaded (start_next r) \<noteq> None \<longrightarrow> \<not> paused (start_next r)"
  by (cases "queue r") (simp_all add: start_next_Nil start_next_Cons begin_chunk_loaded)

lemma skip_item_rest: "wf_core r \<Longrightarrow> good pre {} b r \<Longrightarrow> at_rest pre (skip_item r)"
  using skip_item_wf good_skip_item
  by (auto simp: at_rest_def skip_item_def intro!: loaded_unpaused start_next_loaded)

lemma move_to_rest:
  assumes "wf_core r" "good pre {} b r" "current r = Some cur" "to < length (item_chunks (cur_item cur))"
  shows "at_rest pre (move_to to r)"
  using move_to_wf [OF assms(1,3,4)] good_move_to [OF assms(2,1,3,4)]
  by (auto simp: at_rest_def move_to_eq intro!: loaded_unpaused begin_chunk_loaded)

lemma advance_rest:
  assumes "wf_core r" "good pre {} b r" "current r \<noteq> None" "loaded r = None"
  shows "at_rest pre (advance r)"
proof -
  obtain cur where cur: "current r = Some cur" using assms(3) by blast
  have "loaded (advance r) \<noteq> None \<longrightarrow> \<not> paused (advance r)"
    using cur assms(4)
    by (cases "cur_chunk cur + 1 < length (item_chunks (cur_item cur))")
      (simp_all add: advance_within advance_at_end begin_chunk_loaded start_next_loaded)
  then show ?thesis using advance_wf [OF assms(1,3,4)] good_advance [OF assms(2,1,4)]
    by (auto simp: at_rest_def intro!: loaded_unpaused)
qed

lemma pause_rest: "at_rest pre r \<Longrightarrow> at_rest pre (pause_reader r)"
proof -
  assume a: "at_rest pre r"
  let ?a = "r\<lparr>step_wait := False\<rparr>"
  let ?r = "?a\<lparr>paused := True\<rparr>"
  have wf: "wf_core (pause_reader r)" "settled (pause_reader r)"
    using a pause_wf by (auto simp: at_rest_def)
  have g0: "good pre {} (paused r) r" using a by (simp add: at_rest_def)
  have g: "good pre {} (paused r) ?a" using g0 by (rule good_cong) (simp_all add: sim_simps)
  consider "current r = None \<or> paused r" | "current r \<noteq> None" "\<not> paused r" "loaded r = None"
    | k where "current r \<noteq> None" "\<not> paused r" "loaded r = Some k"
    by blast
  then have "good pre {} (paused (pause_reader r)) (pause_reader r)"
  proof cases
    case 1
    then show ?thesis using g by (auto simp: pause_reader_def Let_def)
  next
    case 2
    then show ?thesis using a by (auto simp: at_rest_def settled_def)
  next
    case 3
    obtain h where h: "run_host host0 (pre @ map Out (fx ?a)) = Some h" "sim {} False h ?a"
      using g 3 by (auto elim: good_goodE)
    have "sim {} True (host_upd h (Out PauseOutput)) (push_fx PauseOutput ?r)"
      using h(2) 3 by (auto simp: sim_simps split: option.splits)
    moreover have "host_ok h (Out PauseOutput)" using h(2) 3 by (simp add: sim_def)
    ultimately have "good pre {} True (push_fx PauseOutput ?r)" using good_push [OF h(1)] by simp
    then show ?thesis using 3 by (auto simp: pause_reader_def push_fx_def Let_def)
  qed
  then show ?thesis using wf by (simp add: at_rest_def)
qed

lemma resume_rest:
  assumes "wf_core r" "current r \<noteq> None" "paused r" "good pre {} True r"
  shows "at_rest pre (resume_reader r)"
proof -
  let ?r = "r\<lparr>paused := False, step_wait := False\<rparr>"
  have core: "wf_core ?r" using assms(1) by (auto simp: wf_core_def)
  have g: "good pre {} True ?r" using assms(4)
    by (rule good_cong) (auto simp: sim_simps split: option.splits)
  have "good pre {} (paused (resume_reader r)) (resume_reader r)"
  proof (cases "loaded r")
    case None
    then have "good pre {} False (begin_chunk ?r)" using g core by (simp add: good_begin_chunk)
    then show ?thesis using None
      by (auto simp: resume_reader_def intro!: loaded_unpaused begin_chunk_loaded)
  next
    case (Some k)
    obtain h where h: "run_host host0 (pre @ map Out (fx ?r)) = Some h" "sim {} True h ?r"
      using g by (rule good_goodE)
    have "sim {} False (host_upd h (Out ResumeOutput)) (push_fx ResumeOutput ?r)"
      using h(2) Some by (auto simp: sim_simps split: option.splits)
    moreover have "host_ok h (Out ResumeOutput)" using h(2) Some by (simp add: sim_def)
    ultimately have "good pre {} False (push_fx ResumeOutput ?r)" using good_push [OF h(1)] by simp
    then show ?thesis using Some by (simp add: resume_reader_def push_fx_def)
  qed
  then show ?thesis using resume_wf [OF assms(1,2)] by (simp add: at_rest_def)
qed

lemma stop_rest: "at_rest pre r \<Longrightarrow> at_rest pre (stop_reader r)"
proof -
  assume a: "at_rest pre r"
  let ?a = "r\<lparr>last_item := None\<rparr>"
  have g0: "good pre {} (paused r) r" using a by (simp add: at_rest_def)
  have g: "good pre {} (paused r) ?a" using g0 by (rule good_cong) (simp_all add: sim_simps)
  show ?thesis
  proof (cases "current r = None \<and> queue r = []")
    case True
    then show ?thesis using a g by (auto simp: at_rest_def stop_reader_def wf_core_def settled_def)
  next
    case False
    let ?s = "drop_queue (end_current Skipped ?a)"
    have eq: "stop_reader r = ?s\<lparr>last_item := None, paused := False, step_wait := False\<rparr>"
      using False by (auto simp: stop_reader_def Let_def)
    have "good pre {} False ?s" using g by (intro good_drop_queue good_end_current) simp_all
    then have "good pre {} False (stop_reader r)" unfolding eq
      by (rule good_cong) (simp_all add: sim_simps)
    then show ?thesis using a stop_wf [of r] eq by (simp add: at_rest_def)
  qed
qed

lemma line_step_rest: "at_rest pre r \<Longrightarrow> at_rest pre (line_step nxt r)"
proof (cases "current r")
  case None
  assume "at_rest pre r"
  then show ?thesis using None by (simp add: line_step_def)
next
  case (Some cur)
  assume a: "at_rest pre r"
  let ?r = "r\<lparr>paused := False, step_wait := False, released := False\<rparr>"
  have wfr: "wf_core r" using a by (simp add: at_rest_def)
  then have core: "wf_core ?r" by (auto simp: wf_core_def)
  have g0: "good pre {} (paused r) r" using a by (simp add: at_rest_def)
  have g: "good pre {} (paused r) ?r" using g0 by (rule good_cong) (simp_all add: sim_simps)
  have m: "to < length (item_chunks (cur_item cur)) \<Longrightarrow> at_rest pre (move_to to ?r)" for to
    using move_to_rest [OF core g, of cur] Some by simp
  have k: "at_rest pre (skip_item ?r)" using core g by (rule skip_item_rest)
  show ?thesis using a Some wfr k m
    by (auto simp: line_step_def check_index_id Let_def not_le)
qed

text \<open>A fresh id enters as pending; a pending item that is queued becomes alive.\<close>

lemma sim_fresh_id:
  assumes h: "sim {} b h r"
  shows "sim {next_id r} b h (r\<lparr>next_id := next_id r + 1\<rparr>)"
proof -
  let ?n = "next_id r" and ?s = "r\<lparr>next_id := next_id r + 1\<rparr>"
  have ids: "alive_ids ?s = alive_ids r" "cur_ids ?s = cur_ids r"
    by (simp_all add: alive_ids_def cur_ids_def)
  have part: "h_final h \<union> set (alive_ids r) = {1..<?n}" using h by (simp add: sim_def)
  then have lt: "?n \<notin> h_final h" "?n \<notin> set (alive_ids r)" by auto
  have started: "h_started h \<subseteq> {1..<?n}" using h by (simp add: sim_def)
  have keys: "\<forall>p \<in> requested r. fst p \<noteq> ?n" "\<forall>p \<in> h_synth h. fst p \<noteq> ?n"
    using h lt by (auto simp: sim_def)
  have range: "{1..<?n + 1} = insert ?n {1..<?n}" using h by (auto simp: sim_def)
  show ?thesis unfolding sim_def ids
  proof (intro conjI)
    show "h_final h \<union> set (alive_ids r) \<union> {?n} = {1..<next_id ?s}"
      using part range by simp
    show "h_started h \<subseteq> {1..<next_id ?s}" using started range by auto
    show "h_started h \<inter> (item_id ` set (queue ?s) \<union> {?n}) = {}"
      using h started by (auto simp: sim_def)
    show "\<forall>p. fst p \<in> set (alive_ids r) \<union> {?n} \<longrightarrow> (p \<in> requested ?s \<longleftrightarrow> p \<in> h_synth h)"
      using h keys by (auto simp: sim_def)
    show "\<forall>p \<in> h_synth h. fst p < next_id ?s" using h by (auto simp: sim_def)
  qed (use h lt in \<open>auto simp: sim_def\<close>)
qed

lemma good_fresh_id:
  "good pre {} b r \<Longrightarrow> good pre {next_id r} b (r\<lparr>next_id := next_id r + 1\<rparr>)"
  by (erule good_cong) (simp, rule sim_fresh_id)

lemma good_put_first:
  assumes "good pre {item_id it} b r"
  shows "good pre {} b (r\<lparr>queue := it # queue r\<rparr>)"
  using assms by (rule good_cong) (auto simp: sim_simps split: option.splits)

lemma good_put_last:
  assumes "good pre {item_id it} b r"
  shows "good pre {} b (r\<lparr>queue := queue r @ [it]\<rparr>)"
  using assms by (rule good_cong) (auto simp: sim_simps split: option.splits)

lemma restart_rest: "at_rest pre r \<Longrightarrow> at_rest pre (restart r)"
proof -
  assume a: "at_rest pre r"
  then have wfr: "wf_core r" "settled r" and g0: "good pre {} (paused r) r"
    by (simp_all add: at_rest_def)
  show ?thesis
  proof (cases "current r")
    case (Some cur)
    then have "0 < length (item_chunks (cur_item cur))"
      using wfr(1) by (auto simp: wf_core_def in_range_def)
    then show ?thesis using move_to_rest [OF wfr(1) g0 Some] Some by (simp add: restart_def)
  next
    case idle: None
    show ?thesis
    proof (cases "last_item r")
      case None
      then show ?thesis using a idle by (simp add: restart_def)
    next
      case (Some it)
      let ?it = "it\<lparr>item_id := next_id r\<rparr>"
      let ?s = "(r\<lparr>next_id := next_id r + 1\<rparr>)\<lparr>queue := ?it # queue r\<rparr>"
      let ?t = "r\<lparr>last_item := None, next_id := next_id r + 1, queue := ?it # queue r\<rparr>"
      have "good pre {} (paused r) ?s"
        using good_put_first [of pre ?it "paused r" "r\<lparr>next_id := next_id r + 1\<rparr>"]
          good_fresh_id [OF g0] by simp
      then have "good pre {} (paused r) ?t" by (rule good_cong) (simp_all add: sim_simps)
      moreover have "wf_core ?t" using wfr(1) Some by (auto simp: wf_core_def)
      moreover have idle': "current ?t = None" "loaded ?t = None"
        using idle wfr(2) by (simp_all add: settled_def)
      ultimately have "at_rest pre (start_next ?t)"
        using start_next_wf [of ?t] good_start_next [of pre "{}" "paused r" ?t]
        by (auto simp: at_rest_def intro!: loaded_unpaused start_next_loaded)
      then show ?thesis using idle Some by (simp add: restart_def)
    qed
  qed
qed

lemma mute_rest:
  assumes "at_rest pre r" "m \<noteq> muted r"
  shows "at_rest pre (push_fx (if m then MuteOutput else UnmuteOutput) (r\<lparr>muted := m\<rparr>))"
proof -
  let ?e = "if m then MuteOutput else UnmuteOutput"
  have wfr: "wf_core r" "settled r" using assms(1) by (simp_all add: at_rest_def)
  obtain h where h: "run_host host0 (pre @ map Out (fx r)) = Some h" "sim {} (paused r) h r"
    using assms(1) unfolding at_rest_def by (auto elim: good_goodE)
  have "host_ok h (Out ?e)" using h(2) assms(2) by (auto simp: sim_def)
  moreover have "sim {} (paused r) (host_upd h (Out ?e)) (push_fx ?e (r\<lparr>muted := m\<rparr>))"
    using h(2) by (cases m) (simp_all add: sim_simps)
  ultimately have "good pre {} (paused r) (push_fx ?e (r\<lparr>muted := m\<rparr>))"
    using good_push [OF h(1)] by simp
  then show ?thesis using wfr by (simp add: at_rest_def wf_core_def settled_def push_fx_def)
qed

lemma apply_control_rest:
  assumes "at_rest pre r"
  shows "at_rest pre (apply_control c r)"
proof -
  have wfr: "wf_core r" "settled r" and g0: "good pre {} (paused r) r"
    using assms by (simp_all add: at_rest_def)
  have in_cur: "current r = Some cur \<Longrightarrow> in_range cur" for cur
    using wfr(1) by (auto simp: wf_core_def)
  have resume: "at_rest pre (resume_reader (release_code r))" if p: "paused r"
  proof (rule resume_rest)
    show "good pre {} True (release_code r)" using g0 p unfolding release_code_def
      by (auto intro: good_cong simp: sim_simps)
    show "current (release_code r) \<noteq> None" using wfr(2) p by (auto simp: settled_def)
  qed (use p release_code_core [OF wfr(1)] in simp_all)
  have jump: "at_rest pre (move_to to r)"
    if "current r = Some cur" "to < length (item_chunks (cur_item cur))" for cur to
    using move_to_rest [OF wfr(1) g0 that] .
  show ?thesis
  proof (cases c)
    case Previous
    have "at_rest pre (move_to (cur_chunk cur - 1) r)" if "current r = Some cur" for cur
      using jump [OF that] in_cur [OF that] by (auto simp: in_range_def)
    then show ?thesis using assms Previous by (auto simp: apply_control_def split: option.splits)
  next
    case Next
    then show ?thesis using assms skip_item_rest [OF wfr(1) g0] jump
      by (auto simp: apply_control_def split: option.splits)
  next
    case Mute
    then show ?thesis using assms mute_rest [OF assms, of True] by (auto simp: apply_control_def)
  next
    case Unmute
    then show ?thesis using assms mute_rest [OF assms, of False] by (auto simp: apply_control_def)
  next
    case Skip
    then show ?thesis using assms skip_item_rest [OF wfr(1) g0] by (auto simp: apply_control_def)
  next
    case Play
    then show ?thesis using assms resume by (auto simp: apply_control_def)
  next
    case Toggle
    then show ?thesis using pause_rest [OF assms] resume by (auto simp: apply_control_def)
  qed (use assms in \<open>simp_all add: apply_control_def pause_rest stop_rest restart_rest line_step_rest\<close>)
qed

section \<open>The end of a call\<close>

lemma ahead_alive: "(iid, c, t) \<in> set (ahead r) \<Longrightarrow> iid \<in> set (alive_ids r)"
  by (auto simp: ahead_def alive_ids_def cur_ids_def chunks_of_def split: option.splits
      dest!: in_set_takeD in_set_dropD)

lemma good_request_all:
  assumes "good pre P b r" "\<forall>(iid, c, t) \<in> set xs. iid \<in> set (alive_ids r)"
  shows "good pre P b (fold (\<lambda>(iid, chunk, t). request iid chunk t) xs r)"
  using assms
proof (induction xs arbitrary: r)
  case Nil
  then show ?case by simp
next
  case (Cons x xs)
  obtain iid c t where x: "x = (iid, c, t)" by (cases x)
  have "good pre P b (request iid c t r)" using Cons.prems x by (intro good_request) auto
  moreover have "alive_ids (request iid c t r) = alive_ids r" by (simp add: alive_ids_def cur_ids_def)
  ultimately show ?case using Cons.prems x by (simp add: Cons.IH)
qed

lemma good_prefetch: "good pre P b r \<Longrightarrow> good pre P b (prefetch r)"
  by (auto simp: prefetch_def intro!: good_request_all dest: ahead_alive)

lemma at_rest_same:
  "same_core r s \<Longrightarrow> at_rest pre r \<Longrightarrow> good pre {} (paused r) s \<Longrightarrow> at_rest pre s"
  by (simp add: at_rest_def same_core_wf_core same_core_settled) (simp add: same_core_def)

lemma finish_rest:
  assumes "at_rest pre r"
  shows "at_rest pre (finish r)"
proof -
  let ?r = "prefetch r"
  have "good pre {} (paused r) ?r" using assms by (simp add: at_rest_def good_prefetch)
  with prefetch_same assms have rest: "at_rest pre ?r" by (rule at_rest_same)
  then have wfr: "wf_core ?r" by (simp add: at_rest_def)
  show ?thesis
  proof (cases "snapshot (st_seq (shown ?r)) ?r = shown ?r")
    case True
    then show ?thesis using rest wfr by (simp add: finish_def check_index_id Let_def)
  next
    case False
    let ?st = "snapshot (st_seq (shown ?r) + 1) ?r"
    let ?e = "Emit (StateEv ?st)"
    obtain h where h: "run_host host0 (pre @ map Out (fx ?r)) = Some h" "sim {} (paused ?r) h ?r"
      using rest unfolding at_rest_def by (auto elim: good_goodE)
    have seq: "st_seq ?st = st_seq (shown ?r) + 1" by (simp add: snapshot_def)
    have "host_ok h (Out ?e)" using h(2) seq by (simp add: sim_def)
    moreover have "sim {} (paused ?r) (host_upd h (Out ?e)) (push_fx ?e (?r\<lparr>shown := ?st\<rparr>))"
      using h(2) by (simp add: sim_simps)
    ultimately have g: "good pre {} (paused ?r) (push_fx ?e (?r\<lparr>shown := ?st\<rparr>))"
      using good_push [OF h(1)] by simp
    have "at_rest pre (push_fx ?e (?r\<lparr>shown := ?st\<rparr>))"
      by (rule at_rest_same [OF _ rest g]) (simp add: same_core_def push_fx_def)
    then show ?thesis using False wfr by (simp add: finish_def check_index_id Let_def)
  qed
qed

section \<open>The public methods\<close>

lemma place_item_rest:
  assumes "wf_core r" "settled r" "good pre {item_id it} (paused r) r" "item_chunks it \<noteq> []"
  shows "at_rest pre (place_item it interrupt r)"
proof (cases "interrupt \<and> current r \<noteq> None")
  case True
  let ?s = "(end_current Skipped r)\<lparr>queue := it # queue (end_current Skipped r)\<rparr>"
  have "good pre {item_id it} False (end_current Skipped r)"
    using assms(3) by (rule good_end_current) simp
  then have g: "good pre {} False ?s" by (rule good_put_first)
  have core: "wf_core ?s"
    using end_current_core [OF assms(1), of Skipped] assms(4) by (auto simp: wf_core_def)
  have "at_rest pre (start_next ?s)"
    using start_next_wf [OF core] good_start_next [OF g _ _ core]
    by (auto simp: at_rest_def intro!: loaded_unpaused start_next_loaded)
  then show ?thesis using True by (simp add: place_item_def Let_def)
next
  case False
  let ?s = "r\<lparr>queue := queue r @ [it]\<rparr>"
  have g: "good pre {} (paused r) ?s" using assms(3) by (rule good_put_last)
  have core: "wf_core ?s" using assms(1,4) by (auto simp: wf_core_def)
  show ?thesis
  proof (cases "current r = None")
    case True
    then have idle: "current ?s = None" "loaded ?s = None" using assms(2) by (simp_all add: settled_def)
    have "at_rest pre (start_next ?s)"
      using start_next_wf [OF core idle] good_start_next [OF g idle core] idle
      by (auto simp: at_rest_def intro!: loaded_unpaused start_next_loaded)
    then show ?thesis using True by (simp add: place_item_def)
  next
    case busy: False
    then have "settled ?s" using assms(2) by (auto simp: settled_def)
    then have "at_rest pre ?s" using g core by (simp add: at_rest_def)
    then show ?thesis using busy False by (auto simp: place_item_def Let_def)
  qed
qed

lemma speak_rest:
  assumes "at_rest pre r"
  shows "at_rest pre (speak L txt mode interrupt label r)"
proof -
  let ?n = "next_id r"
  let ?a = "r\<lparr>next_id := Suc ?n\<rparr>"
  let ?b = "if mode = Replace then drop_queue ?a else ?a"
  have wfr: "wf_core r" "settled r" and g0: "good pre {} (paused r) r"
    using assms by (simp_all add: at_rest_def)
  have same: "same_core r ?a" by (simp add: same_core_def)
  have a: "wf_core ?a" "settled ?a" "good pre {?n} (paused ?a) ?a"
    using wfr good_fresh_id [OF g0] same by (simp_all add: same_core_wf_core same_core_settled)
  have b: "wf_core ?b" "settled ?b" "good pre {?n} (paused ?b) ?b"
    using drop_queue_wf [OF a(1,2)] good_drop_queue [OF a(3)] a by auto
  have "at_rest pre (emit_item ?n Skipped ?a)"
  proof -
    obtain h where h: "run_host host0 (pre @ map Out (fx ?a)) = Some h" "sim {} (paused r) h r"
      using g0 by (auto elim: good_goodE)
    have hn: "sim {?n} (paused r) h ?a" using sim_fresh_id [OF h(2)] by simp
    have "\<forall>p \<in> requested r. fst p \<noteq> ?n"
    proof -
      have "?n \<notin> set (alive_ids r)" using h(2) by (auto simp: sim_def)
      then show ?thesis using h(2) by (auto simp: sim_def)
    qed
    let ?e = "Emit (ItemEv ?n Skipped)"
    have "sim {} (paused ?a) (host_upd h (Out ?e)) (push_fx ?e ?a)"
      using hn \<open>\<forall>p \<in> requested r. fst p \<noteq> ?n\<close> by (auto simp: sim_simps split: option.splits)
    moreover have "host_ok h (Out ?e)" using hn by (simp add: sim_def)
    ultimately have g: "good pre {} (paused r) (push_fx ?e ?a)" using good_push [OF h(1)] by simp
    then show ?thesis unfolding emit_item_def
      by (rule at_rest_same [OF _ assms, rotated]) (simp add: same_core_def push_fx_def)
  qed
  moreover have "item_chunks it \<noteq> [] \<Longrightarrow> item_id it = ?n \<Longrightarrow>
      at_rest pre (finish (place_item it interrupt ?b))" for it
    using place_item_rest [OF b(1,2)] b(3) by (simp add: finish_rest)
  ultimately show ?thesis
    by (cases "cut L (chunk_mode r) txt = []") (simp_all add: speak_def Let_def split del: if_split)
qed

lemma on_audio_rest:
  assumes "at_rest pre r" "fx r = []"
  shows "at_rest (pre @ [In (OnAudio e)]) (on_audio e r)"
proof -
  let ?pre = "pre @ [In (OnAudio e)]"
  have wfr: "wf_core r" "settled r" using assms(1) by (simp_all add: at_rest_def)
  obtain h where h: "run_host host0 pre = Some h" "sim {} (paused r) h r"
    using assms unfolding at_rest_def by (auto elim: good_goodE)
  have upd: "run_host host0 (?pre @ map Out (fx r)) = Some (host_upd h (In (OnAudio e)))"
    using run_host_snoc [OF h(1), of "In (OnAudio e)"] assms(2) by simp
  show ?thesis
  proof (cases "loaded r = Some (audio_gen e)")
    case False
    have "sim {} (paused r) (host_upd h (In (OnAudio e))) r"
      using h(2) False by (cases e) (auto simp: sim_def out_ended_def split: option.splits)
    then have "good ?pre {} (paused r) r" using upd by (auto simp: good_def)
    then show ?thesis using False wfr by (simp add: on_audio_def at_rest_def)
  next
    case True
    have busy: "current r \<noteq> None" using wfr(1) True by (auto simp: wf_core_def)
    let ?u = "r\<lparr>loaded := None\<rparr>"
    have u: "wf_core ?u" "wf_core (mark_played ?u)"
      using wfr(1) by (auto simp: wf_core_def mark_played_def in_range_def)
    show ?thesis
    proof (cases e)
      case (ChunkStarted g)
      have "sim {} (paused r) (host_upd h (In (OnAudio e))) (mark_played r)"
        using h(2) ChunkStarted by (auto simp: sim_simps mark_played_def split: option.splits)
      then have "good ?pre {} (paused r) (mark_played r)"
        using upd unfolding good_def by (auto simp: mark_played_def)
      then have "at_rest ?pre (mark_played r)" using wfr
        by (auto simp: at_rest_def mark_played_def wf_core_def settled_def in_range_def)
      then show ?thesis using True ChunkStarted by (simp add: on_audio_def finish_rest)
    next
      case (ChunkFinished g)
      have "sim {} (paused r) (host_upd h (In (OnAudio e))) (mark_played ?u)"
        using h(2) True ChunkFinished
        by (auto simp: sim_simps mark_played_def out_ended_def split: option.splits)
      then have "good ?pre {} (paused r) (mark_played ?u)"
        using upd unfolding good_def by (auto simp: mark_played_def)
      then have "at_rest ?pre (advance (mark_played ?u))" using u(2) busy
        by (intro advance_rest) (auto simp: mark_played_def)
      then show ?thesis using True ChunkFinished by (simp add: on_audio_def finish_rest)
    next
      case (AudioFailed g reason)
      have "sim {} (paused r) (host_upd h (In (OnAudio e))) ?u"
        using h(2) True AudioFailed by (auto simp: sim_simps out_ended_def split: option.splits)
      then have "good ?pre {} (paused r) ?u" using upd unfolding good_def by auto
      then have "at_rest ?pre (advance ?u)" using u(1) busy by (intro advance_rest) auto
      then show ?thesis using True AudioFailed by (simp add: on_audio_def finish_rest)
    qed
  qed
qed

text \<open>An input other than an audio event is nothing to the host.\<close>

definition is_audio :: "input \<Rightarrow> bool" where
  "is_audio i \<longleftrightarrow> (case i of OnAudio _ \<Rightarrow> True | _ \<Rightarrow> False)"

lemma at_rest_input:
  assumes "at_rest pre r" "fx r = []" "\<not> is_audio i"
  shows "at_rest (pre @ [In i]) r"
proof -
  obtain h where h: "run_host host0 pre = Some h" "sim {} (paused r) h r"
    using assms(1,2) unfolding at_rest_def by (auto elim: good_goodE)
  have "host_upd h (In i) = h" using assms(3) by (cases i) (auto simp: is_audio_def)
  then have "run_host host0 (pre @ [In i]) = Some h" using run_host_snoc [OF h(1), of "In i"] by simp
  then show ?thesis using assms(1,2) h(2) by (simp add: at_rest_def good_def)
qed

lemma at_rest_setting:
  assumes "at_rest pre r" "wf_core s" "settled s" "fx s = fx r" "gen s = gen r" "shown s = shown r"
    "muted s = muted r" "loaded s = loaded r" "paused s = paused r" "next_id s = next_id r"
    "current s = current r" "queue s = queue r" "requested s = requested r"
  shows "at_rest pre s"
proof -
  have "good pre {} (paused r) r" using assms(1) by (simp add: at_rest_def)
  then have "good pre {} (paused r) s"
    by (rule good_cong) (simp_all add: assms sim_def alive_ids_def cur_ids_def)
  then show ?thesis using assms(2,3,9) by (simp add: at_rest_def)
qed

lemma set_volume_rest:
  assumes "at_rest pre r"
  shows "at_rest pre (set_volume v r)"
proof -
  have wfr: "wf_core r" "settled r" using assms by (simp_all add: at_rest_def)
  obtain h where h: "run_host host0 (pre @ map Out (fx r)) = Some h" "sim {} (paused r) h r"
    using assms unfolding at_rest_def by (auto elim: good_goodE)
  have "sim {} (paused r) (host_upd h (Out (SetVolume v))) (push_fx (SetVolume v) (r\<lparr>volume := v\<rparr>))"
    using h(2) by (simp add: sim_simps)
  then have "good pre {} (paused r) (push_fx (SetVolume v) (r\<lparr>volume := v\<rparr>))"
    using good_push [OF h(1)] by simp
  then have "at_rest pre (push_fx (SetVolume v) (r\<lparr>volume := v\<rparr>))"
    using wfr by (simp add: at_rest_def wf_core_def settled_def push_fx_def)
  then show ?thesis using assms by (simp add: set_volume_def finish_rest)
qed

lemma settings_rest:
  assumes "at_rest pre r"
  shows "at_rest pre (set_rate n r)" "at_rest pre (set_voice x r)"
    "at_rest pre (set_lookahead k r)" "at_rest pre (set_chunking c r)"
proof -
  have wfr: "wf_core r" "settled r" using assms by (simp_all add: at_rest_def)
  show "at_rest pre (set_rate n r)" unfolding set_rate_def
    by (intro finish_rest at_rest_setting [OF assms]) (use wfr in \<open>simp_all add: wf_core_def settled_def\<close>)
  show "at_rest pre (set_voice x r)" unfolding set_voice_def
    by (intro finish_rest at_rest_setting [OF assms]) (use wfr in \<open>simp_all add: wf_core_def settled_def\<close>)
  show "at_rest pre (set_lookahead k r)" unfolding set_lookahead_def
    by (intro finish_rest at_rest_setting [OF assms])
      (use wfr in \<open>simp_all add: wf_core_def settled_def MAX_LOOKAHEAD_def\<close>)
  show "at_rest pre (set_chunking c r)" unfolding set_chunking_def
    by (intro finish_rest at_rest_setting [OF assms]) (use wfr in \<open>simp_all add: wf_core_def settled_def\<close>)
qed

lemma set_code_step_rest:
  assumes "at_rest pre r"
  shows "at_rest pre (set_code_step on r)"
proof -
  let ?r = "r\<lparr>code_step := on\<rparr>"
  have wfr: "wf_core ?r" "settled ?r"
    using assms by (auto simp: at_rest_def wf_core_def settled_def)
  have rest: "at_rest pre ?r" by (rule at_rest_setting [OF assms wfr]) simp_all
  show ?thesis
  proof (cases "\<not> on \<and> step_wait r")
    case True
    then have w: "paused ?r" "loaded ?r = None" "current ?r \<noteq> None"
      using wfr by (auto simp: wf_core_def settled_def)
    have "good pre {} True ?r" using rest w(1) by (simp add: at_rest_def)
    then have "at_rest pre (resume_reader ?r)" using wfr(1) w by (intro resume_rest)
    then show ?thesis using True by (simp add: set_code_step_def finish_rest)
  next
    case False
    then show ?thesis using rest by (auto simp: set_code_step_def Let_def finish_rest)
  qed
qed

lemma apply_input_rest:
  assumes "at_rest pre r" "fx r = []"
  shows "at_rest (pre @ [In i]) (apply_input L i r)"
proof (cases "is_audio i")
  case True
  then show ?thesis using on_audio_rest [OF assms] by (cases i) (auto simp: is_audio_def)
next
  case False
  have "at_rest (pre @ [In i]) r" using assms False by (rule at_rest_input)
  then show ?thesis using False
    by (cases i) (simp_all add: is_audio_def speak_rest control_def finish_rest apply_control_rest
        set_code_step_rest set_volume_rest settings_rest)
qed

section \<open>Runs\<close>

text \<open>A run with its trace: every input, followed by the effects it had.\<close>

definition traced_step :: "text_lib \<Rightarrow> reader \<Rightarrow> input \<Rightarrow> reader \<times> action list" where
  "traced_step L r i = (let (r', es) = reader_step L r i in (r', In i # map Out es))"

definition trace_of :: "text_lib \<Rightarrow> input list \<Rightarrow> action list" where
  "trace_of L is = snd (run_machine (traced_step L) new_reader is)"

definition after :: "text_lib \<Rightarrow> input list \<Rightarrow> reader" where
  "after L is = fst (run_machine (traced_step L) new_reader is)"

lemma at_rest_emitted: "at_rest pre r \<Longrightarrow> at_rest (pre @ map Out (fx r)) (r\<lparr>fx := []\<rparr>)"
proof -
  assume a: "at_rest pre r"
  then obtain h where "run_host host0 (pre @ map Out (fx r)) = Some h" "sim {} (paused r) h r"
    unfolding at_rest_def by (auto elim: good_goodE)
  then have "good (pre @ map Out (fx r)) {} (paused r) (r\<lparr>fx := []\<rparr>)"
    by (auto simp: good_def sim_def alive_ids_def cur_ids_def)
  then show ?thesis using a by (simp add: at_rest_def wf_core_def settled_def)
qed

interpretation rtrace: machine "traced_step L" "\<lambda>r log. at_rest log r \<and> wf r \<and> fx r = []" for L
proof
  fix r log i t out
  assume a: "at_rest log r \<and> wf r \<and> fx r = []" and s: "traced_step L r i = (t, out)"
  let ?r = "apply_input L i r"
  have out: "t = ?r\<lparr>fx := []\<rparr>" "out = In i # map Out (fx ?r)"
    using s by (auto simp: traced_step_def reader_step_def Let_def)
  have "at_rest ((log @ [In i]) @ map Out (fx ?r)) (?r\<lparr>fx := []\<rparr>)"
    by (rule at_rest_emitted [OF apply_input_rest]) (use a in simp_all)
  then show "at_rest (log @ out) t \<and> wf t \<and> fx t = []"
    using out a by (simp add: apply_input_wf wf_clear_fx)
qed

lemma new_reader_rest: "at_rest [] new_reader"
  using new_reader_wf
  by (simp add: at_rest_def wf_def good_def sim_def host0_def alive_ids_def cur_ids_def)
    (simp add: new_reader_def Let_def snapshot_def)

lemma run_rest: "at_rest (trace_of L is) (after L is) \<and> wf (after L is) \<and> fx (after L is) = []"
  unfolding trace_of_def after_def
  by (rule rtrace.run_inv_from_start)
    (use new_reader_rest new_reader_wf in \<open>simp add: new_reader_def Let_def\<close>)

lemma run_accepted:
  "\<exists>h. run_host host0 (trace_of L is) = Some h \<and> sim {} (paused (after L is)) h (after L is)"
  using run_rest [of L "is"] by (auto simp: at_rest_def elim!: good_goodE)

end
