(* ===== verification/Reader_Props.thy ===== *)
theory Reader_Props imports Reader_Host begin

text \<open>
  Properties of the reader over whole runs: the host's contract, no panic, every item reported once,
  reading to the end in order, step mode, and prefetching.
\<close>

section \<open>Items in a trace\<close>

definition final_of :: "action \<Rightarrow> nat list" where
  "final_of a =
     (case a of Out (Emit (ItemEv it ph)) \<Rightarrow> if ph = Started then [] else [it] | _ \<Rightarrow> [])"

definition final_ids :: "action list \<Rightarrow> nat list" where
  "final_ids as = concat (map final_of as)"

lemma host_final:
  "run_host h as = Some h' \<Longrightarrow>
     h_final h' = h_final h \<union> set (final_ids as) \<and>
     distinct (final_ids as) \<and> set (final_ids as) \<inter> h_final h = {}"
proof (induction "as" arbitrary: h)
  case Nil
  then show ?case by (simp add: final_ids_def)
next
  case (Cons a as)
  from Cons.prems have ok: "host_ok h a" and r: "run_host (host_upd h a) as = Some h'"
    by (auto split: if_splits)
  have up: "h_final (host_upd h a) = h_final h \<union> set (final_of a) \<and> distinct (final_of a) \<and>
            set (final_of a) \<inter> h_final h = {}"
    using ok by (cases "(h, a)" rule: host_upd.cases) (auto simp: final_of_def out_ended_def split: option.splits)
  show ?case using Cons.IH [OF r] up by (auto simp: final_ids_def)
qed

section \<open>The order of reading\<close>

text \<open>The chunks still to be read, the playing one first.\<close>

definition keys_of :: "item \<Rightarrow> (nat \<times> nat) list" where
  "keys_of it = map (Pair (item_id it)) [0..<length (item_chunks it)]"

definition upcoming :: "reader \<Rightarrow> (nat \<times> nat) list" where
  "upcoming r =
     (case current r of
        None \<Rightarrow> []
      | Some cur \<Rightarrow>
          drop (cur_chunk cur) (keys_of (cur_item cur)) @ concat (map keys_of (queue r)))"

definition plays :: "effect list \<Rightarrow> (nat \<times> nat) list" where
  "plays es = concat (map (\<lambda>e. case e of PlayChunk it c g \<Rightarrow> [(it, c)] | _ \<Rightarrow> []) es)"

lemma plays_append [simp]: "plays (xs @ ys) = plays xs @ plays ys"
  by (simp add: plays_def)

lemma plays_simps [simp]:
  "plays [] = []" "plays (PlayChunk it c g # es) = (it, c) # plays es"
  "plays (Synthesize it c t # es) = plays es" "plays (Emit ev # es) = plays es"
  "plays (StopOutput # es) = plays es"
  by (simp_all add: plays_def)

definition reading :: "reader \<Rightarrow> bool" where
  "reading r \<longleftrightarrow> wf r \<and> fx r = [] \<and> loaded r \<noteq> None \<and> \<not> paused r \<and> \<not> code_step r"

text \<open>Frames: what requests and the end of a call do not touch.\<close>

lemma request_plays [simp]: "plays (fx (request iid c t r)) = plays (fx r)"
  by (simp add: request_def push_fx_def)

lemma prefetch_plays [simp]: "plays (fx (prefetch r)) = plays (fx r)"
proof -
  have "plays (fx (fold (\<lambda>(iid, c, t). request iid c t) xs s)) = plays (fx s)" for xs s
    by (induction xs arbitrary: s) auto
  then show ?thesis by (simp add: prefetch_def)
qed

lemma finish_same_core: "wf_core r \<Longrightarrow> same_core r (finish r)"
proof -
  assume "wf_core r"
  then have "wf_core (prefetch r)" by (simp add: same_core_wf_core [OF prefetch_same])
  moreover have "same_core (prefetch r) (push_fx e ((prefetch r)\<lparr>shown := s\<rparr>))" for e s
    by (simp add: same_core_def push_fx_def)
  ultimately show ?thesis
    by (auto simp: finish_def Let_def check_index_id intro: same_core_trans [OF prefetch_same])
qed

lemma finish_plays: "wf_core r \<Longrightarrow> plays (fx (finish r)) = plays (fx r)"
  by (simp add: finish_def Let_def check_index_id push_fx_def
      same_core_wf_core [OF prefetch_same])

lemma upcoming_same: "same_core r s \<Longrightarrow> upcoming s = upcoming r"
  by (cases "current r") (simp_all add: upcoming_def same_core_def)

lemma upcoming_clear [simp]: "upcoming (r\<lparr>fx := es\<rparr>) = upcoming r"
  by (cases "current r") (simp_all add: upcoming_def)

lemma begin_chunk_plays:
  assumes "wf_core r" "loaded r = None" "\<not> paused r" "current r = Some cur"
  shows "plays (fx (begin_chunk r)) = plays (fx r) @ [(item_id (cur_item cur), cur_chunk cur)]"
    and "loaded (begin_chunk r) = Some (gen r + 1)" "gen (begin_chunk r) = gen r + 1"
    and "\<not> paused (begin_chunk r)" "current (begin_chunk r) = Some cur"
    and "queue (begin_chunk r) = queue r" "code_step (begin_chunk r) = code_step r"
  using assms by (simp_all add: begin_chunk_def check_index_id Let_def push_fx_def)

lemma begin_chunk_frame:
  "wf_core r \<Longrightarrow> released (begin_chunk r) = released r \<and> step_wait (begin_chunk r) = step_wait r"
  by (cases "current r") (simp_all add: begin_chunk_def check_index_id Let_def push_fx_def)

lemma drop_keys: "drop c (keys_of it) = map (Pair (item_id it)) [c..<length (item_chunks it)]"
  by (simp add: keys_of_def drop_map)

lemma end_current_plays: "plays (fx (end_current ph r)) = plays (fx r)"
  by (auto simp: end_current_def stop_output_def forget_def emit_item_def push_fx_def Let_def
      split: option.splits)

lemma enter_item_plays: "plays (fx (enter_item it q r)) = plays (fx r)"
  by (simp add: enter_item_def emit_item_def push_fx_def)

lemma end_wait_plays [simp]: "fx (end_wait r) = fx r"
  by (simp add: end_wait_def)

lemma keys_of_Cons:
  "item_chunks it \<noteq> [] \<Longrightarrow>
   keys_of it = (item_id it, 0) # map (Pair (item_id it)) [Suc 0..<length (item_chunks it)]"
  by (simp add: keys_of_def upt_conv_Cons)

text \<open>
  One chunk ends: the next one in \<open>upcoming\<close> is played with the next generation, or the reader goes
  idle when there is none.
\<close>

lemma chunk_done:
  assumes "reading r"
  defines "s \<equiv> on_audio (ChunkFinished (gen r)) r"
  shows "upcoming s = tl (upcoming r)" and "plays (fx s) = take 1 (tl (upcoming r))"
    and "tl (upcoming r) \<noteq> [] \<Longrightarrow> reading (s\<lparr>fx := []\<rparr>) \<and> gen s = gen r + 1"
    and "tl (upcoming r) = [] \<Longrightarrow> current s = None \<and> queue s = []"
proof -
  have core: "wf_core r" "settled r" and fx: "fx r = []" and np: "\<not> paused r" "\<not> code_step r"
    using assms(1) by (auto simp: reading_def wf_def)
  have l: "loaded r = Some (gen r)" using assms(1) core by (auto simp: reading_def wf_core_def)
  obtain cur where cur: "current r = Some cur" using core(1) l by (auto simp: wf_core_def)
  let ?u = "mark_played (r\<lparr>loaded := None\<rparr>)"
  let ?cur = "cur\<lparr>cur_played_any := True\<rparr>"
  let ?it = "cur_item cur" and ?c = "cur_chunk cur"
  have u: "wf_core ?u" "loaded ?u = None" "\<not> paused ?u" "\<not> code_step ?u" "current ?u = Some ?cur"
    "queue ?u = queue r" "fx ?u = []" "gen ?u = gen r"
    using core np fx cur by (auto simp: mark_played_def wf_core_def in_range_def)
  have s: "s = finish (advance ?u)" using l by (simp add: s_def on_audio_def)
  have adv: "wf_core (advance ?u)" "settled (advance ?u)" using advance_wf [OF u(1)] u by auto
  have wf: "wf s" unfolding s using adv by (rule finish_wf)
  have same: "same_core (advance ?u) s" unfolding s using adv(1) by (rule finish_same_core)
  have pl: "plays (fx s) = plays (fx (advance ?u))" unfolding s using adv(1) by (rule finish_plays)
  have c: "?c < length (item_chunks ?it)" using core(1) cur by (auto simp: wf_core_def in_range_def)
  have up: "upcoming r = (item_id ?it, ?c) # drop (Suc ?c) (keys_of ?it) @ concat (map keys_of (queue r))"
    using c cur by (simp add: upcoming_def drop_keys upt_conv_Cons)
  consider (more) "?c + 1 < length (item_chunks ?it)"
    | (item) it q where "\<not> ?c + 1 < length (item_chunks ?it)" "queue r = it # q"
    | (idle) "\<not> ?c + 1 < length (item_chunks ?it)" "queue r = []"
    by (cases "queue r") auto
  then have "upcoming (advance ?u) = tl (upcoming r) \<and>
      plays (fx (advance ?u)) = take 1 (tl (upcoming r)) \<and>
      (tl (upcoming r) \<noteq> [] \<longrightarrow> loaded (advance ?u) \<noteq> None \<and> \<not> paused (advance ?u) \<and>
        \<not> code_step (advance ?u) \<and> gen (advance ?u) = gen r + 1) \<and>
      (tl (upcoming r) = [] \<longrightarrow> current (advance ?u) = None \<and> queue (advance ?u) = [])"
  proof cases
    case more
    let ?a = "advanced ?cur ?u"
    have a: "wf_core ?a" "loaded ?a = None" "\<not> paused ?a" "\<not> code_step ?a" "fx ?a = []"
      using advanced_core [OF u(1,2), of ?cur] more u
      by (simp_all add: advanced_def Let_def)
    have "advance ?u = begin_chunk ?a" using u(5) more by (simp add: advance_within)
    then show ?thesis using begin_chunk_plays [OF a(1-3), of "?cur\<lparr>cur_chunk := ?c + 1\<rparr>"] more a u up
      by (simp add: upcoming_def drop_keys upt_conv_Cons)
  next
    case item
    let ?e = "end_current Finished ?u"
    let ?n = "enter_item it q (end_wait ?e)"
    have e: "wf_core ?e" using u(1) by (rule end_current_core)
    have sw: "\<not> step_wait ?u" using u(1,3) by (auto simp: wf_core_def)
    have n: "wf_core ?n" "loaded ?n = None" "\<not> paused ?n" "\<not> code_step ?n" "plays (fx ?n) = []"
      using enter_item_core [OF end_wait_core [OF e]] item u sw
      by (simp_all add: end_wait_def enter_item_plays end_current_plays)
    have "advance ?u = begin_chunk ?n" using u(5,6) item by (simp add: advance_at_end start_next_Cons)
    moreover have "item_chunks it \<noteq> []" using core(1) item by (auto simp: wf_core_def)
    ultimately show ?thesis using begin_chunk_plays [OF n(1-3)] item n u up
      by (simp add: upcoming_def drop_keys keys_of_Cons)
  next
    case idle
    have "advance ?u = (end_wait (end_current Finished ?u))\<lparr>paused := False\<rparr>"
      using u(5,6) idle by (simp add: advance_at_end start_next_Nil)
    then show ?thesis using idle u up
      by (simp add: upcoming_def drop_keys end_current_plays)
  qed
  then show "upcoming s = tl (upcoming r)" "plays (fx s) = take 1 (tl (upcoming r))"
    and "tl (upcoming r) \<noteq> [] \<Longrightarrow> reading (s\<lparr>fx := []\<rparr>) \<and> gen s = gen r + 1"
    and "tl (upcoming r) = [] \<Longrightarrow> current s = None \<and> queue s = []"
    using same pl upcoming_same [OF same] wf_clear_fx [OF wf]
    by (simp_all add: same_core_def reading_def)
qed

text \<open>
  The output reports the end of every chunk it plays: the generations count up, so the events are
  known in advance.
\<close>

definition all_finish :: "nat \<Rightarrow> nat \<Rightarrow> input list" where
  "all_finish g n = map (\<lambda>k. OnAudio (ChunkFinished (g + k))) [0..<n]"

lemma all_finish_Suc: "all_finish g (Suc n) = OnAudio (ChunkFinished g) # all_finish (Suc g) n"
proof -
  have "[0..<Suc n] = 0 # map Suc [0..<n]" by (simp add: map_Suc_upt upt_conv_Cons)
  then show ?thesis by (simp add: all_finish_def)
qed

lemma read_to_end:
  assumes "reading r"
  shows "plays (snd (run_machine (reader_step L) r (all_finish (gen r) (length (upcoming r)))))
           = tl (upcoming r) \<and>
         current (fst (run_machine (reader_step L) r (all_finish (gen r) (length (upcoming r))))) = None \<and>
         queue (fst (run_machine (reader_step L) r (all_finish (gen r) (length (upcoming r))))) = []"
  using assms
proof (induction "tl (upcoming r)" arbitrary: r)
  case Nil
  let ?s = "on_audio (ChunkFinished (gen r)) r"
  have "upcoming r \<noteq> []"
  proof -
    obtain cur where "current r = Some cur" "in_range cur"
      using Nil.prems by (auto simp: reading_def wf_def wf_core_def)
    then show ?thesis by (auto simp: upcoming_def drop_keys in_range_def)
  qed
  then have "length (upcoming r) = Suc 0" using Nil.hyps by (cases "upcoming r") auto
  then show ?case using chunk_done [OF Nil.prems] Nil.hyps
    by (simp add: all_finish_Suc) (simp add: all_finish_def reader_step_def Let_def)
next
  case (Cons x xs)
  let ?s = "on_audio (ChunkFinished (gen r)) r"
  let ?t = "?s\<lparr>fx := []\<rparr>"
  have up: "tl (upcoming r) = x # xs" using Cons.hyps(2) by simp
  then have t: "reading ?t" "gen ?s = gen r + 1" "upcoming ?t = x # xs" "plays (fx ?s) = [x]"
    using chunk_done [OF Cons.prems] by simp_all
  have len: "length (upcoming r) = Suc (length (upcoming ?t))"
    using up t(3) by (cases "upcoming r") auto
  have "xs = tl (upcoming ?t)" using t(3) by simp
  from Cons.hyps(1) [OF this t(1)] show ?case
    unfolding len all_finish_Suc using t(2-4) up
    by (auto simp: reader_step_def [of L r] Let_def split: prod.splits)
qed

section \<open>Prefetching\<close>

definition prefetched :: "reader \<Rightarrow> bool" where
  "prefetched r \<longleftrightarrow>
     (loaded r \<noteq> None \<longrightarrow> (\<forall>(iid, c, t) \<in> set (ahead r). (iid, c) \<in> requested r))"

lemma requested_grows: "requested r \<subseteq> requested (request iid c t r)"
  by (auto simp: request_def push_fx_def)

lemma request_all_requested:
  "requested r \<subseteq> requested (fold (\<lambda>(iid, c, t). request iid c t) xs r) \<and>
   (\<forall>(iid, c, t) \<in> set xs. (iid, c) \<in> requested (fold (\<lambda>(iid, c, t). request iid c t) xs r))"
proof (induction xs arbitrary: r)
  case Nil
  then show ?case by simp
next
  case (Cons x xs)
  obtain iid c t where x: "x = (iid, c, t)" by (cases x)
  let ?s = "request iid c t r"
  have "(iid, c) \<in> requested ?s" by (simp add: request_def push_fx_def)
  then show ?case using Cons.IH [of ?s] requested_grows [of r iid c t] x by auto
qed

lemma ahead_same: "same_core r s \<Longrightarrow> ahead s = ahead r"
  by (cases "current r") (simp_all add: ahead_def same_core_def)

lemma finish_prefetched:
  assumes "wf_core r"
  shows "prefetched (finish r)"
proof -
  have req: "requested (finish r) = requested (prefetch r)"
    using assms by (simp add: finish_def Let_def check_index_id push_fx_def
        same_core_wf_core [OF prefetch_same])
  have same: "same_core r (finish r)" using assms by (rule finish_same_core)
  show ?thesis
  proof (cases "loaded r = None \<or> current r = None")
    case True
    then have "loaded (finish r) = None" using same assms by (auto simp: same_core_def wf_core_def)
    then show ?thesis by (simp add: prefetched_def)
  next
    case False
    then show ?thesis using request_all_requested [where xs = "ahead r" and r = r]
      by (auto simp: prefetched_def req ahead_same [OF same] prefetch_def)
  qed
qed

lemma apply_input_prefetched:
  assumes "wf r" "prefetched r"
  shows "prefetched (apply_input L i r)"
proof -
  have core: "wf_core r" "settled r" using assms(1) by (simp_all add: wf_def)
  have frame: "same_core r s \<Longrightarrow> requested s = requested r \<Longrightarrow> prefetched s" for s
    using assms(2) ahead_same [of r s] by (simp add: prefetched_def same_core_def)
  show ?thesis
  proof (cases i)
    case (Speak said mode intr label)
    let ?a = "r\<lparr>next_id := Suc (next_id r)\<rparr>"
    let ?b = "if mode = Replace then drop_queue ?a else ?a"
    have same: "same_core r ?a" by (simp add: same_core_def)
    have a: "wf_core ?a" "settled ?a" using core same by (simp_all add: same_core_wf_core same_core_settled)
    have b: "wf_core ?b" "settled ?b" using drop_queue_wf [OF a] a by auto
    have "prefetched (emit_item (next_id r) Skipped ?a)"
      by (rule frame) (simp_all add: same_core_def emit_item_def push_fx_def)
    moreover have "item_chunks it \<noteq> [] \<Longrightarrow> prefetched (finish (place_item it intr ?b))" for it
      using place_item_wf [OF b] by (blast intro: finish_prefetched)
    ultimately show ?thesis using Speak
      by (cases "cut L (chunk_mode r) said = []") (simp_all add: speak_def Let_def split del: if_split)
  next
    case (Control c)
    then show ?thesis using apply_control_wf [OF core, of c]
      by (simp add: control_def finish_prefetched)
  next
    case (SetCodeStep flag)
    let ?r = "r\<lparr>code_step := flag\<rparr>"
    have r: "wf_core ?r" "settled ?r" using core by (auto simp: wf_core_def settled_def)
    then have "step_wait r \<Longrightarrow> wf_core (resume_reader ?r)"
      using resume_wf [OF r(1)] by (auto simp: settled_def)
    then show ?thesis using SetCodeStep r
      by (cases "\<not> flag \<and> step_wait r") (auto simp: set_code_step_def Let_def intro: finish_prefetched)
  next
    case (OnAudio e)
    have m: "wf_core (mark_played r)" "wf_core (mark_played (r\<lparr>loaded := None\<rparr>))"
      "wf_core (r\<lparr>loaded := None\<rparr>)"
      using core by (auto simp: mark_played_def wf_core_def in_range_def)
    have "loaded r \<noteq> None \<Longrightarrow> current r \<noteq> None" using core(1) by (auto simp: wf_core_def)
    then have "loaded r \<noteq> None \<Longrightarrow> wf_core (advance (mark_played (r\<lparr>loaded := None\<rparr>)))"
      "loaded r \<noteq> None \<Longrightarrow> wf_core (advance (r\<lparr>loaded := None\<rparr>))"
      using advance_wf [OF m(2)] advance_wf [OF m(3)] by (simp_all add: mark_played_def)
    then show ?thesis using OnAudio assms(2) m(1)
      by (cases e) (auto simp: on_audio_def intro: finish_prefetched)
  qed (use core in \<open>auto simp: set_volume_def set_rate_def set_voice_def set_lookahead_def
      set_chunking_def push_fx_def wf_core_def MAX_LOOKAHEAD_def intro!: finish_prefetched\<close>)
qed

interpretation rpre: machine "traced_step L" "\<lambda>r log. wf r \<and> fx r = [] \<and> prefetched r" for L
proof
  fix r log i t out
  assume a: "wf r \<and> fx r = [] \<and> prefetched r" and s: "traced_step L r i = (t, out)"
  have t: "t = (apply_input L i r)\<lparr>fx := []\<rparr>"
    using s by (auto simp: traced_step_def reader_step_def Let_def)
  have "same_core (apply_input L i r) t" using t by (simp add: same_core_def)
  moreover have "prefetched (apply_input L i r)" using a by (simp add: apply_input_prefetched)
  ultimately show "wf t \<and> fx t = [] \<and> prefetched t"
    using a t ahead_same [of "apply_input L i r" t]
    by (simp add: apply_input_wf wf_clear_fx) (simp add: prefetched_def)
qed

lemma run_prefetched: "prefetched (after L is)"
proof -
  have "prefetched new_reader" by (simp add: prefetched_def new_reader_def Let_def)
  moreover have "fx new_reader = []" by (simp add: new_reader_def Let_def)
  ultimately have "wf (after L is) \<and> fx (after L is) = [] \<and> prefetched (after L is)"
    unfolding after_def using new_reader_wf by (intro rpre.run_inv_from_start) simp
  then show ?thesis by simp
qed

section \<open>Step mode\<close>

text \<open>
  With step mode on, the end of a code line (or of a block's announcement before a line) leaves the
  reader waiting at the next chunk, with nothing in the output.
\<close>

lemma step_wait_after_line:
  assumes "wf r" "fx r = []" "loaded r \<noteq> None" "\<not> paused r" "code_step r" "\<not> released r"
    and "current r = Some cur" "cur_chunk cur + 1 < length (item_chunks (cur_item cur))"
    and "waits_after (kind_at r (cur_chunk cur)) (kind_at r (cur_chunk cur + 1))"
  defines "s \<equiv> on_audio (ChunkFinished (gen r)) r"
  shows "paused s \<and> step_wait s \<and> loaded s = None \<and> plays (fx s) = [] \<and> \<not> released s \<and>
         code_step s \<and> gen s = gen r \<and>
         current s = Some (cur\<lparr>cur_played_any := True, cur_chunk := cur_chunk cur + 1\<rparr>)"
proof -
  have core: "wf_core r" using assms(1) by (simp add: wf_def)
  have l: "loaded r = Some (gen r)" using assms(3) core by (auto simp: wf_core_def)
  let ?u = "mark_played (r\<lparr>loaded := None\<rparr>)"
  let ?cur = "cur\<lparr>cur_played_any := True\<rparr>"
  let ?a = "advanced ?cur ?u"
  have u: "wf_core ?u" "loaded ?u = None" "current ?u = Some ?cur"
    using core assms(7) by (auto simp: mark_played_def wf_core_def in_range_def)
  have a: "wf_core ?a" using advanced_core [OF u(1,2), of ?cur] assms(8) by simp
  have af: "paused ?a" "step_wait ?a" "\<not> released ?a" "fx ?a = []" "code_step ?a"
    using assms(2,4-9)
    by (simp_all add: advanced_def Let_def mark_played_def kind_at_def)
  have adv: "advance ?u = begin_chunk ?a" using u(3) assms(8) by (simp add: advance_within)
  have b: "begin_chunk ?a =
      request (item_id (cur_item cur)) (cur_chunk cur + 1)
        (chunk_text (?cur\<lparr>cur_chunk := cur_chunk cur + 1\<rparr>)) ?a"
    using a af(1) by (simp add: begin_chunk_def check_index_id Let_def)
  have core': "wf_core (advance ?u)" unfolding adv b
    using a by (simp add: same_core_wf_core [OF request_same])
  have s: "s = finish (advance ?u)" using l by (simp add: s_def on_audio_def)
  have "same_core (advance ?u) s" unfolding s using core' by (rule finish_same_core)
  moreover have "plays (fx s) = plays (fx (advance ?u))" unfolding s using core' by (rule finish_plays)
  ultimately show ?thesis using af u adv b by (simp add: same_core_def) (simp add: mark_played_def)
qed

text \<open>From a step wait, \<open>NextLine\<close> plays the chunk waited at, and nothing else.\<close>

lemma next_line_plays:
  assumes "wf r" "fx r = []" "step_wait r" "current r = Some cur"
  defines "s \<equiv> control NextLine r"
  shows "plays (fx s) = [(item_id (cur_item cur), cur_chunk cur)] \<and> \<not> paused s \<and> \<not> step_wait s \<and>
         \<not> released s \<and> loaded s = Some (gen r + 1) \<and> gen s = gen r + 1 \<and>
         code_step s = code_step r \<and> current s = Some cur"
proof -
  have core: "wf_core r" using assms(1) by (simp add: wf_def)
  have w: "paused r" "loaded r = None" using core assms(3) by (auto simp: wf_core_def)
  have c: "cur_chunk cur < length (item_chunks (cur_item cur))"
    using core assms(4) by (auto simp: wf_core_def in_range_def)
  let ?r = "r\<lparr>paused := False, step_wait := False, released := False\<rparr>"
  have r: "wf_core ?r" using core by (auto simp: wf_core_def)
  let ?m = "moved (cur_chunk cur) ?r"
  have step: "line_step True r = begin_chunk ?m"
    using assms(3,4) w c by (simp add: line_step_def check_index_id [OF core] in_code_def Let_def move_to_eq)
  have m: "wf_core ?m" using moved_core [OF r, of cur] assms(4) c by simp
  have mf: "\<not> paused ?m" "fx ?m = []" "\<not> released ?m" "current ?m = Some cur" "loaded ?m = None"
    "gen ?m = gen r" "code_step ?m = code_step r"
    using assms(2,4) w(2) by (simp_all add: moved_def Let_def end_wait_def stop_output_def)
  note b = begin_chunk_plays [OF m mf(5,1,4)]
  have bc: "wf_core (begin_chunk ?m)" using begin_chunk_core [OF m mf(5)] .
  have rel: "\<not> released (begin_chunk ?m)" "\<not> step_wait (begin_chunk ?m)"
    using mf(3) begin_chunk_frame [OF m] by simp_all
  have s: "s = finish (begin_chunk ?m)" by (simp add: s_def control_def apply_control_def step)
  have "same_core (begin_chunk ?m) s" unfolding s using bc by (rule finish_same_core)
  moreover have "plays (fx s) = plays (fx (begin_chunk ?m))" unfolding s using bc by (rule finish_plays)
  ultimately show ?thesis using b mf rel by (simp add: same_core_def)
qed

end
