(* ===== verification/Reader_Claims.thy ===== *)
theory Reader_Claims imports Reader_Props begin

text \<open>
  The properties of the reader, with the run that each witness is evaluated on.
\<close>

section \<open>Concrete runs\<close>

text \<open>
  The witnesses speak text in its spoken form, which is cut without the assembler; only the ASCII
  letters and digits count as alphanumeric in them.
\<close>

definition ascii_lib :: text_lib where
  "ascii_lib =
     \<lparr>is_alphanumeric = (\<lambda>c. (48 \<le> c \<and> c \<le> 57) \<or> (65 \<le> c \<and> c \<le> 90) \<or> (97 \<le> c \<and> c \<le> 122)),
      assemble_whole = (\<lambda>s. [Text s])\<rparr>"

definition two_sentences :: str where
  "two_sentences = SPOKEN # lit ''One. Two.''"

definition two_lines :: str where
  "two_lines = CODE_START # lit ''Code.'' @ [10, CODE_LINE] @ lit ''a'' @ [10, CODE_LINE] @ lit ''b''"

lemmas cut_eval = split_chunks_def prose_chunks_def pack_message_def spoken_form_def segments.simps spoken_paragraphs_def
  spoken_sentences_def split_whitespace_def is_whitespace_def is_marker_def is_stop_def is_closer_def
  blank_line_def is_blank_def SPOKEN_def CODE_LINE_def CODE_START_def unmarked_def trim_def
  trim_end_def trim_start_def two_sentences_def two_lines_def ascii_lib_def

lemma two_sentences_cut: "split_chunks ascii_lib two_sentences = [lit ''One.'', lit ''Two.'']"
  by (simp add: cut_eval)

lemma two_lines_cut:
  "split_chunks ascii_lib two_lines =
     [CODE_START # lit ''Code.'', CODE_LINE # lit ''a'', CODE_LINE # lit ''b'']"
  by (simp add: cut_eval)

lemmas reader_eval = after_def trace_of_def traced_step_def reader_step_def new_reader_def
  speak_def cut_def control_def apply_control_def on_audio_def set_code_step_def place_item_def start_next_def
  enter_item_def begin_chunk_def advance_def mark_played_def line_step_def move_to_def skip_item_def
  end_current_def stop_output_def forget_def emit_item_def push_fx_def request_def check_index_def
  in_range_def chunk_text_def in_code_def kind_at_def kind_def snapshot_def end_wait_def
  release_code_def pause_reader_def resume_reader_def drop_queue_def stop_reader_def waits_after_def
  chunks_of_def ahead_def prefetch_def finish_def restart_def unmarked_def
  SPOKEN_def CODE_LINE_def CODE_START_def

definition one_item :: "input list" where
  "one_item = [Speak two_sentences Append False None]"

definition one_block :: "input list" where
  "one_block = [SetCodeStep True, Speak two_lines Append False None]"

lemmas run_eval = reader_eval one_item_def one_block_def two_sentences_cut two_lines_cut Let_def

lemma one_item_state:
  "loaded (after ascii_lib one_item) = Some 1" "\<not> paused (after ascii_lib one_item)"
  "\<not> code_step (after ascii_lib one_item)" "gen (after ascii_lib one_item) = 1"
  "upcoming (after ascii_lib one_item) = [(1, 0), (1, 1)]"
  by (simp_all add: run_eval upcoming_def keys_of_def upt_conv_Cons cong: let_weak_cong)




section \<open>Properties\<close>

text \<open>C1: over any sequence of calls, the effects of the reader keep the contract with the host that
  the comments on \<open>Effect\<close>, \<open>Event\<close> and \<open>ItemId\<close> promise: each chunk is synthesized at most once and
  never after its item ended; a chunk is played with a new generation, into an empty output, after
  its synthesis, while its item is alive; pause, resume and stop find the output as they need it;
  each item starts and ends at most once; states are numbered without a gap.\<close>

theorem reader_keeps_contract: "run_host host0 (trace_of L is) \<noteq> None"
  using run_accepted [of L "is"] by auto

text \<open>C2: no sequence of calls makes the reader index out of range (it never panics); between calls an
  idle reader has an empty queue, is not paused and holds nothing in the output, a reader that is
  neither idle nor paused has a chunk in the output, a step wait is a pause with an empty output, and
  the state last emitted is the current one.\<close>

theorem reader_wf: "wf (after L is)"
  using run_rest [of L "is"] by simp

text \<open>C3: no item is lost and none is reported twice: after any calls, every id handed out so far
  belongs either to an item still in the reader, or to exactly one final item event (finished,
  skipped or failed) of the trace.\<close>

theorem reader_reports_once:
  "distinct (final_ids (trace_of L is) @ alive_ids (after L is)) \<and>
   set (final_ids (trace_of L is) @ alive_ids (after L is)) = {1..<next_id (after L is)}"
proof -
  obtain h where h: "run_host host0 (trace_of L is) = Some h" "sim {} (paused (after L is)) h (after L is)"
    using run_accepted by blast
  have "h_final h = set (final_ids (trace_of L is))" "distinct (final_ids (trace_of L is))"
    using host_final [OF h(1)] by (simp_all add: host0_def)
  then show ?thesis using h(2) by (auto simp: sim_def)
qed

text \<open>C4: reading to the end: when the reader plays (not paused, step mode off) and the output reports
  the end of every chunk it is given, the chunks played are the rest of the current item and then the
  queued items' chunks, each once and in order, and the reader ends idle with an empty queue.\<close>

theorem reader_reads_in_order:
  fixes L "is"
  defines "r \<equiv> after L is"
  assumes "loaded r \<noteq> None" "\<not> paused r" "\<not> code_step r"
  shows "let (s, es) = run_machine (reader_step L) r (all_finish (gen r) (length (upcoming r)))
         in plays es = tl (upcoming r) \<and> current s = None \<and> queue s = []"
proof -
  have "reading r" using assms run_rest [of L "is"] by (simp add: reading_def)
  from read_to_end [OF this, of L] show ?thesis by (auto simp: Let_def split: prod.splits)
qed

theorem reader_reads_in_order_witness:
  "let (s, es) = run_machine (reader_step ascii_lib) (after ascii_lib one_item) (all_finish 1 2)
   in plays es = [(1, 1)] \<and> current s = None \<and> queue s = []"
  using reader_reads_in_order [of ascii_lib one_item] one_item_state by (simp add: numeral_2_eq_2)

text \<open>a superseded play can never move the reader: an audio event whose generation is not the last
  one handed out changes nothing and has no effect.\<close>

theorem stale_audio_ignored:
  assumes "audio_gen e \<noteq> gen (after L is)"
  shows "reader_step L (after L is) (OnAudio e) = (after L is, [])"
proof -
  have "wf_core (after L is)" "fx (after L is) = []" using run_rest [of L "is"] by (simp_all add: wf_def)
  moreover from this have "loaded (after L is) \<noteq> Some (audio_gen e)"
    using assms by (auto simp: wf_core_def)
  ultimately show ?thesis by (simp add: reader_step_def on_audio_def)
qed

theorem stale_audio_ignored_witness:
  "audio_gen (ChunkFinished 0) \<noteq> gen (after ascii_lib one_item) \<and>
   reader_step ascii_lib (after ascii_lib one_item) (OnAudio (ChunkFinished 0)) =
     (after ascii_lib one_item, [])"
  using stale_audio_ignored [of "ChunkFinished 0" ascii_lib one_item] one_item_state by simp

text \<open>whenever a chunk is in the output, the next \<open>lookahead\<close> chunks in play order (the rest of the
  item, then the queued items) have been sent to synthesis.\<close>

theorem reader_prefetches: "prefetched (after L is)"
  by (rule run_prefetched)



end
