(* ===== verification/Packing.thy ===== *)
theory Packing imports Chunks "HOL-Library.Sublist" begin

text \<open>
  What \<open>pack_message\<close> promises of each run of prose (the doc comment of \<open>reader/chunks.rs\<close>): the
  sentences in order, none cut, none above the limit unless it is a sentence of its own, in as few
  chunks as possible. A chunk is described by its group of units, a unit being a sentence with the
  flag "starts a paragraph".
\<close>

section \<open>Groups of sentences\<close>

type_synonym unit_group = "(bool \<times> str) list"

definition glue_from :: "str \<Rightarrow> unit_group \<Rightarrow> str" where
  "glue_from cur g = foldl (\<lambda>cur (b, s). join_unit cur b s) cur g"

definition glue :: "unit_group \<Rightarrow> str" where
  "glue g = glue_from [] g"

definition fits :: "nat \<Rightarrow> bool \<Rightarrow> unit_group \<Rightarrow> bool" where
  "fits lim bytes g \<longleftrightarrow> g \<noteq> [] \<and> (size_of bytes (glue g) \<le> lim \<or> length g = 1)"

definition grouping :: "nat \<Rightarrow> bool \<Rightarrow> unit_group \<Rightarrow> unit_group list \<Rightarrow> bool" where
  "grouping lim bytes us gs \<longleftrightarrow> concat gs = us \<and> (\<forall>g \<in> set gs. fits lim bytes g)"

definition no_empty :: "unit_group \<Rightarrow> bool" where
  "no_empty us \<longleftrightarrow> (\<forall>u \<in> set us. snd u \<noteq> [])"

lemma no_empty_simps [simp]:
  "no_empty []"
  "no_empty (u # us) \<longleftrightarrow> snd u \<noteq> [] \<and> no_empty us"
  "no_empty (us @ vs) \<longleftrightarrow> no_empty us \<and> no_empty vs"
  by (auto simp: no_empty_def)

lemma glue_simps [simp]:
  "glue [] = []"
  "glue [(b, s)] = s"
  "glue (g @ [(b, s)]) = join_unit (glue g) b s"
  by (simp_all add: glue_def glue_from_def join_unit_def)

lemma glue_append: "glue (g @ h) = glue_from (glue g) h"
  by (simp add: glue_def glue_from_def)

lemma size_of_simps [simp]:
  "size_of bytes [] = 0"
  "size_of bytes (s @ t) = size_of bytes s + size_of bytes t"
  "size_of bytes [10, 10] = 2" "size_of bytes [32] = 1"
  by (simp_all add: size_of_def utf8_len_def)

definition gap :: "bool \<times> str \<Rightarrow> nat" where
  "gap u = (if fst u then 2 else 1)"

lemma size_join_unit:
  "cur \<noteq> [] \<Longrightarrow> size_of bytes (join_unit cur b s) = size_of bytes cur + gap (b, s) + size_of bytes s"
  using size_of_simps(2) [of bytes cur "[10, 10] @ s"] size_of_simps(2) [of bytes cur "[32] @ s"]
    size_of_simps(2) [of bytes "[10, 10]" s] size_of_simps(2) [of bytes "[32]" s]
  by (simp add: join_unit_def gap_def)

lemma join_unit_not_empty: "cur \<noteq> [] \<Longrightarrow> join_unit cur b s \<noteq> []"
  by (simp add: join_unit_def)

lemma size_glue_from:
  "cur \<noteq> [] \<Longrightarrow>
     size_of bytes (glue_from cur g) = size_of bytes cur + (\<Sum>u\<leftarrow>g. gap u + size_of bytes (snd u))"
proof (induction g arbitrary: cur)
  case Nil
  then show ?case by (simp add: glue_from_def)
next
  case (Cons u g)
  obtain b s where u: "u = (b, s)" by (cases u)
  have "size_of bytes (glue_from (join_unit cur b s) g) =
      size_of bytes (join_unit cur b s) + (\<Sum>u\<leftarrow>g. gap u + size_of bytes (snd u))"
    by (rule Cons.IH [OF join_unit_not_empty [OF Cons.prems]])
  then show ?case using Cons.prems by (simp add: glue_from_def u size_join_unit)
qed

lemma glue_Cons: "glue ((b, s) # g) = glue_from s g"
  by (simp add: glue_def glue_from_def join_unit_def)

lemma size_glue:
  "snd u \<noteq> [] \<Longrightarrow>
     size_of bytes (glue (u # g)) = size_of bytes (snd u) + (\<Sum>v\<leftarrow>g. gap v + size_of bytes (snd v))"
  by (cases u) (simp add: glue_Cons size_glue_from)

lemma size_glue_suffix: "no_empty (u # g) \<Longrightarrow> size_of bytes (glue g) \<le> size_of bytes (glue (u # g))"
  by (cases g) (simp_all add: size_glue)

lemma size_glue_prefix: "no_empty (g @ h) \<Longrightarrow> size_of bytes (glue g) \<le> size_of bytes (glue (g @ h))"
  by (cases g) (simp_all add: size_glue)

lemma no_empty_part: "no_empty (concat gs) \<Longrightarrow> g \<in> set gs \<Longrightarrow> no_empty g"
  by (auto simp: no_empty_def)

lemma glue_not_empty: "no_empty g \<Longrightarrow> g \<noteq> [] \<Longrightarrow> glue g \<noteq> []"
proof (induction g rule: rev_induct)
  case Nil
  then show ?case by simp
next
  case (snoc u g)
  then show ?case by (cases u) (auto simp: join_unit_def)
qed

section \<open>The greedy fill\<close>

text \<open>\<open>pack\<close> on groups: the same loop, keeping the units of a chunk apart.\<close>

fun pack_groups :: "nat \<Rightarrow> bool \<Rightarrow> unit_group \<Rightarrow> unit_group \<Rightarrow> unit_group list" where
  "pack_groups lim bytes g [] = (if g \<noteq> [] then [g] else [])"
| "pack_groups lim bytes g (u # us) =
     (if g \<noteq> [] \<and> lim < size_of bytes (glue (g @ [u])) then g # pack_groups lim bytes [u] us
      else pack_groups lim bytes (g @ [u]) us)"

lemma pack_is_pack_groups:
  "no_empty (g @ us) \<Longrightarrow> pack lim bytes (glue g) us = map glue (pack_groups lim bytes g us)"
proof (induction us arbitrary: g)
  case Nil
  then show ?case using glue_not_empty [of g] by auto
next
  case (Cons u us)
  obtain b s where u: "u = (b, s)" by (cases u)
  have "glue g \<noteq> [] \<longleftrightarrow> g \<noteq> []" using Cons.prems glue_not_empty [of g] by auto
  moreover have "pack lim bytes s us = map glue (pack_groups lim bytes [u] us)"
    using Cons.IH [of "[u]"] Cons.prems by (simp add: u)
  moreover have "pack lim bytes (join_unit (glue g) b s) us = map glue (pack_groups lim bytes (g @ [u]) us)"
    using Cons.IH [of "g @ [u]"] Cons.prems by (simp add: u)
  ultimately show ?case by (cases "g = []") (simp_all add: u join_unit_def)
qed

lemma fits_grow:
  "g = [] \<or> fits lim bytes g \<Longrightarrow> \<not> (g \<noteq> [] \<and> lim < size_of bytes (glue (g @ [u]))) \<Longrightarrow>
     fits lim bytes (g @ [u])"
  by (auto simp: fits_def)

lemma pack_groups_grouping:
  "g = [] \<or> fits lim bytes g \<Longrightarrow> grouping lim bytes (g @ us) (pack_groups lim bytes g us)"
proof (induction us arbitrary: g)
  case Nil
  then show ?case by (auto simp: grouping_def)
next
  case (Cons u us)
  show ?case
  proof (cases "g \<noteq> [] \<and> lim < size_of bytes (glue (g @ [u]))")
    case True
    have "fits lim bytes [u]" by (simp add: fits_def)
    with Cons.IH [of "[u]"] Cons.prems True show ?thesis by (auto simp: grouping_def)
  next
    case False
    then have "fits lim bytes (g @ [u])" by (rule fits_grow [OF Cons.prems])
    with Cons.IH [of "g @ [u]"] show ?thesis by (simp add: False)
  qed
qed

section \<open>Greedy is best\<close>

lemma grouping_drop1:
  assumes "grouping lim bytes (u # us) gs" "no_empty (u # us)"
  shows "\<exists>hs. grouping lim bytes us hs \<and> length hs \<le> length gs"
proof -
  obtain g gs' where gs: "gs = g # gs'" using assms by (cases gs) (auto simp: grouping_def)
  have "g \<noteq> []" using assms by (auto simp: gs grouping_def fits_def)
  then obtain g' where g: "g = u # g'" "us = g' @ concat gs'"
    using assms by (cases g) (auto simp: gs grouping_def)
  show ?thesis
  proof (cases "g' = []")
    case True
    then have "grouping lim bytes us gs'" using assms by (auto simp: gs g grouping_def)
    then show ?thesis by (auto simp: gs)
  next
    case False
    have "no_empty (u # g')" using assms by (simp add: g)
    then have "fits lim bytes g'"
      using False assms size_glue_suffix [of u g' bytes] by (auto simp: gs g grouping_def fits_def)
    then have "grouping lim bytes us (g' # gs')" using assms by (auto simp: gs g grouping_def)
    then show ?thesis by (auto simp: gs)
  qed
qed

lemma grouping_drop:
  "grouping lim bytes (vs @ us) gs \<Longrightarrow> no_empty (vs @ us) \<Longrightarrow>
     \<exists>hs. grouping lim bytes us hs \<and> length hs \<le> length gs"
proof (induction vs arbitrary: gs)
  case Nil
  then show ?case by auto
next
  case (Cons v vs)
  then obtain hs where "grouping lim bytes (vs @ us) hs" "length hs \<le> length gs"
    using grouping_drop1 [of lim bytes v "vs @ us" gs] by auto
  with Cons.IH [of hs] Cons.prems show ?case by (auto intro: le_trans)
qed

lemma grouping_first:
  assumes gs: "grouping lim bytes (g @ u # us) gs" and g: "g \<noteq> []" "no_empty (g @ u # us)"
    and big: "lim < size_of bytes (glue (g @ [u]))"
  shows "\<exists>hs. grouping lim bytes (u # us) hs \<and> length hs < length gs"
proof -
  obtain h gs' where e: "gs = h # gs'" using gs g by (cases gs) (auto simp: grouping_def)
  have h: "h @ concat gs' = g @ u # us" "fits lim bytes h" "\<forall>g \<in> set gs'. fits lim bytes g"
    using gs by (auto simp: e grouping_def)
  from h(1) consider w where "g = h @ w" "concat gs' = w @ u # us" | w where "h = g @ u # w"
    by (auto simp: append_eq_append_conv2 append_eq_Cons_conv)
  then show ?thesis
  proof cases
    case 1
    then have "grouping lim bytes (w @ u # us) gs'" using h by (simp add: grouping_def)
    then obtain hs where "grouping lim bytes (u # us) hs" "length hs \<le> length gs'"
      using grouping_drop [of lim bytes w "u # us" gs'] g 1 by auto
    then show ?thesis by (auto simp: e)
  next
    case 2
    then have "no_empty ((g @ [u]) @ w)" using g(2) h(1) by (auto simp: no_empty_def)
    then have "lim < size_of bytes (glue h)"
      using big size_glue_prefix [of "g @ [u]" w bytes] by (simp add: 2)
    moreover have "1 < length h" using g by (cases g) (simp_all add: 2)
    ultimately show ?thesis using h(2) by (simp add: fits_def)
  qed
qed

text \<open>
  The fill is never behind: against a grouping of what is left that starts where the open group
  starts (\<open>v = g\<close>) it needs no more chunks, against one that starts inside it at most one more.
\<close>

lemma pack_groups_ahead:
  assumes "no_empty (g @ us)" "g \<noteq> []"
  shows "(\<forall>gs. grouping lim bytes (g @ us) gs \<longrightarrow> length (pack_groups lim bytes g us) \<le> length gs) \<and>
     (\<forall>gs v. grouping lim bytes (v @ us) gs \<and> suffix v g \<longrightarrow>
        length (pack_groups lim bytes g us) \<le> Suc (length gs))"
  using assms
proof (induction us arbitrary: g)
  case Nil
  have "gs \<noteq> []" if "grouping lim bytes g gs" for gs using that Nil.prems by (auto simp: grouping_def)
  then show ?case using Nil.prems by (simp add: Suc_le_eq)
next
  case (Cons u us)
  show ?case
  proof (cases "lim < size_of bytes (glue (g @ [u]))")
    case False
    have IH: "(\<forall>gs. grouping lim bytes (g @ u # us) gs \<longrightarrow>
          length (pack_groups lim bytes (g @ [u]) us) \<le> length gs) \<and>
      (\<forall>gs v. grouping lim bytes (v @ us) gs \<and> suffix v (g @ [u]) \<longrightarrow>
          length (pack_groups lim bytes (g @ [u]) us) \<le> Suc (length gs))"
      using Cons.IH [of "g @ [u]"] Cons.prems by simp
    have "length (pack_groups lim bytes (g @ [u]) us) \<le> Suc (length gs)"
      if "grouping lim bytes (v @ u # us) gs" "suffix v g" for gs v
    proof -
      have "grouping lim bytes ((v @ [u]) @ us) gs" "suffix (v @ [u]) (g @ [u])" using that by simp_all
      then show ?thesis using IH by blast
    qed
    note 2 = this
    have "length (pack_groups lim bytes (g @ [u]) us) \<le> length gs" if "grouping lim bytes (g @ u # us) gs" for gs
      using IH that by blast
    then show ?thesis using 2 False by auto
  next
    case True
    have IH: "\<forall>gs. grouping lim bytes (u # us) gs \<longrightarrow> length (pack_groups lim bytes [u] us) \<le> length gs"
      using Cons.IH [of "[u]"] Cons.prems by simp
    have 1: "length (pack_groups lim bytes [u] us) < length gs" if "grouping lim bytes (g @ u # us) gs" for gs
      using grouping_first [OF that Cons.prems(2,1) True] IH by (meson le_less_trans)
    have 2: "length (pack_groups lim bytes [u] us) \<le> length gs"
      if "grouping lim bytes (v @ u # us) gs" "suffix v g" for gs v
    proof -
      have "no_empty (v @ u # us)" using that(2) Cons.prems(1) by (auto simp: suffix_def)
      from grouping_drop [OF that(1) this] IH show ?thesis by (meson le_trans)
    qed
    have "pack_groups lim bytes g (u # us) = g # pack_groups lim bytes [u] us"
      using True Cons.prems(2) by simp
    then show ?thesis using 1 2 by (metis Suc_leI Suc_le_mono length_Cons)
  qed
qed

lemma pack_groups_fewest:
  assumes "no_empty us" "grouping lim bytes us gs"
  shows "length (pack_groups lim bytes [] us) \<le> length gs"
proof (cases us)
  case Nil
  then show ?thesis by simp
next
  case (Cons u us')
  then show ?thesis using assms pack_groups_ahead [of "[u]" us' lim bytes] by simp
qed

section \<open>Paragraphs first\<close>

definition para_units :: "str list \<Rightarrow> unit_group" where
  "para_units p = map (\<lambda>(i, s). (i = 0, s)) (enumerate 0 p)"

lemma units_simps [simp]: "units [] = []" "units (p # ps) = para_units p @ units ps"
  by (simp_all add: units_def para_units_def)

lemma para_units_later: "0 < n \<Longrightarrow> map (\<lambda>(i, s). (i = 0, s)) (enumerate n p) = map (Pair False) p"
  by (induction p arbitrary: n) simp_all

lemma para_units_simps [simp]:
  "para_units [] = []" "para_units (s # p) = (True, s) # map (Pair False) p"
  by (simp_all add: para_units_def para_units_later)

lemma glue_from_false: "cur \<noteq> [] \<Longrightarrow> glue_from cur (map (Pair False) p) = join [32] (cur # p)"
proof (induction p arbitrary: cur)
  case Nil
  then show ?case by (simp add: glue_from_def)
next
  case (Cons s p)
  have j: "join_unit cur False s = cur @ [32] @ s" using Cons.prems by (simp add: join_unit_def)
  have "join [32] ((cur @ 32 # s) # p) = cur @ 32 # join [32] (s # p)"
    by (cases p) simp_all
  then show ?case using Cons.IH [of "cur @ 32 # s"] j by (simp add: glue_from_def)
qed

lemma glue_para: "no_empty (para_units p) \<Longrightarrow> glue (para_units p) = join [32] p"
  by (cases p) (simp_all add: glue_Cons glue_from_false)

lemma glue_from_join:
  "cur \<noteq> [] \<Longrightarrow> pre \<noteq> [] \<Longrightarrow> glue_from (pre @ cur) g = pre @ glue_from cur g"
proof (induction g arbitrary: cur)
  case Nil
  then show ?case by (simp add: glue_from_def)
next
  case (Cons u g)
  obtain b s where u: "u = (b, s)" by (cases u)
  have "join_unit (pre @ cur) b s = pre @ join_unit cur b s" using Cons.prems by (simp add: join_unit_def)
  then show ?case using Cons.IH [OF join_unit_not_empty [OF Cons.prems(1)] Cons.prems(2)]
    by (simp add: glue_from_def u)
qed

lemma glue_append_para:
  assumes "no_empty (para_units p)" "p \<noteq> []"
  shows "glue (g @ para_units p) = join_unit (glue g) True (join [32] p)"
proof (cases "glue g = []")
  case True
  have "glue (g @ para_units p) = glue (para_units p)"
    by (simp add: glue_append True) (simp add: glue_def)
  then show ?thesis using glue_para [OF assms(1)] True by (simp add: join_unit_def)
next
  case False
  obtain s q where p: "p = s # q" using assms(2) by (cases p) auto
  have "s \<noteq> []" using assms by (simp add: p)
  then have "glue_from (glue g @ [10, 10] @ s) (map (Pair False) q) =
      (glue g @ [10, 10]) @ glue_from s (map (Pair False) q)"
    using glue_from_join [of s "glue g @ [10, 10]"] by simp
  then have "glue_from (glue g @ [10, 10] @ s) (map (Pair False) q) = glue g @ [10, 10] @ join [32] p"
    using glue_from_false [OF \<open>s \<noteq> []\<close>, of q] by (simp add: p)
  moreover have "glue (g @ para_units p) = glue_from (glue g @ [10, 10] @ s) (map (Pair False) q)"
    using False by (simp add: p glue_append) (simp add: glue_from_def join_unit_def)
  ultimately show ?thesis using False by (simp add: join_unit_def)
qed

lemma pack_first_flag: "p \<noteq> [] \<Longrightarrow> pack lim bytes [] (map (Pair False) p) = pack lim bytes [] (para_units p)"
  by (cases p) (simp_all add: join_unit_def)

lemma pack_paragraphs_grouping:
  assumes "g = [] \<or> fits lim bytes g" "no_empty (g @ units ps)" "[] \<notin> set ps"
  shows "\<exists>gs. grouping lim bytes (g @ units ps) gs \<and> pack_paragraphs lim bytes (glue g) ps = map glue gs"
  using assms
proof (induction ps arbitrary: g)
  case Nil
  then show ?case
    using glue_not_empty [of g] by (cases "g = []") (auto simp: grouping_def intro: exI [of _ "[g]"])
next
  case (Cons p ps)
  have p: "p \<noteq> []" "no_empty (para_units p)" "no_empty g" "no_empty (units ps)" "[] \<notin> set ps"
    using Cons.prems by auto
  have pu: "para_units p \<noteq> []" using p(1) by (cases p) auto
  note nxt = glue_append_para [OF p(2,1), of g] and whole = glue_para [OF p(2)]
  have pushed: "map glue (if g = [] then [] else [g]) = (if glue g \<noteq> [] then [glue g] else [])"
    using glue_not_empty [OF p(3)] by auto
  consider "size_of bytes (glue (g @ para_units p)) \<le> lim"
    | "\<not> size_of bytes (glue (g @ para_units p)) \<le> lim" "size_of bytes (glue (para_units p)) \<le> lim"
    | "\<not> size_of bytes (glue (g @ para_units p)) \<le> lim" "\<not> size_of bytes (glue (para_units p)) \<le> lim"
    by blast
  then show ?case
  proof cases
    case 1
    then have "fits lim bytes (g @ para_units p)" using pu by (simp add: fits_def)
    with Cons.IH [of "g @ para_units p"] p 1 nxt show ?thesis by simp
  next
    case 2
    then have "fits lim bytes (para_units p)" using pu by (simp add: fits_def)
    with Cons.IH [of "para_units p"] p obtain gs where gs: "grouping lim bytes (para_units p @ units ps) gs"
      "pack_paragraphs lim bytes (glue (para_units p)) ps = map glue gs" by auto
    then have "grouping lim bytes (g @ para_units p @ units ps) ((if g = [] then [] else [g]) @ gs)"
      using Cons.prems(1) by (auto simp: grouping_def)
    moreover have "pack_paragraphs lim bytes (glue g) (p # ps) =
        map glue ((if g = [] then [] else [g]) @ gs)"
      using 2 gs(2) pushed nxt whole by (auto simp: Let_def)
    ultimately show ?thesis by auto
  next
    case 3
    define parts where "parts = pack_groups lim bytes [] (para_units p)"
    have parts: "grouping lim bytes (para_units p) parts"
      using pack_groups_grouping [of "[]" lim bytes "para_units p"] by (simp add: parts_def)
    then have ne: "parts \<noteq> []" using pu by (auto simp: grouping_def)
    then have split: "parts = butlast parts @ [last parts]" by simp
    have fl: "fits lim bytes (last parts)" "no_empty (last parts)"
      using parts p(2) last_in_set [OF ne] no_empty_part [of parts "last parts"]
      by (simp_all add: grouping_def)
    have cat: "concat (butlast parts) @ last parts = para_units p"
      using parts arg_cong [OF split, of concat] by (simp add: grouping_def)
    from Cons.IH [of "last parts"] fl p obtain gs where
      gs: "grouping lim bytes (last parts @ units ps) gs"
        "pack_paragraphs lim bytes (glue (last parts)) ps = map glue gs" by auto
    have "\<forall>h \<in> set (butlast parts). fits lim bytes h"
      using parts in_set_butlastD [of _ parts] by (auto simp: grouping_def)
    then have "grouping lim bytes (g @ para_units p @ units ps)
        ((if g = [] then [] else [g]) @ butlast parts @ gs)"
      using Cons.prems(1) gs(1) cat by (auto simp: grouping_def)
    moreover have packed: "pack lim bytes [] (map (\<lambda>s. (False, s)) p) = map glue parts"
      using pack_first_flag [OF p(1), of lim bytes] pack_is_pack_groups [of "[]" "para_units p" lim bytes] p(2)
      by (simp add: parts_def)
    have "pack_paragraphs lim bytes (glue g) (p # ps) =
        map glue ((if g = [] then [] else [g]) @ butlast parts @ gs)"
      using 3 ne gs(2) pushed nxt whole by (simp add: Let_def packed last_map map_butlast)
    ultimately show ?thesis by (metis units_simps(2))
  qed
qed

section \<open>The sentences are never empty\<close>

lemma spoken_part_not_empty: "spoken_part c = Some s \<Longrightarrow> s \<noteq> []"
  by (auto simp: spoken_part_def trim_empty_iff split: asm_chunk.splits if_splits)

lemma group_paragraphs_not_empty:
  "[] \<notin> set (group_paragraphs cur cs)"
  "[] \<notin> set cur \<Longrightarrow> p \<in> set (group_paragraphs cur cs) \<Longrightarrow> [] \<notin> set p"
  by (induction cur cs rule: group_paragraphs.induct)
    (auto dest: spoken_part_not_empty split: option.splits if_splits)

lemma paragraphs_not_empty:
  "[] \<notin> set (paragraphs L s spoken)" "no_empty (units (paragraphs L s spoken))"
proof -
  have "\<forall>p \<in> set (paragraphs L s spoken). p \<noteq> [] \<and> [] \<notin> set p"
    using group_paragraphs_not_empty [where cs = "assemble_whole L s" and cur = "[]"]
    by (auto simp: paragraphs_def spoken_paragraphs_def spoken_sentences_def)
  moreover have "no_empty (para_units p) \<longleftrightarrow> [] \<notin> set p" for p
    by (cases p) (auto simp: no_empty_def)
  moreover have "no_empty (units ps)" if "\<forall>p \<in> set ps. no_empty (para_units p)" for ps
    using that by (induction ps) simp_all
  ultimately show "[] \<notin> set (paragraphs L s spoken)" "no_empty (units (paragraphs L s spoken))"
    by auto
qed

section \<open>The cut that is chosen\<close>

lemma pack_prose_cut:
  "\<exists>gs. grouping (max 1 lim) bytes (units (paragraphs L s spoken)) gs \<and>
     pack_prose L s lim bytes spoken = map glue gs \<and>
     \<not> (\<exists>hs. grouping (max 1 lim) bytes (units (paragraphs L s spoken)) hs \<and> length hs < length gs)"
proof -
  let ?lim = "max 1 lim" and ?ps = "paragraphs L s spoken"
  let ?us = "units ?ps"
  note ne = paragraphs_not_empty [where L = L and s = s and spoken = spoken]
  define few where "few = pack_groups ?lim bytes [] ?us"
  have few: "grouping ?lim bytes ?us few" "pack ?lim bytes [] ?us = map glue few"
    using pack_groups_grouping [of "[]" ?lim bytes ?us] pack_is_pack_groups [of "[]" ?us ?lim bytes] ne(2)
    by (simp_all add: few_def)
  have least: "length few \<le> length hs" if "grouping ?lim bytes ?us hs" for hs
    using pack_groups_fewest [OF ne(2) that] by (simp add: few_def)
  obtain par where par: "grouping ?lim bytes ?us par" "pack_paragraphs ?lim bytes [] ?ps = map glue par"
    using pack_paragraphs_grouping [of "[]" ?lim bytes ?ps] ne by auto
  have m: "(if lim < 1 then 1 else lim) = ?lim" by simp
  have "pack_prose L s lim bytes spoken = map glue few \<or>
      pack_prose L s lim bytes spoken = map glue par \<and> length par \<le> length few"
    unfolding pack_prose_def Let_def m few(2) par(2) length_map by auto
  then show ?thesis using few(1) par(1) least by (meson le_less_trans not_le)
qed

section \<open>Nothing silent is spoken\<close>

lemma words_from_word: "w \<in> set (words_from v s) \<Longrightarrow> \<forall>c \<in> set v. \<not> is_whitespace c \<Longrightarrow> c \<in> set w \<Longrightarrow> \<not> is_whitespace c"
  by (induction v s rule: words_from.induct) (auto split: if_splits)

lemma set_join: "set (join sep ws) \<subseteq> set sep \<union> \<Union> (set ` set ws)" "w \<in> set ws \<Longrightarrow> set w \<subseteq> set (join sep ws)"
  by (induction sep ws rule: join.induct) auto

lemma joined_words_speak: "join sep (split_whitespace s) \<noteq> [] \<Longrightarrow> trim (join sep (split_whitespace s)) \<noteq> []"
proof -
  assume a: "join sep (split_whitespace s) \<noteq> []"
  then obtain w where w: "w \<in> set (split_whitespace s)" by (cases "split_whitespace s") auto
  then obtain c where "c \<in> set w" "\<not> is_whitespace c"
    using words_from_nonempty [of w "[]" s] words_from_word [of w "[]" s] hd_in_set [of w]
    by (metis empty_iff empty_set list.set_intros(1) neq_Nil_conv split_whitespace_def)
  then show ?thesis using set_join(2) [OF w, of sep] by (auto simp: trim_empty_iff)
qed

lemma spoken_part_speaks: "spoken_part c = Some s \<Longrightarrow> trim s \<noteq> []"
  by (auto simp: spoken_part_def split: asm_chunk.splits if_splits)

lemma group_paragraphs_speak:
  "\<forall>s \<in> set cur. trim s \<noteq> [] \<Longrightarrow> p \<in> set (group_paragraphs cur cs) \<Longrightarrow> s \<in> set p \<Longrightarrow> trim s \<noteq> []"
proof (induction cur cs rule: group_paragraphs.induct)
  case (2 cur c cs)
  then show ?case by (auto dest: spoken_part_speaks split: option.splits if_splits)
qed (simp split: if_splits)

lemma spoken_sentences_speak: "s \<in> set (spoken_sentences L t) \<Longrightarrow> trim s \<noteq> []"
proof -
  assume s: "s \<in> set (spoken_sentences L t)"
  then obtain u where u: "s = join (lit '' '') (split_whitespace u)" by (auto simp: spoken_sentences_def)
  moreover have "s \<noteq> []" using s by (auto simp: spoken_sentences_def)
  ultimately show ?thesis using joined_words_speak by metis
qed

lemma paragraphs_speak: "p \<in> set (paragraphs L t spoken) \<Longrightarrow> s \<in> set p \<Longrightarrow> trim s \<noteq> []"
  using group_paragraphs_speak [of "[]" p "assemble_whole L t" s] spoken_sentences_speak [of s L]
  by (auto simp: paragraphs_def spoken_paragraphs_def split: if_splits)

lemma units_speak: "u \<in> set (units (paragraphs L t spoken)) \<Longrightarrow> trim (snd u) \<noteq> []"
  using paragraphs_speak [of _ L t spoken] by (fastforce simp: units_def in_set_enumerate_eq)

lemma set_join_unit: "set cur \<union> set s \<subseteq> set (join_unit cur b s)"
  by (auto simp: join_unit_def)

lemma set_glue_from: "set cur \<subseteq> set (glue_from cur g)"
proof (induction g arbitrary: cur)
  case Nil
  then show ?case by (simp add: glue_from_def)
next
  case (Cons u g)
  then show ?case using set_join_unit [of cur "snd u" "fst u"] Cons.IH [of "join_unit cur (fst u) (snd u)"]
    by (auto simp: glue_from_def case_prod_beta)
qed

lemma glue_speaks: "g \<noteq> [] \<Longrightarrow> trim (snd (hd g)) \<noteq> [] \<Longrightarrow> trim (glue g) \<noteq> []"
proof -
  assume a: "g \<noteq> []" "trim (snd (hd g)) \<noteq> []"
  then have "glue g = glue_from (snd (hd g)) (tl g)" by (cases g) (auto simp: glue_Cons)
  then have "set (snd (hd g)) \<subseteq> set (glue g)" using set_glue_from by simp
  then show ?thesis using a(2) unfolding trim_empty_iff by blast
qed

lemma pack_prose_speaks: "c \<in> set (pack_prose L t lim bytes spoken) \<Longrightarrow> trim c \<noteq> []"
proof -
  assume c: "c \<in> set (pack_prose L t lim bytes spoken)"
  obtain gs where gs: "grouping (max 1 lim) bytes (units (paragraphs L t spoken)) gs"
    "pack_prose L t lim bytes spoken = map glue gs" using pack_prose_cut by blast
  then obtain g where g: "g \<in> set gs" "c = glue g" using c by auto
  then have ne: "g \<noteq> []" using gs(1) by (auto simp: grouping_def fits_def)
  have "hd g \<in> set (concat gs)" using g(1) hd_in_set [OF ne] by auto
  then have "hd g \<in> set (units (paragraphs L t spoken))" using gs(1) by (simp only: grouping_def)
  from glue_speaks [OF ne units_speak [OF this]] show ?thesis by (simp add: g(2))
qed

lemma unmarked_speaks: "trim (unmarked c) \<noteq> [] \<Longrightarrow> trim c \<noteq> []"
  by (cases c) (auto simp: unmarked_def trim_empty_iff split: if_splits)

lemma prose_chunks_speak: "c \<in> set (prose_chunks L t) \<Longrightarrow> trim c \<noteq> []"
  by (auto simp: prose_chunks_def map_filter_def dest: spoken_part_speaks split: if_splits)

lemma spoken_paragraphs_speak: "p \<in> set (spoken_paragraphs L t) \<Longrightarrow> c \<in> set p \<Longrightarrow> trim c \<noteq> []"
  using paragraphs_speak [of p L t True c] by (simp add: paragraphs_def)

section \<open>Segments\<close>

fun seg_text :: "seg \<Rightarrow> str" where
  "seg_text (ProseSeg t) = t"
| "seg_text (CodeSeg t) = t"

definition solid :: "str \<Rightarrow> str" where
  "solid s = filter (\<lambda>c. \<not> is_whitespace c) s"

lemma solid_append [simp]: "solid (s @ t) = solid s @ solid t"
  by (simp add: solid_def)

lemma solid_trim_end: "solid (trim_end s) = solid s"
proof -
  have "filter (\<lambda>c. \<not> is_whitespace c) (dropWhile is_whitespace t) = filter (\<lambda>c. \<not> is_whitespace c) t" for t :: str
    by (induction t) auto
  then show ?thesis by (simp add: solid_def trim_end_def flip: rev_filter)
qed

section \<open>Properties\<close>

text \<open>C6: each run of prose is packed into chunks that hold its sentences in order, none cut; a chunk
  above the limit is a single sentence; and no other such cut at sentence boundaries has fewer chunks.\<close>

theorem pack_prose_best:
  "\<exists>gs. grouping (max 1 lim) bytes (units (paragraphs L s spoken)) gs \<and>
     pack_prose L s lim bytes spoken = map glue gs \<and>
     \<not> (\<exists>hs. grouping (max 1 lim) bytes (units (paragraphs L s spoken)) hs \<and> length hs < length gs)"
  by (rule pack_prose_cut)

text \<open>no chunk of an item is silent, neither sentence by sentence nor packed: each one holds a
  character that is not whitespace.\<close>

theorem chunks_speak:
  "[] \<notin> trim ` set (split_chunks L s) \<and> [] \<notin> trim ` set (pack_message L s lim bytes)"
proof -
  have "trim c \<noteq> []" if "c \<in> set (split_chunks L s)" for c
  proof -
    obtain spoken body where b: "spoken_form s = (spoken, body)" by (cases "spoken_form s")
    then obtain seg where "seg \<in> set (segments body)"
      "c \<in> set (case seg of ProseSeg t \<Rightarrow> if spoken then concat (spoken_paragraphs L t) else prose_chunks L t
          | CodeSeg c \<Rightarrow> if trim (unmarked c) \<noteq> [] then [c] else [])"
      using \<open>c \<in> set (split_chunks L s)\<close> by (auto simp: split_chunks_def)
    then show ?thesis
      by (auto split: seg.splits if_splits dest: prose_chunks_speak spoken_paragraphs_speak unmarked_speaks)
  qed
  moreover have "trim c \<noteq> []" if "c \<in> set (pack_message L s lim bytes)" for c
  proof -
    obtain spoken body where b: "spoken_form s = (spoken, body)" by (cases "spoken_form s")
    then obtain seg where "seg \<in> set (segments body)"
      "c \<in> set (case seg of ProseSeg t \<Rightarrow> if trim t \<noteq> [] then pack_prose L t lim bytes spoken else []
          | CodeSeg c \<Rightarrow> if trim (unmarked c) \<noteq> [] then [c] else [])"
      using \<open>c \<in> set (pack_message L s lim bytes)\<close> by (auto simp: pack_message_def)
    then show ?thesis
      by (auto split: seg.splits if_splits dest: pack_prose_speaks unmarked_speaks)
  qed
  ultimately show ?thesis by (metis (no_types, lifting) imageE)
qed

text \<open>cutting a text at its code markers loses nothing but whitespace at the end of a code line:
  the segments, put together again, have the characters of the text in order.\<close>

theorem segments_lossless: "solid (concat (map seg_text (segments s))) = solid s"
proof (induction s rule: segments.induct)
  case (1 s)
  let ?pre = "takeWhile (\<lambda>c. \<not> is_marker c) s" and ?rest = "dropWhile (\<lambda>c. \<not> is_marker c) s"
  show ?case
  proof (cases ?rest)
    case Nil
    have "segments s = [ProseSeg s]" by (subst segments.simps, subst Nil) simp
    then show ?thesis by simp
  next
    case (Cons m body)
    let ?code = "takeWhile (\<lambda>c. c \<noteq> 10 \<and> \<not> is_marker c) body"
    let ?after = "dropWhile (\<lambda>c. c \<noteq> 10 \<and> \<not> is_marker c) body"
    have "s = ?pre @ m # body" by (metis Cons takeWhile_dropWhile_id)
    then have "solid s = solid ?pre @ solid (m # ?code @ ?after)" by (metis solid_append takeWhile_dropWhile_id)
    moreover have "segments s = ProseSeg ?pre # CodeSeg (trim_end (m # ?code)) # segments ?after"
      using Cons by (subst segments.simps) simp
    moreover have "solid (m # ?code @ ?after) = solid (m # ?code) @ solid ?after"
      by (simp only: solid_append flip: append_Cons)
    ultimately show ?thesis using 1 [OF Cons] by (simp only: list.map concat.simps seg_text.simps solid_append solid_trim_end)
  qed
qed

end
