(* ===== verification/Router.thy ===== *)
theory Router imports Prelude begin

text \<open>
  The router of \<open>crates/sonara-channels/src/router.rs\<close>: channels with their batches and read
  cursors, which channel reads next, and the announcements of a switch.

  Channel ids, labels and texts are strings; entry ids, generations and the cursor are natural
  numbers (\<open>u64\<close> and \<open>usize\<close> counters that are bumped once per call). A \<open>HashMap\<close> is a map and a
  \<open>HashSet\<close> a set: no rule looks at their order. The three methods that clean up while they answer
  (\<open>is_suppressed\<close>, \<open>pickable\<close>, \<open>pick\<close>) return the answer with the router they leave. The indexings
  that could panic (\<open>entries[cursor - 1]\<close>, \<open>entries.insert(cursor, _)\<close>, \<open>entries[cursor..]\<close>) are in
  range because the cursor never passes the end of the batch (\<open>Router_Inv\<close>).
\<close>

section \<open>Entries and channels\<close>

type_synonym cid = str

datatype policy = Latest | Queue

definition policy_parse :: "str \<Rightarrow> policy option" where
  "policy_parse name =
     (if name = lit ''latest'' then Some Latest
      else if name = lit ''queue'' then Some Queue
      else None)"

definition policy_as_str :: "policy \<Rightarrow> str" where
  "policy_as_str p = (case p of Latest \<Rightarrow> lit ''latest'' | Queue \<Rightarrow> lit ''queue'')"

record entry =
  entry_id :: nat
  entry_text :: str
  entry_label :: "str option"

datatype resolved = ResolvedAll | ResolvedHeard | ResolvedSettled

record channel =
  ch_id :: cid
  ch_label :: "str option"
  host_tab :: "str option"
  ch_policy :: policy
  entries :: "entry list"
  cursor :: nat
  ch_gen :: nat
  replaying :: bool
  ch_muted :: bool
  growing :: bool
  decisions :: "nat \<rightharpoonup> bool"
  agent :: bool
  aside :: "nat set"

definition new_channel :: "cid \<Rightarrow> str option \<Rightarrow> str option \<Rightarrow> policy \<Rightarrow> channel" where
  "new_channel i label tab p =
     \<lparr>ch_id = i, ch_label = label, host_tab = tab, ch_policy = p, entries = [], cursor = 0,
      ch_gen = 0, replaying = False, ch_muted = False, growing = False, decisions = Map.empty,
      agent = False, aside = {}\<rparr>"

definition unread :: "channel \<Rightarrow> entry list" where
  "unread c =
     filter (\<lambda>e. entry_id e \<notin> aside c) (drop (min (cursor c) (length (entries c))) (entries c))"

definition pending :: "channel \<Rightarrow> nat" where
  "pending c = length (unread c)"

definition caught_up :: "channel \<Rightarrow> bool" where
  "caught_up c \<longleftrightarrow> pending c = 0"

definition chan_push :: "entry \<Rightarrow> bool \<Rightarrow> bool \<Rightarrow> bool \<Rightarrow> channel \<Rightarrow> channel" where
  "chan_push e replace front being_read c =
     (let c = (if replace \<or> (caught_up c \<and> \<not> being_read \<and> \<not> growing c)
               then c\<lparr>entries := [], decisions := Map.empty, aside := {}, cursor := 0\<rparr>
               else c);
          at = (if front then cursor c else length (entries c))
      in c\<lparr>entries := insert_at at e (entries c), ch_gen := ch_gen c + 1, replaying := False\<rparr>)"

function pass_aside :: "channel \<Rightarrow> channel" where
  "pass_aside c =
     (case get (entries c) (cursor c) of
        None \<Rightarrow> c
      | Some e \<Rightarrow> if entry_id e \<in> aside c then pass_aside (c\<lparr>cursor := cursor c + 1\<rparr>) else c)"
  by pat_completeness auto
termination
  by (relation "measure (\<lambda>c. length (entries c) - cursor c)") (auto simp: get_def split: if_splits)

declare pass_aside.simps [simp del]

definition chan_take :: "channel \<Rightarrow> entry option \<times> channel" where
  "chan_take c =
     (let c = pass_aside c
      in case get (entries c) (cursor c) of
           None \<Rightarrow> (None, c)
         | Some e \<Rightarrow> (Some e, c\<lparr>cursor := cursor c + 1\<rparr>))"

definition skip_to_end :: "channel \<Rightarrow> nat \<times> channel" where
  "skip_to_end c = (pending c, c\<lparr>cursor := length (entries c)\<rparr>)"

definition resolves :: "resolved \<Rightarrow> bool \<Rightarrow> bool \<Rightarrow> bool" where
  "resolves which before stored =
     (case which of
        ResolvedAll \<Rightarrow> True
      | ResolvedHeard \<Rightarrow> before \<and> \<not> stored
      | ResolvedSettled \<Rightarrow> before)"

definition goes :: "resolved \<Rightarrow> bool \<Rightarrow> nat \<Rightarrow> channel \<Rightarrow> bool" where
  "goes which before i c =
     (case decisions c i of None \<Rightarrow> False | Some stored \<Rightarrow> resolves which before stored)"

definition remove_entry :: "nat \<Rightarrow> channel \<Rightarrow> channel" where
  "remove_entry i c =
     c\<lparr>decisions := (decisions c)(entry_id (entries c ! i) := None),
       aside := aside c - {entry_id (entries c ! i)},
       entries := remove_at i (entries c)\<rparr>"

function drop_from :: "resolved \<Rightarrow> nat \<Rightarrow> entry list \<Rightarrow> channel \<Rightarrow> entry list \<times> channel" where
  "drop_from which i out c =
     (if i < length (entries c) then
        (let e = entries c ! i; before = i < cursor c
         in if goes which before (entry_id e) c then
              if before then drop_from which i out ((remove_entry i c)\<lparr>cursor := cursor c - 1\<rparr>)
              else drop_from which i (out @ [e]) (remove_entry i c)
            else drop_from which (i + 1) out c)
      else (out, c))"
  by pat_completeness auto
termination
  by (relation "measure (\<lambda>(which, i, out, c). length (entries c) - i)")
    (auto simp: remove_entry_def length_remove_at)

declare drop_from.simps [simp del]

definition chan_drop_decisions :: "resolved \<Rightarrow> channel \<Rightarrow> entry list \<times> channel" where
  "chan_drop_decisions which c = drop_from which 0 [] c"

definition chan_rewind :: "nat \<Rightarrow> channel \<Rightarrow> bool \<times> channel" where
  "chan_rewind e c =
     (if 0 < cursor c \<and> entry_id (entries c ! (cursor c - 1)) = e
      then (True, c\<lparr>cursor := cursor c - 1\<rparr>) else (False, c))"

section \<open>The router\<close>

datatype feed =
    Announce cid "str option" bool bool
  | Entry cid entry

record switch =
  sw_channel :: cid
  sw_replay :: bool
  sw_manual :: bool

record router =
  channels :: "channel list"
  next_entry :: nat
  active :: "cid option"
  last_active :: "cid option"
  last_reader :: "cid option"
  closed_reader_tab :: "str option"
  focused :: "cid option"
  announce :: "switch option"
  reading :: "(cid \<times> nat) option"
  suppressed :: "cid \<rightharpoonup> nat"
  priority :: "cid list"
  hold :: "(cid \<times> nat) option"
  muted_ids :: "cid set"
  focus_only :: bool
  authorized :: "cid set"

definition new_router :: router where
  "new_router =
     \<lparr>channels = [], next_entry = 0, active = None, last_active = None, last_reader = None,
      closed_reader_tab = None, focused = None, announce = None, reading = None,
      suppressed = Map.empty, priority = [], hold = None, muted_ids = {}, focus_only = False,
      authorized = {}\<rparr>"

definition index :: "cid \<Rightarrow> router \<Rightarrow> nat option" where
  "index i r = position (\<lambda>c. ch_id c = i) (channels r)"

definition channel :: "cid \<Rightarrow> router \<Rightarrow> channel option" where
  "channel i r = List.find (\<lambda>c. ch_id c = i) (channels r)"

definition on_channel :: "cid \<Rightarrow> (channel \<Rightarrow> channel) \<Rightarrow> router \<Rightarrow> router" where
  "on_channel i f r = r\<lparr>channels := upd_first (\<lambda>c. ch_id c = i) f (channels r)\<rparr>"

definition engaged :: "router \<Rightarrow> cid option" where
  "engaged r = (case active r of Some a \<Rightarrow> Some a | None \<Rightarrow> last_active r)"

text \<open>\<open>max_by_key\<close> keeps the last of the greatest keys.\<close>

definition newer :: "(nat \<times> cid) option \<Rightarrow> nat \<times> cid \<Rightarrow> (nat \<times> cid) option" where
  "newer best x = (case best of None \<Rightarrow> Some x | Some b \<Rightarrow> if fst b \<le> fst x then Some x else Some b)"

definition written_last :: "router \<Rightarrow> cid option" where
  "written_last r =
     map_option snd (foldl newer None
       (map (\<lambda>c. (entry_id (last (entries c)), ch_id c)) (filter (\<lambda>c. entries c \<noteq> []) (channels r))))"

definition open_channel ::
  "cid \<Rightarrow> str option \<Rightarrow> str option \<Rightarrow> policy option \<Rightarrow> router \<Rightarrow> bool \<times> router" where
  "open_channel i label tab p r =
     (case channel i r of
        Some _ \<Rightarrow>
          (False, on_channel i (\<lambda>c. c\<lparr>ch_label := label, host_tab := tab,
             ch_policy := (case p of Some p \<Rightarrow> p | None \<Rightarrow> ch_policy c)\<rparr>) r)
      | None \<Rightarrow>
          (True, r\<lparr>channels := channels r @
             [(new_channel i label tab (case p of Some p \<Rightarrow> p | None \<Rightarrow> Latest))
                \<lparr>ch_muted := (i \<in> muted_ids r)\<rparr>]\<rparr>))"

definition no_label :: "channel \<Rightarrow> bool" where
  "no_label c = (case ch_label c of None \<Rightarrow> True | Some l \<Rightarrow> l = [])"

definition label_if_missing :: "cid \<Rightarrow> str \<Rightarrow> router \<Rightarrow> bool \<times> router" where
  "label_if_missing i label r =
     (if label = [] then (False, r)
      else case channel i r of
             Some c \<Rightarrow> if no_label c then (True, on_channel i (\<lambda>c. c\<lparr>ch_label := Some label\<rparr>) r)
                       else (False, r)
           | None \<Rightarrow> (False, r))"

definition is_handoff :: "cid \<Rightarrow> router \<Rightarrow> bool" where
  "is_handoff i r =
     (case last_reader r of
        None \<Rightarrow> False
      | Some l \<Rightarrow>
          l \<noteq> i \<and>
          (let tab = (case channel i r of None \<Rightarrow> None | Some c \<Rightarrow> host_tab c)
           in \<not> (tab \<noteq> None \<and> tab = closed_reader_tab r)))"

definition set_reader :: "cid \<Rightarrow> router \<Rightarrow> router" where
  "set_reader i r =
     r\<lparr>active := Some i, last_active := Some i, last_reader := Some i, closed_reader_tab := None\<rparr>"

definition end_hold :: "cid option \<Rightarrow> router \<Rightarrow> router" where
  "end_hold i r = (if i = None \<or> map_option fst (hold r) = i then r\<lparr>hold := None\<rparr> else r)"

definition held :: "router \<Rightarrow> cid option" where
  "held r = map_option fst (hold r)"

definition start_hold :: "cid \<Rightarrow> router \<Rightarrow> router" where
  "start_hold i r = (let r = end_hold None r in r\<lparr>hold := Some (i, next_entry r)\<rparr>)"

text \<open>A closed channel leaves the list, and each field that names it is cleared.\<close>

definition tab_of_closed :: "channel \<Rightarrow> str option" where
  "tab_of_closed c = (case host_tab c of None \<Rightarrow> None | Some t \<Rightarrow> if t = [] then None else Some t)"

definition close_channel :: "cid \<Rightarrow> router \<Rightarrow> bool \<times> router" where
  "close_channel i r =
     (case index i r of
        None \<Rightarrow> (False, r)
      | Some k \<Rightarrow>
          let closed = channels r ! k
          in (True, end_hold (Some i) (r
              \<lparr>channels := remove_at k (channels r),
               closed_reader_tab :=
                 (if last_reader r = Some i then tab_of_closed closed else closed_reader_tab r),
               active := (if active r = Some i then None else active r),
               last_active := (if last_active r = Some i then None else last_active r),
               focused := (if focused r = Some i then None else focused r),
               announce := (if map_option sw_channel (announce r) = Some i then None else announce r),
               reading := (if map_option fst (reading r) = Some i then None else reading r),
               suppressed := (suppressed r)(i := None),
               priority := filter (\<lambda>p. p \<noteq> i) (priority r),
               authorized := authorized r - {i}\<rparr>)))"

section \<open>The gates\<close>

definition ready :: "cid \<Rightarrow> router \<Rightarrow> bool" where
  "ready i r = (case channel i r of None \<Rightarrow> False | Some c \<Rightarrow> 0 < pending c)"

definition audible :: "cid \<Rightarrow> router \<Rightarrow> bool" where
  "audible i r = (case channel i r of None \<Rightarrow> False | Some c \<Rightarrow> 0 < pending c \<and> \<not> ch_muted c)"

definition holds :: "cid \<Rightarrow> nat \<Rightarrow> router \<Rightarrow> bool" where
  "holds i mark r \<longleftrightarrow>
     audible i r \<and>
     (case channel i r of None \<Rightarrow> False | Some c \<Rightarrow> list_ex (\<lambda>e. entry_id e \<le> mark) (unread c))"

definition focus :: "cid \<Rightarrow> router \<Rightarrow> bool \<times> router" where
  "focus i r =
     (if index i r = None then (False, r)
      else
        let r = (case focused r of
                   None \<Rightarrow> r
                 | Some old \<Rightarrow>
                     if old \<noteq> i \<and> ready old r then r\<lparr>authorized := insert old (authorized r)\<rparr> else r)
        in (True, r\<lparr>focused := Some i\<rparr>))"

definition set_muted :: "cid \<Rightarrow> bool \<Rightarrow> router \<Rightarrow> router" where
  "set_muted i m r =
     (let r = r\<lparr>muted_ids := (if m then insert i (muted_ids r) else muted_ids r - {i})\<rparr>;
          r = on_channel i (\<lambda>c. c\<lparr>ch_muted := m\<rparr>) r
      in if m then end_hold (Some i) r else r)"

definition set_focus_only :: "bool \<Rightarrow> router \<Rightarrow> router" where
  "set_focus_only b r = r\<lparr>focus_only := b\<rparr>"

definition authorize :: "cid \<Rightarrow> router \<Rightarrow> bool \<times> router" where
  "authorize i r =
     (if index i r = None then (False, r) else (True, r\<lparr>authorized := insert i (authorized r)\<rparr>))"

definition gated :: "cid \<Rightarrow> router \<Rightarrow> bool" where
  "gated i r \<longleftrightarrow>
     focus_only r \<and> (case focused r of None \<Rightarrow> False | Some f \<Rightarrow> f \<noteq> i) \<and> i \<notin> authorized r"

definition is_suppressed :: "cid \<Rightarrow> router \<Rightarrow> bool \<times> router" where
  "is_suppressed i r =
     (case suppressed r i of
        None \<Rightarrow> (False, r)
      | Some g \<Rightarrow>
          (case channel i r of
             Some c \<Rightarrow> if ch_gen c = g then (True, r)
                       else (False, r\<lparr>suppressed := (suppressed r)(i := None)\<rparr>)
           | None \<Rightarrow> (False, r\<lparr>suppressed := (suppressed r)(i := None)\<rparr>)))"

definition pickable :: "cid \<Rightarrow> router \<Rightarrow> bool \<times> router" where
  "pickable i r =
     (if audible i r then
        (let (s, r) = is_suppressed i r in if s then (False, r) else (\<not> gated i r, r))
      else (False, r))"

section \<open>Pushing\<close>

definition push_with :: "cid \<Rightarrow> str \<Rightarrow> str option \<Rightarrow> bool \<Rightarrow> bool \<Rightarrow> router \<Rightarrow> nat option \<times> router" where
  "push_with i txt label replace front r =
     (let nxt = next_entry r + 1;
          being_read = (map_option fst (reading r) = Some i)
      in case channel i r of
           None \<Rightarrow> (None, r)
         | Some _ \<Rightarrow>
             let r = on_channel i
                       (chan_push \<lparr>entry_id = nxt, entry_text = txt, entry_label = label\<rparr>
                          replace front being_read) r
             in (Some nxt, r\<lparr>next_entry := nxt\<rparr>))"

definition push :: "cid \<Rightarrow> str \<Rightarrow> str option \<Rightarrow> router \<Rightarrow> nat option \<times> router" where
  "push i txt label r =
     (case channel i r of
        None \<Rightarrow> (None, r)
      | Some c \<Rightarrow> push_with i txt label (ch_policy c = Latest) False r)"

definition mark_agent :: "nat \<Rightarrow> bool \<Rightarrow> bool \<Rightarrow> bool \<Rightarrow> channel \<Rightarrow> channel" where
  "mark_agent e decision heard was_unread c =
     (let c = c\<lparr>growing := True, agent := True\<rparr>;
          c = (if decision then c\<lparr>decisions := (decisions c)(e \<mapsto> heard)\<rparr> else c)
      in if heard \<and> \<not> was_unread then c\<lparr>cursor := length (entries c)\<rparr> else c)"

definition append :: "cid \<Rightarrow> str \<Rightarrow> bool \<Rightarrow> bool \<Rightarrow> router \<Rightarrow> nat option \<times> router" where
  "append i txt decision heard r =
     (case channel i r of
        None \<Rightarrow> (None, r)
      | Some c \<Rightarrow>
          let was_unread = (0 < pending c \<or> map_option fst (reading r) = Some i)
          in case push_with i txt None False False r of
               (None, r) \<Rightarrow> (None, r)
             | (Some e, r) \<Rightarrow> (Some e, on_channel i (mark_agent e decision heard was_unread) r))"

definition drop_decisions :: "cid \<Rightarrow> resolved \<Rightarrow> router \<Rightarrow> entry list \<times> router" where
  "drop_decisions i which r =
     (case channel i r of
        None \<Rightarrow> ([], r)
      | Some c \<Rightarrow>
          (fst (chan_drop_decisions which c), on_channel i (\<lambda>c. snd (chan_drop_decisions which c)) r))"

definition end_batch :: "cid \<Rightarrow> router \<Rightarrow> router" where
  "end_batch i r = on_channel i (\<lambda>c. c\<lparr>growing := False\<rparr>) r"

definition is_agent :: "cid \<Rightarrow> router \<Rightarrow> bool" where
  "is_agent i r = (case channel i r of None \<Rightarrow> False | Some c \<Rightarrow> agent c)"

definition prioritize :: "cid \<Rightarrow> router \<Rightarrow> bool \<times> router" where
  "prioritize i r =
     (if index i r = None then (False, r)
      else (True, if i \<in> set (priority r) then r else r\<lparr>priority := priority r @ [i]\<rparr>))"

section \<open>Picking and feeding\<close>

fun first_pickable :: "cid list \<Rightarrow> router \<Rightarrow> cid option \<times> router" where
  "first_pickable [] r = (None, r)"
| "first_pickable (i # is) r =
     (let (ok, r) = pickable i r in if ok then (Some i, r) else first_pickable is r)"

definition prune :: "router \<Rightarrow> router" where
  "prune r =
     (let r = r\<lparr>priority := filter (\<lambda>p. ready p r) (priority r)\<rparr>
      in r\<lparr>authorized := Set.filter (\<lambda>a. ready a r) (authorized r)\<rparr>)"

definition pick_rest :: "router \<Rightarrow> cid option \<times> router" where
  "pick_rest r =
     (case (case active r of Some a \<Rightarrow> if audible a r then Some a else None | None \<Rightarrow> None) of
        Some a \<Rightarrow> (Some a, r)
      | None \<Rightarrow>
          (case first_pickable (priority r) r of
             (Some p, r) \<Rightarrow> (Some p, r)
           | (None, r) \<Rightarrow>
               let (f, r) =
                 (case focused r of
                    None \<Rightarrow> (None, r)
                  | Some f \<Rightarrow>
                      if audible f r
                      then (let (s, r) = is_suppressed f r in (if s then None else Some f, r))
                      else (None, r))
               in case f of
                    Some f \<Rightarrow> (Some f, r)
                  | None \<Rightarrow> first_pickable (map ch_id (channels r)) r))"

definition pick :: "router \<Rightarrow> cid option \<times> router" where
  "pick r =
     (let r = prune r
      in case hold r of
           None \<Rightarrow> pick_rest r
         | Some (h, mark) \<Rightarrow>
             if holds h mark r then (Some h, r) else pick_rest (r\<lparr>hold := None\<rparr>))"

definition arm :: "cid \<Rightarrow> bool \<Rightarrow> bool \<Rightarrow> router \<Rightarrow> router" where
  "arm i replay manual r =
     r\<lparr>announce := Some \<lparr>sw_channel = i, sw_replay = replay, sw_manual = manual\<rparr>\<rparr>"

definition clear_announce :: "router \<Rightarrow> router" where
  "clear_announce r = r\<lparr>announce := None\<rparr>"

text \<open>The announcement an armed switch gives; none when its channel is not open.\<close>

definition announcement :: "router \<Rightarrow> feed option" where
  "announcement r =
     (case announce r of
        None \<Rightarrow> None
      | Some sw \<Rightarrow>
          (case channel (sw_channel sw) r of
             None \<Rightarrow> None
           | Some c \<Rightarrow>
               Some (Announce (sw_channel sw) (if no_label c then None else ch_label c)
                 (sw_replay sw) (sw_manual sw))))"

text \<open>The end of \<open>next_feed\<close>: the next entry of the channel that reads.\<close>

definition feed_entry :: "cid \<Rightarrow> router \<Rightarrow> feed option \<times> router" where
  "feed_entry t r =
     (case channel t r of
        None \<Rightarrow> (None, r)
      | Some c \<Rightarrow>
          let (e, c') = chan_take c; r = on_channel t (\<lambda>_. c') r
          in case e of
               None \<Rightarrow> (None, r)
             | Some e \<Rightarrow>
                 let r = (if pending c' = 0 then r\<lparr>authorized := authorized r - {t}\<rparr> else r)
                 in (Some (Entry t e), r\<lparr>reading := Some (t, entry_id e)\<rparr>))"

text \<open>Picking leaves the channels alone, and picks a channel that is audible.\<close>

lemma is_suppressed_channels [frame]: "channels (snd (is_suppressed i r)) = channels r"
  by (simp add: is_suppressed_def split: option.splits)

lemma pickable_channels [frame]: "channels (snd (pickable i r)) = channels r"
  using is_suppressed_channels [of i r] by (simp add: pickable_def case_prod_beta)

lemma first_pickable_channels [frame]: "channels (snd (first_pickable is r)) = channels r"
proof (induction "is" arbitrary: r)
  case Nil
  then show ?case by simp
next
  case (Cons i "is")
  then show ?case using pickable_channels [of i r] by (simp add: case_prod_beta)
qed

lemma prune_channels [frame]: "channels (prune r) = channels r"
  by (simp add: prune_def Let_def)

lemma audible_cong: "channels r = channels s \<Longrightarrow> audible i r = audible i s"
  by (simp add: audible_def channel_def)

lemma pickable_audible: "fst (pickable i r) \<Longrightarrow> audible i r"
  by (simp add: pickable_def split: if_splits prod.splits)

lemma first_pickable_audible: "fst (first_pickable is r) = Some i \<Longrightarrow> audible i r"
proof (induction "is" arbitrary: r)
  case Nil
  then show ?case by simp
next
  case (Cons j "is")
  obtain ok s where p: "pickable j r = (ok, s)" by (cases "pickable j r")
  have "channels s = channels r" using pickable_channels [of j r] by (simp add: p)
  then show ?case
    using Cons.IH [of s] Cons.prems pickable_audible [of j r] audible_cong [of s r]
    by (auto simp: p split: if_splits)
qed

lemma pick_rest_frame [frame]:
  "channels (snd (pick_rest r)) = channels r"
  "fst (pick_rest r) = Some i \<Longrightarrow> audible i r"
proof -
  obtain p s where ps: "first_pickable (priority r) r = (p, s)"
    by (cases "first_pickable (priority r) r")
  have s: "channels s = channels r" using first_pickable_channels [of "priority r" r] by (simp add: ps)
  have u: "channels (snd (is_suppressed f s)) = channels r" for f
    using is_suppressed_channels [of f s] s by simp
  have q: "channels (snd (first_pickable ids t)) = channels r" if "channels t = channels r" for ids t
    using first_pickable_channels [of ids t] that by simp
  have a: "fst (first_pickable ids t) = Some i \<Longrightarrow> audible i r" if "channels t = channels r" for ids t
    using first_pickable_audible [of ids t i] audible_cong [OF that] by simp
  have ap: "p = Some i \<Longrightarrow> audible i r" using a [OF refl, of "priority r"] by (simp add: ps)
  show "channels (snd (pick_rest r)) = channels r"
    using s q [OF s] u q [OF u]
    by (auto simp: pick_rest_def ps Let_def case_prod_beta split: option.splits)
  show "audible i r" if "fst (pick_rest r) = Some i"
    using that s a [OF s] a [OF u] ap audible_cong [OF s]
    by (auto simp: pick_rest_def ps Let_def case_prod_beta split: option.splits if_splits)
qed

lemma pick_frame [frame]:
  "channels (snd (pick r)) = channels r"
  "fst (pick r) = Some i \<Longrightarrow> audible i r"
proof -
  have p: "channels (prune r) = channels r" by (rule prune_channels)
  note cong = audible_cong [OF p]
  have cong': "audible i (prune r\<lparr>hold := None\<rparr>) = audible i r" for i
    using cong audible_cong [of "prune r\<lparr>hold := None\<rparr>" "prune r"] by simp
  show "channels (snd (pick r)) = channels r"
    using p pick_rest_frame(1) [of "prune r"] pick_rest_frame(1) [of "prune r\<lparr>hold := None\<rparr>"]
    by (auto simp: pick_def Let_def split: option.splits)
  show "audible i r" if "fst (pick r) = Some i"
    using that pick_rest_frame(2) [of "prune r" i] pick_rest_frame(2) [of "prune r\<lparr>hold := None\<rparr>" i]
    by (auto simp: pick_def Let_def holds_def cong cong' split: option.splits if_splits)
qed

lemma audible_open: "audible i r \<Longrightarrow> channel i r \<noteq> None"
  by (cases "channel i r") (simp_all add: audible_def)

function next_feed :: "router \<Rightarrow> feed option \<times> router" where
  "next_feed r =
     (let f = announcement r; r = r\<lparr>reading := None, announce := None\<rparr>
      in case f of
           Some f \<Rightarrow> (Some f, r)
         | None \<Rightarrow>
             (case pick r of
                (None, r) \<Rightarrow> (None, r\<lparr>active := None\<rparr>)
              | (Some t, r) \<Rightarrow>
                  if active r = Some t then feed_entry t r
                  else if is_handoff t r then next_feed (arm t False False (set_reader t r))
                  else feed_entry t (set_reader t r)))"
  by pat_completeness auto
termination
proof (relation "measure (\<lambda>r. if announcement r = None then 1 else 0)")
  fix r f r1 p r2 t
  assume f: "f = announcement r" "r1 = r\<lparr>reading := None, announce := None\<rparr>" "f = None"
    and p: "(p, r2) = pick r1" "p = Some t" and "active r2 \<noteq> Some t" "is_handoff t r2"
  have "channels r2 = channels r1" "audible t r1"
    using pick_frame [of r1] p by (metis fst_conv snd_conv)+
  then have "channel t r2 \<noteq> None" using audible_open [of t r1] by (simp add: channel_def)
  then have "announcement (arm t False False (set_reader t r2)) \<noteq> None"
    by (auto simp: announcement_def arm_def set_reader_def channel_def)
  then show "(arm t False False (set_reader t r2), r) \<in> measure (\<lambda>r. if announcement r = None then 1 else 0)"
    using f by simp
qed simp

declare next_feed.simps [simp del]

definition feed_done :: "router \<Rightarrow> router" where
  "feed_done r = r\<lparr>reading := None\<rparr>"

section \<open>The ring of next_channel\<close>

definition ids_where :: "(channel \<Rightarrow> bool) \<Rightarrow> router \<Rightarrow> cid list \<Rightarrow> cid list" where
  "ids_where P r ids =
     filter (\<lambda>i. case channel i r of None \<Rightarrow> False | Some c \<Rightarrow> P c) ids"

definition ring_of :: "router \<Rightarrow> cid list" where
  "ring_of r =
     (let all = map ch_id (channels r);
          unmuted = ids_where (\<lambda>c. \<not> ch_muted c) r all;
          ring = (if unmuted = [] then all else unmuted);
          nonempty = ids_where (\<lambda>c. entries c \<noteq> []) r ring
      in if nonempty = [] then ring else nonempty)"

definition pos :: "cid list \<Rightarrow> cid option \<Rightarrow> nat option" where
  "pos ids i = (case i of None \<Rightarrow> None | Some i \<Rightarrow> position (\<lambda>x. x = i) ids)"

definition ring_target :: "cid list \<Rightarrow> cid list \<Rightarrow> cid option \<Rightarrow> cid" where
  "ring_target all ring cur =
     (case pos ring cur of
        Some i \<Rightarrow> ring ! ((i + 1) mod length ring)
      | None \<Rightarrow>
          (case pos all cur of
             Some i \<Rightarrow>
               (case List.find (\<lambda>c. c \<in> set ring)
                       (map (\<lambda>j. all ! ((i + j) mod length all)) [1..<length all + 1]) of
                  Some c \<Rightarrow> c
                | None \<Rightarrow> ring ! 0)
           | None \<Rightarrow> ring ! 0))"

definition next_channel :: "router \<Rightarrow> (cid \<times> bool) option \<times> router" where
  "next_channel r =
     (let all = map ch_id (channels r)
      in if all = [] then (None, r)
         else
           let ring = ring_of r;
               old = active r;
               cur = (case active r of Some a \<Rightarrow> Some a | None \<Rightarrow> last_active r);
               target = ring_target all ring cur;
               r = (case old of
                      None \<Rightarrow> r
                    | Some old \<Rightarrow>
                        if old \<noteq> target then
                          (case channel old r of
                             None \<Rightarrow> r
                           | Some c \<Rightarrow> r\<lparr>suppressed := (suppressed r)(old \<mapsto> ch_gen c)\<rparr>)
                        else r);
               r = r\<lparr>suppressed := (suppressed r)(target := None)\<rparr>
           in case channel target r of
                None \<Rightarrow> (None, r)
              | Some c \<Rightarrow>
                  let replay = (caught_up c \<or> cur = Some target \<or> replaying c);
                      r = (if replay then on_channel target (\<lambda>c. c\<lparr>cursor := 0, replaying := True\<rparr>) r else r);
                      r = end_hold None (arm target replay True (set_reader target r));
                      r = (if replay then start_hold target r else r)
                  in (Some (target, replay), r))"

section \<open>Taking the floor, replaying, changing a batch\<close>

definition take_floor :: "cid \<Rightarrow> router \<Rightarrow> bool \<times> router" where
  "take_floor i r =
     (if index i r = None then (False, r)
      else
        let handoff = is_handoff i r;
            r = set_reader i r;
            r = r\<lparr>suppressed := (suppressed r)(i := None)\<rparr>;
            r = (if held r \<noteq> Some i then end_hold None r else r);
            r = (if handoff then arm i False False r
                 else if (case announce r of None \<Rightarrow> False | Some s \<Rightarrow> sw_channel s \<noteq> i)
                 then r\<lparr>announce := None\<rparr> else r)
        in (True, r))"

definition read_at :: "cid \<Rightarrow> nat option \<Rightarrow> bool \<Rightarrow> router \<Rightarrow> bool \<times> router" where
  "read_at i e replay r =
     (case channel i r of
        None \<Rightarrow> (False, r)
      | Some c \<Rightarrow>
          if entries c = [] then (False, r)
          else
            (case (case e of None \<Rightarrow> Some 0 | Some e \<Rightarrow> position (\<lambda>x. entry_id x = e) (entries c)) of
               None \<Rightarrow> (False, r)
             | Some at \<Rightarrow>
                 let r = on_channel i
                           (\<lambda>c. c\<lparr>cursor := at, replaying := (if replay then True else replaying c)\<rparr>) r;
                     handoff = is_handoff i r;
                     r = set_reader i r;
                     r = r\<lparr>suppressed := (suppressed r)(i := None), authorized := insert i (authorized r)\<rparr>;
                     r = start_hold i r
                 in (True, if handoff then arm i replay True r else r)))"

definition replay_from :: "cid \<Rightarrow> nat option \<Rightarrow> router \<Rightarrow> bool \<times> router" where
  "replay_from i e r = read_at i e True r"

definition replay :: "cid \<Rightarrow> router \<Rightarrow> bool \<times> router" where
  "replay i r = replay_from i None r"

definition step_to :: "cid \<Rightarrow> nat \<Rightarrow> router \<Rightarrow> bool \<times> router" where
  "step_to i e r = read_at i (Some e) False r"

definition has_entry :: "nat \<Rightarrow> channel \<Rightarrow> bool" where
  "has_entry e c = list_ex (\<lambda>x. entry_id x = e) (entries c)"

definition set_aside :: "cid \<Rightarrow> nat \<Rightarrow> bool \<Rightarrow> router \<Rightarrow> bool \<times> router" where
  "set_aside i e away r =
     (case channel i r of
        None \<Rightarrow> (False, r)
      | Some c \<Rightarrow>
          if \<not> has_entry e c then (False, r)
          else (True, on_channel i
                  (\<lambda>c. c\<lparr>aside := (if away then insert e (aside c) else aside c - {e})\<rparr>) r))"

definition revise :: "cid \<Rightarrow> nat \<Rightarrow> str \<Rightarrow> router \<Rightarrow> bool \<times> router" where
  "revise i e txt r =
     (case channel i r of
        None \<Rightarrow> (False, r)
      | Some c \<Rightarrow>
          if \<not> has_entry e c then (False, r)
          else (True, on_channel i
                  (\<lambda>c. c\<lparr>entries := upd_first (\<lambda>x. entry_id x = e) (\<lambda>x. x\<lparr>entry_text := txt\<rparr>) (entries c)\<rparr>) r))"

definition flush :: "cid option \<Rightarrow> router \<Rightarrow> nat \<times> router" where
  "flush i r =
     (case i of
        Some i \<Rightarrow>
          let r = (if map_option sw_channel (announce r) = Some i then r\<lparr>announce := None\<rparr> else r);
              r = end_hold (Some i) r
          in (case channel i r of
                None \<Rightarrow> (0, r)
              | Some c \<Rightarrow> (pending c, on_channel i (\<lambda>c. snd (skip_to_end (c\<lparr>growing := False\<rparr>))) r))
      | None \<Rightarrow>
          let r = end_hold None (r\<lparr>announce := None\<rparr>)
          in (sum_list (map (\<lambda>c. fst (skip_to_end c)) (channels r)),
              r\<lparr>channels := map (\<lambda>c. snd (skip_to_end c)) (channels r)\<rparr>))"

definition rewind :: "cid \<Rightarrow> nat \<Rightarrow> router \<Rightarrow> bool \<times> router" where
  "rewind i e r =
     (case channel i r of
        None \<Rightarrow> (False, r)
      | Some c \<Rightarrow> (fst (chan_rewind e c), on_channel i (\<lambda>c. snd (chan_rewind e c)) r))"

definition total_pending :: "router \<Rightarrow> nat" where
  "total_pending r = sum_list (map pending (channels r))"

definition has_work :: "router \<Rightarrow> bool \<times> router" where
  "has_work r =
     (if announce r \<noteq> None then (True, r) else (let (t, r) = pick r in (t \<noteq> None, r)))"

section \<open>Calls\<close>

datatype call =
    OpenChannel cid "str option" "str option" "policy option"
  | LabelIfMissing cid str
  | CloseChannel cid
  | Focus cid
  | SetMuted cid bool
  | SetFocusOnly bool
  | Authorize cid
  | Push cid str "str option"
  | PushWith cid str "str option" bool bool
  | AppendText cid str bool bool
  | DropDecisions cid resolved
  | EndBatch cid
  | IsSuppressed cid
  | Prioritize cid
  | PickNext
  | ClearAnnounce
  | NextFeed
  | FeedDone
  | NextChannel
  | TakeFloor cid
  | ReplayFrom cid "nat option"
  | StepTo cid nat
  | SetAside cid nat bool
  | Revise cid nat str
  | Flush "cid option"
  | Rewind cid nat
  | HasWork

text \<open>The state after a call, and what it fed.\<close>

fun router_step :: "router \<Rightarrow> call \<Rightarrow> router \<times> feed list" where
  "router_step r (OpenChannel i l t p) = (snd (open_channel i l t p r), [])"
| "router_step r (LabelIfMissing i l) = (snd (label_if_missing i l r), [])"
| "router_step r (CloseChannel i) = (snd (close_channel i r), [])"
| "router_step r (Focus i) = (snd (focus i r), [])"
| "router_step r (SetMuted i m) = (set_muted i m r, [])"
| "router_step r (SetFocusOnly b) = (set_focus_only b r, [])"
| "router_step r (Authorize i) = (snd (authorize i r), [])"
| "router_step r (Push i t l) = (snd (push i t l r), [])"
| "router_step r (PushWith i t l rep front) = (snd (push_with i t l rep front r), [])"
| "router_step r (AppendText i t d h) = (snd (append i t d h r), [])"
| "router_step r (DropDecisions i w) = (snd (drop_decisions i w r), [])"
| "router_step r (EndBatch i) = (end_batch i r, [])"
| "router_step r (IsSuppressed i) = (snd (is_suppressed i r), [])"
| "router_step r (Prioritize i) = (snd (prioritize i r), [])"
| "router_step r PickNext = (snd (pick r), [])"
| "router_step r ClearAnnounce = (clear_announce r, [])"
| "router_step r NextFeed = (let (f, r) = next_feed r in (r, (case f of None \<Rightarrow> [] | Some f \<Rightarrow> [f])))"
| "router_step r FeedDone = (feed_done r, [])"
| "router_step r NextChannel = (snd (next_channel r), [])"
| "router_step r (TakeFloor i) = (snd (take_floor i r), [])"
| "router_step r (ReplayFrom i e) = (snd (replay_from i e r), [])"
| "router_step r (StepTo i e) = (snd (step_to i e r), [])"
| "router_step r (SetAside i e a) = (snd (set_aside i e a r), [])"
| "router_step r (Revise i e t) = (snd (revise i e t r), [])"
| "router_step r (Flush i) = (snd (flush i r), [])"
| "router_step r (Rewind i e) = (snd (rewind i e r), [])"
| "router_step r HasWork = (snd (has_work r), [])"

end
