(* ===== verification/Router_Inv.thy ===== *)
theory Router_Inv imports Router begin

text \<open>
  The invariant of the router: what its fields say of each other between calls. The channels have
  different ids, a cursor never passes the end of its batch (so no indexing panics), entry ids are
  unique over all channels, and every field that names a channel names an open one.
\<close>

section \<open>Channels\<close>

definition ids_of :: "channel \<Rightarrow> nat list" where
  "ids_of c = map entry_id (entries c)"

definition chan_ok :: "nat \<Rightarrow> channel \<Rightarrow> bool" where
  "chan_ok n c \<longleftrightarrow>
     cursor c \<le> length (entries c) \<and> distinct (ids_of c) \<and> set (ids_of c) \<subseteq> {1..n} \<and>
     dom (decisions c) \<subseteq> set (ids_of c) \<and> aside c \<subseteq> set (ids_of c)"

definition chans_ok :: "nat \<Rightarrow> cid set \<Rightarrow> channel list \<Rightarrow> bool" where
  "chans_ok n M cs \<longleftrightarrow>
     distinct (map ch_id cs) \<and> (\<forall>c \<in> set cs. chan_ok n c \<and> (ch_muted c \<longleftrightarrow> ch_id c \<in> M)) \<and>
     distinct (concat (map ids_of cs))"

text \<open>One channel of the list changes; the ids it gains are new ones.\<close>

lemma chans_ok_change:
  assumes "chans_ok n M (pre @ c # post)" "chan_ok n' c'" "ch_id c' = ch_id c" "n \<le> n'"
    and "ch_muted c' = ch_muted c" "set (ids_of c') \<subseteq> set (ids_of c) \<union> {n<..n'}"
  shows "chans_ok n' M (pre @ c' # post)"
proof -
  have old: "set (ids_of d) \<subseteq> {1..n}" if "d \<in> set pre \<union> set post" for d
    using assms(1) that by (auto simp: chans_ok_def chan_ok_def)
  have keep: "chan_ok n' d" if "d \<in> set pre \<union> set post" for d
  proof -
    have "chan_ok n d" using assms(1) that by (auto simp: chans_ok_def)
    then show ?thesis using assms(4) unfolding chan_ok_def by (meson atLeastatMost_subset_iff order.refl order.trans)
  qed
  have "set (ids_of c') \<inter> set (concat (map ids_of (pre @ post))) = {}"
  proof -
    have "set (ids_of c) \<inter> set (concat (map ids_of (pre @ post))) = {}"
      using assms(1) by (auto simp: chans_ok_def)
    moreover have "{n<..n'} \<inter> set (concat (map ids_of (pre @ post))) = {}"
      using old by fastforce
    ultimately show ?thesis using assms(6) by blast
  qed
  moreover have "distinct (ids_of c')" using assms(2) by (simp add: chan_ok_def)
  moreover have "distinct (concat (map ids_of (pre @ c # post)))" using assms(1) by (simp add: chans_ok_def)
  ultimately have "distinct (concat (map ids_of (pre @ c' # post)))" by auto
  moreover have "\<forall>d \<in> set (pre @ c' # post). chan_ok n' d \<and> (ch_muted d \<longleftrightarrow> ch_id d \<in> M)"
    using keep assms by (auto simp: chans_ok_def)
  moreover have "distinct (map ch_id (pre @ c' # post))" using assms(1,3) by (simp add: chans_ok_def)
  ultimately show ?thesis unfolding chans_ok_def by blast
qed

lemma chans_ok_snoc:
  "chans_ok n M cs \<Longrightarrow> chan_ok n c \<Longrightarrow> ch_id c \<notin> ch_id ` set cs \<Longrightarrow> ids_of c = [] \<Longrightarrow>
     ch_muted c = (ch_id c \<in> M) \<Longrightarrow> chans_ok n M (cs @ [c])"
  by (auto simp: chans_ok_def)

lemma chans_ok_remove: "chans_ok n M (pre @ c # post) \<Longrightarrow> chans_ok n M (pre @ post)"
  by (auto simp: chans_ok_def)

lemma find_split:
  "List.find P xs = Some x \<Longrightarrow> \<exists>pre post. xs = pre @ x # post \<and> P x \<and> (\<forall>y \<in> set pre. \<not> P y)"
proof (induction xs)
  case Nil
  then show ?case by simp
next
  case (Cons y xs)
  show ?case
  proof (cases "P y")
    case True
    then have "y # xs = [] @ x # xs" "P x" using Cons.prems by simp_all
    then show ?thesis by fastforce
  next
    case False
    then obtain pre post where "xs = pre @ x # post" "P x" "\<forall>y \<in> set pre. \<not> P y"
      using Cons by auto
    then have "y # xs = (y # pre) @ x # post" "P x" "\<forall>z \<in> set (y # pre). \<not> P z" using False by simp_all
    then show ?thesis by blast
  qed
qed

lemma upd_first_split: "\<forall>y \<in> set pre. \<not> P y \<Longrightarrow> P x \<Longrightarrow> upd_first P f (pre @ x # post) = pre @ f x # post"
  by (induction pre) auto

lemma upd_first_none: "\<forall>y \<in> set xs. \<not> P y \<Longrightarrow> upd_first P f xs = xs"
  by (induction xs) auto

lemma find_none: "List.find P xs = None \<longleftrightarrow> (\<forall>x \<in> set xs. \<not> P x)"
  by (induction xs) auto

definition open_ids :: "router \<Rightarrow> cid set" where
  "open_ids r = ch_id ` set (channels r)"

lemma channel_None: "channel i r = None \<longleftrightarrow> i \<notin> open_ids r"
  by (auto simp: channel_def find_none open_ids_def)

lemma index_None: "index i r = None \<longleftrightarrow> i \<notin> open_ids r"
  by (auto simp: index_def open_ids_def)

lemma channel_split:
  assumes "channel i r = Some c"
  obtains pre post where "channels r = pre @ c # post" "ch_id c = i" "i \<notin> ch_id ` set pre"
    "\<And>f. channels (on_channel i f r) = pre @ f c # post"
proof -
  obtain pre post where s: "channels r = pre @ c # post" "ch_id c = i" "\<forall>y \<in> set pre. ch_id y \<noteq> i"
    using find_split [of "\<lambda>c. ch_id c = i" "channels r" c] assms unfolding channel_def by blast
  moreover have "channels (on_channel i f r) = pre @ f c # post" for f
    using upd_first_split [of pre "\<lambda>c. ch_id c = i" c f post] s by (simp add: on_channel_def)
  moreover have "i \<notin> ch_id ` set pre" using s(3) by auto
  ultimately show ?thesis using that by blast
qed

lemma channel_in: "channel i r = Some c \<Longrightarrow> c \<in> set (channels r) \<and> ch_id c = i"
  by (erule channel_split) auto

lemma channel_on_same: "channel i r = Some c \<Longrightarrow> ch_id (f c) = i \<Longrightarrow> channel i (on_channel i f r) = Some (f c)"
proof (erule channel_split)
  fix pre post
  assume "i \<notin> ch_id ` set pre" and f: "ch_id (f c) = i"
    and on: "\<And>f. channels (on_channel i f r) = pre @ f c # post"
  then have "\<forall>y \<in> set pre. ch_id y \<noteq> i" by (metis imageI)
  then have "List.find (\<lambda>c. ch_id c = i) (pre @ f c # post) = Some (f c)"
    using f by (induction pre) auto
  then show ?thesis by (simp add: channel_def on)
qed

lemma channel_on_other:
  assumes "i \<noteq> j" "\<And>c. ch_id (f c) = ch_id c"
  shows "channel j (on_channel i f r) = channel j r"
proof -
  have "List.find (\<lambda>c. ch_id c = j) (upd_first (\<lambda>c. ch_id c = i) f cs) = List.find (\<lambda>c. ch_id c = j) cs" for cs
    using assms by (induction cs) auto
  then show ?thesis by (simp add: channel_def on_channel_def)
qed

lemma on_channel_none: "channel i r = None \<Longrightarrow> on_channel i f r = r"
  using upd_first_none [of "channels r" "\<lambda>c. ch_id c = i" f]
  by (simp add: on_channel_def channel_def find_none)

lemma on_channel_sel [simp]:
  "next_entry (on_channel i f r) = next_entry r" "active (on_channel i f r) = active r"
  "last_active (on_channel i f r) = last_active r" "last_reader (on_channel i f r) = last_reader r"
  "closed_reader_tab (on_channel i f r) = closed_reader_tab r"
  "focused (on_channel i f r) = focused r" "announce (on_channel i f r) = announce r"
  "reading (on_channel i f r) = reading r" "suppressed (on_channel i f r) = suppressed r"
  "priority (on_channel i f r) = priority r" "hold (on_channel i f r) = hold r"
  "muted_ids (on_channel i f r) = muted_ids r" "focus_only (on_channel i f r) = focus_only r"
  "authorized (on_channel i f r) = authorized r"
  by (simp_all add: on_channel_def)

section \<open>References\<close>

definition refs_ok :: "cid set \<Rightarrow> router \<Rightarrow> bool" where
  "refs_ok S r \<longleftrightarrow>
     set_option (active r) \<subseteq> set_option (last_active r) \<and> set_option (last_active r) \<subseteq> S \<and>
     set_option (last_active r) \<subseteq> set_option (last_reader r) \<and>
     set_option (focused r) \<subseteq> S \<and> sw_channel ` set_option (announce r) \<subseteq> S \<and>
     fst ` set_option (reading r) \<subseteq> S \<and> fst ` set_option (hold r) \<subseteq> S \<and>
     snd ` set_option (hold r) \<subseteq> {..next_entry r} \<and>
     dom (suppressed r) \<subseteq> S \<and> set (priority r) \<subseteq> S \<and> distinct (priority r) \<and> authorized r \<subseteq> S"

definition router_wf :: "router \<Rightarrow> bool" where
  "router_wf r \<longleftrightarrow> chans_ok (next_entry r) (muted_ids r) (channels r) \<and> refs_ok (open_ids r) r"

lemma new_router_wf: "router_wf new_router"
  by (simp add: router_wf_def new_router_def chans_ok_def refs_ok_def open_ids_def)

text \<open>A change of one channel keeps the invariant when it keeps the channel well formed.\<close>

lemma on_channel_wf:
  assumes "router_wf r"
    and "\<And>c. channel i r = Some c \<Longrightarrow> chan_ok (next_entry r) c \<Longrightarrow>
           chan_ok (next_entry r) (f c) \<and> ch_id (f c) = ch_id c \<and> ch_muted (f c) = ch_muted c \<and>
           set (ids_of (f c)) \<subseteq> set (ids_of c)"
  shows "router_wf (on_channel i f r)" "open_ids (on_channel i f r) = open_ids r"
proof -
  have "router_wf (on_channel i f r) \<and> open_ids (on_channel i f r) = open_ids r"
  proof (cases "channel i r")
    case None
    then show ?thesis using assms(1) by (simp add: on_channel_none)
  next
    case (Some c)
    obtain pre post where s: "channels r = pre @ c # post" "channels (on_channel i f r) = pre @ f c # post"
      using channel_split [OF Some] by metis
    have ok: "chan_ok (next_entry r) c" using assms(1) by (simp add: router_wf_def chans_ok_def s)
    note f = assms(2) [OF Some ok]
    then have "open_ids (on_channel i f r) = open_ids r" by (simp add: open_ids_def s)
    moreover have "chans_ok (next_entry r) (muted_ids r) (pre @ f c # post)"
    proof (rule chans_ok_change [where n = "next_entry r" and c = c])
      show "chans_ok (next_entry r) (muted_ids r) (pre @ c # post)"
        using assms(1) by (simp add: router_wf_def s(1))
      show "set (ids_of (f c)) \<subseteq> set (ids_of c) \<union> {next_entry r<..next_entry r}" using f by simp
    qed (use f in simp_all)
    moreover have "refs_ok (open_ids r) (on_channel i f r)"
      using assms(1) by (simp add: router_wf_def refs_ok_def)
    ultimately show ?thesis by (simp add: router_wf_def s(2))
  qed
  then show "router_wf (on_channel i f r)" "open_ids (on_channel i f r) = open_ids r" by auto
qed

lemma open_ids_sel [simp]:
  "open_ids (r\<lparr>active := a\<rparr>) = open_ids r" "open_ids (r\<lparr>announce := an\<rparr>) = open_ids r"
  "open_ids (r\<lparr>reading := rd\<rparr>) = open_ids r" "open_ids (r\<lparr>hold := h\<rparr>) = open_ids r"
  "open_ids (r\<lparr>suppressed := su\<rparr>) = open_ids r" "open_ids (r\<lparr>priority := p\<rparr>) = open_ids r"
  "open_ids (r\<lparr>authorized := au\<rparr>) = open_ids r" "open_ids (r\<lparr>focused := f\<rparr>) = open_ids r"
  "open_ids (r\<lparr>next_entry := n\<rparr>) = open_ids r" "open_ids (r\<lparr>focus_only := b\<rparr>) = open_ids r"
  "open_ids (r\<lparr>muted_ids := m\<rparr>) = open_ids r"
  "open_ids (set_reader i r) = open_ids r" "open_ids (arm i b b' r) = open_ids r"
  by (simp_all add: open_ids_def set_reader_def arm_def)

lemma end_hold_wf:
  assumes "router_wf r" shows "router_wf (end_hold i r)" "open_ids (end_hold i r) = open_ids r"
  using assms by (auto simp: end_hold_def router_wf_def refs_ok_def open_ids_def)

lemma set_reader_wf: "router_wf r \<Longrightarrow> i \<in> open_ids r \<Longrightarrow> router_wf (set_reader i r)"
  by (simp add: router_wf_def refs_ok_def open_ids_def set_reader_def)

lemma arm_wf: "router_wf r \<Longrightarrow> i \<in> open_ids r \<Longrightarrow> router_wf (arm i b b' r)"
  by (simp add: router_wf_def refs_ok_def open_ids_def arm_def)

lemma start_hold_wf: "router_wf r \<Longrightarrow> i \<in> open_ids r \<Longrightarrow> router_wf (start_hold i r)"
  by (simp add: router_wf_def refs_ok_def open_ids_def start_hold_def end_hold_def Let_def)

lemma fields_wf:
  "router_wf r \<Longrightarrow> router_wf (r\<lparr>announce := None\<rparr>)"
  "router_wf r \<Longrightarrow> router_wf (r\<lparr>reading := None\<rparr>)"
  "router_wf r \<Longrightarrow> router_wf (r\<lparr>active := None\<rparr>)"
  "router_wf r \<Longrightarrow> router_wf (r\<lparr>hold := None\<rparr>)"
  "router_wf r \<Longrightarrow> router_wf (r\<lparr>focus_only := b\<rparr>)"
  "router_wf r \<Longrightarrow> i \<in> open_ids r \<Longrightarrow> router_wf (r\<lparr>focused := Some i\<rparr>)"
  "router_wf r \<Longrightarrow> i \<in> open_ids r \<Longrightarrow> router_wf (r\<lparr>reading := Some (i, e)\<rparr>)"
  "router_wf r \<Longrightarrow> A \<subseteq> open_ids r \<Longrightarrow> router_wf (r\<lparr>authorized := A\<rparr>)"
  "router_wf r \<Longrightarrow> router_wf (r\<lparr>suppressed := (suppressed r)(i := None)\<rparr>)"
  "router_wf r \<Longrightarrow> i \<in> open_ids r \<Longrightarrow> router_wf (r\<lparr>suppressed := (suppressed r)(i \<mapsto> g)\<rparr>)"
  "router_wf r \<Longrightarrow> router_wf (r\<lparr>priority := filter P (priority r)\<rparr>)"
  by (auto simp: router_wf_def refs_ok_def open_ids_def)

section \<open>The operations of a channel\<close>

lemma ids_of_insert: "set (map entry_id (insert_at k e es)) = insert (entry_id e) (set (map entry_id es))"
  by simp

lemma distinct_insert_at: "entry_id e \<notin> set (map entry_id es) \<Longrightarrow> distinct (map entry_id es) \<Longrightarrow>
    distinct (map entry_id (insert_at k e es))"
proof -
  assume a: "entry_id e \<notin> set (map entry_id es)" "distinct (map entry_id es)"
  obtain xs ys where "es = xs @ ys" "insert_at k e es = xs @ e # ys"
    by (metis append_take_drop_id insert_at_def)
  then show ?thesis using a by auto
qed

lemma chan_push_ok:
  assumes "chan_ok n c" "entry_id e = n + 1"
  shows "chan_ok (n + 1) (chan_push e replace front rd c) \<and> ch_id (chan_push e replace front rd c) = ch_id c \<and>
    ch_muted (chan_push e replace front rd c) = ch_muted c \<and>
    set (ids_of (chan_push e replace front rd c)) \<subseteq> insert (n + 1) (set (ids_of c)) \<and>
    n + 1 \<in> set (ids_of (chan_push e replace front rd c))"
proof -
  define d where "d = (if replace \<or> (caught_up c \<and> \<not> rd \<and> \<not> growing c)
               then c\<lparr>entries := [], decisions := Map.empty, aside := {}, cursor := 0\<rparr> else c)"
  have d: "chan_ok n d" "set (ids_of d) \<subseteq> set (ids_of c)" "ch_id d = ch_id c" "ch_muted d = ch_muted c"
    using assms(1) by (auto simp: d_def chan_ok_def ids_of_def)
  have p: "chan_push e replace front rd c =
      d\<lparr>entries := insert_at (if front then cursor d else length (entries d)) e (entries d),
        ch_gen := ch_gen d + 1, replaying := False\<rparr>"
    by (simp add: chan_push_def d_def Let_def)
  have "n + 1 \<notin> set (ids_of d)" using d(1) by (auto simp: chan_ok_def)
  then have "distinct (map entry_id (insert_at k e (entries d)))" for k
    using d(1) distinct_insert_at [of e "entries d"] by (simp add: ids_of_def chan_ok_def assms(2))
  then show ?thesis using d assms(2) by (auto simp: p chan_ok_def ids_of_def)
qed

lemma pass_aside_eq: "pass_aside c = c\<lparr>cursor := cursor (pass_aside c)\<rparr>"
proof (induction c rule: pass_aside.induct)
  case (1 c)
  then show ?case by (subst (1 2) pass_aside.simps) (auto split: option.splits)
qed

lemma pass_aside_le: "cursor c \<le> length (entries c) \<Longrightarrow> cursor (pass_aside c) \<le> length (entries c)"
proof (induction c rule: pass_aside.induct)
  case (1 c)
  then show ?case by (subst pass_aside.simps) (auto simp: get_def split: option.splits if_splits)
qed

lemma pass_aside_entries [simp]: "entries (pass_aside c) = entries c" "aside (pass_aside c) = aside c"
  by (subst pass_aside_eq, simp)+

lemma chan_take_eq: "snd (chan_take c) = c\<lparr>cursor := cursor (snd (chan_take c))\<rparr>"
proof -
  have "(pass_aside c)\<lparr>cursor := k\<rparr> = c\<lparr>cursor := k\<rparr>" for k by (subst pass_aside_eq) simp
  then show ?thesis using pass_aside_eq [of c]
    by (cases "get (entries (pass_aside c)) (cursor (pass_aside c))") (simp_all add: chan_take_def)
qed

lemma chan_take_le: "cursor c \<le> length (entries c) \<Longrightarrow> cursor (snd (chan_take c)) \<le> length (entries c)"
  using pass_aside_le [of c]
  by (cases "get (entries (pass_aside c)) (cursor (pass_aside c))")
    (simp_all add: chan_take_def get_def Let_def split: if_splits)

lemma ids_of_cursor [simp]: "ids_of (c\<lparr>cursor := k\<rparr>) = ids_of c"
  by (simp add: ids_of_def)

lemma chan_ok_cursor: "chan_ok n c \<Longrightarrow> k \<le> length (entries c) \<Longrightarrow> chan_ok n (c\<lparr>cursor := k\<rparr>)"
  by (simp add: chan_ok_def)

lemma chan_take_ok: "chan_ok n c \<Longrightarrow> chan_ok n (snd (chan_take c))"
  using chan_take_eq [of c] chan_take_le [of c] chan_ok_cursor [of n c] by (metis chan_ok_def)

lemma chan_take_sel [simp]:
  "ch_id (snd (chan_take c)) = ch_id c" "ch_muted (snd (chan_take c)) = ch_muted c"
  "ids_of (snd (chan_take c)) = ids_of c" "entries (snd (chan_take c)) = entries c"
  "aside (snd (chan_take c)) = aside c"
  by (subst chan_take_eq, simp add: ids_of_def)+

lemma remove_entry_ok:
  assumes "chan_ok n c" "i < length (entries c)" "k \<le> length (entries c) - 1"
  shows "chan_ok n ((remove_entry i c)\<lparr>cursor := k\<rparr>)" "set (ids_of (remove_entry i c)) \<subseteq> set (ids_of c)"
proof -
  have s: "entries c = take i (entries c) @ entries c ! i # drop (i + 1) (entries c)"
    using assms(2) by (simp add: id_take_nth_drop)
  have m: "ids_of c = map entry_id (take i (entries c)) @ entry_id (entries c ! i) # map entry_id (drop (i + 1) (entries c))"
    using arg_cong [OF s, of "map entry_id"] by (simp add: ids_of_def)
  have r: "ids_of (remove_entry i c) = map entry_id (take i (entries c)) @ map entry_id (drop (i + 1) (entries c))"
    by (simp add: ids_of_def remove_entry_def remove_at_def)
  have sub: "set (ids_of (remove_entry i c)) = set (ids_of c) - {entry_id (entries c ! i)}"
    using assms(1) unfolding r m chan_ok_def by auto
  have "distinct (ids_of (remove_entry i c))" using assms(1) unfolding r chan_ok_def m by auto
  moreover have "dom (decisions (remove_entry i c)) \<subseteq> set (ids_of (remove_entry i c))"
    using assms(1) unfolding sub chan_ok_def by (auto simp: remove_entry_def)
  moreover have "aside (remove_entry i c) \<subseteq> set (ids_of (remove_entry i c))"
    using assms(1) unfolding sub chan_ok_def by (auto simp: remove_entry_def)
  moreover have "set (ids_of (remove_entry i c)) \<subseteq> {1..n}" using assms(1) unfolding sub chan_ok_def by blast
  moreover have "length (entries (remove_entry i c)) = length (entries c) - 1"
    using assms(2) by (simp add: remove_entry_def length_remove_at)
  ultimately show "chan_ok n ((remove_entry i c)\<lparr>cursor := k\<rparr>)"
    using assms(3) by (simp add: chan_ok_def)
  show "set (ids_of (remove_entry i c)) \<subseteq> set (ids_of c)" using sub by blast
qed

lemma remove_entry_sel [simp]:
  "ch_id (remove_entry i c) = ch_id c" "ch_muted (remove_entry i c) = ch_muted c"
  "cursor (remove_entry i c) = cursor c"
  by (simp_all add: remove_entry_def)

lemma drop_from_ok:
  assumes "chan_ok n c"
  shows "chan_ok n (snd (drop_from which i out c)) \<and> ch_id (snd (drop_from which i out c)) = ch_id c \<and>
    ch_muted (snd (drop_from which i out c)) = ch_muted c \<and>
    set (ids_of (snd (drop_from which i out c))) \<subseteq> set (ids_of c)"
  using assms
proof (induction which i out c rule: drop_from.induct)
  case (1 which i out c)
  let ?id = "entry_id (entries c ! i)"
  consider "\<not> i < length (entries c)"
    | "i < length (entries c)" "goes which (i < cursor c) ?id c" "i < cursor c"
    | "i < length (entries c)" "goes which (i < cursor c) ?id c" "\<not> i < cursor c"
    | "i < length (entries c)" "\<not> goes which (i < cursor c) ?id c" by blast
  then show ?case
  proof cases
    case 1
    then show ?thesis using "1.prems" by (simp add: drop_from.simps)
  next
    case 2
    have "cursor c - 1 \<le> length (entries c) - 1" using "1.prems" unfolding chan_ok_def by linarith
    note r = remove_entry_ok [OF "1.prems" 2(1) this]
    show ?thesis using "1.IH"(1) [OF 2(1) refl refl 2(2,3) r(1)] r(2) 2
      by (subst (1 2 3 4) drop_from.simps) auto
  next
    case 3
    have "cursor c \<le> length (entries c) - 1" using 3 by simp
    note r = remove_entry_ok [OF "1.prems" 3(1) this]
    have "(remove_entry i c)\<lparr>cursor := cursor c\<rparr> = remove_entry i c" by (simp add: remove_entry_def)
    then have "chan_ok n (remove_entry i c)" using r(1) by (simp only:)
    from "1.IH"(2) [OF 3(1) refl refl 3(2,3) this] show ?thesis using r(2) 3
      by (subst (1 2 3 4) drop_from.simps) auto
  next
    case 4
    show ?thesis using "1.IH"(3) [OF 4(1) refl refl 4(2) "1.prems"] 4
      by (subst (1 2 3 4) drop_from.simps) auto
  qed
qed

lemma chan_rewind_ok:
  "chan_ok n c \<Longrightarrow> chan_ok n (snd (chan_rewind e c))"
  "ch_id (snd (chan_rewind e c)) = ch_id c" "ch_muted (snd (chan_rewind e c)) = ch_muted c"
  "ids_of (snd (chan_rewind e c)) = ids_of c"
  by (auto simp: chan_rewind_def chan_ok_def)

lemma mark_agent_ok:
  "chan_ok n c \<Longrightarrow> e \<in> set (ids_of c) \<Longrightarrow> chan_ok n (mark_agent e d h u c)"
  "ch_id (mark_agent e d h u c) = ch_id c" "ch_muted (mark_agent e d h u c) = ch_muted c"
  "ids_of (mark_agent e d h u c) = ids_of c"
  by (auto simp: mark_agent_def chan_ok_def ids_of_def Let_def)

lemma revise_ids: "map entry_id (upd_first P (\<lambda>x. x\<lparr>entry_text := t\<rparr>) es) = map entry_id es"
  by (induction es) auto

lemma upd_first_length [simp]: "length (upd_first P f xs) = length xs"
  by (induction xs) auto

section \<open>Picking only forgets\<close>

text \<open>
  Picking forgets suppressions that new content lifted, drained priorities, spent authorizations and
  an ended hold; nothing else changes. \<open>blocked\<close> is what \<open>is_suppressed\<close> answers.
\<close>

definition blocked :: "cid \<Rightarrow> router \<Rightarrow> bool" where
  "blocked i r \<longleftrightarrow>
     (case suppressed r i of
        None \<Rightarrow> False
      | Some g \<Rightarrow> (case channel i r of None \<Rightarrow> False | Some c \<Rightarrow> ch_gen c = g))"

definition lifted :: "router \<Rightarrow> router \<Rightarrow> bool" where
  "lifted r s \<longleftrightarrow> s = r\<lparr>suppressed := suppressed s\<rparr> \<and> suppressed s \<subseteq>\<^sub>m suppressed r \<and> (\<forall>i. blocked i s = blocked i r)"

lemma lifted_refl: "lifted r r"
  by (simp add: lifted_def)

lemma lifted_trans: "lifted r s \<Longrightarrow> lifted s t \<Longrightarrow> lifted r t"
  unfolding lifted_def by (metis map_le_trans router.surjective router.update_convs(10))

lemma is_suppressed_fst: "fst (is_suppressed i r) = blocked i r"
  by (simp add: is_suppressed_def blocked_def split: option.splits)

lemma is_suppressed_lifted: "lifted r (snd (is_suppressed i r))"
proof (cases "suppressed r i = None \<or> blocked i r")
  case True
  then have "snd (is_suppressed i r) = r"
    by (auto simp: is_suppressed_def blocked_def split: option.splits)
  then show ?thesis by (simp add: lifted_refl)
next
  case False
  let ?s = "r\<lparr>suppressed := (suppressed r)(i := None)\<rparr>"
  have "snd (is_suppressed i r) = ?s"
    using False by (auto simp: is_suppressed_def blocked_def split: option.splits)
  moreover have "blocked j ?s = blocked j r" for j
    using False by (cases "j = i") (simp_all add: blocked_def channel_def cong: option.case_cong)
  moreover have "(suppressed r)(i := None) \<subseteq>\<^sub>m suppressed r" by (simp add: map_le_def)
  ultimately show ?thesis by (simp add: lifted_def)
qed

lemma lifted_same:
  assumes "lifted r s"
  shows "audible i s = audible i r" "blocked i s = blocked i r" "gated i s = gated i r"
    "channels s = channels r" "priority s = priority r" "focused s = focused r" "ready i s = ready i r"
    "active s = active r" "hold s = hold r" "authorized s = authorized r"
proof -
  have "s = r\<lparr>suppressed := suppressed s\<rparr>" using assms by (simp add: lifted_def)
  then obtain f where f: "s = r\<lparr>suppressed := f\<rparr>" by blast
  show "audible i s = audible i r" "gated i s = gated i r"
    "channels s = channels r" "priority s = priority r" "focused s = focused r" "ready i s = ready i r"
    "active s = active r" "hold s = hold r" "authorized s = authorized r"
    by (simp_all add: f audible_def gated_def ready_def channel_def)
  show "blocked i s = blocked i r" using assms by (simp add: lifted_def)
qed

definition choosable :: "cid \<Rightarrow> router \<Rightarrow> bool" where
  "choosable i r \<longleftrightarrow> audible i r \<and> \<not> blocked i r \<and> \<not> gated i r"

lemma pickable_eq: "fst (pickable i r) = choosable i r" "lifted r (snd (pickable i r))"
  using is_suppressed_fst [of i r] is_suppressed_lifted [of r i] lifted_same(3) [of r "snd (is_suppressed i r)" i]
    lifted_refl [of r]
  by (auto simp: pickable_def choosable_def case_prod_beta)

lemma choosable_lifted: "lifted r s \<Longrightarrow> choosable i s = choosable i r"
  by (simp add: choosable_def lifted_same)

lemma first_pickable_eq:
  "fst (first_pickable is r) = List.find (\<lambda>i. choosable i r) is \<and> lifted r (snd (first_pickable is r))"
proof (induction "is" arbitrary: r)
  case Nil
  then show ?case by (simp add: lifted_refl)
next
  case (Cons i "is")
  let ?s = "snd (pickable i r)"
  have l: "lifted r ?s" by (rule pickable_eq)
  have "fst (first_pickable is ?s) = List.find (\<lambda>i. choosable i r) is"
    using Cons.IH [of ?s] choosable_lifted [OF l] by simp
  moreover have "lifted r (snd (first_pickable is ?s))" using Cons.IH [of ?s] lifted_trans [OF l] by blast
  ultimately show ?case using l pickable_eq(1) [of i r] by (simp add: case_prod_beta)
qed

definition first_of :: "cid option list \<Rightarrow> cid option" where
  "first_of xs = (case filter (\<lambda>x. x \<noteq> None) xs of [] \<Rightarrow> None | x # _ \<Rightarrow> x)"

definition only_if :: "(cid \<Rightarrow> bool) \<Rightarrow> cid option \<Rightarrow> cid option" where
  "only_if P x = (case x of None \<Rightarrow> None | Some i \<Rightarrow> if P i then Some i else None)"

definition rest_spec :: "router \<Rightarrow> cid option" where
  "rest_spec r =
     first_of
       [only_if (\<lambda>i. audible i r) (active r),
        List.find (\<lambda>i. choosable i r) (priority r),
        only_if (\<lambda>i. audible i r \<and> \<not> blocked i r) (focused r),
        List.find (\<lambda>i. choosable i r) (map ch_id (channels r))]"

lemma first_of_simps [simp]:
  "first_of [] = None" "first_of (None # xs) = first_of xs" "first_of (Some x # xs) = Some x"
  "first_of [y] = y"
  by (simp_all add: first_of_def)

lemma pick_rest_eq: "fst (pick_rest r) = rest_spec r \<and> lifted r (snd (pick_rest r))"
proof -
  obtain p s where p: "first_pickable (priority r) r = (p, s)" by (cases "first_pickable (priority r) r")
  have s: "p = List.find (\<lambda>i. choosable i r) (priority r)" "lifted r s"
    using first_pickable_eq [of "priority r" r] by (simp_all add: p)
  have c: "(\<lambda>i. choosable i t) = (\<lambda>i. choosable i r)" if "lifted r t" for t
    using choosable_lifted [OF that] by (rule ext)
  have l: "lifted r (snd (is_suppressed f s))" for f
    using s(2) is_suppressed_lifted [of s f] by (rule lifted_trans)
  have q: "fst (first_pickable ids t) = List.find (\<lambda>i. choosable i r) ids \<and> lifted r (snd (first_pickable ids t))"
    if "lifted r t" for ids t
    using first_pickable_eq [of ids t] c [OF that] lifted_trans [OF that] by simp
  have ch: "channels s = channels r" "channels (snd (is_suppressed f s)) = channels r" "focused s = focused r" for f
    using lifted_same(4,6) [OF s(2)] lifted_same(4) [OF l] by simp_all
  have a: "audible i s = audible i r" "fst (is_suppressed i s) = blocked i r" for i
    using lifted_same(1,2) [OF s(2)] is_suppressed_fst [of i s] by simp_all
  show ?thesis
  proof (cases "only_if (\<lambda>i. audible i r) (active r)")
    case (Some i)
    then show ?thesis
      by (simp add: pick_rest_def rest_spec_def only_if_def lifted_refl split: option.splits if_splits)
  next
    case None
    then have n: "(case active r of None \<Rightarrow> None | Some a \<Rightarrow> if audible a r then Some a else None) = None"
      by (simp add: only_if_def)
    show ?thesis
    proof (cases p)
      case (Some i)
      then show ?thesis using s None by (simp add: pick_rest_def rest_spec_def n p)
    next
      case pn: None
      show ?thesis
      proof (cases "focused r")
        case None
        then show ?thesis using s q [OF s(2)] \<open>only_if _ _ = None\<close> pn
          by (simp add: pick_rest_def rest_spec_def n p ch only_if_def)
      next
        case (Some f)
        then show ?thesis using s q [OF s(2)] q [OF l [of f]] l [of f] \<open>only_if _ (active r) = None\<close> pn a [of f]
          by (simp add: pick_rest_def rest_spec_def n p ch only_if_def case_prod_beta)
      qed
    qed
  qed
qed

definition pick_spec :: "router \<Rightarrow> cid option" where
  "pick_spec r =
     first_of
       [case hold r of None \<Rightarrow> None | Some (h, mark) \<Rightarrow> if holds h mark r then Some h else None,
        only_if (\<lambda>i. audible i r) (active r),
        List.find (\<lambda>i. choosable i r) (priority r),
        only_if (\<lambda>i. audible i r \<and> \<not> blocked i r) (focused r),
        List.find (\<lambda>i. choosable i r) (map ch_id (channels r))]"

lemma audible_ready: "audible i r \<Longrightarrow> ready i r"
  by (simp add: audible_def ready_def split: option.splits)

lemma blocked_cong: "channels r = channels s \<Longrightarrow> suppressed r = suppressed s \<Longrightarrow> blocked i r = blocked i s"
  by (simp add: blocked_def channel_def cong: option.case_cong)

lemma prune_same:
  "channel i (prune r) = channel i r" "active (prune r) = active r" "focused (prune r) = focused r"
  "hold (prune r) = hold r" "audible i (prune r) = audible i r" "blocked i (prune r) = blocked i r"
  "ready i (prune r) = ready i r" "holds i m (prune r) = holds i m r"
  "choosable i (prune r) = choosable i r" "priority (prune r) = filter (\<lambda>p. ready p r) (priority r)"
proof -
  have ch: "channel i (prune r) = channel i r" for i by (simp add: channel_def prune_channels)
  then show "channel i (prune r) = channel i r" .
  show "active (prune r) = active r" "focused (prune r) = focused r" "hold (prune r) = hold r"
    "priority (prune r) = filter (\<lambda>p. ready p r) (priority r)"
    by (simp_all add: prune_def Let_def)
  show a: "audible i (prune r) = audible i r" and b: "blocked i (prune r) = blocked i r"
    and "ready i (prune r) = ready i r" and "holds i m (prune r) = holds i m r"
    by (simp_all add: audible_def blocked_def ready_def holds_def ch cong: option.case_cong)
      (simp add: prune_def Let_def)
  have "authorized (prune r) = {a \<in> authorized r. ready a r}"
    by (simp add: prune_def Let_def ready_def channel_def)
  then have "audible i r \<Longrightarrow> gated i (prune r) = gated i r"
    using audible_ready [of i r] by (simp add: gated_def) (simp add: prune_def Let_def)
  then show "choosable i (prune r) = choosable i r" unfolding choosable_def a b by blast
qed

lemma find_filter_ready: "List.find (\<lambda>i. choosable i r) (filter (\<lambda>p. ready p r) is) = List.find (\<lambda>i. choosable i r) is"
  using audible_ready [of _ r] by (induction "is") (auto simp: choosable_def)

lemma hold_same:
  "audible i (r\<lparr>hold := h\<rparr>) = audible i r" "blocked i (r\<lparr>hold := h\<rparr>) = blocked i r"
  "choosable i (r\<lparr>hold := h\<rparr>) = choosable i r"
  by (simp_all add: choosable_def audible_def blocked_def gated_def channel_def cong: option.case_cong)

lemma rest_spec_prune: "rest_spec (prune r\<lparr>hold := h\<rparr>) = rest_spec r"
proof -
  show ?thesis
    by (simp add: rest_spec_def hold_same prune_same prune_channels find_filter_ready)
qed

lemma pick_eq: "fst (pick r) = pick_spec r"
proof -
  have h: "prune r\<lparr>hold := hold r\<rparr> = prune r" by (simp add: prune_def Let_def)
  show ?thesis
    using pick_rest_eq [of "prune r"] pick_rest_eq [of "prune r\<lparr>hold := None\<rparr>"]
      rest_spec_prune [where r = r and h = None] rest_spec_prune [where r = r and h = "hold r"]
    by (auto simp: pick_def pick_spec_def rest_spec_def [of r] prune_same h Let_def
        split: option.splits prod.splits)
qed

end
