(* ===== verification/Router_Wf.thy ===== *)
theory Router_Wf imports Router_Inv begin

text \<open>
  Every call keeps the invariant of the router; the run of any list of calls from a new router
  therefore ends in a well-formed one.
\<close>

lemma channel_open: "channel i r = Some c \<Longrightarrow> i \<in> open_ids r"
  using channel_None [of i r] by auto

section \<open>Picking\<close>

lemma lifted_wf: "router_wf r \<Longrightarrow> lifted r s \<Longrightarrow> router_wf s"
proof -
  assume r: "router_wf r" and l: "lifted r s"
  then obtain f where f: "s = r\<lparr>suppressed := f\<rparr>" "f \<subseteq>\<^sub>m suppressed r"
    by (metis lifted_def)
  have "dom f \<subseteq> dom (suppressed r)" using f(2) by (rule map_le_implies_dom_le)
  moreover have "dom (suppressed r) \<subseteq> open_ids r" using r by (simp add: router_wf_def refs_ok_def)
  ultimately have "dom f \<subseteq> open_ids r" by (rule order_trans)
  then show ?thesis using r by (simp add: f(1) router_wf_def refs_ok_def open_ids_def)
qed

lemma prune_wf: "router_wf r \<Longrightarrow> router_wf (prune r)"
  by (auto simp: prune_def Let_def router_wf_def refs_ok_def open_ids_def)

lemma pick_wf: "router_wf r \<Longrightarrow> router_wf (snd (pick r))"
proof -
  assume "router_wf r"
  then have p: "router_wf (prune r)" by (rule prune_wf)
  note q = fields_wf(4) [OF p]
  have "router_wf (snd (pick_rest (prune r)))" "router_wf (snd (pick_rest (prune r\<lparr>hold := None\<rparr>)))"
    using lifted_wf [OF p] lifted_wf [OF q] pick_rest_eq by blast+
  then show ?thesis using p by (auto simp: pick_def Let_def split: option.splits prod.splits)
qed

lemma open_ids_cong: "channels r = channels s \<Longrightarrow> open_ids r = open_ids s"
  by (simp add: open_ids_def)

lemma pick_open: "open_ids (snd (pick r)) = open_ids r"
  by (rule open_ids_cong) (rule pick_frame)

lemma picked_is_open: "fst (pick r) = Some t \<Longrightarrow> t \<in> open_ids (snd (pick r))"
  using pick_frame(2) [of r t] audible_open [of t r] by (simp add: channel_None pick_open)

section \<open>Feeding\<close>

lemma feed_entry_wf: "router_wf r \<Longrightarrow> t \<in> open_ids r \<Longrightarrow> router_wf (snd (feed_entry t r))"
proof -
  assume r: "router_wf r" and t: "t \<in> open_ids r"
  then obtain c where c: "channel t r = Some c" by (cases "channel t r") (auto simp: channel_None)
  let ?s = "on_channel t (\<lambda>_. snd (chan_take c)) r"
  have s: "router_wf ?s" "open_ids ?s = open_ids r"
    using on_channel_wf [OF r, of t "\<lambda>_. snd (chan_take c)"] c chan_take_ok by auto
  have a: "authorized r - {t} \<subseteq> open_ids ?s" using s by (auto simp: router_wf_def refs_ok_def)
  have "router_wf (?s\<lparr>authorized := authorized r - {t}\<rparr>)" using s(1) a by (rule fields_wf(8))
  then show ?thesis using s t c fields_wf(7) [of ?s t] fields_wf(7) [of "?s\<lparr>authorized := authorized r - {t}\<rparr>" t]
    by (auto simp: feed_entry_def case_prod_beta Let_def split: option.splits)
qed

lemma next_feed_wf: "router_wf r \<Longrightarrow> router_wf (snd (next_feed r))"
proof (induction r rule: next_feed.induct)
  case (1 r)
  let ?r = "r\<lparr>reading := None, announce := None\<rparr>"
  have r: "router_wf ?r" using fields_wf(1) [OF fields_wf(2) [OF 1(2)]] by simp
  obtain p s where p: "pick ?r = (p, s)" by (cases "pick ?r")
  have s: "router_wf s" using pick_wf [OF r] by (simp add: p)
  have o: "t \<in> open_ids s" if "p = Some t" for t using picked_is_open [of ?r t] that by (simp add: p)
  show ?case
  proof (cases "announcement r")
    case (Some f)
    then show ?thesis using r by (subst next_feed.simps) simp
  next
    case None
    note IH = 1(1) [OF refl refl None p [symmetric]]
    show ?thesis
    proof (cases p)
      case pn: None
      then show ?thesis using fields_wf(3) [OF s] None by (subst next_feed.simps) (simp add: p)
    next
      case (Some t)
      have t: "t \<in> open_ids s" by (rule o) (rule Some)
      note sr = set_reader_wf [OF s t]
      have "router_wf (arm t False False (set_reader t s))" using sr t by (intro arm_wf) simp_all
      with IH [OF Some] have "active s \<noteq> Some t \<Longrightarrow> is_handoff t s \<Longrightarrow>
          router_wf (snd (next_feed (arm t False False (set_reader t s))))" by blast
      then show ?thesis
        using feed_entry_wf [OF s t] feed_entry_wf [OF sr] t None Some
        by (subst next_feed.simps) (simp add: p)
    qed
  qed
qed

section \<open>Opening and closing\<close>

lemma open_channel_wf: "router_wf r \<Longrightarrow> router_wf (snd (open_channel i l t p r))"
proof (cases "channel i r")
  case (Some c)
  assume r: "router_wf r"
  show ?thesis using on_channel_wf(1) [OF r] Some
    by (simp add: open_channel_def chan_ok_def ids_of_def)
next
  case None
  assume r: "router_wf r"
  let ?c = "(new_channel i l t (case p of Some p \<Rightarrow> p | None \<Rightarrow> Latest))\<lparr>ch_muted := (i \<in> muted_ids r)\<rparr>"
  have "chans_ok (next_entry r) (muted_ids r) (channels r @ [?c])"
    using r None by (intro chans_ok_snoc)
      (auto simp: router_wf_def chan_ok_def ids_of_def new_channel_def channel_None open_ids_def)
  then show ?thesis using r None by (auto simp: open_channel_def router_wf_def refs_ok_def open_ids_def)
qed

lemma label_if_missing_wf: "router_wf r \<Longrightarrow> router_wf (snd (label_if_missing i l r))"
  using on_channel_wf(1) [of r i "\<lambda>c. c\<lparr>ch_label := Some l\<rparr>"]
  by (simp add: label_if_missing_def chan_ok_def ids_of_def split: option.splits)

lemma close_channel_eq:
  assumes "index i r = Some k"
  shows "snd (close_channel i r) = r
    \<lparr>channels := remove_at k (channels r),
     closed_reader_tab := (if last_reader r = Some i then tab_of_closed (channels r ! k) else closed_reader_tab r),
     active := (if active r = Some i then None else active r),
     last_active := (if last_active r = Some i then None else last_active r),
     focused := (if focused r = Some i then None else focused r),
     announce := (if map_option sw_channel (announce r) = Some i then None else announce r),
     reading := (if map_option fst (reading r) = Some i then None else reading r),
     suppressed := (suppressed r)(i := None), priority := filter (\<lambda>p. p \<noteq> i) (priority r),
     authorized := authorized r - {i},
     hold := (if map_option fst (hold r) = Some i then None else hold r)\<rparr>"
  by (simp add: close_channel_def assms end_hold_def)

lemma dom_less: "dom m \<subseteq> S \<Longrightarrow> dom (m(i := None)) \<subseteq> S - {i}"
  by auto

lemma filter_less: "set xs \<subseteq> S \<Longrightarrow> set (filter (\<lambda>p. p \<noteq> i) xs) \<subseteq> S - {i}"
  by auto

lemma set_option_unless: "set_option (if x = Some i then None else x) = set_option x - {i}"
  by (cases x) auto

lemma image_option_unless: "f ` set_option (if map_option f x = Some i then None else x) = f ` set_option x - {i}"
  by (cases x) auto

lemma close_channel_wf:
  assumes "router_wf r" shows "router_wf (snd (close_channel i r))"
proof (cases "index i r")
  case None
  then show ?thesis using assms by (simp add: close_channel_def)
next
  case (Some k)
  then have k: "k < length (channels r)" "ch_id (channels r ! k) = i"
    using position_Some [of "\<lambda>c. ch_id c = i" "channels r" k] by (auto simp: index_def)
  define pre post c where "pre = take k (channels r)" "post = drop (k + 1) (channels r)" "c = channels r ! k"
  have s: "channels r = pre @ c # post" using k(1) by (simp add: pre_post_c_def id_take_nth_drop)
  have rm: "remove_at k (channels r) = pre @ post" by (simp add: remove_at_def pre_post_c_def)
  have "distinct (map ch_id (pre @ c # post))" using assms by (simp add: router_wf_def chans_ok_def s)
  moreover have "ch_id c = i" using k(2) by (simp add: pre_post_c_def)
  ultimately have "i \<notin> ch_id ` set (pre @ post)" "open_ids r = insert i (ch_id ` set (pre @ post))"
    by (auto simp: open_ids_def s image_Un)
  then have ids: "ch_id ` set (pre @ post) = open_ids r - {i}" by blast
  have ch: "chans_ok (next_entry r) (muted_ids r) (pre @ post)"
    using assms chans_ok_remove [of "next_entry r" "muted_ids r" pre c post] by (simp add: router_wf_def s)
  define R where "R = snd (close_channel i r)"
  have R: "channels R = pre @ post" "next_entry R = next_entry r" "muted_ids R = muted_ids r"
    "last_reader R = last_reader r" "suppressed R = (suppressed r)(i := None)"
    "priority R = filter (\<lambda>p. p \<noteq> i) (priority r)" "authorized R = authorized r - {i}"
    "set_option (active R) = set_option (active r) - {i}"
    "set_option (last_active R) = set_option (last_active r) - {i}"
    "set_option (focused R) = set_option (focused r) - {i}"
    "sw_channel ` set_option (announce R) = sw_channel ` set_option (announce r) - {i}"
    "fst ` set_option (reading R) = fst ` set_option (reading r) - {i}"
    "fst ` set_option (hold R) = fst ` set_option (hold r) - {i}"
    "snd ` set_option (hold R) \<subseteq> snd ` set_option (hold r)"
    by (simp_all add: R_def close_channel_eq [OF Some] rm set_option_unless image_option_unless
        del: map_option_eq_Some)
  have o: "open_ids R = open_ids r - {i}" using ids by (simp add: open_ids_def R)
  have "refs_ok (open_ids r) r" using assms by (simp add: router_wf_def)
  then have "refs_ok (open_ids r - {i}) R"
    unfolding refs_ok_def R(1-13)
    by (elim conjE, intro conjI)
      (assumption | rule Diff_mono [OF _ order_refl] order_trans [OF Diff_subset] order_trans [OF R(14)] |
        erule dom_less filter_less distinct_filter)+
  then show ?thesis using ch by (simp add: router_wf_def o R(1-3) flip: R_def)
qed

section \<open>The gates\<close>

lemma focus_wf: "router_wf r \<Longrightarrow> router_wf (snd (focus i r))"
proof -
  assume r: "router_wf r"
  have a: "router_wf (r\<lparr>authorized := insert j (authorized r)\<rparr>)" if "focused r = Some j" for j
    using r that by (intro fields_wf(8)) (auto simp: router_wf_def refs_ok_def)
  show ?thesis using r a fields_wf(6) [of _ i]
    by (auto simp: focus_def index_None Let_def split: option.splits)
qed

lemma set_muted_wf: "router_wf r \<Longrightarrow> router_wf (set_muted i m r)"
proof -
  assume r: "router_wf r"
  let ?M = "if m then insert i (muted_ids r) else muted_ids r - {i}"
  let ?s = "on_channel i (\<lambda>c. c\<lparr>ch_muted := m\<rparr>) (r\<lparr>muted_ids := ?M\<rparr>)"
  have upd: "distinct (map ch_id cs) \<Longrightarrow>
      upd_first (\<lambda>c. ch_id c = i) (\<lambda>c. c\<lparr>ch_muted := m\<rparr>) cs =
      map (\<lambda>c. if ch_id c = i then c\<lparr>ch_muted := m\<rparr> else c) cs" for cs
    by (induction cs) (auto intro!: map_idI [symmetric] simp: image_iff)
  then have c: "channels ?s = map (\<lambda>c. if ch_id c = i then c\<lparr>ch_muted := m\<rparr> else c) (channels r)"
    using r upd [of "channels r"] by (simp add: on_channel_def router_wf_def chans_ok_def)
  define g :: "channel \<Rightarrow> channel" where "g = (\<lambda>c. if ch_id c = i then c\<lparr>ch_muted := m\<rparr> else c)"
  have g: "ch_id (g c) = ch_id c" "ids_of (g c) = ids_of c" "chan_ok n (g c) = chan_ok n c"
    "ch_muted (g c) = (if ch_id c = i then m else ch_muted c)" for c n
    by (simp_all add: g_def chan_ok_def ids_of_def)
  have c: "channels ?s = map g (channels r)" by (simp add: c g_def)
  have "open_ids ?s = open_ids r" by (simp add: open_ids_def c image_image g(1))
  moreover have "chans_ok (next_entry r) ?M (map g (channels r))"
    using r by (simp add: chans_ok_def router_wf_def g comp_def)
  ultimately have "router_wf ?s" using r by (simp add: router_wf_def refs_ok_def c)
  then show ?thesis using end_hold_wf(1) [of ?s "Some i"] by (cases m) (simp_all add: set_muted_def Let_def)
qed

lemma authorize_wf: "router_wf r \<Longrightarrow> router_wf (snd (authorize i r))"
  by (auto simp: authorize_def index_None router_wf_def refs_ok_def open_ids_def)

lemma is_suppressed_wf: "router_wf r \<Longrightarrow> router_wf (snd (is_suppressed i r))"
  using lifted_wf is_suppressed_lifted by blast

lemma prioritize_wf: "router_wf r \<Longrightarrow> router_wf (snd (prioritize i r))"
  by (auto simp: prioritize_def index_None router_wf_def refs_ok_def open_ids_def)

section \<open>Pushing\<close>

lemma push_with_wf:
  assumes "router_wf r"
  shows "router_wf (snd (push_with i t l rep front r))"
    "fst (push_with i t l rep front r) = Some e \<Longrightarrow>
       \<exists>c. channel i (snd (push_with i t l rep front r)) = Some c \<and> e \<in> set (ids_of c)"
proof -
  define e' where "e' = \<lparr>entry_id = next_entry r + 1, entry_text = t, entry_label = l\<rparr>"
  define rd where "rd = (map_option fst (reading r) = Some i)"
  let ?f = "chan_push e' rep front rd"
  have push: "push_with i t l rep front r =
      (case channel i r of None \<Rightarrow> (None, r)
       | Some _ \<Rightarrow> (Some (next_entry r + 1), (on_channel i ?f r)\<lparr>next_entry := next_entry r + 1\<rparr>))"
    unfolding push_with_def Let_def e'_def rd_def ..
  have id: "entry_id e' = next_entry r + 1" by (simp add: e'_def)
  have "router_wf (snd (push_with i t l rep front r)) \<and>
    (fst (push_with i t l rep front r) = Some e \<longrightarrow>
       (\<exists>c. channel i (snd (push_with i t l rep front r)) = Some c \<and> e \<in> set (ids_of c)))"
  proof (cases "channel i r")
    case None
    then show ?thesis using assms by (simp add: push)
  next
    case (Some c)
    obtain pre post where s: "channels r = pre @ c # post" "channels (on_channel i ?f r) = pre @ ?f c # post"
      using channel_split [OF Some] by metis
    have "chan_ok (next_entry r) c" using assms by (simp add: router_wf_def chans_ok_def s)
    note p = chan_push_ok [OF this id, of rep front rd]
    have p: "chan_ok (next_entry r + 1) (?f c)" "ch_id (?f c) = ch_id c" "ch_muted (?f c) = ch_muted c"
      "set (ids_of (?f c)) \<subseteq> insert (next_entry r + 1) (set (ids_of c))"
      "next_entry r + 1 \<in> set (ids_of (?f c))" using p by simp_all
    have "chans_ok (next_entry r + 1) (muted_ids r) (pre @ ?f c # post)"
    proof (rule chans_ok_change [where n = "next_entry r" and c = c])
      show "chans_ok (next_entry r) (muted_ids r) (pre @ c # post)" using assms by (simp add: router_wf_def s)
    qed (use p in auto)
    moreover have "open_ids (on_channel i ?f r) = open_ids r" using p(2) by (simp add: open_ids_def s)
    moreover have "ch_id (?f c) = i" using p(2) channel_in [OF Some] by simp
    note ch = channel_on_same [OF Some, where f = ?f, OF this]
    ultimately show ?thesis using assms p(5) Some s(2) ch
      by (auto simp: push router_wf_def refs_ok_def channel_def)
  qed
  then show "router_wf (snd (push_with i t l rep front r))"
    "fst (push_with i t l rep front r) = Some e \<Longrightarrow>
       \<exists>c. channel i (snd (push_with i t l rep front r)) = Some c \<and> e \<in> set (ids_of c)" by blast+
qed

lemma push_wf: "router_wf r \<Longrightarrow> router_wf (snd (push i t l r))"
  by (simp add: push_def push_with_wf split: option.splits)

lemma append_wf:
  assumes "router_wf r" shows "router_wf (snd (append i t d h r))"
proof (cases "channel i r")
  case None
  then show ?thesis using assms by (simp add: append_def)
next
  case (Some c)
  obtain e s where p: "push_with i t None False False r = (e, s)" by (cases "push_with i t None False False r")
  have s: "router_wf s" using push_with_wf(1) [OF assms, of i t None False False] by (simp add: p)
  show ?thesis
  proof (cases e)
    case None
    then show ?thesis using s Some by (simp add: append_def p)
  next
    case e: (Some n)
    then have "router_wf (on_channel i (mark_agent n d h u) s)" for u
      using push_with_wf(2) [OF assms, of i t None False False n] p
      by (intro on_channel_wf(1) [OF s]) (auto simp: mark_agent_ok)
    then show ?thesis using Some e by (simp add: append_def p Let_def)
  qed
qed

lemma drop_decisions_wf: "router_wf r \<Longrightarrow> router_wf (snd (drop_decisions i w r))"
  using on_channel_wf(1) [of r i "\<lambda>c. snd (chan_drop_decisions w c)"] drop_from_ok
  by (simp add: drop_decisions_def chan_drop_decisions_def split: option.splits)

lemma end_batch_wf: "router_wf r \<Longrightarrow> router_wf (end_batch i r)"
  using on_channel_wf(1) [of r i "\<lambda>c. c\<lparr>growing := False\<rparr>"]
  by (simp add: end_batch_def chan_ok_def ids_of_def)

section \<open>Moving the floor\<close>

lemma find_in: "List.find P xs = Some x \<Longrightarrow> x \<in> set xs"
  using find_split [of P xs x] by auto

lemma ids_where_open: "i \<in> set (ids_where P r ids) \<Longrightarrow> i \<in> open_ids r"
  by (auto simp: ids_where_def dest: channel_open split: option.splits)

lemma ring_of_open:
  assumes "channels r \<noteq> []" shows "ring_of r \<noteq> []" "set (ring_of r) \<subseteq> open_ids r"
proof -
  have "set (map ch_id (channels r)) \<subseteq> open_ids r" by (auto simp: open_ids_def)
  then show "ring_of r \<noteq> []" "set (ring_of r) \<subseteq> open_ids r"
    using assms ids_where_open by (auto simp: ring_of_def Let_def split: if_splits)
qed

lemma ring_target_in: "ring \<noteq> [] \<Longrightarrow> ring_target all ring cur \<in> set ring"
proof -
  assume r: "ring \<noteq> []"
  then have n: "ring ! (k mod length ring) \<in> set ring" for k by simp
  have z: "ring ! 0 \<in> set ring" using r by simp
  have f: "c \<in> set ring" if "List.find (\<lambda>c. c \<in> set ring) xs = Some c" for c xs
    using find_split [OF that] by auto
  show ?thesis using n z f by (auto simp: ring_target_def split: option.splits)
qed

lemma ring_target_open: "channels r \<noteq> [] \<Longrightarrow> ring_target all (ring_of r) cur \<in> open_ids r"
  using ring_target_in [of "ring_of r" all cur] ring_of_open [of r] by blast

lemma next_channel_wf:
  assumes "router_wf r" shows "router_wf (snd (next_channel r))"
proof (cases "channels r = []")
  case True
  then show ?thesis using assms by (simp add: next_channel_def Let_def)
next
  case False
  define t where "t = ring_target (map ch_id (channels r)) (ring_of r)
      (case active r of Some a \<Rightarrow> Some a | None \<Rightarrow> last_active r)"
  have t: "t \<in> open_ids r" using ring_target_open [OF False] by (simp add: t_def)
  define s where "s = (case active r of
                      None \<Rightarrow> r
                    | Some old \<Rightarrow>
                        if old \<noteq> t then
                          (case channel old r of
                             None \<Rightarrow> r
                           | Some c \<Rightarrow> r\<lparr>suppressed := (suppressed r)(old \<mapsto> ch_gen c)\<rparr>)
                        else r)"
  have "router_wf s \<and> open_ids s = open_ids r"
    using assms fields_wf(10) [OF assms]
    by (auto simp: s_def dest: channel_open split: option.splits)
  then have s: "router_wf (s\<lparr>suppressed := (suppressed s)(t := None)\<rparr>)"
    "open_ids (s\<lparr>suppressed := (suppressed s)(t := None)\<rparr>) = open_ids r"
    using fields_wf(9) [of s t] by auto
  define u where "u = s\<lparr>suppressed := (suppressed s)(t := None)\<rparr>"
  have u: "router_wf u" "t \<in> open_ids u" using s t by (simp_all add: u_def)
  have on: "router_wf (on_channel t (\<lambda>c. c\<lparr>cursor := 0, replaying := True\<rparr>) u)"
    "open_ids (on_channel t (\<lambda>c. c\<lparr>cursor := 0, replaying := True\<rparr>) u) = open_ids u"
    using on_channel_wf [OF u(1), of t "\<lambda>c. c\<lparr>cursor := 0, replaying := True\<rparr>"]
    by (simp_all add: chan_ok_def ids_of_def)
  have fin: "router_wf (end_hold None (arm t b True (set_reader t v)))"
    "t \<in> open_ids (end_hold None (arm t b True (set_reader t v)))"
    if "router_wf v" "open_ids v = open_ids u" for v b
  proof -
    have a: "router_wf (arm t b True (set_reader t v))" using that u by (intro arm_wf set_reader_wf) auto
    show "router_wf (end_hold None (arm t b True (set_reader t v)))" using a by (rule end_hold_wf(1))
    show "t \<in> open_ids (end_hold None (arm t b True (set_reader t v)))"
      using end_hold_wf(2) [OF a] that u by simp
  qed
  have "next_channel r = (case channel t u of None \<Rightarrow> (None, u)
    | Some c \<Rightarrow> let replay = (caught_up c \<or> (case active r of Some a \<Rightarrow> Some a | None \<Rightarrow> last_active r) = Some t \<or> replaying c);
                      v = (if replay then on_channel t (\<lambda>c. c\<lparr>cursor := 0, replaying := True\<rparr>) u else u);
                      v = end_hold None (arm t replay True (set_reader t v));
                      v = (if replay then start_hold t v else v)
                  in (Some (t, replay), v))"
    using False unfolding next_channel_def Let_def t_def [symmetric] s_def [symmetric] u_def [symmetric] by simp
  then show ?thesis
    using u fin [OF on] fin [OF u(1) refl] start_hold_wf [OF fin(1) [OF on] fin(2) [OF on]]
    by (auto simp: Let_def split: option.splits)
qed

lemma take_floor_wf: "router_wf r \<Longrightarrow> router_wf (snd (take_floor i r))"
  by (auto simp: take_floor_def index_None router_wf_def refs_ok_def open_ids_def set_reader_def
      end_hold_def arm_def Let_def split: option.splits)

lemma read_at_wf:
  assumes "router_wf r" shows "router_wf (snd (read_at i e b r))"
proof (cases "channel i r")
  case None
  then show ?thesis using assms by (simp add: read_at_def)
next
  case (Some c)
  let ?at = "case e of None \<Rightarrow> Some 0 | Some e \<Rightarrow> position (\<lambda>x. entry_id x = e) (entries c)"
  show ?thesis
  proof (cases "entries c = [] \<or> ?at = None")
    case True
    then show ?thesis using assms Some
      by (auto simp: read_at_def simp del: position_None split: option.splits)
  next
    case False
    then obtain at where at: "?at = Some at" by auto
    then have le: "at \<le> length (entries c)"
      by (auto dest: position_Some split: option.splits)
    let ?f = "\<lambda>c. c\<lparr>cursor := at, replaying := (if b then True else replaying c)\<rparr>"
    have i: "i \<in> open_ids r" using Some channel_None [of i r] by auto
    have f: "router_wf (on_channel i ?f r)" "open_ids (on_channel i ?f r) = open_ids r"
      using on_channel_wf [OF assms, of i ?f] Some le by (simp_all add: chan_ok_def ids_of_def)
    have sr: "router_wf (set_reader i (on_channel i ?f r))" using f i by (intro set_reader_wf) simp_all
    let ?s = "set_reader i (on_channel i ?f r)"
    let ?t = "?s\<lparr>suppressed := (suppressed ?s)(i := None), authorized := insert i (authorized ?s)\<rparr>"
    have o: "open_ids ?t = open_ids r" using f by simp
    have "router_wf (?s\<lparr>suppressed := (suppressed ?s)(i := None)\<rparr>)" by (rule fields_wf(9)) (rule sr)
    then have t: "router_wf ?t"
      using sr i f by (intro fields_wf(8)) (auto simp: router_wf_def refs_ok_def)
    have h: "router_wf (start_hold i ?t)" using t i o by (intro start_hold_wf) simp_all
    have "i \<in> open_ids (start_hold i ?t)"
      using i o by (simp add: start_hold_def end_hold_def Let_def)
    note a = arm_wf [OF h this]
    have "snd (read_at i e b r) =
        (if is_handoff i (on_channel i ?f r) then arm i b True (start_hold i ?t) else start_hold i ?t)"
      using False unfolding read_at_def Some option.case at Let_def by simp
    then show ?thesis using a h by presburger
  qed
qed

section \<open>Changing a batch\<close>

lemma set_aside_wf: "router_wf r \<Longrightarrow> router_wf (snd (set_aside i e a r))"
proof -
  assume r: "router_wf r"
  have "router_wf (on_channel i (\<lambda>c. c\<lparr>aside := (if a then insert e (aside c) else aside c - {e})\<rparr>) r)"
    if "channel i r = Some c" "has_entry e c" for c
    using that by (intro on_channel_wf(1) [OF r]) (auto simp: chan_ok_def ids_of_def has_entry_def list_ex_iff)
  then show ?thesis using r by (simp add: set_aside_def split: option.splits)
qed

lemma revise_wf: "router_wf r \<Longrightarrow> router_wf (snd (revise i e t r))"
proof -
  assume r: "router_wf r"
  have "router_wf (on_channel i (\<lambda>c. c\<lparr>entries := upd_first (\<lambda>x. entry_id x = e) (\<lambda>x. x\<lparr>entry_text := t\<rparr>) (entries c)\<rparr>) r)"
    by (intro on_channel_wf(1) [OF r]) (simp add: chan_ok_def ids_of_def revise_ids)
  then show ?thesis using r by (simp add: revise_def split: option.splits)
qed

lemma flush_wf: "router_wf r \<Longrightarrow> router_wf (snd (flush i r))"
proof (cases i)
  case None
  assume r: "router_wf r"
  let ?f = "\<lambda>c. snd (skip_to_end c)"
  let ?r = "end_hold None (r\<lparr>announce := None\<rparr>)"
  have e: "router_wf ?r" using end_hold_wf(1) [OF fields_wf(1) [OF r]] .
  have "chans_ok (next_entry ?r) (muted_ids ?r) (map ?f (channels ?r))"
  proof -
    have f: "ids_of (?f c) = ids_of c" "ch_id (?f c) = ch_id c" "ch_muted (?f c) = ch_muted c"
      "chan_ok n c \<Longrightarrow> chan_ok n (?f c)" for c n
      by (simp_all add: skip_to_end_def chan_ok_def ids_of_def)
    show ?thesis using e f(4) by (simp add: router_wf_def chans_ok_def f(1-3) comp_def)
  qed
  moreover have "ch_id ` set (map ?f (channels ?r)) = open_ids ?r"
    by (simp add: open_ids_def skip_to_end_def image_image)
  ultimately show ?thesis using e None by (simp add: flush_def Let_def router_wf_def refs_ok_def open_ids_def)
next
  case (Some j)
  assume r: "router_wf r"
  define q where "q = end_hold (Some j)
    (if map_option sw_channel (announce r) = Some j then r\<lparr>announce := None\<rparr> else r)"
  let ?f = "\<lambda>c. snd (skip_to_end (c\<lparr>growing := False\<rparr>))"
  have e: "router_wf q" using r fields_wf(1) [OF r] by (auto simp: q_def intro: end_hold_wf(1))
  have "router_wf (on_channel j ?f q)"
    by (intro on_channel_wf(1) [OF e]) (simp add: skip_to_end_def chan_ok_def ids_of_def)
  moreover have "snd (flush i r) = (case channel j q of None \<Rightarrow> q | Some c \<Rightarrow> on_channel j ?f q)"
    unfolding flush_def Some option.case Let_def q_def [symmetric] by (simp split: option.split)
  ultimately show ?thesis using e by (simp split: option.split)
qed

lemma rewind_wf: "router_wf r \<Longrightarrow> router_wf (snd (rewind i e r))"
  using on_channel_wf(1) [of r i "\<lambda>c. snd (chan_rewind e c)"] chan_rewind_ok
  by (simp add: rewind_def split: option.splits)

section \<open>Runs\<close>

lemmas call_wf = open_channel_wf label_if_missing_wf close_channel_wf focus_wf set_muted_wf
    fields_wf(5) authorize_wf push_wf push_with_wf(1) append_wf drop_decisions_wf end_batch_wf
    is_suppressed_wf prioritize_wf pick_wf fields_wf(1,2) next_feed_wf next_channel_wf take_floor_wf
    read_at_wf set_aside_wf revise_wf flush_wf rewind_wf

lemma router_step_wf: "router_wf r \<Longrightarrow> router_step r c = (s, out) \<Longrightarrow> router_wf s"
  by (cases c)
    (auto simp: set_focus_only_def clear_announce_def feed_done_def replay_from_def step_to_def has_work_def
      case_prod_beta intro: call_wf)

interpretation rt: machine router_step "\<lambda>r _. router_wf r"
  by unfold_locales (rule router_step_wf)

definition router_after :: "call list \<Rightarrow> router" where
  "router_after cs = fst (run_machine router_step new_router cs)"

lemma router_after_wf: "router_wf (router_after cs)"
  using rt.run_inv_from_start [OF new_router_wf, of cs] by (simp add: router_after_def)

end
