(* ===== verification/Router_Props.thy ===== *)
theory Router_Props imports Router_Wf begin

text \<open>
  The functional behaviour of the router: what a feed reads and announces, that feeding ends with
  everything read, what a push leaves unread, which decisions leave a batch, and the ring of
  \<open>next_channel\<close>.
\<close>

section \<open>Taking an entry\<close>

lemma unread_drop: "cursor c \<le> length (entries c) \<Longrightarrow>
    unread c = filter (\<lambda>e. entry_id e \<notin> aside c) (drop (cursor c) (entries c))"
  by (simp add: unread_def min_def)

lemma pass_aside_unread:
  assumes "cursor c \<le> length (entries c)"
  shows "unread (pass_aside c) = unread c \<and>
    (case get (entries c) (cursor (pass_aside c)) of None \<Rightarrow> True | Some e \<Rightarrow> entry_id e \<notin> aside c)"
  using assms
proof (induction c rule: pass_aside.induct)
  case (1 c)
  show ?case
  proof (cases "get (entries c) (cursor c)")
    case None
    then show ?thesis by (subst (1 2) pass_aside.simps) simp
  next
    case (Some e)
    then have lt: "cursor c < length (entries c)" "entries c ! cursor c = e" by (auto simp: get_def split: if_splits)
    show ?thesis
    proof (cases "entry_id e \<in> aside c")
      case True
      let ?d = "c\<lparr>cursor := cursor c + 1\<rparr>"
      have "pass_aside c = pass_aside ?d" using Some True by (subst pass_aside.simps) simp
      moreover have "unread ?d = unread c"
        using lt True by (simp add: unread_drop Suc_le_eq Cons_nth_drop_Suc [symmetric])
      ultimately show ?thesis using 1(1) [OF Some True] lt by (simp add: Suc_le_eq cong: option.case_cong)
    next
      case False
      then have "pass_aside c = c" using Some by (subst pass_aside.simps) simp
      then show ?thesis using Some False by simp
    qed
  qed
qed

lemma chan_take_unread:
  assumes "cursor c \<le> length (entries c)"
  shows "fst (chan_take c) = Some e \<Longrightarrow> unread c = e # unread (snd (chan_take c))"
    and "fst (chan_take c) = Some e \<Longrightarrow> 0 < cursor (snd (chan_take c)) \<and>
      entries c ! (cursor (snd (chan_take c)) - 1) = e \<and> cursor (snd (chan_take c)) \<le> length (entries c) \<and>
      entry_id e \<notin> aside c"
    and "fst (chan_take c) = None \<longleftrightarrow> unread c = []"
proof -
  let ?d = "pass_aside c"
  have d: "entries ?d = entries c" "aside ?d = aside c" "cursor ?d \<le> length (entries c)"
    using pass_aside_le [OF assms] by simp_all
  note u = pass_aside_unread [OF assms]
  have ud: "unread ?d = filter (\<lambda>e. entry_id e \<notin> aside c) (drop (cursor ?d) (entries c))"
    using unread_drop [of ?d] d by simp
  have "(fst (chan_take c) = Some e \<longrightarrow> unread c = e # unread (snd (chan_take c)) \<and>
      0 < cursor (snd (chan_take c)) \<and> entries c ! (cursor (snd (chan_take c)) - 1) = e \<and>
      cursor (snd (chan_take c)) \<le> length (entries c) \<and> entry_id e \<notin> aside c) \<and>
    (fst (chan_take c) = None \<longleftrightarrow> unread c = [])"
  proof (cases "get (entries c) (cursor ?d)")
    case None
    then have "length (entries c) \<le> cursor ?d" by (simp add: get_def split: if_splits)
    then show ?thesis using None u ud by (simp add: chan_take_def)
  next
    case (Some x)
    then have lt: "cursor ?d < length (entries c)" "entries c ! cursor ?d = x"
      by (auto simp: get_def split: if_splits)
    have x: "entry_id x \<notin> aside c" using u Some by simp
    let ?t = "?d\<lparr>cursor := cursor ?d + 1\<rparr>"
    have t: "chan_take c = (Some x, ?t)" using Some by (simp add: chan_take_def Let_def)
    have "unread ?t = filter (\<lambda>e. entry_id e \<notin> aside c) (drop (cursor ?d + 1) (entries c))"
      using unread_drop [of ?t] lt d by (simp add: Suc_le_eq)
    then have "unread c = x # unread ?t"
      using u ud lt x by (simp add: Cons_nth_drop_Suc [symmetric])
    then show ?thesis using t lt x by (auto simp: Suc_le_eq)
  qed
  then show "fst (chan_take c) = Some e \<Longrightarrow> unread c = e # unread (snd (chan_take c))"
    and "fst (chan_take c) = Some e \<Longrightarrow> 0 < cursor (snd (chan_take c)) \<and>
      entries c ! (cursor (snd (chan_take c)) - 1) = e \<and> cursor (snd (chan_take c)) \<le> length (entries c) \<and>
      entry_id e \<notin> aside c"
    and "fst (chan_take c) = None \<longleftrightarrow> unread c = []" by blast+
qed

section \<open>One feed\<close>

lemma on_channel_guard: "on_channel i f r = on_channel i (\<lambda>d. if ch_id d = i then f d else d) r"
proof -
  have "upd_first (\<lambda>c. ch_id c = i) f cs = upd_first (\<lambda>c. ch_id c = i) (\<lambda>d. if ch_id d = i then f d else d) cs" for cs
    by (induction cs) auto
  then show ?thesis unfolding on_channel_def by metis
qed

text \<open>What is fed next, as a pure function of the state.\<close>

definition feed_spec :: "router \<Rightarrow> feed option" where
  "feed_spec r =
     (case announcement r of
        Some f \<Rightarrow> Some f
      | None \<Rightarrow>
          (case pick_spec r of
             None \<Rightarrow> None
           | Some t \<Rightarrow>
               (case channel t r of
                  None \<Rightarrow> None
                | Some c \<Rightarrow>
                    if active r \<noteq> Some t \<and> is_handoff t r
                    then Some (Announce t (if no_label c then None else ch_label c) False False)
                    else Some (Entry t (hd (unread c))))))"

lemma is_handoff_cong:
  "channels s = channels r \<Longrightarrow> last_reader s = last_reader r \<Longrightarrow> closed_reader_tab s = closed_reader_tab r \<Longrightarrow>
     is_handoff i s = is_handoff i r"
  by (simp add: is_handoff_def channel_def cong: option.case_cong)

text \<open>What picking leaves of the fields it does not touch.\<close>

definition picked :: "router \<Rightarrow> router \<Rightarrow> bool" where
  "picked r s \<longleftrightarrow>
     s = r\<lparr>suppressed := suppressed s, priority := priority s, hold := hold s, authorized := authorized s\<rparr> \<and>
     (hold s = hold r \<or> hold s = None)"

lemma pick_picked: "picked r (snd (pick r))"
proof -
  have l: "picked r s" if "lifted (prune r\<lparr>hold := h\<rparr>) s" "h = hold r \<or> h = None" for s h
  proof -
    have "s = prune r\<lparr>hold := h, suppressed := suppressed s\<rparr>" using that(1) by (simp add: lifted_def)
    then obtain f where s: "s = prune r\<lparr>hold := h, suppressed := f\<rparr>" by blast
    show ?thesis using that(2) by (simp add: s picked_def prune_def Let_def)
  qed
  have h: "prune r\<lparr>hold := hold r\<rparr> = prune r" by (simp add: prune_def Let_def)
  show ?thesis
    using pick_rest_eq [of "prune r"] pick_rest_eq [of "prune r\<lparr>hold := None\<rparr>"]
      l [of "hold r"] l [of None] lifted_refl [of "prune r"]
    by (auto simp: pick_def Let_def prune_same h split: option.splits prod.splits) 
qed

lemma picked_same:
  assumes "picked r s"
  shows "channels s = channels r" "active s = active r" "last_reader s = last_reader r"
    "last_active s = last_active r" "closed_reader_tab s = closed_reader_tab r" "announce s = announce r"
    "reading s = reading r" "focused s = focused r" "next_entry s = next_entry r" "focus_only s = focus_only r"
proof -
  obtain a b c d where "s = r\<lparr>suppressed := a, priority := b, hold := c, authorized := d\<rparr>"
    using assms unfolding picked_def by blast
  then show "channels s = channels r" "active s = active r" "last_reader s = last_reader r"
    "last_active s = last_active r" "closed_reader_tab s = closed_reader_tab r" "announce s = announce r"
    "reading s = reading r" "focused s = focused r" "next_entry s = next_entry r" "focus_only s = focus_only r"
    by simp_all
qed

text \<open>The three ways \<open>next_feed\<close> goes.\<close>

definition quiet :: "router \<Rightarrow> router" where
  "quiet r = r\<lparr>reading := None, announce := None\<rparr>"

lemma next_feed_cases:
  obtains (armed) f where "announcement r = Some f" "next_feed r = (Some f, quiet r)"
  | (none_left) s where "announcement r = None" "pick (quiet r) = (None, s)"
      "next_feed r = (None, s\<lparr>active := None\<rparr>)"
  | (announced) t s c where "announcement r = None" "pick (quiet r) = (Some t, s)" "channel t r = Some c"
      "active r \<noteq> Some t" "is_handoff t r"
      "next_feed r = (Some (Announce t (if no_label c then None else ch_label c) False False), set_reader t s\<lparr>reading := None, announce := None\<rparr>)"
  | (fed) t s u where "announcement r = None" "pick (quiet r) = (Some t, s)"
      "active r = Some t \<or> \<not> is_handoff t r"
      "u = (if active r = Some t then s else set_reader t s)" "next_feed r = feed_entry t u"
proof -
  obtain p s where p: "pick (quiet r) = (p, s)" by (cases "pick (quiet r)")
  have q: "picked (quiet r) s" using pick_picked [of "quiet r"] by (simp add: p)
  have s: "active s = active r" "channels s = channels r" "\<And>t. is_handoff t s = is_handoff t r"
    using picked_same [OF q] is_handoff_cong [of s r] by (simp_all add: quiet_def)
  have eq: "next_feed r = (case announcement r of
      Some f \<Rightarrow> (Some f, quiet r)
    | None \<Rightarrow>
        (case pick (quiet r) of
           (None, r) \<Rightarrow> (None, r\<lparr>active := None\<rparr>)
         | (Some t, r) \<Rightarrow>
             if active r = Some t then feed_entry t r
             else if is_handoff t r then next_feed (arm t False False (set_reader t r))
             else feed_entry t (set_reader t r)))"
    by (subst next_feed.simps) (simp only: quiet_def Let_def)
  show ?thesis
  proof (cases "announcement r")
    case (Some f)
    then show ?thesis using eq by (intro armed) simp_all
  next
    case None
    show ?thesis
    proof (cases p)
      case pn: None
      then have "next_feed r = (None, s\<lparr>active := None\<rparr>)" "pick (quiet r) = (None, s)"
        using eq None p by simp_all
      then show ?thesis using None none_left by blast
    next
      case (Some t)
      show ?thesis
      proof (cases "active r = Some t \<or> \<not> is_handoff t r")
        case True
        then have "next_feed r = feed_entry t (if active r = Some t then s else set_reader t s)"
          using eq None p Some s by auto
        moreover have "pick (quiet r) = (Some t, s)" using p Some by simp
        ultimately show ?thesis using fed [OF None _ True refl] by blast
      next
        case False
        have "t \<in> open_ids s" using picked_is_open [of "quiet r" t] p Some by simp
        then obtain c where c: "channel t s = Some c" by (cases "channel t s") (auto simp: channel_None)
        then have cr: "channel t r = Some c" using s(2) by (simp add: channel_def)
        have "announcement (arm t False False (set_reader t s)) =
            Some (Announce t (if no_label c then None else ch_label c) False False)"
          using c by (simp add: announcement_def arm_def set_reader_def channel_def)
        then have "next_feed (arm t False False (set_reader t s)) =
            (Some (Announce t (if no_label c then None else ch_label c) False False),
             set_reader t s\<lparr>reading := None, announce := None\<rparr>)"
          by (subst next_feed.simps) (simp add: arm_def)
        then show ?thesis using eq None p Some False s cr by (intro announced) auto
      qed
    qed
  qed
qed

lemma pick_spec_quiet: "pick_spec (quiet r) = pick_spec r"
  by (simp add: pick_spec_def quiet_def holds_def audible_def choosable_def blocked_def gated_def channel_def
      only_if_def cong: option.case_cong)

lemma audible_unread: "audible t r \<Longrightarrow> \<exists>c. channel t r = Some c \<and> unread c \<noteq> [] \<and> \<not> ch_muted c"
  by (simp add: audible_def pending_def split: option.splits)

lemma wf_cursor: "router_wf r \<Longrightarrow> channel i r = Some c \<Longrightarrow> cursor c \<le> length (entries c)"
  using channel_in [of i r c] by (auto simp: router_wf_def chans_ok_def chan_ok_def)

lemma feed_entry_eq:
  assumes "router_wf u" "audible t u"
  obtains c where "channel t u = Some c" "\<not> ch_muted c" "unread c \<noteq> []"
    "fst (feed_entry t u) = Some (Entry t (hd (unread c)))"
    "channel t (snd (feed_entry t u)) = Some (snd (chan_take c))" "fst (chan_take c) = Some (hd (unread c))"
    "\<And>j. j \<noteq> t \<Longrightarrow> channel j (snd (feed_entry t u)) = channel j u"
    "reading (snd (feed_entry t u)) = Some (t, entry_id (hd (unread c)))"
    "active (snd (feed_entry t u)) = active u" "last_reader (snd (feed_entry t u)) = last_reader u"
    "announce (snd (feed_entry t u)) = announce u" "hold (snd (feed_entry t u)) = hold u"
    "suppressed (snd (feed_entry t u)) = suppressed u"
    "channels (snd (feed_entry t u)) = channels (on_channel t (\<lambda>_. snd (chan_take c)) u)"
proof -
  obtain c where c: "channel t u = Some c" "unread c \<noteq> []" "\<not> ch_muted c" using audible_unread [OF assms(2)] by blast
  note cl = wf_cursor [OF assms(1) c(1)]
  obtain e where e: "fst (chan_take c) = Some e" using chan_take_unread(3) [OF cl] c(2) by (cases "fst (chan_take c)") auto
  then have h: "e = hd (unread c)" using chan_take_unread(1) [OF cl e] by simp
  have t: "chan_take c = (Some (hd (unread c)), snd (chan_take c))" using e h by (metis prod.collapse)
  have id: "ch_id (snd (chan_take c)) = t" using channel_in [OF c(1)] by simp
  let ?s = "on_channel t (\<lambda>_. snd (chan_take c)) u"
  have fe: "feed_entry t u = (Some (Entry t (hd (unread c))),
      (if pending (snd (chan_take c)) = 0 then ?s\<lparr>authorized := authorized ?s - {t}\<rparr> else ?s)
        \<lparr>reading := Some (t, entry_id (hd (unread c)))\<rparr>)"
  proof -
    obtain c' where c': "chan_take c = (Some (hd (unread c)), c')" using t by blast
    show ?thesis using c(1) by (simp add: feed_entry_def c' Let_def)
  qed
  have ch: "channels (snd (feed_entry t u)) = channels ?s" by (simp add: fe)
  have "channel t (snd (feed_entry t u)) = Some (snd (chan_take c))"
    using channel_on_same [OF c(1), of "\<lambda>_. snd (chan_take c)"] id ch by (simp add: channel_def)
  moreover have "channel j (snd (feed_entry t u)) = channel j u" if "j \<noteq> t" for j
  proof -
    have "?s = on_channel t (\<lambda>d. if ch_id d = t then snd (chan_take c) else d) u"
      by (rule on_channel_guard)
    then have "channel j ?s = channel j u"
      using channel_on_other [of t j "\<lambda>d. if ch_id d = t then snd (chan_take c) else d" u] that id by auto
    then show ?thesis using ch by (simp add: channel_def)
  qed
  ultimately show ?thesis using that [OF c(1) c(3) c(2)] e h ch by (simp add: fe)
qed

lemma announcement_is: "announcement r = Some f \<Longrightarrow> \<exists>i l a b. f = Announce i l a b"
  by (auto simp: announcement_def split: option.splits)

text \<open>The router an entry is taken from.\<close>

lemma fed_from:
  assumes "router_wf r" "pick (quiet r) = (Some t, s)" "u = (if active r = Some t then s else set_reader t s)"
  shows "router_wf u" "audible t u" "channels u = channels r" "active u = Some t"
    "last_reader u = (if active r = Some t then last_reader r else Some t)" "announce u = None"
    "picked (quiet r) s"
proof -
  have q: "router_wf (quiet r)" using fields_wf(1) [OF fields_wf(2) [OF assms(1)]] by (simp add: quiet_def)
  have w: "router_wf s" using pick_wf [OF q] by (simp add: assms(2))
  show p: "picked (quiet r) s" using pick_picked [of "quiet r"] by (simp add: assms(2))
  have t: "t \<in> open_ids s" using picked_is_open [of "quiet r" t] by (simp add: assms(2))
  show "router_wf u" using w set_reader_wf [OF w t] by (simp add: assms(3))
  show ch: "channels u = channels r" using picked_same(1) [OF p] by (simp add: assms(3) set_reader_def quiet_def)
  have "audible t (quiet r)" using pick_frame(2) [of "quiet r" t] by (simp add: assms(2))
  then show "audible t u" using ch by (simp add: audible_def channel_def quiet_def)
  show "active u = Some t" "last_reader u = (if active r = Some t then last_reader r else Some t)" "announce u = None"
    using picked_same(2,3,6) [OF p] by (simp_all add: assms(3) set_reader_def quiet_def)
qed

lemma next_feed_fst: "router_wf r \<Longrightarrow> fst (next_feed r) = feed_spec r"
proof (cases r rule: next_feed_cases)
  case (armed f)
  then show ?thesis by (simp add: feed_spec_def)
next
  case (none_left s)
  then have "pick_spec r = None" using pick_eq [of "quiet r"] by (simp add: pick_spec_quiet)
  then show ?thesis using none_left by (simp add: feed_spec_def)
next
  case (announced t s c)
  then have "pick_spec r = Some t" using pick_eq [of "quiet r"] by (simp add: pick_spec_quiet)
  then show ?thesis using announced by (simp add: feed_spec_def)
next
  case (fed t s u)
  assume w: "router_wf r"
  note u = fed_from [OF w fed(2,4)]
  obtain c where c: "channel t u = Some c" "fst (feed_entry t u) = Some (Entry t (hd (unread c)))"
    using feed_entry_eq [OF u(1,2)] by metis
  have "channel t r = Some c" using c(1) u(3) by (simp add: channel_def)
  moreover have "pick_spec r = Some t" using pick_eq [of "quiet r"] fed by (simp add: pick_spec_quiet)
  ultimately show ?thesis using fed c by (auto simp: feed_spec_def)
qed

lemma next_feed_entry:
  assumes w: "router_wf r" and n: "next_feed r = (Some (Entry i e), s)"
  obtains c where "channel i r = Some c" "\<not> ch_muted c" "unread c = e # unread (snd (chan_take c))"
    "channel i s = Some (snd (chan_take c))" "fst (chan_take c) = Some e"
    "\<And>j. j \<noteq> i \<Longrightarrow> channel j s = channel j r" "reading s = Some (i, entry_id e)" "active s = Some i"
    "active r = Some i \<or> \<not> is_handoff i r" "announce s = None" "announcement r = None"
    "channels s = channels (on_channel i (\<lambda>_. snd (chan_take c)) r)" "pick_spec r = Some i"
proof (cases r rule: next_feed_cases)
  case (armed f)
  then show ?thesis using n announcement_is [of r f] by auto
next
  case (none_left s)
  then show ?thesis using n by simp
next
  case (announced t s c)
  then show ?thesis using n by simp
next
  case (fed t s' u)
  note u = fed_from [OF w fed(2,4)]
  obtain c where c: "channel t u = Some c" "\<not> ch_muted c" "unread c \<noteq> []"
    "fst (feed_entry t u) = Some (Entry t (hd (unread c)))"
    "channel t (snd (feed_entry t u)) = Some (snd (chan_take c))" "fst (chan_take c) = Some (hd (unread c))"
    "\<And>j. j \<noteq> t \<Longrightarrow> channel j (snd (feed_entry t u)) = channel j u"
    "reading (snd (feed_entry t u)) = Some (t, entry_id (hd (unread c)))"
    "active (snd (feed_entry t u)) = active u" "announce (snd (feed_entry t u)) = announce u"
    "channels (snd (feed_entry t u)) = channels (on_channel t (\<lambda>_. snd (chan_take c)) u)"
    using feed_entry_eq [OF u(1,2)] by metis
  have f: "feed_entry t u = (Some (Entry i e), s)" using n fed by simp
  have t: "t = i" "e = hd (unread c)" using c(4) by (simp_all add: f)
  have cr: "channel j u = channel j r" for j using u(3) by (simp add: channel_def)
  have "unread c = e # unread (snd (chan_take c))"
    using chan_take_unread(1) [OF wf_cursor [OF u(1) c(1)] c(6)] t by simp
  moreover have "channels s = channels (on_channel i (\<lambda>_. snd (chan_take c)) r)"
    using c(11) u(3) t f by (simp add: on_channel_def)
  moreover have "pick_spec r = Some i" using pick_eq [of "quiet r"] fed t by (simp add: pick_spec_quiet)
  ultimately show ?thesis using that [of c] c [unfolded f fst_conv snd_conv] u(4,6) t cr fed(1,3) by simp
qed

section \<open>Reading everything\<close>

text \<open>\<open>drain n\<close> asks for a feed until nothing is left, at most \<open>n\<close> times.\<close>

fun drain :: "nat \<Rightarrow> router \<Rightarrow> router \<times> feed list" where
  "drain 0 r = (r, [])"
| "drain (Suc n) r =
     (case next_feed r of
        (None, s) \<Rightarrow> (s, [])
      | (Some f, s) \<Rightarrow> (let (t, fs) = drain n s in (t, f # fs)))"

fun fed_of :: "cid \<Rightarrow> feed list \<Rightarrow> entry list" where
  "fed_of i [] = []"
| "fed_of i (Announce _ _ _ _ # fs) = fed_of i fs"
| "fed_of i (Entry j e # fs) = (if i = j then e # fed_of i fs else fed_of i fs)"

definition unread_of :: "cid \<Rightarrow> router \<Rightarrow> entry list" where
  "unread_of i r = (case channel i r of None \<Rightarrow> [] | Some c \<Rightarrow> unread c)"

definition work :: "router \<Rightarrow> nat" where
  "work r = 2 * total_pending r + (if announcement r \<noteq> None then 1 else 0) +
     (if pick_spec r \<noteq> None \<and> pick_spec r \<noteq> active r then 1 else 0)"

lemma total_pending_split:
  "channels r = pre @ c # post \<Longrightarrow> total_pending r = total_pending (r\<lparr>channels := pre @ post\<rparr>) + pending c"
  by (simp add: total_pending_def)

lemma total_pending_on:
  assumes "channel i r = Some c" "channels s = channels (on_channel i (\<lambda>_. d) r)" "Suc (pending d) = pending c"
  shows "total_pending r = Suc (total_pending s)"
proof -
  obtain pre post where "channels r = pre @ c # post" "\<And>f. channels (on_channel i f r) = pre @ f c # post"
    using channel_split [OF assms(1)] by metis
  then show ?thesis using assms(2,3) by (simp add: total_pending_def)
qed

lemma announcement_None [simp]: "announce r = None \<Longrightarrow> announcement r = None"
  by (simp add: announcement_def)

lemma pick_spec_announce: "pick_spec (r\<lparr>announce := a\<rparr>) = pick_spec r" "pick_spec (r\<lparr>reading := b\<rparr>) = pick_spec r"
  by (simp_all add: pick_spec_def holds_def audible_def choosable_def blocked_def gated_def channel_def
      only_if_def cong: option.case_cong)

text \<open>After the announcement of a switch, the channel announced is the one picked.\<close>

lemma pick_after_switch:
  assumes "pick r = (Some t, s)"
  shows "pick_spec (set_reader t s) = Some t"
proof -
  have a: "audible t r" using pick_frame(2) [of r t] assms by simp
  have p: "picked r s" using pick_picked [of r] assms by simp
  have au: "audible i (set_reader t s) = audible i r" for i
    using picked_same(1) [OF p] by (simp add: audible_def channel_def set_reader_def)
  have hs: "holds i m (set_reader t s) = holds i m r" for i m
    using picked_same(1) [OF p] by (simp add: holds_def audible_def channel_def set_reader_def)
  show ?thesis
  proof (cases "hold (set_reader t s)")
    case None
    then show ?thesis using a by (simp add: pick_spec_def only_if_def au) (simp add: set_reader_def)
  next
    case (Some hm)
    obtain h m where hm: "hm = (h, m)" by (cases hm)
    have "hold r = Some (h, m)" using p Some by (auto simp: picked_def hm set_reader_def)
    moreover have "pick_spec r = Some t" using pick_eq [of r] assms by simp
    ultimately have "\<not> holds h m r \<or> t = h" by (auto simp: pick_spec_def)
    then show ?thesis using a Some hs
      by (auto simp: pick_spec_def only_if_def au hm) (simp add: set_reader_def)+
  qed
qed

lemma next_feed_work:
  assumes w: "router_wf r" and n: "next_feed r = (Some f, s)"
  shows "work s < work r \<and> unread_of i r = fed_of i [f] @ unread_of i s"
proof (cases r rule: next_feed_cases)
  case (armed g)
  then have s: "s = quiet r" using n by simp
  have "pick_spec s = pick_spec r" by (simp add: s pick_spec_quiet)
  moreover obtain a b c d where "f = Announce a b c d" using armed n announcement_is [of r g] by auto
  ultimately show ?thesis using armed
    by (simp add: work_def s) (simp add: quiet_def total_pending_def unread_of_def channel_def)
next
  case (none_left t)
  then show ?thesis using n by simp
next
  case (announced t u c)
  have s: "s = set_reader t u\<lparr>reading := None, announce := None\<rparr>" using n announced by simp
  have p: "picked (quiet r) u" using pick_picked [of "quiet r"] announced by simp
  have ps: "pick_spec r = Some t" using pick_eq [of "quiet r"] announced by (simp add: pick_spec_quiet)
  have "pick_spec s = Some t" using pick_after_switch [OF announced(2)] by (simp add: s pick_spec_announce)
  moreover have "active s = Some t" "announcement s = None" "channels s = channels r"
    using picked_same(1) [OF p] by (simp_all add: s set_reader_def quiet_def)
  ultimately show ?thesis using ps announced n
    by (auto simp: work_def total_pending_def unread_of_def channel_def)
next
  case (fed t s' u)
  obtain e where f: "f = Entry t e"
  proof -
    note u = fed_from [OF w fed(2,4)]
    show ?thesis using feed_entry_eq [OF u(1,2)] fed n that by (metis fst_conv option.inject)
  qed
  obtain c where c: "channel t r = Some c" "unread c = e # unread (snd (chan_take c))"
    "channel t s = Some (snd (chan_take c))" "\<And>j. j \<noteq> t \<Longrightarrow> channel j s = channel j r"
    "announce s = None" "announcement r = None" "channels s = channels (on_channel t (\<lambda>_. snd (chan_take c)) r)"
    using next_feed_entry [OF w n [unfolded f]] by metis
  have "total_pending r = Suc (total_pending s)"
    using total_pending_on [OF c(1) c(7)] c(2) by (simp add: pending_def)
  then show ?thesis using c by (cases "i = t") (auto simp: work_def unread_of_def f)
qed

text \<open>When nothing is picked no channel has an entry that could be read.\<close>

lemma none_picked: "pick_spec r = None \<Longrightarrow> \<not> choosable i r"
proof
  assume p: "pick_spec r = None" and a: "choosable i r"
  then have "audible i r" by (simp add: choosable_def)
  then have "i \<in> set (map ch_id (channels r))" using audible_unread channel_in [of i r] by force
  then have "List.find (\<lambda>i. choosable i r) (map ch_id (channels r)) \<noteq> None" using a by (auto simp: find_None_iff)
  moreover have fo: "first_of [a, b, c, d, x] = None \<Longrightarrow> x = None" for a b c d and x :: "cid option"
    by (cases a; cases b; cases c; cases d) auto
  ultimately show False using fo [OF p [unfolded pick_spec_def]] by blast
qed

lemma choosable_pick: "choosable i (snd (pick r)) = choosable i r"
proof -
  have l: "choosable i (snd (pick_rest q)) = choosable i q" for q
    using pick_rest_eq [of q] choosable_lifted by blast
  show ?thesis by (auto simp: pick_def Let_def l prune_same hold_same split: option.split)
qed

lemma choosable_cong:
  "channels s = channels r \<Longrightarrow> suppressed s = suppressed r \<Longrightarrow> focus_only s = focus_only r \<Longrightarrow> focused s = focused r \<Longrightarrow>
     authorized s = authorized r \<Longrightarrow> choosable i s = choosable i r"
  by (simp add: choosable_def audible_def blocked_def gated_def channel_def cong: option.case_cong)

lemma next_feed_none:
  assumes "router_wf r" "next_feed r = (None, s)"
  shows "channels s = channels r \<and> (\<forall>i. \<not> choosable i s)"
proof (cases r rule: next_feed_cases)
  case (armed g)
  then show ?thesis using assms by simp
next
  case (none_left t)
  have p: "picked (quiet r) t" using pick_picked [of "quiet r"] none_left(2) by simp
  have "pick_spec (quiet r) = None" using none_left(2) pick_eq [of "quiet r"] by simp
  then have n: "\<not> choosable i (quiet r)" for i by (rule none_picked)
  have s: "s = t\<lparr>active := None\<rparr>" using none_left assms(2) by simp
  have "choosable i s = choosable i (quiet r)" for i
    using choosable_pick [of i "quiet r"] choosable_cong [of s t i] none_left(2) by (simp add: s)
  then show ?thesis using picked_same(1) [OF p] n by (simp add: s quiet_def)
next
  case (announced t u c)
  then show ?thesis using assms by simp
next
  case (fed t s' u)
  note u = fed_from [OF assms(1) fed(2,4)]
  have "fst (feed_entry t u) \<noteq> None" using feed_entry_eq [OF u(1,2)] by (metis option.distinct(1))
  then show ?thesis using assms(2) fed(5) by simp
qed

lemma fed_of_append [simp]: "fed_of i (fs @ gs) = fed_of i fs @ fed_of i gs"
  by (induction fs rule: fed_of.induct) auto

lemma drain_all:
  assumes "router_wf r" "work r \<le> n" "drain n r = (s, fs)"
  shows "(\<forall>i. unread_of i r = fed_of i fs @ unread_of i s \<and> \<not> choosable i s) \<and> length fs \<le> work r"
  using assms
proof (induction n arbitrary: r fs)
  case 0
  then have "total_pending r = 0" by (simp add: work_def)
  then have "\<not> audible i r" for i
    using channel_in [of i r] by (auto simp: audible_def total_pending_def split: option.splits)
  then show ?case using 0 by (simp add: choosable_def)
next
  case (Suc n)
  obtain f t where n: "next_feed r = (f, t)" by (cases "next_feed r")
  show ?case
  proof (cases f)
    case None
    then have c: "channels t = channels r" "\<forall>i. \<not> choosable i t" using next_feed_none [OF Suc.prems(1)] n by blast+
    have "s = t" "fs = []" using Suc.prems(3) n None by simp_all
    moreover have "unread_of i t = unread_of i r" for i using c(1) by (simp add: unread_of_def channel_def)
    ultimately show ?thesis using c(2) by simp
  next
    case (Some g)
    obtain fs' where d: "drain n t = (s, fs')" "fs = g # fs'"
      using Suc.prems(3) n Some by (auto simp: Let_def split: prod.splits)
    have g: "work t < work r" "unread_of i r = fed_of i [g] @ unread_of i t" for i
      using next_feed_work [OF Suc.prems(1) n [unfolded Some]] by auto
    have "router_wf t" using next_feed_wf [OF Suc.prems(1)] n by simp
    moreover have "work t \<le> n" using g(1) Suc.prems(2) by simp
    ultimately have IH: "\<forall>i. unread_of i t = fed_of i fs' @ unread_of i s \<and> \<not> choosable i s" "length fs' \<le> work t"
      using Suc.IH d(1) by blast+
    have "unread_of i r = fed_of i fs @ unread_of i s" for i
      using g(2) [of i] IH(1) fed_of_append [of i "[g]" fs'] by (simp add: d(2))
    then show ?thesis using IH g(1) by (simp add: d(2))
  qed
qed

section \<open>Pushing\<close>

lemma pushed:
  assumes "router_wf r" "channel i r = Some c" "push_with i txt label replace False r = (e, s)"
  shows "e = Some (next_entry r + 1)" "\<And>j. j \<noteq> i \<Longrightarrow> channel j s = channel j r"
    "unread_of i s = (if replace then [] else unread_of i r) @
       [\<lparr>entry_id = next_entry r + 1, entry_text = txt, entry_label = label\<rparr>]"
proof -
  define x where "x = \<lparr>entry_id = next_entry r + 1, entry_text = txt, entry_label = label\<rparr>"
  define rd where "rd = (map_option fst (reading r) = Some i)"
  have s: "e = Some (next_entry r + 1)" "s = (on_channel i (chan_push x replace False rd) r)\<lparr>next_entry := next_entry r + 1\<rparr>"
    using assms(2,3) unfolding push_with_def x_def rd_def Let_def by auto
  show "e = Some (next_entry r + 1)" by (rule s)
  have ok: "chan_ok (next_entry r) c" using assms(1) channel_in [OF assms(2)] by (auto simp: router_wf_def chans_ok_def)
  have id: "entry_id x = next_entry r + 1" by (simp add: x_def)
  note p = chan_push_ok [OF ok id, of replace False rd]
  show "channel j s = channel j r" if "j \<noteq> i" for j
  proof -
    have "ch_id (chan_push x replace False rd d) = ch_id d" for d by (simp add: chan_push_def Let_def)
    then show ?thesis using channel_on_other [of i j] that by (simp add: s(2) channel_def)
  qed
  have ch: "channel i s = Some (chan_push x replace False rd c)"
    using channel_on_same [OF assms(2), of "chan_push x replace False rd"] p channel_in [OF assms(2)]
    by (simp add: s(2) channel_def)
  have c: "cursor c \<le> length (entries c)" "next_entry r + 1 \<notin> aside c"
    using ok by (auto simp: chan_ok_def)
  have "unread (chan_push x replace False rd c) = (if replace then [] else unread c) @ [x]"
  proof (cases "replace \<or> (caught_up c \<and> \<not> rd \<and> \<not> growing c)")
    case True
    then have "\<not> replace \<Longrightarrow> unread c = []" by (simp add: caught_up_def pending_def)
    then show ?thesis using True by (simp add: chan_push_def Let_def unread_def insert_at_def)
  next
    case False
    then have "chan_push x replace False rd c =
        c\<lparr>entries := entries c @ [x], ch_gen := ch_gen c + 1, replaying := False\<rparr>" "\<not> replace"
      by (auto simp: chan_push_def insert_at_def)
    then show ?thesis using c by (simp add: unread_def id)
  qed
  then show "unread_of i s = (if replace then [] else unread_of i r) @
       [\<lparr>entry_id = next_entry r + 1, entry_text = txt, entry_label = label\<rparr>]"
    using ch assms(2) by (simp add: unread_of_def x_def)
qed

section \<open>Answered decisions\<close>

lemma nth_split: "P @ e # Q = es \<Longrightarrow> es ! length P = e \<and> remove_at (length P) es = P @ Q"
  by (auto simp: remove_at_def)

lemma goes_removed:
  "entry_id x \<noteq> entry_id (entries c ! i) \<Longrightarrow> goes w b (entry_id x) (remove_entry i c) = goes w b (entry_id x) c"
  "goes w b k (c\<lparr>cursor := m\<rparr>) = goes w b k c"
  by (simp_all add: goes_def remove_entry_def)

lemma drop_from_unread:
  assumes "entries c = P @ Q" "cursor c \<le> length P" "distinct (map entry_id Q)"
  shows "fst (drop_from w (length P) out c) = out @ filter (\<lambda>e. goes w False (entry_id e) c) Q \<and>
    entries (snd (drop_from w (length P) out c)) = P @ filter (\<lambda>e. \<not> goes w False (entry_id e) c) Q \<and>
    cursor (snd (drop_from w (length P) out c)) = cursor c"
  using assms
proof (induction Q arbitrary: P out c)
  case Nil
  then show ?case by (subst (1 2 3) drop_from.simps) simp
next
  case (Cons e Q)
  have e: "entries c ! length P = e" "remove_at (length P) (entries c) = P @ Q"
    using nth_split [of P e Q "entries c"] Cons.prems(1) by auto
  have lt: "length P < length (entries c)" "\<not> length P < cursor c" using Cons.prems by simp_all
  show ?case
  proof (cases "goes w False (entry_id e) c")
    case True
    let ?d = "remove_entry (length P) c"
    have d: "entries ?d = P @ Q" "cursor ?d \<le> length P" using Cons.prems(2) e(2) by (simp_all add: remove_entry_def)
    have g: "goes w False (entry_id x) ?d = goes w False (entry_id x) c" if "x \<in> set Q" for x
    proof -
      have "entry_id e \<notin> entry_id ` set Q" using Cons.prems(3) by simp
      then have "entry_id x \<noteq> entry_id (entries c ! length P)" using that e(1) by (metis imageI)
      then show ?thesis by (rule goes_removed)
    qed
    have "drop_from w (length P) out c = drop_from w (length P) (out @ [e]) ?d"
      using lt True e by (subst drop_from.simps) (simp add: Let_def)
    then show ?thesis using Cons.IH [OF d] Cons.prems(3) True g
      by (simp cong: filter_cong)
  next
    case False
    have "drop_from w (length P) out c = drop_from w (length (P @ [e])) out c"
      using lt False e by (subst drop_from.simps) (simp add: Let_def)
    then show ?thesis using Cons.IH [of c "P @ [e]" out] Cons.prems False by simp
  qed
qed

lemma drop_from_read:
  assumes "entries c = P @ Q @ U" "cursor c = length P + length Q" "distinct (map entry_id (Q @ U))"
  shows "fst (drop_from w (length P) out c) = out @ filter (\<lambda>e. goes w False (entry_id e) c) U \<and>
    entries (snd (drop_from w (length P) out c)) =
      P @ filter (\<lambda>e. \<not> goes w True (entry_id e) c) Q @ filter (\<lambda>e. \<not> goes w False (entry_id e) c) U \<and>
    cursor (snd (drop_from w (length P) out c)) = length P + length (filter (\<lambda>e. \<not> goes w True (entry_id e) c) Q)"
  using assms
proof (induction Q arbitrary: P out c)
  case Nil
  then show ?case using drop_from_unread [of c P U w out] by simp
next
  case (Cons e Q)
  have e: "entries c ! length P = e" "remove_at (length P) (entries c) = P @ Q @ U"
    using nth_split [of P e "Q @ U" "entries c"] Cons.prems(1) by auto
  have lt: "length P < length (entries c)" "length P < cursor c" using Cons.prems by simp_all
  show ?case
  proof (cases "goes w True (entry_id e) c")
    case True
    let ?d = "(remove_entry (length P) c)\<lparr>cursor := cursor c - 1\<rparr>"
    have d: "entries ?d = P @ Q @ U" "cursor ?d = length P + length Q"
      using Cons.prems(2) e(2) by (simp_all add: remove_entry_def)
    have g: "goes w b (entry_id x) ?d = goes w b (entry_id x) c" if "x \<in> set (Q @ U)" for x b
    proof -
      have "entry_id e \<notin> entry_id ` set (Q @ U)" using Cons.prems(3) by (simp add: image_Un)
      then have "entry_id x \<noteq> entry_id (entries c ! length P)" using that e(1) by (metis imageI)
      then show ?thesis by (simp add: goes_removed)
    qed
    have "drop_from w (length P) out c = drop_from w (length P) out ?d"
      using lt True e by (subst drop_from.simps) (simp add: Let_def)
    then show ?thesis using Cons.IH [OF d] Cons.prems(3) True g by (simp cong: filter_cong)
  next
    case False
    have "drop_from w (length P) out c = drop_from w (length (P @ [e])) out c"
      using lt False e by (subst drop_from.simps) (simp add: Let_def)
    then show ?thesis using Cons.IH [of c "P @ [e]" out] Cons.prems False by simp
  qed
qed

lemma chan_drop_decisions_eq:
  assumes "chan_ok n c"
  shows "fst (chan_drop_decisions w c) = filter (\<lambda>e. goes w False (entry_id e) c) (drop (cursor c) (entries c))"
    "entries (snd (chan_drop_decisions w c)) =
       filter (\<lambda>e. \<not> goes w True (entry_id e) c) (take (cursor c) (entries c)) @
       filter (\<lambda>e. \<not> goes w False (entry_id e) c) (drop (cursor c) (entries c))"
    "cursor (snd (chan_drop_decisions w c)) =
       length (filter (\<lambda>e. \<not> goes w True (entry_id e) c) (take (cursor c) (entries c)))"
proof -
  have "cursor c \<le> length (entries c)" "distinct (map entry_id (take (cursor c) (entries c) @ drop (cursor c) (entries c)))"
    using assms by (simp_all add: chan_ok_def ids_of_def)
  then show "fst (chan_drop_decisions w c) = filter (\<lambda>e. goes w False (entry_id e) c) (drop (cursor c) (entries c))"
    "entries (snd (chan_drop_decisions w c)) =
       filter (\<lambda>e. \<not> goes w True (entry_id e) c) (take (cursor c) (entries c)) @
       filter (\<lambda>e. \<not> goes w False (entry_id e) c) (drop (cursor c) (entries c))"
    "cursor (snd (chan_drop_decisions w c)) =
       length (filter (\<lambda>e. \<not> goes w True (entry_id e) c) (take (cursor c) (entries c)))"
    using drop_from_read [of c "[]" "take (cursor c) (entries c)" "drop (cursor c) (entries c)" w "[]"]
    by (simp_all add: chan_drop_decisions_def min_def)
qed

section \<open>A cut entry\<close>

lemma rewind_taken:
  assumes "cursor c \<le> length (entries c)" "fst (chan_take c) = Some e"
  shows "fst (chan_rewind (entry_id e) (snd (chan_take c)))"
    "unread (snd (chan_rewind (entry_id e) (snd (chan_take c)))) = unread c"
proof -
  let ?d = "snd (chan_take c)"
  note t = chan_take_unread(1,2) [OF assms]
  have r: "chan_rewind (entry_id e) ?d = (True, ?d\<lparr>cursor := cursor ?d - 1\<rparr>)"
    using t(2) by (simp add: chan_rewind_def)
  then show "fst (chan_rewind (entry_id e) ?d)" by simp
  have lt: "cursor ?d - 1 < length (entries c)" using t(2) by linarith
  then have "drop (cursor ?d - 1) (entries c) = e # drop (cursor ?d) (entries c)"
    using t(2) Cons_nth_drop_Suc [of "cursor ?d - 1" "entries c"] by simp
  moreover have "cursor ?d - 1 \<le> length (entries c)" using lt by linarith
  ultimately show "unread (snd (chan_rewind (entry_id e) ?d)) = unread c"
    using t unread_drop [of "?d\<lparr>cursor := cursor ?d - 1\<rparr>"] unread_drop [of ?d] by (simp add: r)
qed

section \<open>The ring\<close>

fun tour :: "nat \<Rightarrow> router \<Rightarrow> cid list" where
  "tour 0 r = []"
| "tour (Suc n) r =
     (case next_channel r of (None, _) \<Rightarrow> [] | (Some (t, _), s) \<Rightarrow> t # tour n s)"

definition shape :: "router \<Rightarrow> (cid \<times> bool \<times> entry list) list" where
  "shape r = map (\<lambda>c. (ch_id c, ch_muted c, entries c)) (channels r)"

lemma channel_shape:
  "map_option (\<lambda>c. (ch_muted c, entries c)) (channel i r) = map_of (shape r) i"
proof -
  have "map_option (\<lambda>c. (ch_muted c, entries c)) (List.find (\<lambda>c. ch_id c = i) cs) =
      map_of (map (\<lambda>c. (ch_id c, ch_muted c, entries c)) cs) i" for cs
    by (induction cs) auto
  then show ?thesis by (simp add: channel_def shape_def)
qed

lemma ids_where_shape:
  assumes "shape r = shape s" "\<And>c d. ch_muted c = ch_muted d \<Longrightarrow> entries c = entries d \<Longrightarrow> P c = P d"
  shows "ids_where P r ids = ids_where P s ids"
proof -
  have "(case channel i r of None \<Rightarrow> False | Some c \<Rightarrow> P c) = (case channel i s of None \<Rightarrow> False | Some c \<Rightarrow> P c)" for i
  proof -
    have e: "map_option (\<lambda>c. (ch_muted c, entries c)) (channel i r) = map_option (\<lambda>c. (ch_muted c, entries c)) (channel i s)"
      by (simp only: channel_shape assms(1))
    show ?thesis
    proof (cases "channel i r")
      case None
      then show ?thesis using e by (cases "channel i s") simp_all
    next
      case (Some c)
      then obtain d where "channel i s = Some d" "ch_muted c = ch_muted d" "entries c = entries d"
        using e by (cases "channel i s") simp_all
      then show ?thesis using Some assms(2) [of c d] by simp
    qed
  qed
  then show ?thesis by (simp add: ids_where_def)
qed

lemma ids_shape: "map ch_id (channels r) = map fst (shape r)"
  by (simp add: shape_def comp_def)

lemma ring_shape: "shape r = shape s \<Longrightarrow> ring_of r = ring_of s"
  using ids_where_shape [of r s "\<lambda>c. \<not> ch_muted c"] ids_where_shape [of r s "\<lambda>c. entries c \<noteq> []"]
  by (simp add: ring_of_def ids_shape Let_def)

lemma ring_distinct: "router_wf r \<Longrightarrow> distinct (ring_of r)"
  by (simp add: router_wf_def chans_ok_def ring_of_def ids_where_def Let_def)

lemma shape_on: "(\<And>c. ch_id (f c) = ch_id c \<and> ch_muted (f c) = ch_muted c \<and> entries (f c) = entries c) \<Longrightarrow>
    shape (on_channel i f r) = shape r"
proof -
  assume f: "\<And>c. ch_id (f c) = ch_id c \<and> ch_muted (f c) = ch_muted c \<and> entries (f c) = entries c"
  have "map (\<lambda>c. (ch_id c, ch_muted c, entries c)) (upd_first P f cs) = map (\<lambda>c. (ch_id c, ch_muted c, entries c)) cs" for P cs
    using f by (induction cs) auto
  then show ?thesis by (simp add: shape_def on_channel_def)
qed

lemma next_channel_step:
  assumes "channels r \<noteq> []"
  defines "t \<equiv> ring_target (map ch_id (channels r)) (ring_of r) (engaged r)"
  shows "\<exists>b s. next_channel r = (Some (t, b), s) \<and> active s = Some t \<and> shape s = shape r"
proof -
  define q where "q = (case active r of
                      None \<Rightarrow> r
                    | Some old \<Rightarrow>
                        if old \<noteq> t then
                          (case channel old r of
                             None \<Rightarrow> r
                           | Some c \<Rightarrow> r\<lparr>suppressed := (suppressed r)(old \<mapsto> ch_gen c)\<rparr>)
                        else r)"
  define u where "u = q\<lparr>suppressed := (suppressed q)(t := None)\<rparr>"
  have ch: "channels u = channels r" by (simp add: u_def q_def split: option.split)
  have "t \<in> open_ids r" using ring_target_open [OF assms(1)] by (simp add: t_def)
  then obtain c where c: "channel t u = Some c"
    using channel_None [of t u] ch by (cases "channel t u") (auto simp: open_ids_def)
  have n: "next_channel r = (case channel t u of None \<Rightarrow> (None, u)
    | Some c \<Rightarrow> let replay = (caught_up c \<or> (case active r of Some a \<Rightarrow> Some a | None \<Rightarrow> last_active r) = Some t \<or> replaying c);
                      v = (if replay then on_channel t (\<lambda>c. c\<lparr>cursor := 0, replaying := True\<rparr>) u else u);
                      v = end_hold None (arm t replay True (set_reader t v));
                      v = (if replay then start_hold t v else v)
                  in (Some (t, replay), v))"
    using assms(1) unfolding next_channel_def Let_def t_def [unfolded engaged_def, symmetric] q_def [symmetric] u_def [symmetric]
    by simp
  have sh: "shape (on_channel t (\<lambda>c. c\<lparr>cursor := 0, replaying := True\<rparr>) u) = shape r" "shape u = shape r"
    using shape_on [of "\<lambda>c. c\<lparr>cursor := 0, replaying := True\<rparr>" t u] ch by (simp_all add: shape_def)
  have fin: "active (end_hold None (arm t b True (set_reader t v))) = Some t"
    "shape (end_hold None (arm t b True (set_reader t v))) = shape v"
    "active (start_hold t w) = active w" "shape (start_hold t w) = shape w" for b v w
    by (simp_all add: end_hold_def arm_def set_reader_def shape_def start_hold_def Let_def)
  show ?thesis unfolding n c option.case Let_def using sh fin by auto
qed

lemma pos_nth: "distinct xs \<Longrightarrow> i < length xs \<Longrightarrow> pos xs (Some (xs ! i)) = Some i"
proof -
  assume d: "distinct xs" "i < length xs"
  obtain k where k: "position (\<lambda>x. x = xs ! i) xs = Some k"
    using d(2) by (cases "position (\<lambda>x. x = xs ! i) xs") auto
  then have "k < length xs" "xs ! k = xs ! i" using position_Some [OF k] by auto
  then show ?thesis using d nth_eq_iff_index_eq [of xs k i] by (simp add: pos_def k)
qed

lemma tour_eq:
  assumes "router_wf r" "i < length (ring_of r)" "engaged r = Some (ring_of r ! i)" "channels r \<noteq> []"
  shows "tour n r = map (\<lambda>k. ring_of r ! ((i + k) mod length (ring_of r))) [1..<n + 1]"
  using assms
proof (induction n arbitrary: r i)
  case 0
  then show ?case by simp
next
  case (Suc n)
  let ?ring = "ring_of r" and ?j = "(i + 1) mod length (ring_of r)"
  have t: "ring_target (map ch_id (channels r)) ?ring (engaged r) = ?ring ! ?j"
    using pos_nth [OF ring_distinct [OF Suc.prems(1)] Suc.prems(2)] Suc.prems(3) by (simp add: ring_target_def)
  obtain b s where s: "next_channel r = (Some (?ring ! ?j, b), s)" "active s = Some (?ring ! ?j)" "shape s = shape r"
    using next_channel_step [OF Suc.prems(4)] t by auto
  have ring: "ring_of s = ?ring" by (rule ring_shape) (rule s)
  have "router_wf s" using next_channel_wf [OF Suc.prems(1)] s(1) by simp
  moreover have "?j < length (ring_of s)" using Suc.prems(2) by (cases "ring_of r") (simp_all add: ring)
  moreover have "engaged s = Some (ring_of s ! ?j)" by (simp add: engaged_def s(2) ring)
  moreover have "channels s \<noteq> []" using s(3) Suc.prems(4) by (auto simp: shape_def)
  ultimately have "tour n s = map (\<lambda>k. ?ring ! ((?j + k) mod length ?ring)) [1..<n + 1]"
    using Suc.IH [of s ?j] by (simp add: ring)
  moreover have "[1..<Suc n + 1] = 1 # map Suc [1..<n + 1]" by (simp add: upt_conv_Cons map_Suc_upt del: upt_Suc)
  ultimately show ?case using s(1) by (simp add: mod_add_left_eq comp_def del: upt_Suc)
qed

end
