(* ===== verification/Router_Claims.thy ===== *)
theory Router_Claims imports Router_Props begin

text \<open>
  The properties of the router, with the run that each witness is evaluated on.
\<close>

section \<open>A concrete run\<close>

definition two_sources :: "call list" where
  "two_sources =
     [OpenChannel (lit ''a'') None None (Some Queue), OpenChannel (lit ''b'') None None None,
      Push (lit ''a'') (lit ''One.'') None, Push (lit ''a'') (lit ''Two.'') None,
      AppendText (lit ''b'') (lit ''Ok?'') True False]"

definition ent :: "nat \<Rightarrow> string \<Rightarrow> entry" where
  "ent i s = \<lparr>entry_id = i, entry_text = lit s, entry_label = None\<rparr>"

definition source_a :: channel where
  "source_a = (new_channel (lit ''a'') None None Queue)\<lparr>entries := [ent 1 ''One.'', ent 2 ''Two.''], ch_gen := 2\<rparr>"

definition source_b :: channel where
  "source_b = (new_channel (lit ''b'') None None Latest)
     \<lparr>entries := [ent 3 ''Ok?''], ch_gen := 1, growing := True, agent := True, decisions := [3 \<mapsto> False]\<rparr>"

lemmas router_eval = router_after_def open_channel_def channel_def on_channel_def push_def push_with_def
  append_def mark_agent_def chan_push_def new_router_def new_channel_def insert_at_def caught_up_def
  pending_def unread_def Let_def

lemma two_sources_state:
  "router_after two_sources = new_router\<lparr>channels := [source_a, source_b], next_entry := 3\<rparr>"
  by (simp add: two_sources_def router_eval source_a_def source_b_def ent_def numeral_3_eq_3)

lemma source_sel:
  "ch_id source_a = lit ''a''" "ch_id source_b = lit ''b''" "ch_muted source_a = False" "ch_muted source_b = False"
  "unread source_a = [ent 1 ''One.'', ent 2 ''Two.'']" "unread source_b = [ent 3 ''Ok?'']"
  "entries source_a = [ent 1 ''One.'', ent 2 ''Two.'']" "entries source_b = [ent 3 ''Ok?'']"
  "cursor source_a = 0" "cursor source_b = 0" "decisions source_b = [3 \<mapsto> False]" "ch_policy source_a = Queue"
  by (simp_all add: source_a_def source_b_def new_channel_def unread_def)

lemma two_sources_channel:
  "channel (lit ''a'') (router_after two_sources) = Some source_a"
  "channel (lit ''b'') (router_after two_sources) = Some source_b"
  by (simp_all add: two_sources_state channel_def source_sel)

lemma two_sources_unread:
  "unread_of (lit ''a'') (router_after two_sources) = [ent 1 ''One.'', ent 2 ''Two.'']"
  "unread_of (lit ''b'') (router_after two_sources) = [ent 3 ''Ok?'']"
  using two_sources_channel by (simp_all add: unread_of_def source_sel)

lemma new_router_sel:
  "active new_router = None" "last_active new_router = None" "last_reader new_router = None" "announce new_router = None" "hold new_router = None"
  "priority new_router = []" "focused new_router = None" "suppressed new_router = Map.empty" "\<not> focus_only new_router"
  "reading new_router = None" "authorized new_router = {}" "channels new_router = []"
  by (simp_all add: new_router_def)

lemma two_sources_feed:
  "feed_spec (router_after two_sources) = Some (Entry (lit ''a'') (ent 1 ''One.''))"
  by (simp add: feed_spec_def announcement_def pick_spec_def only_if_def two_sources_state new_router_sel
      source_sel choosable_def audible_def blocked_def gated_def channel_def pending_def is_handoff_def)

lemma two_sources_next:
  obtains s where "next_feed (router_after two_sources) = (Some (Entry (lit ''a'') (ent 1 ''One.'')), s)"
  using two_sources_feed next_feed_fst [OF router_after_wf, of two_sources] by (metis prod.collapse)

section \<open>Properties\<close>

text \<open>C7: over any calls the router stays consistent: the channels have different ids and a cursor
  never passes the end of its batch (no indexing panics), entry ids are unique over all channels and
  never above the last one given, decision marks and entries set aside are entries of their batch,
  a channel is muted exactly when its id is, and the channel reading, the focus, an armed
  announcement, a hold, suppressions, priorities and authorizations all name open channels.\<close>

theorem router_invariant: "router_wf (router_after cs)"
  by (rule router_after_wf)

text \<open>C8: the auto pick, with all it forgets on the way, chooses by the documented order: a held
  replay, the channel reading while it has unread text, the first prioritized channel, the focus, the
  first channel in opening order; muted channels never, suppressed and gated ones not by the last
  rules.\<close>

theorem pick_rules: "fst (pick r) = pick_spec r"
  by (rule pick_eq)

text \<open>C9: what \<open>next_feed\<close> gives is an armed announcement, else the announcement of a switch when the
  picked channel takes the floor from another one, else the first unread entry of the picked channel;
  nothing only when nothing can be picked.\<close>

theorem next_feed_rules: "fst (next_feed (router_after cs)) = feed_spec (router_after cs)"
  by (rule next_feed_fst [OF router_after_wf])

text \<open>an entry that is fed was the first unread entry of an open channel that is not muted; it is
  read by that and no other entry of any channel is; its channel is the one reading now, and it read
  last or needed no announcement.\<close>

theorem fed_entry_is_read:
  assumes "next_feed (router_after cs) = (Some (Entry i e), s)"
  shows "\<exists>c. channel i (router_after cs) = Some c \<and> \<not> ch_muted c \<and>
      unread c = e # unread_of i s \<and> (\<forall>j. j \<noteq> i \<longrightarrow> unread_of j s = unread_of j (router_after cs)) \<and>
      reading s = Some (i, entry_id e) \<and> active s = Some i \<and>
      (active (router_after cs) = Some i \<or> \<not> is_handoff i (router_after cs))"
proof -
  obtain c where "channel i (router_after cs) = Some c" "\<not> ch_muted c" "unread c = e # unread (snd (chan_take c))"
    "channel i s = Some (snd (chan_take c))" "\<And>j. j \<noteq> i \<Longrightarrow> channel j s = channel j (router_after cs)"
    "reading s = Some (i, entry_id e)" "active s = Some i"
    "active (router_after cs) = Some i \<or> \<not> is_handoff i (router_after cs)"
    using next_feed_entry [OF router_after_wf assms] by metis
  then show ?thesis by (simp add: unread_of_def)
qed

theorem fed_entry_is_read_witness:
  "\<exists>s. next_feed (router_after two_sources) = (Some (Entry (lit ''a'') (ent 1 ''One.'')), s) \<and>
     unread_of (lit ''a'') s = [ent 2 ''Two.''] \<and> unread_of (lit ''b'') s = [ent 3 ''Ok?'']"
proof -
  obtain s where s: "next_feed (router_after two_sources) = (Some (Entry (lit ''a'') (ent 1 ''One.'')), s)"
    by (rule two_sources_next)
  have "unread_of (lit ''a'') s = [ent 2 ''Two.'']" "unread_of (lit ''b'') s = unread_of (lit ''b'') (router_after two_sources)"
    using fed_entry_is_read [OF s] two_sources_channel by (auto simp: source_sel)
  then show ?thesis using s two_sources_unread by simp
qed

text \<open>C10: Reading everything, from any state the calls of a host can lead to: asking for feeds at most
  \<open>2 * total_pending + 2\<close> times reads the unread entries of every channel, each once and in the order of
  its channel, until what is left unread is only in channels that are muted, that are set aside by a
  suppression, or that the focus holds back.\<close>

theorem feeding_reads_everything:
  fixes cs
  defines "r \<equiv> router_after cs"
  shows "let (s, fs) = drain (2 * total_pending r + 2) r
    in (\<forall>i. unread_of i r = fed_of i fs @ unread_of i s \<and> \<not> (audible i s \<and> \<not> blocked i s \<and> \<not> gated i s)) \<and>
       length fs \<le> 2 * total_pending r + 2"
proof -
  obtain s fs where d: "drain (2 * total_pending r + 2) r = (s, fs)" by (cases "drain (2 * total_pending r + 2) r")
  have w: "work r \<le> 2 * total_pending r + 2" by (simp add: work_def)
  have a: "\<forall>i. unread_of i r = fed_of i fs @ unread_of i s \<and> \<not> choosable i s" "length fs \<le> work r"
    using drain_all [OF _ w d] router_after_wf [of cs] unfolding r_def by blast+
  show ?thesis unfolding d Let_def prod.case using a w by (simp add: choosable_def)
qed

theorem feeding_reads_everything_witness:
  "let (s, fs) = drain 8 (router_after two_sources)
   in fed_of (lit ''a'') fs @ unread_of (lit ''a'') s = [ent 1 ''One.'', ent 2 ''Two.'']"
proof -
  have "total_pending (router_after two_sources) = 3"
    by (simp add: two_sources_state total_pending_def pending_def source_sel)
  then have "let (s, fs) = drain 8 (router_after two_sources)
      in \<forall>i. unread_of i (router_after two_sources) = fed_of i fs @ unread_of i s"
    using feeding_reads_everything [of two_sources] by (simp add: case_prod_beta)
  then show ?thesis using two_sources_unread(1) unfolding Let_def case_prod_beta by metis
qed

text \<open>C11: a text pushed into an open channel gets the next entry id and becomes its last unread entry;
  with policy \<open>latest\<close> its only one, with \<open>queue\<close> after the unread ones; no other channel changes.\<close>

theorem push_by_policy:
  fixes cs
  defines "r \<equiv> router_after cs"
  assumes "channel i r = Some c"
  shows "let (e, s) = push i txt label r
    in e = Some (next_entry r + 1) \<and>
       unread_of i s = (if ch_policy c = Latest then [] else unread c) @
         [\<lparr>entry_id = next_entry r + 1, entry_text = txt, entry_label = label\<rparr>] \<and>
       (\<forall>j. j \<noteq> i \<longrightarrow> channel j s = channel j r)"
proof -
  obtain e s where p: "push_with i txt label (ch_policy c = Latest) False r = (e, s)"
    by (cases "push_with i txt label (ch_policy c = Latest) False r")
  note q = pushed [OF router_after_wf [of cs, folded r_def] assms(2) p]
  have "unread_of i r = unread c" using assms(2) by (simp add: unread_of_def)
  then show ?thesis using q p assms(2) by (simp add: push_def)
qed

theorem push_by_policy_witness:
  "let (e, s) = push (lit ''a'') (lit ''Three.'') None (router_after two_sources)
   in e = Some 4 \<and> unread_of (lit ''a'') s = [ent 1 ''One.'', ent 2 ''Two.'', ent 4 ''Three.'']"
  using push_by_policy [OF two_sources_channel(1), of "lit ''Three.''" None]
  by (auto simp: two_sources_state [THEN arg_cong, of next_entry] source_sel ent_def split: prod.splits)

text \<open>C12: answered decisions leave the batch and only they: of the entries read so far those \<open>which\<close>
  names among the read ones, of the unread ones those it names there (and these are returned); the
  rest keeps its order, and the cursor stays between the same entries.\<close>

theorem decisions_leave_the_batch:
  fixes cs
  defines "r \<equiv> router_after cs"
  assumes "channel i r = Some c"
  shows "let (out, s) = drop_decisions i which r; d = the (channel i s);
             stays = (\<lambda>before e. \<not> goes which before (entry_id e) c)
    in out = filter (\<lambda>e. \<not> stays False e) (drop (cursor c) (entries c)) \<and>
       take (cursor d) (entries d) = filter (stays True) (take (cursor c) (entries c)) \<and>
       drop (cursor d) (entries d) = filter (stays False) (drop (cursor c) (entries c)) \<and>
       (\<forall>j. j \<noteq> i \<longrightarrow> channel j s = channel j r)"
proof -
  have ok: "chan_ok (next_entry r) c"
    using router_after_wf [of cs] channel_in [OF assms(2)] by (auto simp: r_def router_wf_def chans_ok_def)
  let ?f = "\<lambda>c. snd (chan_drop_decisions which c)"
  have "ch_id (?f c) = ch_id c" using drop_from_ok [OF ok] by (simp add: chan_drop_decisions_def)
  then have "channel i (on_channel i ?f r) = Some (?f c)"
    using channel_on_same [OF assms(2), of ?f] channel_in [OF assms(2)] by simp
  moreover have "channel j (on_channel i ?f r) = channel j r" if "j \<noteq> i" for j
  proof -
    let ?g = "\<lambda>d. if ch_id d = i then (if d = c then ?f d else d) else d"
    have "\<exists>g. on_channel i ?f r = on_channel i g r \<and> (\<forall>d. ch_id (g d) = ch_id d)"
    proof -
      obtain pre post where s: "channels r = pre @ c # post" "\<And>f. channels (on_channel i f r) = pre @ f c # post"
        using channel_split [OF assms(2)] by metis
      have "on_channel i ?f r = on_channel i (\<lambda>d. if d = c then ?f d else d) r"
        using s(2) [of ?f] s(2) [of "\<lambda>d. if d = c then ?f d else d"] by (simp add: on_channel_def)
      moreover have "ch_id (if d = c then ?f d else d) = ch_id d" for d
        using \<open>ch_id (?f c) = ch_id c\<close> by simp
      ultimately show ?thesis by blast
    qed
    then show ?thesis using channel_on_other [of i j _ r] that by metis
  qed
  ultimately show ?thesis using chan_drop_decisions_eq [OF ok, of which] assms(2)
    by (simp add: drop_decisions_def)
qed

theorem decisions_leave_the_batch_witness:
  "let (out, s) = drop_decisions (lit ''b'') ResolvedAll (router_after two_sources)
   in out = [ent 3 ''Ok?'']"
  using decisions_leave_the_batch [OF two_sources_channel(2), of ResolvedAll]
  by (auto simp: source_sel goes_def resolves_def ent_def Let_def split: prod.splits)

text \<open>C13: an entry that was cut off is read again: stepping back over the entry just fed makes it the
  first unread entry of its channel again, with the rest as before the feed.\<close>

theorem cut_entry_is_read_again:
  assumes "next_feed (router_after cs) = (Some (Entry i e), s)"
  shows "let (ok, t) = rewind i (entry_id e) s
    in ok \<and> unread_of i t = unread_of i (router_after cs) \<and> (\<forall>j. j \<noteq> i \<longrightarrow> channel j t = channel j s)"
proof -
  obtain c where c: "channel i (router_after cs) = Some c" "channel i s = Some (snd (chan_take c))" "fst (chan_take c) = Some e"
    using next_feed_entry [OF router_after_wf assms] by metis
  note r = rewind_taken [OF wf_cursor [OF router_after_wf c(1)] c(3)]
  let ?f = "\<lambda>c. snd (chan_rewind (entry_id e) c)"
  have "channel i (on_channel i ?f s) = Some (?f (snd (chan_take c)))"
    using channel_on_same [OF c(2), of ?f] channel_in [OF c(2)] by (simp add: chan_rewind_ok)
  moreover have "channel j (on_channel i ?f s) = channel j s" if "j \<noteq> i" for j
    using channel_on_other [of i j ?f s] that by (simp add: chan_rewind_ok)
  ultimately show ?thesis using c r by (simp add: rewind_def unread_of_def)
qed

theorem cut_entry_is_read_again_witness:
  "\<exists>s. next_feed (router_after two_sources) = (Some (Entry (lit ''a'') (ent 1 ''One.'')), s) \<and>
     (let (ok, t) = rewind (lit ''a'') 1 s in ok \<and> unread_of (lit ''a'') t = [ent 1 ''One.'', ent 2 ''Two.''])"
proof -
  obtain s where s: "next_feed (router_after two_sources) = (Some (Entry (lit ''a'') (ent 1 ''One.'')), s)"
    by (rule two_sources_next)
  have "entry_id (ent 1 ''One.'') = 1" by (simp add: ent_def)
  then show ?thesis using cut_entry_is_read_again [OF s] s
      two_sources_unread(1) by (auto split: prod.splits)
qed

text \<open>\<open>next_channel\<close> is a round robin: pressed again and again it visits the channels of the ring
  (the unmuted ones with something to hear, in opening order) one after the other from the one
  engaged, so that as many presses as the ring is long visit all of it.\<close>

theorem next_channel_round_robin:
  fixes cs
  defines "r \<equiv> router_after cs"
  assumes "i < length (ring_of r)" "engaged r = Some (ring_of r ! i)"
  shows "tour n r = map (\<lambda>k. ring_of r ! ((i + k) mod length (ring_of r))) [1..<n + 1]"
proof (rule tour_eq)
  show "router_wf r" by (simp add: r_def router_after_wf)
  show "channels r \<noteq> []" using assms(2) by (auto simp: ring_of_def ids_where_def)
qed (use assms in simp_all)

theorem next_channel_round_robin_witness:
  "tour 3 (router_after (two_sources @ [NextChannel])) = [lit ''b'', lit ''a'', lit ''b'']"
proof -
  have st: "router_after (two_sources @ [NextChannel]) = snd (next_channel (router_after two_sources))"
    by (simp add: router_after_def run_machine_append case_prod_beta)
  have ring: "ring_of (router_after two_sources) = [lit ''a'', lit ''b'']"
    by (simp add: ring_of_def ids_where_def two_sources_state channel_def source_sel)
  let ?s = "snd (next_channel (router_after two_sources))"
  have "ring_target (map ch_id (channels (router_after two_sources))) [lit ''a'', lit ''b'']
      (engaged (router_after two_sources)) = lit ''a''"
    by (simp add: ring_target_def pos_def engaged_def two_sources_state new_router_sel)
  then have "active ?s = Some (lit ''a'') \<and> shape ?s = shape (router_after two_sources)"
    using next_channel_step [of "router_after two_sources"] ring by (auto simp: two_sources_state)
  then have "ring_of ?s = [lit ''a'', lit ''b'']" "engaged ?s = Some (lit ''a'')"
    using ring_shape [of ?s "router_after two_sources"] ring by (simp_all add: engaged_def)
  then show ?thesis using next_channel_round_robin [of 0 "two_sources @ [NextChannel]" 3]
    by (simp add: st upt_conv_Cons mod_Suc)
qed

end
