(* ===== verification/Delta_Order.thy ===== *)
theory Delta_Order imports Prelude "HOL-Library.Multiset" begin

text \<open>
  \<open>DeltaOrder\<close> of \<open>crates/sonara-agent/src/rules.rs\<close>: the deltas of a block in index order, whatever
  order their hook processes deliver them in.

  An index is a \<open>u32\<close>, a natural number here; \<open>index + 1\<close> wraps as it does in a release build
  (\<open>next_index\<close>). The \<open>BTreeMap\<close> of held deltas is a list sorted by index, \<open>skipped\<close> a set.
\<close>

section \<open>The state\<close>

type_synonym delta = "str \<times> nat \<times> bool"

record delta_order =
  next_delta :: nat
  ahead :: "(nat \<times> str \<times> bool) list"
  order_gen :: nat
  skipped :: "nat set"

definition new_order :: delta_order where
  "new_order = \<lparr>next_delta = 0, ahead = [], order_gen = 0, skipped = {}\<rparr>"

definition next_index :: "nat \<Rightarrow> nat" where
  "next_index i = (i + 1) mod 2 ^ 32"

fun insert_delta :: "nat \<Rightarrow> str \<times> bool \<Rightarrow> (nat \<times> str \<times> bool) list \<Rightarrow> (nat \<times> str \<times> bool) list" where
  "insert_delta i v [] = [(i, v)]"
| "insert_delta i v ((j, w) # xs) =
     (if i < j then (i, v) # (j, w) # xs
      else if i = j then (i, v) # xs
      else (j, w) # insert_delta i v xs)"

section \<open>The operations\<close>

definition advance_order :: "nat \<Rightarrow> bool \<Rightarrow> delta_order \<Rightarrow> delta_order" where
  "advance_order i fin s = s\<lparr>next_delta := (if fin then 0 else next_index i)\<rparr>"

text \<open>The missing indices below the highest held one.\<close>

definition missing :: "delta_order \<Rightarrow> nat list" where
  "missing s =
     (let top = (if ahead s = [] then 0 else fst (last (ahead s)))
      in filter (\<lambda>i. i \<notin> fst ` set (ahead s)) [next_delta s..<top])"

definition release_order :: "delta_order \<Rightarrow> delta list \<times> delta_order" where
  "release_order s =
     (let s = s\<lparr>skipped := skipped s \<union> set (missing s)\<rparr>;
          held = ahead s;
          s = s\<lparr>ahead := []\<rparr>;
          s = fold (\<lambda>(i, t, f) s. advance_order i f s) held s;
          out = map (\<lambda>(i, t, f). (t, i, f)) held
      in (out, if out \<noteq> [] then s\<lparr>order_gen := order_gen s + 1\<rparr> else s))"

text \<open>The \<open>while let\<close> of \<open>accept\<close>: the held deltas the next index unblocks.\<close>

function unblock :: "delta list \<Rightarrow> delta_order \<Rightarrow> delta list \<times> delta_order" where
  "unblock out s =
     (case map_of (ahead s) (next_delta s) of
        None \<Rightarrow> (out, s)
      | Some (t, f) \<Rightarrow>
          let i = next_delta s
          in unblock (out @ [(t, i, f)])
               (advance_order i f (s\<lparr>ahead := filter (\<lambda>x. fst x \<noteq> i) (ahead s)\<rparr>)))"
  by pat_completeness auto
termination
proof (relation "measure (\<lambda>(out, s). length (ahead s))")
  fix out :: "delta list" and s :: delta_order and x t f i
  assume "map_of (ahead s) (next_delta s) = Some x" and i: "i = next_delta s"
  then have "(i, x) \<in> set (ahead s)" by (simp add: map_of_SomeD)
  then have "length (filter (\<lambda>x. fst x \<noteq> i) (ahead s)) < length (ahead s)"
    by (intro length_filter_less [of "(i, x)"]) simp_all
  then show "((out @ [(t, i, f)], advance_order i f (s\<lparr>ahead := filter (\<lambda>x. fst x \<noteq> i) (ahead s)\<rparr>)), (out, s))
      \<in> measure (\<lambda>(out, s). length (ahead s))"
    by (simp add: advance_order_def)
qed simp

declare unblock.simps [simp del]

definition accept :: "str \<Rightarrow> nat \<Rightarrow> bool \<Rightarrow> delta_order \<Rightarrow> (delta list \<times> bool) \<times> delta_order" where
  "accept d i fin s =
     (let (ready, s) =
        (if i = 0 \<and> 0 < next_delta s
         then (let (out, s) = release_order s in (out, s\<lparr>next_delta := 0\<rparr>))
         else ([], s));
          s = (if i = 0 then s\<lparr>skipped := {}\<rparr> else s);
          late = (i \<noteq> next_delta s \<and> i \<in> skipped s);
          s = (if i \<noteq> next_delta s then s\<lparr>skipped := skipped s - {i}\<rparr> else s)
      in if i < next_delta s \<or> map_of (ahead s) i \<noteq> None \<or> late then
           (let (out, s) = release_order s in ((ready @ out @ [(d, i, fin)], False), s))
         else if next_delta s < i then
           ((ready, ahead s = []), s\<lparr>ahead := insert_delta i (d, fin) (ahead s)\<rparr>)
         else
           (let s = s\<lparr>skipped := skipped s - {i}\<rparr>;
                (ready, s) = unblock (ready @ [(d, i, fin)]) (advance_order i fin s)
            in ((ready, False), if ahead s = [] then s\<lparr>order_gen := order_gen s + 1\<rparr> else s)))"

section \<open>Nothing is dropped or doubled\<close>

definition held_deltas :: "delta_order \<Rightarrow> delta list" where
  "held_deltas s = map (\<lambda>(i, t, f). (t, i, f)) (ahead s)"

definition order_ok :: "delta_order \<Rightarrow> bool" where
  "order_ok s \<longleftrightarrow> sorted_wrt (<) (map fst (ahead s)) \<and> (\<forall>x \<in> set (ahead s). next_delta s < fst x)"

lemma advance_order_sel [simp]:
  "ahead (advance_order i f s) = ahead s" "skipped (advance_order i f s) = skipped s"
  "order_gen (advance_order i f s) = order_gen s"
  "next_delta (advance_order i f s) = (if f then 0 else next_index i)"
  "held_deltas (advance_order i f s) = held_deltas s"
  by (simp_all add: advance_order_def held_deltas_def)

lemma next_index_le: "next_index i \<le> i + 1"
  by (simp add: next_index_def)

lemma set_insert_delta: "set (insert_delta i v xs) \<subseteq> insert (i, v) (set xs)"
  by (induction i v xs rule: insert_delta.induct) (auto split: if_splits)

lemma sorted_insert_delta:
  "sorted_wrt (<) (map fst xs) \<Longrightarrow> sorted_wrt (<) (map fst (insert_delta i v xs))"
proof (induction xs)
  case Nil
  then show ?case by simp
next
  case (Cons x xs)
  obtain j w where x: "x = (j, w)" by (cases x)
  have "fst y \<in> insert i (fst ` set xs)" if "y \<in> set (insert_delta i v xs)" for y
    using set_insert_delta [of i v xs] that by force
  then show ?case using Cons by (fastforce simp: x)
qed

lemma mset_insert_delta:
  "map_of xs i = None \<Longrightarrow> mset (insert_delta i v xs) = add_mset (i, v) (mset xs)"
  by (induction xs) (auto split: if_splits)

lemma fold_advance:
  "\<exists>n. fold (\<lambda>(i, t, f) s. advance_order i f s) held s = s\<lparr>next_delta := n\<rparr>"
proof (induction held arbitrary: s)
  case Nil
  show ?case by (rule exI [of _ "next_delta s"]) simp
next
  case (Cons x held)
  obtain i t f where x: "x = (i, t, f)" by (cases x) auto
  obtain n where "fold (\<lambda>(i, t, f) s. advance_order i f s) held (advance_order i f s) =
      (advance_order i f s)\<lparr>next_delta := n\<rparr>" using Cons.IH by blast
  then have "fold (\<lambda>(i, t, f) s. advance_order i f s) (x # held) s = s\<lparr>next_delta := n\<rparr>"
    by (simp add: x advance_order_def)
  then show ?case by blast
qed

lemma release_order_out:
  "fst (release_order s) = held_deltas s" "ahead (snd (release_order s)) = []"
  "skipped (snd (release_order s)) = skipped s \<union> set (missing s)"
proof -
  let ?s = "s\<lparr>skipped := skipped s \<union> set (missing s), ahead := []\<rparr>"
  have f: "ahead (fold (\<lambda>(i, t, f) s. advance_order i f s) (ahead s) ?s) = []"
    "skipped (fold (\<lambda>(i, t, f) s. advance_order i f s) (ahead s) ?s) = skipped s \<union> set (missing s)"
    using fold_advance [of "ahead s" ?s] by auto
  show "fst (release_order s) = held_deltas s" by (simp add: release_order_def Let_def held_deltas_def)
  show "ahead (snd (release_order s)) = []" "skipped (snd (release_order s)) = skipped s \<union> set (missing s)"
    using f by (simp_all add: release_order_def Let_def)
qed

lemma release_order_ok: "order_ok (snd (release_order s))"
  by (simp add: order_ok_def release_order_out)

lemma sorted_keys_distinct: "sorted_wrt (<) (map fst xs) \<Longrightarrow> distinct (map fst (xs :: (nat \<times> 'a) list))"
  by (simp add: strict_sorted_iff)

lemma mset_filter_key:
  "distinct (map fst xs) \<Longrightarrow> map_of xs i = Some v \<Longrightarrow> mset xs = add_mset (i, v) (mset (filter (\<lambda>x. fst x \<noteq> i) xs))"
proof (induction xs)
  case Nil
  then show ?case by simp
next
  case (Cons x xs)
  show ?case
  proof (cases "fst x = i")
    case True
    then have "i \<notin> fst ` set xs" using Cons.prems(1) by auto
    then have "filter (\<lambda>x. fst x \<noteq> i) xs = xs" by (metis (mono_tags, lifting) filter_True imageI)
    then show ?thesis using True Cons.prems(2) by (cases x) simp
  next
    case False
    then show ?thesis using Cons by (cases x) simp
  qed
qed

lemma unblock_step:
  "map_of (ahead s) (next_delta s) = Some (t, f) \<Longrightarrow>
     unblock out s = unblock (out @ [(t, next_delta s, f)])
       (advance_order (next_delta s) f (s\<lparr>ahead := filter (\<lambda>x. fst x \<noteq> next_delta s) (ahead s)\<rparr>))"
  "map_of (ahead s) (next_delta s) = None \<Longrightarrow> unblock out s = (out, s)"
  by (simp_all add: unblock.simps [of out s] Let_def)

text \<open>The held deltas with keys from the next index on, the form inside \<open>accept\<close>.\<close>

definition order_from :: "delta_order \<Rightarrow> bool" where
  "order_from s \<longleftrightarrow> sorted_wrt (<) (map fst (ahead s)) \<and> (\<forall>x \<in> set (ahead s). next_delta s \<le> fst x)"

lemma sorted_filter_keys: "sorted_wrt (<) (map fst xs) \<Longrightarrow> sorted_wrt (<) (map fst (filter P xs))"
  by (induction xs) auto

lemma order_from_advance:
  assumes "order_from s" "i = next_delta s"
  shows "order_from (advance_order i f (s\<lparr>ahead := filter (\<lambda>x. fst x \<noteq> i) (ahead s)\<rparr>))"
proof -
  have lt: "next_delta s < fst x" if "x \<in> set (ahead s)" "fst x \<noteq> i" for x
    using assms that unfolding order_from_def by (metis le_neq_implies_less)
  have "(if f then 0 else next_index i) \<le> fst x" if "x \<in> set (ahead s)" "fst x \<noteq> i" for x
    using lt [OF that] assms(2) next_index_le [of i] by (cases f) simp_all
  then show ?thesis using assms(1) by (auto simp: order_from_def sorted_filter_keys)
qed

lemma unblock_ok:
  assumes "order_from s"
  shows "order_ok (snd (unblock out s)) \<and>
    mset (fst (unblock out s)) + mset (held_deltas (snd (unblock out s))) = mset out + mset (held_deltas s)"
  using assms
proof (induction out s rule: unblock.induct)
  case (1 out s)
  show ?case
  proof (cases "map_of (ahead s) (next_delta s)")
    case None
    then have "next_delta s \<noteq> fst x" if "x \<in> set (ahead s)" for x
      using that by (metis map_of_eq_None_iff imageI)
    then have "order_ok s" using 1(2) unfolding order_ok_def order_from_def by (metis le_neq_implies_less)
    then show ?thesis by (simp add: unblock_step(2) [OF None])
  next
    case (Some x)
    obtain t f where x: "x = (t, f)" by (cases x)
    let ?s = "advance_order (next_delta s) f (s\<lparr>ahead := filter (\<lambda>x. fst x \<noteq> next_delta s) (ahead s)\<rparr>)"
    have o: "order_from ?s" by (rule order_from_advance [OF 1(2) refl])
    have "mset (ahead s) = add_mset (next_delta s, t, f) (mset (ahead ?s))"
      using mset_filter_key [OF sorted_keys_distinct Some [unfolded x]] 1(2) by (simp add: order_from_def)
    from arg_cong [OF this, of "image_mset (\<lambda>(i, t, f). (t, i, f))"]
    have "mset (held_deltas s) = add_mset (t, next_delta s, f) (mset (held_deltas ?s))"
      by (simp add: held_deltas_def)
    then show ?thesis using 1(1) [OF Some x [symmetric] refl o] by (simp add: unblock_step(1) [OF Some [unfolded x]])
  qed
qed

lemma accept_ok:
  assumes "order_ok s" "accept d i fin s = ((out, gap), s')"
  shows "order_ok s' \<and> mset out + mset (held_deltas s') = mset (held_deltas s) + {#(d, i, fin)#}"
proof -
  obtain ready s1 where r: "(if i = 0 \<and> 0 < next_delta s
         then (let (out, s) = release_order s in (out, s\<lparr>next_delta := 0\<rparr>)) else ([], s)) = (ready, s1)"
    by (cases "if i = 0 \<and> 0 < next_delta s
         then (let (out, s) = release_order s in (out, s\<lparr>next_delta := 0\<rparr>)) else ([], s)")
  define s2 where "s2 = (if i = 0 then s1\<lparr>skipped := {}\<rparr> else s1)"
  define late where "late = (i \<noteq> next_delta s2 \<and> i \<in> skipped s2)"
  define s3 where "s3 = (if i \<noteq> next_delta s2 then s2\<lparr>skipped := skipped s2 - {i}\<rparr> else s2)"
  have 1: "order_ok s1" "mset ready + mset (held_deltas s1) = mset (held_deltas s)"
  proof -
    have "order_ok s1 \<and> mset ready + mset (held_deltas s1) = mset (held_deltas s)"
    proof (cases "i = 0 \<and> 0 < next_delta s")
      case True
      then have "ready = held_deltas s" "s1 = snd (release_order s)\<lparr>next_delta := 0\<rparr>"
        using r release_order_out(1) [of s] by (auto simp: case_prod_beta)
      then show ?thesis using release_order_out(2) [of s] by (simp add: order_ok_def held_deltas_def)
    next
      case False
      then have "ready = [] \<and> s1 = s" using r by (auto split: if_splits)
      then show ?thesis using assms(1) by simp
    qed
    then show "order_ok s1" "mset ready + mset (held_deltas s1) = mset (held_deltas s)" by blast+
  qed
  have 3: "order_ok s3" "held_deltas s3 = held_deltas s1"
    using 1(1) by (auto simp: s3_def s2_def order_ok_def held_deltas_def)
  have a: "accept d i fin s =
      (if i < next_delta s3 \<or> map_of (ahead s3) i \<noteq> None \<or> late then
           (let (out, s) = release_order s3 in ((ready @ out @ [(d, i, fin)], False), s))
         else if next_delta s3 < i then
           ((ready, ahead s3 = []), s3\<lparr>ahead := insert_delta i (d, fin) (ahead s3)\<rparr>)
         else
           (let s = s3\<lparr>skipped := skipped s3 - {i}\<rparr>;
                (ready, s) = unblock (ready @ [(d, i, fin)]) (advance_order i fin s)
            in ((ready, False), if ahead s = [] then s\<lparr>order_gen := order_gen s + 1\<rparr> else s)))"
    using r unfolding accept_def s3_def late_def s2_def Let_def by (auto split: prod.splits)
  consider "i < next_delta s3 \<or> map_of (ahead s3) i \<noteq> None \<or> late"
    | "next_delta s3 < i" "map_of (ahead s3) i = None" "\<not> late"
    | "i = next_delta s3" "map_of (ahead s3) i = None" "\<not> late" by fastforce
  then show ?thesis
  proof cases
    case 1
    then have "out = ready @ held_deltas s3 @ [(d, i, fin)]" "s' = snd (release_order s3)"
      using assms(2) release_order_out(1) [of s3] by (simp_all add: a case_prod_beta)
    then show ?thesis using 3 \<open>mset ready + _ = _\<close> release_order_ok [of s3] release_order_out(2) [of s3]
      by (simp add: held_deltas_def union_ac)
  next
    case 2
    then have e: "out = ready" "s' = s3\<lparr>ahead := insert_delta i (d, fin) (ahead s3)\<rparr>"
      using assms(2) by (auto simp: a split: if_splits)
    have "mset (held_deltas s') = add_mset (d, i, fin) (mset (held_deltas s3))"
      using arg_cong [OF mset_insert_delta [OF 2(2), of "(d, fin)"], of "image_mset (\<lambda>(i, t, f). (t, i, f))"]
      by (simp add: e held_deltas_def)
    moreover have "order_ok s'"
      using 3(1) 2(1) set_insert_delta [of i "(d, fin)" "ahead s3"] sorted_insert_delta [of "ahead s3" i "(d, fin)"]
      by (force simp: order_ok_def e)
    ultimately show ?thesis using 3(2) \<open>mset ready + _ = _\<close> by (simp add: e(1))
  next
    case 3
    let ?t = "advance_order i fin (s3\<lparr>skipped := skipped s3 - {i}\<rparr>)"
    have "order_from ?t"
      using \<open>order_ok s3\<close> 3(1) next_index_le [of i] by (auto simp: order_from_def order_ok_def Suc_le_eq intro: le_trans)
    define u where "u = unblock (ready @ [(d, i, fin)]) ?t"
    have u: "order_ok (snd u)" "mset (fst u) + mset (held_deltas (snd u)) = mset (ready @ [(d, i, fin)]) + mset (held_deltas s3)"
      using unblock_ok [OF \<open>order_from ?t\<close>, of "ready @ [(d, i, fin)]"] by (simp_all add: u_def held_deltas_def)
    have "accept d i fin s = ((fst u, False), if ahead (snd u) = [] then (snd u)\<lparr>order_gen := order_gen (snd u) + 1\<rparr> else snd u)"
      unfolding a u_def using 3 by (simp add: case_prod_beta Let_def)
    then have e: "out = fst u" "held_deltas s' = held_deltas (snd u)" "order_ok s' = order_ok (snd u)"
      using assms(2) by (auto simp: held_deltas_def order_ok_def)
    show ?thesis using u \<open>held_deltas s3 = held_deltas s1\<close> \<open>mset ready + _ = _\<close>
      by (simp add: e)
  qed
qed

end
