(* ===== verification/Delta_Claims.thy ===== *)
theory Delta_Claims imports Delta_Order begin

text \<open>
  What \<open>DeltaOrder\<close> promises: no delta is lost or doubled by any run of arrivals and gap timers, and
  a block whose deltas arrive in any order comes out in index order.
\<close>

section \<open>Runs\<close>

datatype order_event = Arrives str nat bool | Gap_Timer

fun order_step :: "order_event \<Rightarrow> delta_order \<Rightarrow> delta list \<times> delta_order" where
  "order_step (Arrives d i fin) s = (let ((out, gap), s) = accept d i fin s in (out, s))"
| "order_step Gap_Timer s = release_order s"

fun order_run :: "order_event list \<Rightarrow> delta_order \<Rightarrow> delta list \<times> delta_order" where
  "order_run [] s = ([], s)"
| "order_run (e # es) s =
     (let (out, s) = order_step e s; (outs, s) = order_run es s in (out @ outs, s))"

fun arrived :: "order_event list \<Rightarrow> delta list" where
  "arrived [] = []"
| "arrived (Arrives d i fin # es) = (d, i, fin) # arrived es"
| "arrived (Gap_Timer # es) = arrived es"

lemma order_step_ok:
  assumes "order_ok s"
  shows "order_ok (snd (order_step e s)) \<and>
    mset (fst (order_step e s)) + mset (held_deltas (snd (order_step e s))) = mset (held_deltas s) + mset (arrived [e])"
proof (cases e)
  case (Arrives d i fin)
  obtain out gap s' where a: "accept d i fin s = ((out, gap), s')" by (metis prod.exhaust_sel)
  show ?thesis using accept_ok [OF assms a] by (simp add: Arrives a)
next
  case Gap_Timer
  then show ?thesis using release_order_ok [of s] release_order_out [of s] by (simp add: held_deltas_def)
qed

lemma order_run_ok:
  "order_ok s \<Longrightarrow> order_ok (snd (order_run es s)) \<and>
    mset (fst (order_run es s)) + mset (held_deltas (snd (order_run es s))) = mset (held_deltas s) + mset (arrived es)"
proof (induction es arbitrary: s)
  case Nil
  then show ?case by simp
next
  case (Cons e es)
  let ?t = "snd (order_step e s)"
  have e: "order_ok ?t" "mset (fst (order_step e s)) + mset (held_deltas ?t) = mset (held_deltas s) + mset (arrived [e])"
    using order_step_ok [OF Cons.prems] by blast+
  have "mset (arrived (e # es)) = mset (arrived [e]) + mset (arrived es)" by (cases e) simp_all
  then show ?case using Cons.IH [OF e(1)] e(2)
    by (simp add: case_prod_beta) (metis (no_types, lifting) add.assoc add.left_commute)
qed

lemma new_order_ok [simp]: "order_ok new_order" "held_deltas new_order = []"
  by (simp_all add: order_ok_def new_order_def held_deltas_def)

text \<open>C14: No run of arrivals and gap timers loses or doubles a delta: what came out together with what is
  still held is what arrived, and after one more gap timer nothing is held.\<close>

theorem deltas_never_lost:
  "let (out, s) = order_run es new_order; (rest, s') = release_order s
   in mset out + mset (held_deltas s) = mset (arrived es) \<and>
      mset (out @ rest) = mset (arrived es) \<and> held_deltas s' = []"
  using order_run_ok [OF new_order_ok(1), of es] release_order_out [of "snd (order_run es new_order)"]
  by (simp add: case_prod_beta) (simp add: held_deltas_def)

section \<open>A block in any order\<close>

text \<open>The deltas of a block: only the last one is final.\<close>

definition block :: "str list \<Rightarrow> delta list" where
  "block ts = map (\<lambda>i. (ts ! i, i, i + 1 = length ts)) [0..<length ts]"

definition in_block :: "str list \<Rightarrow> delta list \<Rightarrow> delta_order \<Rightarrow> nat \<Rightarrow> bool" where
  "in_block ts out s k \<longleftrightarrow> out = take k (block ts) \<and> k \<le> length ts \<and> skipped s = {} \<and>
     next_delta s = (if k < length ts then k else 0) \<and>
     (\<forall>x \<in> set (ahead s). fst x < length ts \<and> k \<le> fst x \<and> snd x = (ts ! fst x, fst x + 1 = length ts))"

lemma length_block [simp]: "length (block ts) = length ts"
  by (simp add: block_def)

lemma block_nth: "i < length ts \<Longrightarrow> block ts ! i = (ts ! i, i, i + 1 = length ts)"
  by (simp add: block_def)

lemma take_block: "k < length ts \<Longrightarrow> take (k + 1) (block ts) = take k (block ts) @ [(ts ! k, k, k + 1 = length ts)]"
  by (simp add: take_Suc_conv_app_nth block_nth)

lemma in_block_next:
  assumes "k < length ts" "length ts \<le> 2 ^ 32" "in_block ts out s k"
  shows "in_block ts (out @ [(ts ! k, k, k + 1 = length ts)])
    (advance_order k (k + 1 = length ts) (s\<lparr>ahead := filter (\<lambda>x. fst x \<noteq> k) (ahead s)\<rparr>)) (k + 1)"
proof -
  have "out @ [(ts ! k, k, k + 1 = length ts)] = take (k + 1) (block ts)"
    using take_block [OF assms(1)] assms(3) by (simp add: in_block_def)
  moreover have "k + 1 \<noteq> length ts \<Longrightarrow> next_index k = k + 1" using assms(1,2) by (simp add: next_index_def)
  ultimately show ?thesis using assms(1,3) by (auto simp: in_block_def)
qed

lemma unblock_in_block:
  "in_block ts out s k \<Longrightarrow> length ts \<le> 2 ^ 32 \<Longrightarrow> \<exists>k'. in_block ts (fst (unblock out s)) (snd (unblock out s)) k'"
proof (induction out s arbitrary: k rule: unblock.induct)
  case (1 out s)
  show ?case
  proof (cases "map_of (ahead s) (next_delta s)")
    case None
    show ?thesis by (rule exI [of _ k]) (simp add: unblock_step(2) [OF None] 1(2))
  next
    case (Some x)
    then have mem: "(next_delta s, x) \<in> set (ahead s)" by (rule map_of_SomeD)
    then have k: "k < length ts" "next_delta s = k" "x = (ts ! k, k + 1 = length ts)"
      using 1(2) by (force simp: in_block_def split: if_splits)+
    from 1(1) [OF Some k(3) [symmetric] refl, unfolded k(2), OF in_block_next [OF k(1) 1(3,2)] 1(3)]
    show ?thesis using unblock_step(1) [OF Some [unfolded k(3)], of out] k(2) by simp
  qed
qed

lemma unblock_append: "unblock (xs @ out) s = (xs @ fst (unblock out s), snd (unblock out s))"
proof (induction out s arbitrary: xs rule: unblock.induct)
  case (1 out s)
  show ?case
  proof (cases "map_of (ahead s) (next_delta s)")
    case None
    then show ?thesis by (simp add: unblock_step(2))
  next
    case (Some x)
    obtain t f where x: "x = (t, f)" by (cases x)
    from 1 [OF Some x [symmetric] refl, of xs] show ?thesis
      using unblock_step(1) [OF Some [unfolded x], of out] unblock_step(1) [OF Some [unfolded x], of "xs @ out"] by simp
  qed
qed

lemma accept_in_block:
  assumes ib: "in_block ts out s k" and n: "length ts \<le> 2 ^ 32" and ok: "order_ok s"
    and i: "i < length ts" "k \<le> i" "i \<notin> fst ` set (ahead s)"
    and a: "accept (ts ! i) i (i + 1 = length ts) s = ((new, gap), s')"
  shows "\<exists>k'. in_block ts (out @ new) s' k'"
proof -
  have nx: "next_delta s = k" "skipped s = {}" using ib i by (auto simp: in_block_def)
  have fresh: "map_of (ahead s) i = None" using i(3) by (simp add: map_of_eq_None_iff)
  have s0: "s\<lparr>skipped := {}\<rparr> = s" using nx(2) by simp
  show ?thesis
  proof (cases "k < i")
    case True
    then have "new = [] \<and> s' = s\<lparr>ahead := insert_delta i (ts ! i, i + 1 = length ts) (ahead s)\<rparr>"
      using a nx fresh s0 by (auto simp: accept_def Let_def)
    then show ?thesis using ib True i set_insert_delta [of i "(ts ! i, i + 1 = length ts)" "ahead s"]
      by (intro exI [of _ k]) (force simp: in_block_def)
  next
    case False
    then have ik: "i = k" using i(2) by simp
    have "filter (\<lambda>x. fst x \<noteq> k) (ahead s) = ahead s" using i(3) ik by (metis (mono_tags, lifting) filter_True imageI)
    then have s1: "s\<lparr>ahead := filter (\<lambda>x. fst x \<noteq> k) (ahead s)\<rparr> = s" by simp
    define b where "b = block ts ! k"
    define u where "u = unblock [b] (advance_order k (k + 1 = length ts) s)"
    have "accept (ts ! i) i (i + 1 = length ts) s =
        ((fst u, False), if ahead (snd u) = [] then (snd u)\<lparr>order_gen := order_gen (snd u) + 1\<rparr> else snd u)"
      using fresh i(1) by (auto simp: accept_def Let_def case_prod_beta u_def b_def block_nth nx ik s0)
    then have s': "new = fst u" "s' = (if ahead (snd u) = [] then (snd u)\<lparr>order_gen := order_gen (snd u) + 1\<rparr> else snd u)"
      using a by simp_all
    have u: "in_block ts (out @ new) s' = in_block ts (out @ fst u) (snd u)"
      unfolding s' in_block_def by simp
    obtain k' where "in_block ts (fst (unblock (out @ [b]) (advance_order k (k + 1 = length ts) s)))
        (snd (unblock (out @ [b]) (advance_order k (k + 1 = length ts) s))) k'"
      using unblock_in_block [OF in_block_next [OF _ n ib] n] i(1) ik s1 by (metis b_def block_nth)
    then show ?thesis unfolding u by (auto simp: u_def unblock_append)
  qed
qed

text \<open>The deltas of the block that have not come yet are not held and not behind.\<close>

definition arrivals :: "delta list \<Rightarrow> order_event list" where
  "arrivals ds = map (\<lambda>(d, i, fin). Arrives d i fin) ds"

lemma arrived_arrivals [simp]: "arrived (arrivals ds) = ds"
  by (induction ds) (auto simp: arrivals_def)

lemma order_run_snoc:
  "order_run (es @ [e]) s =
     (fst (order_run es s) @ fst (order_step e (snd (order_run es s))), snd (order_step e (snd (order_run es s))))"
  by (induction es arbitrary: s) (simp_all add: case_prod_beta)

lemma arrivals_in_block:
  assumes "length ts \<le> 2 ^ 32" "distinct ds" "set ds \<subseteq> set (block ts)"
  shows "\<exists>k. in_block ts (fst (order_run (arrivals ds) new_order)) (snd (order_run (arrivals ds) new_order)) k"
  using assms(2,3)
proof (induction ds rule: rev_induct)
  case Nil
  have "in_block ts [] new_order 0" by (auto simp: in_block_def new_order_def)
  then show ?case by (auto simp: arrivals_def)
next
  case (snoc d ds)
  let ?out = "fst (order_run (arrivals ds) new_order)" and ?s = "snd (order_run (arrivals ds) new_order)"
  obtain k where k: "in_block ts ?out ?s k" using snoc by auto
  obtain i where i: "i < length ts" "d = (ts ! i, i, i + 1 = length ts)"
    using snoc.prems(2) by (auto simp: block_def)
  note ok = order_run_ok [OF new_order_ok(1), of "arrivals ds"]
  then have all: "mset ?out + mset (held_deltas ?s) = mset ds" by simp
  have d: "d \<notin> set ds" using snoc.prems(1) by simp
  have "k \<le> i"
  proof (rule ccontr)
    assume "\<not> k \<le> i"
    then have "d \<in> set (take k (block ts))"
      using i by (auto simp: in_set_conv_nth block_nth intro!: exI [of _ i])
    then have "d \<in># mset ds" using k all by (metis UnI1 in_block_def set_mset_mset set_mset_union)
    then show False using d by simp
  qed
  moreover have "i \<notin> fst ` set (ahead ?s)"
  proof
    assume "i \<in> fst ` set (ahead ?s)"
    then have "(i, ts ! i, i + 1 = length ts) \<in> set (ahead ?s)" using k by (force simp: in_block_def)
    then have "d \<in> set (held_deltas ?s)" by (force simp: held_deltas_def i(2))
    then have "d \<in># mset ds" using all by (metis UnI2 set_mset_mset set_mset_union)
    then show False using d by simp
  qed
  moreover obtain new gap s' where a: "accept (ts ! i) i (i + 1 = length ts) ?s = ((new, gap), s')"
    by (metis prod.exhaust_sel)
  ultimately obtain k' where "in_block ts (?out @ new) s' k'"
    using accept_in_block [OF k assms(1) _ i(1) _ _ a] ok by blast
  then show ?case using i(2) a by (auto simp: arrivals_def order_run_snoc)
qed

lemma block_in_order:
  assumes "length ts \<le> 2 ^ 32" "mset ds = mset (block ts)"
  shows "fst (order_run (arrivals ds) new_order) = block ts \<and>
    held_deltas (snd (order_run (arrivals ds) new_order)) = [] \<and>
    next_delta (snd (order_run (arrivals ds) new_order)) = 0"
proof -
  let ?out = "fst (order_run (arrivals ds) new_order)" and ?s = "snd (order_run (arrivals ds) new_order)"
  have "distinct (block ts)" by (auto simp: block_def distinct_map inj_on_def)
  then have "distinct ds" "set ds = set (block ts)"
    using assms(2) by (metis mset_eq_imp_distinct_iff, metis set_mset_mset)
  then obtain k where k: "in_block ts ?out ?s k" using arrivals_in_block [OF assms(1)] by blast
  have all: "mset ?out + mset (held_deltas ?s) = mset (block ts)"
    and ok: "order_ok ?s"
    using order_run_ok [OF new_order_ok(1), of "arrivals ds"] assms(2) by simp_all
  have kl: "k = length ts"
  proof (rule ccontr)
    assume "k \<noteq> length ts"
    then have l: "k < length ts" using k by (simp add: in_block_def)
    let ?b = "block ts ! k"
    have "?b \<in># mset (block ts)" using l by simp
    then have "?b \<in> set ?out \<or> ?b \<in> set (held_deltas ?s)" using all by (metis UnE set_mset_mset set_mset_union)
    moreover have "?b \<notin> set (take k (block ts))"
      using l by (auto simp: in_set_conv_nth block_nth)
    ultimately have "k \<in> fst ` set (ahead ?s)"
      using k l by (force simp: in_block_def held_deltas_def block_nth)
    then show False using ok k l by (auto simp: order_ok_def in_block_def)
  qed
  then have out: "?out = block ts" using k by (simp add: in_block_def)
  then have "held_deltas ?s = []" using all by simp
  then show ?thesis using out k kl by (simp add: in_block_def)
qed

text \<open>After a block the order is as before the first one, but for the count of its releases.\<close>

definition between_blocks :: "delta_order \<Rightarrow> bool" where
  "between_blocks s \<longleftrightarrow> next_delta s = 0 \<and> ahead s = [] \<and> skipped s = {}"

lemma block_ends:
  assumes "length ts \<le> 2 ^ 32" "mset ds = mset (block ts)"
  shows "between_blocks (snd (order_run (arrivals ds) new_order))"
proof -
  have "distinct (block ts)" by (auto simp: block_def distinct_map inj_on_def)
  then have "distinct ds" "set ds = set (block ts)"
    using assms(2) by (metis mset_eq_imp_distinct_iff, metis set_mset_mset)
  then have "skipped (snd (order_run (arrivals ds) new_order)) = {}"
    using arrivals_in_block [OF assms(1), of ds] by (auto simp: in_block_def)
  then show ?thesis using block_in_order [OF assms] by (simp add: between_blocks_def held_deltas_def)
qed

lemma block_sorted:
  "length ts \<le> 2 ^ 32 \<Longrightarrow> mset ds = mset (block ts) \<Longrightarrow> fst (order_run (arrivals ds) new_order) = block ts"
  using block_in_order by blast

text \<open>Whatever order the deltas of a block arrive in, they come out in index order, each once, with nothing
  left behind.\<close>

theorem block_in_index_order:
  assumes "length ts \<le> 2 ^ 32" "mset ds = mset (block ts)"
  shows "fst (order_run (arrivals ds) new_order) = block ts \<and>
    held_deltas (snd (order_run (arrivals ds) new_order)) = [] \<and>
    next_delta (snd (order_run (arrivals ds) new_order)) = 0"
  using block_in_order [OF assms] .

text \<open>A block of three whose deltas arrive last first.\<close>

theorem block_in_index_order_witness:
  "fst (order_run (arrivals [(lit ''c'', 2, True), (lit ''a'', 0, False), (lit ''b'', 1, False)]) new_order) =
     [(lit ''a'', 0, False), (lit ''b'', 1, False), (lit ''c'', 2, True)]"
  using block_in_index_order [of "[lit ''a'', lit ''b'', lit ''c'']"
    "[(lit ''c'', 2, True), (lit ''a'', 0, False), (lit ''b'', 1, False)]"]
  by (simp add: block_def upt_conv_Cons del: lit_Cons)

section \<open>What a gap costs\<close>

text \<open>The indices given up when a gap times out are all those between the expected one and the held one: one
  delta far ahead makes the rules collect as many numbers as its index says, up to \<open>2 ^ 32\<close>, and with
  the last index of all the one after it wraps to 0, as if a block had ended.\<close>

theorem gap_collects_every_index:
  assumes "0 < i" "i < 2 ^ 32"
  shows "let ((out, gap), s) = accept d i False new_order; (rest, s') = release_order s
    in out = [] \<and> gap \<and> rest = [(d, i, False)] \<and> length (missing s) = i \<and> skipped s' = {..<i} \<and>
       next_delta s' = (if i = 2 ^ 32 - 1 then 0 else i + 1)"
proof -
  have a: "accept d i False new_order = (([], True), new_order\<lparr>ahead := [(i, d, False)]\<rparr>)"
    using assms(1) by (simp add: accept_def new_order_def)
  have m: "missing (new_order\<lparr>ahead := [(i, d, False)]\<rparr>) = [0..<i]"
    by (simp add: missing_def new_order_def)
  have "next_index i = (if i = 2 ^ 32 - 1 then 0 else i + 1)"
    using assms(2) by (auto simp: next_index_def)
  moreover have "release_order (new_order\<lparr>ahead := [(i, d, False)]\<rparr>) =
      ([(d, i, False)], \<lparr>next_delta = next_index i, ahead = [], order_gen = 1, skipped = {..<i}\<rparr>)"
    unfolding release_order_def m by (simp add: new_order_def advance_order_def atLeast0LessThan)
  ultimately show ?thesis unfolding a by (simp add: m)
qed

theorem gap_collects_every_index_witness:
  "length (missing (snd (accept (lit ''x'') (2 ^ 32 - 1) False new_order))) = 2 ^ 32 - 1"
  using gap_collects_every_index [of "2 ^ 32 - 1" "lit ''x''"]
  by (simp add: case_prod_beta Let_def del: lit_Cons)

end
