(* ===== verification/Agent_Settings.thy ===== *)
theory Agent_Settings imports Prelude begin

text \<open>
  The settings of the agent extension: \<open>crates/sonara-agent/src/settings.rs\<close>, and the names of the
  earcons in \<open>earcon.rs\<close>. Durations are milliseconds, the integers of the settings natural numbers.
\<close>

section \<open>Enumerations and their protocol names\<close>

datatype verbosity = Everything | Read_Code | Skip_Code

definition verbosity_parse :: "str \<Rightarrow> verbosity option" where
  "verbosity_parse s =
     (if s = lit ''everything'' \<or> s = lit ''all'' then Some Everything
      else if s = lit ''read_code'' then Some Read_Code
      else if s = lit ''skip_code'' \<or> s = lit ''medium'' \<or> s = lit ''quiet'' then Some Skip_Code
      else None)"

primrec verbosity_str :: "verbosity \<Rightarrow> str" where
  "verbosity_str Everything = lit ''everything''"
| "verbosity_str Read_Code = lit ''read_code''"
| "verbosity_str Skip_Code = lit ''skip_code''"

datatype read_mode = Immediate | Queue | Done | Final

definition read_mode_parse :: "str \<Rightarrow> read_mode option" where
  "read_mode_parse s =
     (if s = lit ''immediate'' then Some Immediate
      else if s = lit ''queue'' then Some Queue
      else if s = lit ''done'' then Some Done
      else if s = lit ''final'' then Some Final
      else None)"

primrec read_mode_str :: "read_mode \<Rightarrow> str" where
  "read_mode_str Immediate = lit ''immediate''"
| "read_mode_str Queue = lit ''queue''"
| "read_mode_str Done = lit ''done''"
| "read_mode_str Final = lit ''final''"

datatype flush_scope = Scope_Session | Scope_All

definition flush_scope_parse :: "str \<Rightarrow> flush_scope option" where
  "flush_scope_parse s =
     (if s = lit ''session'' then Some Scope_Session else if s = lit ''all'' then Some Scope_All else None)"

primrec flush_scope_str :: "flush_scope \<Rightarrow> str" where
  "flush_scope_str Scope_Session = lit ''session''"
| "flush_scope_str Scope_All = lit ''all''"

datatype background_policy = Background_All | Earcon_Only

definition background_parse :: "str \<Rightarrow> background_policy option" where
  "background_parse s =
     (if s = lit ''all'' then Some Background_All else if s = lit ''earcon_only'' then Some Earcon_Only else None)"

primrec background_str :: "background_policy \<Rightarrow> str" where
  "background_str Background_All = lit ''all''"
| "background_str Earcon_Only = lit ''earcon_only''"

datatype style = Tidy | Natural | Brief

definition style_parse :: "str \<Rightarrow> style option" where
  "style_parse s =
     (if s = lit ''tidy'' then Some Tidy else if s = lit ''natural'' then Some Natural
      else if s = lit ''brief'' then Some Brief else None)"

primrec style_str :: "style \<Rightarrow> str" where
  "style_str Tidy = lit ''tidy''"
| "style_str Natural = lit ''natural''"
| "style_str Brief = lit ''brief''"

datatype summary_command = Claude | Codex

definition summary_command_parse :: "str \<Rightarrow> summary_command option" where
  "summary_command_parse s =
     (if s = lit ''claude'' then Some Claude else if s = lit ''codex'' then Some Codex else None)"

primrec summary_command_str :: "summary_command \<Rightarrow> str" where
  "summary_command_str Claude = lit ''claude''"
| "summary_command_str Codex = lit ''codex''"

section \<open>Earcons\<close>

datatype earcon =
    Earcon_Choice | Earcon_Permission | Earcon_Error | Turn_Done | Nav_Swell | Nav_Edge | Session_Change
  | Summary_Failed | Step_Tick

definition all_earcons :: "earcon list" where
  "all_earcons =
     [Earcon_Choice, Earcon_Permission, Earcon_Error, Turn_Done, Nav_Swell, Nav_Edge, Session_Change,
      Summary_Failed, Step_Tick]"

primrec earcon_str :: "earcon \<Rightarrow> str" where
  "earcon_str Earcon_Choice = lit ''choice''"
| "earcon_str Earcon_Permission = lit ''permission''"
| "earcon_str Earcon_Error = lit ''error''"
| "earcon_str Turn_Done = lit ''turn_done''"
| "earcon_str Nav_Swell = lit ''nav''"
| "earcon_str Nav_Edge = lit ''nav_edge''"
| "earcon_str Session_Change = lit ''session_change''"
| "earcon_str Summary_Failed = lit ''summary_failed''"
| "earcon_str Step_Tick = lit ''step''"

definition earcon_parse :: "str \<Rightarrow> earcon option" where
  "earcon_parse s = find (\<lambda>e. earcon_str e = s) all_earcons"

definition is_key :: "earcon \<Rightarrow> bool" where
  "is_key e \<longleftrightarrow> e = Nav_Swell \<or> e = Nav_Edge \<or> e = Step_Tick"

section \<open>The settings\<close>

definition MUTE_LEVEL_MAX :: nat where "MUTE_LEVEL_MAX = 2"
definition MINQUEUE_MAX :: nat where "MINQUEUE_MAX = 10"
definition SUMMARY_TIMEOUT_S :: "nat \<times> nat" where "SUMMARY_TIMEOUT_S = (15, 300)"
definition SUMMARY_SETTLE_MS_MAX :: nat where "SUMMARY_SETTLE_MS_MAX = 5000"

record summary_settings =
  sum_enabled :: bool
  sum_command :: summary_command
  sum_model :: str
  timeout_s :: nat
  settle_ms :: nat
  sum_style :: style
  sum_prompt :: "str option"

definition default_summaries :: summary_settings where
  "default_summaries =
     \<lparr>sum_enabled = False, sum_command = Claude, sum_model = lit ''haiku'', timeout_s = 60,
      settle_ms = 600, sum_style = Natural, sum_prompt = None\<rparr>"

definition sum_timeout :: "summary_settings \<Rightarrow> nat" where
  "sum_timeout s = timeout_s s * 1000"

definition hold_cap :: "summary_settings \<Rightarrow> nat" where
  "hold_cap s = sum_timeout s + 5 * 1000"

definition watchdog :: "summary_settings \<Rightarrow> nat" where
  "watchdog s = sum_timeout s * 2"

definition settle :: "summary_settings \<Rightarrow> nat" where
  "settle s = settle_ms s"

record settings =
  mute_level :: nat
  verbosity :: verbosity
  read_mode :: read_mode
  minqueue :: nat
  background :: background_policy
  summaries :: summary_settings
  flush_scope :: flush_scope
  question_step :: bool

definition default_settings :: settings where
  "default_settings =
     \<lparr>mute_level = 0, verbosity = Everything, read_mode = Queue, minqueue = 1,
      background = Earcon_Only, summaries = default_summaries, flush_scope = Scope_Session,
      question_step = False\<rparr>"

section \<open>Names\<close>

text \<open>Every name the extension prints is read back as what it printed.\<close>

lemma verbosity_str_eq: "verbosity_parse (verbosity_str v) = Some v"
  by (cases v) (simp_all add: verbosity_parse_def)

lemma read_mode_str_eq: "read_mode_parse (read_mode_str m) = Some m"
  by (cases m) (simp_all add: read_mode_parse_def)

lemma flush_scope_str_eq: "flush_scope_parse (flush_scope_str f) = Some f"
  by (cases f) (simp_all add: flush_scope_parse_def)

lemma background_str_eq: "background_parse (background_str b) = Some b"
  by (cases b) (simp_all add: background_parse_def)

lemma style_str_eq: "style_parse (style_str s) = Some s"
  by (cases s) (simp_all add: style_parse_def)

lemma summary_command_str_eq: "summary_command_parse (summary_command_str c) = Some c"
  by (cases c) (simp_all add: summary_command_parse_def)

lemma earcon_str_eq: "earcon_parse (earcon_str e) = Some e"
  by (cases e) (simp_all add: earcon_parse_def all_earcons_def)

lemma verbosity_parse_Some: "verbosity_parse s = Some v \<Longrightarrow>
    s = verbosity_str v \<or> s \<in> {lit ''all'', lit ''medium'', lit ''quiet''}"
  by (simp add: verbosity_parse_def split: if_splits del: lit_Cons lit_Nil) (metis verbosity_str.simps)+

lemma read_mode_parse_Some: "read_mode_parse s = Some m \<Longrightarrow> s = read_mode_str m"
  by (auto simp: read_mode_parse_def split: if_splits simp del: lit_Cons lit_Nil)

lemma earcon_parse_Some: "earcon_parse s = Some e \<Longrightarrow> s = earcon_str e"
  by (auto simp: earcon_parse_def find_Some_iff)

text \<open>Every name the settings print reads back as the value it was printed from; a reading mode and an
  earcon have no other name, a verbosity only the three older ones \<open>all\<close>, \<open>medium\<close> and \<open>quiet\<close>.\<close>

theorem names_round_trip:
  "verbosity_parse (verbosity_str v) = Some v \<and> read_mode_parse (read_mode_str m) = Some m \<and>
   flush_scope_parse (flush_scope_str f) = Some f \<and> background_parse (background_str b) = Some b \<and>
   style_parse (style_str st) = Some st \<and> summary_command_parse (summary_command_str c) = Some c \<and>
   earcon_parse (earcon_str e) = Some e \<and>
   (read_mode_parse s = Some m \<longleftrightarrow> s = read_mode_str m) \<and> (earcon_parse s = Some e \<longleftrightarrow> s = earcon_str e) \<and>
   (verbosity_parse s = Some v \<longleftrightarrow>
      s = verbosity_str v \<or> (s, v) \<in> {(lit ''all'', Everything), (lit ''medium'', Skip_Code), (lit ''quiet'', Skip_Code)})"
proof -
  have "verbosity_parse (lit ''all'') = Some Everything" "verbosity_parse (lit ''medium'') = Some Skip_Code"
    "verbosity_parse (lit ''quiet'') = Some Skip_Code"
    by (simp_all add: verbosity_parse_def)
  then have "verbosity_parse s = Some v \<longleftrightarrow>
      s = verbosity_str v \<or> (s, v) \<in> {(lit ''all'', Everything), (lit ''medium'', Skip_Code), (lit ''quiet'', Skip_Code)}"
    using verbosity_str_eq [of v] verbosity_parse_Some [of s v] by auto
  then show ?thesis
    using verbosity_str_eq read_mode_str_eq flush_scope_str_eq background_str_eq style_str_eq
      summary_command_str_eq earcon_str_eq read_mode_parse_Some earcon_parse_Some by blast
qed

end
