(* ===== verification/Decision_Text.thy ===== *)
theory Decision_Text imports Prelude begin

text \<open>
  The spoken text of a decision: \<open>crates/sonara-agent/src/decision.rs\<close>. \<open>dec\<close> prints a number the way
  \<open>{}\<close> does in a format string.
\<close>

section \<open>Numbers in decimal\<close>

fun dec :: "nat \<Rightarrow> str" where
  "dec n = (if n < 10 then [48 + n] else dec (n div 10) @ [48 + n mod 10])"

declare dec.simps [simp del]

lemma dec_digits: "c \<in> set (dec n) \<Longrightarrow> 48 \<le> c \<and> c \<le> 57"
proof (induction n rule: dec.induct)
  case (1 n)
  then show ?case by (subst (asm) dec.simps) (auto split: if_splits)
qed

lemma dec_nonempty [simp]: "dec n \<noteq> []"
  by (subst dec.simps) simp

text \<open>Reading the digits gives the number back.\<close>

definition undec :: "str \<Rightarrow> nat" where
  "undec s = foldl (\<lambda>n c. n * 10 + (c - 48)) 0 s"

lemma undec_dec: "undec (dec n) = n"
proof (induction n rule: dec.induct)
  case (1 n)
  show ?case
  proof (cases "n < 10")
    case True
    then show ?thesis by (simp add: dec.simps [of n] undec_def)
  next
    case False
    then show ?thesis using 1 by (simp add: dec.simps [of n] undec_def)
  qed
qed

lemma dec_inj: "dec m = dec n \<longleftrightarrow> m = n"
  by (metis undec_dec)

section \<open>Decisions\<close>

record choice =
  label :: str
  description :: "str option"

datatype ask_kind = Question | Permission | Plan

definition ask_kind_parse :: "str \<Rightarrow> ask_kind option" where
  "ask_kind_parse s =
     (if s = lit ''question'' then Some Question
      else if s = lit ''permission'' then Some Permission
      else if s = lit ''plan'' then Some Plan
      else None)"

primrec ask_kind_str :: "ask_kind \<Rightarrow> str" where
  "ask_kind_str Question = lit ''question''"
| "ask_kind_str Permission = lit ''permission''"
| "ask_kind_str Plan = lit ''plan''"

definition ends_sentence :: "str \<Rightarrow> bool" where
  "ends_sentence s \<longleftrightarrow> s \<noteq> [] \<and> last s \<in> {46, 33, 63}"

text \<open>One option, \<open>i\<close> counting from 0.\<close>

definition option_seg :: "nat \<Rightarrow> choice \<Rightarrow> str" where
  "option_seg i c =
     (let seg = lit ''Option '' @ dec (i + 1) @ lit '': '' @ label c @ lit ''.'';
          desc = (case description c of None \<Rightarrow> [] | Some d \<Rightarrow> trim d)
      in if desc \<noteq> [] then seg @ lit '' '' @ desc @ (if ends_sentence desc then [] else lit ''.'') else seg)"

fun option_segs :: "nat \<Rightarrow> choice list \<Rightarrow> str list" where
  "option_segs i [] = []"
| "option_segs i (c # cs) =
     (if label c = [] then option_segs (i + 1) cs else option_seg i c # option_segs (i + 1) cs)"

definition question_text :: "str \<Rightarrow> choice list \<Rightarrow> bool \<Rightarrow> str" where
  "question_text t options multi =
     (let t = trim t;
          segs = option_segs 0 options;
          head = (if multi
                  then (if t \<noteq> [] then t @ lit '' '' else []) @
                       lit ''This is a multi-select; you can pick more than one.''
                  else t)
      in if head \<noteq> [] \<and> segs \<noteq> [] then head @ lit '' '' @ join (lit '' '') segs
         else if segs \<noteq> [] then join (lit '' '') segs
         else if head \<noteq> [] then head
         else lit ''A question needs your answer.'')"

definition plan_text :: "str \<Rightarrow> str" where
  "plan_text t =
     (let t = trim t
      in if t = [] then lit ''A plan is ready for your review.'' else lit ''Plan ready. '' @ t)"

definition permission_text :: "str \<Rightarrow> str" where
  "permission_text t = (let t = trim t in if t = [] then lit ''Permission needed.'' else t)"

definition numbered_question :: "nat \<Rightarrow> nat \<Rightarrow> str \<Rightarrow> str" where
  "numbered_question k n body =
     lit ''Question '' @ dec (k + 1) @ lit '' of '' @ dec n @ lit ''. '' @ body"

definition with_extras :: "str \<Rightarrow> str list \<Rightarrow> str" where
  "with_extras base extras =
     (let extras = filter (\<lambda>e. e \<noteq> []) (map trim extras)
      in if extras = [] then base else base @ lit '' '' @ join (lit '' '') extras)"

section \<open>What is spoken\<close>

lemma ask_kind_str_eq: "ask_kind_parse (ask_kind_str k) = Some k"
  by (cases k) (simp_all add: ask_kind_parse_def)

lemma join_Cons: "ts \<noteq> [] \<Longrightarrow> join sep (s # ts) = s @ sep @ join sep ts"
  by (cases ts) simp_all

lemma option_segs_eq:
  "option_segs i cs = map (\<lambda>(j, c). option_seg j c) (filter (\<lambda>(j, c). label c \<noteq> []) (zip [i..<i + length cs] cs))"
proof (induction cs arbitrary: i)
  case Nil
  then show ?case by simp
next
  case (Cons c cs)
  have "zip [i..<i + length (c # cs)] (c # cs) = (i, c) # zip [i + 1..<i + 1 + length cs] cs"
    using upt_conv_Cons [of i "i + length (c # cs)"] by (simp del: upt_Suc)
  then show ?case using Cons [of "i + 1"] by simp
qed

lemma option_seg_nonempty [simp]: "option_seg i c \<noteq> []"
  by (simp add: option_seg_def Let_def)

text \<open>The parts of a question in the order they are spoken.\<close>

definition question_parts :: "str \<Rightarrow> choice list \<Rightarrow> bool \<Rightarrow> str list" where
  "question_parts t options multi =
     filter (\<lambda>p. p \<noteq> []) [trim t, if multi then lit ''This is a multi-select; you can pick more than one.'' else []] @
     map (\<lambda>(j, c). option_seg j c) (filter (\<lambda>(j, c). label c \<noteq> []) (zip [0..<length options] options))"

text \<open>A question is spoken as its text, the multi-select notice and its options with a label, each numbered by its
  place in the whole list, one space apart; with none of them a fixed sentence stands in, so a question is
  never silent. With extras, the ones that are not blank follow, one space apart.\<close>

theorem question_text_parts:
  "question_text t options multi =
     (if question_parts t options multi = [] then lit ''A question needs your answer.''
      else join (lit '' '') (question_parts t options multi)) \<and>
   with_extras base extras = join (lit '' '') (base # filter (\<lambda>e. e \<noteq> []) (map trim extras))"
proof -
  let ?segs = "map (\<lambda>(j, c). option_seg j c) (filter (\<lambda>(j, c). label c \<noteq> []) (zip [0..<length options] options))"
  define m where "m = lit ''This is a multi-select; you can pick more than one.''"
  define sp where "sp = lit '' ''"
  have m: "m \<noteq> []" by (simp add: m_def)
  have q: "question_text t options multi =
      (let head = (if multi then (if trim t \<noteq> [] then trim t @ sp else []) @ m else trim t)
       in if head \<noteq> [] \<and> ?segs \<noteq> [] then head @ sp @ join sp ?segs
          else if ?segs \<noteq> [] then join sp ?segs else if head \<noteq> [] then head
          else lit ''A question needs your answer.'')"
    using option_segs_eq [of 0 options] unfolding question_text_def Let_def m_def sp_def by (simp del: lit_Cons)
  have p: "question_parts t options multi = filter (\<lambda>p. p \<noteq> []) [trim t, if multi then m else []] @ ?segs"
    by (simp add: question_parts_def m_def del: lit_Cons)
  define segs where "segs = ?segs"
  have "question_text t options multi =
      (if question_parts t options multi = [] then lit ''A question needs your answer.''
       else join sp (question_parts t options multi))"
    unfolding q p segs_def [symmetric] using m
    by (cases "segs = []"; cases "trim t = []"; cases multi) (simp_all add: join_Cons del: lit_Cons)
  moreover have "with_extras base extras = join sp (base # filter (\<lambda>e. e \<noteq> []) (map trim extras))"
    unfolding with_extras_def Let_def sp_def [symmetric] by (simp add: join_Cons)
  ultimately show ?thesis by (simp add: sp_def del: lit_Cons)
qed

end
