(* ===== verification/Agent_State.thy ===== *)
theory Agent_State imports Chunks Delta_Order Agent_Settings Decision_Text "HOL-Library.AList" "HOL-Library.List_Lexorder" begin

text \<open>
  The state of the agent rules, from \<open>crates/sonara-agent/src/rules.rs\<close>: actions, timers, notes, turns
  and \<open>Rules\<close>, with the primitives every rule is built from.

  Every function of the source that returns or fills a vector of \<open>Action\<close>s appends to the field \<open>acts\<close>
  here, in the same order; the driver takes the field after a call. \<open>note\<close> appends to \<open>noted\<close>. The hash
  map of turns and the two maps of releases are association lists. A time stamp is a finite \<open>f64\<close> that
  is only compared with \<open><\<close>: an integer (every finite \<open>f64\<close> is a multiple of the smallest one).

  Parameters (\<open>agent_lib\<close>): the streaming assembler of \<open>sonara-core\<close> as a state with a feed function,
  \<open>normalize_for_speech\<close>, \<open>str::to_lowercase\<close> and \<open>char::is_alphanumeric\<close>.
\<close>

declare lit_Cons [simp del] lit_Nil [simp del]

section \<open>Parameters\<close>

record 'a agent_lib =
  asm_new :: 'a
  asm_feed :: "str \<Rightarrow> nat \<Rightarrow> bool \<Rightarrow> 'a \<Rightarrow> asm_chunk list \<times> 'a"
  normalize :: "str \<Rightarrow> str"
  lower :: "str \<Rightarrow> str"
  alnum :: "nat \<Rightarrow> bool"

definition SUMMARY_MIN_CHARS :: nat where "SUMMARY_MIN_CHARS = 280"
definition RETIRED_TURNS :: nat where "RETIRED_TURNS = 16"
definition LEAD_IN_WAIT :: nat where "LEAD_IN_WAIT = 2000"
definition DELTA_GAP :: nat where "DELTA_GAP = 400"
definition SHORT_REPLY :: nat where "SHORT_REPLY = 40"
definition LONG_BEFORE :: nat where "LONG_BEFORE = 60"

section \<open>Actions, timers and notes\<close>

datatype spoken_kind =
    K_Prose | K_Code | K_Question | K_Permission | K_Plan | K_Tool | K_Summary | K_Earcon | K_Review

datatype timer =
    Settle str nat
  | Hold_Cap str nat
  | Watchdog nat
  | Gap str nat
  | Lead_In str nat

record job =
  job_token :: nat
  job_channel :: str
  job_gen :: nat
  job_text :: str
  job_leadin :: bool
  job_seq :: "nat option"

text \<open>\<open>Speak\<close> and \<open>Store\<close>: channel, text, decision, (release,) kind.\<close>

datatype action =
    Speak str str bool bool spoken_kind
  | Earcon earcon
  | Wipe str bool
  | Store str str bool spoken_kind
  | Silence
  | Summarize job
  | Set_Timer nat timer

record agent_note =
  note_channel :: "str option"
  note_kind :: spoken_kind
  note_what :: str
  note_text :: "str option"

text \<open>The notes' wording, by the place that leaves them.\<close>

datatype reason =
    Not_Played earcon
  | Dropped_Held nat str read_mode
  | Dropped_Deltas nat str
  | Kept_Read nat
  | Late_Not_Waiting
  | Late_Read_Already
  | Read_With_Before
  | Lead_In_Again
  | Reply_Again
  | Flushed_Reply
  | Delta_Waits nat "nat list"
  | Deltas_Released nat "nat list" str
  | Not_Spoken_Code
  | Kept_For_Summary
  | Held_Prose nat read_mode nat
  | Kept_For_Navigation nat nat
  | No_First_Question nat nat
  | Permission_Of_Question
  | Waits_Settle
  | Waits_Lead_In
  | Not_Announced_Flushed
  | Not_Announced verbosity
  | Dropped_Kept nat str
  | Cancelled str "str list"
  | Dropped_Decision str
  | Spoken_Now
  | No_Lead_In
  | Not_Made nat
  | Held_Behind
  | Moved_On
  | Lead_In_Nothing

definition debug_list :: "nat list \<Rightarrow> str" where
  "debug_list xs = lit ''['' @ join (lit '', '') (map dec xs) @ lit '']''"

primrec what_text :: "reason \<Rightarrow> str" where
  "what_text (Not_Played e) = earcon_str e @ lit '' not played: mute level 2''"
| "what_text (Dropped_Held n why mode) =
     lit ''dropped: '' @ dec n @ lit '' held chunk(s) ('' @ why @ lit '', read_mode '' @ read_mode_str mode @ lit '')''"
| "what_text (Dropped_Deltas n why) =
     lit ''dropped: '' @ dec n @ lit '' delta(s) held for their order ('' @ why @ lit '', #286)''"
| "what_text (Kept_Read n) =
     lit ''read as it is: '' @ dec n @ lit '' chunk(s) kept for the summary (summaries turned off)''"
| "what_text Late_Not_Waiting = lit ''dropped: a late lead-in whose question is not waiting (#360)''"
| "what_text Late_Read_Already = lit ''dropped: the late lead-in was read already (#360)''"
| "what_text Read_With_Before =
     lit ''read with the text before it: the reply has under '' @ dec SHORT_REPLY @
     lit '' words, the text before it '' @ dec LONG_BEFORE @ lit '' or more (read_mode final)''"
| "what_text Lead_In_Again = lit ''dropped: the question's lead-in again (#323)''"
| "what_text Reply_Again = lit ''dropped: the final reply again (read_mode final)''"
| "what_text Flushed_Reply = lit ''dropped: flushed reply''"
| "what_text (Delta_Waits i miss) =
     lit ''held: delta '' @ dec i @ lit '' waits for delta(s) '' @ debug_list miss @ lit '' (out of order, #286)''"
| "what_text (Deltas_Released n miss why) =
     lit ''released: '' @ dec n @ lit '' delta(s) held for their order without delta(s) '' @ debug_list miss @
     lit '' ('' @ why @ lit '', #286)''"
| "what_text Not_Spoken_Code = lit ''not spoken: verbosity skip_code''"
| "what_text Kept_For_Summary = lit ''kept for the summary (summaries on)''"
| "what_text (Held_Prose n mode minq) =
     (case mode of
        Immediate \<Rightarrow> lit ''held: '' @ dec n @ lit '' chunk(s) wait for the end of the paragraph (send mode message)''
      | Queue \<Rightarrow> lit ''held: '' @ dec n @ lit '' chunk(s) wait for minqueue '' @ dec minq @ lit '' or the turn end''
      | _ \<Rightarrow> lit ''held: waits for the turn end (read_mode '' @ read_mode_str mode @ lit ''), '' @ dec n @ lit '' chunk(s)'')"
| "what_text (Kept_For_Navigation i n) =
     lit ''kept for navigation: question '' @ dec (i + 1) @ lit '' of '' @ dec n @ lit '' (#283)''"
| "what_text (No_First_Question i n) =
     lit ''question '' @ dec (i + 1) @ lit '' of '' @ dec n @ lit '' has no first question: read on its own (#283)''"
| "what_text Permission_Of_Question =
     lit ''not spoken: the permission prompt of the question awaiting its answer (#11)''"
| "what_text Waits_Settle = lit ''waits for the settle window (summaries on)''"
| "what_text Waits_Lead_In = lit ''waits for its lead-in (at most '' @ dec LEAD_IN_WAIT @ lit '' ms)''"
| "what_text Not_Announced_Flushed = lit ''not announced: flushed reply''"
| "what_text (Not_Announced v) = lit ''not announced: verbosity '' @ verbosity_str v"
| "what_text (Dropped_Kept n why) =
     lit ''dropped: '' @ dec n @ lit '' chunk(s) kept for the summary ('' @ why @ lit '')''"
| "what_text (Cancelled why work) = lit ''cancelled ('' @ why @ lit ''): '' @ join (lit '', '') work"
| "what_text (Dropped_Decision why) = lit ''dropped: waited for the summary ('' @ why @ lit '')''"
| "what_text Spoken_Now = lit ''spoken now: the summary it waited for was flushed''"
| "what_text No_Lead_In = lit ''read without its lead-in: none came in '' @ dec LEAD_IN_WAIT @ lit '' ms''"
| "what_text (Not_Made lvl) =
     lit ''not made: mute level '' @ dec lvl @ lit '', the prose is stored as it is''"
| "what_text Held_Behind = lit ''held behind the summary in flight (context first)''"
| "what_text Moved_On = lit ''dropped: the session moved on (a new turn, an answer or a stop)''"
| "what_text Lead_In_Nothing = lit ''lead-in dropped: the summarizer gave nothing''"

declare what_text.simps [simp del]

section \<open>Questions\<close>

record ask =
  ask_kind :: ask_kind
  ask_text :: str
  ask_options :: "choice list"
  ask_multi :: bool
  ask_notes :: "str option"
  ask_hint :: "str option"
  ask_hint_once :: "str option"
  ask_set :: "(nat \<times> nat) option"
  lead_in_pending :: bool
  lead_in_id :: "str option"

definition new_ask :: "ask_kind \<Rightarrow> str \<Rightarrow> ask" where
  "new_ask k t =
     \<lparr>ask_kind = k, ask_text = t, ask_options = [], ask_multi = False, ask_notes = None, ask_hint = None,
      ask_hint_once = None, ask_set = None, lead_in_pending = False, lead_in_id = None\<rparr>"

datatype step = Step_Next | Step_Previous

record nav =
  nav_entry :: nat
  nav_text :: str
  nav_index :: nat
  nav_size :: nat
  nav_edge :: bool

record question_set =
  qs_size :: nat
  bodies :: "str option list"
  qs_texts :: "str option list"
  qs_reviewed :: bool
  qs_notes :: "str option"
  qs_hint :: "str option"
  qs_hint_once :: "str option"
  qs_current :: nat
  qs_entry :: "nat option"
  heard :: bool

record read_set =
  rs_size :: nat
  rs_texts :: "str option list"
  rs_entries :: "nat option list"
  rs_current :: nat
  rs_reviewed :: bool
  following :: bool

datatype shown = Shown_Text str | Shown_Review

datatype shown_move = Land nav | Move_Entry nat nat nat | Move_Review

record decision =
  dec_id :: nat
  dec_text :: str
  dec_kind :: spoken_kind

record release =
  rel_channel :: str
  rel_gen :: nat
  rel_text :: str
  rel_leadin :: bool
  rel_summary :: "str option"

record lead_in_wait =
  wait_gen :: nat
  wait_id :: "str option"
  wait_seen :: "str list"

section \<open>Turns\<close>

record 'a turn =
  assembler :: 'a
  turn_t :: "int option"
  current :: "str option"
  retired :: "str list"
  awaiting :: bool
  hinted :: bool
  questions :: "question_set option"
  read_set :: "read_set option"
  lead_in :: "str option"
  lead_in_wait :: "lead_in_wait option"
  reply :: "(str \<times> str option) option"
  replied :: "str option"
  held_prose :: "(str \<times> bool) list"
  new_para :: bool
  last_index :: "nat option"
  order :: delta_order
  released :: bool
  ended :: bool
  batch_cut :: bool
  skip_reply :: bool
  prose :: "str list"
  voiced :: nat
  turn_gen :: nat
  settle_gen :: nat
  settle_armed :: bool
  pending :: "decision list"
  held :: "(nat \<times> decision list) option"
  inflight :: nat
  last_token :: nat

definition new_turn :: "'a agent_lib \<Rightarrow> nat \<Rightarrow> 'a turn" where
  "new_turn L g =
     \<lparr>assembler = asm_new L, turn_t = None, current = None, retired = [], awaiting = False,
      hinted = False, questions = None, read_set = None, lead_in = None, lead_in_wait = None,
      reply = None, replied = None, held_prose = [], new_para = False, last_index = None,
      order = new_order, released = False, ended = False, batch_cut = False, skip_reply = False,
      prose = [], voiced = 0, turn_gen = g, settle_gen = 0, settle_armed = False, pending = [],
      held = None, inflight = 0, last_token = 0\<rparr>"

definition take_kept :: "'a turn \<Rightarrow> (str \<times> bool) list \<times> 'a turn" where
  "take_kept c = (map (\<lambda>t. (t, False)) (drop (voiced c) (prose c)), c\<lparr>voiced := length (prose c)\<rparr>)"

definition stale :: "str option \<Rightarrow> int option \<Rightarrow> 'a turn \<Rightarrow> bool" where
  "stale trn t c \<longleftrightarrow>
     (case (t, turn_t c) of (Some t, Some start) \<Rightarrow> t < start | _ \<Rightarrow> False) \<or>
     (case trn of Some i \<Rightarrow> i \<in> set (retired c) | None \<Rightarrow> False)"

section \<open>The rules\<close>

record 'a rules =
  settings :: settings
  turns :: "(str \<times> 'a turn) list"
  next_gen :: nat
  next_decision :: nat
  next_token :: nat
  whole :: bool
  next_seq :: nat
  serve_seq :: nat
  parked :: "(nat \<times> release) list"
  watched :: "(nat \<times> release) list"
  noted :: "agent_note list"
  acts :: "action list"

definition new_rules :: "settings \<Rightarrow> 'a rules" where
  "new_rules s =
     \<lparr>settings = s, turns = [], next_gen = 0, next_decision = 0, next_token = 0, whole = False,
      next_seq = 0, serve_seq = 0, parked = [], watched = [], noted = [], acts = []\<rparr>"

definition set_whole_messages :: "bool \<Rightarrow> 'a rules \<Rightarrow> 'a rules" where
  "set_whole_messages b r = r\<lparr>whole := b\<rparr>"

definition take_notes :: "'a rules \<Rightarrow> agent_note list \<times> 'a rules" where
  "take_notes r = (noted r, r\<lparr>noted := []\<rparr>)"

definition leave_note :: "str option \<Rightarrow> spoken_kind \<Rightarrow> reason \<Rightarrow> str option \<Rightarrow> 'a rules \<Rightarrow> 'a rules" where
  "leave_note ch k what t r =
     r\<lparr>noted := noted r @ [\<lparr>note_channel = ch, note_kind = k, note_what = what_text what, note_text = t\<rparr>]\<rparr>"

definition emit :: "action \<Rightarrow> 'a rules \<Rightarrow> 'a rules" where
  "emit a r = r\<lparr>acts := acts r @ [a]\<rparr>"

definition fresh_gen :: "'a rules \<Rightarrow> nat \<times> 'a rules" where
  "fresh_gen r = (next_gen r + 1, r\<lparr>next_gen := next_gen r + 1\<rparr>)"

text \<open>\<open>turn\<close> of the source makes the channel's state when there is none (\<open>ensure\<close>) and gives access to
  it: \<open>turn_of\<close> reads it, \<open>on_turn\<close> changes it.\<close>

definition ensure :: "'a agent_lib \<Rightarrow> str \<Rightarrow> 'a rules \<Rightarrow> 'a rules" where
  "ensure L ch r =
     (case map_of (turns r) ch of
        Some c \<Rightarrow> r
      | None \<Rightarrow> let (g, r) = fresh_gen r in r\<lparr>turns := AList.update ch (new_turn L g) (turns r)\<rparr>)"

definition turn_of :: "'a agent_lib \<Rightarrow> str \<Rightarrow> 'a rules \<Rightarrow> 'a turn" where
  "turn_of L ch r =
     (case map_of (turns r) ch of Some c \<Rightarrow> c | None \<Rightarrow> new_turn L (next_gen r + 1))"

definition on_turn :: "'a agent_lib \<Rightarrow> str \<Rightarrow> ('a turn \<Rightarrow> 'a turn) \<Rightarrow> 'a rules \<Rightarrow> 'a rules" where
  "on_turn L ch f r =
     (let r = ensure L ch r in r\<lparr>turns := AList.update ch (f (turn_of L ch r)) (turns r)\<rparr>)"

text \<open>\<open>turns.get_mut\<close>: a change only where there is state.\<close>

definition upd_turn :: "str \<Rightarrow> ('a turn \<Rightarrow> 'a turn) \<Rightarrow> 'a rules \<Rightarrow> 'a rules" where
  "upd_turn ch f r =
     (case map_of (turns r) ch of
        None \<Rightarrow> r
      | Some c \<Rightarrow> r\<lparr>turns := AList.update ch (f c) (turns r)\<rparr>)"

definition agent_channels :: "'a rules \<Rightarrow> str list" where
  "agent_channels r = sort (map fst (turns r))"

definition is_awaiting :: "str \<Rightarrow> 'a rules \<Rightarrow> bool" where
  "is_awaiting ch r = (case map_of (turns r) ch of Some c \<Rightarrow> awaiting c | None \<Rightarrow> False)"

definition summaries_on :: "'a rules \<Rightarrow> bool" where
  "summaries_on r = sum_enabled (summaries (settings r))"

definition is_stale :: "str \<Rightarrow> str option \<Rightarrow> int option \<Rightarrow> 'a rules \<Rightarrow> bool" where
  "is_stale ch trn t r = (case map_of (turns r) ch of Some c \<Rightarrow> stale trn t c | None \<Rightarrow> False)"

definition tracks :: "str \<Rightarrow> 'a rules \<Rightarrow> bool" where
  "tracks ch r \<longleftrightarrow> map_of (turns r) ch \<noteq> None"

definition writing :: "str \<Rightarrow> 'a rules \<Rightarrow> bool" where
  "writing ch r = (case map_of (turns r) ch of Some c \<Rightarrow> \<not> ended c | None \<Rightarrow> False)"

section \<open>Speaking\<close>

definition play_earcon :: "earcon \<Rightarrow> 'a rules \<Rightarrow> 'a rules" where
  "play_earcon e r =
     (if mute_level (settings r) < 2 then emit (Earcon e) r
      else leave_note None K_Earcon (Not_Played e) None r)"

definition say :: "str \<Rightarrow> str \<Rightarrow> bool \<Rightarrow> bool \<Rightarrow> spoken_kind \<Rightarrow> 'a rules \<Rightarrow> 'a rules" where
  "say ch t decision rel k r =
     (if trim t = [] then r
      else if mute_level (settings r) = 0 then emit (Speak ch t decision rel k) r
      else emit (Store ch t decision k) r)"

definition speak :: "str \<Rightarrow> str \<Rightarrow> bool \<Rightarrow> spoken_kind \<Rightarrow> 'a rules \<Rightarrow> 'a rules" where
  "speak ch t decision k r = say ch t decision False k r"

definition speak_all :: "str \<Rightarrow> str list \<Rightarrow> 'a rules \<Rightarrow> 'a rules" where
  "speak_all ch ts r = fold (\<lambda>t r. speak ch t False K_Prose r) ts r"

text \<open>The decisions of a list, one \<open>speak\<close> each.\<close>

definition speak_decisions :: "str \<Rightarrow> decision list \<Rightarrow> 'a rules \<Rightarrow> 'a rules" where
  "speak_decisions ch ds r = fold (\<lambda>d r. speak ch (dec_text d) True (dec_kind d) r) ds r"

definition play :: "earcon \<Rightarrow> 'a rules \<Rightarrow> 'a rules" where
  "play e r = play_earcon e r"

definition set_mute_level :: "nat \<Rightarrow> 'a rules \<Rightarrow> 'a rules" where
  "set_mute_level lvl r =
     (let r = r\<lparr>settings := (settings r)\<lparr>mute_level := min lvl MUTE_LEVEL_MAX\<rparr>\<rparr>
      in if 1 \<le> mute_level (settings r) then emit Silence r else r)"

end
