(* ===== verification/Agent_Prose.thy ===== *)
theory Agent_Prose imports Agent_State begin

text \<open>
  Streamed prose, from \<open>crates/sonara-agent/src/rules.rs\<close>: the deltas of a block are put in order,
  assembled into chunks, and spoken or held as the reading mode says.
\<close>

section \<open>Texts\<close>

definition code_block :: "str \<Rightarrow> str list \<Rightarrow> str \<Rightarrow> str" where
  "code_block summary ls end_line =
     (if ls = [] then summary
      else CODE_START # summary @ concat (map (\<lambda>l. 10 # CODE_LINE # l) ls) @ 10 # end_line)"

definition fold_text :: "'a agent_lib \<Rightarrow> str \<Rightarrow> str" where
  "fold_text L s = filter (alnum L) (lower L s)"

text \<open>\<open>str::starts_with\<close> and \<open>str::contains\<close>.\<close>

definition starts_with :: "str \<Rightarrow> str \<Rightarrow> bool" where
  "starts_with s p \<longleftrightarrow> take (length p) s = p"

fun contains :: "str \<Rightarrow> str \<Rightarrow> bool" where
  "contains [] p \<longleftrightarrow> p = []"
| "contains (c # s) p \<longleftrightarrow> starts_with (c # s) p \<or> contains s p"

section \<open>Held prose\<close>

definition drop_held :: "'a agent_lib \<Rightarrow> str \<Rightarrow> str \<Rightarrow> 'a rules \<Rightarrow> nat \<times> 'a rules" where
  "drop_held L ch why r =
     (let c = turn_of L ch r;
          n = length (held_prose c);
          deltas = length (fst (release_order (order c)));
          r = on_turn L ch (\<lambda>c. c\<lparr>held_prose := [], order := snd (release_order (order c))\<rparr>) r;
          mode = read_mode (settings r);
          r = (if 0 < n then leave_note (Some ch) K_Prose (Dropped_Held n why mode) None r else r);
          r = (if 0 < deltas then leave_note (Some ch) K_Prose (Dropped_Deltas deltas why) None r else r)
      in (n + deltas, r))"

definition note_kept :: "str \<Rightarrow> nat \<Rightarrow> 'a rules \<Rightarrow> 'a rules" where
  "note_kept ch n r = (if 0 < n then leave_note (Some ch) K_Prose (Kept_Read n) None r else r)"

definition hold_kept :: "'a agent_lib \<Rightarrow> str \<Rightarrow> 'a rules \<Rightarrow> nat \<times> 'a rules" where
  "hold_kept L ch r =
     (let kept = fst (take_kept (turn_of L ch r));
          n = length kept;
          r = on_turn L ch (\<lambda>c. (snd (take_kept c))\<lparr>held_prose := kept @ held_prose c\<rparr>) r
      in (n, note_kept ch n r))"

text \<open>The held chunks as one text (whole messages): a paragraph after a blank line, the rest after a space.\<close>

fun join_held :: "str \<Rightarrow> (str \<times> bool) list \<Rightarrow> str" where
  "join_held acc [] = acc"
| "join_held acc ((t, para) # ts) =
     join_held ((if utf8_len SPOKEN < utf8_size acc
                 then acc @ (if para then [10, 10] else [32]) else acc) @ t) ts"

definition flush_prose_upto :: "'a agent_lib \<Rightarrow> str \<Rightarrow> nat \<Rightarrow> 'a rules \<Rightarrow> 'a rules" where
  "flush_prose_upto L ch n r =
     (let n = min n (length (held_prose (turn_of L ch r)));
          chunks = take n (held_prose (turn_of L ch r));
          r = on_turn L ch (\<lambda>c. c\<lparr>held_prose := drop n (held_prose c)\<rparr>) r
      in if chunks = [] then r
         else if \<not> whole r then speak_all ch (map (\<lambda>(t, para). SPOKEN # t) chunks) r
         else speak ch (join_held [SPOKEN] chunks) False K_Prose r)"

definition flush_prose :: "'a agent_lib \<Rightarrow> str \<Rightarrow> 'a rules \<Rightarrow> 'a rules" where
  "flush_prose L ch r = flush_prose_upto L ch (length (held_prose (turn_of L ch r))) r"

section \<open>The settle window\<close>

definition arm_settle :: "'a agent_lib \<Rightarrow> str \<Rightarrow> 'a rules \<Rightarrow> 'a rules" where
  "arm_settle L ch r =
     (let (g, r) = fresh_gen r;
          after = settle (summaries (settings r));
          r = on_turn L ch (\<lambda>c. c\<lparr>settle_gen := g, settle_armed := True\<rparr>) r
      in emit (Set_Timer after (Settle ch g)) r)"

section \<open>Assembling deltas\<close>

text \<open>
  What \<open>assemble\<close> collects beside the turn: the texts to speak (each with whether it starts a paragraph), the
  code announcements not spoken, and the number of texts before the last paragraph end.
\<close>

record 'a gathered =
  g_turn :: "'a turn"
  g_texts :: "(str \<times> bool) list"
  g_skipped :: "str list"
  g_breaks :: "nat option"

fun gather_chunk :: "bool \<Rightarrow> asm_chunk \<Rightarrow> 'a gathered \<Rightarrow> 'a gathered" where
  "gather_chunk skip_code (Text t) s =
     s\<lparr>g_turn := (g_turn s)\<lparr>prose := prose (g_turn s) @ [t], new_para := False\<rparr>,
       g_texts := g_texts s @ [(t, new_para (g_turn s))]\<rparr>"
| "gather_chunk skip_code (Code summary ls end_line) s =
     (if skip_code
      then s\<lparr>g_turn := (g_turn s)\<lparr>prose := prose (g_turn s) @ [summary]\<rparr>, g_skipped := g_skipped s @ [summary]\<rparr>
      else s\<lparr>g_turn := (g_turn s)\<lparr>prose := prose (g_turn s) @ [summary], new_para := False\<rparr>,
             g_texts := g_texts s @ [(code_block summary ls end_line, new_para (g_turn s))]\<rparr>)"
| "gather_chunk skip_code ParagraphBreak s =
     s\<lparr>g_turn := (g_turn s)\<lparr>new_para := True\<rparr>, g_breaks := Some (length (g_texts s))\<rparr>"

definition gather_delta :: "'a agent_lib \<Rightarrow> bool \<Rightarrow> delta \<Rightarrow> 'a gathered \<Rightarrow> 'a gathered" where
  "gather_delta L skip_code d s =
     (let (t, i, fin) = d;
          c = g_turn s;
          c = c\<lparr>new_para := new_para c \<or> (i = 0 \<and> (case last_index c of Some j \<Rightarrow> j \<noteq> 0 | None \<Rightarrow> False)),
                last_index := Some i\<rparr>;
          (chunks, asm) = asm_feed L t i fin (assembler c);
          s = fold (gather_chunk skip_code) chunks (s\<lparr>g_turn := c\<lparr>assembler := asm\<rparr>\<rparr>)
      in if fin
         then s\<lparr>g_turn := (g_turn s)\<lparr>new_para := True\<rparr>, g_breaks := Some (length (g_texts s))\<rparr>
         else s)"

definition gather :: "'a agent_lib \<Rightarrow> bool \<Rightarrow> bool \<Rightarrow> delta list \<Rightarrow> 'a turn \<Rightarrow> 'a gathered" where
  "gather L sums skip_code ds c =
     (let (kept, c) = (if sums then ([], c) else take_kept c);
          s = fold (gather_delta L skip_code) ds
                \<lparr>g_turn = c, g_texts = kept, g_skipped = [], g_breaks = None\<rparr>
      in if sums then s else s\<lparr>g_turn := (g_turn s)\<lparr>voiced := length (prose (g_turn s))\<rparr>\<rparr>)"

text \<open>The reading modes: whether the held prose goes now.\<close>

definition ready_now :: "'a rules \<Rightarrow> 'a turn \<Rightarrow> bool" where
  "ready_now r c \<longleftrightarrow>
     released c \<or>
     (case read_mode (settings r) of
        Immediate \<Rightarrow> \<not> whole r
      | Queue \<Rightarrow> minqueue (settings r) \<le> length (held_prose c)
      | _ \<Rightarrow> False)"

definition note_texts :: "str \<Rightarrow> spoken_kind \<Rightarrow> reason \<Rightarrow> str list \<Rightarrow> 'a rules \<Rightarrow> 'a rules" where
  "note_texts ch k what ts r = fold (\<lambda>t r. leave_note (Some ch) k what (Some t) r) ts r"

definition deliver :: "'a agent_lib \<Rightarrow> str \<Rightarrow> (str \<times> bool) list \<Rightarrow> nat option \<Rightarrow> 'a rules \<Rightarrow> 'a rules" where
  "deliver L ch texts breaks r =
     (let mode = read_mode (settings r);
          para_end = (whole r \<and> mode = Immediate \<and> breaks \<noteq> None)
      in if texts = [] \<and> \<not> para_end then r
         else
           (let first = length (held_prose (turn_of L ch r));
                r = on_turn L ch (\<lambda>c. c\<lparr>held_prose := held_prose c @ texts\<rparr>) r;
                ready = ready_now r (turn_of L ch r);
                upto = first + (case breaks of Some b \<Rightarrow> b | None \<Rightarrow> 0);
                r = (if ready then flush_prose L ch r
                     else if para_end \<and> 0 < upto then flush_prose_upto L ch upto r
                     else r);
                n = length (held_prose (turn_of L ch r))
            in if 0 < n \<and> \<not> ready
               then leave_note (Some ch) K_Prose (Held_Prose n mode (minqueue (settings r))) None r
               else r))"

definition assemble :: "'a agent_lib \<Rightarrow> str \<Rightarrow> delta list \<Rightarrow> 'a rules \<Rightarrow> 'a rules" where
  "assemble L ch deltas r =
     (if deltas = [] then r
      else
        (let sums = summaries_on r;
             skip_code = (verbosity (settings r) = Skip_Code);
             c = turn_of L ch r;
             g = gather L sums skip_code deltas c;
             r = on_turn L ch (\<lambda>_. g_turn g) r;
             armed = settle_armed (g_turn g);
             r = note_kept ch (if sums then 0 else length (fst (take_kept c))) r;
             r = note_texts ch K_Code Not_Spoken_Code (g_skipped g) r
         in if sums
            then (let r = note_texts ch K_Prose Kept_For_Summary (map fst (g_texts g)) r
                  in if armed then arm_settle L ch r else r)
            else deliver L ch (g_texts g) (g_breaks g) r))"

definition release_gap :: "'a agent_lib \<Rightarrow> str \<Rightarrow> str \<Rightarrow> 'a rules \<Rightarrow> 'a rules" where
  "release_gap L ch why r =
     (let o1 = order (turn_of L ch r);
          miss = missing o1;
          ready = fst (release_order o1);
          r = on_turn L ch (\<lambda>c. c\<lparr>order := snd (release_order (order c))\<rparr>) r
      in if ready = [] then r
         else assemble L ch ready
                (leave_note (Some ch) K_Prose (Deltas_Released (length ready) miss why) None r))"

section \<open>A streamed delta\<close>

datatype stale = Stale

text \<open>\<open>Result<Vec<Action>, Stale>\<close>: the actions are in the state, which an error leaves as it was.\<close>

type_synonym 'a outcome = "(stale + unit) \<times> 'a rules"

definition skipped_chunk :: "asm_chunk \<Rightarrow> (spoken_kind \<times> str) option" where
  "skipped_chunk ch =
     (case ch of Text t \<Rightarrow> Some (K_Prose, t) | Code summary _ _ \<Rightarrow> Some (K_Code, summary) | ParagraphBreak \<Rightarrow> None)"

definition skip_delta :: "'a agent_lib \<Rightarrow> str \<Rightarrow> str \<Rightarrow> nat \<Rightarrow> bool \<Rightarrow> 'a rules \<Rightarrow> 'a rules" where
  "skip_delta L ch d i fin r =
     (let (chunks, asm) = asm_feed L d i fin (assembler (turn_of L ch r));
          r = on_turn L ch (\<lambda>c. c\<lparr>assembler := asm\<rparr>) r
      in fold (\<lambda>(k, t) r. leave_note (Some ch) k Flushed_Reply (Some t) r) (List.map_filter skipped_chunk chunks) r)"

definition accept_delta :: "'a agent_lib \<Rightarrow> str \<Rightarrow> str \<Rightarrow> nat \<Rightarrow> bool \<Rightarrow> 'a rules \<Rightarrow> 'a rules" where
  "accept_delta L ch d i fin r =
     (let c = turn_of L ch r;
          r = (if i = 0 \<and> 0 < next_delta (order c) \<and> ahead (order c) \<noteq> []
               then release_gap L ch (lit ''next block'') r else r);
          ((ready, gap), ord) = accept d i fin (order (turn_of L ch r));
          r = on_turn L ch (\<lambda>c. c\<lparr>order := ord\<rparr>) r;
          r = (if gap then
                 (let (g, r) = fresh_gen r;
                      r = on_turn L ch (\<lambda>c. c\<lparr>order := (order c)\<lparr>order_gen := g\<rparr>\<rparr>) r;
                      miss = missing (order (turn_of L ch r));
                      r = emit (Set_Timer DELTA_GAP (Gap ch g)) r
                  in leave_note (Some ch) K_Prose (Delta_Waits i miss) None r)
               else r)
      in assemble L ch ready r)"

definition stream :: "'a agent_lib \<Rightarrow> str \<Rightarrow> str option \<Rightarrow> str \<Rightarrow> nat \<Rightarrow> bool \<Rightarrow> int option \<Rightarrow> 'a rules \<Rightarrow> 'a outcome" where
  "stream L ch trn d i fin t r =
     (if is_stale ch trn t r then (Inl Stale, r)
      else
        (let r = on_turn L ch (\<lambda>c.
               if i = 0 \<and> fin
               then c\<lparr>lead_in_wait := map_option (\<lambda>w. w\<lparr>wait_seen := wait_seen w @ [fold_text L d]\<rparr>) (lead_in_wait c)\<rparr>
               else c) r;
             c = turn_of L ch r
         in if i = 0 \<and> fin \<and> lead_in c = Some (fold_text L d)
            then (Inr (), leave_note (Some ch) K_Prose Lead_In_Again (Some d) (on_turn L ch (\<lambda>c. c\<lparr>lead_in := None\<rparr>) r))
            else if ended c \<and> (case replied c of Some p \<Rightarrow> contains p (fold_text L d) | None \<Rightarrow> False)
            then (Inr (), leave_note (Some ch) K_Prose Reply_Again (Some d) r)
            else if skip_reply c then (Inr (), skip_delta L ch d i fin r)
            else (Inr (), accept_delta L ch d i fin r)))"

end
