(* ===== verification/Agent_Summary.thy ===== *)
theory Agent_Summary imports Agent_Prose begin

text \<open>
  Summaries, from \<open>crates/sonara-agent/src/rules.rs\<close>: the job of a turn, the reorder buffer that speaks
  turn-end summaries in the order their jobs went out, and the decisions held behind a summary.
\<close>

section \<open>The reorder buffer\<close>

definition alloc :: "'a rules \<Rightarrow> nat \<times> 'a rules" where
  "alloc r = (next_seq r, r\<lparr>next_seq := next_seq r + 1\<rparr>)"

definition apply_release :: "'a agent_lib \<Rightarrow> release \<Rightarrow> 'a rules \<Rightarrow> 'a rules" where
  "apply_release L x r =
     (if map_option turn_gen (map_of (turns r) (rel_channel x)) \<noteq> Some (rel_gen x)
      then leave_note (Some (rel_channel x)) K_Summary Moved_On
             (Some (case rel_summary x of Some s \<Rightarrow> s | None \<Rightarrow> rel_text x)) r
      else
        (case (case rel_summary x of Some s \<Rightarrow> if trim s \<noteq> [] then Some s else None | None \<Rightarrow> None) of
           Some s \<Rightarrow> say (rel_channel x) (normalize L s) False True K_Summary r
         | None \<Rightarrow>
             if rel_leadin x then leave_note (Some (rel_channel x)) K_Summary Lead_In_Nothing None r
             else if trim (rel_text x) = [] then play_earcon Summary_Failed r
             else say (rel_channel x) (rel_text x) False True K_Prose r))"

lemma apply_release_parked [simp]: "parked (apply_release L x r) = parked r"
  by (auto simp: apply_release_def leave_note_def say_def emit_def play_earcon_def split: option.splits)

text \<open>The \<open>while let\<close> of \<open>land\<close>.\<close>

function serve :: "'a agent_lib \<Rightarrow> 'a rules \<Rightarrow> 'a rules" where
  "serve L r =
     (case map_of (parked r) (serve_seq r) of
        None \<Rightarrow> r
      | Some x \<Rightarrow>
          serve L (apply_release L x
            (r\<lparr>parked := AList.delete (serve_seq r) (parked r), serve_seq := serve_seq r + 1\<rparr>)))"
  by pat_completeness auto
termination
proof (relation "measure (\<lambda>(L, r). length (parked r))")
  fix L :: "'a agent_lib" and r :: "'a rules" and x
  assume "map_of (parked r) (serve_seq r) = Some x"
  then have "(serve_seq r, x) \<in> set (parked r)" by (rule map_of_SomeD)
  then have "length (AList.delete (serve_seq r) (parked r)) < length (parked r)"
    unfolding AList.delete_eq by (intro length_filter_less [of "(serve_seq r, x)"]) auto
  then show "((L, apply_release L x
      (r\<lparr>parked := AList.delete (serve_seq r) (parked r), serve_seq := serve_seq r + 1\<rparr>)), (L, r))
      \<in> measure (\<lambda>(L, r). length (parked r))"
    by simp
qed simp

declare serve.simps [simp del]

definition land :: "'a agent_lib \<Rightarrow> nat option \<Rightarrow> release \<Rightarrow> 'a rules \<Rightarrow> 'a rules" where
  "land L seq x r =
     (case seq of
        None \<Rightarrow> apply_release L x r
      | Some k \<Rightarrow>
          if k < serve_seq r \<or> map_of (parked r) k \<noteq> None then r
          else serve L (r\<lparr>watched := AList.delete k (watched r), parked := AList.update k x (parked r)\<rparr>))"

section \<open>The summary of a turn\<close>

definition speak_chunks :: "str \<Rightarrow> str list \<Rightarrow> 'a rules \<Rightarrow> 'a rules" where
  "speak_chunks ch chunks r =
     (if whole r then speak ch (join (lit '' '') chunks) False K_Prose r else speak_all ch chunks r)"

definition dispatch_summary :: "'a agent_lib \<Rightarrow> str \<Rightarrow> bool \<Rightarrow> nat \<Rightarrow> str \<Rightarrow> 'a rules \<Rightarrow> 'a rules" where
  "dispatch_summary L ch leadin g t r =
     (let r = r\<lparr>next_token := next_token r + 1\<rparr>;
          token = next_token r;
          r = on_turn L ch (\<lambda>c. c\<lparr>last_token := token, inflight := inflight c + 1\<rparr>) r;
          (seq, r) = (if leadin then (None, r) else let (k, r) = alloc r in (Some k, r));
          r = (case seq of
                 None \<Rightarrow> r
               | Some k \<Rightarrow>
                   emit (Set_Timer (watchdog (summaries (settings r))) (Watchdog k))
                     (r\<lparr>watched := AList.update k
                        \<lparr>rel_channel = ch, rel_gen = g, rel_text = t, rel_leadin = False, rel_summary = None\<rparr>
                        (watched r)\<rparr>))
      in emit (Summarize
           \<lparr>job_token = token, job_channel = ch, job_gen = g, job_text = t, job_leadin = leadin, job_seq = seq\<rparr>) r)"

definition maybe_summarize ::
  "'a agent_lib \<Rightarrow> str \<Rightarrow> bool \<Rightarrow> str option \<Rightarrow> 'a rules \<Rightarrow> bool \<times> 'a rules" where
  "maybe_summarize L ch leadin focused r =
     (if \<not> summaries_on r then
        (let (n, r) = hold_kept L ch r in (False, if 0 < n then flush_prose L ch r else r))
      else
        (let c = turn_of L ch r;
             chunks = drop (voiced c) (prose c);
             t = trim (join (lit '' '') chunks);
             g = turn_gen c
         in if t = [] then (False, ensure L ch r)
            else
              (let r = on_turn L ch (\<lambda>c. c\<lparr>voiced := length (prose c)\<rparr>) r
               in if 0 < mute_level (settings r) then
                    (False, speak_chunks ch chunks
                       (leave_note (Some ch) K_Summary (Not_Made (mute_level (settings r))) None r))
                  else if length t < SUMMARY_MIN_CHARS \<and> \<not> leadin then
                    (False,
                     if focused = Some ch then speak_chunks ch chunks r
                     else let (k, r) = alloc r
                          in land L (Some k)
                               \<lparr>rel_channel = ch, rel_gen = g, rel_text = t, rel_leadin = False, rel_summary = None\<rparr> r)
                  else (True, dispatch_summary L ch leadin g t r))))"

section \<open>Decisions behind a summary\<close>

definition enqueue_or_hold :: "'a agent_lib \<Rightarrow> str \<Rightarrow> decision \<Rightarrow> bool \<Rightarrow> 'a rules \<Rightarrow> 'a rules" where
  "enqueue_or_hold L ch item digesting r =
     (let cap = hold_cap (summaries (settings r));
          c = turn_of L ch r
      in if digesting \<or> 0 < inflight c then
           (let r = on_turn L ch (\<lambda>c. c\<lparr>held := Some (last_token c,
                  (case held c of Some (_, v) \<Rightarrow> v | None \<Rightarrow> []) @ [item])\<rparr>) r;
                r = leave_note (Some ch) (dec_kind item) Held_Behind (Some (dec_text item)) r
            in emit (Set_Timer cap (Hold_Cap ch (dec_id item))) r)
         else speak ch (dec_text item) True (dec_kind item) (flush_prose L ch r))"

definition enqueue_all :: "'a agent_lib \<Rightarrow> str \<Rightarrow> bool \<Rightarrow> decision list \<Rightarrow> 'a rules \<Rightarrow> 'a rules" where
  "enqueue_all L ch digesting items r = fold (\<lambda>item r. enqueue_or_hold L ch item digesting r) items r"

definition digest_done :: "'a agent_lib \<Rightarrow> job \<Rightarrow> str option \<Rightarrow> 'a rules \<Rightarrow> 'a rules" where
  "digest_done L j summary r =
     (let ch = job_channel j;
          items = (case map_of (turns r) ch of
                     Some c \<Rightarrow> (case held c of Some (owner, v) \<Rightarrow> if owner = job_token j then v else [] | None \<Rightarrow> [])
                   | None \<Rightarrow> []);
          r = upd_turn ch (\<lambda>c. c\<lparr>
                held := (case held c of Some (owner, v) \<Rightarrow> if owner = job_token j then None else held c | None \<Rightarrow> None),
                inflight := (if turn_gen c = job_gen j then inflight c - 1 else inflight c)\<rparr>) r;
          r = land L (job_seq j)
                \<lparr>rel_channel = ch, rel_gen = job_gen j, rel_text = job_text j, rel_leadin = job_leadin j,
                 rel_summary = summary\<rparr> r
      in speak_decisions ch items r)"

section \<open>Waiting for a late lead-in\<close>

definition release_lead_in_wait :: "'a agent_lib \<Rightarrow> str \<Rightarrow> 'a rules \<Rightarrow> 'a rules" where
  "release_lead_in_wait L ch r =
     (let r = on_turn L ch (\<lambda>c. c\<lparr>lead_in_wait := None\<rparr>) r
      in if summaries_on r then arm_settle L ch r
         else
           (let items = pending (turn_of L ch r);
                r = on_turn L ch (\<lambda>c. c\<lparr>pending := []\<rparr>) r
            in enqueue_all L ch False items r))"

definition wait_lead_in :: "'a agent_lib \<Rightarrow> str \<Rightarrow> ask \<Rightarrow> 'a rules \<Rightarrow> 'a rules" where
  "wait_lead_in L ch a r =
     (if lead_in_wait (turn_of L ch r) \<noteq> None then ensure L ch r
      else
        (let (g, r) = fresh_gen (ensure L ch r);
             r = on_turn L ch (\<lambda>c. c\<lparr>lead_in_wait := Some \<lparr>wait_gen = g, wait_id = lead_in_id a, wait_seen = []\<rparr>\<rparr>) r
         in emit (Set_Timer LEAD_IN_WAIT (Lead_In ch g)) r))"

end
