(* ===== verification/Agent_Rules.thy ===== *)
theory Agent_Rules imports Agent_Summary begin

text \<open>
  The messages of an agent, from \<open>crates/sonara-agent/src/rules.rs\<close>: lead-ins, replies, turns, decisions,
  tools, answers, stop and flush, and the timers.
\<close>

section \<open>Lead-ins and replies\<close>

definition take_lead_in ::
  "'a agent_lib \<Rightarrow> str \<Rightarrow> str option \<Rightarrow> str \<Rightarrow> str option \<Rightarrow> int option \<Rightarrow> 'a rules \<Rightarrow> 'a outcome" where
  "take_lead_in L ch trn d i t r =
     (if is_stale ch trn t r then (Inl Stale, r)
      else
        (let folded = fold_text L d;
             w = Option.bind (map_of (turns r) ch) lead_in_wait;
             waiting = (case w of Some w \<Rightarrow> i = None \<or> wait_id w = i | None \<Rightarrow> False);
             seen = (case w of Some w \<Rightarrow> folded \<in> set (wait_seen w) | None \<Rightarrow> False)
         in if i \<noteq> None \<and> \<not> waiting
            then (Inr (), leave_note (Some ch) K_Prose Late_Not_Waiting (Some d) r)
            else
              (let (res, r1) =
                 (if seen \<and> folded \<noteq> [] then (Inr (), leave_note (Some ch) K_Prose Late_Read_Already (Some d) r)
                  else if trim d \<noteq> [] then
                    (let r1 = (if read_mode (settings r) = Final
                               then snd (drop_held L ch (lit ''text before the question'') r) else r);
                         skip = skip_reply (turn_of L ch r1);
                         r1 = on_turn L ch (\<lambda>c. c\<lparr>skip_reply := False\<rparr>) r1;
                         (res, r1) = stream L ch trn d 0 True t r1;
                         r1 = on_turn L ch (\<lambda>c. c\<lparr>skip_reply := skip\<rparr>) r1
                     in case res of
                          Inl e \<Rightarrow> (Inl e, r1\<lparr>acts := acts r\<rparr>)
                        | Inr _ \<Rightarrow> (Inr (), on_turn L ch (\<lambda>c. c\<lparr>lead_in := Some folded\<rparr>) r1))
                  else (Inr (), r))
               in case res of
                    Inl e \<Rightarrow> (Inl e, r1)
                  | Inr _ \<Rightarrow> (Inr (), if waiting then release_lead_in_wait L ch r1 else r1))))"

definition do_lead_in :: "'a agent_lib \<Rightarrow> str \<Rightarrow> str option \<Rightarrow> str \<Rightarrow> int option \<Rightarrow> 'a rules \<Rightarrow> 'a outcome" where
  "do_lead_in L ch trn d t r = take_lead_in L ch trn d None t r"

definition late_lead_in ::
  "'a agent_lib \<Rightarrow> str \<Rightarrow> str option \<Rightarrow> str \<Rightarrow> str \<Rightarrow> int option \<Rightarrow> 'a rules \<Rightarrow> 'a outcome" where
  "late_lead_in L ch trn d i t r = take_lead_in L ch trn d (Some i) t r"

definition do_reply ::
  "'a agent_lib \<Rightarrow> str \<Rightarrow> str option \<Rightarrow> str \<Rightarrow> str option \<Rightarrow> int option \<Rightarrow> 'a rules \<Rightarrow> 'a outcome" where
  "do_reply L ch trn txt before t r =
     (if is_stale ch trn t r then (Inl Stale, r)
      else
        (let txt = trim txt;
             before = (case before of Some b \<Rightarrow> if trim b \<noteq> [] then Some (trim b) else None | None \<Rightarrow> None)
         in (Inr (), on_turn L ch (\<lambda>c. c\<lparr>reply := (if txt \<noteq> [] then Some (txt, before) else None)\<rparr>) r)))"

definition word_count :: "str \<Rightarrow> nat" where
  "word_count s = length (split_whitespace s)"

definition take_reply :: "'a agent_lib \<Rightarrow> str \<Rightarrow> 'a rules \<Rightarrow> 'a rules" where
  "take_reply L ch r =
     (let final_mode = (read_mode (settings r) = Final);
          taken = reply (turn_of L ch r);
          r = on_turn L ch (\<lambda>c. c\<lparr>reply := None\<rparr>) r
      in case (if final_mode then taken else None) of
           None \<Rightarrow> r
         | Some (rep, before) \<Rightarrow>
             if skip_reply (turn_of L ch r) then r
             else
               (let r = snd (drop_held L ch (lit ''text between tools'') r);
                    (rep, r) =
                      (case before of
                         Some b \<Rightarrow>
                           if word_count rep < SHORT_REPLY \<and> LONG_BEFORE \<le> word_count b
                           then (b @ [10, 10] @ rep, leave_note (Some ch) K_Prose Read_With_Before None r)
                           else (rep, r)
                       | None \<Rightarrow> (rep, r));
                    r = on_turn L ch (\<lambda>c. c\<lparr>assembler := asm_new L, new_para := False, last_index := None,
                          order := (order c)\<lparr>next_delta := 0, skipped := {}\<rparr>,
                          prose := take (voiced c) (prose c), replied := Some (fold_text L rep),
                          released := True\<rparr>) r;
                    r = assemble L ch [(rep, 0, True)] r
                in on_turn L ch (\<lambda>c. c\<lparr>assembler := asm_new L, last_index := None\<rparr>) r))"

section \<open>Turns\<close>

definition cancel :: "nat \<Rightarrow> nat \<Rightarrow> 'a turn \<Rightarrow> 'a turn" where
  "cancel g s c =
     c\<lparr>turn_gen := g, settle_gen := s, settle_armed := False, pending := [], lead_in_wait := None,
       held := None, inflight := 0, last_token := 0\<rparr>"

definition retire :: "str option \<Rightarrow> 'a turn \<Rightarrow> 'a turn" where
  "retire trn c =
     (case current c of
        None \<Rightarrow> c
      | Some old \<Rightarrow>
          if trn \<noteq> Some old
          then (let q = retired c @ [old]
                in c\<lparr>current := None, retired := (if RETIRED_TURNS < length q then tl q else q)\<rparr>)
          else c\<lparr>current := None\<rparr>)"

definition turn_start :: "'a agent_lib \<Rightarrow> str \<Rightarrow> str option \<Rightarrow> int option \<Rightarrow> 'a rules \<Rightarrow> 'a outcome" where
  "turn_start L ch trn t r =
     (if is_stale ch trn t r then (Inl Stale, r)
      else
        (let (g, r) = fresh_gen r;
             (s, r) = fresh_gen r;
             r = on_turn L ch (\<lambda>c. (retire trn (c\<lparr>assembler := asm_new L, turn_t := (if t \<noteq> None then t else turn_t c)\<rparr>))
                   \<lparr>current := trn, awaiting := False, questions := None, read_set := None, lead_in := None,
                    reply := None, replied := None\<rparr>) r;
             r = snd (drop_held L ch (lit ''turn_start'') r);
             r = on_turn L ch (\<lambda>c. cancel g s (c\<lparr>released := False, ended := False, skip_reply := False,
                   new_para := False, last_index := None,
                   order := (order c)\<lparr>next_delta := 0, skipped := {}\<rparr>, prose := [], voiced := 0\<rparr>)) r
         in (Inr (), emit (Wipe ch True) r)))"

definition turn_end :: "'a agent_lib \<Rightarrow> str \<Rightarrow> str option \<Rightarrow> int option \<Rightarrow> 'a rules \<Rightarrow> 'a outcome" where
  "turn_end L ch trn t r =
     (if is_stale ch trn t r then (Inl Stale, r)
      else
        (let r = play_earcon Turn_Done r;
             r = release_gap L ch (lit ''turn_end'') r;
             r = take_reply L ch r;
             r = on_turn L ch (\<lambda>c. c\<lparr>released := True, ended := True, batch_cut := False\<rparr>) r;
             r = (if \<not> summaries_on r then snd (hold_kept L ch r) else r);
             r = flush_prose L ch r
         in (Inr (), if summaries_on r then arm_settle L ch r else r)))"

section \<open>Decisions\<close>

text \<open>The question set an \<open>ask\<close> names, when it is a question of a real set.\<close>

definition set_of_ask :: "ask \<Rightarrow> (nat \<times> nat) option" where
  "set_of_ask a =
     (case ask_set a of
        Some (i, n) \<Rightarrow> if ask_kind a = Question \<and> 2 \<le> n \<and> i < n then Some (i, n) else None
      | None \<Rightarrow> None)"

definition body_of_ask :: "ask \<Rightarrow> str" where
  "body_of_ask a = question_text (ask_text a) (ask_options a) (ask_multi a)"

text \<open>A later question of a set that is stepped through: kept for the navigation when the set waits.\<close>

definition keeps_question :: "str \<Rightarrow> nat \<Rightarrow> 'a rules \<Rightarrow> bool" where
  "keeps_question ch n r =
     (case Option.bind (map_of (turns r) ch) questions of Some q \<Rightarrow> qs_size q = n | None \<Rightarrow> False)"

definition keep_question :: "str \<Rightarrow> ask \<Rightarrow> nat \<Rightarrow> 'a rules \<Rightarrow> 'a rules" where
  "keep_question ch a i r =
     upd_turn ch (\<lambda>c. c\<lparr>questions := map_option (\<lambda>q. q\<lparr>bodies := (bodies q)[i := Some (body_of_ask a)],
       qs_texts := (qs_texts q)[i := Some (ask_text a)]\<rparr>) (questions c)\<rparr>) r"

text \<open>The size of the set a question opens: \<open>None\<close> leaves no set for the navigation.\<close>

definition opens_set :: "bool \<Rightarrow> ask \<Rightarrow> nat option" where
  "opens_set read_all a =
     (let set = set_of_ask a
      in if read_all \<and> set \<noteq> None then None
         else case set of
                Some (i, n) \<Rightarrow> if i = 0 then Some n else None
              | None \<Rightarrow> (case ask_set a of Some (i, _) \<Rightarrow> if 0 < i then None else Some 1 | None \<Rightarrow> Some 1))"

definition new_question_set :: "ask \<Rightarrow> nat \<Rightarrow> question_set" where
  "new_question_set a n =
     \<lparr>qs_size = n, bodies = (replicate n None)[0 := Some (body_of_ask a)],
      qs_texts = (replicate n None)[0 := Some (ask_text a)], qs_reviewed = False,
      qs_notes = ask_notes a, qs_hint = ask_hint a, qs_hint_once = ask_hint_once a, qs_current = 0,
      qs_entry = None, heard = False\<rparr>"

definition new_read_set :: "nat \<Rightarrow> read_set" where
  "new_read_set n =
     \<lparr>rs_size = n, rs_texts = replicate n None, rs_entries = replicate n None, rs_current = 0,
      rs_reviewed = False, following = False\<rparr>"

text \<open>The state of a question: its mark, its set, and the set read in order.\<close>

definition mark_question :: "bool \<Rightarrow> ask \<Rightarrow> 'a turn \<Rightarrow> 'a turn" where
  "mark_question read_all a c =
     (let c = c\<lparr>awaiting := True, questions := map_option (new_question_set a) (opens_set read_all a)\<rparr>
      in case set_of_ask a of
           Some (i, n) \<Rightarrow>
             if read_all
             then (let rs = (case read_set c of
                               Some s \<Rightarrow> if i = 0 \<or> rs_size s \<noteq> n then new_read_set n else s
                             | None \<Rightarrow> new_read_set n)
                   in c\<lparr>read_set := Some (rs\<lparr>rs_texts := (rs_texts rs)[i := Some (ask_text a)]\<rparr>)\<rparr>)
             else c
         | None \<Rightarrow> c)"

definition spoken_question :: "bool \<Rightarrow> ask \<Rightarrow> str" where
  "spoken_question read_all a =
     (case set_of_ask a of
        Some (i, n) \<Rightarrow> if i = 0 \<or> read_all then numbered_question i n (body_of_ask a) else body_of_ask a
      | None \<Rightarrow> body_of_ask a)"

text \<open>The notes and hints after the decision; the once hint marks the channel as hinted.\<close>

definition ask_extras :: "bool \<Rightarrow> bool \<Rightarrow> ask \<Rightarrow> 'a turn \<Rightarrow> str list \<times> 'a turn" where
  "ask_extras everything later a c =
     (let notes = (case ask_notes a of Some n \<Rightarrow> if later then [] else [n] | None \<Rightarrow> []);
          hint = (case ask_hint a of Some h \<Rightarrow> [h] | None \<Rightarrow> [])
      in if everything \<and> \<not> later then
           (case ask_hint_once a of
              Some once \<Rightarrow> if hinted c then (notes @ hint, c) else (notes @ hint @ [once], c\<lparr>hinted := True\<rparr>)
            | None \<Rightarrow> (notes @ hint, c))
         else (notes, c))"

text \<open>The rest of \<open>ask\<close>, once the spoken text and its kind are known.\<close>

definition finish_ask :: "'a agent_lib \<Rightarrow> str \<Rightarrow> ask \<Rightarrow> str \<Rightarrow> spoken_kind \<Rightarrow> 'a rules \<Rightarrow> 'a rules" where
  "finish_ask L ch a txt k r =
     (let final_mode = (read_mode (settings r) = Final);
          r = ensure L ch r;
          r = (if final_mode \<and> k = K_Plan then snd (drop_held L ch (lit ''text before the plan'') r)
               else if final_mode \<and> k = K_Question \<and> lead_in (turn_of L ch r) = None
               then snd (drop_held L ch (lit ''text before the question'') r)
               else r);
          read_all = (\<not> question_step (settings r));
          later = (read_all \<and> (case set_of_ask a of Some (i, _) \<Rightarrow> 0 < i | None \<Rightarrow> False));
          everything = (verbosity (settings r) = Everything);
          extras = fst (ask_extras everything later a (turn_of L ch r));
          r = on_turn L ch (\<lambda>c. snd (ask_extras everything later a c)) r;
          r = r\<lparr>next_decision := next_decision r + 1\<rparr>;
          item = \<lparr>dec_id = next_decision r, dec_text = with_extras txt extras, dec_kind = k\<rparr>
      in if summaries_on r then
           (let r = leave_note (Some ch) k Waits_Settle (Some (dec_text item)) r;
                r = on_turn L ch (\<lambda>c. c\<lparr>pending := pending c @ [item]\<rparr>) r;
                r = (if lead_in_pending a then wait_lead_in L ch a r else r)
            in arm_settle L ch r)
         else if lead_in_pending a \<or> lead_in_wait (turn_of L ch r) \<noteq> None then
           (let r = on_turn L ch (\<lambda>c. c\<lparr>pending := pending c @ [item]\<rparr>) r;
                r = wait_lead_in L ch a r
            in leave_note (Some ch) k Waits_Lead_In (Some (dec_text item)) r)
         else if k = K_Permission \<and> final_mode then
           (let kept = held_prose (turn_of L ch r);
                r = on_turn L ch (\<lambda>c. c\<lparr>held_prose := []\<rparr>) r;
                r = enqueue_or_hold L ch item False r
            in on_turn L ch (\<lambda>c. c\<lparr>held_prose := kept\<rparr>) r)
         else enqueue_or_hold L ch item False r)"

definition do_ask :: "'a agent_lib \<Rightarrow> str \<Rightarrow> ask \<Rightarrow> 'a rules \<Rightarrow> 'a rules" where
  "do_ask L ch a r =
     (let r = release_gap L ch (lit ''decision'') r;
          waits = awaiting (turn_of L ch r);
          read_all = (\<not> question_step (settings r));
          later = (case set_of_ask a of Some (i, n) \<Rightarrow> if 0 < i \<and> \<not> read_all then Some (i, n) else None | None \<Rightarrow> None);
          kept = (case later of Some (i, n) \<Rightarrow> keeps_question ch n r | None \<Rightarrow> False)
      in if kept then
           (let (i, n) = the later;
                r = keep_question ch a i r
            in leave_note (Some ch) K_Question (Kept_For_Navigation i n) (Some (body_of_ask a)) r)
         else
           (let r = (case later of
                       Some (i, n) \<Rightarrow> leave_note (Some ch) K_Question (No_First_Question i n) None r
                     | None \<Rightarrow> r)
            in case ask_kind a of
                 Question \<Rightarrow>
                   (let r = (if \<not> waits then play_earcon Earcon_Choice r else r);
                        r = on_turn L ch (mark_question read_all a) r
                    in finish_ask L ch a (spoken_question read_all a) K_Question r)
               | Permission \<Rightarrow>
                   if waits then
                     leave_note (Some ch) K_Permission Permission_Of_Question (Some (permission_text (ask_text a)))
                       (on_turn L ch (\<lambda>c. c\<lparr>awaiting := False\<rparr>) r)
                   else finish_ask L ch a (permission_text (ask_text a)) K_Permission (play_earcon Earcon_Permission r)
               | Plan \<Rightarrow> finish_ask L ch a (plan_text (ask_text a)) K_Plan r))"

section \<open>Tools and answers\<close>

definition forget_questions :: "'a turn \<Rightarrow> 'a turn" where
  "forget_questions c = c\<lparr>awaiting := False, questions := None, read_set := None\<rparr>"

definition tool_text :: "str \<Rightarrow> str \<Rightarrow> str" where
  "tool_text name summary =
     (if trim summary = [] then lit ''Running '' @ trim name @ lit ''.'' else trim summary)"

definition do_tool :: "'a agent_lib \<Rightarrow> str \<Rightarrow> str \<Rightarrow> str \<Rightarrow> 'a rules \<Rightarrow> 'a rules" where
  "do_tool L ch name summary r =
     (let r = on_turn L ch forget_questions r;
          t = tool_text name summary
      in if skip_reply (turn_of L ch r) then
           leave_note (Some ch) K_Tool Not_Announced_Flushed (Some t) r
         else if verbosity (settings r) \<noteq> Everything then
           leave_note (Some ch) K_Tool (Not_Announced (verbosity (settings r))) (Some t) r
         else
           (let r = (if read_mode (settings r) \<noteq> Done \<and> read_mode (settings r) \<noteq> Final then
                       (let r = (if \<not> whole r then on_turn L ch (\<lambda>c. c\<lparr>released := True\<rparr>) r else r);
                            r = release_gap L ch (lit ''tool'') r
                        in flush_prose L ch r)
                     else r)
            in speak ch t False K_Tool r))"

definition plural :: "nat \<Rightarrow> str" where
  "plural n = (if n = 1 then lit ''summary'' else lit ''summaries'')"

definition parked_of :: "str \<Rightarrow> nat \<Rightarrow> 'a rules \<Rightarrow> nat" where
  "parked_of ch g r = length (filter (\<lambda>(k, x). rel_channel x = ch \<and> rel_gen x = g) (parked r))"

definition catch_up :: "'a agent_lib \<Rightarrow> str \<Rightarrow> str \<Rightarrow> 'a rules \<Rightarrow> (decision list \<times> bool) \<times> 'a rules" where
  "catch_up L ch why r =
     (let (g, r) = fresh_gen r;
          (s, r) = fresh_gen r;
          (dropped, r) = drop_held L ch why r;
          sums = summaries_on r;
          c = turn_of L ch r;
          kept = length (prose c) - voiced c;
          ds = pending c @ (case held c of Some (_, v) \<Rightarrow> v | None \<Rightarrow> []);
          r = on_turn L ch (\<lambda>c. cancel g s (c\<lparr>voiced := length (prose c)\<rparr>)) r;
          r = (if sums \<and> 0 < kept then leave_note (Some ch) K_Prose (Dropped_Kept kept why) None r else r);
          n = parked_of ch (turn_gen c) r;
          work = (if 0 < inflight c then [dec (inflight c) @ lit '' '' @ plural (inflight c) @ lit '' in flight''] else []) @
                 (if 0 < n then [dec n @ lit '' '' @ plural n @ lit '' waiting for the earlier ones''] else []) @
                 (if settle_armed c then [lit ''the settle window''] else []);
          any = (0 < dropped \<or> (sums \<and> 0 < kept) \<or> work \<noteq> [] \<or> ds \<noteq> []);
          r = (if work \<noteq> [] then leave_note (Some ch) K_Summary (Cancelled why work) None r else r)
      in ((ds, any), r))"

definition drop_waiting :: "str \<Rightarrow> decision list \<Rightarrow> str \<Rightarrow> 'a rules \<Rightarrow> 'a rules" where
  "drop_waiting ch ds why r =
     fold (\<lambda>d r. leave_note (Some ch) (dec_kind d) (Dropped_Decision why) (Some (dec_text d)) r) ds r"

definition answered :: "'a agent_lib \<Rightarrow> str \<Rightarrow> 'a rules \<Rightarrow> 'a rules" where
  "answered L ch r =
     (let r = on_turn L ch forget_questions r;
          ((ds, any), r) = catch_up L ch (lit ''answered'') r
      in emit (Wipe ch False) (drop_waiting ch ds (lit ''answered'') r))"

section \<open>Stop and flush\<close>

definition stop_channel :: "'a agent_lib \<Rightarrow> str \<Rightarrow> 'a rules \<Rightarrow> 'a rules" where
  "stop_channel L ch r =
     (let r = on_turn L ch (\<lambda>c. c\<lparr>awaiting := False\<rparr>) r;
          ((ds, any), r) = catch_up L ch (lit ''stop'') r
      in drop_waiting ch ds (lit ''stop'') r)"

definition stop_all :: "'a agent_lib \<Rightarrow> 'a rules \<Rightarrow> 'a rules" where
  "stop_all L r = fold (stop_channel L) (agent_channels r) r"

definition release_decisions :: "str \<Rightarrow> decision list \<Rightarrow> 'a rules \<Rightarrow> 'a rules" where
  "release_decisions ch ds r =
     fold (\<lambda>d r. speak ch (dec_text d) True (dec_kind d)
       (leave_note (Some ch) (dec_kind d) Spoken_Now (Some (dec_text d)) r)) ds r"

definition flush_reply :: "'a agent_lib \<Rightarrow> str \<Rightarrow> 'a rules \<Rightarrow> 'a rules" where
  "flush_reply L ch r =
     (if \<not> tracks ch r then r
      else
        (let r = on_turn L ch (\<lambda>c. c\<lparr>skip_reply := True\<rparr>) r;
             ((ds, any), r) = catch_up L ch (lit ''flush'') r
         in release_decisions ch ds r))"

definition flush_ready :: "'a agent_lib \<Rightarrow> str \<Rightarrow> bool \<Rightarrow> 'a rules \<Rightarrow> bool \<times> 'a rules" where
  "flush_ready L ch queued r =
     (if \<not> tracks ch r \<or> writing ch r then (False, r)
      else
        (let ((ds, any), r) = catch_up L ch (lit ''flush'') r
         in if \<not> (any \<or> queued) then (False, r)
            else (True, release_decisions ch ds (on_turn L ch (\<lambda>c. c\<lparr>skip_reply := True\<rparr>) r))))"

definition take_new_turn :: "str \<Rightarrow> 'a rules \<Rightarrow> bool \<times> 'a rules" where
  "take_new_turn ch r =
     (case map_of (turns r) ch of
        Some c \<Rightarrow>
          if ended c \<and> \<not> batch_cut c
          then (True, upd_turn ch (\<lambda>c. c\<lparr>batch_cut := True, released := False, ended := False, skip_reply := False,
                  new_para := False, last_index := None, reply := None, replied := None\<rparr>) r)
          else (False, r)
      | None \<Rightarrow> (False, r))"

definition close_agent :: "str \<Rightarrow> 'a rules \<Rightarrow> 'a rules" where
  "close_agent ch r = r\<lparr>turns := AList.delete ch (turns r)\<rparr>"

definition agent_has_work :: "'a rules \<Rightarrow> bool" where
  "agent_has_work r \<longleftrightarrow>
     (\<exists>(ch, c) \<in> set (turns r). 0 < inflight c \<or> settle_armed c \<or> pending c \<noteq> [] \<or> held c \<noteq> None) \<or>
     (\<exists>(k, x) \<in> set (parked r).
        (case map_of (turns r) (rel_channel x) of Some c \<Rightarrow> turn_gen c = rel_gen x | None \<Rightarrow> False))"

definition summary_state :: "str \<Rightarrow> 'a rules \<Rightarrow> (bool \<times> nat \<times> nat \<times> nat) option" where
  "summary_state ch r =
     map_option (\<lambda>c. (settle_armed c, length (pending c), (case held c of Some (_, v) \<Rightarrow> length v | None \<Rightarrow> 0), inflight c))
       (map_of (turns r) ch)"

section \<open>Timers\<close>

definition fire_settle :: "'a agent_lib \<Rightarrow> str \<Rightarrow> nat \<Rightarrow> str option \<Rightarrow> 'a rules \<Rightarrow> 'a rules" where
  "fire_settle L ch g focused r =
     (case map_of (turns r) ch of
        None \<Rightarrow> r
      | Some c \<Rightarrow>
          if settle_gen c \<noteq> g \<or> \<not> settle_armed c then r
          else
            (let r = upd_turn ch (\<lambda>c. c\<lparr>settle_armed := False\<rparr>) r
             in if lead_in_wait c \<noteq> None then r
                else
                  (let items = pending c;
                       r = upd_turn ch (\<lambda>c. c\<lparr>pending := []\<rparr>) r
                   in if items = [] then snd (maybe_summarize L ch False focused r)
                      else (let (digesting, r) = maybe_summarize L ch True focused r
                            in enqueue_all L ch digesting items r))))"

definition fire_hold_cap :: "str \<Rightarrow> nat \<Rightarrow> 'a rules \<Rightarrow> 'a rules" where
  "fire_hold_cap ch d r =
     (case map_of (turns r) ch of
        None \<Rightarrow> r
      | Some c \<Rightarrow>
          (case held c of
             Some (_, items) \<Rightarrow>
               if d \<in> dec_id ` set items
               then speak_decisions ch items (upd_turn ch (\<lambda>c. c\<lparr>held := None\<rparr>) r)
               else r
           | None \<Rightarrow> r))"

definition fire_watchdog :: "'a agent_lib \<Rightarrow> nat \<Rightarrow> 'a rules \<Rightarrow> 'a rules" where
  "fire_watchdog L k r =
     (case map_of (watched r) k of
        None \<Rightarrow> r
      | Some x \<Rightarrow>
          (let r = r\<lparr>watched := AList.delete k (watched r)\<rparr>
           in if serve_seq r \<le> k \<and> map_of (parked r) k = None then land L (Some k) x r else r))"

definition fire_lead_in :: "'a agent_lib \<Rightarrow> str \<Rightarrow> nat \<Rightarrow> 'a rules \<Rightarrow> 'a rules" where
  "fire_lead_in L ch g r =
     (if (case Option.bind (map_of (turns r) ch) lead_in_wait of Some w \<Rightarrow> wait_gen w = g | None \<Rightarrow> False)
      then release_lead_in_wait L ch (leave_note (Some ch) K_Question No_Lead_In None r)
      else r)"

definition fire_gap :: "'a agent_lib \<Rightarrow> str \<Rightarrow> nat \<Rightarrow> 'a rules \<Rightarrow> 'a rules" where
  "fire_gap L ch g r =
     (if (case map_of (turns r) ch of Some c \<Rightarrow> order_gen (order c) = g | None \<Rightarrow> False)
      then release_gap L ch (lit ''waited '' @ dec DELTA_GAP @ lit '' ms'') r
      else r)"

definition fire :: "'a agent_lib \<Rightarrow> timer \<Rightarrow> str option \<Rightarrow> 'a rules \<Rightarrow> 'a rules" where
  "fire L tm focused r =
     (case tm of
        Settle ch g \<Rightarrow> fire_settle L ch g focused r
      | Hold_Cap ch d \<Rightarrow> fire_hold_cap ch d r
      | Watchdog k \<Rightarrow> fire_watchdog L k r
      | Lead_In ch g \<Rightarrow> fire_lead_in L ch g r
      | Gap ch g \<Rightarrow> fire_gap L ch g r)"

end
