(* ===== verification/Agent_Questions.thy ===== *)
theory Agent_Questions imports Agent_Summary begin

text \<open>
  The question navigation and the screen follower, from \<open>crates/sonara-agent/src/rules.rs\<close>.
\<close>

definition match_text :: "'a agent_lib \<Rightarrow> str option list \<Rightarrow> str \<Rightarrow> nat option" where
  "match_text L texts shown =
     (let s = fold_text L shown;
          folded = map (map_option (fold_text L)) texts
      in if s = [] then None
         else case position (\<lambda>t. t = Some s) folded of
                Some i \<Rightarrow> Some i
              | None \<Rightarrow>
                  if 20 \<le> utf8_size s
                  then position (\<lambda>t. case t of Some t \<Rightarrow> starts_with t s | None \<Rightarrow> False) folded
                  else None)"

definition questions_of :: "str \<Rightarrow> 'a rules \<Rightarrow> question_set option" where
  "questions_of ch r = Option.bind (map_of (turns r) ch) questions"

definition read_set_of :: "str \<Rightarrow> 'a rules \<Rightarrow> read_set option" where
  "read_set_of ch r = Option.bind (map_of (turns r) ch) read_set"

definition upd_questions :: "str \<Rightarrow> (question_set \<Rightarrow> question_set) \<Rightarrow> 'a rules \<Rightarrow> 'a rules" where
  "upd_questions ch f r = upd_turn ch (\<lambda>c. c\<lparr>questions := map_option f (questions c)\<rparr>) r"

definition upd_read_set :: "str \<Rightarrow> (read_set \<Rightarrow> read_set) \<Rightarrow> 'a rules \<Rightarrow> 'a rules" where
  "upd_read_set ch f r = upd_turn ch (\<lambda>c. c\<lparr>read_set := map_option f (read_set c)\<rparr>) r"

section \<open>Binding the entries\<close>

definition bind_read :: "nat \<Rightarrow> read_set \<Rightarrow> read_set" where
  "bind_read e s =
     (case find (\<lambda>i. rs_entries s ! i = None \<and> rs_texts s ! i \<noteq> None) [0..<rs_size s] of
        Some i \<Rightarrow> s\<lparr>rs_entries := (rs_entries s)[i := Some e]\<rparr>
      | None \<Rightarrow> s)"

definition bind_step :: "nat \<Rightarrow> bool \<Rightarrow> question_set \<Rightarrow> question_set" where
  "bind_step e stored q =
     (if qs_entry q = None then q\<lparr>qs_entry := Some e, heard := \<not> stored\<rparr> else q)"

definition bind_question :: "str \<Rightarrow> nat \<Rightarrow> bool \<Rightarrow> 'a rules \<Rightarrow> 'a rules" where
  "bind_question ch e stored r = upd_questions ch (bind_step e stored) (upd_read_set ch (bind_read e) r)"

section \<open>Landing on a question\<close>

definition numbered :: "str \<Rightarrow> nat \<Rightarrow> 'a rules \<Rightarrow> str option \<times> 'a rules" where
  "numbered ch k r =
     (let everything = (verbosity (settings r) = Everything)
      in case map_of (turns r) ch of
           None \<Rightarrow> (None, r)
         | Some c \<Rightarrow>
             (case questions c of
                None \<Rightarrow> (None, r)
              | Some q \<Rightarrow>
                  (case Option.bind (get (bodies q) k) (\<lambda>b. b) of
                     None \<Rightarrow> (None, r)
                   | Some body \<Rightarrow>
                       (let once = (everything \<and> qs_hint_once q \<noteq> None \<and> \<not> hinted c);
                            extras = (case qs_notes q of Some n \<Rightarrow> [n] | None \<Rightarrow> []) @
                              (if everything then (case qs_hint q of Some h \<Rightarrow> [h] | None \<Rightarrow> []) else []) @
                              (if once then [the (qs_hint_once q)] else []);
                            r = (if once then upd_turn ch (\<lambda>c. c\<lparr>hinted := True\<rparr>) r else r);
                            t = (if 2 \<le> qs_size q then numbered_question k (qs_size q) body else body)
                        in (Some (with_extras t extras), r)))))"

definition land_on :: "str \<Rightarrow> nat \<Rightarrow> bool \<Rightarrow> 'a rules \<Rightarrow> nav option \<times> 'a rules" where
  "land_on ch k edge r =
     (case numbered ch k r of
        (None, r) \<Rightarrow> (None, r)
      | (Some t, r) \<Rightarrow>
          (case questions_of ch r of
             None \<Rightarrow> (None, r)
           | Some q \<Rightarrow>
               (map_option (\<lambda>e. \<lparr>nav_entry = e, nav_text = t, nav_index = k, nav_size = qs_size q, nav_edge = edge\<rparr>)
                  (qs_entry q),
                upd_questions ch (\<lambda>q. q\<lparr>qs_current := k, heard := True\<rparr>) r)))"

section \<open>Navigation\<close>

definition question_entry :: "str \<Rightarrow> 'a rules \<Rightarrow> nat option" where
  "question_entry ch r = Option.bind (questions_of ch r) qs_entry"

definition first_set_entry :: "str \<Rightarrow> 'a rules \<Rightarrow> nat option" where
  "first_set_entry ch r =
     (case map_of (turns r) ch of
        None \<Rightarrow> None
      | Some c \<Rightarrow>
          (case questions c of
             Some q \<Rightarrow> qs_entry q
           | None \<Rightarrow>
               (case read_set c of
                  None \<Rightarrow> None
                | Some s \<Rightarrow>
                    (let es = List.map_filter (\<lambda>e. e) (rs_entries s)
                     in if es = [] then None else Some (Min (set es))))))"

definition question_set :: "str \<Rightarrow> 'a rules \<Rightarrow> (nat \<times> nat) option" where
  "question_set ch r = map_option (\<lambda>q. (qs_current q, qs_size q)) (questions_of ch r)"

definition has_question_set :: "str \<Rightarrow> 'a rules \<Rightarrow> bool" where
  "has_question_set ch r =
     (case map_of (turns r) ch of Some c \<Rightarrow> questions c \<noteq> None \<or> read_set c \<noteq> None | None \<Rightarrow> False)"

definition kept_question :: "question_set \<Rightarrow> nat \<Rightarrow> bool" where
  "kept_question q k \<longleftrightarrow> bodies q ! k \<noteq> None"

definition navigate :: "str \<Rightarrow> step \<Rightarrow> bool \<Rightarrow> 'a rules \<Rightarrow> nav option \<times> 'a rules" where
  "navigate ch st started r =
     (case questions_of ch r of
        None \<Rightarrow> (None, r)
      | Some q \<Rightarrow>
          if qs_entry q = None then (None, r)
          else if \<not> (started \<and> heard q) then land_on ch 0 False r
          else case st of
                 Step_Next \<Rightarrow>
                   (case find (kept_question q) [qs_current q + 1..<qs_size q] of
                      Some k \<Rightarrow> land_on ch k False r
                    | None \<Rightarrow> land_on ch (qs_current q) True r)
               | Step_Previous \<Rightarrow>
                   land_on ch (case find (kept_question q) (rev [0..<qs_current q]) of Some k \<Rightarrow> k | None \<Rightarrow> 0) False r)"

definition questions_unheard :: "str \<Rightarrow> 'a rules \<Rightarrow> 'a rules" where
  "questions_unheard ch r = upd_questions ch (\<lambda>q. q\<lparr>heard := False\<rparr>) r"

definition rewind_questions :: "str \<Rightarrow> 'a rules \<Rightarrow> nav option \<times> 'a rules" where
  "rewind_questions ch r = (if question_entry ch r = None then (None, r) else land_on ch 0 False r)"

section \<open>The screen\<close>

definition shown_step :: "'a agent_lib \<Rightarrow> str \<Rightarrow> shown \<Rightarrow> question_set \<Rightarrow> 'a rules \<Rightarrow> shown_move option \<times> 'a rules" where
  "shown_step L ch sh q r =
     (case sh of
        Shown_Review \<Rightarrow>
          if qs_reviewed q then (None, r)
          else (Some Move_Review, upd_questions ch (\<lambda>q. q\<lparr>qs_reviewed := True\<rparr>) r)
      | Shown_Text s \<Rightarrow>
          (case match_text L (qs_texts q) s of
             None \<Rightarrow> (None, r)
           | Some k \<Rightarrow>
               if k = qs_current q \<or> qs_entry q = None then (None, r)
               else (let (n, r) = land_on ch k False r in (map_option Land n, r))))"

definition shown_read :: "'a agent_lib \<Rightarrow> str \<Rightarrow> shown \<Rightarrow> read_set \<Rightarrow> 'a rules \<Rightarrow> shown_move option \<times> 'a rules" where
  "shown_read L ch sh s r =
     (case sh of
        Shown_Review \<Rightarrow>
          (if rs_reviewed s then None else Some Move_Review,
           upd_read_set ch (\<lambda>s. s\<lparr>following := True, rs_current := rs_size s, rs_reviewed := True\<rparr>) r)
      | Shown_Text t \<Rightarrow>
          (case match_text L (rs_texts s) t of
             None \<Rightarrow> (None, r)
           | Some k \<Rightarrow>
               (case rs_entries s ! k of
                  None \<Rightarrow> (None, r)
                | Some e \<Rightarrow>
                    if k = rs_current s then (None, upd_read_set ch (\<lambda>s. s\<lparr>following := True\<rparr>) r)
                    else (Some (Move_Entry e k (rs_size s)),
                          upd_read_set ch (\<lambda>s. s\<lparr>following := True, rs_current := k\<rparr>) r))))"

definition question_shown :: "'a agent_lib \<Rightarrow> str \<Rightarrow> shown \<Rightarrow> 'a rules \<Rightarrow> shown_move option \<times> 'a rules" where
  "question_shown L ch sh r =
     (case map_of (turns r) ch of
        None \<Rightarrow> (None, r)
      | Some c \<Rightarrow>
          (case questions c of
             Some q \<Rightarrow> shown_step L ch sh q r
           | None \<Rightarrow>
               (case read_set c of
                  None \<Rightarrow> (None, r)
                | Some s \<Rightarrow> shown_read L ch sh s r)))"

definition followed :: "str \<Rightarrow> 'a rules \<Rightarrow> read_set option" where
  "followed ch r = (case read_set_of ch r of Some s \<Rightarrow> if following s then Some s else None | None \<Rightarrow> None)"

definition read_set_aside :: "str \<Rightarrow> 'a rules \<Rightarrow> (nat \<times> bool) list" where
  "read_set_aside ch r =
     (case followed ch r of
        None \<Rightarrow> []
      | Some s \<Rightarrow>
          List.map_filter (\<lambda>(i, e). map_option (\<lambda>e. (e, i \<noteq> rs_current s)) e)
            (zip [0..<length (rs_entries s)] (rs_entries s)))"

definition shown_entry :: "str \<Rightarrow> 'a rules \<Rightarrow> nat option" where
  "shown_entry ch r =
     (case followed ch r of
        None \<Rightarrow> None
      | Some s \<Rightarrow> Option.bind (get (rs_entries s) (rs_current s)) (\<lambda>e. e))"

definition review_line :: "str \<Rightarrow> 'a rules \<Rightarrow> 'a rules" where
  "review_line ch r = speak ch (lit ''Review your answers.'') False K_Review r"

end
