(* ===== verification/Agent_Inv.thy ===== *)
theory Agent_Inv imports Agent_Rules Agent_Questions begin

text \<open>
  The invariant of the agent rules and the relation \<open>steps r0 r\<close> between the state a call starts from and
  the states it goes through: what may be emitted at the mute level, what the indices and slices of the
  code rely on, and that a cancel generation is never used again. Every operation is shown to stay
  within it, one lemma per operation.
\<close>

section \<open>The primitives\<close>

lemma map_of_update [simp]: "map_of (AList.update k v xs) x = (if x = k then Some v else map_of xs x)"
  by (simp add: update_conv)

lemma map_of_delete [simp]: "map_of (AList.delete k xs) x = (if x = k then None else map_of xs x)"
  by (simp add: delete_conv)

lemma ensure_sel [simp]:
  "settings (ensure L ch r) = settings r" "next_decision (ensure L ch r) = next_decision r"
  "next_token (ensure L ch r) = next_token r" "whole (ensure L ch r) = whole r"
  "next_seq (ensure L ch r) = next_seq r" "serve_seq (ensure L ch r) = serve_seq r"
  "parked (ensure L ch r) = parked r" "watched (ensure L ch r) = watched r"
  "noted (ensure L ch r) = noted r" "acts (ensure L ch r) = acts r"
  by (simp_all add: ensure_def fresh_gen_def split: option.split)

lemma next_gen_ensure: "next_gen (ensure L ch r) = (if map_of (turns r) ch = None then next_gen r + 1 else next_gen r)"
  by (simp add: ensure_def fresh_gen_def split: option.split)

lemma turns_ensure: "map_of (turns (ensure L ch r)) x = (if x = ch then Some (turn_of L ch r) else map_of (turns r) x)"
  by (auto simp: ensure_def fresh_gen_def turn_of_def split: option.split)

lemma turn_of_ensure [simp]: "turn_of L ch (ensure L ch r) = turn_of L ch r"
  by (simp add: turn_of_def [of L ch "ensure L ch r"] turns_ensure)

lemma on_turn_sel [simp]:
  "settings (on_turn L ch f r) = settings r" "next_decision (on_turn L ch f r) = next_decision r"
  "next_token (on_turn L ch f r) = next_token r" "whole (on_turn L ch f r) = whole r"
  "next_seq (on_turn L ch f r) = next_seq r" "serve_seq (on_turn L ch f r) = serve_seq r"
  "parked (on_turn L ch f r) = parked r" "watched (on_turn L ch f r) = watched r"
  "noted (on_turn L ch f r) = noted r" "acts (on_turn L ch f r) = acts r"
  "next_gen (on_turn L ch f r) = next_gen (ensure L ch r)"
  by (simp_all add: on_turn_def Let_def)

lemma turns_on_turn:
  "map_of (turns (on_turn L ch f r)) x = (if x = ch then Some (f (turn_of L ch r)) else map_of (turns r) x)"
  by (simp add: on_turn_def Let_def turns_ensure)

lemma turn_of_on_turn [simp]: "turn_of L ch (on_turn L ch f r) = f (turn_of L ch r)"
  by (simp add: turn_of_def [of L ch "on_turn L ch f r"] turns_on_turn)

lemma upd_turn_sel [simp]:
  "settings (upd_turn ch f r) = settings r" "next_decision (upd_turn ch f r) = next_decision r"
  "next_token (upd_turn ch f r) = next_token r" "whole (upd_turn ch f r) = whole r"
  "next_seq (upd_turn ch f r) = next_seq r" "serve_seq (upd_turn ch f r) = serve_seq r"
  "parked (upd_turn ch f r) = parked r" "watched (upd_turn ch f r) = watched r"
  "noted (upd_turn ch f r) = noted r" "acts (upd_turn ch f r) = acts r"
  "next_gen (upd_turn ch f r) = next_gen r"
  by (simp_all add: upd_turn_def split: option.split)

lemma turns_upd_turn:
  "map_of (turns (upd_turn ch f r)) x = (if x = ch then map_option f (map_of (turns r) ch) else map_of (turns r) x)"
  by (auto simp: upd_turn_def split: option.split)

lemma leave_note_sel [simp]:
  "settings (leave_note c k w t r) = settings r" "turns (leave_note c k w t r) = turns r"
  "next_gen (leave_note c k w t r) = next_gen r" "next_decision (leave_note c k w t r) = next_decision r"
  "next_token (leave_note c k w t r) = next_token r" "whole (leave_note c k w t r) = whole r"
  "next_seq (leave_note c k w t r) = next_seq r" "serve_seq (leave_note c k w t r) = serve_seq r"
  "parked (leave_note c k w t r) = parked r" "watched (leave_note c k w t r) = watched r"
  "acts (leave_note c k w t r) = acts r"
  by (simp_all add: leave_note_def)

lemma emit_sel [simp]:
  "settings (emit a r) = settings r" "turns (emit a r) = turns r"
  "next_gen (emit a r) = next_gen r" "next_decision (emit a r) = next_decision r"
  "next_token (emit a r) = next_token r" "whole (emit a r) = whole r"
  "next_seq (emit a r) = next_seq r" "serve_seq (emit a r) = serve_seq r"
  "parked (emit a r) = parked r" "watched (emit a r) = watched r"
  "noted (emit a r) = noted r" "acts (emit a r) = acts r @ [a]"
  by (simp_all add: emit_def)

lemma turn_of_note [simp]: "turn_of L ch (leave_note c k w t r) = turn_of L ch r"
  by (simp add: turn_of_def split: option.split)

lemma turn_of_emit [simp]: "turn_of L ch (emit a r) = turn_of L ch r"
  by (simp add: turn_of_def split: option.split)

section \<open>The invariant\<close>

text \<open>What the mute level lets through.\<close>

fun allowed :: "nat \<Rightarrow> action \<Rightarrow> bool" where
  "allowed lvl (Speak ch t decision rel k) \<longleftrightarrow> lvl = 0"
| "allowed lvl (Store ch t decision k) \<longleftrightarrow> 0 < lvl"
| "allowed lvl (Earcon e) \<longleftrightarrow> lvl < 2"
| "allowed lvl (Summarize j) \<longleftrightarrow> lvl = 0"
| "allowed lvl a \<longleftrightarrow> True"

text \<open>What the code's indexing and slicing relies on.\<close>

definition qset_ok :: "question_set \<Rightarrow> bool" where
  "qset_ok q \<longleftrightarrow> length (bodies q) = qs_size q \<and> length (qs_texts q) = qs_size q \<and>
     qs_current q < qs_size q \<and> bodies q ! qs_current q \<noteq> None \<and> bodies q ! 0 \<noteq> None"

definition rset_ok :: "read_set \<Rightarrow> bool" where
  "rset_ok s \<longleftrightarrow> length (rs_texts s) = rs_size s \<and> length (rs_entries s) = rs_size s \<and> rs_current s \<le> rs_size s"

definition turn_ok :: "'a turn \<Rightarrow> bool" where
  "turn_ok c \<longleftrightarrow> voiced c \<le> length (prose c) \<and> order_ok (order c) \<and> length (retired c) \<le> RETIRED_TURNS \<and>
     (\<forall>q. questions c = Some q \<longrightarrow> qset_ok q) \<and> (\<forall>s. read_set c = Some s \<longrightarrow> rset_ok s)"

text \<open>The reorder buffer: every slot not served yet is either parked or watched.\<close>

definition slots :: "(nat \<times> release) list \<Rightarrow> nat set" where
  "slots xs = fst ` set xs"

definition buffer_ok :: "'a rules \<Rightarrow> bool" where
  "buffer_ok r \<longleftrightarrow> distinct (map fst (parked r)) \<and> distinct (map fst (watched r)) \<and>
     slots (parked r) \<inter> slots (watched r) = {} \<and> serve_seq r \<le> next_seq r \<and>
     slots (parked r) \<union> slots (watched r) = {serve_seq r..<next_seq r} \<and> serve_seq r \<notin> slots (parked r)"

definition job_ok :: "'a rules \<Rightarrow> job \<Rightarrow> bool" where
  "job_ok r j \<longleftrightarrow> job_gen j \<le> next_gen r \<and> (\<forall>k. job_seq j = Some k \<longrightarrow> k < next_seq r)"

definition core_ok :: "'a rules \<Rightarrow> bool" where
  "core_ok r \<longleftrightarrow> (\<forall>ch c. map_of (turns r) ch = Some c \<longrightarrow> turn_ok c \<and> turn_gen c \<le> next_gen r) \<and>
     (\<forall>j. Summarize j \<in> set (acts r) \<longrightarrow> job_ok r j)"

definition agent_ok :: "'a rules \<Rightarrow> bool" where
  "agent_ok r \<longleftrightarrow> core_ok r \<and> buffer_ok r"

definition same_gens :: "'a rules \<Rightarrow> 'a rules \<Rightarrow> bool" where
  "same_gens r0 r \<longleftrightarrow> (\<forall>ch c. map_of (turns r) ch = Some c \<longrightarrow>
     next_gen r0 < turn_gen c \<or> map_option turn_gen (map_of (turns r0) ch) = Some (turn_gen c))"

definition core :: "'a rules \<Rightarrow> 'a rules \<Rightarrow> bool" where
  "core r0 r \<longleftrightarrow> core_ok r \<and> settings r = settings r0 \<and> whole r = whole r0 \<and>
     (\<exists>new. acts r = acts r0 @ new \<and> (\<forall>a \<in> set new. allowed (mute_level (settings r0)) a)) \<and>
     next_gen r0 \<le> next_gen r \<and> next_seq r0 \<le> next_seq r \<and> serve_seq r0 \<le> serve_seq r \<and> same_gens r0 r"

definition steps :: "'a rules \<Rightarrow> 'a rules \<Rightarrow> bool" where
  "steps r0 r \<longleftrightarrow> core r0 r \<and> buffer_ok r"

lemma steps_refl: "agent_ok r \<Longrightarrow> steps r r"
  by (auto simp: steps_def core_def agent_ok_def same_gens_def)

lemma steps_ok: "steps r0 r \<Longrightarrow> agent_ok r"
  by (simp add: steps_def core_def agent_ok_def)

lemma core_settings: "core r0 r \<Longrightarrow> settings r = settings r0"
  by (simp add: core_def)

lemma steps_settings: "steps r0 r \<Longrightarrow> settings r = settings r0"
  by (simp add: steps_def core_def)

lemma new_order_ok' [simp]: "order_ok new_order"
  by (simp add: order_ok_def new_order_def)

lemma new_turn_ok [simp]: "turn_ok (new_turn L g)"
  by (simp add: turn_ok_def new_turn_def)

lemma turn_gen_new [simp]: "turn_gen (new_turn L g) = g"
  by (simp add: new_turn_def)

lemma turn_of_ok: "core r0 r \<Longrightarrow> turn_ok (turn_of L ch r)"
  by (auto simp: core_def core_ok_def turn_of_def split: option.split)

lemma steps_turn_ok: "steps r0 r \<Longrightarrow> turn_ok (turn_of L ch r)"
  unfolding steps_def by (blast intro: turn_of_ok)

subsection \<open>The primitives stay within it\<close>

lemma core_emit:
  assumes "core r0 r" "allowed (mute_level (settings r0)) a" "\<And>j. a = Summarize j \<Longrightarrow> job_ok r j"
  shows "core r0 (emit a r)"
proof -
  obtain new where "acts r = acts r0 @ new" "\<forall>a \<in> set new. allowed (mute_level (settings r0)) a"
    using assms(1) by (auto simp: core_def)
  then have "\<exists>new. acts (emit a r) = acts r0 @ new \<and> (\<forall>a \<in> set new. allowed (mute_level (settings r0)) a)"
    using assms(2) by (intro exI [of _ "new @ [a]"]) auto
  then show ?thesis using assms(1,3) by (auto simp: core_def core_ok_def same_gens_def job_ok_def)
qed

lemma core_note: "core r0 r \<Longrightarrow> core r0 (leave_note c k w t r)"
  by (simp add: core_def core_ok_def same_gens_def job_ok_def)

lemma core_gen:
  assumes "core r0 r"
  shows "core r0 (r\<lparr>next_gen := next_gen r + 1\<rparr>)"
proof -
  let ?r = "r\<lparr>next_gen := next_gen r + 1\<rparr>"
  have r: "core_ok r" "settings r = settings r0" "whole r = whole r0" "same_gens r0 r"
    "next_gen r0 \<le> next_gen r" "next_seq r0 \<le> next_seq r" "serve_seq r0 \<le> serve_seq r"
    and new: "\<exists>new. acts r = acts r0 @ new \<and> (\<forall>a \<in> set new. allowed (mute_level (settings r0)) a)"
    using assms by (simp_all only: core_def)
  have "turn_ok c \<and> turn_gen c \<le> next_gen ?r" if "map_of (turns ?r) ch = Some c" for ch c
  proof -
    have "turn_ok c \<and> turn_gen c \<le> next_gen r" using r(1) that unfolding core_ok_def by simp
    then show ?thesis by simp
  qed
  moreover have "job_ok ?r j" if "Summarize j \<in> set (acts ?r)" for j
  proof -
    have "job_ok r j" using r(1) that unfolding core_ok_def by simp
    then show ?thesis by (simp add: job_ok_def)
  qed
  ultimately have "core_ok ?r" unfolding core_ok_def by blast
  moreover have "same_gens r0 ?r" using r(4) by (simp add: same_gens_def)
  ultimately show ?thesis using r new unfolding core_def by simp
qed

lemma core_on_turn_gen:
  assumes r: "core r0 r" and ok: "turn_ok (f (turn_of L ch r))"
    and g: "turn_gen (f (turn_of L ch r)) = turn_gen (turn_of L ch r) \<or>
      next_gen r0 < turn_gen (f (turn_of L ch r)) \<and> turn_gen (f (turn_of L ch r)) \<le> next_gen r"
  shows "core r0 (on_turn L ch f r)"
proof -
  have le: "next_gen r \<le> next_gen (ensure L ch r)" by (simp add: next_gen_ensure)
  have t: "turn_gen (turn_of L ch r) \<le> next_gen (ensure L ch r)"
    using r by (auto simp: core_def core_ok_def turn_of_def next_gen_ensure split: option.split)
  have fr: "next_gen r0 < turn_gen (turn_of L ch r) \<or>
      map_option turn_gen (map_of (turns r0) ch) = Some (turn_gen (turn_of L ch r))"
    using r by (auto simp: core_def same_gens_def turn_of_def split: option.splits)
  have ok_r: "core_ok r" using r by (simp add: core_def)
  have 1: "turn_ok d \<and> turn_gen d \<le> next_gen (ensure L ch r)" if "map_of (turns (on_turn L ch f r)) x = Some d" for x d
  proof (cases "x = ch")
    case True
    then have "d = f (turn_of L ch r)" using that by (simp add: turns_on_turn)
    then show ?thesis using ok g t le by (metis le_trans)
  next
    case False
    then have "map_of (turns r) x = Some d" using that by (simp add: turns_on_turn)
    then have "turn_ok d \<and> turn_gen d \<le> next_gen r" using ok_r by (simp add: core_ok_def)
    then show ?thesis using le by linarith
  qed
  have 2: "job_ok (on_turn L ch f r) j" if "Summarize j \<in> set (acts r)" for j
  proof -
    have "job_ok r j" using ok_r that by (simp add: core_ok_def)
    then show ?thesis using le by (auto simp: job_ok_def)
  qed
  have c: "core_ok (on_turn L ch f r)" unfolding core_ok_def using 1 2 by simp
  have s: "same_gens r0 (on_turn L ch f r)" unfolding same_gens_def
  proof (intro allI impI)
    fix x d
    assume d: "map_of (turns (on_turn L ch f r)) x = Some d"
    show "next_gen r0 < turn_gen d \<or> map_option turn_gen (map_of (turns r0) x) = Some (turn_gen d)"
    proof (cases "x = ch")
      case True
      then have "d = f (turn_of L ch r)" using d by (simp add: turns_on_turn)
      then show ?thesis using g fr True by metis
    next
      case False
      then show ?thesis using d r by (simp add: turns_on_turn core_def same_gens_def)
    qed
  qed
  show ?thesis using r c s le by (auto simp: core_def)
qed

lemma core_on_turn:
  assumes "core r0 r" "turn_ok (turn_of L ch r) \<Longrightarrow> turn_ok (f (turn_of L ch r))"
    "turn_gen (f (turn_of L ch r)) = turn_gen (turn_of L ch r)"
  shows "core r0 (on_turn L ch f r)"
  using core_on_turn_gen [of r0 r f L ch] assms turn_of_ok [OF assms(1)] by blast

lemma ensure_as_on_turn: "core r0 r \<Longrightarrow> core r0 (ensure L ch r)"
proof -
  assume r: "core r0 r"
  have "core r0 (on_turn L ch (\<lambda>c. c) r)" by (rule core_on_turn [OF r]) simp_all
  then show "core r0 (ensure L ch r)"
    by (auto simp: core_def core_ok_def same_gens_def job_ok_def turns_on_turn turns_ensure)
qed

lemma core_upd_turn:
  assumes r: "core r0 r" and ok: "\<And>c. turn_ok c \<Longrightarrow> turn_ok (f c)" "\<And>c. turn_gen (f c) = turn_gen c"
  shows "core r0 (upd_turn ch f r)"
proof -
  have "core_ok (upd_turn ch f r)"
    using r ok unfolding core_def core_ok_def job_ok_def by (auto simp: turns_upd_turn)
  moreover have "same_gens r0 (upd_turn ch f r)"
  proof -
    have s: "same_gens r0 r" using r by (simp add: core_def)
    show ?thesis unfolding same_gens_def
    proof (intro allI impI)
      fix x c
      assume "map_of (turns (upd_turn ch f r)) x = Some c"
      then obtain d where "map_of (turns r) x = Some d" "turn_gen c = turn_gen d"
        using ok(2) by (auto simp: turns_upd_turn split: if_splits)
      then show "next_gen r0 < turn_gen c \<or> map_option turn_gen (map_of (turns r0) x) = Some (turn_gen c)"
        using s by (simp add: same_gens_def)
    qed
  qed
  ultimately show ?thesis using r by (simp add: core_def)
qed

text \<open>The same for \<open>steps\<close>: these do not touch the buffer.\<close>

lemma buffer_cong:
  "parked r = parked s \<Longrightarrow> watched r = watched s \<Longrightarrow> serve_seq r = serve_seq s \<Longrightarrow> next_seq r = next_seq s \<Longrightarrow>
     buffer_ok r = buffer_ok s"
  by (simp add: buffer_ok_def)

lemma steps_emit:
  "steps r0 r \<Longrightarrow> allowed (mute_level (settings r0)) a \<Longrightarrow> (\<And>j. a = Summarize j \<Longrightarrow> job_ok r j) \<Longrightarrow>
     steps r0 (emit a r)"
  by (simp add: steps_def core_emit buffer_cong [of "emit a r" r])

lemma steps_note: "steps r0 r \<Longrightarrow> steps r0 (leave_note c k w t r)"
  by (simp add: steps_def core_note buffer_cong [of "leave_note c k w t r" r])

lemma steps_gen: "steps r0 r \<Longrightarrow> steps r0 (snd (fresh_gen r))"
  using core_gen [of r0 r] by (simp add: steps_def fresh_gen_def buffer_ok_def)

lemma steps_on_turn:
  "steps r0 r \<Longrightarrow> (turn_ok (turn_of L ch r) \<Longrightarrow> turn_ok (f (turn_of L ch r))) \<Longrightarrow>
    turn_gen (f (turn_of L ch r)) = turn_gen (turn_of L ch r) \<Longrightarrow> steps r0 (on_turn L ch f r)"
  by (simp add: steps_def core_on_turn buffer_cong [of "on_turn L ch f r" r])

lemma steps_on_turn_gen:
  "steps r0 r \<Longrightarrow> turn_ok (f (turn_of L ch r)) \<Longrightarrow>
    next_gen r0 < turn_gen (f (turn_of L ch r)) \<Longrightarrow> turn_gen (f (turn_of L ch r)) \<le> next_gen r \<Longrightarrow>
    steps r0 (on_turn L ch f r)"
  by (simp add: steps_def core_on_turn_gen buffer_cong [of "on_turn L ch f r" r])

lemma steps_ensure: "steps r0 r \<Longrightarrow> steps r0 (ensure L ch r)"
  by (simp add: steps_def ensure_as_on_turn buffer_cong [of "ensure L ch r" r])

lemma steps_upd_turn:
  "steps r0 r \<Longrightarrow> (\<And>c. turn_ok c \<Longrightarrow> turn_ok (f c)) \<Longrightarrow> (\<And>c. turn_gen (f c) = turn_gen c) \<Longrightarrow>
     steps r0 (upd_turn ch f r)"
  by (simp add: steps_def core_upd_turn buffer_cong [of "upd_turn ch f r" r])

end
