(* ===== verification/Agent_Steps.thy ===== *)
theory Agent_Steps imports Agent_Inv begin

text \<open>Every operation of the agent rules stays within \<open>steps\<close>.\<close>

named_theorems step_intros "operations that stay within the invariant and the step relation"

section \<open>Turns\<close>

lemma turn_ok_upd [simp]:
  "turn_ok (c\<lparr>assembler := a\<rparr>) = turn_ok c" "turn_ok (c\<lparr>turn_t := x1\<rparr>) = turn_ok c"
  "turn_ok (c\<lparr>current := x2\<rparr>) = turn_ok c" "turn_ok (c\<lparr>awaiting := b\<rparr>) = turn_ok c"
  "turn_ok (c\<lparr>hinted := b\<rparr>) = turn_ok c" "turn_ok (c\<lparr>lead_in := x3\<rparr>) = turn_ok c"
  "turn_ok (c\<lparr>lead_in_wait := x4\<rparr>) = turn_ok c" "turn_ok (c\<lparr>reply := x5\<rparr>) = turn_ok c"
  "turn_ok (c\<lparr>replied := x6\<rparr>) = turn_ok c" "turn_ok (c\<lparr>held_prose := x7\<rparr>) = turn_ok c"
  "turn_ok (c\<lparr>new_para := b\<rparr>) = turn_ok c" "turn_ok (c\<lparr>last_index := x8\<rparr>) = turn_ok c"
  "turn_ok (c\<lparr>released := b\<rparr>) = turn_ok c" "turn_ok (c\<lparr>ended := b\<rparr>) = turn_ok c"
  "turn_ok (c\<lparr>batch_cut := b\<rparr>) = turn_ok c" "turn_ok (c\<lparr>skip_reply := b\<rparr>) = turn_ok c"
  "turn_ok (c\<lparr>turn_gen := n\<rparr>) = turn_ok c" "turn_ok (c\<lparr>settle_gen := n\<rparr>) = turn_ok c"
  "turn_ok (c\<lparr>settle_armed := b\<rparr>) = turn_ok c" "turn_ok (c\<lparr>pending := x9\<rparr>) = turn_ok c"
  "turn_ok (c\<lparr>held := x10\<rparr>) = turn_ok c" "turn_ok (c\<lparr>inflight := n\<rparr>) = turn_ok c"
  "turn_ok (c\<lparr>last_token := n\<rparr>) = turn_ok c"
  by (simp_all add: turn_ok_def)

lemma turn_ok_order [simp]:
  "turn_ok c \<Longrightarrow> order_ok d \<Longrightarrow> turn_ok (c\<lparr>order := d\<rparr>)"
  "turn_ok c \<Longrightarrow> order_ok (order c)"
  by (simp_all add: turn_ok_def)

lemma order_ok_upd [simp]:
  "order_ok (d\<lparr>order_gen := g\<rparr>) = order_ok d"
  "order_ok (d\<lparr>skipped := s\<rparr>) = order_ok d"
  "order_ok d \<Longrightarrow> order_ok (d\<lparr>next_delta := 0\<rparr>)"
  by (auto simp: order_ok_def)

lemma turn_ok_voiced [simp]:
  "turn_ok c \<Longrightarrow> turn_ok (c\<lparr>voiced := length (prose c)\<rparr>)"
  "turn_ok c \<Longrightarrow> turn_ok (c\<lparr>prose := [], voiced := 0\<rparr>)"
  "turn_ok c \<Longrightarrow> turn_ok (c\<lparr>prose := prose c @ ts\<rparr>)"
  "turn_ok c \<Longrightarrow> turn_ok (c\<lparr>prose := take (voiced c) (prose c)\<rparr>)"
  by (auto simp: turn_ok_def)

lemma turn_ok_questions [simp]:
  "turn_ok c \<Longrightarrow> \<forall>q. x = Some q \<longrightarrow> qset_ok q \<Longrightarrow> turn_ok (c\<lparr>questions := x\<rparr>)"
  "turn_ok c \<Longrightarrow> \<forall>s. y = Some s \<longrightarrow> rset_ok s \<Longrightarrow> turn_ok (c\<lparr>read_set := y\<rparr>)"
  by (auto simp: turn_ok_def)

lemma release_order_ok' [simp]: "order_ok (snd (release_order d))"
  by (rule release_order_ok)

lemma take_kept_ok [simp]: "turn_ok c \<Longrightarrow> turn_ok (snd (take_kept c))" "turn_gen (snd (take_kept c)) = turn_gen c"
  by (simp_all add: take_kept_def)

section \<open>Speaking\<close>

lemma allowed_say: "allowed lvl (if lvl = 0 then Speak ch t d rl k else Store ch t d k)"
  by simp

lemma core_say: "core r0 r \<Longrightarrow> core r0 (say ch t d rl k r)"
  by (auto simp: say_def core_settings intro!: core_emit)

lemma core_earcon: "core r0 r \<Longrightarrow> core r0 (play_earcon e r)"
  by (auto simp: play_earcon_def core_settings intro!: core_emit core_note)

lemma steps_say [step_intros]: "steps r0 r \<Longrightarrow> steps r0 (say ch t d rl k r)"
  by (auto simp: say_def steps_settings intro!: steps_emit)

lemma steps_speak [step_intros]: "steps r0 r \<Longrightarrow> steps r0 (speak ch t d k r)"
  by (simp add: speak_def steps_say)

lemma steps_earcon [step_intros]: "steps r0 r \<Longrightarrow> steps r0 (play_earcon e r)"
  by (auto simp: play_earcon_def steps_settings intro!: steps_emit steps_note)

lemma steps_fold:
  assumes "\<And>x r. steps r0 r \<Longrightarrow> steps r0 (f x r)"
  shows "steps r0 r \<Longrightarrow> steps r0 (fold f xs r)"
  by (induction xs arbitrary: r) (auto intro: assms)

lemma steps_speak_all [step_intros]: "steps r0 r \<Longrightarrow> steps r0 (speak_all ch ts r)"
  unfolding speak_all_def by (rule steps_fold) (rule steps_speak)

lemma steps_speak_decisions [step_intros]: "steps r0 r \<Longrightarrow> steps r0 (speak_decisions ch ds r)"
  unfolding speak_decisions_def by (rule steps_fold) (rule steps_speak)

lemma steps_timer [step_intros]: "steps r0 r \<Longrightarrow> steps r0 (emit (Set_Timer n tm) r)"
  by (rule steps_emit) simp_all

declare steps_note [step_intros] steps_ensure [step_intros]

section \<open>Prose\<close>

lemma drop_held_ok [step_intros]: "steps r0 r \<Longrightarrow> steps r0 (snd (drop_held L ch why r))"
  by (auto simp: drop_held_def Let_def intro!: steps_note steps_on_turn)

lemma note_kept_ok [step_intros]: "steps r0 r \<Longrightarrow> steps r0 (note_kept ch n r)"
  by (simp add: note_kept_def steps_note)

lemma hold_kept_ok [step_intros]: "steps r0 r \<Longrightarrow> steps r0 (snd (hold_kept L ch r))"
  by (auto simp: hold_kept_def Let_def intro!: note_kept_ok steps_on_turn)

lemma flush_prose_upto_ok [step_intros]: "steps r0 r \<Longrightarrow> steps r0 (flush_prose_upto L ch n r)"
  by (auto simp: flush_prose_upto_def Let_def intro!: steps_speak_all steps_speak steps_on_turn)

lemma flush_prose_ok [step_intros]: "steps r0 r \<Longrightarrow> steps r0 (flush_prose L ch r)"
  by (simp add: flush_prose_def flush_prose_upto_ok)

lemma arm_settle_ok [step_intros]:
  assumes "steps r0 r"
  shows "steps r0 (arm_settle L ch r)"
  using steps_gen [OF assms]
  by (auto simp: arm_settle_def Let_def fresh_gen_def intro!: steps_timer steps_on_turn)

lemma gather_chunk_ok:
  "turn_ok (g_turn s) \<Longrightarrow> turn_ok (g_turn (gather_chunk b x s)) \<and> turn_gen (g_turn (gather_chunk b x s)) = turn_gen (g_turn s)"
  by (cases x) simp_all

lemma gather_chunks_ok:
  "turn_ok (g_turn s) \<Longrightarrow> turn_ok (g_turn (fold (gather_chunk b) xs s)) \<and>
     turn_gen (g_turn (fold (gather_chunk b) xs s)) = turn_gen (g_turn s)"
  by (induction xs arbitrary: s) (simp_all add: gather_chunk_ok)

lemma gather_delta_ok:
  assumes "turn_ok (g_turn s)"
  shows "turn_ok (g_turn (gather_delta L b d s)) \<and> turn_gen (g_turn (gather_delta L b d s)) = turn_gen (g_turn s)"
proof -
  obtain t i fin where d: "d = (t, i, fin)" by (cases d) auto
  define c where "c = (g_turn s)\<lparr>new_para := new_para (g_turn s) \<or>
      (i = 0 \<and> (case last_index (g_turn s) of Some j \<Rightarrow> j \<noteq> 0 | None \<Rightarrow> False)), last_index := Some i\<rparr>"
  define u where "u = fold (gather_chunk b) (fst (asm_feed L t i fin (assembler c)))
      (s\<lparr>g_turn := c\<lparr>assembler := snd (asm_feed L t i fin (assembler c))\<rparr>\<rparr>)"
  have "turn_ok (g_turn u) \<and> turn_gen (g_turn u) = turn_gen (g_turn s)"
    using gather_chunks_ok [of "s\<lparr>g_turn := c\<lparr>assembler := snd (asm_feed L t i fin (assembler c))\<rparr>\<rparr>" b
      "fst (asm_feed L t i fin (assembler c))"] assms
    unfolding u_def by (simp add: c_def)
  moreover have "gather_delta L b d s =
      (if fin then u\<lparr>g_turn := (g_turn u)\<lparr>new_para := True\<rparr>, g_breaks := Some (length (g_texts u))\<rparr> else u)"
    by (simp add: gather_delta_def d Let_def case_prod_beta u_def c_def)
  ultimately show ?thesis by simp
qed

lemma gather_deltas_ok:
  "turn_ok (g_turn s) \<Longrightarrow> turn_ok (g_turn (fold (gather_delta L b) ds s)) \<and>
     turn_gen (g_turn (fold (gather_delta L b) ds s)) = turn_gen (g_turn s)"
  by (induction ds arbitrary: s) (simp_all add: gather_delta_ok)

lemma gather_ok:
  assumes "turn_ok c"
  shows "turn_ok (g_turn (gather L sums b ds c)) \<and> turn_gen (g_turn (gather L sums b ds c)) = turn_gen c"
proof -
  let ?p = "if sums then ([], c) else take_kept c"
  let ?s = "\<lparr>g_turn = snd ?p, g_texts = fst ?p, g_skipped = [], g_breaks = None\<rparr>"
  have "turn_ok (g_turn ?s)" "turn_gen (g_turn ?s) = turn_gen c" using assms by simp_all
  then show ?thesis using gather_deltas_ok [of ?s L b ds]
    by (cases sums) (simp_all add: gather_def case_prod_beta Let_def)
qed

lemma note_texts_ok [step_intros]: "steps r0 r \<Longrightarrow> steps r0 (note_texts ch k w ts r)"
  unfolding note_texts_def by (rule steps_fold) (rule steps_note)

lemma deliver_ok [step_intros]: "steps r0 r \<Longrightarrow> steps r0 (deliver L ch texts breaks r)"
  by (auto simp: deliver_def Let_def intro!: steps_note flush_prose_ok flush_prose_upto_ok steps_on_turn)

lemma assemble_ok [step_intros]:
  assumes "steps r0 r"
  shows "steps r0 (assemble L ch ds r)"
proof -
  have "steps r0 (on_turn L ch (\<lambda>_. g_turn (gather L b b' ds (turn_of L ch r))) r)" for b b'
    using gather_ok [OF steps_turn_ok [OF assms]] by (intro steps_on_turn [OF assms]) blast+
  then show ?thesis using assms
    by (auto simp: assemble_def Let_def intro!: deliver_ok arm_settle_ok note_texts_ok note_kept_ok)
qed

lemma release_gap_ok [step_intros]: "steps r0 r \<Longrightarrow> steps r0 (release_gap L ch why r)"
  by (auto simp: release_gap_def Let_def intro!: assemble_ok steps_note steps_on_turn)

lemma skip_delta_ok [step_intros]: "steps r0 r \<Longrightarrow> steps r0 (skip_delta L ch d i fin r)"
  by (auto simp: skip_delta_def Let_def case_prod_beta intro!: steps_fold steps_note steps_on_turn)

lemma accept_order_ok: "order_ok s \<Longrightarrow> order_ok (snd (accept d i fin s))"
  by (metis accept_ok prod.collapse)

lemma accept_delta_ok [step_intros]:
  assumes "steps r0 r"
  shows "steps r0 (accept_delta L ch d i fin r)"
proof -
  define r1 where "r1 = (if i = 0 \<and> 0 < next_delta (order (turn_of L ch r)) \<and> ahead (order (turn_of L ch r)) \<noteq> []
      then release_gap L ch (lit ''next block'') r else r)"
  have 1: "steps r0 r1" using assms by (simp add: r1_def release_gap_ok)
  define a where "a = accept d i fin (order (turn_of L ch r1))"
  have o1: "order_ok (snd a)" unfolding a_def using steps_turn_ok [OF 1] by (simp add: accept_order_ok)
  define r2 where "r2 = on_turn L ch (\<lambda>c. c\<lparr>order := snd a\<rparr>) r1"
  have 2: "steps r0 r2" unfolding r2_def using 1 o1 by (auto intro!: steps_on_turn)
  define r3 where "r3 = on_turn L ch (\<lambda>c. c\<lparr>order := (order c)\<lparr>order_gen := next_gen r2 + 1\<rparr>\<rparr>)
      (snd (fresh_gen r2))"
  have "steps r0 r3" unfolding r3_def using steps_gen [OF 2] by (auto intro!: steps_on_turn)
  moreover have "accept_delta L ch d i fin r = assemble L ch (fst (fst a))
      (if snd (fst a)
       then leave_note (Some ch) K_Prose (Delta_Waits i (missing (order (turn_of L ch r3)))) None
              (emit (Set_Timer DELTA_GAP (Gap ch (next_gen r2 + 1))) r3)
       else r2)"
    unfolding accept_delta_def Let_def case_prod_beta r1_def [symmetric] a_def [symmetric] r2_def [symmetric]
    by (simp add: r3_def fresh_gen_def)
  ultimately show ?thesis using 2 by (simp add: assemble_ok steps_note steps_timer)
qed

lemma stream_ok [step_intros]:
  assumes "steps r0 r"
  shows "steps r0 (snd (stream L ch trn d i fin t r))"
proof -
  have "steps r0 (on_turn L ch (\<lambda>c. if i = 0 \<and> fin
      then c\<lparr>lead_in_wait := map_option (\<lambda>w. w\<lparr>wait_seen := wait_seen w @ [fold_text L d]\<rparr>) (lead_in_wait c)\<rparr> else c) r)"
    using assms by (auto intro!: steps_on_turn)
  then show ?thesis using assms
    by (auto simp: stream_def Let_def intro!: steps_note skip_delta_ok accept_delta_ok steps_on_turn)
qed

end
