(* ===== verification/Agent_Calls.thy ===== *)
theory Agent_Calls imports Agent_Steps begin

text \<open>
  The rest of the operations stay within \<open>steps\<close>: the reorder buffer, decisions, turns, timers and the
  question navigation. Then the calls of the driver and the states it can reach.
\<close>

section \<open>The reorder buffer\<close>

lemma apply_release_sel [simp]:
  "settings (apply_release L x r) = settings r" "turns (apply_release L x r) = turns r"
  "watched (apply_release L x r) = watched r" "serve_seq (apply_release L x r) = serve_seq r"
  "next_seq (apply_release L x r) = next_seq r" "next_gen (apply_release L x r) = next_gen r"
  "whole (apply_release L x r) = whole r"
  by (auto simp: apply_release_def say_def play_earcon_def split: option.splits)

lemma apply_release_core: "core r0 r \<Longrightarrow> core r0 (apply_release L x r)"
  by (auto simp: apply_release_def intro!: core_note core_say core_earcon split: option.split)

lemma apply_release_steps [step_intros]: "steps r0 r \<Longrightarrow> steps r0 (apply_release L x r)"
  by (simp add: steps_def apply_release_core buffer_cong [of "apply_release L x r" r])

definition buffer_pre :: "'a rules \<Rightarrow> bool" where
  "buffer_pre r \<longleftrightarrow> distinct (map fst (parked r)) \<and> distinct (map fst (watched r)) \<and>
     slots (parked r) \<inter> slots (watched r) = {} \<and> serve_seq r \<le> next_seq r \<and>
     slots (parked r) \<union> slots (watched r) = {serve_seq r..<next_seq r}"

lemma buffer_ok_pre: "buffer_ok r \<longleftrightarrow> buffer_pre r \<and> serve_seq r \<notin> slots (parked r)"
  by (auto simp: buffer_ok_def buffer_pre_def)

lemma slots_update [simp]: "slots (AList.update k v xs) = insert k (slots xs)"
  by (simp add: slots_def dom_update)

lemma slots_delete [simp]: "slots (AList.delete k xs) = slots xs - {k}"
  by (auto simp: slots_def AList.delete_eq)

lemma slots_map_of: "map_of xs k = None \<longleftrightarrow> k \<notin> slots xs"
  by (simp add: slots_def map_of_eq_None_iff)

lemma core_buffer:
  "core r0 r \<Longrightarrow> serve_seq r \<le> n \<Longrightarrow>
     core r0 (r\<lparr>watched := w, parked := p, serve_seq := n\<rparr>)"
  by (auto simp: core_def core_ok_def same_gens_def job_ok_def)

lemma serve_step:
  "map_of (parked r) (serve_seq r) = Some x \<Longrightarrow>
     serve L r = serve L (apply_release L x
       (r\<lparr>parked := AList.delete (serve_seq r) (parked r), serve_seq := serve_seq r + 1\<rparr>))"
  "map_of (parked r) (serve_seq r) = None \<Longrightarrow> serve L r = r"
  by (simp_all add: serve.simps [of L r])

lemma buffer_pre_serve:
  assumes "buffer_pre r" "serve_seq r \<in> slots (parked r)"
  shows "buffer_pre (r\<lparr>parked := AList.delete (serve_seq r) (parked r), serve_seq := serve_seq r + 1\<rparr>)"
proof -
  let ?k = "serve_seq r"
  have a: "slots (parked r) \<inter> slots (watched r) = {}" "slots (parked r) \<union> slots (watched r) = {?k..<next_seq r}"
    "distinct (map fst (parked r))" "distinct (map fst (watched r))"
    using assms(1) by (simp_all add: buffer_pre_def)
  have "?k < next_seq r" using a(2) assms(2) by (metis UnI1 atLeastLessThan_iff)
  moreover have "slots (parked r) - {?k} \<union> slots (watched r) = {?k..<next_seq r} - {?k}"
    using a(1,2) assms(2) by auto
  moreover have "{?k..<next_seq r} - {?k} = {Suc ?k..<next_seq r}" by auto
  ultimately show ?thesis using a
    by (auto simp: buffer_pre_def distinct_delete)
qed

lemma serve_ok:
  "core r0 r \<Longrightarrow> buffer_pre r \<Longrightarrow> steps r0 (serve L r)"
proof (induction L r rule: serve.induct)
  case (1 L r)
  show ?case
  proof (cases "map_of (parked r) (serve_seq r)")
    case None
    then show ?thesis using 1(2,3) by (simp add: serve_step(2) steps_def buffer_ok_pre slots_map_of)
  next
    case (Some x)
    let ?r = "r\<lparr>parked := AList.delete (serve_seq r) (parked r), serve_seq := serve_seq r + 1\<rparr>"
    have in_p: "serve_seq r \<in> slots (parked r)" using Some slots_map_of [of "parked r" "serve_seq r"] by auto
    have "core r0 ?r"
      using core_buffer [OF 1(2), of "serve_seq r + 1" "AList.delete (serve_seq r) (parked r)" "watched r"] by simp
    then have "core r0 (apply_release L x ?r)" by (rule apply_release_core)
    moreover have "buffer_pre (apply_release L x ?r)"
      using buffer_pre_serve [OF 1(3) in_p] by (simp add: buffer_pre_def)
    ultimately show ?thesis using 1(1) [OF Some] by (simp add: serve_step(1) [OF Some])
  qed
qed

text \<open>A slot that is not parked and not served can land: it was watched, or it is the newest one.\<close>

lemma land_slot:
  assumes "core r0 r" "serve_seq r \<le> k" "k \<notin> slots (parked r)"
    "distinct (map fst (parked r))" "distinct (map fst (watched r))"
    "slots (parked r) \<inter> slots (watched r) = {}" "serve_seq r \<le> next_seq r"
    "insert k (slots (parked r) \<union> slots (watched r)) = {serve_seq r..<next_seq r}"
  shows "steps r0 (land L (Some k) x r)"
proof -
  let ?r = "r\<lparr>watched := AList.delete k (watched r), parked := AList.update k x (parked r)\<rparr>"
  have "core r0 ?r" using core_buffer [OF assms(1), of "serve_seq r" "AList.update k x (parked r)" "AList.delete k (watched r)"]
    by simp
  moreover have "buffer_pre ?r"
    using assms by (auto simp: buffer_pre_def distinct_update distinct_delete)
  ultimately show ?thesis
    using assms(2,3) serve_ok [of r0 ?r L] by (simp add: land_def slots_map_of)
qed

lemma land_ok:
  assumes "steps r0 r" "\<And>k. seq = Some k \<Longrightarrow> k < next_seq r"
  shows "steps r0 (land L seq x r)"
proof (cases seq)
  case None
  then show ?thesis using assms(1) by (simp add: land_def apply_release_steps)
next
  case (Some k)
  show ?thesis
  proof (cases "k < serve_seq r \<or> map_of (parked r) k \<noteq> None")
    case True
    then show ?thesis using assms(1) Some by (simp add: land_def)
  next
    case False
    then have k: "serve_seq r \<le> k" "k \<notin> slots (parked r)" "k < next_seq r"
      using assms(2) [OF Some] slots_map_of [of "parked r" k] by auto
    have b: "buffer_ok r" "core r0 r" using assms(1) by (simp_all add: steps_def)
    have "insert k (slots (parked r) \<union> slots (watched r)) = {serve_seq r..<next_seq r}"
      using b(1) k by (auto simp: buffer_ok_def)
    then show ?thesis unfolding Some using land_slot [OF b(2) k(1,2)] b(1) by (simp add: buffer_ok_def)
  qed
qed

lemma land_new_slot:
  assumes "steps r0 r"
  shows "steps r0 (land L (Some (next_seq r)) x (r\<lparr>next_seq := next_seq r + 1\<rparr>))"
proof -
  let ?r = "r\<lparr>next_seq := next_seq r + 1\<rparr>"
  have b: "buffer_ok r" "core r0 r" using assms by (simp_all add: steps_def)
  have le: "serve_seq r \<le> next_seq r" using b(1) by (simp add: buffer_ok_def)
  have u: "slots (parked r) \<union> slots (watched r) = {serve_seq r..<next_seq r}" using b(1) by (simp add: buffer_ok_def)
  then have "next_seq r \<notin> slots (parked r)" by (metis UnCI atLeastLessThan_iff less_irrefl)
  moreover have "insert (next_seq r) (slots (parked r) \<union> slots (watched r)) = {serve_seq r..<next_seq r + 1}"
    using u le by (auto simp: less_Suc_eq)
  moreover have "core r0 ?r" using b(2) by (auto simp: core_def core_ok_def same_gens_def job_ok_def)
  ultimately show ?thesis using land_slot [of r0 ?r "next_seq r" L x] b(1) le by (simp add: buffer_ok_def)
qed

section \<open>Summaries and decisions\<close>

lemma speak_chunks_ok [step_intros]: "steps r0 r \<Longrightarrow> steps r0 (speak_chunks ch ts r)"
  by (simp add: speak_chunks_def steps_speak steps_speak_all)

lemma steps_token: "steps r0 r \<Longrightarrow> steps r0 (r\<lparr>next_token := n\<rparr>)"
  by (auto simp: steps_def core_def core_ok_def same_gens_def job_ok_def buffer_ok_def)

lemma steps_decision: "steps r0 r \<Longrightarrow> steps r0 (r\<lparr>next_decision := n\<rparr>)"
  by (auto simp: steps_def core_def core_ok_def same_gens_def job_ok_def buffer_ok_def)

lemma steps_new_watch:
  assumes "steps r0 r"
  shows "steps r0 (r\<lparr>next_seq := next_seq r + 1, watched := AList.update (next_seq r) x (watched r)\<rparr>)"
proof -
  have b: "buffer_ok r" "core r0 r" using assms by (simp_all add: steps_def)
  have u: "slots (parked r) \<union> slots (watched r) = {serve_seq r..<next_seq r}" using b(1) by (simp add: buffer_ok_def)
  have le: "serve_seq r \<le> next_seq r" using b(1) by (simp add: buffer_ok_def)
  have "next_seq r \<notin> slots (parked r)" using u by (metis UnCI atLeastLessThan_iff less_irrefl)
  moreover have "slots (parked r) \<union> insert (next_seq r) (slots (watched r)) = {serve_seq r..<next_seq r + 1}"
    using u le by (auto simp: less_Suc_eq)
  ultimately have "buffer_ok (r\<lparr>next_seq := next_seq r + 1, watched := AList.update (next_seq r) x (watched r)\<rparr>)"
    using b(1) by (simp add: buffer_ok_def distinct_update)
  moreover have "core r0 (r\<lparr>next_seq := next_seq r + 1, watched := AList.update (next_seq r) x (watched r)\<rparr>)"
    using b(2) by (auto simp: core_def core_ok_def same_gens_def job_ok_def)
  ultimately show ?thesis by (simp add: steps_def)
qed

lemma dispatch_summary_ok:
  assumes r: "steps r0 r" and lvl: "mute_level (settings r0) = 0" and g: "g \<le> next_gen r"
  shows "steps r0 (dispatch_summary L ch leadin g t r)"
proof -
  define r1 where "r1 = on_turn L ch (\<lambda>c. c\<lparr>last_token := next_token r + 1, inflight := inflight c + 1\<rparr>)
      (r\<lparr>next_token := next_token r + 1\<rparr>)"
  have 1: "steps r0 r1" unfolding r1_def using steps_token [OF r] by (auto intro!: steps_on_turn)
  have g1: "g \<le> next_gen r1" unfolding r1_def using g by (simp add: next_gen_ensure)
  define x where "x = \<lparr>rel_channel = ch, rel_gen = g, rel_text = t, rel_leadin = False, rel_summary = None\<rparr>"
  define r2 where "r2 = emit (Set_Timer (watchdog (summaries (settings r1))) (Watchdog (next_seq r1)))
      (r1\<lparr>next_seq := next_seq r1 + 1, watched := AList.update (next_seq r1) x (watched r1)\<rparr>)"
  have 2: "steps r0 r2" unfolding r2_def using steps_new_watch [OF 1] by (rule steps_timer)
  have eq: "dispatch_summary L ch leadin g t r = emit (Summarize
      \<lparr>job_token = next_token r + 1, job_channel = ch, job_gen = g, job_text = t, job_leadin = leadin,
       job_seq = (if leadin then None else Some (next_seq r1))\<rparr>) (if leadin then r1 else r2)"
    by (simp add: dispatch_summary_def Let_def alloc_def r1_def r2_def x_def)
  show ?thesis unfolding eq
    by (rule steps_emit) (use 1 2 lvl g1 in \<open>auto simp: job_ok_def r2_def\<close>)
qed

lemma maybe_summarize_ok [step_intros]:
  assumes r: "steps r0 r"
  shows "steps r0 (snd (maybe_summarize L ch leadin focused r))"
proof (cases "summaries_on r")
  case False
  then show ?thesis using hold_kept_ok [OF r, of L ch]
    by (auto simp: maybe_summarize_def case_prod_beta intro: flush_prose_ok)
next
  case True
  define c where "c = turn_of L ch r"
  define chunks where "chunks = drop (voiced c) (prose c)"
  define t where "t = trim (join (lit '' '') chunks)"
  define r1 where "r1 = on_turn L ch (\<lambda>c. c\<lparr>voiced := length (prose c)\<rparr>) r"
  have 1: "steps r0 r1" unfolding r1_def using r by (auto intro!: steps_on_turn)
  have g: "turn_gen c \<le> next_gen r1"
    using r unfolding c_def r1_def
    by (auto simp: steps_def core_def core_ok_def turn_of_def next_gen_ensure split: option.split)
  have s: "settings r1 = settings r0" using steps_settings [OF 1] .
  have eq: "snd (maybe_summarize L ch leadin focused r) =
      (if t = [] then ensure L ch r
       else if 0 < mute_level (settings r1) then speak_chunks ch chunks
           (leave_note (Some ch) K_Summary (Not_Made (mute_level (settings r1))) None r1)
       else if length t < SUMMARY_MIN_CHARS \<and> \<not> leadin then
         (if focused = Some ch then speak_chunks ch chunks r1
          else land L (Some (next_seq r1))
                 \<lparr>rel_channel = ch, rel_gen = turn_gen c, rel_text = t, rel_leadin = False, rel_summary = None\<rparr>
                 (r1\<lparr>next_seq := next_seq r1 + 1\<rparr>))
       else dispatch_summary L ch leadin (turn_gen c) t r1)"
    using True unfolding maybe_summarize_def Let_def c_def [symmetric] chunks_def [symmetric] t_def [symmetric]
      r1_def [symmetric] by (simp add: alloc_def)
  show ?thesis unfolding eq using r 1 s dispatch_summary_ok [OF 1 _ g]
    by (auto intro: steps_ensure speak_chunks_ok steps_note land_new_slot [OF 1, simplified])
qed

lemma enqueue_or_hold_ok [step_intros]: "steps r0 r \<Longrightarrow> steps r0 (enqueue_or_hold L ch item b r)"
  by (auto simp: enqueue_or_hold_def Let_def intro!: steps_timer steps_note steps_speak flush_prose_ok steps_on_turn)

lemma enqueue_all_ok [step_intros]: "steps r0 r \<Longrightarrow> steps r0 (enqueue_all L ch b items r)"
  unfolding enqueue_all_def by (rule steps_fold) (rule enqueue_or_hold_ok)

lemma digest_done_ok:
  assumes r: "steps r0 r" and j: "\<And>k. job_seq j = Some k \<Longrightarrow> k < next_seq r"
  shows "steps r0 (digest_done L j summary r)"
  unfolding digest_done_def Let_def
  by (intro steps_speak_decisions land_ok steps_upd_turn r) (simp_all add: j)

lemma release_lead_in_wait_ok [step_intros]: "steps r0 r \<Longrightarrow> steps r0 (release_lead_in_wait L ch r)"
  by (auto simp: release_lead_in_wait_def Let_def intro!: arm_settle_ok enqueue_all_ok steps_on_turn)

lemma wait_lead_in_ok [step_intros]:
  assumes "steps r0 r"
  shows "steps r0 (wait_lead_in L ch a r)"
  using steps_gen [OF steps_ensure [OF assms], of L ch] steps_ensure [OF assms]
  by (auto simp: wait_lead_in_def Let_def fresh_gen_def intro!: steps_timer steps_on_turn)

end
