(* ===== verification/Agent_Reach.thy ===== *)
theory Agent_Reach imports Agent_Calls begin

text \<open>
  Messages, timers and the question navigation stay within \<open>steps\<close>; the calls of the driver; the states
  reachable by them, all of which satisfy the invariant.
\<close>

section \<open>Messages\<close>

lemma take_lead_in_ok [step_intros]:
  assumes r: "steps r0 r"
  shows "steps r0 (snd (take_lead_in L ch trn d i t r))"
proof -
  define s where "s = (if read_mode (settings r) = Final
      then snd (drop_held L ch (lit ''text before the question'') r) else r)"
  have s: "steps r0 s" unfolding s_def using r by (simp add: drop_held_ok)
  define u where "u = stream L ch trn d 0 True t (on_turn L ch (\<lambda>c. c\<lparr>skip_reply := False\<rparr>) s)"
  have u: "steps r0 (snd u)" unfolding u_def using s by (intro stream_ok steps_on_turn) simp_all
  define v where "v = on_turn L ch (\<lambda>c. c\<lparr>skip_reply := skip_reply (turn_of L ch s)\<rparr>) (snd u)"
  have v: "steps r0 v" unfolding v_def using u by (intro steps_on_turn) simp_all
  have undone: "steps r0 (v\<lparr>acts := acts r\<rparr>)"
  proof -
    obtain new where "acts v = acts r0 @ new" using v by (auto simp: steps_def core_def)
    have "core_ok v" using v by (simp add: steps_def core_def)
    have jr: "\<forall>j. Summarize j \<in> set (acts r) \<longrightarrow> job_ok r j" using r by (simp add: steps_def core_def core_ok_def)
    have mono: "next_gen r \<le> next_gen v" "next_seq r \<le> next_seq v"
    proof -
      have "steps r r" by (rule steps_refl) (rule steps_ok [OF r])
      then have s': "steps r s" unfolding s_def by (simp add: drop_held_ok)
      then have "steps r (snd u)" unfolding u_def by (intro stream_ok steps_on_turn) simp_all
      then have "steps r v" unfolding v_def by (intro steps_on_turn) simp_all
      then show "next_gen r \<le> next_gen v" "next_seq r \<le> next_seq v" by (simp_all add: steps_def core_def)
    qed
    have "core_ok (v\<lparr>acts := acts r\<rparr>)"
      using \<open>core_ok v\<close> jr mono unfolding core_ok_def job_ok_def by (simp; fastforce)
    then show ?thesis using v r by (simp add: steps_def core_def same_gens_def buffer_ok_def)
  qed
  have last: "steps r0 (on_turn L ch (\<lambda>c. c\<lparr>lead_in := x\<rparr>) v)" for x
    using v by (intro steps_on_turn) simp_all
  show ?thesis
    unfolding take_lead_in_def Let_def case_prod_beta s_def [symmetric] u_def [symmetric] v_def [symmetric]
    using r v undone last by (auto intro!: release_lead_in_wait_ok steps_note split: sum.split)
qed

lemma do_reply_ok [step_intros]: "steps r0 r \<Longrightarrow> steps r0 (snd (do_reply L ch trn x b t r))"
  by (auto simp: do_reply_def Let_def intro!: steps_on_turn)

lemma take_reply_ok [step_intros]:
  assumes r: "steps r0 r"
  shows "steps r0 (take_reply L ch r)"
proof -
  define r1 where "r1 = on_turn L ch (\<lambda>c. c\<lparr>reply := None\<rparr>) r"
  have 1: "steps r0 r1" unfolding r1_def using r by (intro steps_on_turn) simp_all
  have main: "steps r0 (on_turn L ch (\<lambda>c. c\<lparr>assembler := asm_new L, last_index := None\<rparr>)
      (assemble L ch ds (on_turn L ch (\<lambda>c. c\<lparr>assembler := asm_new L, new_para := False, last_index := None,
        order := (order c)\<lparr>next_delta := 0, skipped := {}\<rparr>, prose := take (voiced c) (prose c),
        replied := x, released := True\<rparr>) s)))" if s: "steps r0 s" for s ds x
  proof (intro steps_on_turn assemble_ok s)
    show "turn_ok ((turn_of L ch s)\<lparr>assembler := asm_new L, new_para := False, last_index := None,
        order := (order (turn_of L ch s))\<lparr>next_delta := 0, skipped := {}\<rparr>,
        prose := take (voiced (turn_of L ch s)) (prose (turn_of L ch s)), replied := x, released := True\<rparr>)"
      using steps_turn_ok [OF s, of L ch] by (auto simp: turn_ok_def)
  qed simp_all
  show ?thesis
    unfolding take_reply_def Let_def r1_def [symmetric]
    using 1 by (auto simp: case_prod_beta intro!: main drop_held_ok steps_note split: option.split)
qed

lemma cancel_ok: "turn_ok c \<Longrightarrow> turn_ok (cancel g s c)" "turn_gen (cancel g s c) = g"
  by (simp_all add: cancel_def)

lemma retire_ok: "turn_ok c \<Longrightarrow> turn_ok (retire trn c)" "turn_gen (retire trn c) = turn_gen c"
  by (auto simp: retire_def turn_ok_def Let_def split: option.split)

text \<open>A new cancel generation: later than every generation before the call.\<close>

lemma steps_cancel:
  assumes "steps r0 r" "next_gen r0 < g" "g \<le> next_gen r" "turn_ok (f (turn_of L ch r))"
  shows "steps r0 (on_turn L ch (\<lambda>c. cancel g s (f c)) r)"
  using assms by (intro steps_on_turn_gen) (simp_all add: cancel_ok)

lemma next_gen_drop_held: "next_gen (snd (drop_held L ch why r)) \<ge> next_gen r"
  by (auto simp: drop_held_def Let_def next_gen_ensure)

lemma next_gen_on_turn: "next_gen (on_turn L ch f r) \<ge> next_gen r"
  by (auto simp: next_gen_ensure)

lemma turn_start_ok [step_intros]:
  assumes r: "steps r0 r"
  shows "steps r0 (snd (turn_start L ch trn t r))"
proof -
  define r1 where "r1 = snd (fresh_gen (snd (fresh_gen r)))"
  have 1: "steps r0 r1" "next_gen r1 = next_gen r + 2" unfolding r1_def using steps_gen [OF steps_gen [OF r]]
    by (simp_all add: fresh_gen_def)
  define r2 where "r2 = on_turn L ch (\<lambda>c. (retire trn (c\<lparr>assembler := asm_new L, turn_t := (if t \<noteq> None then t else turn_t c)\<rparr>))
      \<lparr>current := trn, awaiting := False, questions := None, read_set := None, lead_in := None,
       reply := None, replied := None\<rparr>) r1"
  have 2: "steps r0 r2" unfolding r2_def using 1(1)
    by (intro steps_on_turn) (simp_all add: retire_ok)
  define r3 where "r3 = snd (drop_held L ch (lit ''turn_start'') r2)"
  have 3: "steps r0 r3" unfolding r3_def using 2 by (rule drop_held_ok)
  have "next_gen r1 \<le> next_gen r2" unfolding r2_def by (rule next_gen_on_turn)
  moreover have "next_gen r2 \<le> next_gen r3" unfolding r3_def by (rule next_gen_drop_held)
  ultimately have n: "next_gen r + 2 \<le> next_gen r3" using 1(2) by linarith
  have le: "next_gen r0 \<le> next_gen r" using r by (simp add: steps_def core_def)
  define g where "g = fst (fresh_gen r)"
  define s where "s = fst (fresh_gen (snd (fresh_gen r)))"
  have gs: "g = next_gen r + 1" by (simp add: g_def fresh_gen_def)
  have eq: "snd (turn_start L ch trn t r) =
      (if is_stale ch trn t r then r
       else emit (Wipe ch True) (on_turn L ch (\<lambda>c. cancel g s
         (c\<lparr>released := False, ended := False, skip_reply := False, new_para := False, last_index := None,
            order := (order c)\<lparr>next_delta := 0, skipped := {}\<rparr>, prose := [], voiced := 0\<rparr>)) r3))"
    unfolding turn_start_def Let_def case_prod_beta g_def [symmetric] s_def [symmetric] r1_def [symmetric]
      r2_def [symmetric] r3_def [symmetric] by (simp only: snd_conv if_distrib [of snd])
  have "turn_ok ((turn_of L ch r3)\<lparr>released := False, ended := False, skip_reply := False, new_para := False,
      last_index := None, order := (order (turn_of L ch r3))\<lparr>next_delta := 0, skipped := {}\<rparr>, prose := [], voiced := 0\<rparr>)"
    using steps_turn_ok [OF 3, of L ch] by (auto simp: turn_ok_def)
  then have "steps r0 (on_turn L ch (\<lambda>c. cancel g s
         (c\<lparr>released := False, ended := False, skip_reply := False, new_para := False, last_index := None,
            order := (order c)\<lparr>next_delta := 0, skipped := {}\<rparr>, prose := [], voiced := 0\<rparr>)) r3)"
    using n le gs by (intro steps_cancel [OF 3]) linarith+
  then show ?thesis using r unfolding eq by (auto intro: steps_emit)
qed

lemma turn_end_ok [step_intros]:
  assumes "steps r0 r"
  shows "steps r0 (snd (turn_end L ch trn t r))"
proof -
  have "steps r0 (on_turn L ch (\<lambda>c. c\<lparr>released := True, ended := True, batch_cut := False\<rparr>)
      (take_reply L ch (release_gap L ch (lit ''turn_end'') (play_earcon Turn_Done r))))"
    using assms by (intro steps_on_turn take_reply_ok release_gap_ok steps_earcon) simp_all
  then show ?thesis using assms
    by (auto simp: turn_end_def Let_def intro!: arm_settle_ok flush_prose_ok hold_kept_ok)
qed

lemma qset_keep:
  "qset_ok q \<Longrightarrow> i < qs_size q \<Longrightarrow> qset_ok (q\<lparr>bodies := (bodies q)[i := Some b], qs_texts := (qs_texts q)[i := Some x]\<rparr>)"
  by (auto simp: qset_ok_def nth_list_update)

lemma new_question_set_ok: "0 < n \<Longrightarrow> qset_ok (new_question_set a n)"
  by (auto simp: qset_ok_def new_question_set_def)

lemma opens_set_pos: "opens_set b a = Some n \<Longrightarrow> 0 < n"
  by (auto simp: opens_set_def set_of_ask_def Let_def split: option.splits if_splits prod.splits)

lemma rset_new: "rset_ok (new_read_set n)"
  by (simp add: rset_ok_def new_read_set_def)

lemma rset_text: "rset_ok s \<Longrightarrow> rset_ok (s\<lparr>rs_texts := (rs_texts s)[i := x]\<rparr>)"
  by (simp add: rset_ok_def)

lemma mark_question_ok: "turn_ok c \<Longrightarrow> turn_ok (mark_question b a c)" "turn_gen (mark_question b a c) = turn_gen c"
proof -
  assume c: "turn_ok c"
  let ?c = "c\<lparr>awaiting := True, questions := map_option (new_question_set a) (opens_set b a)\<rparr>"
  have 1: "turn_ok ?c"
    using c by (intro turn_ok_questions) (auto intro: new_question_set_ok dest: opens_set_pos)
  have old: "rset_ok s" if "read_set c = Some s" for s using c that by (simp add: turn_ok_def)
  have 2: "turn_ok (?c\<lparr>read_set := Some (s\<lparr>rs_texts := (rs_texts s)[i := x]\<rparr>)\<rparr>)" if "rset_ok s" for s i x
    using turn_ok_questions(2) [OF 1] rset_text [OF that] by simp
  show "turn_ok (mark_question b a c)"
  proof (cases "set_of_ask a")
    case None
    then show ?thesis using 1 by (simp add: mark_question_def)
  next
    case (Some x)
    obtain i n where x: "x = (i, n)" by (cases x)
    define rs where "rs = (case read_set c of
        Some s \<Rightarrow> if i = 0 \<or> rs_size s \<noteq> n then new_read_set n else s | None \<Rightarrow> new_read_set n)"
    have "rset_ok rs" using old by (auto simp: rs_def rset_new split: option.split)
    then have "turn_ok (?c\<lparr>read_set := Some (rs\<lparr>rs_texts := (rs_texts rs)[i := Some (ask_text a)]\<rparr>)\<rparr>)" by (rule 2)
    moreover have "mark_question b a c =
        (if b then ?c\<lparr>read_set := Some (rs\<lparr>rs_texts := (rs_texts rs)[i := Some (ask_text a)]\<rparr>)\<rparr> else ?c)"
      unfolding mark_question_def Some x Let_def rs_def by simp
    ultimately show ?thesis using 1 by metis
  qed
next
  show "turn_gen (mark_question b a c) = turn_gen c"
    by (auto simp: mark_question_def Let_def split: option.split)
qed

lemma ask_extras_ok: "turn_ok c \<Longrightarrow> turn_ok (snd (ask_extras e l a c))" "turn_gen (snd (ask_extras e l a c)) = turn_gen c"
  by (auto simp: ask_extras_def Let_def split: option.split)

lemma finish_ask_ok [step_intros]:
  assumes r: "steps r0 r"
  shows "steps r0 (finish_ask L ch a txt k r)"
proof -
  define f where "f = (read_mode (settings r) = Final)"
  define r1 where "r1 = (if f \<and> k = K_Plan then snd (drop_held L ch (lit ''text before the plan'') (ensure L ch r))
      else if f \<and> k = K_Question \<and> lead_in (turn_of L ch (ensure L ch r)) = None
      then snd (drop_held L ch (lit ''text before the question'') (ensure L ch r)) else ensure L ch r)"
  have 1: "steps r0 r1" unfolding r1_def using steps_ensure [OF r] by (simp add: drop_held_ok)
  define later where "later = (\<not> question_step (settings r1) \<and> (case set_of_ask a of Some (i, _) \<Rightarrow> 0 < i | None \<Rightarrow> False))"
  define e where "e = (verbosity (settings r1) = Everything)"
  define r2 where "r2 = on_turn L ch (\<lambda>c. snd (ask_extras e later a c)) r1"
  have 2: "steps r0 r2" unfolding r2_def using 1 by (intro steps_on_turn) (simp_all add: ask_extras_ok)
  define r3 where "r3 = r2\<lparr>next_decision := next_decision r2 + 1\<rparr>"
  have 3: "steps r0 r3" unfolding r3_def using steps_decision [OF 2] by simp
  define item where "item = \<lparr>dec_id = next_decision r3, dec_text = with_extras txt (fst (ask_extras e later a (turn_of L ch r1))), dec_kind = k\<rparr>"
  have pend: "steps r0 (on_turn L ch (\<lambda>c. c\<lparr>pending := pending c @ [item]\<rparr>) s)" if "steps r0 s" for s
    using that by (intro steps_on_turn) simp_all
  have hp: "steps r0 (on_turn L ch (\<lambda>c. c\<lparr>held_prose := x\<rparr>) s)" if "steps r0 s" for s x
    using that by (intro steps_on_turn) simp_all
  show ?thesis
    unfolding finish_ask_def Let_def f_def [symmetric] r1_def [symmetric] later_def [symmetric] e_def [symmetric]
      r2_def [symmetric] r3_def [symmetric] item_def [symmetric]
    using 3 by (auto intro!: arm_settle_ok wait_lead_in_ok steps_note pend hp enqueue_or_hold_ok)
qed

lemma keep_question_ok:
  assumes "steps r0 r" "keeps_question ch n r" "i < n"
  shows "steps r0 (keep_question ch a i r)"
proof -
  obtain c q where c: "map_of (turns r) ch = Some c" "questions c = Some q" "qs_size q = n"
    using assms(2) by (auto simp: keeps_question_def bind_eq_Some_conv split: option.splits)
  have cc: "turn_of undefined ch r = c" by (simp add: turn_of_def c(1))
  have ok: "turn_ok c" using assms(1) c(1) by (simp add: steps_def core_def core_ok_def)
  let ?f = "\<lambda>c. c\<lparr>questions := map_option (\<lambda>q. q\<lparr>bodies := (bodies q)[i := Some (body_of_ask a)],
       qs_texts := (qs_texts q)[i := Some (ask_text a)]\<rparr>) (questions c)\<rparr>"
  have fok: "turn_ok (?f c)"
    using ok c(2,3) assms(3) qset_keep by (auto intro!: turn_ok_questions simp: turn_ok_def [of c])
  have "keep_question ch a i r = on_turn undefined ch ?f r"
    by (simp add: keep_question_def upd_turn_def on_turn_def ensure_def Let_def c(1) cc)
  also have "steps r0 \<dots>" by (rule steps_on_turn [OF assms(1)]) (simp_all add: cc fok)
  finally show ?thesis .
qed

lemma set_of_ask_range: "set_of_ask a = Some (i, n) \<Longrightarrow> i < n"
  by (auto simp: set_of_ask_def split: option.splits if_splits)

lemma do_ask_ok [step_intros]:
  assumes r: "steps r0 r"
  shows "steps r0 (do_ask L ch a r)"
proof -
  define r1 where "r1 = release_gap L ch (lit ''decision'') r"
  have 1: "steps r0 r1" unfolding r1_def using r by (rule release_gap_ok)
  define later where "later = (case set_of_ask a of Some (i, n) \<Rightarrow>
      if 0 < i \<and> \<not> \<not> question_step (settings r1) then Some (i, n) else None | None \<Rightarrow> None)"
  have range: "later = Some (i, n) \<Longrightarrow> i < n" for i n
    using set_of_ask_range by (auto simp: later_def split: option.splits if_splits)
  define s where "s = (case later of
      Some (i, n) \<Rightarrow> leave_note (Some ch) K_Question (No_First_Question i n) None r1 | None \<Rightarrow> r1)"
  have s: "steps r0 s" unfolding s_def using 1 by (auto intro: steps_note split: option.split)
  have mq: "steps r0 (on_turn L ch (mark_question b a) x)" if "steps r0 x" for b x
    using that by (intro steps_on_turn) (simp_all add: mark_question_ok)
  have aw: "steps r0 (on_turn L ch (\<lambda>c. c\<lparr>awaiting := False\<rparr>) x)" if "steps r0 x" for x
    using that by (intro steps_on_turn) simp_all
  have kept: "steps r0 (keep_question ch a (fst (the later)) r1)"
    if "case later of Some (i, n) \<Rightarrow> keeps_question ch n r1 | None \<Rightarrow> False"
    using that range keep_question_ok [OF 1] by (auto split: option.splits)
  show ?thesis
    unfolding do_ask_def Let_def case_prod_beta [of _ "the _"] r1_def [symmetric] later_def [symmetric] s_def [symmetric]
    using s kept by (auto intro!: steps_note finish_ask_ok mq aw steps_earcon split: ask_kind.split)
qed

lemma do_tool_ok [step_intros]:
  assumes r: "steps r0 r"
  shows "steps r0 (do_tool L ch name summary r)"
proof -
  have "steps r0 (on_turn L ch forget_questions r)"
    using r by (intro steps_on_turn) (simp_all add: forget_questions_def turn_ok_def)
  then show ?thesis
    by (auto simp: do_tool_def Let_def intro!: steps_note steps_speak flush_prose_ok release_gap_ok steps_on_turn)
qed

lemma catch_up_ok [step_intros]:
  assumes r: "steps r0 r"
  shows "steps r0 (snd (catch_up L ch why r))"
proof -
  define r1 where "r1 = snd (fresh_gen (snd (fresh_gen r)))"
  have 1: "steps r0 r1" "next_gen r1 = next_gen r + 2" unfolding r1_def using steps_gen [OF steps_gen [OF r]]
    by (simp_all add: fresh_gen_def)
  define r2 where "r2 = snd (drop_held L ch why r1)"
  have 2: "steps r0 r2" unfolding r2_def using 1(1) by (rule drop_held_ok)
  have n: "next_gen r + 2 \<le> next_gen r2" using next_gen_drop_held [of r1 L ch why] 1(2) by (simp add: r2_def)
  have le: "next_gen r0 \<le> next_gen r" using r by (simp add: steps_def core_def)
  define g where "g = fst (fresh_gen r)"
  define s where "s = fst (fresh_gen (snd (fresh_gen r)))"
  have gs: "g = next_gen r + 1" by (simp add: g_def fresh_gen_def)
  define r3 where "r3 = on_turn L ch (\<lambda>c. cancel g s (c\<lparr>voiced := length (prose c)\<rparr>)) r2"
  have 3: "steps r0 r3" unfolding r3_def using steps_turn_ok [OF 2] n le gs by (intro steps_cancel [OF 2]) simp_all
  show ?thesis
    unfolding catch_up_def Let_def case_prod_beta g_def [symmetric] s_def [symmetric] r1_def [symmetric]
      r2_def [symmetric] r3_def [symmetric] snd_conv
    using 3 by (auto intro!: steps_note)
qed

end
