(* ===== verification/Agent_Driver.thy ===== *)
theory Agent_Driver imports Agent_Reach begin

text \<open>
  Answers, stop and flush, timers and the question navigation stay within \<open>steps\<close>; then the calls of the
  driver (\<open>Agent\<close>) as a step relation, the reachable states and their invariant.
\<close>

section \<open>Answers, stop and flush\<close>

lemma drop_waiting_ok [step_intros]: "steps r0 r \<Longrightarrow> steps r0 (drop_waiting ch ds why r)"
  unfolding drop_waiting_def by (rule steps_fold) (rule steps_note)

lemma forget_ok: "steps r0 r \<Longrightarrow> steps r0 (on_turn L ch forget_questions r)"
  by (intro steps_on_turn) (simp_all add: forget_questions_def)

lemma answered_ok [step_intros]: "steps r0 r \<Longrightarrow> steps r0 (answered L ch r)"
  unfolding answered_def Let_def case_prod_beta
  by (intro steps_emit drop_waiting_ok catch_up_ok forget_ok) simp_all

lemma stop_channel_ok [step_intros]: "steps r0 r \<Longrightarrow> steps r0 (stop_channel L ch r)"
  unfolding stop_channel_def Let_def case_prod_beta
  by (intro drop_waiting_ok catch_up_ok steps_on_turn) simp_all

lemma stop_all_ok [step_intros]: "steps r0 r \<Longrightarrow> steps r0 (stop_all L r)"
  unfolding stop_all_def by (rule steps_fold) (rule stop_channel_ok)

lemma release_decisions_ok [step_intros]: "steps r0 r \<Longrightarrow> steps r0 (release_decisions ch ds r)"
  unfolding release_decisions_def by (rule steps_fold) (intro steps_speak steps_note)

lemma flush_reply_ok [step_intros]:
  assumes "steps r0 r"
  shows "steps r0 (flush_reply L ch r)"
proof -
  have "steps r0 (on_turn L ch (\<lambda>c. c\<lparr>skip_reply := True\<rparr>) r)" using assms by (intro steps_on_turn) simp_all
  then show ?thesis using assms
    by (auto simp: flush_reply_def Let_def case_prod_beta intro!: release_decisions_ok catch_up_ok)
qed

lemma flush_ready_ok [step_intros]:
  assumes "steps r0 r"
  shows "steps r0 (snd (flush_ready L ch queued r))"
proof -
  have 1: "steps r0 (snd (catch_up L ch (lit ''flush'') r))" using assms by (rule catch_up_ok)
  then have "steps r0 (on_turn L ch (\<lambda>c. c\<lparr>skip_reply := True\<rparr>) (snd (catch_up L ch (lit ''flush'') r)))"
    by (intro steps_on_turn) simp_all
  then show ?thesis using assms 1
    by (auto simp: flush_ready_def Let_def case_prod_beta intro!: release_decisions_ok)
qed

lemma take_new_turn_ok [step_intros]: "steps r0 r \<Longrightarrow> steps r0 (snd (take_new_turn ch r))"
  by (auto simp: take_new_turn_def intro!: steps_upd_turn split: option.split)

lemma close_agent_ok [step_intros]:
  assumes "steps r0 r"
  shows "steps r0 (close_agent ch r)"
proof -
  have c: "core_ok r" "same_gens r0 r" using assms by (simp_all add: steps_def core_def)
  have "core_ok (close_agent ch r)" using c(1) by (simp add: core_ok_def close_agent_def job_ok_def)
  moreover have "same_gens r0 (close_agent ch r)" using c(2) by (simp add: same_gens_def close_agent_def)
  ultimately show ?thesis using assms by (simp add: steps_def core_def close_agent_def buffer_ok_def)
qed

section \<open>Timers\<close>

lemma fire_settle_ok [step_intros]:
  assumes "steps r0 r"
  shows "steps r0 (fire_settle L ch g focused r)"
proof -
  have 1: "steps r0 (upd_turn ch (\<lambda>c. c\<lparr>settle_armed := False\<rparr>) r)" using assms by (intro steps_upd_turn) simp_all
  then have "steps r0 (upd_turn ch (\<lambda>c. c\<lparr>pending := []\<rparr>) (upd_turn ch (\<lambda>c. c\<lparr>settle_armed := False\<rparr>) r))"
    by (rule steps_upd_turn) simp_all
  then show ?thesis using assms 1
    by (auto simp: fire_settle_def Let_def case_prod_beta intro!: enqueue_all_ok maybe_summarize_ok split: option.split)
qed

lemma fire_hold_cap_ok [step_intros]:
  assumes "steps r0 r"
  shows "steps r0 (fire_hold_cap ch d r)"
proof -
  have "steps r0 (upd_turn ch (\<lambda>c. c\<lparr>held := None\<rparr>) r)" using assms by (intro steps_upd_turn) simp_all
  then show ?thesis using assms
    by (auto simp: fire_hold_cap_def intro!: steps_speak_decisions split: option.split)
qed

lemma fire_watchdog_ok [step_intros]:
  assumes r: "steps r0 r"
  shows "steps r0 (fire_watchdog L k r)"
proof (cases "map_of (watched r) k")
  case None
  then show ?thesis using r by (simp add: fire_watchdog_def)
next
  case (Some x)
  let ?r = "r\<lparr>watched := AList.delete k (watched r)\<rparr>"
  have b: "buffer_ok r" "core r0 r" using r by (simp_all add: steps_def)
  have k: "k \<in> slots (watched r)" using Some slots_map_of [of "watched r" k] by auto
  then have np: "k \<notin> slots (parked r)" and le: "serve_seq r \<le> k"
    using b(1) by (auto simp: buffer_ok_def)
  have "core r0 ?r" using core_buffer [OF b(2), of "serve_seq r" "parked r" "AList.delete k (watched r)"] by simp
  moreover have "insert k (slots (parked r) \<union> (slots (watched r) - {k})) = {serve_seq r..<next_seq r}"
    using b(1) k by (auto simp: buffer_ok_def)
  ultimately have "steps r0 (land L (Some k) x ?r)"
    using b(1) np le by (intro land_slot) (auto simp: buffer_ok_def distinct_delete)
  then show ?thesis using np le by (simp add: fire_watchdog_def Some slots_map_of)
qed

lemma fire_lead_in_ok [step_intros]: "steps r0 r \<Longrightarrow> steps r0 (fire_lead_in L ch g r)"
  by (auto simp: fire_lead_in_def intro!: release_lead_in_wait_ok steps_note)

lemma fire_gap_ok [step_intros]: "steps r0 r \<Longrightarrow> steps r0 (fire_gap L ch g r)"
  by (auto simp: fire_gap_def intro!: release_gap_ok)

lemma fire_ok [step_intros]: "steps r0 r \<Longrightarrow> steps r0 (fire L tm focused r)"
  by (cases tm) (simp_all add: fire_def fire_settle_ok fire_hold_cap_ok fire_watchdog_ok fire_lead_in_ok fire_gap_ok)

section \<open>The question navigation\<close>

lemma steps_upd_at:
  assumes "steps r0 r" "\<And>c. map_of (turns r) ch = Some c \<Longrightarrow> turn_ok c \<Longrightarrow> turn_ok (f c)" "\<And>c. turn_gen (f c) = turn_gen c"
  shows "steps r0 (upd_turn ch f r)"
proof (cases "map_of (turns r) ch")
  case None
  then show ?thesis using assms(1) by (simp add: upd_turn_def)
next
  case (Some c)
  then have t: "turn_of L ch r = c" for L :: "'a agent_lib" by (simp add: turn_of_def)
  have "upd_turn ch f r = on_turn (undefined :: 'a agent_lib) ch f r"
    by (simp add: upd_turn_def on_turn_def ensure_def Some t)
  then show ?thesis using assms Some by (auto intro!: steps_on_turn simp: t)
qed

lemma questions_of_ok: "steps r0 r \<Longrightarrow> questions_of ch r = Some q \<Longrightarrow> qset_ok q"
  by (auto simp: steps_def core_def core_ok_def turn_ok_def questions_of_def bind_eq_Some_conv)

lemma steps_upd_questions:
  assumes "steps r0 r" "\<And>q. questions_of ch r = Some q \<Longrightarrow> qset_ok q \<Longrightarrow> qset_ok (f q)"
  shows "steps r0 (upd_questions ch f r)"
  unfolding upd_questions_def
proof (rule steps_upd_at [OF assms(1)])
  fix c assume c: "map_of (turns r) ch = Some c" "turn_ok c"
  have "qset_ok (f q)" if "questions c = Some q" for q
    using assms(2) c that by (simp add: questions_of_def turn_ok_def)
  then show "turn_ok (c\<lparr>questions := map_option f (questions c)\<rparr>)"
    using c(2) by (intro turn_ok_questions) auto
qed simp

lemma steps_upd_read_set:
  assumes "steps r0 r" "\<And>s. read_set_of ch r = Some s \<Longrightarrow> rset_ok s \<Longrightarrow> rset_ok (f s)"
  shows "steps r0 (upd_read_set ch f r)"
  unfolding upd_read_set_def
proof (rule steps_upd_at [OF assms(1)])
  fix c assume c: "map_of (turns r) ch = Some c" "turn_ok c"
  have "rset_ok (f s)" if "read_set c = Some s" for s
    using assms(2) c that by (simp add: read_set_of_def turn_ok_def)
  then show "turn_ok (c\<lparr>read_set := map_option f (read_set c)\<rparr>)"
    using c(2) by (intro turn_ok_questions) auto
qed simp

lemma bind_question_ok [step_intros]: "steps r0 r \<Longrightarrow> steps r0 (bind_question ch e stored r)"
  unfolding bind_question_def
  by (intro steps_upd_questions steps_upd_read_set)
    (auto simp: bind_step_def bind_read_def qset_ok_def rset_ok_def split: option.split)

lemma numbered_steps:
  assumes "steps r0 r" "numbered ch k r = (x, s)"
  shows "steps r0 s"
proof -
  have "steps r0 (upd_turn ch (\<lambda>c. c\<lparr>hinted := True\<rparr>) r)" using assms(1) by (intro steps_upd_turn) simp_all
  then show ?thesis using assms by (auto simp: numbered_def Let_def split: option.splits if_splits)
qed

lemma questions_of_hinted: "questions_of ch (upd_turn ch (\<lambda>c. c\<lparr>hinted := True\<rparr>) r) = questions_of ch r"
  by (cases "map_of (turns r) ch") (simp_all add: questions_of_def turns_upd_turn)

text \<open>A question with text is in the set.\<close>

lemma numbered_Some:
  assumes "numbered ch k r = (Some t, s)"
  shows "\<exists>q body. questions_of ch r = Some q \<and> questions_of ch s = Some q \<and> k < length (bodies q) \<and>
    bodies q ! k = Some body"
proof -
  obtain c where 1: "map_of (turns r) ch = Some c"
    using assms by (cases "map_of (turns r) ch") (simp_all add: numbered_def)
  obtain q where 2: "questions c = Some q"
    using assms 1 by (cases "questions c") (simp_all add: numbered_def)
  obtain body where "Option.bind (get (bodies q) k) (\<lambda>b. b) = Some body"
    using assms 1 2 by (cases "Option.bind (get (bodies q) k) (\<lambda>b. b)") (simp_all add: numbered_def)
  note c = 1 2 this
  have q: "questions_of ch r = Some q" using c by (simp add: questions_of_def)
  have "s = r \<or> s = upd_turn ch (\<lambda>c. c\<lparr>hinted := True\<rparr>) r"
    using assms c by (auto simp: numbered_def Let_def)
  then have "questions_of ch s = Some q" using q by (auto simp: questions_of_hinted)
  moreover have "k < length (bodies q)" "bodies q ! k = Some body"
    using c(3) by (auto simp: get_def split: if_splits)
  ultimately show ?thesis using q by blast
qed

lemma land_on_ok [step_intros]:
  assumes r: "steps r0 r"
  shows "steps r0 (snd (land_on ch k edge r))"
proof -
  obtain x s where n: "numbered ch k r = (x, s)" by (cases "numbered ch k r")
  have s: "steps r0 s" using numbered_steps [OF r n] .
  show ?thesis
  proof (cases x)
    case None
    then show ?thesis using n s by (simp add: land_on_def)
  next
    case (Some t)
    obtain q body where q: "questions_of ch s = Some q" "k < length (bodies q)" "bodies q ! k = Some body"
      using numbered_Some [OF n [unfolded Some]] by blast
    have "steps r0 (upd_questions ch (\<lambda>q. q\<lparr>qs_current := k, heard := True\<rparr>) s)"
      using s by (rule steps_upd_questions) (use q in \<open>auto simp: qset_ok_def\<close>)
    then show ?thesis using n Some q(1) by (simp add: land_on_def)
  qed
qed

lemma navigate_ok [step_intros]: "steps r0 r \<Longrightarrow> steps r0 (snd (navigate ch st started r))"
  by (auto simp: navigate_def intro!: land_on_ok split: option.split step.split)

lemma questions_unheard_ok [step_intros]: "steps r0 r \<Longrightarrow> steps r0 (questions_unheard ch r)"
  unfolding questions_unheard_def by (erule steps_upd_questions) (simp add: qset_ok_def)

lemma rewind_questions_ok [step_intros]: "steps r0 r \<Longrightarrow> steps r0 (snd (rewind_questions ch r))"
  by (auto simp: rewind_questions_def intro!: land_on_ok)

lemma position_less: "position P xs = Some i \<Longrightarrow> i < length xs"
  by (simp add: position_Some)

lemma match_text_less: "match_text L texts s = Some k \<Longrightarrow> k < length texts"
  by (auto simp: match_text_def Let_def dest!: position_less split: option.splits if_splits)

lemma question_shown_ok [step_intros]:
  assumes r: "steps r0 r"
  shows "steps r0 (snd (question_shown L ch sh r))"
proof -
  have q: "steps r0 (snd (shown_step L ch sh q r))" for q
  proof -
    have "steps r0 (upd_questions ch (\<lambda>q. q\<lparr>qs_reviewed := True\<rparr>) r)"
      using r by (rule steps_upd_questions) (simp add: qset_ok_def)
    then show ?thesis using r
      by (auto simp: shown_step_def case_prod_beta intro!: land_on_ok split: shown.split option.split)
  qed
  have s: "steps r0 (snd (shown_read L ch sh s r))" if "read_set_of ch r = Some s" for s
  proof -
    have ok: "rset_ok s" using r that by (auto simp: steps_def core_def core_ok_def turn_ok_def read_set_of_def bind_eq_Some_conv)
    have k: "k \<le> rs_size s" if "match_text L (rs_texts s) t = Some k" for t k
      using match_text_less [OF that] ok by (simp add: rset_ok_def)
    have 1: "steps r0 (upd_read_set ch (\<lambda>s. s\<lparr>following := True, rs_current := rs_size s, rs_reviewed := True\<rparr>) r)"
      using r by (rule steps_upd_read_set) (simp add: rset_ok_def)
    have 2: "steps r0 (upd_read_set ch (\<lambda>s. s\<lparr>following := True\<rparr>) r)"
      using r by (rule steps_upd_read_set) (simp add: rset_ok_def)
    have 3: "steps r0 (upd_read_set ch (\<lambda>s. s\<lparr>following := True, rs_current := k\<rparr>) r)"
      if "match_text L (rs_texts s) t = Some k" for t k
      using r by (rule steps_upd_read_set) (use k [OF that] \<open>read_set_of ch r = Some s\<close> in \<open>simp add: rset_ok_def\<close>)
    show ?thesis using r 1 2 3 by (auto simp: shown_read_def split: shown.split option.split)
  qed
  show ?thesis using r q s
    by (auto simp: question_shown_def read_set_of_def split: option.split)
qed

lemma review_line_ok [step_intros]: "steps r0 r \<Longrightarrow> steps r0 (review_line ch r)"
  by (simp add: review_line_def steps_speak)

section \<open>The calls of the driver\<close>

datatype agent_call =
    Call_Stream str "str option" str nat bool "int option"
  | Call_Lead_In str "str option" str "int option"
  | Call_Late_Lead_In str "str option" str str "int option"
  | Call_Reply str "str option" str "str option" "int option"
  | Call_Turn_Start str "str option" "int option"
  | Call_Turn_End str "str option" "int option"
  | Call_Ask str ask
  | Call_Tool str str str
  | Call_Answered str
  | Call_Stop_All
  | Call_Flush str
  | Call_Flush_Ready str bool
  | Call_Take_New_Turn str
  | Call_Bind str nat bool
  | Call_Shown str shown
  | Call_Navigate str step bool
  | Call_Unheard str
  | Call_Rewind str
  | Call_Review str
  | Call_Close str
  | Call_Play earcon
  | Call_Fire timer "str option"
  | Call_Digest job "str option"
  | Call_Take_Notes

fun call_agent :: "'a agent_lib \<Rightarrow> agent_call \<Rightarrow> 'a rules \<Rightarrow> 'a rules" where
  "call_agent L (Call_Stream ch trn d i fin t) r = snd (stream L ch trn d i fin t r)"
| "call_agent L (Call_Lead_In ch trn d t) r = snd (do_lead_in L ch trn d t r)"
| "call_agent L (Call_Late_Lead_In ch trn d i t) r = snd (late_lead_in L ch trn d i t r)"
| "call_agent L (Call_Reply ch trn x b t) r = snd (do_reply L ch trn x b t r)"
| "call_agent L (Call_Turn_Start ch trn t) r = snd (turn_start L ch trn t r)"
| "call_agent L (Call_Turn_End ch trn t) r = snd (turn_end L ch trn t r)"
| "call_agent L (Call_Ask ch a) r = do_ask L ch a r"
| "call_agent L (Call_Tool ch name summary) r = do_tool L ch name summary r"
| "call_agent L (Call_Answered ch) r = answered L ch r"
| "call_agent L Call_Stop_All r = stop_all L r"
| "call_agent L (Call_Flush ch) r = flush_reply L ch r"
| "call_agent L (Call_Flush_Ready ch queued) r = snd (flush_ready L ch queued r)"
| "call_agent L (Call_Take_New_Turn ch) r = snd (take_new_turn ch r)"
| "call_agent L (Call_Bind ch e stored) r = bind_question ch e stored r"
| "call_agent L (Call_Shown ch sh) r = snd (question_shown L ch sh r)"
| "call_agent L (Call_Navigate ch st started) r = snd (navigate ch st started r)"
| "call_agent L (Call_Unheard ch) r = questions_unheard ch r"
| "call_agent L (Call_Rewind ch) r = snd (rewind_questions ch r)"
| "call_agent L (Call_Review ch) r = review_line ch r"
| "call_agent L (Call_Close ch) r = close_agent ch r"
| "call_agent L (Call_Play e) r = play e r"
| "call_agent L (Call_Fire tm focused) r = fire L tm focused r"
| "call_agent L (Call_Digest j summary) r = digest_done L j summary r"
| "call_agent L Call_Take_Notes r = snd (take_notes r)"

text \<open>A summarizer's answer belongs to a job the rules gave out.\<close>

fun answers_a_job :: "agent_call \<Rightarrow> 'a rules \<Rightarrow> bool" where
  "answers_a_job (Call_Digest j summary) r \<longleftrightarrow> Summarize j \<in> set (acts r)"
| "answers_a_job c r \<longleftrightarrow> True"

lemma agent_call_ok:
  assumes r: "steps r0 r" and j: "answers_a_job c r"
  shows "steps r0 (call_agent L c r)"
proof (cases c)
  case (Call_Digest j' summary)
  have "job_ok r j'" using r j by (simp add: Call_Digest steps_def core_def core_ok_def)
  then show ?thesis using digest_done_ok [OF r] by (simp add: Call_Digest job_ok_def)
next
  case Call_Take_Notes
  have "steps r0 (r\<lparr>noted := []\<rparr>)"
    using r by (simp add: steps_def core_def core_ok_def same_gens_def job_ok_def buffer_ok_def)
  then show ?thesis by (simp add: Call_Take_Notes take_notes_def)
qed (use r in \<open>simp_all add: step_intros do_lead_in_def late_lead_in_def play_def\<close>)

text \<open>
  The states the driver can reach: it calls the rules, sets the mute level, replaces the settings and
  tells the send mode of the engine.
\<close>

inductive agent_reach :: "'a agent_lib \<Rightarrow> 'a rules \<Rightarrow> bool" for L where
  start: "agent_reach L (new_rules s)"
| call: "agent_reach L r \<Longrightarrow> answers_a_job c r \<Longrightarrow> agent_reach L (call_agent L c r)"
| mute: "agent_reach L r \<Longrightarrow> agent_reach L (set_mute_level lvl r)"
| settings: "agent_reach L r \<Longrightarrow> agent_reach L (r\<lparr>settings := s\<rparr>)"
| send_mode: "agent_reach L r \<Longrightarrow> agent_reach L (set_whole_messages b r)"

lemma agent_ok_cong:
  assumes "agent_ok r" "turns s = turns r" "next_gen s = next_gen r" "next_seq s = next_seq r"
    "serve_seq s = serve_seq r" "parked s = parked r" "watched s = watched r"
    "\<And>j. Summarize j \<in> set (acts s) \<Longrightarrow> Summarize j \<in> set (acts r)"
  shows "agent_ok s"
proof -
  have "job_ok s j" if "Summarize j \<in> set (acts s)" for j
  proof -
    have "job_ok r j" using assms(1) assms(8) [OF that] by (simp add: agent_ok_def core_ok_def)
    then show ?thesis by (simp add: job_ok_def assms(3,4))
  qed
  then show ?thesis using assms(1) by (simp add: agent_ok_def core_ok_def buffer_ok_def assms(2-7))
qed

lemma reach_ok: "agent_reach L r \<Longrightarrow> agent_ok r"
proof (induction rule: agent_reach.induct)
  case (start s)
  show ?case by (simp add: agent_ok_def core_ok_def buffer_ok_def new_rules_def slots_def)
next
  case (call r c)
  then show ?case using steps_ok agent_call_ok [OF steps_refl] by blast
next
  case (mute r lvl)
  then show ?case
    by (elim agent_ok_cong) (auto simp: set_mute_level_def Let_def emit_def split: if_splits)
next
  case (settings r s)
  then show ?case by (elim agent_ok_cong) simp_all
next
  case (send_mode r b)
  then show ?case by (elim agent_ok_cong) (simp_all add: set_whole_messages_def)
qed

lemma reach_steps: "agent_reach L r \<Longrightarrow> answers_a_job c r \<Longrightarrow> steps r (call_agent L c r)"
  by (simp add: agent_call_ok steps_refl reach_ok)

end
