(* ===== verification/Agent_Eval.thy ===== *)
theory Agent_Eval imports Agent_Driver begin

text \<open>
  A concrete instance of the agent rules and a few states it reaches: a question asked, a lead-in
  summary on its way, a turn-end summary on its way. The calls are evaluated symbolically: what a call
  reads of the state is simplified, the state itself is not expanded.
\<close>

section \<open>A concrete instance for the witnesses\<close>

text \<open>An assembler that makes each delta one chunk, and text functions that change nothing.\<close>

definition plain_lib :: "unit agent_lib" where
  "plain_lib =
     \<lparr>asm_new = (), asm_feed = \<lambda>d i fin u. ([Text d], u), normalize = \<lambda>s. s, lower = \<lambda>s. s, alnum = \<lambda>c. True\<rparr>"

lemmas agent_defs = do_ask_def finish_ask_def release_gap_def assemble_def deliver_def on_turn_def ensure_def
  turn_of_def fresh_gen_def new_turn_def new_rules_def default_settings_def default_summaries_def emit_def
  leave_note_def play_earcon_def say_def speak_def set_of_ask_def new_ask_def mark_question_def opens_set_def
  new_question_set_def spoken_question_def ask_extras_def enqueue_or_hold_def flush_prose_def
  flush_prose_upto_def release_order_def missing_def new_order_def summaries_on_def body_of_ask_def

definition go_question :: ask where
  "go_question = new_ask Question [71, 111, 63]"

definition asked :: "unit rules" where
  "asked = do_ask plain_lib [97] go_question (new_rules default_settings)"

lemma go_texts: "question_text [71, 111, 63] [] False = [71, 111, 63]" "with_extras t [] = t"
  "trim [71, 111, 63] = [71, 111, 63]"
  by (simp_all add: question_text_def trim_def trim_start_def trim_end_def is_whitespace_def with_extras_def)

lemma asked_acts: "acts asked = [Earcon Earcon_Choice, Speak [97] [71, 111, 63] True False K_Question]"
  unfolding asked_def go_question_def by (simp add: agent_defs go_texts Let_def)

lemma asked_turn: "\<exists>c. map_of (turns asked) [97] = Some c \<and> awaiting c \<and>
    questions c = Some (new_question_set go_question 1) \<and> read_set c = None"
  unfolding asked_def go_question_def by (simp add: agent_defs go_texts Let_def)

lemma asked_reach: "agent_reach plain_lib asked"
  using agent_reach.call [OF agent_reach.start [of plain_lib default_settings], of "Call_Ask [97] go_question"]
  by (simp add: asked_def)

section \<open>Evaluating calls\<close>

lemma turn_of_upd:
  "map_of (turns r) ch = Some c \<Longrightarrow> turn_of L ch (r\<lparr>next_gen := n\<rparr>) = turn_of L ch r"
  "turn_of L ch (r\<lparr>next_decision := n\<rparr>) = turn_of L ch r" "turn_of L ch (r\<lparr>next_token := n\<rparr>) = turn_of L ch r"
  by (simp_all add: turn_of_def split: option.split)

lemma new_rules_sel:
  "turn_of plain_lib ch (new_rules s) = new_turn plain_lib 1" "acts (new_rules s) = []"
  "settings (new_rules s) = s" "next_gen (new_rules s) = 0" "map_of (turns (new_rules s)) x = None"
  "next_token (new_rules s) = 0" "whole (new_rules s) = False" "next_seq (new_rules s) = 0"
  "watched (new_rules s) = []" "parked (new_rules s) = []" "serve_seq (new_rules s) = 0"
  by (simp_all add: turn_of_def new_rules_def)

lemma new_turn_sel:
  "order (new_turn L g) = new_order" "ahead new_order = []" "lead_in (new_turn L g) = None"
  "ended (new_turn L g) = False" "skip_reply (new_turn L g) = False" "lead_in_wait (new_turn L g) = None"
  "prose (new_turn L g) = []" "voiced (new_turn L g) = 0" "settle_armed (new_turn L g) = False"
  "next_delta new_order = 0" "awaiting (new_turn L g) = False" "assembler (new_turn L g) = asm_new L"
  "hinted (new_turn L g) = False" "pending (new_turn L g) = []" "inflight (new_turn L g) = 0"
  "last_token (new_turn L g) = 0" "held_prose (new_turn L g) = []" "reply (new_turn L g) = None"
  by (simp_all add: new_turn_def new_order_def)

lemma plain_sel: "asm_new plain_lib = ()" "asm_feed plain_lib d i fin u = ([Text d], u)"
  by (simp_all add: plain_lib_def)

lemma accept_first: "accept d 0 False new_order = (([(d, 0, False)], False), new_order\<lparr>next_delta := 1, order_gen := 1\<rparr>)"
  by (simp add: accept_def new_order_def unblock_step advance_order_def next_index_def)

lemma release_nothing: "ahead d = [] \<Longrightarrow> fst (release_order d) = []" "ahead d = [] \<Longrightarrow> ahead (snd (release_order d)) = []"
  by (simp_all add: release_order_out held_deltas_def)

definition summing :: settings where
  "summing = default_settings\<lparr>summaries := default_summaries\<lparr>sum_enabled := True\<rparr>\<rparr>"

lemma summing_sel:
  "sum_enabled (summaries summing) = True" "mute_level summing = 0" "verbosity summing = Everything"
  "read_mode summing = Queue" "question_step summing = False"
  by (simp_all add: summing_def default_settings_def default_summaries_def)

lemmas eval_call = new_rules_sel new_turn_sel plain_sel accept_first release_nothing summing_sel turn_of_upd
  turns_on_turn turns_ensure turns_upd_turn next_gen_ensure fresh_gen_def play_earcon_def summaries_on_def
  note_kept_def note_texts_def

text \<open>The release of a job that went out, with what its summarizer answered.\<close>

definition release_of :: "job \<Rightarrow> str option \<Rightarrow> release" where
  "release_of j summary =
     \<lparr>rel_channel = job_channel j, rel_gen = job_gen j, rel_text = job_text j, rel_leadin = job_leadin j,
      rel_summary = summary\<rparr>"

section \<open>Prose kept for a summary\<close>

definition kept_prose :: "str \<Rightarrow> unit rules" where
  "kept_prose t = call_agent plain_lib (Call_Stream [97] None t 0 False None) (new_rules summing)"

text \<open>A channel with one chunk kept and nothing else going on.\<close>

definition keeps_one :: "str \<Rightarrow> unit turn \<Rightarrow> bool" where
  "keeps_one t c \<longleftrightarrow> prose c = [t] \<and> voiced c = 0 \<and> turn_gen c = 1 \<and> ahead (order c) = [] \<and>
     lead_in_wait c = None \<and> pending c = [] \<and> awaiting c = False \<and> held_prose c = [] \<and> reply c = None"

lemma kept_prose_sel:
  "acts (kept_prose t) = []" "settings (kept_prose t) = summing" "next_token (kept_prose t) = 0"
  "next_gen (kept_prose t) = 1" "next_seq (kept_prose t) = 0" "watched (kept_prose t) = []"
  "\<exists>c. map_of (turns (kept_prose t)) [97] = Some c \<and> keeps_one t c"
  unfolding kept_prose_def
  by (simp_all add: eval_call stream_def is_stale_def accept_delta_def assemble_def gather_def gather_delta_def keeps_one_def)

lemma kept_prose_reach: "agent_reach plain_lib (kept_prose t)"
  unfolding kept_prose_def by (intro agent_reach.call agent_reach.start) simp

section \<open>A lead-in summary on its way\<close>

definition hi :: str where "hi = [72, 105]"

definition hi_job :: job where
  "hi_job = \<lparr>job_token = 1, job_channel = [97], job_gen = 1, job_text = hi, job_leadin = True, job_seq = None\<rparr>"

lemma trim_hi: "trim hi = hi" "hi \<noteq> []"
  by (simp_all add: hi_def trim_def trim_start_def trim_end_def is_whitespace_def)

definition waits :: "unit rules" where
  "waits = call_agent plain_lib (Call_Ask [97] go_question) (kept_prose hi)"

lemma waits_sel:
  "settings waits = summing" "next_token waits = 0"
  "\<exists>c. map_of (turns waits) [97] = Some c \<and> settle_gen c = 2 \<and> settle_armed c \<and> lead_in_wait c = None \<and>
     pending c \<noteq> [] \<and> prose c = [hi] \<and> voiced c = 0 \<and> turn_gen c = 1"
proof -
  obtain c where c: "map_of (turns (kept_prose hi)) [97] = Some c" "keeps_one hi c" using kept_prose_sel by blast
  have t: "turn_of plain_lib [97] (kept_prose hi) = c" by (simp add: turn_of_def c)
  note d = do_ask_def release_gap_def t c(1) c(2) [unfolded keeps_one_def] finish_ask_def set_of_ask_def go_question_def
    new_ask_def kept_prose_sel(1-6) eval_call mark_question_def arm_settle_def ask_extras_def opens_set_def
    spoken_question_def
  show "settings waits = summing" "next_token waits = 0"
    "\<exists>c. map_of (turns waits) [97] = Some c \<and> settle_gen c = 2 \<and> settle_armed c \<and> lead_in_wait c = None \<and>
     pending c \<noteq> [] \<and> prose c = [hi] \<and> voiced c = 0 \<and> turn_gen c = 1"
    unfolding waits_def by (simp_all add: d)
qed

lemma waits_reach: "agent_reach plain_lib waits"
  unfolding waits_def by (intro agent_reach.call kept_prose_reach) simp

definition leading_in :: "unit rules" where
  "leading_in = call_agent plain_lib (Call_Fire (Settle [97] 2) None) waits"

lemma leading_in_reach: "agent_reach plain_lib leading_in"
  unfolding leading_in_def by (intro agent_reach.call waits_reach) simp

lemma leading_in_job: "Summarize hi_job \<in> set (acts leading_in)"
proof -
  obtain c where c: "map_of (turns waits) [97] = Some c" "settle_gen c = 2" "settle_armed c" "lead_in_wait c = None"
    "pending c \<noteq> []" "prose c = [hi]" "voiced c = 0" "turn_gen c = 1"
    using waits_sel(3) by blast
  define r where "r = upd_turn [97] (\<lambda>c. c\<lparr>pending := []\<rparr>) (upd_turn [97] (\<lambda>c. c\<lparr>settle_armed := False\<rparr>) waits)"
  have r: "agent_ok r" unfolding r_def
    using steps_refl [OF reach_ok [OF waits_reach]] by (intro steps_ok steps_upd_turn) simp_all
  have t: "turn_of plain_lib [97] r = c\<lparr>settle_armed := False, pending := []\<rparr>"
    by (simp add: r_def turn_of_def turns_upd_turn c)
  define b where "b = snd (maybe_summarize plain_lib [97] True None r)"
  have sel: "settings r = summing" "next_token r = 0" by (simp_all add: r_def waits_sel)
  have b: "maybe_summarize plain_lib [97] True None r = (True, b)" "Summarize hi_job \<in> set (acts b)"
    by (simp_all add: b_def maybe_summarize_def sel eval_call t c trim_hi dispatch_summary_def hi_job_def)
  have "agent_ok b" unfolding b_def by (rule steps_ok [OF maybe_summarize_ok [OF steps_refl [OF r]]])
  from enqueue_all_ok [OF steps_refl [OF this], of plain_lib "[97]" True "pending c"]
  have "Summarize hi_job \<in> set (acts (enqueue_all plain_lib [97] True (pending c) b))"
    using b(2) by (auto simp: steps_def core_def)
  then show ?thesis unfolding leading_in_def
    by (simp add: fire_def fire_settle_def c r_def [symmetric] b(1))
qed

section \<open>A turn-end summary on its way\<close>

definition long_text :: str where "long_text = replicate 300 65"

lemma trim_long: "trim long_text = long_text" "length long_text = 300" "long_text \<noteq> []"
proof -
  have d: "dropWhile is_whitespace (replicate n 65) = replicate n 65" for n
    by (cases n) (simp_all add: is_whitespace_def)
  show "trim long_text = long_text" by (simp only: long_text_def trim_def trim_start_def trim_end_def d rev_replicate)
  show "length long_text = 300" by (simp add: long_text_def)
  then show "long_text \<noteq> []" by auto
qed

definition settling :: "unit rules" where
  "settling = call_agent plain_lib (Call_Turn_End [97] None None) (kept_prose long_text)"

lemma settling_sel:
  "settings settling = summing" "next_token settling = 0" "next_seq settling = 0" "watched settling = []"
  "\<exists>c. map_of (turns settling) [97] = Some c \<and> settle_gen c = 2 \<and> settle_armed c \<and> lead_in_wait c = None \<and>
     pending c = [] \<and> prose c = [long_text] \<and> voiced c = 0 \<and> turn_gen c = 1"
proof -
  obtain c where c: "map_of (turns (kept_prose long_text)) [97] = Some c" "keeps_one long_text c"
    using kept_prose_sel by blast
  have t: "turn_of plain_lib [97] (kept_prose long_text) = c" by (simp add: turn_of_def c)
  have st: "\<not> is_stale [97] None None (kept_prose long_text)" by (simp add: is_stale_def stale_def c)
  note d = turn_end_def st release_gap_def take_reply_def flush_prose_def flush_prose_upto_def arm_settle_def t c(1)
    c(2) [unfolded keeps_one_def] kept_prose_sel(1-6) eval_call
  show "settings settling = summing" "next_token settling = 0" "next_seq settling = 0" "watched settling = []"
    "\<exists>c. map_of (turns settling) [97] = Some c \<and> settle_gen c = 2 \<and> settle_armed c \<and> lead_in_wait c = None \<and>
     pending c = [] \<and> prose c = [long_text] \<and> voiced c = 0 \<and> turn_gen c = 1"
    unfolding settling_def by (simp_all add: d)
qed

lemma settling_reach: "agent_reach plain_lib settling"
  unfolding settling_def by (intro agent_reach.call kept_prose_reach) simp

definition summarizing :: "unit rules" where
  "summarizing = call_agent plain_lib (Call_Fire (Settle [97] 2) None) settling"

lemma summarizing_reach: "agent_reach plain_lib summarizing"
  unfolding summarizing_def by (intro agent_reach.call settling_reach) simp

lemma summarizing_watched: "fst ` set (watched summarizing) = {0}" "next_seq summarizing = 1"
proof -
  obtain c where c: "map_of (turns settling) [97] = Some c" "settle_gen c = 2" "settle_armed c" "lead_in_wait c = None"
    "pending c = []" "prose c = [long_text]" "voiced c = 0" "turn_gen c = 1"
    using settling_sel(5) by blast
  define r where "r = upd_turn [97] (\<lambda>c. c\<lparr>pending := []\<rparr>) (upd_turn [97] (\<lambda>c. c\<lparr>settle_armed := False\<rparr>) settling)"
  have t: "turn_of plain_lib [97] r = c\<lparr>settle_armed := False, pending := []\<rparr>"
    by (simp add: r_def turn_of_def turns_upd_turn c)
  have sel: "settings r = summing" "next_token r = 0" "next_seq r = 0" "watched r = []"
    by (simp_all add: r_def settling_sel)
  have eq: "summarizing = snd (maybe_summarize plain_lib [97] False None r)"
    unfolding summarizing_def by (simp add: fire_def fire_settle_def c r_def [symmetric])
  show "fst ` set (watched summarizing) = {0}" "next_seq summarizing = 1"
    unfolding eq by (simp_all add: maybe_summarize_def sel eval_call t c trim_long dispatch_summary_def alloc_def SUMMARY_MIN_CHARS_def)
qed

end
