(* ===== verification/Agent_Claims.thy ===== *)
theory Agent_Claims imports Agent_Eval begin

text \<open>
  What the agent rules guarantee over any run of calls: indices in range, the reorder buffer, the mute
  level, cancelled summaries, stale messages.
\<close>

section \<open>Indices in range\<close>

text \<open>C15: Whatever the driver calls, the indices and slices of the rules stay in range: the voiced prose is a
  prefix of the prose, at most sixteen retired turns are kept, the current question of a set exists and has
  a body, and a set read in order has one text and one entry per question.\<close>

theorem agent_indices_in_range:
  assumes "agent_reach L r" "map_of (turns r) ch = Some c"
  shows "voiced c \<le> length (prose c) \<and> length (retired c) \<le> 16 \<and> order_ok (order c) \<and>
    (case questions c of
       Some q \<Rightarrow> length (bodies q) = qs_size q \<and> length (qs_texts q) = qs_size q \<and> qs_current q < qs_size q \<and>
         bodies q ! qs_current q \<noteq> None \<and> bodies q ! 0 \<noteq> None
     | None \<Rightarrow> True) \<and>
    (case read_set c of
       Some s \<Rightarrow> length (rs_texts s) = rs_size s \<and> length (rs_entries s) = rs_size s \<and> rs_current s \<le> rs_size s
     | None \<Rightarrow> True)"
proof -
  have "turn_ok c" using reach_ok [OF assms(1)] assms(2) by (simp add: agent_ok_def core_ok_def)
  then show ?thesis
    by (auto simp: turn_ok_def qset_ok_def rset_ok_def RETIRED_TURNS_def split: option.split)
qed

theorem agent_indices_in_range_witness:
  "\<exists>c q. map_of (turns asked) [97] = Some c \<and> questions c = Some q \<and> qs_current q < qs_size q \<and> voiced c \<le> length (prose c)"
proof -
  obtain c where c: "map_of (turns asked) [97] = Some c" "questions c = Some (new_question_set go_question 1)"
    using asked_turn by blast
  show ?thesis using agent_indices_in_range [OF asked_reach c(1)] c by auto
qed

section \<open>The reorder buffer\<close>

text \<open>Every slot given to a turn-end summary is accounted for until it is served: it is either parked (its
  text is there) or watched (a watchdog will give its raw text), never both, and the slot to serve next is
  never parked, so nothing that could be spoken is kept waiting.\<close>

theorem every_slot_parked_or_watched:
  assumes "agent_reach L r"
  shows "{serve_seq r..<next_seq r} = fst ` set (parked r) \<union> fst ` set (watched r) \<and>
    fst ` set (parked r) \<inter> fst ` set (watched r) = {} \<and> map_of (parked r) (serve_seq r) = None \<and>
    serve_seq r \<le> next_seq r"
  using reach_ok [OF assms] by (auto simp: agent_ok_def buffer_ok_def slots_def map_of_eq_None_iff)

theorem every_slot_parked_or_watched_witness:
  "serve_seq summarizing = 0 \<and> next_seq summarizing = 1 \<and> map_of (parked summarizing) 0 = None"
proof -
  note w = every_slot_parked_or_watched [OF summarizing_reach]
  have "0 \<in> fst ` set (watched summarizing)" by (simp only: summarizing_watched(1) singletonI)
  then have "0 \<in> {serve_seq summarizing..<next_seq summarizing}" using w by blast
  then have "serve_seq summarizing = 0" by simp
  moreover have "map_of (parked summarizing) (serve_seq summarizing) = None" using w by blast
  ultimately show ?thesis using summarizing_watched(2) by metis
qed

lemma serve_frame: "watched (serve L r) = watched r \<and> next_seq (serve L r) = next_seq r \<and> turns (serve L r) = turns r"
proof (induction L r rule: serve.induct)
  case (1 L r)
  then show ?case
    by (cases "map_of (parked r) (serve_seq r)") (simp_all add: serve_step)
qed

lemma land_frame: "next_seq (land L seq x r) = next_seq r" "slots (watched (land L (Some k) x r)) \<subseteq> slots (watched r)"
  by (auto simp: land_def serve_frame split: option.split)

text \<open>The watchdogs fired one after the other.\<close>

definition fire_watchdogs :: "'a agent_lib \<Rightarrow> nat list \<Rightarrow> 'a rules \<Rightarrow> 'a rules" where
  "fire_watchdogs L ks r = fold (\<lambda>k r. fire L (Watchdog k) None r) ks r"

lemma fire_watchdog_frame:
  "next_seq (fire L (Watchdog k) f r) = next_seq r"
  "k \<notin> slots (watched (fire L (Watchdog k) f r))"
  "slots (watched (fire L (Watchdog k) f r)) \<subseteq> slots (watched r)"
proof -
  have "next_seq (fire_watchdog L k r) = next_seq r \<and> k \<notin> slots (watched (fire_watchdog L k r)) \<and>
      slots (watched (fire_watchdog L k r)) \<subseteq> slots (watched r)"
  proof (cases "map_of (watched r) k")
    case None
    moreover from this have "k \<notin> slots (watched r)" by (simp add: slots_map_of)
    ultimately show ?thesis by (simp add: fire_watchdog_def)
  next
    case (Some x)
    let ?r = "r\<lparr>watched := AList.delete k (watched r)\<rparr>"
    have "slots (watched (land L (Some k) x ?r)) \<subseteq> slots (watched r) - {k}"
      using land_frame(2) [of L k x ?r] by simp
    then show ?thesis using land_frame(1) [of L "Some k" x ?r]
      by (auto simp: fire_watchdog_def Some Let_def)
  qed
  then show "next_seq (fire L (Watchdog k) f r) = next_seq r"
    "k \<notin> slots (watched (fire L (Watchdog k) f r))"
    "slots (watched (fire L (Watchdog k) f r)) \<subseteq> slots (watched r)"
    by (simp_all add: fire_def)
qed

lemma fire_watchdogs_frame:
  "next_seq (fire_watchdogs L ks r) = next_seq r \<and>
   slots (watched (fire_watchdogs L ks r)) \<subseteq> slots (watched r) - set ks"
proof (induction ks arbitrary: r)
  case Nil
  then show ?case by (simp add: fire_watchdogs_def)
next
  case (Cons k ks)
  have "fire_watchdogs L (k # ks) r = fire_watchdogs L ks (fire L (Watchdog k) None r)"
    by (simp add: fire_watchdogs_def)
  then show ?case using Cons [of "fire L (Watchdog k) None r"] fire_watchdog_frame [where L = L and k = k and f = None and r = r] by auto
qed

lemma fire_watchdogs_ok: "agent_ok r \<Longrightarrow> agent_ok (fire_watchdogs L ks r)"
proof -
  assume r: "agent_ok r"
  have "steps r (fire_watchdogs L ks r)" unfolding fire_watchdogs_def
    by (rule steps_fold [OF _ steps_refl [OF r]]) (rule fire_ok)
  then show ?thesis by (rule steps_ok)
qed

text \<open>C16: The watchdogs free every slot: once each watched slot's watchdog fired, all summaries were served and
  nothing is parked or watched, whatever the summarizer does.\<close>

theorem watchdogs_serve_every_slot:
  assumes "agent_reach L r"
  shows "let s = fire_watchdogs L (map fst (watched r)) r
    in serve_seq s = next_seq s \<and> parked s = [] \<and> watched s = [] \<and> next_seq s = next_seq r"
proof -
  let ?s = "fire_watchdogs L (map fst (watched r)) r"
  have ok: "buffer_ok ?s" using fire_watchdogs_ok [OF reach_ok [OF assms]] by (simp add: agent_ok_def)
  have f: "next_seq ?s = next_seq r" "slots (watched ?s) = {}"
    using fire_watchdogs_frame [of L "map fst (watched r)" r] by (auto simp: slots_def)
  have u: "slots (parked ?s) = {serve_seq ?s..<next_seq ?s}" "serve_seq ?s \<notin> slots (parked ?s)" "serve_seq ?s \<le> next_seq ?s"
    using ok f(2) by (auto simp: buffer_ok_def)
  have "serve_seq ?s = next_seq ?s"
  proof (rule ccontr)
    assume "serve_seq ?s \<noteq> next_seq ?s"
    then have "serve_seq ?s \<in> slots (parked ?s)" using u(1,3) by simp
    then show False using u(2) by simp
  qed
  moreover from this have "parked ?s = []" using u(1) by (simp add: slots_def)
  moreover have "watched ?s = []" using f(2) by (simp add: slots_def)
  ultimately show ?thesis using f(1) by (simp add: Let_def)
qed

theorem watchdogs_serve_every_slot_witness:
  "serve_seq (fire_watchdogs plain_lib (map fst (watched summarizing)) summarizing) = 1"
  using watchdogs_serve_every_slot [OF summarizing_reach] summarizing_watched(2) by (simp add: Let_def)

section \<open>Summaries in dispatch order\<close>

lemma apply_release_frame:
  "apply_release L x (r\<lparr>parked := p, watched := w, serve_seq := n\<rparr>) =
     (apply_release L x r)\<lparr>parked := p, watched := w, serve_seq := n\<rparr>"
  by (simp add: apply_release_def say_def play_earcon_def emit_def leave_note_def split: option.split)

text \<open>After the slots \<open>K\<close> landed, the first \<open>m\<close> of the releases \<open>xs\<close> were applied and the others are parked.\<close>

definition landed :: "'a agent_lib \<Rightarrow> release list \<Rightarrow> 'a rules \<Rightarrow> nat set \<Rightarrow> nat \<Rightarrow> 'a rules \<Rightarrow> bool" where
  "landed L xs r0 K m r \<longleftrightarrow> m \<le> length xs \<and>
     (\<exists>p w. r = (fold (apply_release L) (take m xs) r0)\<lparr>parked := p, watched := w, serve_seq := serve_seq r0 + m\<rparr> \<and>
        (\<forall>k x. map_of p k = Some x \<longrightarrow>
           serve_seq r0 + m \<le> k \<and> k < serve_seq r0 + length xs \<and> x = xs ! (k - serve_seq r0)) \<and>
        K = {serve_seq r0..<serve_seq r0 + m} \<union> dom (map_of p))"

lemma serve_landed:
  "landed L xs r0 K m r \<Longrightarrow> \<exists>m'. landed L xs r0 K m' (serve L r) \<and> map_of (parked (serve L r)) (serve_seq r0 + m') = None"
proof (induction L r arbitrary: m rule: serve.induct)
  case (1 L r)
  obtain p w where e: "r = (fold (apply_release L) (take m xs) r0)\<lparr>parked := p, watched := w, serve_seq := serve_seq r0 + m\<rparr>"
    and p: "\<And>k x. map_of p k = Some x \<Longrightarrow> serve_seq r0 + m \<le> k \<and> k < serve_seq r0 + length xs \<and> x = xs ! (k - serve_seq r0)"
    and K: "K = {serve_seq r0..<serve_seq r0 + m} \<union> dom (map_of p)" and m: "m \<le> length xs"
    using 1(2) unfolding landed_def by blast
  have sel: "parked r = p" "serve_seq r = serve_seq r0 + m" by (simp_all add: e)
  show ?case
  proof (cases "map_of (parked r) (serve_seq r)")
    case None
    then have "serve L r = r" by (rule serve_step(2))
    then show ?thesis using 1(2) None sel by (intro exI [of _ m]) simp
  next
    case (Some x)
    have x: "m < length xs" "x = xs ! m" using p [of "serve_seq r0 + m" x] Some sel by simp_all
    let ?r = "apply_release L x (r\<lparr>parked := AList.delete (serve_seq r) (parked r), serve_seq := serve_seq r + 1\<rparr>)"
    have "r\<lparr>parked := AList.delete (serve_seq r) (parked r), serve_seq := serve_seq r + 1\<rparr> =
        (fold (apply_release L) (take m xs) r0)\<lparr>parked := AList.delete (serve_seq r) p, watched := w,
          serve_seq := serve_seq r0 + Suc m\<rparr>"
      unfolding sel unfolding e by simp
    then have "?r = (fold (apply_release L) (take (Suc m) xs) r0)\<lparr>parked := AList.delete (serve_seq r) p, watched := w,
        serve_seq := serve_seq r0 + Suc m\<rparr>"
      using x apply_release_frame by (simp add: take_Suc_conv_app_nth)
    moreover have "\<forall>k y. map_of (AList.delete (serve_seq r) p) k = Some y \<longrightarrow>
        serve_seq r0 + Suc m \<le> k \<and> k < serve_seq r0 + length xs \<and> y = xs ! (k - serve_seq r0)"
    proof (intro allI impI)
      fix k y
      assume "map_of (AList.delete (serve_seq r) p) k = Some y"
      then have "k \<noteq> serve_seq r0 + m" "map_of p k = Some y" using sel(2) by (auto split: if_splits)
      then show "serve_seq r0 + Suc m \<le> k \<and> k < serve_seq r0 + length xs \<and> y = xs ! (k - serve_seq r0)"
        using p [of k y] by simp
    qed
    moreover have "K = {serve_seq r0..<serve_seq r0 + Suc m} \<union> dom (map_of (AList.delete (serve_seq r) p))"
      using K Some sel by (auto simp: dom_def less_Suc_eq)
    ultimately have "landed L xs r0 K (Suc m) ?r" using x(1) unfolding landed_def by (metis Suc_leI)
    from 1(1) [OF Some this] show ?thesis by (simp add: serve_step(1) [OF Some])
  qed
qed

lemma land_landed:
  assumes "landed L xs r0 K m r" "k \<notin> K" "serve_seq r0 \<le> k" "k < serve_seq r0 + length xs"
  shows "\<exists>m'. landed L xs r0 (insert k K) m' (land L (Some k) (xs ! (k - serve_seq r0)) r) \<and>
    map_of (parked (land L (Some k) (xs ! (k - serve_seq r0)) r)) (serve_seq r0 + m') = None"
proof -
  obtain p w where e: "r = (fold (apply_release L) (take m xs) r0)\<lparr>parked := p, watched := w, serve_seq := serve_seq r0 + m\<rparr>"
    and p: "\<And>k x. map_of p k = Some x \<Longrightarrow> serve_seq r0 + m \<le> k \<and> k < serve_seq r0 + length xs \<and> x = xs ! (k - serve_seq r0)"
    and K: "K = {serve_seq r0..<serve_seq r0 + m} \<union> dom (map_of p)" and m: "m \<le> length xs"
    using assms(1) unfolding landed_def by blast
  have sel: "parked r = p" "watched r = w" "serve_seq r = serve_seq r0 + m" by (simp_all add: e)
  have k: "serve_seq r0 + m \<le> k" "map_of p k = None" using assms(2,3) K by auto
  define x where "x = xs ! (k - serve_seq r0)"
  let ?r = "r\<lparr>watched := AList.delete k w, parked := AList.update k x p\<rparr>"
  have "?r = (fold (apply_release L) (take m xs) r0)\<lparr>parked := AList.update k x p, watched := AList.delete k w,
      serve_seq := serve_seq r0 + m\<rparr>" by (simp add: e)
  moreover have "\<forall>j y. map_of (AList.update k x p) j = Some y \<longrightarrow>
      serve_seq r0 + m \<le> j \<and> j < serve_seq r0 + length xs \<and> y = xs ! (j - serve_seq r0)"
    using p k(1) assms(4) by (simp add: x_def)
  moreover have "insert k K = {serve_seq r0..<serve_seq r0 + m} \<union> dom (map_of (AList.update k x p))"
    using K by (auto simp: dom_def)
  ultimately have "landed L xs r0 (insert k K) m ?r" using m unfolding landed_def by blast
  moreover have "land L (Some k) x r = serve L ?r" using k sel by (simp add: land_def)
  ultimately show ?thesis using serve_landed unfolding x_def by metis
qed

text \<open>The slots landed in some order.\<close>

definition land_all :: "'a agent_lib \<Rightarrow> (nat \<times> release) list \<Rightarrow> 'a rules \<Rightarrow> 'a rules" where
  "land_all L ys r = fold (\<lambda>(k, x) r. land L (Some k) x r) ys r"

lemma land_all_landed:
  assumes "distinct (map fst ys)" "parked r0 = []"
    "\<forall>(k, x) \<in> set ys. serve_seq r0 \<le> k \<and> k < serve_seq r0 + length xs \<and> x = xs ! (k - serve_seq r0)"
  shows "\<exists>m. landed L xs r0 (fst ` set ys) m (land_all L ys r0) \<and>
    map_of (parked (land_all L ys r0)) (serve_seq r0 + m) = None"
  using assms(1,3)
proof (induction ys rule: rev_induct)
  case Nil
  have "r0 = r0\<lparr>parked := [], watched := watched r0, serve_seq := serve_seq r0 + 0\<rparr>" using assms(2) by simp
  then have "landed L xs r0 {} 0 r0" unfolding landed_def
    by (intro conjI exI [of _ "[]"] exI [of _ "watched r0"]) simp_all
  then show ?case by (intro exI [of _ 0]) (simp add: land_all_def assms(2))
next
  case (snoc y ys)
  obtain k x where y: "y = (k, x)" by (cases y)
  obtain m where m: "landed L xs r0 (fst ` set ys) m (land_all L ys r0)" using snoc by auto
  have k: "k \<notin> fst ` set ys" "serve_seq r0 \<le> k" "k < serve_seq r0 + length xs" "x = xs ! (k - serve_seq r0)"
    using snoc.prems y by auto
  show ?case using land_landed [OF m k(1-3)] by (simp add: land_all_def y k(4) [symmetric])
qed

text \<open>C17: Whatever order the summarizer finishes the turn-end summaries in, they are heard in the order their jobs
  went out: landing the outstanding slots in any order does exactly what applying the releases in slot
  order does, and serves them all.\<close>

theorem summaries_in_dispatch_order:
  assumes "parked r = []"
    "mset ys = mset (zip [serve_seq r..<serve_seq r + length xs] xs)"
  shows "acts (land_all L ys r) = acts (fold (apply_release L) xs r) \<and>
    noted (land_all L ys r) = noted (fold (apply_release L) xs r) \<and>
    serve_seq (land_all L ys r) = serve_seq r + length xs \<and> parked (land_all L ys r) = []"
proof -
  let ?zs = "zip [serve_seq r..<serve_seq r + length xs] xs"
  have "mset (map fst ys) = mset (map fst ?zs)" using assms(2) by (metis mset_map)
  then have "mset (map fst ys) = mset [serve_seq r..<serve_seq r + length xs]" by simp
  then have d: "distinct (map fst ys)" "fst ` set ys = {serve_seq r..<serve_seq r + length xs}"
    by (metis distinct_upt mset_eq_imp_distinct_iff, metis atLeastLessThan_upt set_map set_mset_mset)
  have "set ys = set ?zs" using assms(2) by (metis set_mset_mset)
  then have "\<forall>(k, x) \<in> set ys. serve_seq r \<le> k \<and> k < serve_seq r + length xs \<and> x = xs ! (k - serve_seq r)"
    by (auto simp: in_set_zip)
  then obtain m where m: "landed L xs r (fst ` set ys) m (land_all L ys r)"
    "map_of (parked (land_all L ys r)) (serve_seq r + m) = None"
    using land_all_landed [OF d(1) assms(1)] by blast
  obtain p w where e: "land_all L ys r =
      (fold (apply_release L) (take m xs) r)\<lparr>parked := p, watched := w, serve_seq := serve_seq r + m\<rparr>"
    and p: "\<And>k x. map_of p k = Some x \<Longrightarrow> serve_seq r + m \<le> k \<and> k < serve_seq r + length xs"
    and K: "fst ` set ys = {serve_seq r..<serve_seq r + m} \<union> dom (map_of p)" and ml: "m \<le> length xs"
    using m(1) unfolding landed_def by blast
  have mp: "map_of p (serve_seq r + m) = None" using m(2) by (simp add: e)
  have "m = length xs"
  proof (rule ccontr)
    assume "m \<noteq> length xs"
    then have "serve_seq r + m \<in> fst ` set ys" using d(2) ml by simp
    then show False using K mp by (auto simp: dom_def)
  qed
  moreover from this have "p = []" using p by (cases p) fastforce+
  ultimately show ?thesis by (simp add: e)
qed

text \<open>Two summaries of a channel without state, the second one landing first.\<close>

theorem summaries_in_dispatch_order_witness:
  "let x = release_of hi_job None; y = release_of hi_job (Some hi); r = new_rules default_settings
   in acts (land_all plain_lib [(1, y), (0, x)] r) = acts (apply_release plain_lib y (apply_release plain_lib x r)) \<and>
      serve_seq (land_all plain_lib [(1, y), (0, x)] r) = 2"
  using summaries_in_dispatch_order [of "new_rules default_settings"
      "[(1, release_of hi_job (Some hi)), (0, release_of hi_job None)]"
      "[release_of hi_job None, release_of hi_job (Some hi)]" plain_lib]
  by (simp add: new_rules_def upt_conv_Cons)

end
