(* ===== verification/Agent_Safety.thy ===== *)
theory Agent_Safety imports Agent_Claims begin

text \<open>
  The mute level, cancelled summaries and stale messages of the agent rules.
\<close>

section \<open>The mute level\<close>

text \<open>C18: At mute level 1 and above no call speaks or runs the summarizer, at level 2 none plays an earcon either, and
  unmuted none stores a text instead of speaking it. No call takes back what was emitted before it.\<close>

theorem mute_level_is_respected:
  assumes "agent_reach L r" "answers_a_job c r"
  shows "\<exists>new. acts (call_agent L c r) = acts r @ new \<and>
    (\<forall>a \<in> set new. case a of
       Speak ch t d rl k \<Rightarrow> mute_level (settings r) = 0
     | Store ch t d k \<Rightarrow> 0 < mute_level (settings r)
     | Earcon e \<Rightarrow> mute_level (settings r) < 2
     | Summarize j \<Rightarrow> mute_level (settings r) = 0
     | _ \<Rightarrow> True)"
proof -
  obtain new where new: "acts (call_agent L c r) = acts r @ new" "\<forall>a \<in> set new. allowed (mute_level (settings r)) a"
    using reach_steps [OF assms] by (auto simp: steps_def core_def)
  have "(case a of Speak ch t d rl k \<Rightarrow> mute_level (settings r) = 0 | Store ch t d k \<Rightarrow> 0 < mute_level (settings r)
     | Earcon e \<Rightarrow> mute_level (settings r) < 2 | Summarize j \<Rightarrow> mute_level (settings r) = 0 | _ \<Rightarrow> True)"
    if "allowed (mute_level (settings r)) a" for a
    using that by (cases a) simp_all
  then show ?thesis using new by blast
qed

text \<open>A question while the agent is muted at level 2 is only stored.\<close>

theorem mute_level_is_respected_witness:
  "\<exists>new. acts (call_agent plain_lib (Call_Ask [97] go_question) (set_mute_level 2 (new_rules default_settings))) =
     acts (set_mute_level 2 (new_rules default_settings) :: unit rules) @ new \<and> (\<forall>e. Earcon e \<notin> set new)"
proof -
  let ?r = "set_mute_level 2 (new_rules default_settings) :: unit rules"
  have lvl: "mute_level (settings ?r) = 2"
    by (simp add: set_mute_level_def new_rules_def default_settings_def MUTE_LEVEL_MAX_def emit_def)
  have "agent_reach plain_lib ?r" by (intro agent_reach.mute agent_reach.start)
  from mute_level_is_respected [OF this, of "Call_Ask [97] go_question"] obtain new where
    "acts (call_agent plain_lib (Call_Ask [97] go_question) ?r) = acts ?r @ new"
    "\<forall>a \<in> set new. case a of Speak ch t d rl k \<Rightarrow> mute_level (settings ?r) = 0
     | Store ch t d k \<Rightarrow> 0 < mute_level (settings ?r) | Earcon e \<Rightarrow> mute_level (settings ?r) < 2
     | Summarize j \<Rightarrow> mute_level (settings ?r) = 0 | _ \<Rightarrow> True"
    by auto
  then show ?thesis using lvl by (intro exI [of _ new]) force
qed

section \<open>Cancelled summaries\<close>

inductive agent_runs :: "'a agent_lib \<Rightarrow> 'a rules \<Rightarrow> 'a rules \<Rightarrow> bool" for L r0 where
  here: "agent_runs L r0 r0"
| call: "agent_runs L r0 r \<Longrightarrow> answers_a_job c r \<Longrightarrow> agent_runs L r0 (call_agent L c r)"
| mute: "agent_runs L r0 r \<Longrightarrow> agent_runs L r0 (set_mute_level lvl r)"
| settings: "agent_runs L r0 r \<Longrightarrow> agent_runs L r0 (r\<lparr>settings := s\<rparr>)"
| send_mode: "agent_runs L r0 r \<Longrightarrow> agent_runs L r0 (set_whole_messages b r)"

lemma agent_runs_reach: "agent_runs L r0 r \<Longrightarrow> agent_reach L r0 \<Longrightarrow> agent_reach L r"
  by (induction rule: agent_runs.induct) (auto intro: agent_reach.intros)

text \<open>The channel's generation, when it has one, is later than \<open>g\<close>.\<close>

definition later :: "str \<Rightarrow> nat \<Rightarrow> 'a rules \<Rightarrow> bool" where
  "later ch g r \<longleftrightarrow> g \<le> next_gen r \<and> (\<forall>c. map_of (turns r) ch = Some c \<longrightarrow> g < turn_gen c)"

lemma later_steps: "steps r0 r \<Longrightarrow> later ch g r0 \<Longrightarrow> later ch g r"
proof -
  assume r: "steps r0 r" and l: "later ch g r0"
  have le: "next_gen r0 \<le> next_gen r" and s: "same_gens r0 r" using r by (simp_all add: steps_def core_def)
  have "g < turn_gen c" if "map_of (turns r) ch = Some c" for c
  proof (cases "next_gen r0 < turn_gen c")
    case True
    then show ?thesis using l by (simp add: later_def)
  next
    case False
    then have "map_option turn_gen (map_of (turns r0) ch) = Some (turn_gen c)"
      using s that unfolding same_gens_def by blast
    then obtain d where "map_of (turns r0) ch = Some d" "turn_gen d = turn_gen c" by auto
    then show ?thesis using l by (auto simp: later_def)
  qed
  then show "later ch g r" using l le by (simp add: later_def)
qed

lemma later_cong: "turns s = turns r \<Longrightarrow> next_gen s = next_gen r \<Longrightarrow> later ch g s = later ch g r"
  by (simp add: later_def)

lemma later_runs: "agent_runs L r0 r \<Longrightarrow> agent_reach L r0 \<Longrightarrow> later ch g r0 \<Longrightarrow> later ch g r"
proof (induction rule: agent_runs.induct)
  case here
  then show ?case by simp
next
  case (call r c)
  have "agent_reach L r" using call.hyps(1) call.prems(1) by (rule agent_runs_reach)
  then have "steps r (call_agent L c r)" using call.hyps(2) by (rule reach_steps)
  then show ?case using call.IH [OF call.prems] by (rule later_steps)
next
  case (mute r lvl)
  have "later ch g (set_mute_level lvl r) = later ch g r"
    by (rule later_cong) (simp_all add: set_mute_level_def Let_def)
  then show ?case using mute.IH [OF mute.prems] by blast
next
  case (settings r s)
  have "later ch g (r\<lparr>settings := s\<rparr>) = later ch g r" by (rule later_cong) simp_all
  then show ?case using settings.IH [OF settings.prems] by blast
next
  case (send_mode r b)
  have "later ch g (set_whole_messages b r) = later ch g r"
    by (rule later_cong) (simp_all add: set_whole_messages_def)
  then show ?case using send_mode.IH [OF send_mode.prems] by blast
qed

lemma catch_up_gen:
  assumes "map_of (turns (snd (catch_up L ch why r))) ch = Some c"
  shows "turn_gen c = next_gen r + 1"
proof -
  define g where "g = fst (fresh_gen r)"
  define s where "s = fst (fresh_gen (snd (fresh_gen r)))"
  define r2 where "r2 = snd (drop_held L ch why (snd (fresh_gen (snd (fresh_gen r)))))"
  define r3 where "r3 = on_turn L ch (\<lambda>c. cancel g s (c\<lparr>voiced := length (prose c)\<rparr>)) r2"
  have "turns (snd (catch_up L ch why r)) = turns r3"
    unfolding catch_up_def Let_def case_prod_beta g_def [symmetric] s_def [symmetric]
      r2_def [symmetric] r3_def [symmetric] snd_conv by simp
  then have "c = cancel g s ((turn_of L ch r2)\<lparr>voiced := length (prose (turn_of L ch r2))\<rparr>)"
    using assms by (simp add: r3_def turns_on_turn)
  then show ?thesis by (simp add: cancel_ok g_def fresh_gen_def)
qed

lemma steps_next_gen: "steps r0 r \<Longrightarrow> next_gen r0 \<le> next_gen r"
  by (simp add: steps_def core_def)

lemma catch_up_later:
  assumes "agent_ok r"
  shows "later ch (next_gen r) (snd (catch_up L ch why r))"
  using catch_up_gen steps_next_gen [OF catch_up_ok [OF steps_refl [OF assms]]] unfolding later_def by force

lemma turns_folded_notes: "turns (drop_waiting ch ds why r) = turns r \<and> next_gen (drop_waiting ch ds why r) = next_gen r"
  unfolding drop_waiting_def by (induction ds arbitrary: r) simp_all

lemma later_mono: "later ch g r \<Longrightarrow> h \<le> g \<Longrightarrow> later ch h r"
  by (auto simp: later_def)

text \<open>The calls that cancel a channel's summary work.\<close>

fun cancelling :: "agent_call \<Rightarrow> str \<Rightarrow> 'a rules \<Rightarrow> bool" where
  "cancelling (Call_Turn_Start ch trn t) x r \<longleftrightarrow> ch = x \<and> \<not> is_stale ch trn t r"
| "cancelling (Call_Answered ch) x r \<longleftrightarrow> ch = x"
| "cancelling (Call_Flush ch) x r \<longleftrightarrow> ch = x"
| "cancelling (Call_Close ch) x r \<longleftrightarrow> ch = x"
| "cancelling Call_Stop_All x r \<longleftrightarrow> True"
| "cancelling c x r \<longleftrightarrow> False"

lemma stop_channel_later:
  assumes "agent_ok r"
  shows "later ch (next_gen r) (stop_channel L ch r)"
proof -
  let ?r = "on_turn L ch (\<lambda>c. c\<lparr>awaiting := False\<rparr>) r"
  have 1: "steps r ?r" using steps_refl [OF assms] by (intro steps_on_turn) simp_all
  have "later ch (next_gen r) (snd (catch_up L ch (lit ''stop'') ?r))"
    using catch_up_later [OF steps_ok [OF 1]] steps_next_gen [OF 1] later_mono by blast
  then show ?thesis unfolding stop_channel_def Let_def case_prod_beta
    by (simp add: later_def turns_folded_notes)
qed

lemma stop_all_later:
  assumes "agent_ok r"
  shows "later ch (next_gen r) (stop_all L r)"
proof (cases "ch \<in> set (agent_channels r)")
  case True
  have "later ch (next_gen r) (fold (stop_channel L) chs s)" if "ch \<in> set chs" "steps r s" for chs s
    using that
  proof (induction chs arbitrary: s)
    case Nil
    then show ?case by simp
  next
    case (Cons x chs)
    have x: "steps r (stop_channel L x s)" using Cons.prems(2) by (rule stop_channel_ok)
    show ?case
    proof (cases "ch \<in> set chs")
      case True
      then show ?thesis using Cons.IH [OF _ x] by simp
    next
      case False
      then have "later ch (next_gen r) (stop_channel L x s)"
        using Cons.prems stop_channel_later [OF steps_ok [OF Cons.prems(2)], of ch L]
          later_mono steps_next_gen [OF Cons.prems(2)] by fastforce
      moreover have "steps (stop_channel L x s) (fold (stop_channel L) chs (stop_channel L x s))"
        by (rule steps_fold [OF stop_channel_ok steps_refl [OF steps_ok [OF x]]])
      ultimately show ?thesis using later_steps by simp blast
    qed
  qed
  then show ?thesis unfolding stop_all_def using True steps_refl [OF assms] by blast
next
  case False
  then have "later ch (next_gen r) r"
    by (auto simp: later_def agent_channels_def map_of_eq_None_iff [symmetric])
  then show ?thesis using later_steps [OF stop_all_ok [OF steps_refl [OF assms]]] by blast
qed

lemma turn_start_later:
  assumes "agent_ok r" "\<not> is_stale ch trn t r"
  shows "later ch (next_gen r) (snd (turn_start L ch trn t r))"
proof -
  have "turn_gen c = next_gen r + 1" if "map_of (turns (snd (turn_start L ch trn t r))) ch = Some c" for c
    using that assms(2) unfolding turn_start_def Let_def case_prod_beta
    by (auto simp: turns_on_turn cancel_ok fresh_gen_def)
  then show ?thesis
    using steps_next_gen [OF turn_start_ok [OF steps_refl [OF assms(1)]]] unfolding later_def by force
qed

lemma cancelling_later:
  assumes "agent_ok r" "cancelling c ch r"
  shows "later ch (next_gen r) (call_agent L c r)"
proof (cases c)
  case (Call_Turn_Start x trn t)
  then show ?thesis using assms turn_start_later by auto
next
  case (Call_Answered x)
  let ?r = "on_turn L ch forget_questions r"
  have 1: "steps r ?r" using steps_refl [OF assms(1)] by (rule forget_ok)
  have "later ch (next_gen r) (snd (catch_up L ch (lit ''answered'') ?r))"
    using catch_up_later [OF steps_ok [OF 1]] steps_next_gen [OF 1] later_mono by blast
  then show ?thesis using assms(2) Call_Answered unfolding later_def
    by (auto simp: answered_def Let_def case_prod_beta turns_folded_notes)
next
  case (Call_Flush x)
  have x: "x = ch" using assms(2) Call_Flush by simp
  show ?thesis
  proof (cases "tracks ch r")
    case True
    let ?r = "on_turn L ch (\<lambda>c. c\<lparr>skip_reply := True\<rparr>) r"
    have 1: "steps r ?r" using steps_refl [OF assms(1)] by (intro steps_on_turn) simp_all
    have l: "later ch (next_gen r) (snd (catch_up L ch (lit ''flush'') ?r))"
      using catch_up_later [OF steps_ok [OF 1]] steps_next_gen [OF 1] later_mono by blast
    have "steps (snd (catch_up L ch (lit ''flush'') ?r)) (release_decisions ch ds (snd (catch_up L ch (lit ''flush'') ?r)))" for ds
      by (rule release_decisions_ok [OF steps_refl [OF steps_ok [OF catch_up_ok [OF 1]]]])
    from later_steps [OF this l] show ?thesis
      by (simp add: Call_Flush x flush_reply_def True Let_def case_prod_beta)
  next
    case False
    then show ?thesis by (simp add: Call_Flush x flush_reply_def tracks_def later_def)
  qed
next
  case (Call_Close x)
  then show ?thesis using assms(2) by (simp add: close_agent_def later_def)
next
  case Call_Stop_All
  then show ?thesis using stop_all_later [OF assms(1)] by simp
qed (use assms in simp_all)

text \<open>C19: A summary whose session moved on is never heard: once a new turn, an answer, a flush, a stop or the close of
  its channel came after its job went out, its release leaves a note and nothing else, however many calls
  later it lands, with or without a summary, also when the channel was closed and opened again.\<close>

theorem cancelled_summary_stays_silent:
  assumes "agent_reach L r" "Summarize j \<in> set (acts r)" "cancelling c (job_channel j) r"
    "agent_runs L (call_agent L c r) s"
  shows "apply_release L (release_of j summary) s =
    leave_note (Some (job_channel j)) K_Summary Moved_On
      (Some (case summary of Some x \<Rightarrow> x | None \<Rightarrow> job_text j)) s"
proof -
  have ok: "agent_ok r" using reach_ok [OF assms(1)] .
  have j: "job_gen j \<le> next_gen r" using ok assms(2) by (simp add: agent_ok_def core_ok_def job_ok_def)
  have "answers_a_job c r" using assms(3) by (cases c) simp_all
  then have "agent_reach L (call_agent L c r)" using assms(1) by (intro agent_reach.call)
  then have "later (job_channel j) (next_gen r) s"
    using later_runs [OF assms(4)] cancelling_later [OF ok assms(3)] by blast
  then have "map_option turn_gen (map_of (turns s) (job_channel j)) \<noteq> Some (job_gen j)"
    using j by (auto simp: later_def)
  then show ?thesis by (simp add: apply_release_def release_of_def split: option.split)
qed

text \<open>A lead-in summary that lands after a new turn.\<close>

theorem cancelled_summary_stays_silent_witness:
  "acts (apply_release plain_lib (release_of hi_job (Some hi))
     (call_agent plain_lib (Call_Answered [97]) leading_in)) =
   acts (call_agent plain_lib (Call_Answered [97]) leading_in)"
proof -
  have "cancelling (Call_Answered [97]) (job_channel hi_job) leading_in" by (simp add: hi_job_def)
  from cancelled_summary_stays_silent [OF leading_in_reach leading_in_job this agent_runs.here, of "Some hi"]
  show ?thesis by (simp only: leave_note_sel)
qed

section \<open>Stale messages\<close>

lemma is_stale_on_turn: "is_stale ch trn t (on_turn L ch f r) = stale trn t (f (turn_of L ch r))"
  by (simp add: is_stale_def turns_on_turn)

lemma stale_turn_of: "stale trn t (turn_of L ch r) = is_stale ch trn t r"
  by (auto simp: is_stale_def turn_of_def stale_def new_turn_def split: option.split)

lemma is_stale_notes [simp]: "is_stale ch trn t (leave_note a b c d r) = is_stale ch trn t r"
  by (simp add: is_stale_def)

lemma stale_upd [simp]:
  "stale trn t (c\<lparr>skip_reply := b\<rparr>) = stale trn t c" "stale trn t (c\<lparr>held_prose := x\<rparr>) = stale trn t c"
  "stale trn t (c\<lparr>order := y\<rparr>) = stale trn t c"
  by (simp_all add: stale_def split: option.split)

lemma is_stale_drop_held: "is_stale ch trn t (snd (drop_held L ch why r)) = is_stale ch trn t r"
  by (simp add: drop_held_def Let_def is_stale_on_turn stale_turn_of)

lemma fst_stream: "fst (stream L ch trn d i fin t r) = (if is_stale ch trn t r then Inl Stale else Inr ())"
  by (simp add: stream_def Let_def)

lemma stream_error: "is_stale ch trn t r \<Longrightarrow> snd (stream L ch trn d i fin t r) = r"
  by (simp add: stream_def)

lemma take_lead_in_error:
  "take_lead_in L ch trn d i t r = (Inl Stale, r) \<or> \<not> is_stale ch trn t r"
  "\<not> is_stale ch trn t r \<Longrightarrow> fst (take_lead_in L ch trn d i t r) = Inr ()"
proof -
  show "take_lead_in L ch trn d i t r = (Inl Stale, r) \<or> \<not> is_stale ch trn t r"
    by (simp add: take_lead_in_def)
  assume ns: "\<not> is_stale ch trn t r"
  define s where "s = (if read_mode (settings r) = Final
      then snd (drop_held L ch (lit ''text before the question'') r) else r)"
  have "is_stale ch trn t (on_turn L ch (\<lambda>c. c\<lparr>skip_reply := False\<rparr>) s) = is_stale ch trn t s"
    by (simp add: is_stale_on_turn stale_turn_of)
  then have "\<not> is_stale ch trn t (on_turn L ch (\<lambda>c. c\<lparr>skip_reply := False\<rparr>) s)"
    using ns by (simp add: s_def is_stale_drop_held)
  then have f: "fst (stream L ch trn d 0 True t (on_turn L ch (\<lambda>c. c\<lparr>skip_reply := False\<rparr>) s)) = Inr ()"
    by (simp add: fst_stream)
  show "fst (take_lead_in L ch trn d i t r) = Inr ()"
    unfolding take_lead_in_def Let_def case_prod_beta s_def [symmetric] using ns f by simp
qed

text \<open>C20: A message is refused as stale exactly when it is stamped earlier than the channel's last turn start or names a
  retired turn; then nothing changes and nothing is emitted. Every other message is taken: no other error
  exists, also not half-way through a lead-in.\<close>

theorem stale_messages_change_nothing:
  "(is_stale ch trn t r \<longleftrightarrow>
      (\<exists>c. map_of (turns r) ch = Some c \<and>
        ((\<exists>s start. t = Some s \<and> turn_t c = Some start \<and> s < start) \<or> (\<exists>n. trn = Some n \<and> n \<in> set (retired c))))) \<and>
   (\<forall>out \<in> {stream L ch trn d i fin t r, do_lead_in L ch trn d t r, late_lead_in L ch trn d x t r,
       do_reply L ch trn d b t r, turn_start L ch trn t r, turn_end L ch trn t r}.
     if is_stale ch trn t r then out = (Inl Stale, r) else fst out = Inr ())"
proof -
  have 1: "is_stale ch trn t r \<longleftrightarrow>
      (\<exists>c. map_of (turns r) ch = Some c \<and>
        ((\<exists>s start. t = Some s \<and> turn_t c = Some start \<and> s < start) \<or> (\<exists>n. trn = Some n \<and> n \<in> set (retired c))))"
    by (auto simp: is_stale_def stale_def split: option.splits)
  have 2: "if is_stale ch trn t r then stream L ch trn d i fin t r = (Inl Stale, r)
      else fst (stream L ch trn d i fin t r) = Inr ()"
  proof (cases "is_stale ch trn t r")
    case True
    then show ?thesis by (simp add: stream_def)
  next
    case False
    then show ?thesis by (simp add: fst_stream)
  qed
  have 3: "if is_stale ch trn t r then take_lead_in L ch trn d y t r = (Inl Stale, r)
      else fst (take_lead_in L ch trn d y t r) = Inr ()" for y
    using take_lead_in_error by metis
  have 4: "if is_stale ch trn t r then do_reply L ch trn d b t r = (Inl Stale, r) else fst (do_reply L ch trn d b t r) = Inr ()"
    by (simp add: do_reply_def Let_def)
  have 5: "if is_stale ch trn t r then turn_start L ch trn t r = (Inl Stale, r) else fst (turn_start L ch trn t r) = Inr ()"
    by (simp add: turn_start_def Let_def case_prod_beta)
  have 6: "if is_stale ch trn t r then turn_end L ch trn t r = (Inl Stale, r) else fst (turn_end L ch trn t r) = Inr ()"
    by (simp add: turn_end_def Let_def)
  show ?thesis using 1 2 3 4 5 6 by (simp add: do_lead_in_def late_lead_in_def)
qed

lemma turns_drop_held:
  "map_of (turns (snd (drop_held L ch why r))) ch =
     Some ((turn_of L ch r)\<lparr>held_prose := [], order := snd (release_order (order (turn_of L ch r)))\<rparr>)"
  by (simp add: drop_held_def Let_def turns_on_turn)

lemma turn_of_drop_held:
  "turn_of L ch (snd (drop_held L ch why r)) =
     (turn_of L ch r)\<lparr>held_prose := [], order := snd (release_order (order (turn_of L ch r)))\<rparr>"
  by (simp add: turn_of_def [of L ch "snd (drop_held L ch why r)"] turns_drop_held)

text \<open>The state of a channel whose turn started.\<close>

lemma turn_start_turn:
  assumes "\<not> is_stale ch trn t r" "map_of (turns r) ch = Some c"
  shows "\<exists>d. map_of (turns (snd (turn_start L ch trn t r))) ch = Some d \<and>
    turn_t d = (if t \<noteq> None then t else turn_t c) \<and> retired d = retired (retire trn c) \<and> current d = trn"
proof -
  define r1 where "r1 = snd (fresh_gen (snd (fresh_gen r)))"
  have c: "turn_of L ch r1 = c" using assms(2) by (simp add: r1_def fresh_gen_def turn_of_def)
  define f where "f = (\<lambda>c :: 'a turn. (retire trn (c\<lparr>assembler := asm_new L, turn_t := (if t \<noteq> None then t else turn_t c)\<rparr>))
      \<lparr>current := trn, awaiting := False, questions := None, read_set := None, lead_in := None,
       reply := None, replied := None\<rparr>)"
  define r3 where "r3 = snd (drop_held L ch (lit ''turn_start'') (on_turn L ch f r1))"
  have 3: "turn_of L ch r3 = (f c)\<lparr>held_prose := [], order := snd (release_order (order (f c)))\<rparr>"
    by (simp add: r3_def turn_of_drop_held c)
  have f: "turn_t (f c) = (if t \<noteq> None then t else turn_t c)" "retired (f c) = retired (retire trn c)" "current (f c) = trn"
    by (auto simp: f_def retire_def Let_def split: option.split)
  have "snd (turn_start L ch trn t r) = emit (Wipe ch True) (on_turn L ch
      (\<lambda>c. cancel (fst (fresh_gen r)) (fst (fresh_gen (snd (fresh_gen r))))
        (c\<lparr>released := False, ended := False, skip_reply := False, new_para := False, last_index := None,
           order := (order c)\<lparr>next_delta := 0, skipped := {}\<rparr>, prose := [], voiced := 0\<rparr>)) r3)"
    unfolding turn_start_def Let_def case_prod_beta r1_def [symmetric] f_def [symmetric] r3_def [symmetric]
    by (simp only: assms(1) if_False snd_conv)
  then show ?thesis by (simp add: turns_on_turn 3 cancel_def f)
qed

text \<open>After a new turn started, a late message that names the turn before it is stale, whatever it is stamped
  with, and so is one stamped earlier than the start; a message of the new turn is not.\<close>

theorem late_text_of_the_last_turn:
  assumes "map_of (turns r) ch = Some c" "current c = Some old" "old \<noteq> new"
    "turn_start L ch (Some new) t r = (Inr (), s)"
  shows "is_stale ch (Some old) x s \<and> (\<forall>start. t = Some start \<and> y < start \<longrightarrow> is_stale ch trn (Some y) s) \<and>
    (new \<notin> set (retired c) \<longrightarrow> \<not> is_stale ch (Some new) t s)"
proof -
  have ns: "\<not> is_stale ch (Some new) t r" using assms(4) by (auto simp: turn_start_def)
  obtain d where d: "map_of (turns s) ch = Some d" "turn_t d = (if t \<noteq> None then t else turn_t c)"
    "retired d = retired (retire (Some new) c)"
    using turn_start_turn [OF ns assms(1), of L] assms(4) by auto
  have r: "retired d = (let q = retired c @ [old] in if RETIRED_TURNS < length q then tl q else q)"
    using assms(2,3) d(3) by (auto simp: retire_def Let_def)
  have "old \<in> set (retired d)"
    using r by (cases "retired c") (simp_all add: Let_def RETIRED_TURNS_def)
  moreover have "set (retired d) \<subseteq> insert old (set (retired c))"
    using r by (cases "retired c") (auto simp: Let_def)
  ultimately show ?thesis using d(1,2) assms(3)
    by (auto simp: is_stale_def stale_def split: option.splits if_splits)
qed

text \<open>Two turns of a channel: the text of the first is stale in the second.\<close>

theorem late_text_of_the_last_turn_witness:
  "is_stale [97] (Some [49]) None
     (call_agent plain_lib (Call_Turn_Start [97] (Some [50]) None)
       (call_agent plain_lib (Call_Turn_Start [97] (Some [49]) None) asked))"
proof -
  let ?r = "call_agent plain_lib (Call_Turn_Start [97] (Some [49]) None) asked"
  obtain a where a: "map_of (turns asked) [97] = Some a" using asked_turn by blast
  have "retired a = []"
    using a unfolding asked_def go_question_def by (auto simp: agent_defs go_texts Let_def)
  then have "\<not> is_stale [97] (Some [49]) None asked" by (simp add: is_stale_def stale_def a)
  from turn_start_turn [OF this a, of plain_lib] obtain c where
    c: "map_of (turns ?r) [97] = Some c" "current c = Some [49]" "retired c = retired (retire (Some [49]) a)" by auto
  have "set (retired c) \<subseteq> set (case current a of Some x \<Rightarrow> [x] | None \<Rightarrow> [])"
    using c(3) \<open>retired a = []\<close> by (auto simp: retire_def Let_def RETIRED_TURNS_def split: option.splits)
  moreover have "current a = None"
    using a unfolding asked_def go_question_def by (auto simp: agent_defs go_texts Let_def)
  ultimately have "\<not> is_stale [97] (Some [50]) None ?r" by (simp add: is_stale_def stale_def c(1) [simplified])
  then have "turn_start plain_lib [97] (Some [50]) None ?r =
      (Inr (), snd (turn_start plain_lib [97] (Some [50]) None ?r))"
    by (simp add: turn_start_def Let_def case_prod_beta)
  from late_text_of_the_last_turn [OF c(1,2) _ this] show ?thesis by simp
qed

text \<open>A turn that started at 5 gets the end of one that was stamped at 3, and the end of its own.\<close>

theorem stale_messages_change_nothing_witness:
  "let r = call_agent plain_lib (Call_Turn_Start [97] None (Some 5)) asked
   in turn_end plain_lib [97] None (Some 3) r = (Inl Stale, r) \<and> fst (turn_end plain_lib [97] None (Some 5) r) = Inr ()"
proof -
  let ?r = "call_agent plain_lib (Call_Turn_Start [97] None (Some 5)) asked"
  obtain a where a: "map_of (turns asked) [97] = Some a" using asked_turn by blast
  have "turn_t a = None" "retired a = []"
    using a unfolding asked_def go_question_def by (auto simp: agent_defs go_texts Let_def)
  then have "\<not> is_stale [97] None (Some 5) asked" by (simp add: is_stale_def stale_def a)
  from turn_start_turn [OF this a, of plain_lib] obtain c where
    c: "map_of (turns ?r) [97] = Some c" "turn_t c = Some 5" by auto
  have s: "is_stale [97] None (Some 3) ?r" "\<not> is_stale [97] None (Some 5) ?r"
    using c by (simp_all add: is_stale_def stale_def)
  have "if is_stale [97] None t ?r then turn_end plain_lib [97] None t ?r = (Inl Stale, ?r)
      else fst (turn_end plain_lib [97] None t ?r) = Inr ()" for t
    using conjunct2 [OF stale_messages_change_nothing [of "[97]" None t ?r plain_lib]]
    by (rule bspec [where x = "turn_end plain_lib [97] None t ?r"]) simp
  from this [of "Some 3"] this [of "Some 5"] s show ?thesis unfolding Let_def by (simp only: if_True if_False simp_thms)
qed

end
