(* ===== verification/Agent_Speech.thy ===== *)
theory Agent_Speech imports Agent_Eval Delta_Claims begin

text \<open>
  What is read of the prose: every chunk of every delta, once and in order, whatever order the deltas of a
  block arrive in. For a reader that takes single chunks (not whole messages), with summaries off.
\<close>

declare lit_Cons [simp del] lit_Nil [simp del]

section \<open>What was spoken and what is held\<close>

definition prose_of :: "str \<Rightarrow> action \<Rightarrow> str option" where
  "prose_of ch a =
     (case a of
        Speak c t decision rel k \<Rightarrow>
          (case t of
             m # s \<Rightarrow> if c = ch \<and> m = SPOKEN \<and> \<not> decision \<and> k = K_Prose then Some s else None
           | [] \<Rightarrow> None)
      | _ \<Rightarrow> None)"

definition spoken_prose :: "str \<Rightarrow> action list \<Rightarrow> str list" where
  "spoken_prose ch as = List.map_filter (prose_of ch) as"

text \<open>The prose spoken so far and then the prose held.\<close>

definition trace :: "'a agent_lib \<Rightarrow> str \<Rightarrow> 'a rules \<Rightarrow> str list" where
  "trace L ch r = spoken_prose ch (acts r) @ map fst (held_prose (turn_of L ch r))"

lemma map_filter_append: "List.map_filter f (xs @ ys) = List.map_filter f xs @ List.map_filter f ys"
  by (simp add: List.map_filter_def)

lemma spoken_prose_append [simp]: "spoken_prose ch (as @ bs) = spoken_prose ch as @ spoken_prose ch bs"
  by (simp add: spoken_prose_def map_filter_append)

lemma spoken_prose_simps [simp]:
  "spoken_prose ch [] = []"
  "spoken_prose ch [Set_Timer n tm] = []" "spoken_prose ch [Earcon e] = []"
  "spoken_prose ch [Speak ch (SPOKEN # t) False rl K_Prose] = [t]"
  by (simp_all add: spoken_prose_def prose_of_def List.map_filter_simps)

lemma trim_spoken [simp]: "trim (SPOKEN # t) \<noteq> []"
  by (auto simp: trim_empty_iff SPOKEN_def is_whitespace_def)

lemma speak_all_prose:
  "mute_level (settings r) = 0 \<Longrightarrow>
     spoken_prose ch (acts (speak_all ch (map (\<lambda>t. SPOKEN # t) ts) r)) = spoken_prose ch (acts r) @ ts \<and>
     turns (speak_all ch (map (\<lambda>t. SPOKEN # t) ts) r) = turns r \<and>
     next_gen (speak_all ch (map (\<lambda>t. SPOKEN # t) ts) r) = next_gen r \<and>
     settings (speak_all ch (map (\<lambda>t. SPOKEN # t) ts) r) = settings r \<and>
     whole (speak_all ch (map (\<lambda>t. SPOKEN # t) ts) r) = whole r"
  by (induction ts arbitrary: r) (simp_all add: speak_all_def speak_def say_def)

text \<open>The conditions of this theory: not muted, summaries off, one chunk at a time.\<close>

definition reads_chunks :: "'a rules \<Rightarrow> bool" where
  "reads_chunks r \<longleftrightarrow> mute_level (settings r) = 0 \<and> \<not> summaries_on r \<and> \<not> whole r"

lemma reads_chunks_cong: "settings s = settings r \<Longrightarrow> whole s = whole r \<Longrightarrow> reads_chunks s = reads_chunks r"
  by (simp add: reads_chunks_def summaries_on_def)

lemma turn_of_cong: "turns s = turns r \<Longrightarrow> next_gen s = next_gen r \<Longrightarrow> turn_of L ch s = turn_of L ch r"
  by (simp add: turn_of_def split: option.split)

lemma flush_upto_prose:
  assumes "reads_chunks r"
  shows "trace L ch (flush_prose_upto L ch n r) = trace L ch r \<and>
    turn_of L ch (flush_prose_upto L ch n r) = (turn_of L ch r)\<lparr>held_prose := drop n (held_prose (turn_of L ch r))\<rparr> \<and>
    settings (flush_prose_upto L ch n r) = settings r \<and> whole (flush_prose_upto L ch n r) = whole r"
proof -
  define k where "k = min n (length (held_prose (turn_of L ch r)))"
  define s where "s = on_turn L ch (\<lambda>c. c\<lparr>held_prose := drop k (held_prose c)\<rparr>) r"
  define ts where "ts = map fst (take k (held_prose (turn_of L ch r)))"
  have m: "map (\<lambda>(t, para). SPOKEN # t) (take k (held_prose (turn_of L ch r))) = map (\<lambda>t. SPOKEN # t) ts"
    by (simp add: ts_def case_prod_beta comp_def)
  have lvl: "mute_level (settings s) = 0" "\<not> whole s" using assms by (simp_all add: s_def reads_chunks_def)
  have eq: "flush_prose_upto L ch n r = speak_all ch (map (\<lambda>t. SPOKEN # t) ts) s"
    using lvl(2) unfolding flush_prose_upto_def Let_def k_def [symmetric] s_def [symmetric] m
    by (auto simp: ts_def speak_all_def)
  have k: "drop k (held_prose (turn_of L ch r)) = drop n (held_prose (turn_of L ch r))"
    by (simp add: k_def min_def)
  have t: "turn_of L ch s = (turn_of L ch r)\<lparr>held_prose := drop k (held_prose (turn_of L ch r))\<rparr>" "acts s = acts r"
    by (simp_all add: s_def)
  note sp = speak_all_prose [OF lvl(1), of ch ts]
  have tt: "turn_of L ch (flush_prose_upto L ch n r) = turn_of L ch s" unfolding eq using sp by (intro turn_of_cong) simp_all
  have "spoken_prose ch (acts (flush_prose_upto L ch n r)) = spoken_prose ch (acts r) @ ts" using sp by (simp add: eq t(2))
  moreover have "ts @ map fst (drop k (held_prose (turn_of L ch r))) = map fst (held_prose (turn_of L ch r))"
    unfolding ts_def map_append [symmetric] by simp
  ultimately have "trace L ch (flush_prose_upto L ch n r) = trace L ch r" by (simp add: trace_def tt t(1))
  moreover have "settings (flush_prose_upto L ch n r) = settings r" "whole (flush_prose_upto L ch n r) = whole r"
    using sp by (simp_all add: eq s_def)
  ultimately show ?thesis using tt t(1) k by simp
qed

lemma flush_all_prose:
  assumes "reads_chunks r"
  shows "trace L ch (flush_prose L ch r) = trace L ch r \<and>
    turn_of L ch (flush_prose L ch r) = (turn_of L ch r)\<lparr>held_prose := []\<rparr> \<and>
    settings (flush_prose L ch r) = settings r \<and> whole (flush_prose L ch r) = whole r"
  using flush_upto_prose [OF assms, of L ch "length (held_prose (turn_of L ch r))"] by (simp add: flush_prose_def)

section \<open>Assembling\<close>

fun spoken_chunk :: "bool \<Rightarrow> asm_chunk \<Rightarrow> str list" where
  "spoken_chunk skip_code (Text t) = [t]"
| "spoken_chunk skip_code (Code s ls e) = (if skip_code then [] else [code_block s ls e])"
| "spoken_chunk skip_code ParagraphBreak = []"

definition chunk_texts :: "bool \<Rightarrow> asm_chunk list \<Rightarrow> str list" where
  "chunk_texts skip_code cs = concat (map (spoken_chunk skip_code) cs)"

text \<open>The assembler fed with deltas, one after the other.\<close>

fun asm_run :: "'a agent_lib \<Rightarrow> delta list \<Rightarrow> 'a \<Rightarrow> asm_chunk list \<times> 'a" where
  "asm_run L [] a = ([], a)"
| "asm_run L ((t, i, fin) # ds) a =
     (let (cs, a) = asm_feed L t i fin a; (cs', a) = asm_run L ds a in (cs @ cs', a))"

lemma asm_run_append:
  "asm_run L (ds @ es) a = (fst (asm_run L ds a) @ fst (asm_run L es (snd (asm_run L ds a))), snd (asm_run L es (snd (asm_run L ds a))))"
  by (induction ds arbitrary: a) (auto simp: case_prod_beta)

text \<open>What assembling leaves alone in a turn.\<close>

definition same_rest :: "'a turn \<Rightarrow> 'a turn \<Rightarrow> bool" where
  "same_rest c d \<longleftrightarrow> lead_in d = lead_in c \<and> ended d = ended c \<and> skip_reply d = skip_reply c \<and>
     lead_in_wait d = lead_in_wait c \<and> turn_t d = turn_t c \<and> retired d = retired c \<and> order d = order c \<and>
     replied d = replied c \<and> reply d = reply c \<and> released d = released c"

lemma same_rest_refl [simp]: "same_rest c c"
  by (simp add: same_rest_def)

lemma same_rest_trans: "same_rest c d \<Longrightarrow> same_rest d e \<Longrightarrow> same_rest c e"
  by (simp add: same_rest_def)

lemma gather_chunk_texts:
  "map fst (g_texts (gather_chunk b x s)) = map fst (g_texts s) @ spoken_chunk b x \<and>
   assembler (g_turn (gather_chunk b x s)) = assembler (g_turn s) \<and>
   held_prose (g_turn (gather_chunk b x s)) = held_prose (g_turn s) \<and>
   same_rest (g_turn s) (g_turn (gather_chunk b x s))"
  by (cases x) (simp_all add: same_rest_def)

lemma gather_chunks_texts:
  "map fst (g_texts (fold (gather_chunk b) xs s)) = map fst (g_texts s) @ chunk_texts b xs \<and>
   assembler (g_turn (fold (gather_chunk b) xs s)) = assembler (g_turn s) \<and>
   held_prose (g_turn (fold (gather_chunk b) xs s)) = held_prose (g_turn s) \<and>
   same_rest (g_turn s) (g_turn (fold (gather_chunk b) xs s))"
proof (induction xs arbitrary: s)
  case Nil
  then show ?case by (simp add: chunk_texts_def)
next
  case (Cons x xs)
  have "same_rest (g_turn s) (g_turn (fold (gather_chunk b) xs (gather_chunk b x s)))"
    using same_rest_trans gather_chunk_texts [of b x s] Cons [of "gather_chunk b x s"] by blast
  then show ?case using gather_chunk_texts [of b x s] Cons [of "gather_chunk b x s"] by (simp add: chunk_texts_def)
qed

lemma gather_delta_texts:
  "map fst (g_texts (gather_delta L b (t, i, fin) s)) =
     map fst (g_texts s) @ chunk_texts b (fst (asm_feed L t i fin (assembler (g_turn s)))) \<and>
   assembler (g_turn (gather_delta L b (t, i, fin) s)) = snd (asm_feed L t i fin (assembler (g_turn s))) \<and>
   held_prose (g_turn (gather_delta L b (t, i, fin) s)) = held_prose (g_turn s) \<and>
   same_rest (g_turn s) (g_turn (gather_delta L b (t, i, fin) s))"
proof -
  define c where "c = (g_turn s)\<lparr>new_para := new_para (g_turn s) \<or>
      (i = 0 \<and> (case last_index (g_turn s) of Some j \<Rightarrow> j \<noteq> 0 | None \<Rightarrow> False)), last_index := Some i\<rparr>"
  define a where "a = asm_feed L t i fin (assembler c)"
  define s1 where "s1 = s\<lparr>g_turn := c\<lparr>assembler := snd a\<rparr>\<rparr>"
  define u where "u = fold (gather_chunk b) (fst a) s1"
  have c: "assembler c = assembler (g_turn s)" "same_rest (g_turn s) (g_turn s1)" "held_prose (g_turn s1) = held_prose (g_turn s)"
    by (simp_all add: c_def s1_def same_rest_def)
  have eq: "gather_delta L b (t, i, fin) s =
      (if fin then u\<lparr>g_turn := (g_turn u)\<lparr>new_para := True\<rparr>, g_breaks := Some (length (g_texts u))\<rparr> else u)"
    by (simp add: gather_delta_def Let_def case_prod_beta u_def c_def a_def s1_def)
  note u = gather_chunks_texts [of b "fst a" s1, folded u_def]
  have "same_rest (g_turn s) (g_turn u)" using same_rest_trans [OF c(2)] u by blast
  then have "same_rest (g_turn s) (g_turn (gather_delta L b (t, i, fin) s))" unfolding eq by (simp add: same_rest_def)
  moreover have "g_texts s1 = g_texts s" "assembler (g_turn s1) = snd a" by (simp_all add: s1_def)
  moreover have "a = asm_feed L t i fin (assembler (g_turn s))" by (simp add: a_def c(1))
  ultimately show ?thesis using u c(3) unfolding eq by simp
qed

lemma gather_deltas_texts:
  "map fst (g_texts (fold (gather_delta L b) ds s)) =
     map fst (g_texts s) @ chunk_texts b (fst (asm_run L ds (assembler (g_turn s)))) \<and>
   assembler (g_turn (fold (gather_delta L b) ds s)) = snd (asm_run L ds (assembler (g_turn s))) \<and>
   held_prose (g_turn (fold (gather_delta L b) ds s)) = held_prose (g_turn s) \<and>
   same_rest (g_turn s) (g_turn (fold (gather_delta L b) ds s))"
proof (induction ds arbitrary: s)
  case Nil
  then show ?case by (simp add: chunk_texts_def)
next
  case (Cons d ds)
  obtain t i fin where d: "d = (t, i, fin)" by (cases d) auto
  have "same_rest (g_turn s) (g_turn (fold (gather_delta L b) ds (gather_delta L b d s)))"
    using same_rest_trans gather_delta_texts [of L b t i fin s] Cons [of "gather_delta L b d s"] d by blast
  then show ?case using gather_delta_texts [of L b t i fin s] Cons [of "gather_delta L b d s"]
    by (simp add: d case_prod_beta chunk_texts_def)
qed

text \<open>Nothing is kept for a summary: what was recorded was voiced.\<close>

definition all_voiced :: "'a turn \<Rightarrow> bool" where
  "all_voiced c \<longleftrightarrow> voiced c = length (prose c)"

lemma gather_off:
  assumes "all_voiced c"
  shows "map fst (g_texts (gather L False b ds c)) = chunk_texts b (fst (asm_run L ds (assembler c))) \<and>
    assembler (g_turn (gather L False b ds c)) = snd (asm_run L ds (assembler c)) \<and>
    held_prose (g_turn (gather L False b ds c)) = held_prose c \<and> same_rest c (g_turn (gather L False b ds c)) \<and>
    all_voiced (g_turn (gather L False b ds c))"
proof -
  let ?s = "\<lparr>g_turn = c\<lparr>voiced := length (prose c)\<rparr>, g_texts = [], g_skipped = [], g_breaks = None\<rparr>"
  have v: "c\<lparr>voiced := length (prose c)\<rparr> = c" using assms by (simp add: all_voiced_def)
  have "take_kept c = ([], c)" using assms v by (simp add: take_kept_def all_voiced_def)
  then have "gather L False b ds c = (let s = fold (gather_delta L b) ds ?s
      in s\<lparr>g_turn := (g_turn s)\<lparr>voiced := length (prose (g_turn s))\<rparr>\<rparr>)"
    by (simp add: gather_def v Let_def)
  then show ?thesis using gather_deltas_texts [of L b ds ?s]
    by (simp add: Let_def v same_rest_def all_voiced_def)
qed

lemma deliver_trace:
  assumes "reads_chunks r"
  shows "trace L ch (deliver L ch texts breaks r) = trace L ch r @ map fst texts \<and>
    (\<exists>h. turn_of L ch (deliver L ch texts breaks r) = (turn_of L ch r)\<lparr>held_prose := h\<rparr>) \<and>
    settings (deliver L ch texts breaks r) = settings r \<and> whole (deliver L ch texts breaks r) = whole r"
proof -
  define r1 where "r1 = on_turn L ch (\<lambda>c. c\<lparr>held_prose := held_prose c @ texts\<rparr>) r"
  have rc: "reads_chunks r1" using assms reads_chunks_cong [of r1 r] by (simp add: r1_def)
  have 1: "trace L ch r1 = trace L ch r @ map fst texts" "settings r1 = settings r" "whole r1 = whole r"
    "turn_of L ch r1 = (turn_of L ch r)\<lparr>held_prose := held_prose (turn_of L ch r) @ texts\<rparr>"
    by (simp_all add: r1_def trace_def)
  define r2 where "r2 = (if ready_now r1 (turn_of L ch r1) then flush_prose L ch r1 else r1)"
  have nw: "\<not> whole r" using assms by (simp add: reads_chunks_def)
  have 2: "trace L ch r2 = trace L ch r @ map fst texts" "settings r2 = settings r" "whole r2 = whole r"
    "\<exists>h. turn_of L ch r2 = (turn_of L ch r)\<lparr>held_prose := h\<rparr>"
    unfolding r2_def using flush_all_prose [OF rc, of L ch] 1 by auto
  show ?thesis
  proof (cases "texts = []")
    case True
    have "deliver L ch texts breaks r = r" using nw True by (simp add: deliver_def)
    moreover have "turn_of L ch r = (turn_of L ch r)\<lparr>held_prose := held_prose (turn_of L ch r)\<rparr>" by simp
    ultimately show ?thesis using True by (metis append_Nil2 list.simps(8))
  next
    case False
    have "\<exists>b w. deliver L ch texts breaks r = (if b then leave_note (Some ch) K_Prose w None r2 else r2)"
      using False nw unfolding deliver_def Let_def r1_def [symmetric] r2_def by auto
    then obtain b w where "deliver L ch texts breaks r = (if b then leave_note (Some ch) K_Prose w None r2 else r2)" by blast
    then show ?thesis using 2 by (simp add: trace_def)
  qed
qed

lemma note_texts_sel:
  "turn_of L ch (note_texts c k w ts r) = turn_of L ch r \<and> acts (note_texts c k w ts r) = acts r \<and>
   settings (note_texts c k w ts r) = settings r \<and> whole (note_texts c k w ts r) = whole r"
  unfolding note_texts_def by (induction ts arbitrary: r) simp_all

definition skips_code :: "'a rules \<Rightarrow> bool" where
  "skips_code r \<longleftrightarrow> verbosity (settings r) = Skip_Code"

text \<open>What a step of this theory does to a channel: it adds texts to the trace and keeps the conditions.\<close>

definition reads :: "'a agent_lib \<Rightarrow> str \<Rightarrow> delta list \<Rightarrow> 'a rules \<Rightarrow> 'a rules \<Rightarrow> bool" where
  "reads L ch ds r s \<longleftrightarrow>
     trace L ch s = trace L ch r @ chunk_texts (skips_code r) (fst (asm_run L ds (assembler (turn_of L ch r)))) \<and>
     assembler (turn_of L ch s) = snd (asm_run L ds (assembler (turn_of L ch r))) \<and>
     settings s = settings r \<and> whole s = whole r \<and> all_voiced (turn_of L ch s)"

lemma reads_trans:
  "reads L ch ds r s \<Longrightarrow> reads L ch es s u \<Longrightarrow> reads L ch (ds @ es) r u"
  by (simp add: reads_def asm_run_append chunk_texts_def skips_code_def)

lemma assemble_reads:
  assumes rc: "reads_chunks r" and v: "all_voiced (turn_of L ch r)"
  shows "reads L ch ds r (assemble L ch ds r) \<and> same_rest (turn_of L ch r) (turn_of L ch (assemble L ch ds r))"
proof (cases "ds = []")
  case True
  then show ?thesis using v by (simp add: assemble_def reads_def chunk_texts_def)
next
  case False
  define c where "c = turn_of L ch r"
  define g where "g = gather L False (skips_code r) ds c"
  define r1 where "r1 = note_texts ch K_Code Not_Spoken_Code (g_skipped g) (on_turn L ch (\<lambda>_. g_turn g) r)"
  have g: "map fst (g_texts g) = chunk_texts (skips_code r) (fst (asm_run L ds (assembler c)))"
    "assembler (g_turn g) = snd (asm_run L ds (assembler c))" "held_prose (g_turn g) = held_prose c"
    "same_rest c (g_turn g)" "all_voiced (g_turn g)"
    using gather_off [OF v, of L "skips_code r" ds] by (simp_all add: g_def c_def)
  have 1: "turn_of L ch r1 = g_turn g" "acts r1 = acts r" "settings r1 = settings r" "whole r1 = whole r"
    by (simp_all add: r1_def note_texts_sel)
  have rc1: "reads_chunks r1" using rc reads_chunks_cong [OF 1(3,4)] by simp
  have k0: "length (fst (take_kept c)) = 0" using v by (simp add: c_def take_kept_def all_voiced_def)
  have "assemble L ch ds r = deliver L ch (g_texts g) (g_breaks g) r1"
    using rc False k0 unfolding assemble_def Let_def c_def [symmetric]
    by (simp add: reads_chunks_def note_kept_def g_def r1_def skips_code_def)
  then have d: "trace L ch (assemble L ch ds r) = trace L ch r1 @ map fst (g_texts g)"
    "\<exists>h. turn_of L ch (assemble L ch ds r) = (g_turn g)\<lparr>held_prose := h\<rparr>"
    "settings (assemble L ch ds r) = settings r" "whole (assemble L ch ds r) = whole r"
    using deliver_trace [OF rc1, of L ch "g_texts g" "g_breaks g"] 1 by simp_all
  have "trace L ch r1 = trace L ch r" using 1(1,2) g(3) by (simp add: trace_def c_def)
  then show ?thesis using d g by (auto simp: reads_def c_def same_rest_def all_voiced_def)
qed

section \<open>Gaps\<close>

lemma release_gap_reads:
  assumes rc: "reads_chunks r" and v: "all_voiced (turn_of L ch r)"
  shows "reads L ch (held_deltas (order (turn_of L ch r))) r (release_gap L ch why r) \<and>
    same_rest ((turn_of L ch r)\<lparr>order := snd (release_order (order (turn_of L ch r)))\<rparr>)
      (turn_of L ch (release_gap L ch why r))"
proof -
  define d where "d = order (turn_of L ch r)"
  define r1 where "r1 = on_turn L ch (\<lambda>c. c\<lparr>order := snd (release_order (order c))\<rparr>) r"
  have 1: "turn_of L ch r1 = (turn_of L ch r)\<lparr>order := snd (release_order d)\<rparr>" "acts r1 = acts r"
    "settings r1 = settings r" "whole r1 = whole r"
    by (simp_all add: r1_def d_def)
  define r2 where "r2 = leave_note (Some ch) K_Prose (Deltas_Released (length (fst (release_order d))) (missing d) why) None r1"
  have 2: "turn_of L ch r2 = turn_of L ch r1" "acts r2 = acts r1" "settings r2 = settings r" "whole r2 = whole r"
    by (simp_all add: r2_def 1)
  have rc2: "reads_chunks r2" "reads_chunks r1" using rc reads_chunks_cong [OF 2(3,4)] reads_chunks_cong [OF 1(3,4)] by simp_all
  have v2: "all_voiced (turn_of L ch r2)" using v 1 2 by (simp add: all_voiced_def)
  have tr: "trace L ch r2 = trace L ch r" "skips_code r2 = skips_code r" "assembler (turn_of L ch r2) = assembler (turn_of L ch r)"
    using 1 2 by (simp_all add: trace_def skips_code_def)
  have eq: "release_gap L ch why r = (if held_deltas d = [] then r1 else assemble L ch (held_deltas d) r2)"
    unfolding release_gap_def Let_def r1_def r2_def d_def release_order_out(1) by simp
  show ?thesis
  proof (cases "held_deltas d = []")
    case True
    have "trace L ch r1 = trace L ch r" using 1 by (simp add: trace_def)
    then show ?thesis using True eq 1 v by (simp add: reads_def chunk_texts_def d_def all_voiced_def)
  next
    case False
    then show ?thesis
      using assemble_reads [OF rc2(1) v2, of "held_deltas d"] eq tr 1 2 by (simp add: reads_def d_def)
  qed
qed

section \<open>Delta order\<close>

text \<open>\<open>accept\<close> does not look at the generation of a gap.\<close>

definition same_order :: "delta_order \<Rightarrow> delta_order \<Rightarrow> bool" where
  "same_order s t \<longleftrightarrow> next_delta t = next_delta s \<and> ahead t = ahead s \<and> skipped t = skipped s"

lemma same_order_refl [simp]: "same_order s s"
  by (simp add: same_order_def)

lemma unblock_same:
  "same_order s t \<Longrightarrow> fst (unblock out t) = fst (unblock out s) \<and> same_order (snd (unblock out s)) (snd (unblock out t))"
proof (induction out s arbitrary: t rule: unblock.induct)
  case (1 out s)
  have t: "next_delta t = next_delta s" "ahead t = ahead s" "skipped t = skipped s" using 1(2) by (simp_all add: same_order_def)
  show ?case
  proof (cases "map_of (ahead s) (next_delta s)")
    case None
    then show ?thesis using 1(2) t unblock_step(2) [of s out] unblock_step(2) [of t out] by simp
  next
    case (Some x)
    obtain u f where x: "x = (u, f)" by (cases x)
    have "same_order (advance_order (next_delta s) f (s\<lparr>ahead := filter (\<lambda>x. fst x \<noteq> next_delta s) (ahead s)\<rparr>))
        (advance_order (next_delta s) f (t\<lparr>ahead := filter (\<lambda>x. fst x \<noteq> next_delta s) (ahead s)\<rparr>))"
      using t by (simp add: same_order_def advance_order_def)
    from 1(1) [OF Some x [symmetric] refl this] show ?thesis
      using Some x t unblock_step(1) [of s u f out] unblock_step(1) [of t u f out] by simp
  qed
qed

lemma fold_advance_same:
  "same_order s t \<Longrightarrow> same_order (fold (\<lambda>(i, u, f) s. advance_order i f s) xs s) (fold (\<lambda>(i, u, f) s. advance_order i f s) xs t)"
proof (induction xs arbitrary: s t)
  case Nil
  then show ?case by simp
next
  case (Cons x xs)
  obtain i u f where x: "x = (i, u, f)" by (cases x) auto
  have "same_order (advance_order i f s) (advance_order i f t)"
    using Cons.prems by (simp add: same_order_def advance_order_def)
  then show ?case using Cons.IH by (simp add: x)
qed

lemma release_same:
  assumes "same_order s t"
  shows "fst (release_order t) = fst (release_order s) \<and> same_order (snd (release_order s)) (snd (release_order t))"
proof -
  have t: "next_delta t = next_delta s" "ahead t = ahead s" "skipped t = skipped s" using assms by (simp_all add: same_order_def)
  have m: "missing t = missing s" by (simp add: missing_def t)
  let ?s = "s\<lparr>skipped := skipped s \<union> set (missing s), ahead := []\<rparr>"
  let ?t = "t\<lparr>skipped := skipped t \<union> set (missing t), ahead := []\<rparr>"
  have "same_order ?s ?t" using t m by (simp add: same_order_def)
  then have "same_order (fold (\<lambda>(i, u, f) s. advance_order i f s) (ahead s) ?s) (fold (\<lambda>(i, u, f) s. advance_order i f s) (ahead s) ?t)"
    by (rule fold_advance_same)
  then show ?thesis using t by (simp add: release_order_def Let_def same_order_def m)
qed

lemma accept_same:
  assumes "same_order s t"
  shows "fst (accept d i f t) = fst (accept d i f s) \<and> same_order (snd (accept d i f s)) (snd (accept d i f t))"
proof -
  define pre where "pre = (\<lambda>s. if i = 0 \<and> 0 < next_delta s
      then (fst (release_order s), (snd (release_order s))\<lparr>next_delta := 0\<rparr>) else ([], s))"
  define clear where "clear = (\<lambda>s :: delta_order. if i = 0 then s\<lparr>skipped := {}\<rparr> else s)"
  define unskip where "unskip = (\<lambda>s :: delta_order. if i \<noteq> next_delta s then s\<lparr>skipped := skipped s - {i}\<rparr> else s)"
  define rest where "rest = (\<lambda>ready late s. if i < next_delta s \<or> map_of (ahead s) i \<noteq> None \<or> late then
           ((ready @ fst (release_order s) @ [(d, i, f)], False), snd (release_order s))
         else if next_delta s < i then
           ((ready, ahead s = []), s\<lparr>ahead := insert_delta i (d, f) (ahead s)\<rparr>)
         else
           (let u = unblock (ready @ [(d, i, f)]) (advance_order i f (s\<lparr>skipped := skipped s - {i}\<rparr>))
            in ((fst u, False), if ahead (snd u) = [] then (snd u)\<lparr>order_gen := order_gen (snd u) + 1\<rparr> else snd u)))"
  have eq: "accept d i f s = rest (fst (pre s))
      (i \<noteq> next_delta (clear (snd (pre s))) \<and> i \<in> skipped (clear (snd (pre s)))) (unskip (clear (snd (pre s))))" for s
    unfolding accept_def Let_def case_prod_beta pre_def clear_def unskip_def rest_def
    by (cases "i = 0 \<and> 0 < next_delta s") (simp_all add: case_prod_beta)
  have 1: "fst (pre t) = fst (pre s)" "same_order (clear (snd (pre s))) (clear (snd (pre t)))"
    using release_same [OF assms] assms by (simp_all add: pre_def clear_def same_order_def)
  define s1 where "s1 = clear (snd (pre s))"
  define t1 where "t1 = clear (snd (pre t))"
  have 2: "next_delta t1 = next_delta s1" "skipped t1 = skipped s1" using 1(2) by (simp_all add: s1_def t1_def same_order_def)
  have 3: "same_order (unskip s1) (unskip t1)" using 1(2) by (auto simp: s1_def t1_def unskip_def same_order_def)
  have 4: "fst (rest x l q) = fst (rest x l p) \<and> same_order (snd (rest x l p)) (snd (rest x l q))" if pq: "same_order p q" for x l p q
  proof -
    have q: "next_delta q = next_delta p" "ahead q = ahead p" "skipped q = skipped p" using pq by (simp_all add: same_order_def)
    have "same_order (advance_order i f (p\<lparr>skipped := skipped p - {i}\<rparr>)) (advance_order i f (q\<lparr>skipped := skipped q - {i}\<rparr>))"
      using q by (simp add: same_order_def advance_order_def)
    note u = unblock_same [OF this, of "x @ [(d, i, f)]"]
    show ?thesis unfolding rest_def q using release_same [OF pq] u q
      by (auto simp: Let_def same_order_def)
  qed
  show ?thesis unfolding eq s1_def [symmetric] t1_def [symmetric] 1(1) 2 by (rule 4 [OF 3])
qed

section \<open>Streamed deltas\<close>

lemma accept_delta_reads:
  assumes rc: "reads_chunks r" and v: "all_voiced (turn_of L ch r)"
    and same: "same_order o1 (order (turn_of L ch r))"
    and one: "\<not> (i = 0 \<and> 0 < next_delta o1 \<and> ahead o1 \<noteq> [])"
  shows "reads L ch (fst (fst (accept d i fin o1))) r (accept_delta L ch d i fin r) \<and>
    (\<exists>o2. same_order (snd (accept d i fin o1)) o2 \<and>
       same_rest ((turn_of L ch r)\<lparr>order := o2\<rparr>) (turn_of L ch (accept_delta L ch d i fin r)))"
proof -
  define c where "c = turn_of L ch r"
  define a where "a = accept d i fin (order c)"
  have sa: "fst a = fst (accept d i fin o1)" "same_order (snd (accept d i fin o1)) (snd a)"
    using accept_same [OF same] by (simp_all add: a_def c_def)
  have no: "\<not> (i = 0 \<and> 0 < next_delta (order c) \<and> ahead (order c) \<noteq> [])"
    using one same by (auto simp: same_order_def c_def)
  define r2 where "r2 = on_turn L ch (\<lambda>c. c\<lparr>order := snd a\<rparr>) r"
  define r3 where "r3 = on_turn L ch (\<lambda>c. c\<lparr>order := (order c)\<lparr>order_gen := next_gen r2 + 1\<rparr>\<rparr>) (snd (fresh_gen r2))"
  define r4 where "r4 = (if snd (fst a)
      then leave_note (Some ch) K_Prose (Delta_Waits i (missing (order (turn_of L ch r3)))) None
             (emit (Set_Timer DELTA_GAP (Gap ch (next_gen r2 + 1))) r3)
      else r2)"
  have eq: "accept_delta L ch d i fin r = assemble L ch (fst (fst a)) r4"
    unfolding accept_delta_def Let_def case_prod_beta c_def [symmetric] if_not_P [OF no] a_def [symmetric] r2_def [symmetric]
    by (simp add: r3_def r4_def fresh_gen_def)
  have tr2: "map_of (turns r2) ch = Some (c\<lparr>order := snd a\<rparr>)" by (simp add: r2_def turns_on_turn c_def)
  then have t2: "turn_of L ch r2 = c\<lparr>order := snd a\<rparr>" by (simp add: turn_of_def)
  have "turn_of L ch (snd (fresh_gen r2)) = c\<lparr>order := snd a\<rparr>" by (simp add: turn_of_def fresh_gen_def tr2)
  then have t3: "turn_of L ch r3 = c\<lparr>order := (snd a)\<lparr>order_gen := next_gen r2 + 1\<rparr>\<rparr>" by (simp add: r3_def)
  obtain o2 where o2: "turn_of L ch r4 = c\<lparr>order := o2\<rparr>" "same_order (snd a) o2"
  proof (cases "snd (fst a)")
    case True
    then show ?thesis using that [of "(snd a)\<lparr>order_gen := next_gen r2 + 1\<rparr>"] t3
      by (simp add: r4_def same_order_def)
  next
    case False
    then show ?thesis using that [of "snd a"] t2 by (simp add: r4_def)
  qed
  have f4: "settings r4 = settings r" "whole r4 = whole r" "spoken_prose ch (acts r4) = spoken_prose ch (acts r)"
    by (simp_all add: r4_def r3_def r2_def fresh_gen_def)
  have rc4: "reads_chunks r4" using rc reads_chunks_cong [OF f4(1,2)] by simp
  have v4: "all_voiced (turn_of L ch r4)" using v by (simp add: o2 all_voiced_def c_def)
  have "trace L ch r4 = trace L ch r" using f4(3) by (simp add: trace_def o2 c_def)
  then have "reads L ch (fst (fst a)) r (accept_delta L ch d i fin r)"
    using assemble_reads [OF rc4 v4, of "fst (fst a)"] f4 unfolding eq
    by (simp add: reads_def o2 skips_code_def c_def)
  moreover have "same_rest (c\<lparr>order := o2\<rparr>) (turn_of L ch (accept_delta L ch d i fin r))"
    using assemble_reads [OF rc4 v4, of "fst (fst a)"] unfolding eq by (simp add: o2)
  moreover have "same_order (snd (accept d i fin o1)) o2" using sa(2) o2(2) by (simp add: same_order_def)
  ultimately show ?thesis using sa(1) by (auto simp: c_def)
qed

text \<open>A channel whose messages are simply read: no flushed reply, no reply read at the turn end, no lead-in
  to compare with.\<close>

definition plain_turn :: "'a turn \<Rightarrow> bool" where
  "plain_turn c \<longleftrightarrow> lead_in c = None \<and> \<not> ended c \<and> \<not> skip_reply c \<and> all_voiced c"

lemma stream_reads:
  assumes rc: "reads_chunks r" and p: "plain_turn (turn_of L ch r)" and ns: "\<not> is_stale ch trn t r"
    and same: "same_order o1 (order (turn_of L ch r))"
    and one: "\<not> (i = 0 \<and> 0 < next_delta o1 \<and> ahead o1 \<noteq> [])"
  shows "let s = snd (stream L ch trn d i fin t r) in
    reads L ch (fst (fst (accept d i fin o1))) r s \<and> plain_turn (turn_of L ch s) \<and>
    \<not> is_stale ch trn t s \<and> same_order (snd (accept d i fin o1)) (order (turn_of L ch s))"
proof -
  define f where "f = (\<lambda>c :: 'a turn. if i = 0 \<and> fin
      then c\<lparr>lead_in_wait := map_option (\<lambda>w. w\<lparr>wait_seen := wait_seen w @ [fold_text L d]\<rparr>) (lead_in_wait c)\<rparr> else c)"
  define r1 where "r1 = on_turn L ch f r"
  define c where "c = turn_of L ch r"
  have f: "order (f c) = order c" "held_prose (f c) = held_prose c" "lead_in (f c) = lead_in c" "ended (f c) = ended c"
    "skip_reply (f c) = skip_reply c" "all_voiced (f c) = all_voiced c" "assembler (f c) = assembler c"
    "turn_t (f c) = turn_t c" "retired (f c) = retired c"
    by (simp_all add: f_def all_voiced_def)
  have 1: "turn_of L ch r1 = f c" "acts r1 = acts r" "settings r1 = settings r" "whole r1 = whole r"
    by (simp_all add: r1_def c_def)
  have rc1: "reads_chunks r1" using rc reads_chunks_cong [OF 1(3,4)] by simp
  have v1: "all_voiced (turn_of L ch r1)" using p by (simp add: 1 f plain_turn_def c_def [symmetric])
  have same1: "same_order o1 (order (turn_of L ch r1))" using same by (simp add: 1 f c_def [symmetric])
  have eq: "snd (stream L ch trn d i fin t r) = accept_delta L ch d i fin r1"
    using ns p unfolding stream_def Let_def f_def [symmetric] r1_def [symmetric]
    by (simp add: 1 f plain_turn_def c_def [symmetric])
  obtain o2 where o2: "same_order (snd (accept d i fin o1)) o2"
    "same_rest ((f c)\<lparr>order := o2\<rparr>) (turn_of L ch (accept_delta L ch d i fin r1))"
    and rd: "reads L ch (fst (fst (accept d i fin o1))) r1 (accept_delta L ch d i fin r1)"
    using accept_delta_reads [OF rc1 v1 same1 one, of d fin] unfolding 1 by blast
  define s where "s = accept_delta L ch d i fin r1"
  have "trace L ch r1 = trace L ch r" by (simp add: trace_def 1 f c_def [symmetric])
  then have "reads L ch (fst (fst (accept d i fin o1))) r s"
    using rd by (simp add: reads_def s_def 1 f skips_code_def c_def [symmetric])
  moreover have "plain_turn (turn_of L ch s)"
    using o2(2) rd p f by (simp add: plain_turn_def same_rest_def s_def reads_def c_def [symmetric])
  moreover have "stale trn t (turn_of L ch s) = stale trn t c"
    using o2(2) f by (simp add: same_rest_def s_def stale_def split: option.split)
  moreover have "same_order (snd (accept d i fin o1)) (order (turn_of L ch s))"
    using o2 by (simp add: same_rest_def s_def)
  moreover have "stale trn t (turn_of L ch u) = is_stale ch trn t u" for u
    by (auto simp: is_stale_def turn_of_def stale_def new_turn_def split: option.split)
  ultimately show ?thesis using ns unfolding eq s_def [symmetric] Let_def by (simp add: c_def)
qed

text \<open>The deltas of a block in the order their hook processes deliver them.\<close>

definition stream_all :: "'a agent_lib \<Rightarrow> str \<Rightarrow> str option \<Rightarrow> int option \<Rightarrow> delta list \<Rightarrow> 'a rules \<Rightarrow> 'a rules" where
  "stream_all L ch trn t ds r = fold (\<lambda>(d, i, fin) r. snd (stream L ch trn d i fin t r)) ds r"

text \<open>No delta of the run starts a new block before the last one is through.\<close>

fun one_block :: "delta list \<Rightarrow> delta_order \<Rightarrow> bool" where
  "one_block [] s \<longleftrightarrow> True"
| "one_block ((d, i, fin) # ds) s \<longleftrightarrow>
     \<not> (i = 0 \<and> 0 < next_delta s \<and> ahead s \<noteq> []) \<and> one_block ds (snd (accept d i fin s))"

lemma stream_all_reads:
  assumes "reads_chunks r" "plain_turn (turn_of L ch r)" "\<not> is_stale ch trn t r"
    "same_order o1 (order (turn_of L ch r))" "one_block ds o1"
  shows "reads L ch (fst (order_run (arrivals ds) o1)) r (stream_all L ch trn t ds r) \<and>
    plain_turn (turn_of L ch (stream_all L ch trn t ds r)) \<and>
    \<not> is_stale ch trn t (stream_all L ch trn t ds r) \<and>
    same_order (snd (order_run (arrivals ds) o1)) (order (turn_of L ch (stream_all L ch trn t ds r)))"
  using assms
proof (induction ds arbitrary: r o1)
  case Nil
  then show ?case by (simp add: stream_all_def arrivals_def reads_def chunk_texts_def plain_turn_def)
next
  case (Cons x ds)
  obtain d i fin where x: "x = (d, i, fin)" by (cases x) auto
  have one: "\<not> (i = 0 \<and> 0 < next_delta o1 \<and> ahead o1 \<noteq> [])" "one_block ds (snd (accept d i fin o1))"
    using Cons.prems(5) by (simp_all add: x)
  define s where "s = snd (stream L ch trn d i fin t r)"
  have s: "reads L ch (fst (fst (accept d i fin o1))) r s" "plain_turn (turn_of L ch s)" "\<not> is_stale ch trn t s"
    "same_order (snd (accept d i fin o1)) (order (turn_of L ch s))"
    using stream_reads [OF Cons.prems(1-4) one(1), of d fin] by (simp_all add: Let_def s_def)
  have "reads_chunks s" using s(1) Cons.prems(1) reads_chunks_cong [of s r] by (simp add: reads_def)
  note IH = Cons.IH [OF this s(2-4) one(2)]
  have "stream_all L ch trn t (x # ds) r = stream_all L ch trn t ds s"
    by (simp add: stream_all_def x s_def)
  moreover have "order_run (arrivals (x # ds)) o1 =
      (fst (fst (accept d i fin o1)) @ fst (order_run (arrivals ds) (snd (accept d i fin o1))),
       snd (order_run (arrivals ds) (snd (accept d i fin o1))))"
    by (simp add: arrivals_def x case_prod_beta)
  ultimately show ?case using IH reads_trans [OF s(1)] by simp
qed

section \<open>A block is read in order\<close>

lemma one_block_snoc:
  "one_block (ds @ [(d, i, fin)]) s \<longleftrightarrow> one_block ds s \<and>
     \<not> (i = 0 \<and> 0 < next_delta (snd (order_run (arrivals ds) s)) \<and> ahead (snd (order_run (arrivals ds) s)) \<noteq> [])"
proof (induction ds arbitrary: s)
  case Nil
  then show ?case by (simp add: arrivals_def)
next
  case (Cons x ds)
  then show ?case by (cases x) (simp add: arrivals_def case_prod_beta)
qed

lemma one_block_arrivals:
  assumes "length ts \<le> 2 ^ 32" "distinct ds" "set ds \<subseteq> set (block ts)"
  shows "one_block ds new_order"
  using assms(2,3)
proof (induction ds rule: rev_induct)
  case Nil
  then show ?case by simp
next
  case (snoc x ds)
  obtain i where i: "i < length ts" "x = (ts ! i, i, i + 1 = length ts)"
    using snoc.prems(2) by (auto simp: block_def)
  let ?o = "order_run (arrivals ds) new_order"
  obtain k where k: "in_block ts (fst ?o) (snd ?o) k"
    using arrivals_in_block [OF assms(1), of ds] snoc.prems by auto
  have all: "mset (fst ?o) + mset (held_deltas (snd ?o)) = mset ds"
    using order_run_ok [OF new_order_ok(1), of "arrivals ds"] by simp
  have "next_delta (snd ?o) = 0" if "i = 0"
  proof (rule ccontr)
    assume "next_delta (snd ?o) \<noteq> 0"
    then have "0 < k" using k by (simp add: in_block_def split: if_splits)
    then have "x \<in> set (take k (block ts))"
      using i that by (auto simp: in_set_conv_nth block_nth intro!: exI [of _ 0])
    then have "x \<in># mset ds" using k all by (metis UnI1 in_block_def set_mset_mset set_mset_union)
    then show False using snoc.prems(1) by simp
  qed
  then show ?case using snoc one_block_snoc [of ds "fst x" "fst (snd x)" "snd (snd x)" new_order] i by auto
qed

lemma between_blocks_same: "between_blocks s \<longleftrightarrow> same_order new_order s"
  by (auto simp: between_blocks_def same_order_def new_order_def)

text \<open>A channel that is ready for a block: in the middle of a turn, with no block under way.\<close>

definition takes_blocks :: "'a agent_lib \<Rightarrow> str \<Rightarrow> str option \<Rightarrow> int option \<Rightarrow> 'a rules \<Rightarrow> bool" where
  "takes_blocks L ch trn t r \<longleftrightarrow>
     reads_chunks r \<and> plain_turn (turn_of L ch r) \<and> \<not> is_stale ch trn t r \<and> between_blocks (order (turn_of L ch r))"

lemma block_reads:
  assumes "takes_blocks L ch trn t r" "length ts \<le> 2 ^ 32" "mset ds = mset (block ts)"
  shows "reads L ch (block ts) r (stream_all L ch trn t ds r) \<and> takes_blocks L ch trn t (stream_all L ch trn t ds r)"
proof -
  have "distinct (block ts)" by (auto simp: block_def distinct_map inj_on_def)
  then have "distinct ds" "set ds \<subseteq> set (block ts)"
    using assms(3) by (metis mset_eq_imp_distinct_iff, metis order_refl set_mset_mset)
  then have one: "one_block ds new_order" by (rule one_block_arrivals [OF assms(2)])
  have sorted: "fst (order_run (arrivals ds) new_order) = block ts" by (rule block_sorted [OF assms(2,3)])
  define s where "s = stream_all L ch trn t ds r"
  have s: "reads L ch (block ts) r s" "plain_turn (turn_of L ch s)" "\<not> is_stale ch trn t s"
    "same_order (snd (order_run (arrivals ds) new_order)) (order (turn_of L ch s))"
    using stream_all_reads [OF _ _ _ _ one, of r L ch trn t] assms(1) sorted
    by (simp_all add: takes_blocks_def between_blocks_same s_def)
  have "between_blocks (order (turn_of L ch s))"
    using s(4) block_ends [OF assms(2,3)] by (simp add: between_blocks_def same_order_def)
  moreover have "reads_chunks s" using s(1) assms(1) reads_chunks_cong [of s r] by (simp add: reads_def takes_blocks_def)
  ultimately show ?thesis using s by (simp add: takes_blocks_def s_def)
qed

lemma blocks_read:
  assumes "takes_blocks L ch trn t r" "list_all2 (\<lambda>ds ts. length ts \<le> 2 ^ 32 \<and> mset ds = mset (block ts)) dss tss"
  shows "reads L ch (concat (map block tss)) r (stream_all L ch trn t (concat dss) r) \<and>
    takes_blocks L ch trn t (stream_all L ch trn t (concat dss) r)"
  using assms(2,1)
proof (induction arbitrary: r rule: list_all2_induct)
  case Nil
  then show ?case by (simp add: stream_all_def reads_def chunk_texts_def takes_blocks_def plain_turn_def)
next
  case (Cons ds dss ts tss)
  define s where "s = stream_all L ch trn t ds r"
  have "reads L ch (block ts) r s" "takes_blocks L ch trn t s"
    using block_reads [of L ch trn t r ts ds] Cons by (simp_all add: s_def)
  moreover have "stream_all L ch trn t (concat (ds # dss)) r = stream_all L ch trn t (concat dss) s"
    by (simp add: stream_all_def s_def)
  ultimately show ?case using Cons.IH [of s] reads_trans by auto
qed

text \<open>C21: However the hook processes of each block race, and however many blocks a turn has, their deltas are read as if
  they had come in order: what is spoken or held after them is what was spoken or held before, then the chunks
  the assembler makes of the deltas of the blocks in index order, each once; and the channel takes the next
  block the same way. (While the session is read in single chunks, unmuted and without summaries, its turn
  goes on, no block comes before the last one is through, and no gap timer gives up on a delta.)\<close>

theorem block_is_read_in_order:
  assumes "takes_blocks L ch trn t r" "list_all2 (\<lambda>ds ts. length ts \<le> 2 ^ 32 \<and> mset ds = mset (block ts)) dss tss"
  shows "let s = stream_all L ch trn t (concat dss) r in
    trace L ch s = trace L ch r @
      chunk_texts (skips_code r) (fst (asm_run L (concat (map block tss)) (assembler (turn_of L ch r)))) \<and>
    takes_blocks L ch trn t s"
  using blocks_read [OF assms] by (simp add: reads_def)

text \<open>The reading of a session that said nothing yet.\<close>

lemma fresh_reading:
  shows "reads_chunks (new_rules default_settings :: unit rules)"
    and "turn_of plain_lib ch (new_rules default_settings) = new_turn plain_lib 1"
    and "plain_turn (new_turn plain_lib g)"
    and "\<not> is_stale ch trn t (new_rules default_settings :: unit rules)"
    and "order (new_turn plain_lib g) = new_order" and "held_prose (new_turn plain_lib g) = []"
    and "acts (new_rules default_settings :: unit rules) = []"
    and "settings (new_rules default_settings :: unit rules) = default_settings"
    and "\<not> skips_code (new_rules default_settings :: unit rules)"
proof -
  show "plain_turn (new_turn plain_lib g)" by (simp add: plain_turn_def new_turn_def all_voiced_def)
  show "reads_chunks (new_rules default_settings :: unit rules)"
    by (simp add: reads_chunks_def new_rules_def default_settings_def default_summaries_def summaries_on_def)
  show "\<not> skips_code (new_rules default_settings :: unit rules)"
    by (simp add: skips_code_def new_rules_def default_settings_def)
  show "\<not> is_stale ch trn t (new_rules default_settings :: unit rules)" by (simp add: is_stale_def new_rules_def)
  show "turn_of plain_lib ch (new_rules default_settings) = new_turn plain_lib 1" by (simp add: turn_of_def new_rules_def)
qed (simp_all add: new_turn_sel new_rules_def)

lemma plain_asm: "asm_feed plain_lib d i fin u = ([Text d], u)"
  by (simp add: plain_lib_def)

text \<open>Two blocks of two and one deltas; the second delta of the first one is delivered first.\<close>

lemma fresh_takes_blocks: "takes_blocks plain_lib ch trn t (new_rules default_settings :: unit rules)"
  by (simp add: takes_blocks_def fresh_reading between_blocks_same)

theorem block_is_read_in_order_witness:
  "let s = stream_all plain_lib [97] None None (concat [[([105], 1, True), ([72], 0, False)], [([33], 0, True)]])
     (new_rules default_settings)
   in trace plain_lib [97] s = [[72], [105], [33]] \<and> takes_blocks plain_lib [97] None None s"
  using block_is_read_in_order [OF fresh_takes_blocks, of "[[([105], 1, True), ([72], 0, False)], [([33], 0, True)]]"
      "[[[72], [105]], [[33]]]" "[97]" None None]
  by (simp add: fresh_reading block_def trace_def spoken_prose_def List.map_filter_def chunk_texts_def plain_asm
      upt_rec add_mset_commute)

section \<open>The turn end\<close>

lemma hold_kept_nothing:
  assumes "all_voiced (turn_of L ch r)"
  shows "turn_of L ch (snd (hold_kept L ch r)) = turn_of L ch r \<and> acts (snd (hold_kept L ch r)) = acts r \<and>
    settings (snd (hold_kept L ch r)) = settings r \<and> whole (snd (hold_kept L ch r)) = whole r"
proof -
  have k: "take_kept (turn_of L ch r) = ([], turn_of L ch r)"
    using assms by (simp add: take_kept_def all_voiced_def)
  show ?thesis by (simp add: hold_kept_def k note_kept_def)
qed

lemma take_reply_nothing:
  assumes "read_mode (settings r) \<noteq> Final"
  shows "take_reply L ch r = on_turn L ch (\<lambda>c. c\<lparr>reply := None\<rparr>) r"
  using assms by (simp add: take_reply_def)

text \<open>The turn end flushes a state in which the waiting deltas are held as prose.\<close>

lemma turn_end_flushes:
  assumes "reads_chunks r" "all_voiced (turn_of L ch r)" "\<not> is_stale ch trn t r" "read_mode (settings r) \<noteq> Final"
  shows "\<exists>u. snd (turn_end L ch trn t r) = flush_prose L ch u \<and> reads_chunks u \<and>
    trace L ch u = trace L ch r @ chunk_texts (skips_code r)
      (fst (asm_run L (held_deltas (order (turn_of L ch r))) (assembler (turn_of L ch r)))) \<and>
    ahead (order (turn_of L ch u)) = [] \<and> ended (turn_of L ch u)"
proof -
  define r1 where "r1 = play_earcon Turn_Done r"
  have 1: "turn_of L ch r1 = turn_of L ch r" "spoken_prose ch (acts r1) = spoken_prose ch (acts r)"
    "settings r1 = settings r" "whole r1 = whole r"
    by (simp_all add: r1_def play_earcon_def)
  have rc1: "reads_chunks r1" using assms(1) reads_chunks_cong [OF 1(3,4)] by simp
  define r2 where "r2 = release_gap L ch (lit ''turn_end'') r1"
  have 2: "reads L ch (held_deltas (order (turn_of L ch r))) r1 r2"
    "same_rest ((turn_of L ch r)\<lparr>order := snd (release_order (order (turn_of L ch r)))\<rparr>) (turn_of L ch r2)"
    using release_gap_reads [OF rc1, of L ch] assms(2) unfolding 1(1) r2_def by blast+
  define r3 where "r3 = on_turn L ch (\<lambda>c. c\<lparr>released := True, ended := True, batch_cut := False\<rparr>)
      (on_turn L ch (\<lambda>c. c\<lparr>reply := None\<rparr>) r2)"
  have 3: "turn_of L ch r3 = (turn_of L ch r2)\<lparr>reply := None, released := True, ended := True, batch_cut := False\<rparr>"
    "acts r3 = acts r2" "settings r3 = settings r" "whole r3 = whole r"
    using 2(1) 1 by (simp_all add: r3_def reads_def)
  have v3: "all_voiced (turn_of L ch r3)" using 2(1) by (simp add: 3 reads_def all_voiced_def)
  define r4 where "r4 = snd (hold_kept L ch r3)"
  have 4: "turn_of L ch r4 = turn_of L ch r3" "acts r4 = acts r2" "settings r4 = settings r" "whole r4 = whole r"
    using hold_kept_nothing [OF v3] 3 by (simp_all add: r4_def)
  have rc4: "reads_chunks r4" using assms(1) reads_chunks_cong [OF 4(3,4)] by simp
  have m: "read_mode (settings r2) \<noteq> Final" using assms(4) 2(1) 1(3) by (simp add: reads_def)
  have s5: "\<not> summaries_on (flush_prose L ch r4)" "\<not> summaries_on r3"
    using flush_all_prose [OF rc4, of L ch] assms(1) 4(3) 3(3) by (simp_all add: reads_chunks_def summaries_on_def)
  have eq: "snd (turn_end L ch trn t r) = flush_prose L ch r4"
    unfolding turn_end_def Let_def r1_def [symmetric] r2_def [symmetric] take_reply_nothing [OF m] r3_def [symmetric]
    using assms(3) s5 by (simp add: r4_def)
  have "trace L ch r4 = trace L ch r2" by (simp add: trace_def 4 3)
  also have "\<dots> = trace L ch r @ chunk_texts (skips_code r) (fst (asm_run L (held_deltas (order (turn_of L ch r))) (assembler (turn_of L ch r))))"
    using 2(1) 1 by (simp add: reads_def trace_def skips_code_def)
  finally have "trace L ch r4 = trace L ch r @
      chunk_texts (skips_code r) (fst (asm_run L (held_deltas (order (turn_of L ch r))) (assembler (turn_of L ch r))))" .
  moreover have "ahead (order (turn_of L ch r2)) = []" using 2(2) by (simp add: same_rest_def release_order_out)
  ultimately show ?thesis using eq rc4 by (intro exI [of _ r4]) (simp add: 4 3)
qed

text \<open>The turn end reads everything: the prose held by the reading mode and the deltas still waiting for their order
  are spoken, in order, and nothing stays held (any reading mode but \<open>final\<close>, which reads the reply
  instead).\<close>

theorem turn_end_reads_the_rest:
  assumes "reads_chunks r" "all_voiced (turn_of L ch r)" "\<not> is_stale ch trn t r" "read_mode (settings r) \<noteq> Final"
  shows "let s = snd (turn_end L ch trn t r) in
    spoken_prose ch (acts s) = spoken_prose ch (acts r) @ map fst (held_prose (turn_of L ch r)) @
      chunk_texts (skips_code r) (fst (asm_run L (held_deltas (order (turn_of L ch r))) (assembler (turn_of L ch r)))) \<and>
    held_prose (turn_of L ch s) = [] \<and> ahead (order (turn_of L ch s)) = [] \<and> ended (turn_of L ch s)"
proof -
  obtain u where u: "snd (turn_end L ch trn t r) = flush_prose L ch u" "reads_chunks u"
    "trace L ch u = trace L ch r @ chunk_texts (skips_code r)
      (fst (asm_run L (held_deltas (order (turn_of L ch r))) (assembler (turn_of L ch r))))"
    "ahead (order (turn_of L ch u)) = []" "ended (turn_of L ch u)"
    using turn_end_flushes [OF assms] by blast
  note f = flush_all_prose [OF u(2), of L ch]
  have "held_prose (turn_of L ch (flush_prose L ch u)) = []" using f by simp
  then have "spoken_prose ch (acts (flush_prose L ch u)) = trace L ch (flush_prose L ch u)" by (simp add: trace_def)
  also have "\<dots> = trace L ch u" using f by blast
  finally have "spoken_prose ch (acts (flush_prose L ch u)) = trace L ch u" .
  then show ?thesis unfolding u(1) Let_def using f u(3-5) by (simp add: trace_def)
qed

text \<open>A turn ends while its second delta still waits for the first.\<close>

theorem turn_end_reads_the_rest_witness:
  "let s = snd (turn_end plain_lib [97] None None (stream_all plain_lib [97] None None [([105], 1, True)] (new_rules default_settings))) in
     spoken_prose [97] (acts s) = [[105]] \<and> held_prose (turn_of plain_lib [97] s) = []"
proof -
  have early: "fst (fst (accept [105] (Suc 0) True new_order)) = []"
    "ahead (snd (accept [105] (Suc 0) True new_order)) = [(1, [105], True)]"
    by (simp_all add: accept_def new_order_def)
  define r where "r = stream_all plain_lib [97] None None [([105], 1, True)] (new_rules default_settings)"
  have r: "reads plain_lib [97] [] (new_rules default_settings) r" "plain_turn (turn_of plain_lib [97] r)"
    "\<not> is_stale [97] None None r" "same_order (snd (accept [105] 1 True new_order)) (order (turn_of plain_lib [97] r))"
    using stream_all_reads [of "new_rules default_settings" plain_lib "[97]" None None new_order "[([105], 1, True)]"]
    by (simp_all add: fresh_reading r_def arrivals_def case_prod_beta early)
  have "trace plain_lib [97] r = []"
    using r(1) by (simp add: reads_def chunk_texts_def trace_def fresh_reading spoken_prose_def List.map_filter_def)
  moreover have "held_deltas (order (turn_of plain_lib [97] r)) = [([105], 1, True)]"
    using r(4) by (simp add: same_order_def held_deltas_def early)
  moreover have "settings r = default_settings" "whole r = whole (new_rules default_settings :: unit rules)"
    using r(1) by (simp_all add: reads_def fresh_reading(8))
  moreover from this have "reads_chunks r"
    using fresh_reading(1,8) reads_chunks_cong [of r "new_rules default_settings"] by metis
  ultimately show ?thesis
    using turn_end_reads_the_rest [of r plain_lib "[97]" None None] r(2,3)
    by (simp add: Let_def plain_turn_def trace_def default_settings_def plain_asm chunk_texts_def r_def)
qed

end
