(* ===== verification/Earcon_Schedule.thy ===== *)
theory Earcon_Schedule imports Agent_Settings begin

text \<open>
  \<open>crates/sonara-agent/src/sequencer.rs\<close>: when each earcon starts, so that earcons never play over each
  other.

  An \<open>Instant\<close> and a \<open>Duration\<close> are counted in milliseconds, so an instant is a natural number. The
  \<open>VecDeque\<close> of slots is a list with the front first. \<open>length\<close> (the length of a clip in floating point
  seconds) is not modelled: a length is an argument.
\<close>

section \<open>The schedule\<close>

definition GAP :: nat where "GAP = 60"
definition MAX_EARCONS :: nat where "MAX_EARCONS = 3"
definition AFTER_KEY :: nat where "AFTER_KEY = 300"

text \<open>Why an earcon is not scheduled: the messages \<open>DUPLICATE\<close> and \<open>FULL\<close>.\<close>

datatype refusal = Duplicate | Full

record schedule =
  slots :: "(earcon \<times> nat \<times> nat) list"
  key_end :: "nat option"

definition new_schedule :: schedule where
  "new_schedule = \<lparr>slots = [], key_end = None\<rparr>"

definition key_sound :: "nat \<Rightarrow> nat \<Rightarrow> schedule \<Rightarrow> schedule" where
  "key_sound len now s =
     (let e = now + len
      in s\<lparr>key_end := Some (case key_end s of None \<Rightarrow> e | Some k \<Rightarrow> max k e)\<rparr>)"

definition floor_at :: "nat \<Rightarrow> schedule \<Rightarrow> nat" where
  "floor_at now s =
     (case key_end s of
        Some e \<Rightarrow> if now < e + AFTER_KEY then e + AFTER_KEY else now
      | None \<Rightarrow> now)"

definition admit :: "earcon \<Rightarrow> nat \<Rightarrow> nat \<Rightarrow> schedule \<Rightarrow> (refusal + nat) \<times> schedule" where
  "admit e len now s =
     (let s = s\<lparr>slots := filter (\<lambda>x. now < snd (snd x)) (slots s)\<rparr>;
          floor = floor_at now s
      in if slots s \<noteq> [] then
           (let (last_e, _, end) = last (slots s)
            in if last_e = e then (Inl Duplicate, s)
               else if MAX_EARCONS \<le> length (slots s) then (Inl Full, s)
               else (let start = max (end + GAP) floor
                     in (Inr start, s\<lparr>slots := slots s @ [(e, start, start + len)]\<rparr>)))
         else (Inr floor, s\<lparr>slots := slots s @ [(e, floor, floor + len)]\<rparr>))"

definition drop_waiting :: "nat \<Rightarrow> schedule \<Rightarrow> schedule" where
  "drop_waiting now s = s\<lparr>slots := filter (\<lambda>x. fst (snd x) \<le> now) (slots s)\<rparr>"

definition quiet_at :: "nat \<Rightarrow> schedule \<Rightarrow> nat" where
  "quiet_at now s =
     (let floor = floor_at now s
      in if slots s = [] then floor else max (snd (snd (last (slots s))) + GAP) floor)"

section \<open>A run of the schedule\<close>

text \<open>
  The agent calls the schedule at times that do not go back. \<open>sounds\<close> is what is heard of the calls: the
  earcons admitted, less those dropped before they started.
\<close>

datatype sched_call = Admit earcon nat | Key nat | Drop_Waiting

fun sched_step :: "nat \<times> sched_call \<Rightarrow> schedule \<times> (earcon \<times> nat \<times> nat) list \<Rightarrow>
    schedule \<times> (earcon \<times> nat \<times> nat) list" where
  "sched_step (now, Admit e len) (s, snds) =
     (case admit e len now s of
        (Inr start, t) \<Rightarrow> (t, snds @ [(e, start, start + len)])
      | (Inl _, t) \<Rightarrow> (t, snds))"
| "sched_step (now, Key len) (s, snds) = (key_sound len now s, snds)"
| "sched_step (now, Drop_Waiting) (s, snds) = (drop_waiting now s, filter (\<lambda>x. fst (snd x) \<le> now) snds)"

definition sched_run :: "(nat \<times> sched_call) list \<Rightarrow> schedule \<times> (earcon \<times> nat \<times> nat) list" where
  "sched_run calls = fold sched_step calls (new_schedule, [])"

definition apart :: "nat \<Rightarrow> earcon \<times> nat \<times> nat \<Rightarrow> earcon \<times> nat \<times> nat \<Rightarrow> bool" where
  "apart gap x y \<longleftrightarrow> snd (snd x) + gap \<le> fst (snd y)"

definition lasts :: "earcon \<times> nat \<times> nat \<Rightarrow> bool" where
  "lasts x \<longleftrightarrow> fst (snd x) \<le> snd (snd x)"

text \<open>
  The sounds heard never overlap; the slots are the last of them, \<open>GAP\<close> apart, at most \<open>MAX_EARCONS\<close>, no
  two neighbours equal, and every earlier sound ended by now.
\<close>

definition sched_ok :: "nat \<Rightarrow> schedule \<times> (earcon \<times> nat \<times> nat) list \<Rightarrow> bool" where
  "sched_ok now = (\<lambda>(s, snds).
     (\<exists>past. snds = past @ slots s \<and> (\<forall>x \<in> set past. snd (snd x) \<le> now)) \<and>
     sorted_wrt (apart 0) snds \<and> (\<forall>x \<in> set snds. lasts x) \<and> sorted_wrt (apart GAP) (slots s) \<and>
     length (slots s) \<le> MAX_EARCONS \<and> distinct_adj (map fst (slots s)))"

lemma floor_at_ge [simp]: "now \<le> floor_at now s"
  by (simp add: floor_at_def split: option.split)

lemma floor_at_slots [simp]: "floor_at now (s\<lparr>slots := x\<rparr>) = floor_at now s"
  by (simp add: floor_at_def)

lemma sched_ok_later: "sched_ok t (s, snds) \<Longrightarrow> t \<le> now \<Longrightarrow> sched_ok now (s, snds)"
  unfolding sched_ok_def by (auto intro: order_trans)

text \<open>What has not ended by a time is a suffix, as is what started by then a prefix.\<close>

lemma filter_suffix:
  assumes "sorted_wrt (apart g) xs" "\<forall>x \<in> set xs. lasts x"
  shows "\<exists>a. xs = a @ filter (\<lambda>x. now < snd (snd x)) xs \<and> (\<forall>x \<in> set a. snd (snd x) \<le> now)"
  using assms
proof (induction xs)
  case Nil
  then show ?case by simp
next
  case (Cons x xs)
  show ?case
  proof (cases "now < snd (snd x)")
    case True
    have "now < snd (snd y)" if "y \<in> set xs" for y
      using Cons.prems that True by (fastforce simp: apart_def lasts_def)
    then have "filter (\<lambda>x. now < snd (snd x)) (x # xs) = x # xs"
      using True by (auto simp: filter_id_conv case_prod_beta)
    then show ?thesis by (metis append_Nil empty_iff empty_set)
  next
    case False
    obtain a where "xs = a @ filter (\<lambda>x. now < snd (snd x)) xs" "\<forall>x \<in> set a. snd (snd x) \<le> now"
      using Cons by auto
    then show ?thesis using False by (intro exI [of _ "x # a"]) (auto simp: case_prod_beta)
  qed
qed

lemma filter_prefix:
  assumes "sorted_wrt (apart g) xs" "\<forall>x \<in> set xs. lasts x"
  shows "\<exists>n. filter (\<lambda>x. fst (snd x) \<le> now) xs = take n xs"
  using assms
proof (induction xs)
  case Nil
  then show ?case by simp
next
  case (Cons x xs)
  show ?case
  proof (cases "fst (snd x) \<le> now")
    case True
    then show ?thesis using Cons by (auto simp: case_prod_beta) (metis take_Suc_Cons)
  next
    case False
    have "\<not> fst (snd y) \<le> now" if "y \<in> set xs" for y
      using Cons.prems that False by (fastforce simp: apart_def lasts_def)
    then have "filter (\<lambda>x. fst (snd x) \<le> now) (x # xs) = []"
      using False by (auto simp: filter_empty_conv)
    then show ?thesis by (metis take0)
  qed
qed


lemma filter_prefix_fst:
  assumes "sorted_wrt (apart g) xs" "\<forall>x \<in> set xs. lasts x" "distinct_adj (map fst xs)"
  shows "let ys = filter (\<lambda>x. fst (snd x) \<le> now) xs in sorted_wrt (apart g) ys \<and> distinct_adj (map fst ys) \<and> length ys \<le> length xs"
proof -
  obtain n where n: "filter (\<lambda>x. fst (snd x) \<le> now) xs = take n xs" using filter_prefix [OF assms(1,2)] by blast
  have "distinct_adj (map fst (take n xs))" using assms(3) by (metis append_take_drop_id distinct_adj_append_iff map_append)
  then show ?thesis using assms(1) n by (simp add: sorted_wrt_take)
qed

lemma sched_step_ok:
  assumes "sched_ok now (s, snds)"
  shows "sched_ok now (sched_step (now, c) (s, snds))"
proof -
  obtain past where past: "snds = past @ slots s" "\<forall>x \<in> set past. snd (snd x) \<le> now"
    and ok: "sorted_wrt (apart 0) snds" "\<forall>x \<in> set snds. lasts x" "sorted_wrt (apart GAP) (slots s)"
      "length (slots s) \<le> MAX_EARCONS" "distinct_adj (map fst (slots s))"
    using assms by (auto simp: sched_ok_def)
  have l: "\<forall>x \<in> set (slots s). lasts x" using ok(2) past(1) by simp
  show ?thesis
  proof (cases c)
    case (Admit e len)
    define kept where "kept = filter (\<lambda>x. now < snd (snd x)) (slots s)"
    obtain gone where gone: "slots s = gone @ kept" "\<forall>x \<in> set gone. snd (snd x) \<le> now"
      using filter_suffix [OF ok(3) l, of now] unfolding kept_def by blast
    have k: "sorted_wrt (apart GAP) kept" "distinct_adj (map fst kept)" "length kept \<le> MAX_EARCONS"
      using ok(3-5) unfolding gone(1) by (auto simp: sorted_wrt_append distinct_adj_append_iff)
    have snds: "snds = (past @ gone) @ kept" "\<forall>x \<in> set (past @ gone). snd (snd x) \<le> now"
      using past gone by auto
    have keep: "sched_ok now (s\<lparr>slots := kept\<rparr>, snds)"
      unfolding sched_ok_def using snds ok(1,2) k by auto
    show ?thesis
    proof (cases "kept = []")
      case True
      then have "sched_step (now, c) (s, snds) =
          (s\<lparr>slots := [(e, floor_at now s, floor_at now s + len)]\<rparr>, snds @ [(e, floor_at now s, floor_at now s + len)])"
        by (simp add: Admit admit_def kept_def Let_def)
      moreover have "\<forall>x \<in> set snds. apart 0 x (e, floor_at now s, floor_at now s + len)"
        using snds True floor_at_ge [of now s] unfolding apart_def by (auto intro: order_trans)
      ultimately show ?thesis using snds True ok(1,2)
        by (auto simp: sched_ok_def sorted_wrt_append lasts_def MAX_EARCONS_def)
    next
      case False
      define start where "start = max (snd (snd (last kept)) + GAP) (floor_at now s)"
      have gap: "\<forall>x \<in> set kept. snd (snd x) + GAP \<le> start"
      proof
        fix x assume x: "x \<in> set kept"
        have "kept = butlast kept @ [last kept]" using False by simp
        then have "x = last kept \<or> apart GAP x (last kept)" using x k(1)
          by (metis (no_types, lifting) Un_iff empty_iff insert_iff list.set(1) list.simps(15) set_append sorted_wrt_append)
        moreover have "lasts (last kept)" using l False gone(1) by (simp add: last_in_set)
        ultimately show "snd (snd x) + GAP \<le> start" by (auto simp: start_def apart_def lasts_def)
      qed
      have "now \<le> start" unfolding start_def using floor_at_ge [of now s] by (simp add: le_max_iff_disj)
      then have before: "\<forall>x \<in> set snds. apart 0 x (e, start, start + len)"
        using snds gap unfolding apart_def by (auto intro: order_trans)
      have eq: "sched_step (now, c) (s, snds) =
          (if fst (last kept) = e \<or> MAX_EARCONS \<le> length kept then (s\<lparr>slots := kept\<rparr>, snds)
           else (s\<lparr>slots := kept @ [(e, start, start + len)]\<rparr>, snds @ [(e, start, start + len)]))"
        using False by (auto simp: Admit admit_def kept_def [symmetric] Let_def start_def case_prod_beta)
      show ?thesis
      proof (cases "fst (last kept) = e \<or> MAX_EARCONS \<le> length kept")
        case True
        then show ?thesis using keep by (simp add: eq)
      next
        case fresh: False
        have "distinct_adj (map fst (kept @ [(e, start, start + len)]))"
          using k(2) fresh False by (auto simp: distinct_adj_append_iff last_map)
        moreover have "sorted_wrt (apart GAP) (kept @ [(e, start, start + len)])"
          using k(1) gap by (simp add: sorted_wrt_append apart_def)
        moreover have "sorted_wrt (apart 0) (snds @ [(e, start, start + len)])"
          using ok(1) before by (simp add: sorted_wrt_append)
        moreover have "\<exists>p. snds @ [(e, start, start + len)] = p @ (kept @ [(e, start, start + len)]) \<and> (\<forall>x \<in> set p. snd (snd x) \<le> now)"
          using snds by (intro exI [of _ "past @ gone"]) simp
        ultimately show ?thesis using fresh ok(2)
          by (simp add: eq sched_ok_def lasts_def)
      qed
    qed
  next
    case (Key len)
    then show ?thesis using assms by (simp add: sched_ok_def key_sound_def Let_def)
  next
    case Drop_Waiting
    have p: "filter (\<lambda>x. fst (snd x) \<le> now) past = past"
      using past(2) ok(2) past(1) by (auto simp: filter_id_conv lasts_def intro: order_trans)
    have "sorted_wrt (apart 0) (filter (\<lambda>x. fst (snd x) \<le> now) snds)" using ok(1) by (rule sorted_wrt_filter)
    moreover have "length (filter (\<lambda>x. fst (snd x) \<le> now) (slots s)) \<le> MAX_EARCONS"
      using ok(4) length_filter_le [of "\<lambda>x. fst (snd x) \<le> now" "slots s"] by linarith
    ultimately show ?thesis
      using filter_prefix_fst [OF ok(3) l ok(5), of now] past p ok(2)
      by (auto simp: Drop_Waiting drop_waiting_def sched_ok_def Let_def)
  qed
qed


section \<open>Earcons never overlap\<close>

lemma fold_sched_ok:
  assumes "sched_ok t (s, snds)" "sorted (t # map fst calls)" "\<forall>c \<in> set calls. fst c \<le> now" "t \<le> now"
  shows "sched_ok now (fold sched_step calls (s, snds))"
  using assms
proof (induction calls arbitrary: t s snds)
  case Nil
  then show ?case using sched_ok_later by simp
next
  case (Cons c calls)
  obtain s1 snds1 where 1: "sched_step c (s, snds) = (s1, snds1)" by fastforce
  have "sched_ok (fst c) (s, snds)" using Cons.prems by (auto intro: sched_ok_later)
  then have "sched_ok (fst c) (s1, snds1)" using sched_step_ok [of "fst c" s snds "snd c"] 1 by simp
  then show ?case using Cons.IH [of "fst c" s1 snds1] Cons.prems 1 by simp
qed

lemma sched_run_ok:
  assumes "sorted (map fst calls)" "\<forall>c \<in> set calls. fst c \<le> now"
  shows "sched_ok now (sched_run calls)"
proof -
  have "sched_ok 0 (new_schedule, [])"
    by (simp add: sched_ok_def new_schedule_def)
  then show ?thesis using fold_sched_ok [of 0 new_schedule "[]" calls now] assms by (simp add: sched_run_def)
qed

text \<open>C22: Whatever is scheduled, keyed and dropped at times that do not go back, no earcon starts before the one
  heard before it ended, at most three wait or play, no two neighbours are the same, and what is told to
  start when the earcons are quiet starts after all of them.\<close>

theorem earcons_never_overlap:
  assumes "sorted (map fst calls)" "\<forall>c \<in> set calls. fst c \<le> now" "sched_run calls = (s, snds)"
  shows "sorted_wrt (\<lambda>(_, _, end1) (_, start2, _). end1 \<le> start2) snds \<and>
    length (slots s) \<le> 3 \<and> distinct_adj (map fst (slots s)) \<and>
    (\<forall>(e, start, end) \<in> set snds. end \<le> quiet_at now s) \<and>
    (\<forall>k. key_end s = Some k \<longrightarrow> now < k + AFTER_KEY \<longrightarrow> k + AFTER_KEY \<le> quiet_at now s)"
proof -
  have ok: "sched_ok now (s, snds)" using sched_run_ok [OF assms(1,2)] assms(3) by simp
  then obtain past where past: "snds = past @ slots s" "\<forall>x \<in> set past. snd (snd x) \<le> now"
    and o: "sorted_wrt (apart 0) snds" "\<forall>x \<in> set snds. lasts x" "sorted_wrt (apart GAP) (slots s)"
      "length (slots s) \<le> MAX_EARCONS" "distinct_adj (map fst (slots s))"
    by (auto simp: sched_ok_def)
  have "now \<le> quiet_at now s" by (simp add: quiet_at_def Let_def le_max_iff_disj)
  moreover have "snd (snd x) \<le> quiet_at now s" if "x \<in> set (slots s)" for x
  proof -
    have "slots s = butlast (slots s) @ [last (slots s)]" using that by (metis append_butlast_last_id empty_iff empty_set)
    then have "x = last (slots s) \<or> apart GAP x (last (slots s))" using that o(3)
      by (metis (no_types, lifting) Un_iff empty_iff insert_iff list.set(1) list.simps(15) set_append sorted_wrt_append)
    moreover have "last (slots s) \<in> set snds" using past(1) that by (cases "slots s") simp_all
    then have "lasts (last (slots s))" using o(2) by blast
    ultimately have "snd (snd x) \<le> snd (snd (last (slots s))) + GAP" by (auto simp: apart_def lasts_def)
    then show ?thesis using that by (auto simp: quiet_at_def Let_def le_max_iff_disj)
  qed
  ultimately have "\<forall>x \<in> set snds. snd (snd x) \<le> quiet_at now s" using past by (auto intro: order_trans)
  moreover have "floor_at now s \<le> quiet_at now s" by (simp add: quiet_at_def Let_def)
  moreover have "apart 0 = (\<lambda>(_, _, end1) (_, start2, _). end1 \<le> start2)" by (auto simp: apart_def fun_eq_iff)
  ultimately show ?thesis using o(1,4,5)
    by (auto simp: case_prod_beta MAX_EARCONS_def floor_at_def split: option.splits)
qed

text \<open>A turn ends and the session changes 2 ms later.\<close>

theorem earcons_never_overlap_witness:
  "let (s, snds) = sched_run [(0, Admit Turn_Done 750), (2, Admit Session_Change 1000)]
   in snds = [(Turn_Done, 0, 750), (Session_Change, 810, 1810)] \<and> 1810 \<le> quiet_at 2 s"
proof -
  have r: "sched_run [(0, Admit Turn_Done 750), (2, Admit Session_Change 1000)] =
     (\<lparr>slots = [(Turn_Done, 0, 750), (Session_Change, 810, 1810)], key_end = None\<rparr>,
      [(Turn_Done, 0, 750), (Session_Change, 810, 1810)])"
    by (simp add: sched_run_def new_schedule_def admit_def floor_at_def GAP_def MAX_EARCONS_def)
  have c: "sorted (map fst [(0, Admit Turn_Done 750), (2 :: nat, Admit Session_Change 1000)])"
    "\<forall>c \<in> set [(0, Admit Turn_Done 750), (2 :: nat, Admit Session_Change 1000)]. fst c \<le> 2" by simp_all
  show ?thesis unfolding r using earcons_never_overlap [OF c r] by simp
qed

end
