(* ===== verification/Unicode.thy ===== *)
theory Unicode imports Prelude begin

text \<open>
  The Unicode properties of characters the program uses: \<open>char::is_alphabetic\<close>, \<open>is_numeric\<close>, \<open>is_uppercase\<close>,
  \<open>is_lowercase\<close>, the class \<open>\d\<close> of regular expressions and \<open>str::to_lowercase\<close>. On ASCII they are written out,
  as the standard library has them; beyond, they are tables, and so parameters.
\<close>

definition is_ascii_digit :: "nat \<Rightarrow> bool" where
  "is_ascii_digit c \<longleftrightarrow> 48 \<le> c \<and> c \<le> 57"

definition is_ascii_upper :: "nat \<Rightarrow> bool" where
  "is_ascii_upper c \<longleftrightarrow> 65 \<le> c \<and> c \<le> 90"

definition is_ascii_lower :: "nat \<Rightarrow> bool" where
  "is_ascii_lower c \<longleftrightarrow> 97 \<le> c \<and> c \<le> 122"

definition is_ascii_alphabetic :: "nat \<Rightarrow> bool" where
  "is_ascii_alphabetic c \<longleftrightarrow> is_ascii_upper c \<or> is_ascii_lower c"

definition ascii_lower :: "nat \<Rightarrow> nat" where
  "ascii_lower c = (if is_ascii_upper c then c + 32 else c)"

definition to_ascii_lowercase :: "str \<Rightarrow> str" where
  "to_ascii_lowercase s = map ascii_lower s"

text \<open>The tables are read beyond ASCII only.\<close>

record unicode =
  digit_table :: "nat \<Rightarrow> bool"
  numeric_table :: "nat \<Rightarrow> bool"
  alphabetic_table :: "nat \<Rightarrow> bool"
  uppercase_table :: "nat \<Rightarrow> bool"
  lowercase_table :: "nat \<Rightarrow> bool"
  to_lowercase :: "str \<Rightarrow> str"

definition digit :: "'a unicode_scheme \<Rightarrow> nat \<Rightarrow> bool" where
  "digit U c \<longleftrightarrow> (if c < 128 then is_ascii_digit c else digit_table U c)"

definition alphabetic :: "'a unicode_scheme \<Rightarrow> nat \<Rightarrow> bool" where
  "alphabetic U c \<longleftrightarrow> (if c < 128 then is_ascii_alphabetic c else alphabetic_table U c)"

definition numeric :: "'a unicode_scheme \<Rightarrow> nat \<Rightarrow> bool" where
  "numeric U c \<longleftrightarrow> (if c < 128 then is_ascii_digit c else numeric_table U c)"

definition uppercase :: "'a unicode_scheme \<Rightarrow> nat \<Rightarrow> bool" where
  "uppercase U c \<longleftrightarrow> (if c < 128 then is_ascii_upper c else uppercase_table U c)"

definition lowercase :: "'a unicode_scheme \<Rightarrow> nat \<Rightarrow> bool" where
  "lowercase U c \<longleftrightarrow> (if c < 128 then is_ascii_lower c else lowercase_table U c)"

definition alphanumeric :: "'a unicode_scheme \<Rightarrow> nat \<Rightarrow> bool" where
  "alphanumeric U c \<longleftrightarrow> alphabetic U c \<or> numeric U c"

text \<open>Text in ASCII.\<close>

definition ascii :: unicode where
  "ascii =
     \<lparr>digit_table = (\<lambda>c. False), numeric_table = (\<lambda>c. False), alphabetic_table = (\<lambda>c. False),
      uppercase_table = (\<lambda>c. False), lowercase_table = (\<lambda>c. False), to_lowercase = map ascii_lower\<rparr>"

lemma ascii_alphanumeric: "c < 128 \<Longrightarrow> alphanumeric U c \<longleftrightarrow> is_ascii_alphabetic c \<or> is_ascii_digit c"
  by (simp add: alphanumeric_def alphabetic_def numeric_def)

lemma digit_alphanumeric: "is_ascii_digit c \<Longrightarrow> alphanumeric U c"
  by (simp add: alphanumeric_def numeric_def is_ascii_digit_def)

lemma no_alphanumeric:
  "c < 48 \<or> 57 < c \<and> c < 65 \<or> 90 < c \<and> c < 97 \<or> 122 < c \<and> c < 128 \<Longrightarrow> \<not> alphanumeric U c"
  by (auto simp: ascii_alphanumeric is_ascii_alphabetic_def is_ascii_upper_def is_ascii_lower_def is_ascii_digit_def)

end
