(* ===== verification/Numbers.thy ===== *)
theory Numbers imports Unicode begin

text \<open>
  \<open>crates/sonara-core/src/numbers.rs\<close>: numbers as they are said.

  A \<open>u64\<close> is a natural number below \<open>2 ^ 64\<close>. The tables are indexed as in the source; that no index is
  out of range is part of \<open>numbers_read_back\<close>, which reads the words of every \<open>u64\<close> back.
\<close>

section \<open>Words\<close>

definition ONES :: "str list" where
  "ONES = map lit [''zero'', ''one'', ''two'', ''three'', ''four'', ''five'', ''six'', ''seven'', ''eight'',
     ''nine'', ''ten'', ''eleven'', ''twelve'', ''thirteen'', ''fourteen'', ''fifteen'', ''sixteen'',
     ''seventeen'', ''eighteen'', ''nineteen'']"

definition TENS :: "str list" where
  "TENS = map lit ['''', '''', ''twenty'', ''thirty'', ''forty'', ''fifty'', ''sixty'', ''seventy'',
     ''eighty'', ''ninety'']"

definition SCALES :: "str list" where
  "SCALES = map lit ['''', ''thousand'', ''million'', ''billion'', ''trillion'', ''quadrillion'', ''quintillion'']"

definition below_hundred :: "nat \<Rightarrow> str" where
  "below_hundred n =
     (if n < 20 then ONES ! n
      else if n mod 10 = 0 then TENS ! (n div 10)
      else TENS ! (n div 10) @ lit '' '' @ ONES ! (n mod 10))"

definition below_thousand :: "nat \<Rightarrow> str" where
  "below_thousand n =
     (let (h, rest) = (n div 100, n mod 100)
      in if h = 0 then below_hundred rest
         else if rest = 0 then ONES ! h @ lit '' hundred''
         else ONES ! h @ lit '' hundred and '' @ below_hundred rest)"

text \<open>The groups of three digits, the lowest first (the \<open>while\<close> of \<open>cardinal\<close>).\<close>

fun digit_groups :: "nat \<Rightarrow> nat list" where
  "digit_groups m = (if m = 0 then [] else (m mod 1000) # digit_groups (m div 1000))"

declare digit_groups.simps [simp del]

text \<open>One turn of the loop over the groups.\<close>

definition group_part :: "nat \<Rightarrow> nat \<Rightarrow> nat \<Rightarrow> str option" where
  "group_part n i g =
     (if g = 0 then None
      else (let words = below_thousand g;
                words = (if i = 0 \<and> g < 100 \<and> 1 < n then lit ''and '' @ words else words)
            in Some (if i = 0 then words else words @ lit '' '' @ SCALES ! i)))"

definition cardinal :: "nat \<Rightarrow> str" where
  "cardinal n =
     (if n = 0 then lit ''zero''
      else (let groups = digit_groups n
            in join (lit '' '') (List.map_filter (\<lambda>(i, g). group_part (length groups) i g)
                 (rev (enumerate 0 groups)))))"

text \<open>\<open>str::parse::<u64>\<close>: an optional plus sign, then at least one digit, and no overflow.\<close>

definition parse_u64 :: "str \<Rightarrow> nat option" where
  "parse_u64 s =
     (let d = (case s of c # t \<Rightarrow> if c = 43 then t else s | [] \<Rightarrow> s);
          n = fold (\<lambda>c n. 10 * n + (c - 48)) d 0
      in if d \<noteq> [] \<and> (\<forall>c \<in> set d. is_ascii_digit c) \<and> n < 2 ^ 64 then Some n else None)"

definition spell_digits :: "str \<Rightarrow> str" where
  "spell_digits s =
     join (lit '' '') (map (\<lambda>d. ONES ! d)
       (List.map_filter (\<lambda>c. if is_ascii_digit c then Some (c - 48) else None) s))"

definition cardinal_str :: "str \<Rightarrow> str" where
  "cardinal_str digits = (case parse_u64 digits of Some n \<Rightarrow> cardinal n | None \<Rightarrow> spell_digits digits)"

text \<open>\<open>str::rsplit_once(' ')\<close>.\<close>

definition rsplit_space :: "str \<Rightarrow> (str \<times> str) option" where
  "rsplit_space s =
     (let l = takeWhile (\<lambda>c. c \<noteq> 32) (rev s)
      in if length l = length s then None
         else Some (take (length s - length l - 1) s, rev l))"

definition ordinal_word :: "str \<Rightarrow> str" where
  "ordinal_word w =
     (if w = lit ''one'' then lit ''first''
      else if w = lit ''two'' then lit ''second''
      else if w = lit ''three'' then lit ''third''
      else if w = lit ''five'' then lit ''fifth''
      else if w = lit ''eight'' then lit ''eighth''
      else if w = lit ''nine'' then lit ''ninth''
      else if w = lit ''twelve'' then lit ''twelfth''
      else if w \<noteq> [] \<and> last w = 121 then butlast w @ lit ''ieth''
      else w @ lit ''th'')"

definition ordinal :: "nat \<Rightarrow> str" where
  "ordinal n =
     (let words = cardinal n;
          (head, last) = (case rsplit_space words of Some (h, l) \<Rightarrow> (h @ lit '' '', l) | None \<Rightarrow> ([], words))
      in head @ ordinal_word last)"

definition year :: "nat \<Rightarrow> str" where
  "year y =
     (if \<not> (1000 \<le> y \<and> y \<le> 2099) then cardinal y
      else if 2000 \<le> y \<and> y < 2010 \<or> y mod 1000 = 0 then cardinal y
      else (let (hi, lo) = (y div 100, y mod 100)
            in below_hundred hi @ lit '' '' @
               (if lo = 0 then lit ''hundred''
                else if lo \<le> 9 then lit ''oh '' @ ONES ! lo
                else below_hundred lo)))"

definition plural_number :: "str \<Rightarrow> str" where
  "plural_number w = (if w \<noteq> [] \<and> last w = 121 then butlast w @ lit ''ies'' else w @ lit ''s'')"

definition decimal :: "str \<Rightarrow> str \<Rightarrow> str" where
  "decimal int_part frac =
     (let whole = (if int_part = [] then [] else cardinal_str (filter (\<lambda>c. c \<noteq> 44) int_part) @ lit '' '')
      in if frac = [] then trim_end whole else whole @ lit ''point '' @ spell_digits frac)"

section \<open>Reading numbers\<close>

text \<open>
  The grammar of English number words, written apart from the code: what a word adds to the number read
  so far, the group of three digits it is in and the groups before it. An ordinal word counts as its
  cardinal.
\<close>

datatype number_word = Plus nat | Times_Hundred | Scale nat | And_Word

definition number_words :: "(str \<times> number_word) list" where
  "number_words = map (\<lambda>(w, t). (lit w, t))
     [(''zero'', Plus 0), (''one'', Plus 1), (''two'', Plus 2), (''three'', Plus 3), (''four'', Plus 4),
      (''five'', Plus 5), (''six'', Plus 6), (''seven'', Plus 7), (''eight'', Plus 8), (''nine'', Plus 9),
      (''ten'', Plus 10), (''eleven'', Plus 11), (''twelve'', Plus 12), (''thirteen'', Plus 13),
      (''fourteen'', Plus 14), (''fifteen'', Plus 15), (''sixteen'', Plus 16), (''seventeen'', Plus 17),
      (''eighteen'', Plus 18), (''nineteen'', Plus 19), (''twenty'', Plus 20), (''thirty'', Plus 30),
      (''forty'', Plus 40), (''fifty'', Plus 50), (''sixty'', Plus 60), (''seventy'', Plus 70),
      (''eighty'', Plus 80), (''ninety'', Plus 90), (''hundred'', Times_Hundred), (''thousand'', Scale 1),
      (''million'', Scale 2), (''billion'', Scale 3), (''trillion'', Scale 4), (''quadrillion'', Scale 5),
      (''quintillion'', Scale 6), (''and'', And_Word)]"

definition ordinal_words :: "(str \<times> number_word) list" where
  "ordinal_words = map (\<lambda>(w, t). (lit w, t))
     [(''zeroth'', Plus 0), (''first'', Plus 1), (''second'', Plus 2), (''third'', Plus 3), (''fourth'', Plus 4),
      (''fifth'', Plus 5), (''sixth'', Plus 6), (''seventh'', Plus 7), (''eighth'', Plus 8), (''ninth'', Plus 9),
      (''tenth'', Plus 10), (''eleventh'', Plus 11), (''twelfth'', Plus 12), (''thirteenth'', Plus 13),
      (''fourteenth'', Plus 14), (''fifteenth'', Plus 15), (''sixteenth'', Plus 16), (''seventeenth'', Plus 17),
      (''eighteenth'', Plus 18), (''nineteenth'', Plus 19), (''twentieth'', Plus 20), (''thirtieth'', Plus 30),
      (''fortieth'', Plus 40), (''fiftieth'', Plus 50), (''sixtieth'', Plus 60), (''seventieth'', Plus 70),
      (''eightieth'', Plus 80), (''ninetieth'', Plus 90), (''hundredth'', Times_Hundred),
      (''thousandth'', Scale 1), (''millionth'', Scale 2), (''billionth'', Scale 3), (''trillionth'', Scale 4),
      (''quadrillionth'', Scale 5), (''quintillionth'', Scale 6)]"

fun add_word :: "number_word \<Rightarrow> nat \<times> nat \<Rightarrow> nat \<times> nat" where
  "add_word (Plus n) (t, g) = (t, g + n)"
| "add_word Times_Hundred (t, g) = (t, 100 * g)"
| "add_word (Scale k) (t, g) = (t + g * 1000 ^ k, 0)"
| "add_word And_Word (t, g) = (t, g)"

definition word_of :: "str \<Rightarrow> number_word option" where
  "word_of w = map_of (number_words @ ordinal_words) w"

fun read_words :: "str list \<Rightarrow> nat \<times> nat \<Rightarrow> (nat \<times> nat) option" where
  "read_words [] st = Some st"
| "read_words (w # ws) st =
     (case word_of w of None \<Rightarrow> None | Some t \<Rightarrow> read_words ws (add_word t st))"

definition read_number :: "str \<Rightarrow> nat option" where
  "read_number s = map_option (\<lambda>(t, g). t + g) (read_words (split_whitespace s) (0, 0))"


section \<open>Words and spaces\<close>

definition one_word :: "str \<Rightarrow> bool" where
  "one_word w \<longleftrightarrow> w \<noteq> [] \<and> (\<forall>c \<in> set w. \<not> is_whitespace c)"

lemma words_from_space: "words_from w (s @ 32 # t) = words_from w s @ words_from [] t"
  by (induction w s rule: words_from.induct) (auto simp: is_whitespace_def)

lemma words_from_one_word: "\<forall>c \<in> set s. \<not> is_whitespace c \<Longrightarrow> words_from v s = (if v @ s = [] then [] else [v @ s])"
  by (induction v s rule: words_from.induct) auto

lemma split_one_word: "one_word w \<Longrightarrow> split_whitespace w = [w]"
  by (simp add: one_word_def split_whitespace_def words_from_one_word)

lemma split_join: "\<forall>w \<in> set ws. one_word w \<Longrightarrow> split_whitespace (join [32] ws) = ws"
proof (induction "[32] :: str" ws rule: join.induct)
  case (3 s t ts)
  then show ?case
    using split_one_word [of s] words_from_space [of "[]" s "join [32] (t # ts)"]
    by (simp add: split_whitespace_def)
qed (simp_all add: split_one_word, simp add: split_whitespace_def)

definition cardinal_words :: "str list" where
  "cardinal_words = map fst (butlast number_words)"

definition and_word :: str where
  "and_word = lit ''and''"

lemmas number_tables =
  number_words_def [simplified] ordinal_words_def [simplified] ONES_def [simplified] TENS_def [simplified]
  SCALES_def [simplified]

lemma cardinal_words_eval: "cardinal_words = map fst (butlast number_words)"
  by (simp add: cardinal_words_def)

lemmas cardinal_words_list = cardinal_words_eval [simplified number_tables, simplified]

lemma vocabulary: "\<forall>w \<in> set (and_word # cardinal_words). one_word w"
  by (simp add: cardinal_words_list and_word_def one_word_def is_whitespace_def)

lemma words_distinct: "distinct (map fst (number_words @ ordinal_words))"
  by (simp add: number_tables)

lemma word_of_table: "(w, t) \<in> set (number_words @ ordinal_words) \<Longrightarrow> word_of w = Some t"
  unfolding word_of_def by (rule map_of_is_SomeI [OF words_distinct])

lemma ordinal_pairs: "map (\<lambda>(w, t). (ordinal_word w, t)) (butlast number_words) = ordinal_words"
  by (simp add: ordinal_word_def number_tables)

lemma ordinal_one_word: "\<forall>w \<in> set (map fst ordinal_words). one_word w"
  by (simp add: one_word_def is_whitespace_def number_tables)

lemma ordinal_vocabulary:
  assumes "w \<in> set cardinal_words"
  shows "one_word (ordinal_word w) \<and> word_of (ordinal_word w) = word_of w"
proof -
  obtain t where t: "(w, t) \<in> set (butlast number_words)" using assms by (auto simp: cardinal_words_def)
  then have "(ordinal_word w, t) \<in> set ordinal_words" using ordinal_pairs by (metis (no_types, lifting) case_prod_conv image_eqI set_map)
  then show ?thesis using t word_of_table [of w t] word_of_table [of "ordinal_word w" t] ordinal_one_word in_set_butlastD [OF t] by force
qed

lemma ones_table: "\<forall>i \<in> set [0..<20]. (ONES ! i, Plus i) \<in> set (butlast number_words)"
  by (simp add: upt_rec number_tables)

lemma tens_table: "\<forall>i \<in> set [2..<10]. (TENS ! i, Plus (10 * i)) \<in> set (butlast number_words)"
  by (simp add: upt_rec number_tables)

lemma scales_table: "\<forall>i \<in> set [1..<7]. (SCALES ! i, Scale i) \<in> set (butlast number_words)"
  by (simp add: upt_rec number_tables)

lemma table_word:
  "(w, t) \<in> set (butlast number_words) \<Longrightarrow> w \<in> set cardinal_words \<and> word_of w = Some t"
  using word_of_table [of w t] by (force simp: cardinal_words_def dest: in_set_butlastD)

lemma ones_word: "i < 20 \<Longrightarrow> ONES ! i \<in> set cardinal_words \<and> word_of (ONES ! i) = Some (Plus i)"
  by (intro table_word bspec [OF ones_table]) simp

lemma tens_word: "2 \<le> i \<Longrightarrow> i < 10 \<Longrightarrow> TENS ! i \<in> set cardinal_words \<and> word_of (TENS ! i) = Some (Plus (10 * i))"
  by (intro table_word bspec [OF tens_table]) (simp only: set_upt atLeastLessThan_iff)

lemma scale_word: "0 < i \<Longrightarrow> i < 7 \<Longrightarrow> SCALES ! i \<in> set cardinal_words \<and> word_of (SCALES ! i) = Some (Scale i)"
  by (intro table_word bspec [OF scales_table]) simp

lemma other_words: "lit ''hundred'' \<in> set cardinal_words \<and> word_of (lit ''hundred'') = Some Times_Hundred"
  "lit ''zero'' \<in> set cardinal_words \<and> word_of (lit ''zero'') = Some (Plus 0)" "word_of and_word = Some And_Word"
  using table_word [of "lit ''hundred''" Times_Hundred] table_word [of "lit ''zero''" "Plus 0"]
  by (simp_all add: number_tables and_word_def word_of_def)


section \<open>What a number is made of\<close>

text \<open>A number as words of the vocabulary, the last one not \<open>and\<close>.\<close>

definition said :: "str \<Rightarrow> str list \<Rightarrow> bool" where
  "said s ws \<longleftrightarrow> s = join [32] ws \<and> ws \<noteq> [] \<and> set ws \<subseteq> set (and_word # cardinal_words) \<and> last ws \<in> set cardinal_words"

lemma said_word: "w \<in> set cardinal_words \<Longrightarrow> said w [w]"
  by (simp add: said_def)

lemma said_pair: "said a xs \<Longrightarrow> said b ys \<Longrightarrow> said (a @ 32 # b) (xs @ ys)"
  by (auto simp: said_def join_append)

lemma said_and: "said b ys \<Longrightarrow> said (lit ''and '' @ b) (and_word # ys)"
  by (cases ys) (auto simp: said_def and_word_def)

lemma read_words_append: "read_words (xs @ ys) st = Option.bind (read_words xs st) (read_words ys)"
  by (induction xs arbitrary: st) (auto split: option.split)

text \<open>\<open>n\<close> is said so that the words add it to the group being read.\<close>

definition says :: "nat \<Rightarrow> str \<Rightarrow> bool" where
  "says n s \<longleftrightarrow> (\<exists>ws. said s ws \<and> (\<forall>t. read_words ws (t, 0) = Some (t, n)))"

lemma below_hundred_words:
  assumes "n < 100"
  shows "\<exists>ws. said (below_hundred n) ws \<and> (\<forall>t g. read_words ws (t, g) = Some (t, g + n))"
proof (cases "n < 20")
  case True
  then show ?thesis
    using ones_word [OF True] said_word [of "ONES ! n"] by (auto simp: below_hundred_def intro!: exI [of _ "[ONES ! n]"])
next
  case False
  have d: "2 \<le> n div 10" "n div 10 < 10" "n mod 10 < 20" using assms False by auto
  note w = tens_word [OF d(1,2)] ones_word [OF d(3)]
  have n: "10 * (n div 10) + n mod 10 = n" by simp
  show ?thesis
  proof (cases "n mod 10 = 0")
    case True
    have "10 * (n div 10) = n" using n True by linarith
    then show ?thesis using w(1) said_word [of "TENS ! (n div 10)"] True False
      by (auto simp: below_hundred_def intro!: exI [of _ "[TENS ! (n div 10)]"])
  next
    case mod: False
    have "said (below_hundred n) ([TENS ! (n div 10)] @ [ONES ! (n mod 10)])"
      using said_pair [OF said_word said_word] w False mod by (simp add: below_hundred_def)
    moreover have "read_words ([TENS ! (n div 10)] @ [ONES ! (n mod 10)]) (t, g) = Some (t, g + n)" for t g
      using w n by (simp add: add.assoc)
    ultimately show ?thesis by blast
  qed
qed

lemma below_thousand_words:
  assumes "n < 1000"
  shows "says n (below_thousand n)"
proof -
  have d: "n div 100 < 20" "n mod 100 < 100" using assms by auto
  have n: "100 * (n div 100) + n mod 100 = n" by simp
  note one = ones_word [OF d(1)]
  obtain ws where ws: "said (below_hundred (n mod 100)) ws" "\<And>t g. read_words ws (t, g) = Some (t, g + n mod 100)"
    using below_hundred_words [OF d(2)] by blast
  have hundred: "said (ONES ! (n div 100) @ lit '' hundred'') [ONES ! (n div 100), lit ''hundred'']"
    using said_pair [OF said_word said_word, of "ONES ! (n div 100)" "lit ''hundred''"] one other_words(1) by simp
  consider (small) "n div 100 = 0" | (round) "n div 100 \<noteq> 0" "n mod 100 = 0" | (full) "n div 100 \<noteq> 0" "n mod 100 \<noteq> 0"
    by blast
  then show ?thesis
  proof cases
    case small
    then show ?thesis using ws n by (auto simp: says_def below_thousand_def Let_def)
  next
    case round
    have "100 * (n div 100) = n" using n round by linarith
    then show ?thesis using hundred one other_words(1) round unfolding says_def below_thousand_def Let_def
      by (intro exI [of _ "[ONES ! (n div 100), lit ''hundred'']"]) (simp del: lit_Cons)
  next
    case full
    have "said (ONES ! (n div 100) @ lit '' hundred and '' @ below_hundred (n mod 100))
        ([ONES ! (n div 100), lit ''hundred''] @ (and_word # ws))"
      using said_pair [OF hundred said_and [OF ws(1)]] by simp
    moreover have "read_words ([ONES ! (n div 100), lit ''hundred''] @ (and_word # ws)) (t, 0) = Some (t, n)" for t
      using one other_words(1,3) ws(2) n by (simp del: lit_Cons)
    ultimately show ?thesis using full unfolding says_def below_thousand_def Let_def
      by (intro exI [of _ "[ONES ! (n div 100), lit ''hundred''] @ (and_word # ws)"]) (simp del: lit_Cons)
  qed
qed

section \<open>Groups of three digits\<close>

fun groups_value :: "nat list \<Rightarrow> nat" where
  "groups_value [] = 0"
| "groups_value (g # gs) = g + 1000 * groups_value gs"

lemma digit_groups_value: "groups_value (digit_groups n) = n"
  by (induction n rule: digit_groups.induct) (subst digit_groups.simps, simp)

lemma digit_groups_less: "g \<in> set (digit_groups n) \<Longrightarrow> g < 1000"
  by (induction n rule: digit_groups.induct) (subst (asm) (2) digit_groups.simps, auto split: if_splits)

lemma digit_groups_length: "n < 1000 ^ k \<Longrightarrow> length (digit_groups n) \<le> k"
proof (induction n arbitrary: k rule: digit_groups.induct)
  case (1 m)
  show ?case
  proof (cases "m = 0")
    case True
    then show ?thesis by (simp add: digit_groups.simps)
  next
    case False
    then obtain j where k: "k = Suc j" using 1(2) by (cases k) auto
    have "m div 1000 < 1000 ^ j" using 1(2) k by (simp add: less_mult_imp_div_less mult.commute)
    then show ?thesis using 1(1) [OF False] False k by (subst digit_groups.simps) simp
  qed
qed


text \<open>The parts of the groups from index \<open>k\<close> up, the highest first.\<close>

definition parts_from :: "nat \<Rightarrow> nat \<Rightarrow> nat list \<Rightarrow> str list" where
  "parts_from n k gs = List.map_filter (\<lambda>(i, g). group_part n i g) (rev (enumerate k gs))"

lemma parts_from_Cons:
  "parts_from n k (g # gs) = parts_from n (k + 1) gs @ (case group_part n k g of None \<Rightarrow> [] | Some p \<Rightarrow> [p])"
  by (auto simp: parts_from_def List.map_filter_def split: option.split)

lemma group_part_words:
  assumes "g < 1000" "0 < i" "i < 7" "g \<noteq> 0"
  shows "\<exists>p ws. group_part n i g = Some p \<and> said p ws \<and> (\<forall>t. read_words ws (t, 0) = Some (t + g * 1000 ^ i, 0))"
proof -
  obtain ws where ws: "said (below_thousand g) ws" "\<And>t. read_words ws (t, 0) = Some (t, g)"
    using below_thousand_words [OF assms(1)] by (auto simp: says_def)
  note s = scale_word [OF assms(2,3)]
  have "said (below_thousand g @ 32 # SCALES ! i) (ws @ [SCALES ! i])" using said_pair [OF ws(1) said_word] s by simp
  moreover have "read_words (ws @ [SCALES ! i]) (t, 0) = Some (t + g * 1000 ^ i, 0)" for t
    using ws(2) s by (simp add: read_words_append)
  ultimately show ?thesis using assms by (auto simp: group_part_def)
qed

text \<open>Parts joined by spaces, perhaps none.\<close>

definition said_parts :: "str list \<Rightarrow> str list \<Rightarrow> bool" where
  "said_parts ps ws \<longleftrightarrow> (ps = [] \<and> ws = [] \<or> ps \<noteq> [] \<and> said (join [32] ps) ws)"

lemma said_parts_snoc:
  assumes "said_parts ps ws" "said p vs"
  shows "said_parts (ps @ [p]) (ws @ vs)"
  using assms said_pair [of "join [32] ps" ws p vs] by (auto simp: said_parts_def join_append)

lemma parts_from_words:
  assumes "0 < k" "k + length gs \<le> 7" "\<forall>g \<in> set gs. g < 1000"
  shows "\<exists>ws. said_parts (parts_from n k gs) ws \<and>
    (\<forall>t. read_words ws (t, 0) = Some (t + 1000 ^ k * groups_value gs, 0)) \<and> (ws = [] \<longleftrightarrow> groups_value gs = 0)"
  using assms
proof (induction gs arbitrary: k)
  case Nil
  then show ?case by (simp add: parts_from_def List.map_filter_def said_parts_def)
next
  case (Cons g gs)
  obtain ws where ws: "said_parts (parts_from n (k + 1) gs) ws"
    "\<And>t. read_words ws (t, 0) = Some (t + 1000 ^ (k + 1) * groups_value gs, 0)" "ws = [] \<longleftrightarrow> groups_value gs = 0"
    using Cons.IH [of "k + 1"] Cons.prems by auto
  show ?case
  proof (cases "g = 0")
    case True
    then have "parts_from n k (g # gs) = parts_from n (k + 1) gs"
      by (simp add: parts_from_Cons group_part_def)
    then show ?thesis using ws True by (intro exI [of _ ws]) (simp add: mult.assoc mult.left_commute)
  next
    case False
    obtain p vs where p: "group_part n k g = Some p" "said p vs"
      "\<And>t. read_words vs (t, 0) = Some (t + g * 1000 ^ k, 0)"
      using group_part_words [of g k n] Cons.prems False by auto
    have "said_parts (parts_from n k (g # gs)) (ws @ vs)"
      using said_parts_snoc [OF ws(1) p(2)] p(1) by (simp add: parts_from_Cons)
    moreover have "read_words (ws @ vs) (t, 0) = Some (t + 1000 ^ k * groups_value (g # gs), 0)" for t
      using ws(2) p(3) by (simp add: read_words_append algebra_simps)
    moreover have "vs \<noteq> []" using p(2) by (auto simp: said_def)
    ultimately show ?thesis using False by (intro exI [of _ "ws @ vs"]) simp
  qed
qed

lemma cardinal_is_said:
  assumes "n < 2 ^ 64"
  shows "\<exists>ws t g. said (cardinal n) ws \<and> read_words ws (0, 0) = Some (t, g) \<and> t + g = n"
proof (cases "n = 0")
  case True
  then show ?thesis using said_word [of "lit ''zero''"] other_words(2)
    by (intro exI [of _ "[lit ''zero'']"] exI [of _ 0]) (simp add: cardinal_def del: lit_Cons)
next
  case False
  define gs where "gs = digit_groups n"
  obtain g0 rest where gs: "gs = g0 # rest" using False digit_groups.simps [of n] by (simp add: gs_def)
  have "length gs \<le> 7" unfolding gs_def using assms by (intro digit_groups_length) simp
  moreover have less: "\<forall>g \<in> set gs. g < 1000" using digit_groups_less by (simp add: gs_def)
  ultimately obtain ws where ws: "said_parts (parts_from (length gs) 1 rest) ws"
    "read_words ws (0, 0) = Some (1000 * groups_value rest, 0)" "ws = [] \<longleftrightarrow> groups_value rest = 0"
    using parts_from_words [of 1 rest "length gs"] gs by auto
  have v: "g0 + 1000 * groups_value rest = n" using digit_groups_value [of n] gs by (simp add: gs_def)
  have card: "cardinal n = join [32] (parts_from (length gs) 0 gs)"
    using False by (simp add: cardinal_def parts_from_def gs_def [symmetric])
  show ?thesis
  proof (cases "g0 = 0")
    case True
    then have "parts_from (length gs) 0 gs = parts_from (length gs) 1 rest"
      by (simp add: gs parts_from_Cons group_part_def)
    moreover have "ws \<noteq> []" using ws(3) v True False by auto
    ultimately have "said (cardinal n) ws" using ws(1) by (simp add: card said_parts_def)
    then show ?thesis using ws(2) v True by auto
  next
    case False
    obtain vs where vs: "said (below_thousand g0) vs" "\<And>t. read_words vs (t, 0) = Some (t, g0)"
      using below_thousand_words [of g0] less by (auto simp: gs says_def)
    define us where "us = (if g0 < 100 \<and> 1 < length gs then and_word # vs else vs)"
    define p where "p = (if g0 < 100 \<and> 1 < length gs then lit ''and '' @ below_thousand g0 else below_thousand g0)"
    have p: "group_part (length gs) 0 g0 = Some p" "said p us" "\<And>t. read_words us (t, 0) = Some (t, g0)"
      using vs said_and [OF vs(1)] other_words(3) False
      by (simp_all add: group_part_def us_def p_def Let_def del: lit_Cons)
    have "parts_from (length gs) 0 gs = parts_from (length gs) 1 rest @ [p]"
      using p(1) by (simp add: gs parts_from_Cons)
    then have "said (cardinal n) (ws @ us)"
      using said_parts_snoc [OF ws(1) p(2)] by (simp add: card said_parts_def)
    moreover have "read_words (ws @ us) (0, 0) = Some (1000 * groups_value rest, g0)"
      using ws(2) p(3) by (simp add: read_words_append)
    ultimately show ?thesis using v by auto
  qed
qed

section \<open>Ordinals\<close>

lemma rsplit_space_none: "one_word w \<Longrightarrow> rsplit_space w = None"
proof -
  assume "one_word w"
  then have "\<forall>c \<in> set (rev w). c \<noteq> 32" by (auto simp: one_word_def is_whitespace_def)
  then have "takeWhile (\<lambda>c. c \<noteq> 32) (rev w) = rev w" by (simp add: takeWhile_eq_all_conv)
  then show ?thesis unfolding rsplit_space_def Let_def by (metis length_rev)
qed

lemma rsplit_space_some: "one_word w \<Longrightarrow> rsplit_space (a @ 32 # w) = Some (a, w)"
proof -
  assume "one_word w"
  then have "\<forall>c \<in> set (rev w). c \<noteq> 32" by (auto simp: one_word_def is_whitespace_def)
  then have "takeWhile (\<lambda>c. c \<noteq> 32) (rev (a @ 32 # w)) = rev w" by (simp add: takeWhile_append takeWhile_eq_all_conv)
  then show ?thesis by (simp add: rsplit_space_def)
qed

lemma ordinal_of_said:
  assumes "said (cardinal n) (us @ [w])"
  shows "ordinal n = join [32] (us @ [ordinal_word w])"
proof (cases "us = []")
  case True
  then show ?thesis using assms rsplit_space_none [of w] vocabulary by (simp add: said_def ordinal_def)
next
  case False
  then have "cardinal n = join [32] us @ 32 # w" using assms by (simp add: said_def join_append)
  moreover have "one_word w" using assms vocabulary by (auto simp: said_def)
  ultimately show ?thesis using False by (simp add: ordinal_def rsplit_space_some join_append)
qed

text \<open>C23: Reading the words of a number back gives the number, as a cardinal and as an ordinal, for every
  \<open>u64\<close>; so the words of two numbers differ, and no table is indexed out of range.\<close>

theorem numbers_read_back:
  assumes "n < 2 ^ 64"
  shows "read_number (cardinal n) = Some n \<and> read_number (ordinal n) = Some n"
proof -
  obtain ws t g where ws: "said (cardinal n) ws" "read_words ws (0, 0) = Some (t, g)" "t + g = n"
    using cardinal_is_said [OF assms] by blast
  then obtain us w where w: "ws = us @ [w]" by (cases ws rule: rev_cases) (auto simp: said_def)
  have one_word: "\<forall>v \<in> set ws. one_word v" using ws(1) vocabulary by (auto simp: said_def)
  have v: "w \<in> set cardinal_words" using ws(1) w by (simp add: said_def)
  have "split_whitespace (cardinal n) = ws" using ws(1) split_join [OF one_word] by (simp add: said_def)
  moreover have "split_whitespace (ordinal n) = us @ [ordinal_word w]"
    using ordinal_of_said [of n us w] ws(1) w one_word ordinal_vocabulary [OF v] split_join [of "us @ [ordinal_word w]"] by simp
  moreover have "read_words (us @ [ordinal_word w]) (0, 0) = read_words ws (0, 0)"
    using ordinal_vocabulary [OF v] by (cases "read_words us (0, 0)") (simp_all add: w read_words_append)
  ultimately show ?thesis using ws(2,3) by (simp add: read_number_def)
qed

text \<open>The largest \<open>u64\<close>.\<close>

theorem numbers_read_back_witness:
  "read_number (cardinal 18446744073709551615) = Some 18446744073709551615 \<and>
   read_number (ordinal 12) = Some 12"
  using numbers_read_back [of 18446744073709551615] numbers_read_back [of 12] by simp

end
