(* ===== verification/Tables.thy ===== *)
theory Tables imports Prelude "HOL-Library.Sublist" begin

text \<open>
  \<open>crates/sonara-core/src/table.rs\<close>: Markdown tables read row by row.

  A byte offset of the source is an offset in characters here: it is only used to cut the text at it.
  The lines of \<open>split_inclusive\<close> are walked with the offset of the first, as the loops of the source do.
\<close>

section \<open>Lines\<close>

text \<open>\<open>str::split_inclusive('\n')\<close>.\<close>

fun lines_incl_from :: "str \<Rightarrow> str \<Rightarrow> str list" where
  "lines_incl_from l [] = (if l = [] then [] else [l])"
| "lines_incl_from l (c # s) = (if c = 10 then (l @ [c]) # lines_incl_from [] s else lines_incl_from (l @ [c]) s)"

definition lines_incl :: "str \<Rightarrow> str list" where
  "lines_incl s = lines_incl_from [] s"

definition ends_nl :: "str \<Rightarrow> bool" where
  "ends_nl l \<longleftrightarrow> l \<noteq> [] \<and> last l = 10"

section \<open>Cells\<close>

text \<open>\<open>'|'\<close>, \<open>':'\<close>, \<open>'-'\<close>, a space or a tab.\<close>

definition separator_char :: "nat \<Rightarrow> bool" where
  "separator_char c \<longleftrightarrow> c = 124 \<or> c = 58 \<or> c = 45 \<or> c = 32 \<or> c = 9"

definition is_separator :: "str \<Rightarrow> bool" where
  "is_separator line = (let t = trim line in 45 \<in> set t \<and> (\<forall>c \<in> set t. separator_char c))"

definition is_separator_start :: "str \<Rightarrow> bool" where
  "is_separator_start line \<longleftrightarrow> (\<forall>c \<in> set line. separator_char c)"

text \<open>The loop of \<open>cells\<close>: \<open>cur\<close> is the last cell so far.\<close>

fun split_cells :: "str \<Rightarrow> str \<Rightarrow> str list" where
  "split_cells cur [] = [cur]"
| "split_cells cur (c # s) =
     (if c = 92 \<and> s \<noteq> [] \<and> hd s = 124 then split_cells (cur @ [124]) (tl s)
      else if c = 124 then cur # split_cells [] s
      else split_cells (cur @ [c]) s)"

definition cells :: "str \<Rightarrow> str list" where
  "cells line =
     (let t = trim line;
          t = (case t of c # s \<Rightarrow> if c = 124 then s else t | [] \<Rightarrow> t);
          t = (if suffix [124] t \<and> \<not> suffix [92, 124] t then butlast t else t)
      in map trim (split_cells [] t))"

definition separates :: "str \<Rightarrow> str \<Rightarrow> bool" where
  "separates head sep \<longleftrightarrow> is_separator sep \<and> length (cells sep) = length (cells head)"

section \<open>Rows\<close>

definition row_part :: "str list \<Rightarrow> nat \<Rightarrow> str \<Rightarrow> str" where
  "row_part header i value =
     (let part =
        (case get header i of
           Some h \<Rightarrow> if h \<noteq> [] then h @ lit '': '' @ value else value
         | None \<Rightarrow> value)
      in if part \<noteq> [] \<and> last part \<in> {46, 33, 63} then part else part @ [46])"

definition speak_row :: "str list \<Rightarrow> str list \<Rightarrow> str" where
  "speak_row header row =
     join (lit '' '') (map (\<lambda>(i, value). row_part header i value)
       (filter (\<lambda>(i, value). value \<noteq> []) (enumerate 0 row)))"

text \<open>The rows under a header: the end of the table and the rows as sentences.\<close>

fun table_rows :: "str list \<Rightarrow> nat \<Rightarrow> nat \<Rightarrow> str list \<Rightarrow> nat \<times> str list" where
  "table_rows header end at [] = (end, [])"
| "table_rows header end at (line # ls) =
     (if 124 \<notin> set line \<or> trim line = [] then (end, [])
      else (let spoken = speak_row header (cells line);
                (e, rows) = table_rows header (at + length line) (at + length line) ls
            in (e, if spoken \<noteq> [] then spoken # rows else rows)))"

record table =
  table_start :: nat
  table_end :: nat
  rows :: "str list"

fun find_from :: "nat \<Rightarrow> str list \<Rightarrow> table option" where
  "find_from at (head # sep # ls) =
     (if 124 \<notin> set head \<or> \<not> separates head sep then find_from (at + length head) (sep # ls)
      else (let body = at + length head + length sep;
                (e, rs) = table_rows (cells head) body body ls
            in if e = body then find_from (at + length head) (sep # ls)
               else Some \<lparr>table_start = at, table_end = e, rows = rs\<rparr>))"
| "find_from at _ = None"

definition find_table :: "str \<Rightarrow> table option" where
  "find_table s = find_from 0 (lines_incl s)"

fun hold_lines :: "nat \<Rightarrow> str list \<Rightarrow> nat" where
  "hold_lines at [] = at"
| "hold_lines at (line # ls) =
     (if 124 \<in> set line then
        (case ls of
           next_line # _ \<Rightarrow>
             if ends_nl next_line \<and> \<not> separates line next_line then hold_lines (at + length line) ls
             else if \<not> ends_nl next_line \<and> \<not> is_separator_start next_line then hold_lines (at + length line) ls
             else at
         | [] \<Rightarrow> at)
      else hold_lines (at + length line) ls)"

definition hold_from :: "str \<Rightarrow> nat" where
  "hold_from s = hold_lines 0 (lines_incl s)"

section \<open>Lines of a text\<close>

lemma concat_lines_from: "concat (lines_incl_from l s) = l @ s"
  by (induction l s rule: lines_incl_from.induct) auto

lemma concat_lines [simp]: "concat (lines_incl s) = s"
  by (simp add: lines_incl_def concat_lines_from)

lemma lines_from_set: "l' \<in> set (lines_incl_from l s) \<Longrightarrow> set l' \<subseteq> set l \<union> set s"
  by (induction l s rule: lines_incl_from.induct) (fastforce split: if_splits)+

lemma lines_set: "l \<in> set (lines_incl s) \<Longrightarrow> set l \<subseteq> set s"
  using lines_from_set [of l "[]" s] by (simp add: lines_incl_def)

text \<open>A text without a pipe has no table and holds nothing back.\<close>

lemma find_from_plain: "\<forall>l \<in> set ls. 124 \<notin> set l \<Longrightarrow> find_from at ls = None"
  by (induction at ls rule: find_from.induct) simp_all

lemma hold_lines_plain: "\<forall>l \<in> set ls. 124 \<notin> set l \<Longrightarrow> hold_lines at ls = at + length (concat ls)"
  by (induction ls arbitrary: at) simp_all

lemma find_table_plain: "124 \<notin> set s \<Longrightarrow> find_table s = None"
  unfolding find_table_def by (rule find_from_plain) (use lines_set in blast)

lemma hold_from_plain: "124 \<notin> set s \<Longrightarrow> hold_from s = length s"
  unfolding hold_from_def using hold_lines_plain [of "lines_incl s" 0] lines_set by fastforce

lemma hold_lines_cases: "hold_lines at (line # ls) \<in> {at, hold_lines (at + length line) ls}"
  by (cases ls) auto

declare hold_lines.simps(2) [simp del]

lemma hold_lines_le: "at \<le> hold_lines at ls \<and> hold_lines at ls \<le> at + length (concat ls)"
proof (induction ls arbitrary: at)
  case (Cons line ls)
  have "at + length line \<le> hold_lines (at + length line) ls \<and>
      hold_lines (at + length line) ls \<le> at + length line + length (concat ls)" by (rule Cons.IH)
  then show ?case using hold_lines_cases [of at line ls] by auto
qed simp

lemma hold_from_le: "hold_from s \<le> length s"
  using hold_lines_le [of 0 "lines_incl s"] by (simp add: hold_from_def)


section \<open>Cells read back\<close>

text \<open>A cell as Markdown writes it: trimmed, and its pipes escaped.\<close>

definition escaped :: "str \<Rightarrow> str" where
  "escaped c = concat (map (\<lambda>x. if x = 124 then [92, 124] else [x]) c)"

definition plain_cell :: "str \<Rightarrow> bool" where
  "plain_cell c \<longleftrightarrow> trim c = c \<and> 92 \<notin> set c"

definition row_text :: "str list \<Rightarrow> str" where
  "row_text cs = [124] @ concat (map (\<lambda>c. [32] @ escaped c @ [32, 124]) cs)"

lemma split_cells_plain: "92 \<notin> set s \<Longrightarrow> 124 \<notin> set s \<Longrightarrow> split_cells cur s = [cur @ s]"
  by (induction s arbitrary: cur) auto

lemma split_cells_cell:
  "92 \<notin> set c \<Longrightarrow> split_cells cur (escaped c @ [32] @ 124 # s) = (cur @ c @ [32]) # split_cells [] s"
  by (induction c arbitrary: cur) (auto simp: escaped_def)

lemma split_cells_last:
  "92 \<notin> set c \<Longrightarrow> split_cells cur (escaped c @ [32]) = [cur @ c @ [32]]"
  by (induction c arbitrary: cur) (auto simp: escaped_def)

lemma split_row:
  assumes "\<forall>c \<in> set (cs @ [c]). 92 \<notin> set c"
  shows "split_cells [] (concat (map (\<lambda>c. [32] @ escaped c @ [32, 124]) cs) @ [32] @ escaped c @ [32]) =
    map (\<lambda>c. [32] @ c @ [32]) (cs @ [c])"
  using assms
proof (induction cs)
  case Nil
  then show ?case using split_cells_last [of c "[32]"] by simp
next
  case (Cons d cs)
  then show ?case using split_cells_cell [of d "[32]"] by simp
qed

lemma trim_spaces: "trim ([32] @ c @ [32]) = trim c"
proof -
  have "trim_end (s @ [32]) = trim_end s" for s by (simp add: trim_end_def is_whitespace_def)
  moreover have "trim_start ([32] @ s) = trim_start s" for s by (simp add: trim_start_def is_whitespace_def)
  moreover have "trim_end (trim_start (c @ [32])) = trim_end (trim_start c)"
  proof (cases "trim_start c = []")
    case True
    then have "\<forall>x \<in> set (c @ [32]). is_whitespace x" by (simp add: trim_start_def) (simp add: is_whitespace_def)
    then have "trim_start (c @ [32]) = []" unfolding trim_start_def by (simp only: dropWhile_eq_Nil_conv)
    then show ?thesis using True by simp
  next
    case False
    then have "trim_start (c @ [32]) = trim_start c @ [32]" by (auto simp: trim_start_def dropWhile_append)
    then show ?thesis using \<open>\<And>s. trim_end (s @ [32]) = trim_end s\<close> by simp
  qed
  ultimately have "trim ([32] @ c @ [32]) = trim_end (trim_start c)" unfolding trim_def by simp
  then show ?thesis by (simp only: trim_def)
qed

lemma not_escaped_end: "\<not> suffix [92, 124] ((s @ [32]) @ [124 :: nat])" and ends_in_pipe: "suffix [124] (s @ [124])"
proof -
  show "suffix [124] (s @ [124])" by (simp add: suffix_def)
  show "\<not> suffix [92, 124] ((s @ [32]) @ [124 :: nat])"
  proof
  assume "suffix [92, 124] ((s @ [32]) @ [124 :: nat])"
  then obtain z where "(s @ [32]) @ [124] = (z @ [92]) @ [124]" by (auto simp: suffix_def)
  then have "s @ [32] = z @ [92]" by (simp only: append1_eq_conv)
  then show False by simp
  qed
qed

lemma trim_ends: "x \<noteq> [] \<Longrightarrow> \<not> is_whitespace (hd x) \<Longrightarrow> \<not> is_whitespace (last x) \<Longrightarrow> trim x = x"
proof -
  assume x: "x \<noteq> []" "\<not> is_whitespace (hd x)" "\<not> is_whitespace (last x)"
  then have "trim_start x = x" by (cases x) (simp_all add: trim_start_def)
  moreover have "trim_end x = x" using x by (cases x rule: rev_cases) (simp_all add: trim_end_def)
  ultimately show ?thesis by (simp add: trim_def)
qed

text \<open>The cells of a row written with outer pipes, its cells trimmed and their pipes escaped, are the cells,
  an escaped pipe as a pipe; the columns of a header and of its rows line up.\<close>

theorem cells_read_back:
  assumes "cs \<noteq> []" "\<forall>c \<in> set cs. plain_cell c"
  shows "cells (row_text cs) = cs"
proof -
  obtain ds d where cs: "cs = ds @ [d]" using assms(1) by (cases cs rule: rev_cases) auto
  let ?body = "concat (map (\<lambda>c. [32] @ escaped c @ [32, 124]) ds) @ [32] @ escaped d @ [32]"
  have row: "row_text cs = 124 # ?body @ [124]" by (simp add: row_text_def cs)
  have "trim (row_text cs) = row_text cs" by (rule trim_ends) (simp_all add: row is_whitespace_def)
  moreover have "suffix [124] (?body @ [124])" by (rule ends_in_pipe)
  moreover have "\<not> suffix [92, 124] (?body @ [124])"
    using not_escaped_end [of "concat (map (\<lambda>c. [32] @ escaped c @ [32, 124]) ds) @ [32] @ escaped d"]
    by (simp only: append_assoc not_False_eq_True)
  ultimately have "cells (row_text cs) = map trim (split_cells [] ?body)"
    unfolding cells_def row Let_def by (simp add: butlast_append)
  also have "split_cells [] ?body = map (\<lambda>c. [32] @ c @ [32]) cs"
    using split_row [of ds d] assms(2) by (simp add: cs plain_cell_def)
  also have "map trim \<dots> = cs"
    using assms(2) trim_spaces by (simp add: plain_cell_def map_idI del: append_Cons append_Nil)
  finally show ?thesis .
qed

text \<open>A header with an escaped pipe and an empty cell.\<close>

theorem cells_read_back_witness:
  "cells (row_text [[97, 124, 98], []]) = [[97, 124, 98], []]"
  by (rule cells_read_back) (simp_all add: plain_cell_def trim_def trim_start_def trim_end_def is_whitespace_def)

end
