(* ===== verification/Sentences.thy ===== *)
theory Sentences imports Tables Unicode begin

text \<open>
  The cutting of raw text into pieces, from \<open>crates/sonara-core/src/assembler.rs\<close> (the functions that do
  not touch the assembler's state) and \<open>stabilize_ordinals\<close> of \<open>text.rs\<close>.

  The regular expressions of the source are written out as functions that return the match: each of them
  is deterministic (what follows a repeated class is outside of it), so the match is the maximal run.

  A function of the source that calls \<open>emit_chunk\<close> on raw pieces returns the pieces here, in order;
  \<open>emit_chunk\<close> is mapped over them where the assembler hands out its chunks.

  Parameters (\<open>speech_lib\<close>): the Unicode properties of characters, and the spoken forms of prose (\<open>normalize_for_speech\<close>)
  and code (\<open>code_speech::line\<close>, \<open>announcement\<close>, \<open>end_of_code\<close>).
\<close>

record speech_lib = unicode +
  to_speech :: "str \<Rightarrow> str"
  code_line :: "str \<Rightarrow> str \<Rightarrow> nat \<Rightarrow> str option"
  code_announcement :: "str \<Rightarrow> nat \<Rightarrow> str"
  code_end :: "str \<Rightarrow> str"

section \<open>Characters and lines\<close>

definition is_py_space :: "nat \<Rightarrow> bool" where
  "is_py_space c \<longleftrightarrow> is_whitespace c \<or> 28 \<le> c \<and> c \<le> 31"

definition py_strip :: "str \<Rightarrow> str" where
  "py_strip s = rev (dropWhile is_py_space (rev (dropWhile is_py_space s)))"

text \<open>The class \<open>[A-Za-z0-9]\<close> of \<open>WORD\<close>.\<close>

definition is_word :: "nat \<Rightarrow> bool" where
  "is_word c \<longleftrightarrow> 65 \<le> c \<and> c \<le> 90 \<or> 97 \<le> c \<and> c \<le> 122 \<or> 48 \<le> c \<and> c \<le> 57"

text \<open>The characters that end a line in Python's \<open>splitlines\<close>, \<open>\r\<close> apart.\<close>

definition ends_line :: "nat \<Rightarrow> bool" where
  "ends_line c \<longleftrightarrow> c \<in> {10, 11, 12, 28, 29, 30, 133, 8232, 8233}"

fun split_lines_from :: "str \<Rightarrow> str \<Rightarrow> str list" where
  "split_lines_from cur [] = (if cur = [] then [] else [cur])"
| "split_lines_from cur (c # s) =
     (if c = 13 then cur # split_lines_from [] (if s \<noteq> [] \<and> hd s = 10 then tl s else s)
      else if ends_line c then cur # split_lines_from [] s
      else split_lines_from (cur @ [c]) s)"

definition split_lines :: "str \<Rightarrow> str list" where
  "split_lines s = split_lines_from [] s"

text \<open>\<open>PARA.split\<close>, where \<open>PARA\<close> is \<open>\n[ \t]*\n\<close>.\<close>

function split_para_from :: "str \<Rightarrow> str \<Rightarrow> str list" where
  "split_para_from cur [] = [cur]"
| "split_para_from cur (c # s) =
     (let r = dropWhile is_blank s
      in if c = 10 \<and> r \<noteq> [] \<and> hd r = 10 then cur # split_para_from [] (tl r)
         else split_para_from (cur @ [c]) s)"
  by pat_completeness auto
termination
proof (relation "measure (\<lambda>(_, s). length s)", goal_cases)
  case (2 cur c s r)
  then show ?case using length_dropWhile_le [of is_blank s] by (simp add: less_Suc_eq_le)
qed simp_all

definition split_para :: "str \<Rightarrow> str list" where
  "split_para s = split_para_from [] s"

section \<open>Ordinals of lists\<close>

text \<open>
  \<open>LIST_ORDINAL\<close> at the start of a line, \<open>^([\s]*)(\d{1,3})\.([\s]+)\<close>: its replacement, with a colon for the
  full stop, and the rest.
\<close>

definition ordinal_at :: "'a unicode_scheme \<Rightarrow> str \<Rightarrow> (str \<times> str) option" where
  "ordinal_at L s =
     (let ws = takeWhile is_py_space s; r = dropWhile is_py_space s;
          ds = takeWhile (digit L) r; r = dropWhile (digit L) r
      in if 1 \<le> length ds \<and> length ds \<le> 3 \<and> r \<noteq> [] \<and> hd r = 46 \<and> tl r \<noteq> [] \<and> is_py_space (hd (tl r))
         then Some (ws @ ds @ [58] @ takeWhile is_py_space (tl r), dropWhile is_py_space (tl r))
         else None)"

lemma ordinal_at_parts:
  assumes "ordinal_at L s = Some (out, rest)"
  shows "\<exists>a b. s = a @ [46] @ b @ rest \<and> out = a @ [58] @ b \<and> b \<noteq> []"
proof -
  define r where "r = dropWhile is_py_space s"
  define q where "q = dropWhile (digit L) r"
  have q: "q \<noteq> []" "hd q = 46" "tl q \<noteq> []" "is_py_space (hd (tl q))"
    "out = takeWhile is_py_space s @ takeWhile (digit L) r @ [58] @ takeWhile is_py_space (tl q)"
    "rest = dropWhile is_py_space (tl q)"
    using assms by (auto simp: ordinal_at_def r_def q_def Let_def split: if_splits)
  have "s = takeWhile is_py_space s @ takeWhile (digit L) r @ q" by (simp add: r_def q_def)
  also have "q = [46] @ takeWhile is_py_space (tl q) @ rest" using q by (cases q) auto
  finally have "s = takeWhile is_py_space s @ takeWhile (digit L) r @ [46] @ takeWhile is_py_space (tl q) @ rest" .
  moreover have "takeWhile is_py_space (tl q) \<noteq> []" using q(3,4) by (cases "tl q") auto
  ultimately show ?thesis using q(5)
    by (intro exI [of _ "takeWhile is_py_space s @ takeWhile (digit L) r"] exI [of _ "takeWhile is_py_space (tl q)"]) simp
qed

text \<open>\<open>replace_all\<close>: \<open>bol\<close> says that the text starts at the start of a line.\<close>

function stabilize_from :: "'a unicode_scheme \<Rightarrow> bool \<Rightarrow> str \<Rightarrow> str" where
  "stabilize_from L bol s =
     (case (if bol then ordinal_at L s else None) of
        Some (out, rest) \<Rightarrow> out @ stabilize_from L (last out = 10) rest
      | None \<Rightarrow> (case s of [] \<Rightarrow> [] | c # t \<Rightarrow> c # stabilize_from L (c = 10) t))"
  by pat_completeness auto
termination
  by (relation "measure (\<lambda>(_, _, s). length s)") (auto dest!: ordinal_at_parts split: if_splits)

declare stabilize_from.simps [simp del]

definition stabilize_ordinals :: "'a unicode_scheme \<Rightarrow> str \<Rightarrow> str" where
  "stabilize_ordinals L s = stabilize_from L True s"

section \<open>Sentences\<close>

definition ends_sentence :: "nat \<Rightarrow> bool" where
  "ends_sentence c \<longleftrightarrow> c = 46 \<or> c = 33 \<or> c = 63"

text \<open>A closing quote, bracket or Markdown mark.\<close>

definition closes :: "nat \<Rightarrow> bool" where
  "closes c \<longleftrightarrow> c \<in> {34, 39, 8217, 8221, 41, 93, 42, 95, 96}"

text \<open>
  \<open>SENTENCE\<close> at the start of the text: the capture and the rest after the match. \<open>cur\<close> is what the lazy
  \<open>.+?\<close> has taken.
\<close>

fun sentence_from :: "str \<Rightarrow> str \<Rightarrow> (str \<times> str) option" where
  "sentence_from cur [] = None"
| "sentence_from cur (c # s) =
     (if cur \<noteq> [] \<and> ends_sentence c \<and> dropWhile closes s \<noteq> [] \<and> is_py_space (hd (dropWhile closes s))
      then Some (cur @ [c] @ takeWhile closes s, dropWhile is_py_space (dropWhile closes s))
      else sentence_from (cur @ [c]) s)"

lemma sentence_from_parts:
  "sentence_from cur s = Some (cap, rest) \<Longrightarrow>
     \<exists>ws. cur @ s = cap @ ws @ rest \<and> (\<forall>c \<in> set ws. is_py_space c) \<and> cap \<noteq> []"
proof (induction cur s rule: sentence_from.induct)
  case (1 cur)
  then show ?case by simp
next
  case (2 cur c s)
  show ?case
  proof (cases "cur \<noteq> [] \<and> ends_sentence c \<and> dropWhile closes s \<noteq> [] \<and> is_py_space (hd (dropWhile closes s))")
    case True
    let ?d = "dropWhile closes s"
    have "s = takeWhile closes s @ takeWhile is_py_space ?d @ dropWhile is_py_space ?d" by simp
    then show ?thesis using 2(2) True
      by (intro exI [of _ "takeWhile is_py_space ?d"]) (auto dest: set_takeWhileD)
  next
    case False
    then have "sentence_from (cur @ [c]) s = Some (cap, rest)" using 2(2) by (simp only: sentence_from.simps if_False)
    then show ?thesis using 2(1) False by simp
  qed
qed

text \<open>\<open>captures_iter\<close>: the captures and what follows the last match.\<close>

function sentence_captures :: "str \<Rightarrow> str list \<times> str" where
  "sentence_captures s =
     (case sentence_from [] s of
        None \<Rightarrow> ([], s)
      | Some (cap, rest) \<Rightarrow> (let (caps, r) = sentence_captures rest in (cap # caps, r)))"
  by pat_completeness auto
termination
  by (relation "measure length") (auto dest!: sentence_from_parts)

declare sentence_captures.simps [simp del]

definition prose_sentences :: "str \<Rightarrow> bool \<Rightarrow> str list \<times> str" where
  "prose_sentences s keep_remainder =
     (let (out, remainder) = sentence_captures s
      in if keep_remainder then (out, remainder) else (out @ split_lines remainder, []))"

section \<open>List items\<close>

text \<open>\<open>LIST_ITEM\<close>: \<open>^[ \t]*(?:[-*+\u{2022}]|\d{1,3}:)[ \t]+\S\<close>.\<close>

definition is_list_item :: "speech_lib \<Rightarrow> str \<Rightarrow> bool" where
  "is_list_item L line =
     (let r = dropWhile is_blank line;
          ds = takeWhile (digit L) r; q = dropWhile (digit L) r;
          after = (if r \<noteq> [] \<and> hd r \<in> {45, 42, 43, 8226} then Some (tl r)
                   else if 1 \<le> length ds \<and> length ds \<le> 3 \<and> q \<noteq> [] \<and> hd q = 58 then Some (tl q)
                   else None)
      in case after of
           None \<Rightarrow> False
         | Some t \<Rightarrow> t \<noteq> [] \<and> is_blank (hd t) \<and>
             (let u = dropWhile is_blank t in u \<noteq> [] \<and> \<not> is_whitespace (hd u)))"

text \<open>The line goes on with the item before it.\<close>

definition continues :: "str \<Rightarrow> bool" where
  "continues line \<longleftrightarrow>
     line \<noteq> [] \<and> is_blank (hd line) \<and> (trim line \<noteq> [] \<or> \<not> ends_nl line)"

text \<open>A segment is its text and whether it is an item; the segments follow each other without a gap.\<close>

definition add_line :: "speech_lib \<Rightarrow> str \<Rightarrow> (str \<times> bool) list \<Rightarrow> (str \<times> bool) list" where
  "add_line L line segs =
     (if is_list_item L line then segs @ [(line, True)]
      else if segs \<noteq> [] \<and> (snd (last segs) \<longrightarrow> continues line)
           then butlast segs @ [(fst (last segs) @ line, snd (last segs))]
      else segs @ [(line, False)])"

definition list_segments :: "speech_lib \<Rightarrow> str \<Rightarrow> (str \<times> bool) list" where
  "list_segments L s = fold (add_line L) (lines_incl s) []"

fun segment_pieces :: "bool \<Rightarrow> (str \<times> bool) list \<Rightarrow> str list \<times> str" where
  "segment_pieces keep_remainder [] = ([], [])"
| "segment_pieces keep_remainder ((s, item) # segs) =
     (if keep_remainder \<and> segs = [] then (if item then ([], s) else prose_sentences s True)
      else (let (out, r) = segment_pieces keep_remainder segs
            in ((if item then [trim_end s] else fst (prose_sentences s False)) @ out, r)))"

definition list_sentences :: "speech_lib \<Rightarrow> str \<Rightarrow> bool \<Rightarrow> str list \<times> str" where
  "list_sentences L s keep_remainder = segment_pieces keep_remainder (list_segments L s)"

section \<open>Tables in the text\<close>

lemma table_rows_end: "fst (table_rows h e at ls) = e \<or> at \<le> fst (table_rows h e at ls)"
  by (induction h e at ls rule: table_rows.induct) (auto simp: Let_def case_prod_beta split: if_splits)

lemma find_from_end: "find_from at ls = Some t \<Longrightarrow> at \<le> table_start t \<and> table_start t < table_end t"
proof (induction at ls rule: find_from.induct)
  case (1 at head sep ls)
  let ?body = "at + length head + length sep"
  obtain e rs where r: "table_rows (cells head) ?body ?body ls = (e, rs)" by fastforce
  show ?case
  proof (cases "124 \<notin> set head \<or> \<not> separates head sep \<or> e = ?body")
    case True
    then have "find_from (at + length head) (sep # ls) = Some t"
      using 1(3) r by (auto simp: Let_def split: if_splits)
    then show ?thesis using 1(1,2) True r by (metis add_leD1 prod.collapse)
  next
    case False
    moreover have "head \<noteq> []" using False by auto
    moreover have "?body \<le> e" using table_rows_end [of "cells head" ?body ?body ls] r False by auto
    ultimately show ?thesis using 1(3) r by (auto simp: Let_def)
  qed
qed simp_all

function with_tables :: "speech_lib \<Rightarrow> str \<Rightarrow> str list" where
  "with_tables L rest =
     (case find_table rest of
        None \<Rightarrow> fst (list_sentences L rest False)
      | Some t \<Rightarrow> fst (list_sentences L (take (table_start t) rest) False) @ rows t @
          with_tables L (drop (table_end t) rest))"
  by pat_completeness auto
termination
proof (relation "measure (\<lambda>(_, s). length s)", goal_cases)
  case (2 L rest t)
  then have "0 < table_end t" using find_from_end by (fastforce simp: find_table_def)
  moreover have "rest \<noteq> []" using 2 by (auto simp: find_table_def lines_incl_def)
  ultimately show ?case by simp
qed simp

declare with_tables.simps [simp del]

definition sentences_of :: "speech_lib \<Rightarrow> str \<Rightarrow> bool \<Rightarrow> str list \<times> str" where
  "sentences_of L s keep_remainder =
     (if keep_remainder then
        (let hold = hold_from s;
             (out, remainder) = list_sentences L (take hold s) True
         in (out, drop (hold - length remainder) s))
      else (with_tables L s, []))"

end
