(* ===== verification/Assembler.thy ===== *)
theory Assembler imports Sentences Chunks begin

text \<open>
  \<open>ProseAssembler\<close> of \<open>crates/sonara-core/src/assembler.rs\<close>: streamed deltas assembled into sentences and
  code blocks.

  The functions of the source that return chunks return pieces here: raw prose (what the source hands to
  \<open>emit_chunk\<close>), a closed fence (what it hands to \<open>fence_chunks\<close>) and the end of a paragraph. \<open>emit_piece\<close>
  makes the chunks of a piece; it depends on nothing but the piece, and \<open>feed\<close> maps it over the pieces of
  a call. A byte offset of the source is an offset in characters.

  The loop of \<open>consume\<close> is \<open>consume_step\<close>, iterated as long as it says so (\<open>continue\<close>).
\<close>

section \<open>Fences that hold prose\<close>

fun contains :: "str \<Rightarrow> str \<Rightarrow> bool" where
  "contains p [] \<longleftrightarrow> p = []"
| "contains p (c # s) \<longleftrightarrow> prefix p (c # s) \<or> contains p s"

definition text_languages :: "str list" where
  "text_languages = map lit ['''', ''text'', ''txt'', ''plain'', ''plaintext'', ''markdown'', ''md'', ''prompt'']"

definition looks_like_code :: "str \<Rightarrow> bool" where
  "looks_like_code l \<longleftrightarrow>
     (\<exists>c \<in> set l. c \<in> set [123, 125, 59, 61, 60, 62, 36, 92, 96, 124]) \<or>
     (\<exists>p \<in> set (map lit [''()'', ''::'', ''->'', ''=>'', ''&&'']). contains p l)"

definition count_words :: "speech_lib \<Rightarrow> str \<Rightarrow> nat" where
  "count_words L l = length (filter (\<lambda>w. \<exists>c \<in> set w. alphabetic L c) (split_whitespace l))"

definition reads_as_sentence :: "str \<Rightarrow> bool" where
  "reads_as_sentence l \<longleftrightarrow>
     (let t = trim_end l
      in contains (lit ''. '') t \<or> contains (lit '', '') t \<or> t \<noteq> [] \<and> last t \<in> {46, 63, 33})"

definition prose_fence :: "speech_lib \<Rightarrow> str \<Rightarrow> str list \<Rightarrow> bool" where
  "prose_fence L lang ls \<longleftrightarrow>
     to_ascii_lowercase lang \<in> set text_languages \<and>
     (let filled = filter (\<lambda>l. trim l \<noteq> []) ls;
          prose = length (filter (\<lambda>l. 3 \<le> count_words L l \<and> \<not> looks_like_code l) filled);
          all_words = sum_list (map (count_words L) filled)
      in 8 \<le> all_words \<and> (\<exists>l \<in> set filled. reads_as_sentence l) \<and> 2 * length filled \<le> 3 * prose)"

definition starts_new :: "speech_lib \<Rightarrow> str \<Rightarrow> bool" where
  "starts_new L l =
     (case trim_start l of
        [] \<Rightarrow> False
      | c # _ \<Rightarrow> c \<in> {45, 42, 43, 35} \<or> uppercase L c \<or> 48 \<le> c \<and> c \<le> 57)"

definition line_open :: "str \<Rightarrow> bool" where
  "line_open l \<longleftrightarrow> trim l \<noteq> [] \<and> last (trim_end l) \<notin> {46, 33, 63, 58, 59, 44}"

fun prose_lines :: "speech_lib \<Rightarrow> str list \<Rightarrow> str" where
  "prose_lines L [] = []"
| "prose_lines L (l # ls) =
     (let next_line = (case ls of [] \<Rightarrow> [] | n # _ \<Rightarrow> n)
      in trim_end l @ (if line_open l \<and> (trim next_line = [] \<or> starts_new L next_line) then [46] else []) @ [10] @
         prose_lines L ls)"

section \<open>Pieces and their chunks\<close>

datatype piece = Prose_Piece str | Fence_Piece str "str list" | Para_End

definition emit_chunk :: "speech_lib \<Rightarrow> str \<Rightarrow> asm_chunk list" where
  "emit_chunk L raw = (let cleaned = to_speech L raw in if \<exists>c \<in> set cleaned. is_word c then [Text cleaned] else [])"

definition code_lines :: "speech_lib \<Rightarrow> str \<Rightarrow> str list \<Rightarrow> str list" where
  "code_lines L lang ls = List.map_filter (\<lambda>(i, l). code_line L l lang (i + 1)) (enumerate 0 ls)"

fun between_breaks :: "asm_chunk list list \<Rightarrow> asm_chunk list" where
  "between_breaks [] = []"
| "between_breaks [cs] = cs"
| "between_breaks (cs # ds # r) = cs @ [ParagraphBreak] @ between_breaks (ds # r)"

definition fence_chunks :: "speech_lib \<Rightarrow> str \<Rightarrow> str list \<Rightarrow> asm_chunk list" where
  "fence_chunks L lang ls =
     (if prose_fence L lang ls then
        between_breaks (map (\<lambda>para. concat (map (emit_chunk L) (fst (sentences_of L (stabilize_ordinals L para) False))))
          (split_para (prose_lines L ls)))
      else [Code (code_announcement L lang (length ls)) (code_lines L lang ls) (code_end L lang)])"

fun emit_piece :: "speech_lib \<Rightarrow> piece \<Rightarrow> asm_chunk list" where
  "emit_piece L (Prose_Piece raw) = emit_chunk L raw"
| "emit_piece L (Fence_Piece lang ls) = fence_chunks L lang ls"
| "emit_piece L Para_End = [ParagraphBreak]"

section \<open>The state\<close>

record assembler =
  asm_seen :: "nat set"
  asm_buf :: str
  emitted :: nat
  asm_pending :: str
  in_fence :: bool
  fence_ticks :: nat
  fence_lang :: str
  fence_lines :: "str list"
  fence_opened_line :: bool
  asm_done :: "(nat \<times> nat set) option"
  last_break :: bool

definition new_assembler :: assembler where
  "new_assembler =
     \<lparr>asm_seen = {}, asm_buf = [], emitted = 0, asm_pending = [], in_fence = False, fence_ticks = 0,
      fence_lang = [], fence_lines = [], fence_opened_line = False, asm_done = None, last_break = False\<rparr>"

definition reset_asm :: "assembler \<Rightarrow> assembler" where
  "reset_asm a = new_assembler\<lparr>last_break := last_break a\<rparr>"

section \<open>Prose\<close>

text \<open>The complete paragraphs of \<open>split_sentences\<close>; \<open>e\<close> counts what is emitted of the first one.\<close>

fun complete_pieces :: "speech_lib \<Rightarrow> nat \<Rightarrow> str list \<Rightarrow> piece list" where
  "complete_pieces L e [] = []"
| "complete_pieces L e (p # ps) =
     map Prose_Piece (fst (sentences_of L (drop (min e (length p)) (stabilize_ordinals L p)) False)) @
     [Para_End] @ complete_pieces L 0 ps"

definition split_sentences :: "speech_lib \<Rightarrow> assembler \<Rightarrow> piece list \<times> assembler" where
  "split_sentences L a =
     (let paras = split_para (asm_buf a);
          complete = butlast paras; last_raw = last paras;
          e = (if complete = [] then emitted a else 0);
          (sents, remainder) = sentences_of L (drop (min e (length last_raw)) (stabilize_ordinals L last_raw)) True
      in (complete_pieces L (emitted a) complete @ map Prose_Piece sents,
          a\<lparr>emitted := length last_raw - length remainder, asm_buf := last_raw\<rparr>))"

definition flush_asm :: "speech_lib \<Rightarrow> assembler \<Rightarrow> piece list \<times> assembler" where
  "flush_asm L a =
     (if asm_buf a = [] then ([], a\<lparr>emitted := 0\<rparr>)
      else (map Prose_Piece (fst (sentences_of L
              (drop (min (emitted a) (length (asm_buf a))) (stabilize_ordinals L (asm_buf a))) False)),
            a\<lparr>asm_buf := [], emitted := 0\<rparr>))"

section \<open>Fences\<close>

definition tick_run :: "str \<Rightarrow> nat" where
  "tick_run s = length (takeWhile (\<lambda>c. c = 96) s)"

definition closing_fence_rest :: "assembler \<Rightarrow> str \<Rightarrow> str option" where
  "closing_fence_rest a stripped =
     (let ticks = tick_run stripped; rest = drop ticks stripped
      in if \<not> fence_opened_line a \<or> \<not> prefix [96, 96, 96] stripped then None
         else if ticks < max (fence_ticks a) 3 then None
         else if rest \<noteq> [] \<and> \<not> is_blank (hd rest) then None
         else Some (py_strip rest))"

text \<open>What follows the last newline (all of it without one).\<close>

definition after_newline :: "str \<Rightarrow> str" where
  "after_newline s = rev (takeWhile (\<lambda>c. c \<noteq> 10) (rev s))"

definition all_blank :: "str \<Rightarrow> bool" where
  "all_blank s \<longleftrightarrow> (\<forall>c \<in> set s. is_blank c)"

fun find_ticks :: "str \<Rightarrow> nat option" where
  "find_ticks [] = None"
| "find_ticks (c # s) = (if prefix [96, 96, 96] (c # s) then Some 0 else map_option Suc (find_ticks s))"

lemma find_ticks_Some:
  "find_ticks s = Some i \<Longrightarrow> prefix [96, 96, 96] (drop i s) \<and> (\<forall>j < i. \<not> prefix [96, 96, 96] (drop j s))"
proof (induction s arbitrary: i)
  case Nil
  then show ?case by simp
next
  case (Cons c s)
  show ?case
  proof (cases "prefix [96, 96, 96] (c # s)")
    case True
    then show ?thesis using Cons.prems by auto
  next
    case False
    then obtain k where "find_ticks s = Some k" "i = Suc k" using Cons.prems by (auto split: if_splits)
    then show ?thesis using Cons.IH False by (auto simp: less_Suc_eq_0_disj)
  qed
qed

lemma tick_run_ge: "prefix [96, 96, 96] s \<Longrightarrow> 3 \<le> tick_run s"
  by (auto simp: tick_run_def prefix_def)

text \<open>The scan of \<open>fence_opening\<close> from an offset on.\<close>

function fence_from :: "str \<Rightarrow> str \<Rightarrow> nat \<Rightarrow> (nat \<times> nat) option" where
  "fence_from buf pend from =
     (case find_ticks (drop from pend) of
        None \<Rightarrow> None
      | Some rel \<Rightarrow>
          (let at = from + rel; ticks = tick_run (drop at pend); pre = take at pend;
               line_start = (all_blank (after_newline pre) \<and>
                 (10 \<in> set pre \<or> all_blank (after_newline buf)))
           in if line_start then Some (at, ticks) else fence_from buf pend (at + ticks)))"
  by pat_completeness auto
termination
proof (relation "measure (\<lambda>(_, pend, from). length pend - from)", goal_cases)
  case (2 buf pend start rel at ticks pre line_start)
  then have p: "prefix [96, 96, 96] (drop at pend)" using find_ticks_Some [of "drop start pend" rel] by (simp add: add.commute)
  then have "3 \<le> ticks" using 2 tick_run_ge by simp
  moreover have "at < length pend" using p by (cases "at < length pend") simp_all
  ultimately show ?case using 2 by simp
qed simp

declare fence_from.simps [simp del]

definition fence_opening :: "assembler \<Rightarrow> (nat \<times> nat) option" where
  "fence_opening a = fence_from (asm_buf a) (asm_pending a) 0"

definition partial_fence_tail_len :: "str \<Rightarrow> nat" where
  "partial_fence_tail_len s = (if suffix [96, 96] s then 2 else if suffix [96] s then 1 else 0)"

text \<open>\<open>close_fence\<close>: the block as a piece, and the end of its paragraph.\<close>

definition close_fence :: "assembler \<Rightarrow> piece list \<times> assembler" where
  "close_fence a =
     ([Fence_Piece (fence_lang a) (fence_lines a), Para_End],
      a\<lparr>fence_ticks := 0, fence_lang := [], fence_lines := [], in_fence := False, fence_opened_line := False\<rparr>)"

section \<open>The scan of the pending text\<close>

text \<open>Text that turned out to be prose.\<close>

definition to_prose :: "speech_lib \<Rightarrow> str \<Rightarrow> assembler \<Rightarrow> piece list \<times> assembler" where
  "to_prose L s a = split_sentences L (a\<lparr>asm_buf := asm_buf a @ s\<rparr>)"

text \<open>A complete line inside a fence.\<close>

definition fence_line_step :: "speech_lib \<Rightarrow> str \<Rightarrow> assembler \<Rightarrow> piece list \<times> assembler" where
  "fence_line_step L line a =
     (let stripped = py_strip line
      in case closing_fence_rest a stripped of
           Some close_rest \<Rightarrow>
             (let (out, a) = close_fence a
              in (out, if close_rest \<noteq> [] then a\<lparr>asm_pending := close_rest @ [10] @ asm_pending a\<rparr> else a))
         | None \<Rightarrow>
             if \<not> fence_opened_line a \<and> 96 \<in> set line then
               to_prose L (replicate (fence_ticks a) 96 @ line @ [10]) (a\<lparr>in_fence := False\<rparr>)
             else if \<not> fence_opened_line a then ([], a\<lparr>fence_lang := stripped, fence_opened_line := True\<rparr>)
             else ([], a\<lparr>fence_lines := fence_lines a @ [line]\<rparr>))"

text \<open>The last line of a fence that nothing closed; the flag says whether the scan goes on.\<close>

definition fence_tail_step :: "speech_lib \<Rightarrow> assembler \<Rightarrow> (piece list \<times> assembler) \<times> bool" where
  "fence_tail_step L a =
     (let tl_text = asm_pending a; stripped = py_strip tl_text; a = a\<lparr>asm_pending := []\<rparr>
      in if \<not> fence_opened_line a \<and> 96 \<in> set tl_text then
           (to_prose L (replicate (fence_ticks a) 96 @ tl_text) (a\<lparr>in_fence := False\<rparr>), False)
         else
           (case closing_fence_rest a stripped of
              Some close_rest \<Rightarrow>
                (let (out, a) = close_fence a
                 in if close_rest \<noteq> [] then ((out, a\<lparr>asm_pending := close_rest\<rparr>), True) else ((out, a), False))
            | None \<Rightarrow>
                (let a = (if stripped = [] then a
                          else if fence_opened_line a then a\<lparr>fence_lines := fence_lines a @ [tl_text]\<rparr>
                          else a\<lparr>fence_lang := stripped\<rparr>)
                 in (close_fence a, False))))"

text \<open>A fence opens at an offset of the pending text.\<close>

definition open_step :: "speech_lib \<Rightarrow> bool \<Rightarrow> nat \<Rightarrow> nat \<Rightarrow> assembler \<Rightarrow> (piece list \<times> assembler) \<times> bool" where
  "open_step L force open_at ticks a =
     (let pend = asm_pending a
      in if open_at + ticks = length pend \<and> \<not> force then
           (to_prose L (take open_at pend) (a\<lparr>asm_pending := drop open_at pend\<rparr>), False)
         else
           (let (out, a) = to_prose L (take open_at pend)
                  (a\<lparr>asm_pending := drop (open_at + ticks) pend, fence_ticks := ticks\<rparr>);
                (out2, a) = flush_asm L a
            in ((out @ out2,
                 a\<lparr>in_fence := True, fence_opened_line := False, fence_lang := [], fence_lines := []\<rparr>), True)))"

text \<open>No fence opens in the pending text.\<close>

definition prose_step :: "speech_lib \<Rightarrow> bool \<Rightarrow> assembler \<Rightarrow> piece list \<times> assembler" where
  "prose_step L force a =
     (let pend = asm_pending a
      in if force then to_prose L pend (a\<lparr>asm_pending := []\<rparr>)
         else
           (let keep = partial_fence_tail_len pend;
                commit = take (length pend - keep) pend;
                a = a\<lparr>asm_pending := drop (length pend - keep) pend\<rparr>
            in if commit \<noteq> [] then to_prose L commit a else ([], a)))"

definition consume_step :: "speech_lib \<Rightarrow> bool \<Rightarrow> assembler \<Rightarrow> (piece list \<times> assembler) \<times> bool" where
  "consume_step L force a =
     (let pend = asm_pending a
      in if in_fence a then
           (if 10 \<in> set pend then
              (fence_line_step L (takeWhile (\<lambda>c. c \<noteq> 10) pend)
                 (a\<lparr>asm_pending := tl (dropWhile (\<lambda>c. c \<noteq> 10) pend)\<rparr>), True)
            else if force then fence_tail_step L a
            else (([], a), False))
         else
           (case fence_opening a of
              Some (open_at, ticks) \<Rightarrow> open_step L force open_at ticks a
            | None \<Rightarrow> (prose_step L force a, False)))"


section \<open>The scan ends\<close>

text \<open>Every turn of the loop that goes on has taken characters off the pending text.\<close>

lemma py_strip_length: "length (py_strip s) \<le> length s"
  using length_dropWhile_le [of is_py_space "rev (dropWhile is_py_space s)"] length_dropWhile_le [of is_py_space s]
  by (simp add: py_strip_def)

lemma split_sentences_sel [simp]:
  "asm_pending (snd (split_sentences L a)) = asm_pending a"
  "in_fence (snd (split_sentences L a)) = in_fence a"
  "fence_ticks (snd (split_sentences L a)) = fence_ticks a"
  "fence_lang (snd (split_sentences L a)) = fence_lang a"
  "fence_lines (snd (split_sentences L a)) = fence_lines a"
  "fence_opened_line (snd (split_sentences L a)) = fence_opened_line a"
  "asm_seen (snd (split_sentences L a)) = asm_seen a"
  "asm_done (snd (split_sentences L a)) = asm_done a"
  "last_break (snd (split_sentences L a)) = last_break a"
  by (simp_all add: split_sentences_def Let_def case_prod_beta)

lemma flush_asm_sel [simp]:
  "asm_pending (snd (flush_asm L a)) = asm_pending a"
  "in_fence (snd (flush_asm L a)) = in_fence a"
  "fence_ticks (snd (flush_asm L a)) = fence_ticks a"
  "fence_lang (snd (flush_asm L a)) = fence_lang a"
  "fence_lines (snd (flush_asm L a)) = fence_lines a"
  "fence_opened_line (snd (flush_asm L a)) = fence_opened_line a"
  "asm_seen (snd (flush_asm L a)) = asm_seen a"
  "asm_done (snd (flush_asm L a)) = asm_done a"
  "last_break (snd (flush_asm L a)) = last_break a"
  by (simp_all add: flush_asm_def)

lemma to_prose_sel [simp]:
  "asm_pending (snd (to_prose L s a)) = asm_pending a"
  "in_fence (snd (to_prose L s a)) = in_fence a"
  "fence_ticks (snd (to_prose L s a)) = fence_ticks a"
  "fence_lang (snd (to_prose L s a)) = fence_lang a"
  "fence_lines (snd (to_prose L s a)) = fence_lines a"
  "fence_opened_line (snd (to_prose L s a)) = fence_opened_line a"
  "asm_seen (snd (to_prose L s a)) = asm_seen a"
  "asm_done (snd (to_prose L s a)) = asm_done a"
  "last_break (snd (to_prose L s a)) = last_break a"
  by (simp_all add: to_prose_def)

lemma closing_shorter:
  assumes "closing_fence_rest a stripped = Some r"
  shows "length r + 3 \<le> length stripped"
proof -
  have "3 \<le> tick_run stripped" "r = py_strip (drop (tick_run stripped) stripped)"
    using assms by (auto simp: closing_fence_rest_def Let_def tick_run_ge split: if_splits)
  moreover have "tick_run stripped \<le> length stripped" by (simp add: tick_run_def length_takeWhile_le)
  ultimately show ?thesis using py_strip_length [of "drop (tick_run stripped) stripped"] by simp
qed

lemma fence_from_Some:
  "fence_from buf pend start = Some (at, ticks) \<Longrightarrow>
     start \<le> at \<and> prefix [96, 96, 96] (drop at pend) \<and> ticks = tick_run (drop at pend)"
proof (induction buf pend start rule: fence_from.induct)
  case (1 buf pend start)
  obtain rel where rel: "find_ticks (drop start pend) = Some rel"
    using 1(2) by (subst (asm) fence_from.simps) (auto split: option.splits)
  have p: "prefix [96, 96, 96] (drop (start + rel) pend)" using find_ticks_Some [OF rel] by (simp add: add.commute)
  show ?case
  proof (cases "all_blank (after_newline (take (start + rel) pend)) \<and>
      (10 \<in> set (take (start + rel) pend) \<or> all_blank (after_newline buf))")
    case True
    then have "at = start + rel \<and> ticks = tick_run (drop (start + rel) pend)"
      using 1(2) rel by (subst (asm) fence_from.simps) (auto simp: Let_def)
    then show ?thesis using p by simp
  next
    case False
    then have "fence_from buf pend (start + rel + tick_run (drop (start + rel) pend)) = Some (at, ticks)"
      using 1(2) rel by (subst (asm) fence_from.simps) (auto simp: Let_def split: if_splits)
    then show ?thesis using 1(1) [OF rel refl refl refl refl] False by force
  qed
qed

lemma fence_from_less:
  assumes "fence_from buf pend start = Some (at, ticks)"
  shows "at + ticks \<le> length pend" "3 \<le> ticks"
proof -
  have "ticks \<le> length (drop at pend)" "prefix [96, 96, 96] (drop at pend)"
    using fence_from_Some [OF assms] length_takeWhile_le [of "\<lambda>c. c = 96" "drop at pend"] by (simp_all add: tick_run_def)
  then show "at + ticks \<le> length pend" "3 \<le> ticks"
    using fence_from_Some [OF assms] tick_run_ge by (cases "at < length pend"; simp)+
qed

lemma consume_step_shrinks:
  assumes "consume_step L force a = ((out, b), True)"
  shows "length (asm_pending b) < length (asm_pending a)"
proof -
  let ?p = "asm_pending a"
  let ?line = "takeWhile (\<lambda>c. c \<noteq> 10) ?p" and ?rest = "tl (dropWhile (\<lambda>c. c \<noteq> 10) ?p)"
  consider (line) "in_fence a" "10 \<in> set ?p" | (tail) "in_fence a" "10 \<notin> set ?p" "force" "fence_tail_step L a = ((out, b), True)"
    | (op) open_at ticks where "\<not> in_fence a" "fence_opening a = Some (open_at, ticks)"
        "open_step L force open_at ticks a = ((out, b), True)"
    using assms by (auto simp: consume_step_def Let_def split: if_splits option.splits)
  then show ?thesis
  proof cases
    case line
    have sum: "length ?line + length (dropWhile (\<lambda>c. c \<noteq> 10) ?p) = length ?p"
      by (simp only: length_append [symmetric] takeWhile_dropWhile_id)
    have "dropWhile (\<lambda>c. c \<noteq> 10) ?p \<noteq> []" using line(2) by auto
    then have l: "length ?line + length ?rest + 1 = length ?p" using sum by (cases "dropWhile (\<lambda>c. c \<noteq> 10) ?p") simp_all
    have s: "fence_line_step L ?line (a\<lparr>asm_pending := ?rest\<rparr>) = (out, b)"
      using assms line by (simp add: consume_step_def Let_def)
    show ?thesis
    proof (cases "closing_fence_rest (a\<lparr>asm_pending := ?rest\<rparr>) (py_strip ?line)")
      case None
      have "asm_pending (snd (fence_line_step L ?line (a\<lparr>asm_pending := ?rest\<rparr>))) = ?rest"
        using None by (simp add: fence_line_step_def Let_def)
      then show ?thesis using s l by simp
    next
      case (Some r)
      have "length r + 3 \<le> length ?line" using closing_shorter [OF Some] py_strip_length [of ?line] by simp
      moreover have "length (asm_pending (snd (fence_line_step L ?line (a\<lparr>asm_pending := ?rest\<rparr>)))) \<le> length r + 1 + length ?rest"
        using Some by (simp add: fence_line_step_def Let_def close_fence_def)
      ultimately show ?thesis using s l by simp
    qed
  next
    case tail
    then obtain r where r: "closing_fence_rest (a\<lparr>asm_pending := []\<rparr>) (py_strip ?p) = Some r" "asm_pending b = r"
      by (auto simp: fence_tail_step_def Let_def close_fence_def split: if_splits option.splits)
    then show ?thesis using closing_shorter [OF r(1)] py_strip_length [of ?p] by simp
  next
    case op
    have "asm_pending b = drop (open_at + ticks) ?p"
      using op(3) by (auto simp: open_step_def Let_def case_prod_beta split: if_splits)
    then show ?thesis using fence_from_less [of "asm_buf a" ?p 0 open_at ticks] op(2) by (simp add: fence_opening_def)
  qed
qed

function consume :: "speech_lib \<Rightarrow> bool \<Rightarrow> assembler \<Rightarrow> piece list \<times> assembler" where
  "consume L force a =
     (case consume_step L force a of
        ((out, b), goes_on) \<Rightarrow>
          if goes_on then (let (out2, c) = consume L force b in (out @ out2, c)) else (out, b))"
  by pat_completeness auto
termination
  by (relation "measure (\<lambda>(_, _, a). length (asm_pending a))") (auto dest: consume_step_shrinks [OF sym])

declare consume.simps [simp del]

text \<open>The scan does not touch the indices nor what is known of the block before.\<close>

lemma consume_step_seen:
  "asm_seen (snd (fst (consume_step L force a))) = asm_seen a \<and>
   asm_done (snd (fst (consume_step L force a))) = asm_done a \<and>
   last_break (snd (fst (consume_step L force a))) = last_break a"
  by (simp add: consume_step_def fence_line_step_def fence_tail_step_def open_step_def prose_step_def close_fence_def
      Let_def case_prod_beta split: option.split)

lemma consume_seen:
  "asm_seen (snd (consume L force a)) = asm_seen a \<and> asm_done (snd (consume L force a)) = asm_done a \<and>
   last_break (snd (consume L force a)) = last_break a"
proof (induction L force a rule: consume.induct)
  case (1 L force a)
  obtain out b g where s: "consume_step L force a = ((out, b), g)" by (metis prod.collapse)
  have "asm_seen b = asm_seen a" "asm_done b = asm_done a" "last_break b = last_break a"
    using consume_step_seen [of L force a] s by simp_all
  then show ?case
    using 1 [OF s [symmetric] refl] by (cases g) (simp_all add: consume.simps [of L force a] s case_prod_beta)
qed

section \<open>Feeding deltas\<close>

text \<open>Everything left of a block, read.\<close>

definition read_rest :: "speech_lib \<Rightarrow> assembler \<Rightarrow> piece list \<times> assembler" where
  "read_rest L a = (let (out, a) = consume L True a; (out2, a) = flush_asm L a in (out @ out2, a))"

definition finish_block :: "speech_lib \<Rightarrow> nat \<Rightarrow> assembler \<Rightarrow> piece list \<times> assembler" where
  "finish_block L i a =
     (let (out, a) = read_rest L a
      in (out, (reset_asm a)\<lparr>asm_done := Some (i, asm_seen a)\<rparr>))"

text \<open>A delta that is not a late one of the block before.\<close>

definition feed_fresh :: "speech_lib \<Rightarrow> str \<Rightarrow> nat \<Rightarrow> bool \<Rightarrow> assembler \<Rightarrow> piece list \<times> assembler" where
  "feed_fresh L d i fin a =
     (let (out, a) =
        (if i = 0 \<and> asm_seen a \<noteq> {} then (let (out, a) = read_rest L a in (out, reset_asm a)) else ([], a))
      in if i \<in> asm_seen a then
           (if fin then (let (out2, a) = finish_block L i a in (out @ out2, a)) else (out, a))
         else
           (let (out2, a) = consume L False (a\<lparr>asm_seen := insert i (asm_seen a), asm_pending := asm_pending a @ d\<rparr>);
                (out3, a) = (if fin then finish_block L i a else ([], a))
            in (out @ out2 @ out3, a)))"

definition feed_block :: "speech_lib \<Rightarrow> str \<Rightarrow> nat \<Rightarrow> bool \<Rightarrow> assembler \<Rightarrow> piece list \<times> assembler" where
  "feed_block L d i fin a =
     (case asm_done a of
        Some (final_index, had) \<Rightarrow>
          if 0 < i \<and> i < final_index \<and> i \<notin> had then
            read_rest L (a\<lparr>asm_done := Some (final_index, insert i had), asm_pending := asm_pending a @ d\<rparr>)
          else feed_fresh L d i fin (a\<lparr>asm_done := None\<rparr>)
      | None \<Rightarrow> feed_fresh L d i fin a)"


fun drop_breaks :: "bool \<Rightarrow> asm_chunk list \<Rightarrow> asm_chunk list \<times> bool" where
  "drop_breaks l [] = ([], l)"
| "drop_breaks l (c # cs) =
     (let brk = (c = ParagraphBreak); (kept, l') = drop_breaks brk cs
      in (if brk \<and> l then kept else c # kept, l'))"

definition feed :: "speech_lib \<Rightarrow> str \<Rightarrow> nat \<Rightarrow> bool \<Rightarrow> assembler \<Rightarrow> asm_chunk list \<times> assembler" where
  "feed L d i fin a =
     (let (out, b) = feed_block L d i fin a;
          (kept, l) = drop_breaks (last_break b) (concat (map (emit_piece L) out))
      in (kept, b\<lparr>last_break := l\<rparr>))"

end
