(* ===== verification/Assembler_Words.thy ===== *)
theory Assembler_Words imports Assembler begin

text \<open>
  No word is lost or doubled when prose is cut: the word characters of the pieces, and of what stays in
  the buffer, are those of the text, for text without a table. The ordinals, the blank lines and the
  ends of lines that the cutting rewrites or drops hold no word character.
\<close>

section \<open>Word characters\<close>

definition words :: "str \<Rightarrow> str" where
  "words s = filter is_word s"

definition words_all :: "str list \<Rightarrow> str" where
  "words_all ps = concat (map words ps)"

lemma words_simps [simp]:
  "words [] = []" "words (s @ t) = words s @ words t"
  "words (c # s) = (if is_word c then c # words s else words s)"
  by (simp_all add: words_def)

lemma words_all_simps [simp]:
  "words_all [] = []" "words_all (p # ps) = words p @ words_all ps" "words_all (ps @ qs) = words_all ps @ words_all qs"
  by (simp_all add: words_all_def)

lemma words_concat: "words (concat ps) = words_all ps"
  by (induction ps) simp_all

lemma space_no_word: "is_py_space c \<Longrightarrow> \<not> is_word c"
  by (auto simp: is_py_space_def is_whitespace_def is_word_def)

lemma blank_space: "is_blank c \<Longrightarrow> is_py_space c"
  by (auto simp: is_blank_def is_py_space_def is_whitespace_def)

lemma whitespace_space: "is_whitespace c \<Longrightarrow> is_py_space c"
  by (simp add: is_py_space_def)

lemma words_spaces: "\<forall>c \<in> set s. is_py_space c \<Longrightarrow> words s = []"
  using space_no_word by (auto simp: words_def filter_empty_conv)

lemma words_dropWhile: "(\<And>c. P c \<Longrightarrow> \<not> is_word c) \<Longrightarrow> words (dropWhile P s) = words s"
  by (induction s) auto

lemma words_rev: "words (rev s) = rev (words s)"
  by (simp add: words_def rev_filter)

lemma words_trim_end [simp]: "words (trim_end s) = words s"
  using words_dropWhile [of is_whitespace "rev s"] space_no_word whitespace_space
  by (simp add: trim_end_def words_rev)

section \<open>Sentences\<close>

lemma sentence_captures_words:
  "words_all (fst (sentence_captures s)) @ words (snd (sentence_captures s)) = words s \<and>
   suffix (snd (sentence_captures s)) s"
proof (induction s rule: sentence_captures.induct)
  case (1 s)
  show ?case
  proof (cases "sentence_from [] s")
    case None
    then show ?thesis by (simp add: sentence_captures.simps [of s])
  next
    case (Some x)
    obtain cap rest where x: "x = (cap, rest)" by (cases x)
    obtain ws where ws: "s = cap @ ws @ rest" "\<forall>c \<in> set ws. is_py_space c"
      using sentence_from_parts [of "[]" s cap rest] Some x by auto
    note IH = 1 [OF Some x [symmetric]]
    have "sentence_captures s = (cap # fst (sentence_captures rest), snd (sentence_captures rest))"
      using Some x by (simp add: sentence_captures.simps [of s] case_prod_beta Let_def)
    moreover have "words s = words cap @ words rest" using ws words_spaces [of ws] by simp
    moreover have "suffix rest s" using ws(1) by (metis append.assoc suffixI)
    ultimately show ?thesis using IH suffix_order.trans [of "snd (sentence_captures rest)" rest s] by simp
  qed
qed

lemma split_lines_from_words: "words_all (split_lines_from cur s) = words cur @ words s"
proof (induction cur s rule: split_lines_from.induct)
  case (1 cur)
  then show ?case by simp
next
  case (2 cur c s)
  have "words (if s \<noteq> [] \<and> hd s = 10 then tl s else s) = words s"
    by (cases s) (auto simp: is_word_def)
  moreover have "ends_line c \<or> c = 13 \<Longrightarrow> \<not> is_word c" by (auto simp: ends_line_def is_word_def)
  ultimately show ?case using 2 by auto
qed

lemma prose_sentences_words:
  assumes "prose_sentences s keep = (out, r)"
  shows "words_all out @ words r = words s \<and> (if keep then suffix r s else r = [])"
  using assms sentence_captures_words [of s] split_lines_from_words [of "[]"]
  by (auto simp: prose_sentences_def split_lines_def case_prod_beta split: if_splits)

section \<open>Lists\<close>

lemma add_line_concat: "concat (map fst (add_line L line segs)) = concat (map fst segs) @ line"
  by (cases segs rule: rev_cases) (simp_all add: add_line_def)

lemma list_segments_concat: "concat (map fst (list_segments L s)) = s"
proof -
  have "concat (map fst (fold (add_line L) ls segs)) = concat (map fst segs) @ concat ls" for ls segs
    by (induction ls arbitrary: segs) (simp_all add: add_line_concat)
  from this [of "lines_incl s" "[]"] show ?thesis by (simp add: list_segments_def)
qed

lemma segment_pieces_words:
  "segment_pieces keep segs = (out, r) \<Longrightarrow>
     words_all out @ words r = words (concat (map fst segs)) \<and>
     (if keep then suffix r (concat (map fst segs)) else r = [])"
proof (induction keep segs arbitrary: out r rule: segment_pieces.induct)
  case (1 keep)
  then show ?case by simp
next
  case (2 keep s item segs)
  show ?case
  proof (cases "keep \<and> segs = []")
    case True
    then show ?thesis using 2(2) prose_sentences_words [of s True out r] by (auto split: if_splits)
  next
    case False
    obtain out1 where out1: "segment_pieces keep segs = (out1, r)"
      "out = (if item then [trim_end s] else fst (prose_sentences s False)) @ out1"
      using 2(2) False by (auto simp: Let_def case_prod_beta prod_eq_iff split: if_splits)
    have "words_all (if item then [trim_end s] else fst (prose_sentences s False)) = words s"
      using prose_sentences_words [of s False "fst (prose_sentences s False)" "snd (prose_sentences s False)"] by auto
    then show ?thesis using 2(1) [OF False out1(1)] out1(2) by (auto simp: suffix_appendI)
  qed
qed

lemma list_sentences_words:
  "list_sentences L s keep = (out, r) \<Longrightarrow>
     words_all out @ words r = words s \<and> (if keep then suffix r s else r = [])"
  using segment_pieces_words [of keep "list_segments L s" out r] unfolding list_segments_concat by (simp add: list_sentences_def)

lemma sentences_of_words:
  assumes "124 \<notin> set s" "sentences_of L s keep = (out, r)"
  shows "words_all out @ words r = words s \<and> (if keep then suffix r s else r = [])"
proof (cases keep)
  case True
  obtain out' r' where l: "list_sentences L s True = (out', r')" by fastforce
  then have s: "words_all out' @ words r' = words s" "suffix r' s" using list_sentences_words by fastforce+
  then have "drop (length s - length r') s = r'" by (auto simp: suffix_def)
  then have "out = out'" "r = r'"
    using assms(2) True l by (simp_all add: sentences_of_def hold_from_plain [OF assms(1)])
  then show ?thesis using s True by simp
next
  case False
  have "with_tables L s = fst (list_sentences L s False)"
    by (simp add: with_tables.simps [of L s] find_table_plain [OF assms(1)])
  then have "list_sentences L s False = (out, snd (list_sentences L s False))" "r = []"
    using assms(2) False by (auto simp: sentences_of_def prod_eq_iff)
  then show ?thesis using list_sentences_words [of L s False out] False by fastforce
qed

section \<open>Ordinals\<close>

definition same_but_stops :: "nat \<Rightarrow> nat \<Rightarrow> bool" where
  "same_but_stops a b \<longleftrightarrow> a = b \<or> a = 46 \<and> b = 58"

lemma same_refl: "list_all2 same_but_stops s s"
  by (simp add: list_all2_same same_but_stops_def)

lemma stabilize_same: "list_all2 same_but_stops s (stabilize_from L bol s)"
proof (induction L bol s rule: stabilize_from.induct)
  case (1 L bol s)
  show ?case
  proof (cases "if bol then ordinal_at L s else None")
    case None
    then show ?thesis
    proof (cases s)
      case Nil
      then show ?thesis using None by (simp add: stabilize_from.simps [of L bol "[]"] ordinal_at_def)
    next
      case (Cons c u)
      have "stabilize_from L bol (c # u) = c # stabilize_from L (c = 10) u"
        by (subst stabilize_from.simps) (simp only: None [unfolded Cons] option.case list.case)
      moreover have "list_all2 same_but_stops u (stabilize_from L (c = 10) u)" using 1 None Cons by simp
      moreover have "same_but_stops c c" by (simp add: same_but_stops_def)
      ultimately show ?thesis using Cons by simp
    qed
  next
    case (Some x)
    obtain out rest where x: "x = (out, rest)" by (cases x)
    obtain a b where ab: "s = a @ [46] @ b @ rest" "out = a @ [58] @ b"
      using ordinal_at_parts [of L s out rest] Some x by (auto split: if_splits)
    have "list_all2 same_but_stops (a @ [46] @ b @ rest) (a @ [58] @ b @ stabilize_from L (last out = 10) rest)"
      using 1(2) [OF Some] x by (intro list_all2_appendI same_refl) (simp_all, simp add: same_but_stops_def)
    moreover have "stabilize_from L bol s = out @ stabilize_from L (last out = 10) rest"
      by (subst stabilize_from.simps) (simp only: Some x option.case prod.case)
    ultimately show ?thesis using ab by simp
  qed
qed

lemma same_words: "list_all2 same_but_stops s t \<Longrightarrow> words t = words s"
  by (induction s t rule: list_all2_induct) (auto simp: same_but_stops_def is_word_def)

lemma same_pipe: "list_all2 same_but_stops s t \<Longrightarrow> 124 \<in> set t \<longleftrightarrow> 124 \<in> set s"
  by (induction s t rule: list_all2_induct) (auto simp: same_but_stops_def)

lemma stabilize_drop:
  "length (stabilize_ordinals L s) = length s" "words (drop n (stabilize_ordinals L s)) = words (drop n s)"
  "124 \<in> set (drop n (stabilize_ordinals L s)) \<longleftrightarrow> 124 \<in> set (drop n s)"
  using stabilize_same [of s L True] same_words [OF list_all2_dropI, of s _ n] same_pipe [OF list_all2_dropI, of s _ n]
  by (simp_all add: stabilize_ordinals_def list_all2_lengthD)


section \<open>Paragraphs\<close>

definition para_free :: "str \<Rightarrow> bool" where
  "para_free s \<longleftrightarrow> (\<forall>x b y. s = x @ [10] @ b @ [10] @ y \<longrightarrow> \<not> (\<forall>c \<in> set b. is_blank c))"

text \<open>A text is its first paragraph, or that, a blank line and the rest.\<close>

lemma split_para_from_cases:
  "split_para_from cur s = [cur @ s] \<and> (\<forall>x b y. s = x @ [10] @ b @ [10] @ y \<longrightarrow> \<not> (\<forall>c \<in> set b. is_blank c)) \<or>
   (\<exists>p b rest. s = p @ [10] @ b @ [10] @ rest \<and> (\<forall>c \<in> set b. is_blank c) \<and>
      split_para_from cur s = (cur @ p) # split_para_from [] rest)"
proof (induction cur s rule: split_para_from.induct)
  case (1 cur)
  then show ?case by simp
next
  case (2 cur c s)
  let ?r = "dropWhile is_blank s"
  show ?case
  proof (cases "c = 10 \<and> ?r \<noteq> [] \<and> hd ?r = 10")
    case True
    have "s = takeWhile is_blank s @ ?r" by simp
    also have "?r = [10] @ tl ?r" using True by (cases ?r) auto
    finally have "c # s = [] @ [10] @ takeWhile is_blank s @ [10] @ tl ?r" using True by simp
    moreover have "\<forall>c \<in> set (takeWhile is_blank s). is_blank c" by (auto dest: set_takeWhileD)
    moreover have "split_para_from cur (c # s) = (cur @ []) # split_para_from [] (tl ?r)" using True by (simp add: Let_def)
    ultimately show ?thesis by blast
  next
    case False
    then have eq: "split_para_from cur (c # s) = split_para_from (cur @ [c]) s" by (auto simp: Let_def)
    have first: "\<not> (\<forall>d \<in> set b. is_blank d)" if "c # s = [10] @ b @ [10] @ y" for b y
    proof
      assume "\<forall>d \<in> set b. is_blank d"
      then have "dropWhile is_blank s = [10] @ y" using that by (simp add: is_blank_def)
      then show False using False that by simp
    qed
    from 2(2) [OF refl False] show ?thesis
    proof
      assume l: "split_para_from (cur @ [c]) s = [(cur @ [c]) @ s] \<and>
        (\<forall>x b y. s = x @ [10] @ b @ [10] @ y \<longrightarrow> \<not> (\<forall>c \<in> set b. is_blank c))"
      have "\<not> (\<forall>d \<in> set b. is_blank d)" if "c # s = x @ [10] @ b @ [10] @ y" for x b y
      proof (cases x)
        case Nil
        then show ?thesis using first that by simp
      next
        case (Cons d z)
        then have "s = z @ [10] @ b @ [10] @ y" using that by simp
        then show ?thesis using l by blast
      qed
      then show ?thesis using l eq by simp
    next
      assume "\<exists>p b rest. s = p @ [10] @ b @ [10] @ rest \<and> (\<forall>c \<in> set b. is_blank c) \<and>
        split_para_from (cur @ [c]) s = ((cur @ [c]) @ p) # split_para_from [] rest"
      then obtain p b rest where "s = p @ [10] @ b @ [10] @ rest" "\<forall>c \<in> set b. is_blank c"
        "split_para_from (cur @ [c]) s = ((cur @ [c]) @ p) # split_para_from [] rest" by blast
      then show ?thesis using eq by (intro disjI2 exI [of _ "c # p"] exI [of _ b] exI [of _ rest]) simp
    qed
  qed
qed

lemma split_para_cases:
  obtains (last) "split_para s = [s]" "para_free s"
  | (more) p b rest where "s = p @ [10] @ b @ [10] @ rest" "\<forall>c \<in> set b. is_blank c" "split_para s = p # split_para rest"
  using split_para_from_cases [of "[]" s] unfolding split_para_def para_free_def by auto

lemma split_para_nonempty [simp]: "split_para s \<noteq> []"
  using split_para_cases [of s] by fastforce

text \<open>The paragraphs after the first one, and what the last one keeps of the text.\<close>

lemma split_para_words: "words_all (split_para s) = words s"
proof (induction "length s" arbitrary: s rule: less_induct)
  case less
  show ?case
  proof (cases rule: split_para_cases [of s])
    case last
    then show ?thesis by simp
  next
    case (more p b rest)
    have "words b = []" using more(2) blank_space by (intro words_spaces) blast
    then show ?thesis using less [of rest] more by (simp add: is_word_def)
  qed
qed

lemma split_para_last:
  "para_free (last (split_para s)) \<and> suffix (last (split_para s)) s \<and>
   (split_para s = [s] \<or> suffix (10 # last (split_para s)) s)"
proof (induction "length s" arbitrary: s rule: less_induct)
  case less
  show ?case
  proof (cases rule: split_para_cases [of s])
    case last
    then show ?thesis by simp
  next
    case (more p b rest)
    then have "s = (p @ [10] @ b) @ 10 # rest" by simp
    then have s: "suffix (10 # rest) s" by (metis suffixI)
    have "suffix rest (10 # rest)" by (simp add: suffix_ConsI)
    then have r: "suffix rest s" using s suffix_order.trans by blast
    have IH: "para_free (last (split_para rest))" "suffix (last (split_para rest)) rest"
      "split_para rest = [rest] \<or> suffix (10 # last (split_para rest)) rest"
      using less [of rest] more by simp_all
    have "suffix (10 # last (split_para rest)) s" using IH(3) s r suffix_order.trans by (metis last.simps)
    then show ?thesis using IH(1,2) r more(3) suffix_order.trans by auto
  qed
qed

lemma split_para_subset: "p \<in> set (split_para s) \<Longrightarrow> set p \<subseteq> set s"
proof (induction "length s" arbitrary: s rule: less_induct)
  case less
  show ?case
  proof (cases rule: split_para_cases [of s])
    case last
    then show ?thesis using less by simp
  next
    case (more q b rest)
    then show ?thesis using less(1) [of rest] less(2) by auto
  qed
qed

text \<open>The characters of the first paragraph that are already emitted end within its blank line.\<close>

lemma emitted_in_first:
  assumes "para_free old" "e \<le> length old" "old @ s = p @ [10] @ b @ [10] @ rest" "\<forall>c \<in> set b. is_blank c"
  shows "words (drop (min e (length p)) p) @ words rest = words (drop e (old @ s))"
proof -
  have "\<not> length (p @ [10] @ b @ [10]) \<le> length old"
  proof
    assume "length (p @ [10] @ b @ [10]) \<le> length old"
    moreover have "prefix (p @ [10] @ b @ [10]) (old @ s)" unfolding assms(3) by simp
    ultimately have "prefix (p @ [10] @ b @ [10]) old" by (metis prefix_length_prefix prefixI)
    then obtain z where "old = p @ [10] @ b @ [10] @ z" by (auto simp: prefix_def)
    then show False using assms(1,4) unfolding para_free_def by blast
  qed
  then have e: "e - length p < length b + 2" using assms(2) by simp
  have sp: "words (drop n ([10] @ b @ [10])) = []" for n
  proof (rule words_spaces, rule ballI)
    fix c assume "c \<in> set (drop n ([10] @ b @ [10]))"
    then have "c \<in> set ([10] @ b @ [10])" by (rule in_set_dropD)
    then have "c = 10 \<or> is_blank c" using assms(4) by auto
    then show "is_py_space c" using blank_space by (auto simp: is_py_space_def is_whitespace_def)
  qed
  have "drop e (p @ ([10] @ b @ [10]) @ rest) = drop e p @ drop (e - length p) ([10] @ b @ [10]) @ rest"
    using e by (simp only: drop_append) simp
  then have "drop e (old @ s) = drop e p @ drop (e - length p) ([10] @ b @ [10]) @ rest"
    using assms(3) by simp
  moreover have "drop (min e (length p)) p = drop e p" by (simp add: min_def)
  ultimately show ?thesis using sp [of "e - length p"] by simp
qed


section \<open>The buffer\<close>

text \<open>What an assembler hands out, for a reader: the word characters of prose and the code blocks.\<close>

datatype reading = Letter nat | Block str "str list"

fun content_of :: "piece \<Rightarrow> reading list" where
  "content_of (Prose_Piece s) = map Letter (words s)"
| "content_of (Fence_Piece lang ls) = [Block lang ls]"
| "content_of Para_End = []"

definition content :: "piece list \<Rightarrow> reading list" where
  "content ps = concat (map content_of ps)"

lemma content_simps [simp]:
  "content [] = []" "content (p # ps) = content_of p @ content ps" "content (ps @ qs) = content ps @ content qs"
  "content (map Prose_Piece ss) = map Letter (words_all ss)"
  by (simp_all add: content_def words_all_def map_concat comp_def)

text \<open>The words of the buffer not read yet.\<close>

definition unread_words :: "assembler \<Rightarrow> reading list" where
  "unread_words a = map Letter (words (drop (emitted a) (asm_buf a)))"

definition buf_ok :: "assembler \<Rightarrow> bool" where
  "buf_ok a \<longleftrightarrow> para_free (asm_buf a) \<and> emitted a \<le> length (asm_buf a)"

lemma words_drop_view:
  assumes "124 \<notin> set s" "sentences_of L (drop n (stabilize_ordinals L s)) keep = (out, r)" "n \<le> length s"
  shows "words_all out @ words (drop (length s - length r) s) = words (drop n s) \<and> (\<not> keep \<longrightarrow> r = []) \<and> length r \<le> length s"
proof -
  let ?v = "stabilize_ordinals L s"
  have "124 \<notin> set (drop n ?v)" using assms(1) stabilize_drop(3) [of n L s] by (auto dest: in_set_dropD)
  then have w: "words_all out @ words r = words (drop n s)" "if keep then suffix r (drop n ?v) else r = []"
    using sentences_of_words [OF _ assms(2)] stabilize_drop(2) by simp_all
  have "suffix r ?v" using w(2) suffix_drop suffix_order.trans by (metis (full_types) suffix_bot.extremum)
  then have "r = drop (length s - length r) ?v" "length r \<le> length s"
    using stabilize_drop(1) [of L s] by (auto simp: suffix_def)
  then have "words r = words (drop (length s - length r) s)" using stabilize_drop(2) by metis
  then show ?thesis using w \<open>length r \<le> length s\<close> by (auto split: if_splits)
qed

lemma words_view_all:
  assumes "124 \<notin> set s" "n \<le> length s"
  shows "words_all (fst (sentences_of L (drop n (stabilize_ordinals L s)) False)) = words (drop n s)"
proof -
  obtain out r where s: "sentences_of L (drop n (stabilize_ordinals L s)) False = (out, r)" by fastforce
  show ?thesis using words_drop_view [OF assms(1) s assms(2)] s by auto
qed

lemma complete_pieces_content:
  assumes "\<forall>q \<in> set (p # ps). 124 \<notin> set q"
  shows "content (complete_pieces L e (p # ps)) = map Letter (words (drop (min e (length p)) p) @ words_all ps)"
  using assms
proof (induction ps arbitrary: e p)
  case Nil
  then show ?case using words_view_all [of p "min e (length p)" L] by simp
next
  case (Cons q ps)
  then show ?case using words_view_all [of p "min e (length p)" L] Cons.IH [of q 0] by simp
qed

lemma after_newline_append: "after_newline (x @ 10 # y) = after_newline (10 # y)"
  by (simp add: after_newline_def takeWhile_tail)

lemma after_newline_suffix: "s = t \<or> suffix (10 # t) s \<Longrightarrow> after_newline t = after_newline s"
  by (auto simp: suffix_def after_newline_def takeWhile_append takeWhile_tail dest: takeWhile_eq_all_conv [THEN iffD2])

lemma split_sentences_content:
  assumes "asm_buf a = old @ s" "para_free old" "emitted a \<le> length old" "124 \<notin> set (asm_buf a)"
    and "split_sentences L a = (out, b)"
  shows "content out @ unread_words b = unread_words a" "buf_ok b" "set (asm_buf b) \<subseteq> set (asm_buf a)"
    "after_newline (asm_buf b) = after_newline (asm_buf a)"
proof -
  let ?ps = "split_para (asm_buf a)"
  define last_raw where "last_raw = last ?ps"
  define e where "e = (if butlast ?ps = [] then emitted a else 0)"
  define sr where "sr = sentences_of L (drop (min e (length last_raw)) (stabilize_ordinals L last_raw)) True"
  have o: "out = complete_pieces L (emitted a) (butlast ?ps) @ map Prose_Piece (fst sr)"
    and b: "b = a\<lparr>emitted := length last_raw - length (snd sr), asm_buf := last_raw\<rparr>"
    using assms(5) by (simp_all add: split_sentences_def Let_def case_prod_beta sr_def e_def last_raw_def)
  note l = split_para_last [of "asm_buf a"]
  have pipes: "\<forall>p \<in> set ?ps. 124 \<notin> set p" using split_para_subset assms(4) by blast
  then have lp: "124 \<notin> set last_raw" by (simp add: last_raw_def)
  have v: "words_all (fst sr) @ words (drop (emitted b) (asm_buf b)) = words (drop (min e (length last_raw)) last_raw)"
    using words_drop_view [OF lp, of L "min e (length last_raw)" True "fst sr" "snd sr"] by (simp add: b sr_def)
  show "buf_ok b" using l by (simp add: buf_ok_def b last_raw_def)
  show "set (asm_buf b) \<subseteq> set (asm_buf a)" using split_para_subset [of last_raw "asm_buf a"] by (simp add: b last_raw_def)
  show "after_newline (asm_buf b) = after_newline (asm_buf a)"
    using l by (intro after_newline_suffix) (auto simp: b last_raw_def)
  show "content out @ unread_words b = unread_words a"
  proof (cases rule: split_para_cases [of "asm_buf a"])
    case last
    then have "last_raw = asm_buf a" "e = emitted a" "out = map Prose_Piece (fst sr)" by (simp_all add: last_raw_def e_def o)
    then show ?thesis using v assms(1,3) by (simp add: unread_words_def map_append [symmetric] del: map_append)
  next
    case (more p q rest)
    have ps: "?ps = p # butlast (split_para rest) @ [last_raw]" "butlast ?ps = p # butlast (split_para rest)" "e = 0"
      using more(3) by (simp_all add: last_raw_def e_def)
    have "content out = map Letter (words (drop (min (emitted a) (length p)) p) @ words_all (butlast (split_para rest)) @ words_all (fst sr))"
      using complete_pieces_content [of p "butlast (split_para rest)" L "emitted a"] pipes ps by (simp add: o)
    moreover have "words_all (butlast (split_para rest)) @ words last_raw = words rest"
      using split_para_words [of rest] more(3) by (metis append_butlast_last_id last.simps last_raw_def split_para_nonempty
          words_all_simps append_Nil2)
    moreover have "words (drop (min (emitted a) (length p)) p) @ words rest = words (drop (emitted a) (asm_buf a))"
      using emitted_in_first [OF assms(2,3), of s p q rest] more assms(1) by simp
    ultimately show ?thesis using v ps(3) by (simp add: unread_words_def) (metis append.assoc map_append)
  qed
qed

lemma flush_asm_content:
  assumes "buf_ok a" "124 \<notin> set (asm_buf a)" "flush_asm L a = (out, b)"
  shows "content out = unread_words a" "asm_buf b = []" "emitted b = 0"
proof -
  let ?n = "min (emitted a) (length (asm_buf a))"
  have "words_all (fst (sentences_of L (drop ?n (stabilize_ordinals L (asm_buf a))) False)) = words (drop ?n (asm_buf a))"
    using words_view_all [OF assms(2), of ?n L] by simp
  then show "content out = unread_words a" "asm_buf b = []" "emitted b = 0"
    using assms(1,3) by (auto simp: flush_asm_def buf_ok_def unread_words_def split: if_splits)
qed

end
