(* ===== verification/Assembler_Read.thy ===== *)
theory Assembler_Read imports Assembler_Words begin

text \<open>
  The reply read line by line, all at once: a reference for the streaming scan of \<open>consume\<close>, and what is
  left to read in a state of the assembler.
\<close>

section \<open>The reference\<close>

text \<open>The lines of a text (at least one).\<close>

fun split_nl :: "str \<Rightarrow> str list" where
  "split_nl [] = [[]]"
| "split_nl (c # s) = (if c = 10 then [] # split_nl s else (c # hd (split_nl s)) # tl (split_nl s))"

text \<open>A line opens a fence: an indent, at least three backticks and an info string without one.\<close>

definition opening_line :: "str \<Rightarrow> (nat \<times> str) option" where
  "opening_line l =
     (let r = dropWhile is_blank l; t = tick_run r; info = drop t r
      in if 3 \<le> t \<and> 96 \<notin> set info then Some (t, info) else None)"

text \<open>A line closes it: as many backticks, then nothing or a blank and text that is read as prose.\<close>

definition closing_line :: "nat \<Rightarrow> str \<Rightarrow> str option" where
  "closing_line ticks l =
     (let s = py_strip l; t = tick_run s; r = drop t s
      in if max ticks 3 \<le> t \<and> (r = [] \<or> is_blank (hd r)) then Some (py_strip r) else None)"

definition letters :: "str \<Rightarrow> reading list" where
  "letters s = map Letter (filter (\<lambda>c. \<not> is_py_space c) s)"

lemma closing_line_shorter: "closing_line ticks l = Some r \<Longrightarrow> length r < length l"
proof -
  assume c: "closing_line ticks l = Some r"
  let ?s = "py_strip l"
  have "3 \<le> tick_run ?s" "r = py_strip (drop (tick_run ?s) ?s)"
    using c by (auto simp: closing_line_def Let_def split: if_splits)
  moreover have "tick_run ?s \<le> length ?s" by (simp add: tick_run_def length_takeWhile_le)
  ultimately show ?thesis using py_strip_length [of "drop (tick_run ?s) ?s"] py_strip_length [of l] by simp
qed

function read_prose :: "str list \<Rightarrow> reading list"
  and read_fence :: "nat \<Rightarrow> str \<Rightarrow> str list \<Rightarrow> str list \<Rightarrow> reading list" where
  "read_prose [] = []"
| "read_prose (l # ls) =
     (case opening_line l of
        Some (t, info) \<Rightarrow> read_fence t (py_strip info) [] ls
      | None \<Rightarrow> letters l @ read_prose ls)"
| "read_fence t lang b [] = [Block lang b]"
| "read_fence t lang b (l # ls) =
     (case closing_line t l of
        Some r \<Rightarrow> Block lang b # (if r = [] then read_prose ls else read_prose (r # ls))
      | None \<Rightarrow> if ls = [] \<and> py_strip l = [] then [Block lang b] else read_fence t lang (b @ [l]) ls)"
  by pat_completeness auto
termination
  by (relation "measure (\<lambda>x. case x of Inl ls \<Rightarrow> sum_list (map (\<lambda>l. length l + 1) ls)
      | Inr (_, _, _, ls) \<Rightarrow> sum_list (map (\<lambda>l. length l + 1) ls))")
    (auto dest: closing_line_shorter)

text \<open>The reply read at once.\<close>

definition reading_of :: "str \<Rightarrow> reading list" where
  "reading_of s = read_prose (split_nl s)"

text \<open>What is heard of it: the word characters, and the blocks.\<close>

definition heard_of :: "reading list \<Rightarrow> reading list" where
  "heard_of rs = filter (\<lambda>r. case r of Letter c \<Rightarrow> is_word c | Block _ _ \<Rightarrow> True) rs"

lemma heard_of_simps [simp]:
  "heard_of [] = []" "heard_of (xs @ ys) = heard_of xs @ heard_of ys" "heard_of (Block lang b # xs) = Block lang b # heard_of xs"
  "heard_of (letters s) = map Letter (words s)"
proof -
  show "heard_of (letters s) = map Letter (words s)"
    by (induction s) (auto simp: heard_of_def letters_def dest: space_no_word)
qed (simp_all add: heard_of_def)

lemma letters_simps [simp]: "letters [] = []" "letters (s @ t) = letters s @ letters t"
  by (simp_all add: letters_def)

lemma letters_blank: "all_blank s \<Longrightarrow> letters s = []"
  using blank_space by (auto simp: letters_def all_blank_def)

lemma letter_in: "\<not> is_py_space c \<Longrightarrow> Letter c \<in> set (letters s) \<longleftrightarrow> c \<in> set s"
  by (auto simp: letters_def)

lemma pipe_in: "Letter 124 \<in> set (letters s) \<longleftrightarrow> 124 \<in> set s"
  by (rule letter_in) (simp add: is_py_space_def is_whitespace_def)

section \<open>Lines\<close>

lemma split_nl_nonempty [simp]: "split_nl s \<noteq> []"
  by (cases s) simp_all

lemma split_nl_line: "10 \<notin> set l \<Longrightarrow> split_nl (l @ s) = (l @ hd (split_nl s)) # tl (split_nl s)"
  by (induction l) simp_all

lemma split_nl_newline: "10 \<notin> set l \<Longrightarrow> split_nl (l @ 10 # s) = l # split_nl s"
  by (simp add: split_nl_line)

lemma split_nl_one: "10 \<notin> set l \<Longrightarrow> split_nl l = [l]"
  using split_nl_line [of l "[]"] by simp

lemma split_nl_append:
  "split_nl (s @ t) = butlast (split_nl s) @ (last (split_nl s) @ hd (split_nl t)) # tl (split_nl t)"
proof (induction s)
  case Nil
  then show ?case by simp
next
  case (Cons c s)
  then show ?case by (cases "split_nl s") auto
qed

lemma split_nl_no_newline: "l \<in> set (split_nl s) \<Longrightarrow> 10 \<notin> set l"
proof (induction s arbitrary: l)
  case (Cons c s)
  then show ?case by (cases "split_nl s") (auto split: if_splits)
qed simp

lemma letters_lines: "letters (concat (split_nl s)) = letters s"
proof (induction s)
  case (Cons c s)
  then show ?case by (cases "split_nl s") (auto simp: letters_def is_py_space_def is_whitespace_def)
qed simp

lemma last_split_nl: "last (split_nl s) = after_newline s"
proof (induction s rule: rev_induct)
  case Nil
  then show ?case by (simp add: after_newline_def)
next
  case (snoc c s)
  then show ?case by (simp add: split_nl_append after_newline_def)
qed

lemma split_nl_single: "split_nl s = [l] \<Longrightarrow> l = s \<and> 10 \<notin> set s"
proof (induction s arbitrary: l)
  case (Cons c s)
  then show ?case by (cases "split_nl s") (auto split: if_splits)
qed simp

section \<open>Prose that opens no fence\<close>

text \<open>The end of the text does not open a fence, whatever follows on its line.\<close>

definition decided :: "str \<Rightarrow> bool" where
  "decided l \<longleftrightarrow> (let r = dropWhile is_blank l in tick_run r < 3 \<and> tick_run r < length r)"

fun safe_lines :: "str list \<Rightarrow> bool" where
  "safe_lines [] \<longleftrightarrow> True"
| "safe_lines [l] \<longleftrightarrow> all_blank l \<or> decided l"
| "safe_lines (l # ls) \<longleftrightarrow> opening_line l = None \<and> safe_lines ls"

lemma tick_run_append: "tick_run r < length r \<Longrightarrow> tick_run (r @ s) = tick_run r"
proof (induction r)
  case (Cons c r)
  then show ?case by (auto simp: tick_run_def)
qed simp

lemma decided_opens: "decided l \<Longrightarrow> opening_line (l @ s) = None"
proof -
  assume d: "decided l"
  let ?r = "dropWhile is_blank l"
  have "tick_run ?r < length ?r" using d by (simp add: decided_def Let_def)
  then have "?r \<noteq> []" by (metis length_0_conv not_less_zero)
  then have "dropWhile is_blank (l @ s) = ?r @ s" by (auto simp: dropWhile_append)
  then show ?thesis using d tick_run_append [of ?r s] by (simp add: opening_line_def decided_def Let_def)
qed

lemma opening_line_blank: "all_blank b \<Longrightarrow> opening_line (b @ l) = opening_line l"
  by (simp add: opening_line_def all_blank_def dropWhile_append2)

lemma read_prose_blank: "all_blank b \<Longrightarrow> read_prose ((b @ l) # ls) = read_prose (l # ls)"
  by (simp add: opening_line_blank letters_blank split: option.split)

lemma read_safe:
  "safe_lines ls \<Longrightarrow> ls \<noteq> [] \<Longrightarrow>
     read_prose (butlast ls @ (last ls @ h) # tls) =
     letters (concat ls) @ (if all_blank (last ls) then read_prose (h # tls) else letters h @ read_prose tls)"
proof (induction ls rule: safe_lines.induct)
  case (2 l)
  then show ?case
    using decided_opens [of l h] read_prose_blank [of l h tls] by (auto simp: letters_blank)
qed simp_all

text \<open>What remains to be read in prose, when the line so far is blank (\<open>bl\<close>) or not.\<close>

definition rest_of_prose :: "bool \<Rightarrow> str \<Rightarrow> reading list" where
  "rest_of_prose bl t =
     (if bl then read_prose (split_nl t) else letters (hd (split_nl t)) @ read_prose (tl (split_nl t)))"

definition safe_text :: "bool \<Rightarrow> str \<Rightarrow> bool" where
  "safe_text bl c \<longleftrightarrow> (if bl then safe_lines (split_nl c) else safe_lines (tl (split_nl c)))"

definition line_blank :: "bool \<Rightarrow> str \<Rightarrow> bool" where
  "line_blank bl c \<longleftrightarrow> all_blank (after_newline c) \<and> (10 \<in> set c \<or> bl)"

lemma rest_of_prose_append:
  assumes "safe_text bl c"
  shows "rest_of_prose bl (c @ t) = letters c @ rest_of_prose (line_blank bl c) t"
proof -
  let ?h = "hd (split_nl t)" and ?tl = "tl (split_nl t)"
  have l: "after_newline c = last (split_nl c)" by (simp add: last_split_nl)
  show ?thesis
  proof (cases "bl \<or> tl (split_nl c) = []")
    case False
    then obtain l0 ls where ls: "split_nl c = l0 # ls" "ls \<noteq> []" by (cases "split_nl c") auto
    then have nl: "10 \<in> set c" using split_nl_one by fastforce
    have "rest_of_prose bl (c @ t) = letters l0 @ read_prose (butlast ls @ (last ls @ ?h) # ?tl)"
      using False ls by (simp add: rest_of_prose_def split_nl_append)
    also have "\<dots> = letters l0 @ letters (concat ls) @ rest_of_prose (all_blank (last ls)) t"
      using read_safe [of ls ?h ?tl] assms False ls by (simp add: safe_text_def rest_of_prose_def)
    finally have "rest_of_prose bl (c @ t) = letters l0 @ letters (concat ls) @ rest_of_prose (all_blank (last ls)) t" .
    moreover have "letters c = letters l0 @ letters (concat ls)" using letters_lines [of c] ls by simp
    ultimately show ?thesis using l ls nl by (simp add: line_blank_def)
  next
    case True
    show ?thesis
    proof (cases bl)
      case True
      have "rest_of_prose bl (c @ t) = letters (concat (split_nl c)) @ rest_of_prose (all_blank (last (split_nl c))) t"
        using read_safe [of "split_nl c" ?h ?tl] assms True
        by (simp add: safe_text_def rest_of_prose_def split_nl_append)
      then show ?thesis using True l by (simp add: line_blank_def letters_lines)
    next
      case bl: False
      then have "split_nl c = [c]" "10 \<notin> set c" using True split_nl_single [of c] by (cases "split_nl c"; fastforce)+
      then show ?thesis using bl by (simp add: rest_of_prose_def split_nl_append line_blank_def)
    qed
  qed
qed

lemma read_no_fence: "\<forall>l \<in> set ls. opening_line l = None \<Longrightarrow> read_prose ls = letters (concat ls)"
  by (induction ls) simp_all

lemma rest_of_prose_plain:
  assumes "\<forall>l \<in> set (if bl then split_nl c else tl (split_nl c)). opening_line l = None"
  shows "rest_of_prose bl c = letters c"
proof (cases bl)
  case True
  then show ?thesis using assms read_no_fence by (simp add: rest_of_prose_def letters_lines)
next
  case False
  then have "rest_of_prose bl c = letters (concat (split_nl c))"
    using assms read_no_fence [of "tl (split_nl c)"] by (cases "split_nl c") (simp_all add: rest_of_prose_def)
  then show ?thesis by (simp add: letters_lines)
qed

end
