(* ===== verification/Assembler_Scan.thy ===== *)
theory Assembler_Scan imports Assembler_Read begin

text \<open>
  The scan of \<open>consume\<close> reads what the reference reads: each of its steps takes something off what is left
  to read and hands out the same, or keeps it in the buffer.
\<close>

section \<open>Where a fence opens\<close>

definition opens :: "bool \<Rightarrow> str \<Rightarrow> nat \<Rightarrow> bool" where
  "opens bl s j \<longleftrightarrow> prefix [96, 96, 96] (drop j s) \<and> line_blank bl (take j s)"

lemma after_newline_simps [simp]:
  "after_newline [] = []" "after_newline (s @ [c]) = (if c = 10 then [] else after_newline s @ [c])"
  "after_newline (x @ 10 # y) = after_newline y"
  by (simp_all add: after_newline_def takeWhile_tail)

lemma after_newline_none: "10 \<notin> set s \<Longrightarrow> after_newline s = s"
proof -
  assume "10 \<notin> set s"
  then have "takeWhile (\<lambda>c. c \<noteq> 10) (rev s) = rev s" by (intro takeWhile_eq_all_conv [THEN iffD2]) auto
  then have "rev (takeWhile (\<lambda>c. c \<noteq> 10) (rev s)) = rev (rev s)" by (rule arg_cong)
  then show "after_newline s = s" unfolding after_newline_def by (simp only: rev_rev_ident)
qed

lemma after_newline_add: "10 \<notin> set s \<Longrightarrow> after_newline (x @ s) = after_newline x @ s"
  by (induction s rule: rev_induct) (simp_all del: append_assoc add: append_assoc [symmetric])

lemma all_blank_simps [simp]: "all_blank []" "all_blank (s @ t) \<longleftrightarrow> all_blank s \<and> all_blank t"
  "all_blank (c # s) \<longleftrightarrow> is_blank c \<and> all_blank s"
  by (auto simp: all_blank_def)

lemma tick_not_blank: "\<not> is_blank 96"
  by (simp add: is_blank_def)

lemma line_blank_newline: "line_blank bl (x @ 10 # y) = line_blank True y"
  by (simp add: line_blank_def)

lemma line_blank_short: "10 \<notin> set s \<Longrightarrow> line_blank bl s \<longleftrightarrow> bl \<and> all_blank s"
  by (auto simp: line_blank_def after_newline_none)

lemma buffer_line_blank: "all_blank (after_newline (x @ s)) = line_blank (all_blank (after_newline x)) s"
proof (cases "10 \<in> set s")
  case True
  then obtain u v where "s = u @ 10 # v" by (meson split_list)
  then show ?thesis using after_newline_simps(3) [of "x @ u" v] by (simp add: line_blank_newline) (simp add: line_blank_def)
next
  case False
  then show ?thesis by (auto simp: line_blank_short after_newline_add)
qed

text \<open>\<open>fence_opening\<close> finds the first of these places.\<close>

lemma in_run_no_opens:
  assumes "at < j" "j < at + tick_run (drop at s)"
  shows "\<not> opens bl s j"
proof -
  let ?k = "j - at - 1"
  have k: "?k < length (takeWhile (\<lambda>c. c = 96) (drop at s))" using assms by (simp add: tick_run_def)
  then have "drop at s ! ?k = 96" by (metis (mono_tags, lifting) nth_mem set_takeWhileD takeWhile_nth)
  moreover have "?k < length (drop at s)" using k length_takeWhile_le less_le_trans by blast
  ultimately have "s ! (j - 1) = 96" "j - 1 < length s" using assms(1) by simp_all
  then have "take j s = take (j - 1) s @ [96]" using assms(1) by (metis Suc_diff_1 take_Suc_conv_app_nth less_zeroE neq0_conv)
  then show ?thesis by (simp add: opens_def line_blank_def tick_not_blank)
qed

lemma fence_from_first:
  "case fence_from buf s start of
     None \<Rightarrow> \<forall>j \<ge> start. \<not> opens (all_blank (after_newline buf)) s j
   | Some (at, t) \<Rightarrow> opens (all_blank (after_newline buf)) s at \<and> start \<le> at \<and>
       (\<forall>j. start \<le> j \<and> j < at \<longrightarrow> \<not> opens (all_blank (after_newline buf)) s j)"
proof (induction buf s start rule: fence_from.induct)
  case (1 buf s start)
  let ?o = "opens (all_blank (after_newline buf)) s"
  show ?case
  proof (cases "find_ticks (drop start s)")
    case None
    have none: "find_ticks u = None \<Longrightarrow> \<not> prefix [96, 96, 96] (drop i u)" for u i
    proof (induction u arbitrary: i)
      case (Cons c u)
      then show ?case by (cases i) (auto split: if_splits)
    qed simp
    have "\<not> ?o j" if "start \<le> j" for j
      using none [OF None, of "j - start"] that by (simp add: opens_def)
    then show ?thesis using None by (simp add: fence_from.simps [of buf s start])
  next
    case (Some rel)
    let ?at = "start + rel" and ?t = "tick_run (drop (start + rel) s)"
    note f = find_ticks_Some [OF Some]
    have p: "prefix [96, 96, 96] (drop ?at s)" using f by (simp add: add.commute)
    have early: "\<not> ?o j" if "start \<le> j" "j < ?at" for j
    proof -
      have "j - start < rel" using that by simp
      then have "\<not> prefix [96, 96, 96] (drop (j - start) (drop start s))" using f by blast
      then show ?thesis using that by (simp add: opens_def)
    qed
    show ?thesis
    proof (cases "line_blank (all_blank (after_newline buf)) (take ?at s)")
      case True
      then have "fence_from buf s start = Some (?at, ?t)"
        using Some by (simp add: fence_from.simps [of buf s start] Let_def line_blank_def)
      then show ?thesis using p True early by (simp add: opens_def)
    next
      case False
      then have eq: "fence_from buf s start = fence_from buf s (?at + ?t)"
        using Some by (subst fence_from.simps) (auto simp: Let_def line_blank_def)
      have "\<not> ?o ?at" using False by (simp add: opens_def)
      then have run: "\<not> ?o j" if "start \<le> j" "j < ?at + ?t" for j
        using early [OF that(1)] in_run_no_opens [of ?at j s] that(2) by (cases "j < ?at"; cases "j = ?at") auto
      have IH: "case fence_from buf s (?at + ?t) of
          None \<Rightarrow> \<forall>j \<ge> ?at + ?t. \<not> ?o j
        | Some (at, t) \<Rightarrow> ?o at \<and> ?at + ?t \<le> at \<and> (\<forall>j. ?at + ?t \<le> j \<and> j < at \<longrightarrow> \<not> ?o j)"
        using 1 [OF Some refl refl refl refl] False by (simp add: line_blank_def)
      show ?thesis
      proof (cases "fence_from buf s (?at + ?t)")
        case None
        then have "\<not> ?o j" if "start \<le> j" for j using IH run [OF that] by (cases "j < ?at + ?t") auto
        then show ?thesis using eq None by simp
      next
        case (Some x)
        obtain a t where x: "x = (a, t)" by (cases x)
        have "\<not> ?o j" if "start \<le> j" "j < a" for j
          using IH Some x that run [OF that(1)] by (cases "j < ?at + ?t") auto
        then show ?thesis using IH Some x eq by simp
      qed
    qed
  qed
qed

text \<open>Where no fence opens, no complete line opens one.\<close>

definition last_opens :: "str \<Rightarrow> str \<Rightarrow> bool" where
  "last_opens l k \<longleftrightarrow> \<not> all_blank l \<and> 3 \<le> tick_run (dropWhile is_blank (l @ k))"

lemma opens_in_line:
  assumes "10 \<notin> set l" "\<not> all_blank l" "3 \<le> tick_run (dropWhile is_blank (l @ k))"
  shows "\<exists>j < length l. opens True (l @ k) j"
proof -
  let ?j = "length (takeWhile is_blank l)"
  have nb: "\<exists>x \<in> set l. \<not> is_blank x" using assms(2) by (auto simp: all_blank_def)
  then have "?j < length l" by (metis length_takeWhile_le nat_less_le takeWhile_eq_all_conv takeWhile_eq_take take_all_iff)
  moreover have d: "drop ?j (l @ k) = dropWhile is_blank (l @ k)"
  proof -
    have "drop ?j l = dropWhile is_blank l" by (metis dropWhile_eq_drop)
    moreover obtain x where "x \<in> set l" "\<not> is_blank x" using nb by blast
    ultimately show ?thesis using \<open>?j < length l\<close> by (simp add: dropWhile_append1)
  qed
  moreover have "prefix [96, 96, 96] s" if "3 \<le> tick_run s" for s
    using that by (cases s; cases "tl s"; cases "tl (tl s)") (auto simp: tick_run_def split: if_splits)
  moreover have "take ?j (l @ k) = takeWhile is_blank l" using \<open>?j < length l\<close> by (simp add: takeWhile_eq_take [symmetric])
  moreover have "all_blank (takeWhile is_blank l)" "10 \<notin> set (takeWhile is_blank l)"
    using assms(1) by (auto simp: all_blank_def dest: set_takeWhileD)
  ultimately show ?thesis using assms(3) by (intro exI [of _ ?j]) (simp add: opens_def line_blank_short)
qed

lemma no_open_lines:
  assumes "\<forall>j < length c. \<not> opens bl (c @ k) j"
  shows "(\<forall>l \<in> set (butlast (if bl then split_nl c else tl (split_nl c))). opening_line l = None) \<and>
    (bl \<or> tl (split_nl c) \<noteq> [] \<longrightarrow> \<not> last_opens (last (split_nl c)) k)"
  using assms
proof (induction "length c" arbitrary: c bl rule: less_induct)
  case less
  show ?case
  proof (cases "10 \<in> set c")
    case False
    then show ?thesis
      using less(2) opens_in_line [of c k] split_nl_one [of c] by (auto simp: last_opens_def)
  next
    case True
    then obtain l c' where c: "c = l @ 10 # c'" "10 \<notin> set l" by (metis split_list_first)
    have "opens bl (c @ k) (length l + 1 + j) = opens True (c' @ k) j" for j
      using line_blank_newline [of bl l "take j (c' @ k)"] by (simp add: c opens_def)
    then have "\<not> opens True (c' @ k) j" if "j < length c'" for j
      using less(2) [rule_format, of "length l + 1 + j"] that by (simp add: c(1))
    then have "\<forall>j < length c'. \<not> opens True (c' @ k) j" by blast
    note IH = less(1) [OF _ this]
    have "opening_line l = None" if bl
    proof (rule ccontr)
      assume "opening_line l \<noteq> None"
      then have "3 \<le> tick_run (dropWhile is_blank l)" by (auto simp: opening_line_def Let_def split: if_splits)
      moreover from this have "\<not> all_blank l" using dropWhile_eq_Nil_conv [of is_blank l] by (auto simp: all_blank_def tick_run_def simp del: dropWhile_eq_Nil_conv)
      moreover have "dropWhile is_blank (l @ 10 # c' @ k) = dropWhile is_blank l @ 10 # c' @ k"
        using calculation(2) by (auto simp: all_blank_def dropWhile_append)
      moreover have "tick_run (dropWhile is_blank l) \<le> tick_run (dropWhile is_blank l @ u)" for u
        by (simp add: tick_run_def takeWhile_append trans_le_add1 length_takeWhile_le)
      ultimately have "3 \<le> tick_run (dropWhile is_blank (l @ 10 # c' @ k))" by (metis le_trans)
      then obtain j where "j < length l" "opens True (l @ 10 # c' @ k) j"
        using opens_in_line [OF c(2) \<open>\<not> all_blank l\<close>] by blast
      then show False using less(2) c(1) that by auto
    qed
    moreover have "split_nl c = l # split_nl c'" by (simp add: c split_nl_newline)
    ultimately show ?thesis using IH c(1) by auto
  qed
qed

lemma safe_lines_intro:
  "\<forall>l \<in> set (butlast ls). opening_line l = None \<Longrightarrow> ls = [] \<or> all_blank (last ls) \<or> decided (last ls) \<Longrightarrow> safe_lines ls"
  by (induction ls rule: safe_lines.induct) auto

lemma safe_text_intro:
  assumes "\<forall>j < length c. \<not> opens bl (c @ k) j"
    "bl \<or> tl (split_nl c) \<noteq> [] \<Longrightarrow> \<not> last_opens (after_newline c) k \<Longrightarrow> all_blank (after_newline c) \<or> decided (after_newline c)"
  shows "safe_text bl c"
proof -
  note n = no_open_lines [OF assms(1)]
  have l: "last (if bl then split_nl c else tl (split_nl c)) = after_newline c"
    if "(if bl then split_nl c else tl (split_nl c)) \<noteq> []"
    using that by (simp add: last_split_nl last_tl split: if_splits)
  have "safe_lines (if bl then split_nl c else tl (split_nl c))"
    using n l assms(2) by (intro safe_lines_intro) (auto simp: last_split_nl)
  then show ?thesis by (cases bl) (simp_all add: safe_text_def)
qed


section \<open>What is left to read\<close>

definition on_blank_line :: "assembler \<Rightarrow> bool" where
  "on_blank_line a \<longleftrightarrow> all_blank (after_newline (asm_buf a))"

text \<open>What a fence reads whose info string has not ended.\<close>

definition after_ticks :: "nat \<Rightarrow> str \<Rightarrow> reading list" where
  "after_ticks ticks s =
     (let l = hd (split_nl s); ls = tl (split_nl s)
      in if 96 \<in> set l then letters (replicate ticks 96 @ l) @ read_prose ls
         else read_fence ticks (py_strip l) [] ls)"

text \<open>\<open>future\<close> is the text of the block that has not been delivered.\<close>

definition left_to_read :: "assembler \<Rightarrow> str \<Rightarrow> reading list" where
  "left_to_read a future =
     (let t = asm_pending a @ future
      in if \<not> in_fence a then rest_of_prose (on_blank_line a) t
         else if \<not> fence_opened_line a then after_ticks (fence_ticks a) t
         else read_fence (fence_ticks a) (fence_lang a) (fence_lines a) (split_nl t))"

definition asm_inv :: "assembler \<Rightarrow> bool" where
  "asm_inv a \<longleftrightarrow> buf_ok a \<and>
     (in_fence a \<longrightarrow> asm_buf a = [] \<and> 3 \<le> fence_ticks a \<and>
        (fence_opened_line a \<or> fence_lines a = [] \<and> fence_lang a = []))"

definition no_pipes :: "assembler \<Rightarrow> str \<Rightarrow> bool" where
  "no_pipes a future \<longleftrightarrow> 124 \<notin> set (asm_buf a) \<and> Letter 124 \<notin> set (left_to_read a future)"

text \<open>A step from \<open>a\<close> to \<open>b\<close> that hands out \<open>out\<close> loses nothing and doubles nothing.\<close>

definition keeps :: "assembler \<Rightarrow> piece list \<Rightarrow> assembler \<Rightarrow> str \<Rightarrow> bool" where
  "keeps a out b future \<longleftrightarrow> asm_inv b \<and> no_pipes b future \<and>
     content out @ unread_words b @ heard_of (left_to_read b future) = unread_words a @ heard_of (left_to_read a future)"

lemma to_prose_content:
  assumes "to_prose L s a = (out, b)" "buf_ok a" "124 \<notin> set (asm_buf a)" "124 \<notin> set s"
  shows "content out @ unread_words b = unread_words a @ map Letter (words s)" "buf_ok b" "124 \<notin> set (asm_buf b)"
    "on_blank_line b = line_blank (on_blank_line a) s"
proof -
  let ?a = "a\<lparr>asm_buf := asm_buf a @ s\<rparr>"
  have "124 \<notin> set (asm_buf ?a)" using assms by simp
  note c = split_sentences_content [OF _ _ _ this, of "asm_buf a" s L out b]
  have u: "unread_words ?a = unread_words a @ map Letter (words s)"
    using assms(2) by (simp add: unread_words_def buf_ok_def)
  show "content out @ unread_words b = unread_words a @ map Letter (words s)" "buf_ok b" "124 \<notin> set (asm_buf b)"
    using c assms u by (auto simp: to_prose_def buf_ok_def)
  have "after_newline (asm_buf b) = after_newline (asm_buf a @ s)" using c assms by (simp add: to_prose_def buf_ok_def)
  then show "on_blank_line b = line_blank (on_blank_line a) s" by (simp add: on_blank_line_def buffer_line_blank)
qed

text \<open>Text that moves to the buffer.\<close>

lemma to_prose_keeps:
  assumes "to_prose L s a' = (out, b)" "asm_inv a" "no_pipes a future"
    and a': "asm_buf a' = asm_buf a" "emitted a' = emitted a" "\<not> in_fence a'"
    and split: "left_to_read a future = letters s @ rest_of_prose (line_blank (on_blank_line a) s) (asm_pending a' @ future)"
  shows "keeps a out b future"
proof -
  have s: "124 \<notin> set s" "Letter 124 \<notin> set (rest_of_prose (line_blank (on_blank_line a) s) (asm_pending a' @ future))"
    using assms(3) split pipe_in [of s] by (auto simp: no_pipes_def)
  have ok: "buf_ok a'" "124 \<notin> set (asm_buf a')" "unread_words a' = unread_words a" "on_blank_line a' = on_blank_line a"
    using assms(2,3) a' by (simp_all add: asm_inv_def buf_ok_def no_pipes_def unread_words_def on_blank_line_def)
  note c = to_prose_content [OF assms(1) ok(1,2) s(1)]
  have b: "asm_pending b = asm_pending a'" "\<not> in_fence b"
    using to_prose_sel [of L s a'] assms(1) a'(3) by simp_all
  then have l: "left_to_read b future = rest_of_prose (line_blank (on_blank_line a) s) (asm_pending a' @ future)"
    using c(4) ok(4) by (simp add: left_to_read_def)
  show ?thesis
    unfolding keeps_def using c b l s ok split by (simp add: asm_inv_def no_pipes_def)
qed

section \<open>The steps\<close>

lemma closing_fence_rest_eq:
  "fence_opened_line a \<Longrightarrow> closing_fence_rest a (py_strip l) = closing_line (fence_ticks a) l"
proof -
  have "prefix [96, 96, 96] s \<longleftrightarrow> 3 \<le> tick_run s" for s
    by (cases s; cases "tl s"; cases "tl (tl s)") (auto simp: tick_run_def split: if_splits)
  moreover assume "fence_opened_line a"
  ultimately show ?thesis by (auto simp: closing_fence_rest_def closing_line_def Let_def)
qed

lemma closing_line_set: "closing_line t l = Some r \<Longrightarrow> set r \<subseteq> set l"
  by (auto simp: closing_line_def py_strip_def Let_def dest!: set_dropWhileD in_set_dropD split: if_splits)

lemma rest_of_prose_Nil [simp]: "rest_of_prose bl [] = []"
  by (simp add: rest_of_prose_def opening_line_def tick_run_def Let_def)

text \<open>A fence that is open.\<close>

lemma fence_keeps:
  assumes "asm_inv a" "no_pipes a future" "asm_inv b" "asm_buf b = []" "124 \<notin> set (asm_buf b)" "emitted b = emitted a" "asm_buf a = []"
    and "content out @ heard_of (left_to_read b future) = heard_of (left_to_read a future)"
    and "set (left_to_read b future) \<subseteq> set (left_to_read a future)"
  shows "keeps a out b future"
  using assms by (auto simp: keeps_def no_pipes_def unread_words_def)

lemma fence_line_keeps:
  assumes "fence_line_step L line (a\<lparr>asm_pending := rest\<rparr>) = (out, b)" "asm_inv a" "no_pipes a future" "in_fence a"
    "asm_pending a = line @ 10 # rest" "10 \<notin> set line"
  shows "keeps a out b future"
proof -
  let ?a = "a\<lparr>asm_pending := rest\<rparr>"
  have lines: "split_nl (asm_pending a @ future) = line # split_nl (rest @ future)"
    using assms(5,6) split_nl_newline by simp
  have inv: "asm_buf a = []" "3 \<le> fence_ticks a" "\<not> fence_opened_line a \<Longrightarrow> fence_lines a = []" "buf_ok a"
    using assms(2,4) by (auto simp: asm_inv_def)
  show ?thesis
  proof (cases "fence_opened_line a")
    case True
    have left: "left_to_read a future = read_fence (fence_ticks a) (fence_lang a) (fence_lines a) (line # split_nl (rest @ future))"
      using True assms(4) lines by (simp add: left_to_read_def)
    show ?thesis
    proof (cases "closing_line (fence_ticks a) line")
      case None
      then have "b = ?a\<lparr>fence_lines := fence_lines a @ [line]\<rparr>" "out = []"
        using assms(1) True closing_fence_rest_eq [of ?a line] by (simp_all add: fence_line_step_def Let_def)
      then show ?thesis using assms inv None True left
        by (intro fence_keeps) (auto simp: asm_inv_def buf_ok_def left_to_read_def)
    next
      case (Some r)
      have r: "10 \<notin> set r" using closing_line_set [OF Some] assms(6) by blast
      have b: "out = [Fence_Piece (fence_lang a) (fence_lines a), Para_End]" "\<not> in_fence b" "asm_buf b = []"
        "emitted b = emitted a" "asm_pending b = (if r = [] then rest else r @ 10 # rest)"
        using assms(1) True Some closing_fence_rest_eq [of ?a line] inv(1)
        by (cases "r = []"; auto simp: fence_line_step_def close_fence_def Let_def)+
      then have "left_to_read b future = (if r = [] then read_prose (split_nl (rest @ future)) else read_prose (r # split_nl (rest @ future)))"
        using split_nl_newline [OF r, of "rest @ future"] by (simp add: left_to_read_def rest_of_prose_def on_blank_line_def)
      then show ?thesis using assms inv b Some left
        by (intro fence_keeps) (auto simp: asm_inv_def buf_ok_def para_free_def)
    qed
  next
    case False
    then have no: "closing_fence_rest ?a (py_strip line) = None" by (simp add: closing_fence_rest_def)
    have left: "left_to_read a future =
        (if 96 \<in> set line then letters (replicate (fence_ticks a) 96 @ line) @ read_prose (split_nl (rest @ future))
         else read_fence (fence_ticks a) (py_strip line) [] (split_nl (rest @ future)))"
      using False assms(4) lines by (simp add: left_to_read_def after_ticks_def Let_def)
    show ?thesis
    proof (cases "96 \<in> set line")
      case True
      let ?s = "replicate (fence_ticks a) 96 @ line @ [10]"
      have "letters ?s = letters (replicate (fence_ticks a) 96 @ line)"
        by (simp add: letters_def is_py_space_def is_whitespace_def)
      moreover have "line_blank (on_blank_line a) ?s" using line_blank_newline [of _ "replicate (fence_ticks a) 96 @ line" "[]"]
        by (simp add: line_blank_def)
      ultimately have "left_to_read a future = letters ?s @ rest_of_prose (line_blank (on_blank_line a) ?s) (rest @ future)"
        using left True by (simp add: rest_of_prose_def)
      then show ?thesis
        using to_prose_keeps [of L ?s "?a\<lparr>in_fence := False\<rparr>" out b a future] assms(1-3) False True no
        by (simp add: fence_line_step_def Let_def)
    next
      case tick: False
      then have "b = ?a\<lparr>fence_lang := py_strip line, fence_opened_line := True\<rparr>" "out = []"
        using assms(1) False no by (simp_all add: fence_line_step_def Let_def)
      then show ?thesis using assms inv False tick left
        by (intro fence_keeps) (auto simp: asm_inv_def buf_ok_def left_to_read_def)
    qed
  qed
qed


text \<open>The last line of a fence, at the end of the block.\<close>

lemma fence_tail_keeps:
  assumes "fence_tail_step L a = ((out, b), goes_on)" "asm_inv a" "no_pipes a []" "in_fence a" "10 \<notin> set (asm_pending a)"
  shows "keeps a out b []" "\<not> goes_on \<Longrightarrow> asm_pending b = [] \<and> \<not> in_fence b"
proof -
  let ?a = "a\<lparr>asm_pending := []\<rparr>" and ?tl = "asm_pending a"
  have inv: "asm_buf a = []" "3 \<le> fence_ticks a" "\<not> fence_opened_line a \<Longrightarrow> fence_lines a = []" "buf_ok a"
    using assms(2,4) by (auto simp: asm_inv_def)
  have line: "split_nl ?tl = [?tl]" by (rule split_nl_one [OF assms(5)])
  have "keeps a out b [] \<and> (\<not> goes_on \<longrightarrow> asm_pending b = [] \<and> \<not> in_fence b)"
  proof (cases "fence_opened_line a")
    case False
    then have no: "closing_fence_rest ?a (py_strip ?tl) = None" by (simp add: closing_fence_rest_def)
    have left: "left_to_read a [] = (if 96 \<in> set ?tl then letters (replicate (fence_ticks a) 96 @ ?tl)
         else [Block (py_strip ?tl) []])"
      using False assms(4) line by (simp add: left_to_read_def after_ticks_def Let_def)
    show ?thesis
    proof (cases "96 \<in> set ?tl")
      case True
      let ?s = "replicate (fence_ticks a) 96 @ ?tl"
      have p: "to_prose L ?s (?a\<lparr>in_fence := False\<rparr>) = (out, b)" "\<not> goes_on"
        using assms(1) True False by (simp_all add: fence_tail_step_def Let_def)
      have "keeps a out b []"
        using to_prose_keeps [OF p(1) assms(2,3)] left True by simp
      moreover have "asm_pending b = []" "\<not> in_fence b" using p(1) to_prose_sel [of L ?s "?a\<lparr>in_fence := False\<rparr>"] by simp_all
      ultimately show ?thesis by simp
    next
      case tick: False
      have lang: "fence_lines a = []" "fence_lang a = []" using assms(2,4) False by (auto simp: asm_inv_def)
      have b: "out = [Fence_Piece (py_strip ?tl) [], Para_End]" "\<not> in_fence b" "asm_buf b = []"
        "emitted b = emitted a" "asm_pending b = []" "\<not> goes_on"
        using assms(1) False tick no inv(1) lang
        by (auto simp: fence_tail_step_def close_fence_def Let_def split: if_splits)
      then have "keeps a out b []" using assms(2,3) inv tick left
        by (intro fence_keeps) (auto simp: asm_inv_def buf_ok_def para_free_def left_to_read_def)
      then show ?thesis using b by simp
    qed
  next
    case True
    have left: "left_to_read a [] = read_fence (fence_ticks a) (fence_lang a) (fence_lines a) [?tl]"
      using True assms(4) line by (simp add: left_to_read_def)
    show ?thesis
    proof (cases "closing_line (fence_ticks a) ?tl")
      case None
      let ?ls = "if py_strip ?tl = [] then fence_lines a else fence_lines a @ [?tl]"
      have b: "out = [Fence_Piece (fence_lang a) ?ls, Para_End]" "\<not> in_fence b" "asm_buf b = []"
        "emitted b = emitted a" "asm_pending b = []" "\<not> goes_on"
        using assms(1) True None closing_fence_rest_eq [of ?a ?tl] inv(1)
        by (auto simp: fence_tail_step_def close_fence_def Let_def)
      then have "keeps a out b []" using assms(2,3) inv None left
        by (intro fence_keeps) (auto simp: asm_inv_def buf_ok_def para_free_def left_to_read_def)
      then show ?thesis using b by simp
    next
      case (Some r)
      have r: "split_nl r = [r]" using closing_line_set [OF Some] assms(5) by (intro split_nl_one) blast
      have b: "out = [Fence_Piece (fence_lang a) (fence_lines a), Para_End]" "\<not> in_fence b" "asm_buf b = []"
        "emitted b = emitted a" "asm_pending b = r" "goes_on \<longleftrightarrow> r \<noteq> []"
        using assms(1) True Some closing_fence_rest_eq [of ?a ?tl] inv(1)
        by (cases "r = []"; auto simp: fence_tail_step_def close_fence_def Let_def)+
      then have "left_to_read b [] = (if r = [] then [] else read_prose [r])"
        using r by (simp add: left_to_read_def rest_of_prose_def on_blank_line_def opening_line_def tick_run_def Let_def)
      then have "keeps a out b []" using assms(2,3) inv b Some left
        by (intro fence_keeps) (auto simp: asm_inv_def buf_ok_def para_free_def)
      then show ?thesis using b by simp
    qed
  qed
  then show "keeps a out b []" "\<not> goes_on \<Longrightarrow> asm_pending b = [] \<and> \<not> in_fence b" by blast+
qed


text \<open>No fence opens in the pending text.\<close>

lemma last_tick: "suffix [96] s \<longleftrightarrow> s \<noteq> [] \<and> last s = 96"
  by (cases s rule: rev_cases) (auto simp: suffix_def)

lemma tick_run_all: "tick_run r = length r \<longleftrightarrow> (\<forall>c \<in> set r. c = 96)"
  by (induction r) (auto simp: tick_run_def)

lemma ticks_to_end:
  assumes "tick_run r = length r" "r \<noteq> []" "length r < 3" "suffix r s"
  shows "length r \<le> partial_fence_tail_len s"
proof -
  have "\<forall>c \<in> set r. c = 96" using assms(1) tick_run_all by blast
  then have "r = replicate (length r) 96" by (simp add: replicate_length_same)
  then consider "r = [96]" | "r = [96, 96]" using assms(2,3) by (cases r; cases "tl r"; cases "tl (tl r)") auto
  then show ?thesis
  proof cases
    case 1
    then show ?thesis using assms(4) by (simp add: partial_fence_tail_len_def)
  next
    case 2
    then show ?thesis using assms(4) by (simp add: partial_fence_tail_len_def)
  qed
qed

lemma kept_tail:
  assumes "k = partial_fence_tail_len s"
  shows "k \<le> length s" "drop (length s - k) s = replicate k 96"
proof -
  have "suffix (replicate k 96) s" using assms by (auto simp: partial_fence_tail_len_def eval_nat_numeral)
  then obtain u where "s = u @ replicate k 96" by (auto simp: suffix_def)
  then show "k \<le> length s" "drop (length s - k) s = replicate k 96" by simp_all
qed

lemma not_butlast_last: "x \<in> set xs \<Longrightarrow> x \<notin> set (butlast xs) \<Longrightarrow> xs \<noteq> [] \<and> x = last xs"
  by (cases xs rule: rev_cases) auto

lemma prose_step_keeps:
  assumes "prose_step L force a = (out, b)" "asm_inv a" "no_pipes a future" "\<not> in_fence a" "fence_opening a = None"
    "force \<Longrightarrow> future = []"
  shows "keeps a out b future" "force \<Longrightarrow> asm_pending b = [] \<and> \<not> in_fence b"
proof -
  let ?p = "asm_pending a"
  have none: "\<not> opens (on_blank_line a) ?p j" for j
    using fence_from_first [where buf = "asm_buf a" and s = ?p and start = 0] assms(5) by (simp add: fence_opening_def on_blank_line_def)
  have left: "left_to_read a future = rest_of_prose (on_blank_line a) (?p @ future)"
    using assms(4) by (simp add: left_to_read_def)
  have "keeps a out b future \<and> (force \<longrightarrow> asm_pending b = [] \<and> \<not> in_fence b)"
  proof (cases force)
    case True
    have p: "to_prose L ?p (a\<lparr>asm_pending := []\<rparr>) = (out, b)" using assms(1) True by (simp add: prose_step_def Let_def)
    note n = no_open_lines [of ?p "on_blank_line a" "[]"]
    let ?ls = "if on_blank_line a then split_nl ?p else tl (split_nl ?p)"
    have "opening_line l = None" if l: "l \<in> set ?ls" for l
    proof (cases "l \<in> set (butlast ?ls)")
      case True
      then show ?thesis using n none by (auto split: if_splits)
    next
      case False
      have "?ls \<noteq> []" "l = last ?ls"
        by (rule conjunct1 [OF not_butlast_last [OF l False]], rule conjunct2 [OF not_butlast_last [OF l False]])
      then have "l = last (split_nl ?p)" using \<open>?ls \<noteq> []\<close> by (simp add: last_tl split: if_splits)
      then have "\<not> last_opens l []" using n none \<open>?ls \<noteq> []\<close> by (auto split: if_splits)
      moreover have "opening_line [] = None" by (simp add: opening_line_def tick_run_def)
      ultimately show ?thesis using opening_line_blank [of l "[]"]
        by (cases "all_blank l") (simp_all add: last_opens_def opening_line_def Let_def)
    qed
    then have "rest_of_prose (on_blank_line a) ?p = letters ?p" by (intro rest_of_prose_plain) blast
    then have "keeps a out b future"
      using to_prose_keeps [OF p assms(2,3)] left assms(4,6) True by simp
    moreover have "asm_pending b = []" "\<not> in_fence b" using p to_prose_sel [of L ?p "a\<lparr>asm_pending := []\<rparr>"] assms(4) by simp_all
    ultimately show ?thesis by simp
  next
    case False
    define k where "k = partial_fence_tail_len ?p"
    define c where "c = take (length ?p - k) ?p"
    define r where "r = drop (length ?p - k) ?p"
    have cr: "?p = c @ r" "r = replicate k 96"
      unfolding c_def r_def by (rule append_take_drop_id [symmetric], rule kept_tail(2) [OF k_def])
    have no: "\<forall>j < length c. \<not> opens (on_blank_line a) (c @ r) j" using none cr(1) by simp
    have "safe_text (on_blank_line a) c"
    proof (rule safe_text_intro [OF no])
      let ?l = "after_newline c"
      assume l: "\<not> last_opens ?l r"
      show "all_blank ?l \<or> decided ?l"
      proof (rule disjCI, rule ccontr)
        assume nd: "\<not> decided ?l"
        assume "\<not> all_blank ?l"
        then have nb: "\<exists>x \<in> set ?l. \<not> is_blank x" by (simp add: all_blank_def)
        let ?r = "dropWhile is_blank ?l"
        obtain x where x: "x \<in> set ?l" "\<not> is_blank x" using nb by blast
        have dr: "dropWhile is_blank (?l @ r) = ?r @ r" using x by (rule dropWhile_append1)
        have "?r \<noteq> []" using nb by simp
        have run: "tick_run (?r @ r) < 3" using l \<open>\<not> all_blank ?l\<close> dr by (simp add: last_opens_def)
        moreover have "tick_run ?r \<le> tick_run (?r @ r)"
          by (simp add: tick_run_def takeWhile_append trans_le_add1 length_takeWhile_le)
        ultimately have "tick_run ?r < 3" by simp
        then have "tick_run ?r = length ?r" using nd length_takeWhile_le [of "\<lambda>c. c = 96" ?r]
          by (simp add: decided_def Let_def tick_run_def)
        then have all: "tick_run (?r @ r) = length (?r @ r)"
          using cr(2) tick_run_all [of ?r] tick_run_all [of "?r @ r"] by auto
        have "suffix ?r ?l" by (rule suffix_dropWhile)
        moreover have "suffix ?l c" by (metis after_newline_def rev_rev_ident suffix_def suffix_to_prefix takeWhile_is_prefix)
        ultimately have "suffix (?r @ r) ?p" unfolding cr(1) using suffix_order.trans by auto
        then have "length (?r @ r) \<le> k" unfolding k_def
          using all run \<open>?r \<noteq> []\<close> by (intro ticks_to_end) auto
        then show False using cr(2) \<open>?r \<noteq> []\<close> by simp
      qed
    qed
    then have split: "left_to_read a future = letters c @ rest_of_prose (line_blank (on_blank_line a) c) (r @ future)"
      using left rest_of_prose_append cr(1) by simp
    have eq: "(out, b) = (if c \<noteq> [] then to_prose L c (a\<lparr>asm_pending := r\<rparr>) else ([], a\<lparr>asm_pending := r\<rparr>))"
      using False unfolding assms(1) [symmetric] prose_step_def Let_def k_def c_def r_def by (simp only: if_False)
    show ?thesis
    proof (cases "c = []")
      case True
      then have "out = []" "b = a\<lparr>asm_pending := r\<rparr>" using eq by simp_all
      moreover have "r = ?p" using True cr(1) by simp
      ultimately show ?thesis using assms(2,3) False by (simp add: keeps_def)
    next
      case c: False
      then have p: "to_prose L c (a\<lparr>asm_pending := r\<rparr>) = (out, b)" using eq by simp
      show ?thesis using to_prose_keeps [OF p assms(2,3)] split assms(4) False by simp
    qed
  qed
  then show "keeps a out b future" "force \<Longrightarrow> asm_pending b = [] \<and> \<not> in_fence b" by blast+
qed


text \<open>A fence opens.\<close>

lemma ticks_split:
  "s = replicate (tick_run s) 96 @ drop (tick_run s) s \<and> (drop (tick_run s) s = [] \<or> hd (drop (tick_run s) s) \<noteq> 96)"
  by (induction s) (auto simp: tick_run_def)

lemma line_split: "10 \<notin> set l \<Longrightarrow> takeWhile (\<lambda>c. c \<noteq> 10) (l @ 10 # s) = l \<and> tl (dropWhile (\<lambda>c. c \<noteq> 10) (l @ 10 # s)) = s"
  by (induction l) auto

lemma opening_line_ticks:
  assumes "3 \<le> t" "l = [] \<or> hd l \<noteq> 96"
  shows "opening_line (replicate t 96 @ l) = (if 96 \<in> set l then None else Some (t, l))"
proof -
  have "dropWhile is_blank (replicate t 96 @ l) = replicate t 96 @ l"
    using assms(1) by (cases t) (simp_all add: tick_not_blank)
  moreover have "tick_run (replicate t 96 @ l) = t"
    using assms(2) by (cases l) (simp_all add: tick_run_def takeWhile_append)
  ultimately show ?thesis using assms(1) by (simp add: opening_line_def Let_def)
qed

lemma rest_after_ticks:
  assumes "3 \<le> t" "post = [] \<or> hd post \<noteq> 96" "post = [] \<longrightarrow> future = []"
  shows "rest_of_prose True (replicate t 96 @ post @ future) = after_ticks t (post @ future)"
proof -
  let ?l = "hd (split_nl (post @ future))"
  have "?l = [] \<or> hd ?l \<noteq> 96" using assms(2,3) by (cases post) auto
  moreover have "split_nl (replicate t 96 @ post @ future) = (replicate t 96 @ ?l) # tl (split_nl (post @ future))"
    by (rule split_nl_line) simp
  ultimately show ?thesis
    using opening_line_ticks [OF assms(1), of ?l] by (simp add: rest_of_prose_def after_ticks_def Let_def)
qed

lemma open_step_keeps:
  assumes "open_step L force open_at ticks a = ((out, b), goes_on)" "asm_inv a" "no_pipes a future" "\<not> in_fence a"
    "fence_opening a = Some (open_at, ticks)" "force \<Longrightarrow> future = []"
  shows "keeps a out b future" "\<not> goes_on \<Longrightarrow> \<not> force"
proof -
  let ?p = "asm_pending a"
  define c where "c = take open_at ?p"
  define post where "post = drop (open_at + ticks) ?p"
  have f: "fence_from (asm_buf a) ?p 0 = Some (open_at, ticks)" using assms(5) by (simp add: fence_opening_def)
  have o: "opens (on_blank_line a) ?p open_at" "\<forall>j < open_at. \<not> opens (on_blank_line a) ?p j"
    using fence_from_first [where buf = "asm_buf a" and s = ?p and start = 0] f by (simp_all add: on_blank_line_def)
  have lens: "open_at + ticks \<le> length ?p" "3 \<le> ticks" using fence_from_less [OF f] by simp_all
  have run: "ticks = tick_run (drop open_at ?p)" using fence_from_Some [OF f] by simp
  have r: "drop open_at ?p = replicate ticks 96 @ post" "post = [] \<or> hd post \<noteq> 96"
    using ticks_split [of "drop open_at ?p"] run by (simp_all add: post_def add.commute)
  have cr: "?p = c @ replicate ticks 96 @ post" unfolding c_def r(1) [symmetric] by simp
  have lc: "length c = open_at" using lens by (simp add: c_def)
  have lb: "line_blank (on_blank_line a) c" using o(1) by (simp add: opens_def c_def)
  have "safe_text (on_blank_line a) c"
    using o(2) lc lb cr by (intro safe_text_intro [of c _ "replicate ticks 96 @ post"]) (simp_all add: line_blank_def)
  then have left: "left_to_read a future = letters c @ rest_of_prose (line_blank (on_blank_line a) c) (replicate ticks 96 @ post @ future)"
    using rest_of_prose_append [of "on_blank_line a" c "replicate ticks 96 @ post @ future"] cr assms(4) by (simp add: left_to_read_def)
  have "keeps a out b future \<and> (\<not> goes_on \<longrightarrow> \<not> force)"
  proof (cases "open_at + ticks = length ?p \<and> \<not> force")
    case True
    then have p: "to_prose L c (a\<lparr>asm_pending := replicate ticks 96 @ post\<rparr>) = (out, b)"
      using assms(1) by (simp add: open_step_def Let_def c_def r(1))
    show ?thesis using to_prose_keeps [OF p assms(2,3)] left assms(4) True by simp
  next
    case False
    let ?a = "a\<lparr>asm_pending := post, fence_ticks := ticks\<rparr>"
    obtain out1 b1 where p: "to_prose L c ?a = (out1, b1)" by fastforce
    obtain out2 b2 where fl: "flush_asm L b1 = (out2, b2)" by fastforce
    have step: "out = out1 @ out2" "goes_on"
      "b = b2\<lparr>in_fence := True, fence_opened_line := False, fence_lang := [], fence_lines := []\<rparr>"
      using assms(1) False p fl by (auto simp: open_step_def Let_def c_def post_def split: if_splits)
    have pipe: "124 \<notin> set (asm_buf ?a)" "124 \<notin> set c" "buf_ok ?a"
      using assms(2,3) left pipe_in [of c] by (auto simp: no_pipes_def asm_inv_def buf_ok_def)
    note c1 = to_prose_content [OF p pipe(3,1,2)]
    note c2 = flush_asm_content [OF c1(2,3) fl]
    have ticks: "fence_ticks b2 = ticks" "asm_pending b2 = post"
      using p fl to_prose_sel [of L c ?a] flush_asm_sel [of L b1]
        to_prose_sel(3) [of L c ?a] flush_asm_sel(3) [of L b1] by simp_all
    have "post = [] \<longrightarrow> future = []" using False assms(6) cr lc by auto
    then have "rest_of_prose (line_blank (on_blank_line a) c) (replicate ticks 96 @ post @ future) = after_ticks ticks (post @ future)"
      using rest_after_ticks [OF lens(2) r(2)] lb by simp
    then have eq: "left_to_read a future = letters c @ left_to_read b future"
      unfolding left by (simp add: left_to_read_def step(3) ticks)
    have "asm_inv b" using c2 lens(2) ticks by (simp add: asm_inv_def buf_ok_def para_free_def step(3))
    moreover have "no_pipes b future" using assms(3) c2 eq by (simp add: no_pipes_def step(3))
    moreover have "unread_words ?a = unread_words a" by (simp add: unread_words_def)
    ultimately show ?thesis using c1(1) c2 eq step(1,2)
      by (simp add: keeps_def) (simp add: unread_words_def step(3))
  qed
  then show "keeps a out b future" "\<not> goes_on \<Longrightarrow> \<not> force" by blast+
qed

section \<open>The scan\<close>

lemma consume_step_keeps:
  assumes "consume_step L force a = ((out, b), goes_on)" "asm_inv a" "no_pipes a future" "force \<Longrightarrow> future = []"
  shows "keeps a out b future" "\<not> goes_on \<Longrightarrow> force \<Longrightarrow> asm_pending b = [] \<and> \<not> in_fence b"
proof -
  let ?p = "asm_pending a"
  have "keeps a out b future \<and> (\<not> goes_on \<longrightarrow> force \<longrightarrow> asm_pending b = [] \<and> \<not> in_fence b)"
  proof (cases "in_fence a")
    case True
    show ?thesis
    proof (cases "10 \<in> set ?p")
      case nl: True
      obtain line rest where p: "?p = line @ 10 # rest" "10 \<notin> set line" using split_list_first [OF nl] by blast
      then have "takeWhile (\<lambda>c. c \<noteq> 10) ?p = line" "tl (dropWhile (\<lambda>c. c \<noteq> 10) ?p) = rest"
        using line_split [of line rest] by simp_all
      then have s: "fence_line_step L line (a\<lparr>asm_pending := rest\<rparr>) = (out, b)" "goes_on"
        using assms(1) True nl by (simp_all add: consume_step_def Let_def)
      show ?thesis using fence_line_keeps [OF s(1) assms(2,3) True p] s(2) by simp
    next
      case False
      show ?thesis
      proof (cases force)
        case force: True
        then have "fence_tail_step L a = ((out, b), goes_on)"
          using assms(1) True False by (simp add: consume_step_def Let_def)
        then show ?thesis using fence_tail_keeps [OF _ assms(2) _ True False, of L out b goes_on] assms(3,4) force by simp
      next
        case nf: False
        then have "out = []" "b = a" using assms(1) True False by (simp_all add: consume_step_def Let_def)
        then show ?thesis using assms(2,3) nf by (simp add: keeps_def)
      qed
    qed
  next
    case False
    show ?thesis
    proof (cases "fence_opening a")
      case None
      then have "prose_step L force a = (out, b)" "\<not> goes_on"
        using assms(1) False by (simp_all add: consume_step_def Let_def)
      then show ?thesis using prose_step_keeps [OF _ assms(2,3) False None assms(4)] by blast
    next
      case (Some x)
      then obtain open_at ticks where x: "fence_opening a = Some (open_at, ticks)" by (cases x) simp
      then have "open_step L force open_at ticks a = ((out, b), goes_on)"
        using assms(1) False by (simp add: consume_step_def Let_def)
      then show ?thesis using open_step_keeps [OF _ assms(2,3) False x assms(4)] by blast
    qed
  qed
  then show "keeps a out b future" "\<not> goes_on \<Longrightarrow> force \<Longrightarrow> asm_pending b = [] \<and> \<not> in_fence b" by blast+
qed

lemma keeps_trans: "keeps a out b future \<Longrightarrow> keeps b out2 c future \<Longrightarrow> keeps a (out @ out2) c future"
  by (simp add: keeps_def)

lemma consume_keeps:
  assumes "consume L force a = (out, b)" "asm_inv a" "no_pipes a future" "force \<longrightarrow> future = []"
  shows "keeps a out b future \<and> (force \<longrightarrow> asm_pending b = [] \<and> \<not> in_fence b)"
  using assms
proof (induction L force a arbitrary: out b rule: consume.induct)
  case (1 L force a)
  obtain out1 b1 g where s: "consume_step L force a = ((out1, b1), g)" by (metis prod.collapse)
  have k: "keeps a out1 b1 future" "\<not> g \<Longrightarrow> force \<Longrightarrow> asm_pending b1 = [] \<and> \<not> in_fence b1"
    using consume_step_keeps [OF s 1(3,4)] 1(5) by blast+
  show ?case
  proof (cases g)
    case True
    obtain out2 c where c: "consume L force b1 = (out2, c)" by fastforce
    have "asm_inv b1" "no_pipes b1 future" using k(1) by (simp_all add: keeps_def)
    then have IH: "keeps b1 out2 c future \<and> (force \<longrightarrow> asm_pending c = [] \<and> \<not> in_fence c)"
      using 1(1) [OF s [symmetric] refl True c] 1(5) by blast
    have "out = out1 @ out2" "b = c" using 1(2) s c True by (simp_all add: consume.simps [of L force a])
    then show ?thesis using IH keeps_trans [OF k(1)] by blast
  next
    case False
    then have "out = out1" "b = b1" using 1(2) s by (simp_all add: consume.simps [of L force a])
    then show ?thesis using k False by blast
  qed
qed

end
