(* ===== verification/Assembler_Claims.thy ===== *)
theory Assembler_Claims imports Assembler_Scan begin

text \<open>
  A whole block fed delta by delta: however the reply is cut, the assembler reads what the reference reads
  at once. And the scan of a delta ends.
\<close>

section \<open>The scan ends\<close>

text \<open>The loop of \<open>consume\<close> with a bound on its turns.\<close>

fun consume_turns :: "nat \<Rightarrow> speech_lib \<Rightarrow> bool \<Rightarrow> assembler \<Rightarrow> (piece list \<times> assembler) option" where
  "consume_turns 0 L force a = None"
| "consume_turns (Suc n) L force a =
     (case consume_step L force a of
        ((out, b), goes_on) \<Rightarrow>
          if goes_on then map_option (\<lambda>(out2, c). (out @ out2, c)) (consume_turns n L force b) else Some (out, b))"

lemma consume_turns_enough:
  "length (asm_pending a) < n \<Longrightarrow> consume_turns n L force a = Some (consume L force a)"
proof (induction n L force a rule: consume_turns.induct)
  case (2 n L force a)
  obtain out b g where s: "consume_step L force a = ((out, b), g)" by (metis prod.collapse)
  show ?case
  proof (cases g)
    case True
    then have "length (asm_pending b) < n" using consume_step_shrinks [of L force a out b] s 2(2) by simp
    then have "consume_turns n L force b = Some (consume L force b)" using 2(1) [OF s [symmetric] refl True] by simp
    then show ?thesis using s True by (simp add: consume.simps [of L force a] case_prod_beta)
  next
    case False
    then show ?thesis using s by (simp add: consume.simps [of L force a])
  qed
qed simp

text \<open>C25: The scan of the pending text always ends, whatever the text and the state: after at most one turn per
  pending character, and one.\<close>

theorem scan_ends: "consume_turns (length (asm_pending a) + 1) L force a = Some (consume L force a)"
  by (rule consume_turns_enough) simp

section \<open>A block fed in order\<close>

text \<open>Nothing is held: between two blocks, and at the start.\<close>

definition idle :: "assembler \<Rightarrow> bool" where
  "idle a \<longleftrightarrow> asm_seen a = {} \<and> asm_buf a = [] \<and> emitted a = 0 \<and> asm_pending a = [] \<and> \<not> in_fence a"

fun feed_texts :: "speech_lib \<Rightarrow> nat \<Rightarrow> str list \<Rightarrow> assembler \<Rightarrow> asm_chunk list \<times> assembler" where
  "feed_texts L i [] a = ([], a)"
| "feed_texts L i (t # ts) a =
     (let (cs, a) = feed L t i (ts = []) a; (ds, a) = feed_texts L (i + 1) ts a in (cs @ ds, a))"

lemma drop_breaks_append:
  "drop_breaks l (xs @ ys) =
     (let (k1, l1) = drop_breaks l xs; (k2, l2) = drop_breaks l1 ys in (k1 @ k2, l2))"
proof (induction xs arbitrary: l)
  case (Cons c xs)
  show ?case by (cases c; cases l) (simp_all add: Cons Let_def case_prod_beta)
qed simp

text \<open>In the middle of a block, the deltas below \<open>i\<close> fed.\<close>

definition mid_block :: "assembler \<Rightarrow> nat \<Rightarrow> bool" where
  "mid_block a i \<longleftrightarrow> asm_inv a \<and> asm_seen a = {..<i} \<and> asm_done a = None"

lemma left_pending: "left_to_read (a\<lparr>asm_seen := s, asm_pending := asm_pending a @ t\<rparr>) future = left_to_read a (t @ future)"
  by (simp add: left_to_read_def on_blank_line_def Let_def)

lemma feed_fresh_mid:
  assumes "asm_seen a = {..<i}"
  shows "feed_fresh L t i fin a =
    (let (out, b) = consume L False (a\<lparr>asm_seen := insert i (asm_seen a), asm_pending := asm_pending a @ t\<rparr>);
         (out2, c) = (if fin then finish_block L i b else ([], b)) in (out @ out2, c))"
  using assms by (auto simp: feed_fresh_def Let_def case_prod_beta)

lemma read_rest_keeps:
  assumes "read_rest L a = (out, b)" "asm_inv a" "no_pipes a []"
  shows "content out = unread_words a @ heard_of (left_to_read a [])" "asm_buf b = []" "emitted b = 0"
    "asm_pending b = []" "\<not> in_fence b"
proof -
  obtain out1 a1 where c: "consume L True a = (out1, a1)" by fastforce
  obtain out2 a2 where f: "flush_asm L a1 = (out2, a2)" by fastforce
  have o: "out = out1 @ out2" "b = a2" using assms(1) c f by (simp_all add: read_rest_def)
  have k: "keeps a out1 a1 []" "asm_pending a1 = []" "\<not> in_fence a1"
    using consume_keeps [OF c assms(2,3)] by simp_all
  then have "asm_inv a1" "no_pipes a1 []" by (simp_all add: keeps_def)
  then have ok: "buf_ok a1" "124 \<notin> set (asm_buf a1)" by (simp_all add: asm_inv_def no_pipes_def)
  note fl = flush_asm_content [OF ok f]
  have "left_to_read a1 [] = []" using k by (simp add: left_to_read_def)
  then have "content out1 @ unread_words a1 = unread_words a @ heard_of (left_to_read a [])" using k(1) by (simp add: keeps_def)
  then show "content out = unread_words a @ heard_of (left_to_read a [])" using fl(1) o by simp
  show "asm_buf b = []" "emitted b = 0" using fl o by simp_all
  show "asm_pending b = []" "\<not> in_fence b" using flush_asm_sel [of L a1] f k o by simp_all
qed

lemma read_rest_seen:
  "asm_seen (snd (read_rest L a)) = asm_seen a \<and> last_break (snd (read_rest L a)) = last_break a"
  using consume_seen [of L True a] by (simp add: read_rest_def Let_def case_prod_beta)

lemma feed_mid:
  assumes "mid_block a i" "no_pipes a (t @ future)"
    and "feed_fresh L t i fin a = (out, b)" "fin \<Longrightarrow> future = []"
  shows "last_break b = last_break a"
    "\<not> fin \<Longrightarrow> mid_block b (i + 1) \<and> no_pipes b future \<and>
       content out @ unread_words b @ heard_of (left_to_read b future) = unread_words a @ heard_of (left_to_read a (t @ future))"
    "fin \<Longrightarrow> idle b \<and> content out = unread_words a @ heard_of (left_to_read a t)"
proof -
  let ?a = "a\<lparr>asm_seen := insert i (asm_seen a), asm_pending := asm_pending a @ t\<rparr>"
  have inv: "asm_inv ?a" "asm_seen a = {..<i}" "asm_done a = None"
    using assms(1) by (simp_all add: mid_block_def asm_inv_def buf_ok_def)
  have left: "left_to_read ?a future = left_to_read a (t @ future)" by (rule left_pending)
  have np: "no_pipes ?a future" using assms(2) left by (simp add: no_pipes_def)
  obtain out1 a1 where c: "consume L False ?a = (out1, a1)" by fastforce
  have k: "keeps ?a out1 a1 future" using consume_keeps [OF c inv(1) np] by simp
  have u: "unread_words ?a = unread_words a" by (simp add: unread_words_def)
  have s: "asm_seen a1 = {..<i + 1}" "asm_done a1 = None" "last_break a1 = last_break a"
    using consume_seen [of L False ?a] c inv(2,3) by (simp_all add: lessThan_Suc)
  have b: "(out, b) = (let (out2, c) = (if fin then finish_block L i a1 else ([], a1)) in (out1 @ out2, c))"
    unfolding assms(3) [symmetric] feed_fresh_mid [OF inv(2)] c by (simp add: case_prod_beta)
  show lb: "last_break b = last_break a"
    using b s read_rest_seen [of L a1] by (cases fin) (simp_all add: finish_block_def reset_asm_def Let_def case_prod_beta)
  show "mid_block b (i + 1) \<and> no_pipes b future \<and>
       content out @ unread_words b @ heard_of (left_to_read b future) = unread_words a @ heard_of (left_to_read a (t @ future))"
    if "\<not> fin"
    using b that k s u left by (simp add: keeps_def mid_block_def)
  show "idle b \<and> content out = unread_words a @ heard_of (left_to_read a t)" if fin
  proof -
    have f: "future = []" using assms(4) that by blast
    obtain out2 a2 where r: "read_rest L a1 = (out2, a2)" by fastforce
    have ok: "asm_inv a1" "no_pipes a1 []" using k f by (simp_all add: keeps_def)
    have "out = out1 @ out2" "idle b"
      using b that r by (simp_all add: finish_block_def idle_def reset_asm_def new_assembler_def)
    then show ?thesis using read_rest_keeps(1) [OF r ok] k f u left by (simp add: keeps_def)
  qed
qed

lemma feed_texts_mid:
  assumes "mid_block a i" "ts \<noteq> []" "no_pipes a (concat ts)"
  shows "\<exists>ps. content ps = unread_words a @ heard_of (left_to_read a (concat ts)) \<and>
    drop_breaks (last_break a) (concat (map (emit_piece L) ps)) =
      (fst (feed_texts L i ts a), last_break (snd (feed_texts L i ts a))) \<and>
    idle (snd (feed_texts L i ts a))"
  using assms
proof (induction ts arbitrary: i a)
  case Nil
  then show ?case by simp
next
  case (Cons t ts)
  obtain out b where f: "feed_fresh L t i (ts = []) a = (out, b)" by fastforce
  have np: "no_pipes a (t @ concat ts)" using Cons.prems(3) by simp
  note m = feed_mid [OF Cons.prems(1) np f]
  obtain kept l where d: "drop_breaks (last_break a) (concat (map (emit_piece L) out)) = (kept, l)" by fastforce
  have lb: "last_break b = last_break a" using m(1) by simp
  have "asm_done a = None" using Cons.prems(1) by (simp add: mid_block_def)
  then have fd: "feed L t i (ts = []) a = (kept, b\<lparr>last_break := l\<rparr>)"
    using f d lb by (simp add: feed_def feed_block_def)
  show ?case
  proof (cases "ts = []")
    case True
    then have "idle b" "content out = unread_words a @ heard_of (left_to_read a t)" using m(3) by simp_all
    then show ?thesis using True fd d by (intro exI [of _ out]) (simp add: idle_def)
  next
    case False
    let ?b = "b\<lparr>last_break := l\<rparr>"
    have mb: "mid_block b (i + 1)" "no_pipes b (concat ts)"
      "content out @ unread_words b @ heard_of (left_to_read b (concat ts)) = unread_words a @ heard_of (left_to_read a (t @ concat ts))"
      using m(2) False by simp_all
    have same: "unread_words ?b = unread_words b" "left_to_read ?b x = left_to_read b x" for x
      by (simp_all add: unread_words_def left_to_read_def on_blank_line_def Let_def)
    have "mid_block ?b (i + 1)" "no_pipes ?b (concat ts)"
      using mb same by (simp_all add: mid_block_def asm_inv_def buf_ok_def no_pipes_def)
    then obtain ps where ps: "content ps = unread_words b @ heard_of (left_to_read b (concat ts))"
      "drop_breaks l (concat (map (emit_piece L) ps)) =
         (fst (feed_texts L (i + 1) ts ?b), last_break (snd (feed_texts L (i + 1) ts ?b)))"
      "idle (snd (feed_texts L (i + 1) ts ?b))"
      using Cons.IH [of ?b "i + 1"] False same by auto
    show ?thesis using ps mb(3) d fd
      by (intro exI [of _ "out @ ps"]) (simp add: drop_breaks_append case_prod_beta)
  qed
qed

lemma idle_mid: "idle a \<Longrightarrow> mid_block (a\<lparr>asm_done := None\<rparr>) 0 \<and> unread_words (a\<lparr>asm_done := None\<rparr>) = [] \<and>
    left_to_read (a\<lparr>asm_done := None\<rparr>) s = reading_of s"
  by (simp add: idle_def mid_block_def asm_inv_def buf_ok_def para_free_def unread_words_def left_to_read_def
      on_blank_line_def rest_of_prose_def reading_of_def)

lemma feed_first_idle: "feed L t 0 fin (a\<lparr>asm_done := None\<rparr>) = feed L t 0 fin a"
proof (cases "asm_done a")
  case None
  then have "a\<lparr>asm_done := None\<rparr> = a" by (cases a) simp
  then show ?thesis by simp
qed (simp add: feed_def feed_block_def case_prod_beta)

lemma feed_texts_idle: "ts \<noteq> [] \<Longrightarrow> feed_texts L 0 ts (a\<lparr>asm_done := None\<rparr>) = feed_texts L 0 ts a"
  by (cases ts) (simp_all add: feed_first_idle)

text \<open>The words and blocks of a block however it is cut, for the properties that build on it.\<close>

lemma feed_texts_read:
  assumes "idle a" "ts \<noteq> []" "Letter 124 \<notin> set (reading_of (concat ts))"
  shows "\<exists>ps. content ps = heard_of (reading_of (concat ts)) \<and>
    drop_breaks (last_break a) (concat (map (emit_piece L) ps)) =
      (fst (feed_texts L 0 ts a), last_break (snd (feed_texts L 0 ts a))) \<and>
    idle (snd (feed_texts L 0 ts a))"
proof -
  let ?a = "a\<lparr>asm_done := None\<rparr>"
  note i = idle_mid [OF assms(1)]
  have "no_pipes ?a (concat ts)" using i [of "concat ts"] assms(1,3) by (simp add: no_pipes_def idle_def)
  then show ?thesis
    using feed_texts_mid [of ?a 0 ts L] i [of "concat ts"] assms(2) feed_texts_idle [OF assms(2), of L a] by simp
qed

text \<open>C24: However a reply is cut into deltas, the assembler reads it as the reference reads it at once: the chunks of
  all its deltas are those of pieces that hold the words of its prose, in order, each once, and its code
  blocks, each between the words it stands between; and nothing is left for the next block (replies whose
  prose has no table).\<close>

theorem every_cut_reads_the_reply:
  assumes "idle a" "ts \<noteq> []" "Letter 124 \<notin> set (reading_of (concat ts))"
  shows "\<exists>ps. content ps = heard_of (reading_of (concat ts)) \<and>
    fst (feed_texts L 0 ts a) = fst (drop_breaks (last_break a) (concat (map (emit_piece L) ps))) \<and>
    idle (snd (feed_texts L 0 ts a))"
  using feed_texts_read [OF assms, of L] by (metis fst_conv)

text \<open>A reply with a fence, cut inside its backticks.\<close>

lemma sample_reply:
  "reading_of [72, 10, 96, 96, 96, 112, 10, 120, 10, 96, 96, 96, 10, 66] = [Letter 72, Block [112] [[120]], Letter 66]"
  by (simp add: reading_of_def opening_line_def closing_line_def tick_run_def py_strip_def is_py_space_def
      is_whitespace_def letters_def is_blank_def)

definition plain_speech :: speech_lib where
  "plain_speech = unicode.extend ascii
     \<lparr>to_speech = (\<lambda>s. s), code_line = (\<lambda>s l n. Some s), code_announcement = (\<lambda>l n. l), code_end = (\<lambda>l. l)\<rparr>"

theorem every_cut_reads_the_reply_witness:
  "\<exists>ps. content ps = heard_of [Letter 72, Block [112] [[120]], Letter 66] \<and>
    fst (feed_texts plain_speech 0 [[72, 10, 96, 96], [96, 112, 10, 120, 10, 96], [96, 96, 10, 66]] new_assembler) =
      fst (drop_breaks False (concat (map (emit_piece plain_speech) ps)))"
proof -
  let ?ts = "[[72, 10, 96, 96], [96, 112, 10, 120, 10, 96], [96, 96, 10, 66]] :: str list"
  have r: "reading_of (concat ?ts) = [Letter 72, Block [112] [[120]], Letter 66]" using sample_reply by simp
  have i: "idle new_assembler" "\<not> last_break new_assembler" by (simp_all add: idle_def new_assembler_def)
  show ?thesis
    using every_cut_reads_the_reply [OF i(1), of ?ts plain_speech, unfolded r] i(2) by auto
qed

end
