(* ===== verification/Reply_Claims.thy ===== *)
theory Reply_Claims imports Agent_Speech Assembler_Claims begin

text \<open>
  The rules of an agent over the assembler itself: a whole reply from its racing hook processes to the texts
  that are spoken (\<open>crates/sonara-agent/src/rules.rs\<close> with \<open>crates/sonara-core/src/assembler.rs\<close>).
\<close>

text \<open>The library the rules run on, with the assembler of \<open>sonara-core\<close>.\<close>

definition agent_with ::
  "speech_lib \<Rightarrow> (str \<Rightarrow> str) \<Rightarrow> (str \<Rightarrow> str) \<Rightarrow> (nat \<Rightarrow> bool) \<Rightarrow> assembler agent_lib" where
  "agent_with S norm low al =
     \<lparr>asm_new = new_assembler, asm_feed = (\<lambda>d i fin a. feed S d i fin a), normalize = norm, lower = low, alnum = al\<rparr>"

lemma asm_run_texts:
  "asm_run (agent_with S norm low al) (map (\<lambda>k. (ts ! k, i + k, k + 1 = length ts)) [0..<length ts]) a =
     feed_texts S i ts a"
proof (induction ts arbitrary: i a)
  case Nil
  then show ?case by simp
next
  case (Cons t ts)
  have d: "map (\<lambda>k. ((t # ts) ! k, i + k, k + 1 = length (t # ts))) [0..<length (t # ts)] =
      (t, i, ts = []) # map (\<lambda>k. (ts ! k, (i + 1) + k, k + 1 = length ts)) [0..<length ts]"
    by (simp only: length_Cons upt_conv_Cons zero_less_Suc list.map map_Suc_upt [symmetric]) (simp add: comp_def)
  have "asm_feed (agent_with S norm low al) = feed S" by (simp add: agent_with_def)
  then show ?case unfolding d by (simp only: asm_run.simps feed_texts.simps Cons)
qed

lemma asm_run_block: "asm_run (agent_with S norm low al) (block ts) a = feed_texts S 0 ts a"
  using asm_run_texts [of S norm low al ts 0 a] by (simp add: block_def)

text \<open>C26: A whole reply without a table in its prose, from the racing hook processes to the voice: whatever order its
  deltas arrive in and however it is cut, what is spoken or held after it is what was before, then the chunks
  of pieces holding exactly the words of its prose and its code blocks, in the order of the text, each once;
  and the channel and its assembler take the next reply in the same way. (While the session is read in single
  chunks, unmuted and without summaries, its turn goes on, no other block is under way, and no gap timer
  gives up on a delta.)\<close>

theorem racing_reply_is_read:
  fixes ch :: str and S :: speech_lib and norm low :: "str \<Rightarrow> str" and al :: "nat \<Rightarrow> bool"
  defines "L \<equiv> agent_with S norm low al"
  assumes "takes_blocks L ch trn t r" "idle (assembler (turn_of L ch r))"
    and "ts \<noteq> []" "length ts \<le> 2 ^ 32" "mset ds = mset (block ts)"
    and "Letter 124 \<notin> set (reading_of (concat ts))"
  shows "let s = stream_all L ch trn t ds r in
    (\<exists>ps. content ps = heard_of (reading_of (concat ts)) \<and>
       trace L ch s = trace L ch r @
         chunk_texts (skips_code r)
           (fst (drop_breaks (last_break (assembler (turn_of L ch r))) (concat (map (emit_piece S) ps))))) \<and>
    takes_blocks L ch trn t s \<and> idle (assembler (turn_of L ch s))"
proof -
  have "reads L ch (block ts) r (stream_all L ch trn t ds r)" "takes_blocks L ch trn t (stream_all L ch trn t ds r)"
    using block_reads [OF assms(2,5,6)] by simp_all
  then show ?thesis
    using feed_texts_read [OF assms(3,4,7), of S] by (auto simp: reads_def asm_run_block L_def Let_def)
qed

text \<open>A session that said nothing yet, over the assembler; its reply comes in two deltas, the second one first.\<close>

lemma fresh_session:
  shows "reads_chunks (new_rules default_settings :: assembler rules)"
    and "turn_of (agent_with S norm low al) ch (new_rules default_settings) = new_turn (agent_with S norm low al) 1"
    and "plain_turn (new_turn (agent_with S norm low al) g)"
    and "\<not> is_stale ch trn t (new_rules default_settings :: assembler rules)"
    and "order (new_turn (agent_with S norm low al) g) = new_order"
    and "takes_blocks (agent_with S norm low al) ch trn t (new_rules default_settings :: assembler rules)"
    and "trace (agent_with S norm low al) ch (new_rules default_settings) = []"
    and "assembler (new_turn (agent_with S norm low al) g) = new_assembler"
proof -
  show plain: "plain_turn (new_turn (agent_with S norm low al) g)"
    by (simp add: plain_turn_def new_turn_def all_voiced_def)
  show rc: "reads_chunks (new_rules default_settings :: assembler rules)"
    by (simp add: reads_chunks_def new_rules_def default_settings_def default_summaries_def summaries_on_def)
  show st: "\<not> is_stale ch trn t (new_rules default_settings :: assembler rules)" by (simp add: is_stale_def new_rules_def)
  show t: "turn_of (agent_with S norm low al) ch (new_rules default_settings) = new_turn (agent_with S norm low al) 1"
    by (simp add: turn_of_def new_rules_def)
  show "trace (agent_with S norm low al) ch (new_rules default_settings) = []"
    unfolding trace_def t by (simp add: new_turn_sel new_rules_def spoken_prose_def List.map_filter_def)
  show "assembler (new_turn (agent_with S norm low al) g) = new_assembler"
    by (simp add: new_turn_sel agent_with_def)
  show "takes_blocks (agent_with S norm low al) ch trn t (new_rules default_settings :: assembler rules)"
    using rc st by (simp add: takes_blocks_def t between_blocks_same new_turn_sel)
      (simp add: plain_turn_def new_turn_def all_voiced_def)
qed (simp add: new_turn_sel)

theorem racing_reply_is_read_witness:
  "let L = agent_with plain_speech (\<lambda>s. s) (\<lambda>s. s) (\<lambda>c. True);
       s = stream_all L [97] None None [([105], 1, True), ([72], 0, False)] (new_rules default_settings)
   in (\<exists>ps. content ps = heard_of [Letter 72, Letter 105] \<and>
         trace L [97] s = chunk_texts (skips_code (new_rules default_settings :: assembler rules))
           (fst (drop_breaks False (concat (map (emit_piece plain_speech) ps))))) \<and>
      takes_blocks L [97] None None s"
proof -
  have r: "reading_of [72, 105] = [Letter 72, Letter 105]"
    by (simp add: reading_of_def opening_line_def tick_run_def letters_def is_blank_def is_whitespace_def is_py_space_def)
  have b: "mset [([105], 1, True), ([72], 0, False)] = mset (block [[72], [105]] :: delta list)"
    by (simp add: block_def upt_rec add_mset_commute)
  have i: "idle new_assembler" "\<not> last_break new_assembler" by (simp_all add: idle_def new_assembler_def)
  show ?thesis
    using racing_reply_is_read [OF fresh_session(6), of plain_speech "\<lambda>s. s" "\<lambda>s. s" "\<lambda>c. True" "[97]"
        "[[72], [105]]" "[([105], 1, True), ([72], 0, False)]" None None] b i
    by (simp add: fresh_session r Let_def)
qed

end
