(* ===== verification/Code_Speech.thy ===== *)
theory Code_Speech imports Sentences Numbers begin

text \<open>
  Code read aloud, from \<open>crates/sonara-core/src/code_speech.rs\<close>: a code line is cut into parts (runs of words,
  symbols, strings, comments, tags) that are joined with commas.

  The tokenizer calls itself on the attributes of a tag and on the expressions of a template literal. Its loop
  takes that call as an argument, \<open>rec\<close>; \<open>tokens_in\<close> closes the recursion with a bound on the depth, and
  \<open>tokens\<close> gives the length of the line as the bound, which is enough (\<open>tokens_rec\<close>). Offsets count characters.
\<close>

section \<open>Strings\<close>

text \<open>\<open>str::find\<close> of a string, and of a character; \<open>trim_end_matches\<close>; the runs of \<open>str::split\<close> that are not empty.\<close>

fun find_str :: "str \<Rightarrow> str \<Rightarrow> nat option" where
  "find_str p [] = (if p = [] then Some 0 else None)"
| "find_str p (c # s) = (if prefix p (c # s) then Some 0 else map_option Suc (find_str p s))"

definition run_of :: "(nat \<Rightarrow> bool) \<Rightarrow> str \<Rightarrow> nat" where
  "run_of P s = length (takeWhile P s)"

definition trim_end_of :: "(nat \<Rightarrow> bool) \<Rightarrow> str \<Rightarrow> str" where
  "trim_end_of P s = rev (dropWhile P (rev s))"

fun split_runs :: "(nat \<Rightarrow> bool) \<Rightarrow> str \<Rightarrow> str \<Rightarrow> str list" where
  "split_runs sep w [] = (if w = [] then [] else [w])"
| "split_runs sep w (c # s) =
     (if sep c then (if w = [] then split_runs sep [] s else w # split_runs sep [] s)
      else split_runs sep (w @ [c]) s)"

text \<open>A number in decimal digits.\<close>

fun show_nat :: "nat \<Rightarrow> str" where
  "show_nat n = (if n < 10 then [48 + n] else show_nat (n div 10) @ [48 + n mod 10])"

section \<open>Languages and symbols\<close>

text \<open>The languages by the ids of their fences.\<close>

definition LANGUAGES :: "(str list \<times> str) list" where
  "LANGUAGES =
    [([lit ''ts'', lit ''typescript'', lit ''mts'', lit ''cts''], lit ''TypeScript''),
     ([lit ''tsx''], lit ''T S X''),
     ([lit ''js'', lit ''javascript'', lit ''mjs'', lit ''cjs'', lit ''node''], lit ''JavaScript''),
     ([lit ''jsx''], lit ''J S X''),
     ([lit ''py'', lit ''python'', lit ''python3'', lit ''py3''], lit ''Python''),
     ([lit ''rs'', lit ''rust''], lit ''Rust''),
     ([lit ''sh'', lit ''shell'', lit ''console'', lit ''shellsession''], lit ''shell''),
     ([lit ''bash''], lit ''Bash''), ([lit ''zsh''], lit ''Z shell''),
     ([lit ''ps1'', lit ''powershell'', lit ''pwsh'', lit ''ps''], lit ''PowerShell''),
     ([lit ''cmd'', lit ''bat'', lit ''batch''], lit ''batch''),
     ([lit ''json'', lit ''jsonc'', lit ''json5''], lit ''JSON''),
     ([lit ''yaml'', lit ''yml''], lit ''YAML''), ([lit ''toml''], lit ''TOML''),
     ([lit ''html'', lit ''htm''], lit ''HTML''), ([lit ''xml'', lit ''svg''], lit ''XML''),
     ([lit ''css''], lit ''CSS''), ([lit ''scss''], lit ''S C S S''),
     ([lit ''sql'', lit ''psql'', lit ''mysql'', lit ''sqlite''], lit ''S Q L''),
     ([lit ''md'', lit ''markdown''], lit ''Markdown''), ([lit ''c'', lit ''h''], lit ''C''),
     ([lit ''cpp'', lit ''c++'', lit ''cc'', lit ''hpp'', lit ''cxx''], lit ''C plus plus''),
     ([lit ''cs'', lit ''csharp'', lit ''c#''], lit ''C sharp''), ([lit ''java''], lit ''Java''),
     ([lit ''kt'', lit ''kotlin''], lit ''Kotlin''), ([lit ''go'', lit ''golang''], lit ''Go''),
     ([lit ''rb'', lit ''ruby''], lit ''Ruby''), ([lit ''php''], lit ''PHP''),
     ([lit ''swift''], lit ''Swift''), ([lit ''lua''], lit ''Lua''), ([lit ''r''], lit ''R''),
     ([lit ''vue''], lit ''Vue''), ([lit ''svelte''], lit ''Svelte''),
     ([lit ''graphql'', lit ''gql''], lit ''GraphQL''),
     ([lit ''dockerfile'', lit ''docker''], lit ''Dockerfile''),
     ([lit ''ini'', lit ''cfg'', lit ''conf''], lit ''config''),
     ([lit ''diff'', lit ''patch''], lit ''diff''),
     ([lit ''text'', lit ''txt'', lit ''plaintext'', lit ''plain''], lit ''text'')]"

definition MARKUP :: "str list" where
  "MARKUP =
    [lit ''html'', lit ''htm'', lit ''xml'', lit ''jsx'', lit ''tsx'', lit ''vue'', lit ''svelte'',
     lit ''svg'']"

definition HASH_COMMENT :: "str list" where
  "HASH_COMMENT =
    [lit ''python'', lit ''py'', lit ''python3'', lit ''py3'', lit ''bash'', lit ''sh'', lit ''shell'',
     lit ''zsh'', lit ''console'', lit ''ruby'', lit ''rb'', lit ''yaml'', lit ''yml'', lit ''toml'',
     lit ''powershell'', lit ''ps1'', lit ''pwsh'', lit ''ps'', lit ''r'', lit ''perl'', lit ''pl'',
     lit ''dockerfile'', lit ''docker'', lit ''ini'', lit ''cfg'', lit ''conf'', lit ''makefile'',
     lit ''make'']"

definition DASH_COMMENT :: "str list" where
  "DASH_COMMENT =
    [lit ''sql'', lit ''psql'', lit ''mysql'', lit ''sqlite'', lit ''lua'', lit ''haskell'', lit ''hs'']"

definition PROSE :: "str list" where
  "PROSE =
    [lit ''text'', lit ''txt'', lit ''plaintext'', lit ''plain'', lit ''md'', lit ''markdown'']"

definition KEBAB :: "str list" where
  "KEBAB =
    [lit ''css'', lit ''scss'', lit ''sass'', lit ''less'', lit ''yaml'', lit ''yml'', lit ''toml'',
     lit ''ini'', lit ''cfg'', lit ''conf'', lit ''dockerfile'', lit ''docker'', lit ''makefile'',
     lit ''make'']"

definition SHELL :: "str list" where
  "SHELL =
    [lit ''sh'', lit ''bash'', lit ''zsh'', lit ''shell'', lit ''console'', lit ''shellsession'',
     lit ''powershell'', lit ''ps1'', lit ''pwsh'', lit ''ps'', lit ''cmd'', lit ''bat'', lit ''batch'']"

text \<open>Symbols with their words, longest first.\<close>

definition SYMBOLS :: "(str \<times> str) list" where
  "SYMBOLS =
    [(lit ''==='', lit ''strictly equals''), (lit ''!=='', lit ''not strictly equals''),
     (lit ''...'', lit ''dot dot dot''), (lit ''**='', lit ''double star equals''),
     (lit ''<<='', lit ''shift left equals''), (lit ''>>='', lit ''shift right equals''),
     (lit ''=>'', lit ''arrow''), (lit ''->'', lit ''arrow''), (lit ''<-'', lit ''left arrow''),
     (lit ''=='', lit ''double equals''), (lit ''!='', lit ''not equals''),
     (lit ''<='', lit ''less or equal''), (lit ''>='', lit ''greater or equal''), (lit ''&&'', lit ''and''),
     (lit ''||'', lit ''or''), (lit ''++'', lit ''plus plus''), (lit ''--'', lit ''minus minus''),
     (lit ''+='', lit ''plus equals''), (lit ''-='', lit ''minus equals''), (lit ''*='', lit ''star equals''),
     (lit ''/='', lit ''slash equals''), (lit ''%='', lit ''percent equals''),
     (lit ''|='', lit ''pipe equals''), (lit ''&='', lit ''ampersand equals''),
     (lit '':='', lit ''colon equals''), (lit ''::'', lit ''double colon''),
     (lit ''??'', lit ''double question mark''), (lit ''?.'', lit ''question dot''),
     (lit ''**'', lit ''double star''), (lit ''<<'', lit ''shift left''), (lit ''>>'', lit ''shift right''),
     (lit ''|>'', lit ''pipe greater than''), (lit ''..'', lit ''dot dot''),
     (lit ''()'', lit ''empty parens''), (lit ''[]'', lit ''empty brackets''),
     (lit ''{}'', lit ''empty braces''), (lit ''('', lit ''open paren''), (lit '')'', lit ''close paren''),
     (lit ''['', lit ''open bracket''), (lit '']'', lit ''close bracket''), (lit ''{'', lit ''open brace''),
     (lit ''}'', lit ''close brace''), (lit ''<'', lit ''less than''), (lit ''>'', lit ''greater than''),
     (lit ''='', lit ''equals''), (lit ''+'', lit ''plus''), (lit ''-'', lit ''minus''),
     (lit ''*'', lit ''star''), (lit ''/'', lit ''slash''), (lit ''%'', lit ''percent''),
     (lit ''!'', lit ''not''), (lit ''?'', lit ''question mark''), (lit '':'', lit ''colon''),
     (lit '';'', lit ''semicolon''), (lit '','', lit ''comma''), (lit ''&'', lit ''ampersand''),
     (lit ''|'', lit ''pipe''), (lit ''^'', lit ''caret''), (lit ''~'', lit ''tilde''),
     (lit ''@'', lit ''at''), (lit ''#'', lit ''hash''), (lit ''$'', lit ''dollar''),
     ([92], lit ''backslash''), ([39], lit ''tick''), ([34], lit ''quote''), ([96], lit ''backtick'')]"

section \<open>Blocks\<close>

definition info_word :: "str \<Rightarrow> str" where
  "info_word info =
     (let brace = (\<lambda>c. c \<in> {123, 125, 46})
      in to_ascii_lowercase (trim_end_of brace (dropWhile brace
           (case split_whitespace info of [] \<Rightarrow> [] | w # _ \<Rightarrow> w))))"

definition language_name :: "str \<Rightarrow> str option" where
  "language_name info =
     (case split_whitespace info of
        [] \<Rightarrow> None
      | raw # _ \<Rightarrow>
          Some (case List.find (\<lambda>(ids, name). info_word info \<in> set ids) LANGUAGES of
                  Some (ids, name) \<Rightarrow> name
                | None \<Rightarrow> raw))"

definition announcement :: "str \<Rightarrow> nat \<Rightarrow> str" where
  "announcement info n =
     (let size = (if n = 1 then lit ''1 line'' else show_nat n @ lit '' lines'')
      in case language_name info of
           Some name \<Rightarrow> name @ lit '' code block, '' @ size @ lit ''.''
         | None \<Rightarrow> lit ''Code block, '' @ size @ lit ''.'')"

definition end_of_code :: "str \<Rightarrow> str" where
  "end_of_code info =
     (case language_name info of
        Some name \<Rightarrow> lit ''End of '' @ name @ lit '' code.''
      | None \<Rightarrow> lit ''End of code.'')"

section \<open>How a line is read in its language\<close>

record mode =
  m_markup :: bool
  m_flags :: bool
  m_hash_comment :: bool
  m_dash_comment :: bool
  m_slash_comment :: bool
  m_block_comment :: bool
  m_prose :: bool
  m_kebab :: bool
  m_rust :: bool
  m_inline :: bool

text \<open>The character before an index, if any.\<close>

definition char_before :: "str \<Rightarrow> nat \<Rightarrow> nat option" where
  "char_before s i = (if i = 0 then None else Some (s ! (i - 1)))"

definition tag_can_start :: "'a unicode_scheme \<Rightarrow> str \<Rightarrow> nat \<Rightarrow> bool" where
  "tag_can_start U s i \<longleftrightarrow>
     (case char_before s i of
        Some c \<Rightarrow> \<not> (alphanumeric U c \<or> c \<in> {95, 41, 93})
      | None \<Rightarrow> True)"

definition looks_like_markup :: "'a unicode_scheme \<Rightarrow> str \<Rightarrow> bool" where
  "looks_like_markup U code \<longleftrightarrow>
     (\<exists>i \<in> set [0..<length code]. code ! i = 60 \<and> tag_can_start U code i \<and>
        i + 1 < length code \<and> (is_ascii_alphabetic (code ! (i + 1)) \<or> code ! (i + 1) = 47)) \<and>
     62 \<in> set code"

definition mode_of :: "'a unicode_scheme \<Rightarrow> str \<Rightarrow> str \<Rightarrow> bool \<Rightarrow> mode" where
  "mode_of U lang code inl =
     (let unknown = (lang = []);
          python = lang \<in> set [lit ''py'', lit ''python'', lit ''python3'', lit ''py3''];
          shell = lang \<in> set SHELL;
          markup = lang \<in> set MARKUP \<or> unknown \<and> looks_like_markup U code
      in \<lparr>m_markup = markup, m_flags = shell \<or> unknown, m_hash_comment = lang \<in> set HASH_COMMENT,
          m_dash_comment = lang \<in> set DASH_COMMENT, m_slash_comment = \<not> python \<and> \<not> shell,
          m_block_comment = \<not> python \<and> \<not> shell \<and> \<not> unknown, m_prose = lang \<in> set PROSE,
          m_kebab = unknown \<or> shell \<or> markup \<or> lang \<in> set KEBAB,
          m_rust = lang \<in> set [lit ''rs'', lit ''rust''], m_inline = inl\<rparr>)"

definition attrs_mode :: mode where
  "attrs_mode =
     \<lparr>m_markup = False, m_flags = False, m_hash_comment = False, m_dash_comment = False,
      m_slash_comment = False, m_block_comment = False, m_prose = False, m_kebab = True,
      m_rust = False, m_inline = False\<rparr>"

section \<open>The spoken parts of a line\<close>

record parts =
  p_done :: "str list"
  p_words :: str
  p_dot :: bool

definition no_parts :: parts where
  "no_parts = \<lparr>p_done = [], p_words = [], p_dot = False\<rparr>"

definition add_word :: "str \<Rightarrow> parts \<Rightarrow> parts" where
  "add_word w p =
     (if w = [] then p
      else p\<lparr>p_words := p_words p @
               (if p_dot p \<and> p_words p \<noteq> [] then lit '' dot '' else if p_words p \<noteq> [] then [32] else []) @ w,
             p_dot := False\<rparr>)"

definition flush_parts :: "parts \<Rightarrow> parts" where
  "flush_parts p =
     (let p = (if p_dot p then p\<lparr>p_words := p_words p @ lit '' dot'', p_dot := False\<rparr> else p)
      in if p_words p \<noteq> [] then p\<lparr>p_done := p_done p @ [p_words p], p_words := []\<rparr> else p)"

definition add_part :: "str \<Rightarrow> parts \<Rightarrow> parts" where
  "add_part x p =
     (let p = flush_parts p in if trim x \<noteq> [] then p\<lparr>p_done := p_done p @ [trim x]\<rparr> else p)"

definition add_dot :: "parts \<Rightarrow> parts" where
  "add_dot p = (if p_words p = [] \<or> p_dot p then add_part (lit ''dot'') p else p\<lparr>p_dot := True\<rparr>)"

definition finish_parts :: "parts \<Rightarrow> str" where
  "finish_parts p = join (lit '', '') (p_done (flush_parts p))"

section \<open>Words\<close>

text \<open>The pieces of a camel-case name; \<open>prev\<close> is the character before.\<close>

fun camel_pieces :: "'a unicode_scheme \<Rightarrow> nat option \<Rightarrow> str \<Rightarrow> str \<Rightarrow> str list" where
  "camel_pieces U prev cur [] = (if cur = [] then [] else [cur])"
| "camel_pieces U prev cur (c # s) =
     (let boundary =
            (case prev of
               Some p \<Rightarrow>
                 uppercase U c \<and>
                 (lowercase U p \<or> is_ascii_digit p \<or> uppercase U p \<and> s \<noteq> [] \<and> lowercase U (hd s))
             | None \<Rightarrow> False)
      in if boundary \<and> cur \<noteq> [] then cur # camel_pieces U (Some c) [c] s
         else camel_pieces U (Some c) (cur @ [c]) s)"

definition identifier_words :: "'a unicode_scheme \<Rightarrow> str \<Rightarrow> str" where
  "identifier_words U w =
     (let pieces = concat (map (camel_pieces U None []) (split_runs (\<lambda>c. c = 95 \<or> c = 45) [] w))
      in if length pieces \<le> 1 then (if pieces = [] then [] else last pieces)
         else join [32] (map (\<lambda>p. if 1 < length (filter (alphabetic U) p) \<and> (\<forall>c \<in> set p. \<not> lowercase U c) then p
                                  else to_lowercase U p) pieces))"

definition is_combining :: "nat \<Rightarrow> bool" where
  "is_combining c \<longleftrightarrow>
     0x300 \<le> c \<and> c \<le> 0x36F \<or> 0x1AB0 \<le> c \<and> c \<le> 0x1AFF \<or> 0x1DC0 \<le> c \<and> c \<le> 0x1DFF \<or>
     0x20D0 \<le> c \<and> c \<le> 0x20FF \<or> 0xFE20 \<le> c \<and> c \<le> 0xFE2F"

definition is_word_start :: "'a unicode_scheme \<Rightarrow> nat \<Rightarrow> bool" where
  "is_word_start U c \<longleftrightarrow> alphabetic U c \<or> c = 95"

definition is_word_char :: "'a unicode_scheme \<Rightarrow> nat \<Rightarrow> bool" where
  "is_word_char U c \<longleftrightarrow> alphanumeric U c \<or> c = 95 \<or> is_combining c"

definition words_of :: "str \<Rightarrow> str" where
  "words_of s = join [32] (split_whitespace s)"

text \<open>The offset of the closing quote in the text after the opening one.\<close>

fun quote_end :: "nat \<Rightarrow> bool \<Rightarrow> str \<Rightarrow> nat option" where
  "quote_end q esc [] = None"
| "quote_end q esc (c # s) =
     (if esc then map_option Suc (quote_end q False s)
      else if c = 92 then map_option Suc (quote_end q True s)
      else if c = q then Some 0
      else map_option Suc (quote_end q False s))"

definition string_end :: "str \<Rightarrow> nat \<Rightarrow> nat \<Rightarrow> nat option" where
  "string_end s start q = map_option (\<lambda>e. start + 1 + e) (quote_end q False (drop (start + 1) s))"

definition render_with :: "(str \<Rightarrow> mode \<Rightarrow> parts \<Rightarrow> parts) \<Rightarrow> str \<Rightarrow> mode \<Rightarrow> str" where
  "render_with rec code m = finish_parts (rec code m no_parts)"

definition inline_with :: "(str \<Rightarrow> mode \<Rightarrow> parts \<Rightarrow> parts) \<Rightarrow> 'a unicode_scheme \<Rightarrow> str \<Rightarrow> str" where
  "inline_with rec U code =
     (let code = trim code
      in if find_str (lit ''://'') code \<noteq> None \<and> (\<forall>c \<in> set code. \<not> is_whitespace c) then code
         else render_with rec code (mode_of U [] code True))"

text \<open>The loop of \<open>template\<close>: the text with each \<open>${...}\<close> as \<open>insert ...\<close>.\<close>

function template_from :: "(str \<Rightarrow> mode \<Rightarrow> parts \<Rightarrow> parts) \<Rightarrow> 'a unicode_scheme \<Rightarrow> str \<Rightarrow> str" where
  "template_from rec U rest =
     (case find_str [36, 123] rest of
        Some at \<Rightarrow>
          (let after = drop (at + 2) rest; close = run_of (\<lambda>c. c \<noteq> 125) after
           in take at rest @ lit '' insert '' @ inline_with rec U (take close after) @ [32] @
              template_from rec U (drop (close + 1) after))
      | None \<Rightarrow> rest)"
  by pat_completeness auto

lemma find_str_Some:
  "find_str p s = Some i \<Longrightarrow> i + length p \<le> length s \<and> take (length p) (drop i s) = p"
proof (induction p s arbitrary: i rule: find_str.induct)
  case (2 p c s)
  show ?case
  proof (cases "prefix p (c # s)")
    case True
    then show ?thesis using 2(2) prefix_length_le [OF True] by (auto simp: prefix_def)
  next
    case False
    then show ?thesis using 2 by auto
  qed
qed (auto split: if_splits)

termination template_from
  by (relation "measure (\<lambda>(_, _, s). length s)") (auto dest!: find_str_Some)

declare template_from.simps [simp del]

definition template_with :: "(str \<Rightarrow> mode \<Rightarrow> parts \<Rightarrow> parts) \<Rightarrow> 'a unicode_scheme \<Rightarrow> str \<Rightarrow> str" where
  "template_with rec U content = words_of (template_from rec U content)"

section \<open>Markup\<close>

text \<open>The offset of the \<open>>\<close> that ends a tag.\<close>

fun tag_end_from :: "nat \<Rightarrow> nat option \<Rightarrow> str \<Rightarrow> nat option" where
  "tag_end_from depth q [] = None"
| "tag_end_from depth q (c # s) =
     (case q of
        Some d \<Rightarrow> map_option Suc (tag_end_from depth (if c = d then None else q) s)
      | None \<Rightarrow>
          if c = 34 \<or> c = 39 then map_option Suc (tag_end_from depth (Some c) s)
          else if c = 123 then map_option Suc (tag_end_from (depth + 1) None s)
          else if c = 125 then map_option Suc (tag_end_from (depth - 1) None s)
          else if c = 62 \<and> depth = 0 then Some 0
          else map_option Suc (tag_end_from depth None s))"

definition tag_end :: "str \<Rightarrow> nat \<Rightarrow> nat option" where
  "tag_end s start = map_option (\<lambda>e. start + e) (tag_end_from 0 None (drop start s))"

definition name_end :: "'a unicode_scheme \<Rightarrow> str \<Rightarrow> nat \<Rightarrow> nat" where
  "name_end U s at = at + run_of (\<lambda>c. alphanumeric U c \<or> c \<in> {46, 58, 45, 95}) (drop at s)"

text \<open>The text after a tag: where it stops, and the parts with it.\<close>

definition content_of :: "'a unicode_scheme \<Rightarrow> str \<Rightarrow> nat \<Rightarrow> parts \<Rightarrow> nat \<times> parts" where
  "content_of U s at p =
     (let at = min at (length s);
          end_at = at + run_of (\<lambda>c. c \<noteq> 60 \<and> c \<noteq> 123) (drop at s);
          txt = words_of (take (end_at - at) (drop at s));
          is_text = (\<exists>c \<in> set txt. alphanumeric U c) \<or> txt \<noteq> [] \<and> (\<forall>c \<in> set txt. c \<in> {46, 33, 63})
      in if \<not> is_text then (at, p)
         else (let txt = trim_end_of (\<lambda>c. c = 44 \<or> c = 59) txt
               in (end_at, if txt \<noteq> [] then add_part txt p else p)))"

definition markup_tag ::
  "(str \<Rightarrow> mode \<Rightarrow> parts \<Rightarrow> parts) \<Rightarrow> 'a unicode_scheme \<Rightarrow> str \<Rightarrow> nat \<Rightarrow> parts \<Rightarrow> nat \<times> parts" where
  "markup_tag rec U s i p =
     (let e = name_end U s (i + 1); name = take (e - (i + 1)) (drop (i + 1) s)
      in case tag_end s e of
           None \<Rightarrow> (e, add_part (lit ''open tag '' @ name) p)
         | Some close \<Rightarrow>
             (let inner = trim_end (take (close - e) (drop e s));
                  self_closing = inner \<noteq> [] \<and> last inner = 47;
                  attrs = trim_end_of (\<lambda>c. c = 47) inner;
                  p = add_part ((if self_closing then lit ''tag '' else lit ''open tag '') @ name) p;
                  p = rec attrs attrs_mode p;
                  p = (if self_closing then add_part (lit ''self-closing'') p else p)
              in content_of U s (close + 1) p))"

definition markup ::
  "(str \<Rightarrow> mode \<Rightarrow> parts \<Rightarrow> parts) \<Rightarrow> 'a unicode_scheme \<Rightarrow> str \<Rightarrow> nat \<Rightarrow> parts \<Rightarrow> (nat \<times> parts) option" where
  "markup rec U s i p =
     (let rest = drop i s; letter_at = (\<lambda>k. k < length rest \<and> alphabetic U (rest ! k))
      in if prefix (lit ''<!--'') rest then
           (let after = drop 4 rest; e = find_str (lit ''-->'') after
            in Some (i + (case e of Some e \<Rightarrow> min (e + 7) (length rest) | None \<Rightarrow> length rest),
                     add_part (words_of (case e of Some e \<Rightarrow> take e after | None \<Rightarrow> after))
                       (add_part (lit ''comment'') p)))
         else if prefix (lit ''</>'') rest then Some (content_of U s (i + 3) (add_part (lit ''close fragment'') p))
         else if prefix (lit ''<>'') rest then Some (content_of U s (i + 2) (add_part (lit ''open fragment'') p))
         else if prefix (lit ''/>'') rest then Some (content_of U s (i + 2) (add_part (lit ''self-closing'') p))
         else if \<not> tag_can_start U s i then None
         else if prefix (lit ''</'') rest \<and> letter_at 2 then
           (let e = name_end U s (i + 2);
                p = add_part (lit ''close tag '' @ take (e - (i + 2)) (drop (i + 2) s)) p;
                close = (if 62 \<in> set (drop e s) then e + run_of (\<lambda>c. c \<noteq> 62) (drop e s) + 1 else length s)
            in Some (content_of U s close p))
         else if prefix (lit ''<'') rest \<and> letter_at 1 then Some (markup_tag rec U s i p)
         else None)"

end
