(* ===== verification/Code_Tokens.thy ===== *)
theory Code_Tokens imports Code_Speech begin

text \<open>
  The tokenizer of \<open>crates/sonara-core/src/code_speech.rs\<close> (\<open>tokens\<close>) and what is built on it: a code line read
  aloud and inline code. One turn of its loop is a step; every step moves on, so the loop ends.
\<close>

section \<open>One token\<close>

text \<open>The branches that take text at \<open>i\<close>; each gives the index after it.\<close>

definition block_comment_at :: "str \<Rightarrow> (str \<times> nat) option" where
  "block_comment_at rest =
     (if prefix [47, 42] rest then
        (let body = drop 2 rest
         in case find_str [42, 47] body of
              Some e \<Rightarrow> Some (take e body, e + 4)
            | None \<Rightarrow> Some (body, length rest))
      else None)"

definition lifetime_at :: "'a unicode_scheme \<Rightarrow> str \<Rightarrow> nat option" where
  "lifetime_at U rest =
     (let after = drop 1 rest; e = run_of (is_word_char U) after
      in if hd rest = 39 \<and> 0 < e \<and> \<not> prefix [39] (drop e after) then Some e else None)"

definition opens_string :: "'a unicode_scheme \<Rightarrow> str \<Rightarrow> nat \<Rightarrow> bool" where
  "opens_string U s i \<longleftrightarrow>
     s ! i \<in> {34, 39, 96} \<and>
     \<not> (s ! i = 39 \<and> (case char_before s i of Some c \<Rightarrow> alphanumeric U c | None \<Rightarrow> False))"

definition spoken_string :: "(str \<Rightarrow> mode \<Rightarrow> parts \<Rightarrow> parts) \<Rightarrow> 'a unicode_scheme \<Rightarrow> nat \<Rightarrow> str \<Rightarrow> str" where
  "spoken_string rec U q content =
     (if q = 96 then lit ''backtick '' @ template_with rec U content @ lit '' end backtick''
      else lit ''quote '' @ words_of content @ lit '' end quote'')"

text \<open>A flag: how many dashes it has, and where its name ends.\<close>

definition flag_at :: "'a unicode_scheme \<Rightarrow> str \<Rightarrow> (nat \<times> nat) option" where
  "flag_at U rest =
     (let dashes = run_of (\<lambda>c. c = 45) rest; after = drop dashes rest
      in if dashes \<le> 2 \<and> after \<noteq> [] \<and> alphabetic U (hd after)
         then Some (dashes, dashes + run_of (\<lambda>c. alphanumeric U c \<or> c = 45 \<or> c = 95) after)
         else None)"

definition spoken_flag :: "'a unicode_scheme \<Rightarrow> nat \<Rightarrow> str \<Rightarrow> str" where
  "spoken_flag U dashes name =
     (if dashes = 2 then lit ''dash dash'' else lit ''dash'') @ [32] @
     to_lowercase U (map (\<lambda>c. if c = 45 \<or> c = 95 then 32 else c) name)"

fun number_run :: "'a unicode_scheme \<Rightarrow> bool \<Rightarrow> str \<Rightarrow> nat" where
  "number_run U inl [] = 0"
| "number_run U inl (c # s) =
     (let digit_next = s \<noteq> [] \<and> is_ascii_digit (hd s)
      in if alphanumeric U c \<or> c = 95 \<or> c = 46 \<and> digit_next \<or> c = 45 \<and> inl \<and> digit_next
         then Suc (number_run U inl s) else 0)"

fun word_run :: "'a unicode_scheme \<Rightarrow> bool \<Rightarrow> nat option \<Rightarrow> str \<Rightarrow> nat" where
  "word_run U kebab prev [] = 0"
| "word_run U kebab prev (c # s) =
     (let joins = c = 45 \<and> kebab \<or> c = 39;
          between = (case prev of Some p \<Rightarrow> alphanumeric U p | None \<Rightarrow> False) \<and> s \<noteq> [] \<and> alphabetic U (hd s)
      in if is_word_char U c \<or> joins \<and> between then Suc (word_run U kebab (Some c) s) else 0)"

definition symbol_at :: "str \<Rightarrow> (str \<times> str) option" where
  "symbol_at rest = List.find (\<lambda>(sy, w). prefix sy rest) SYMBOLS"

definition plain_token ::
  "(str \<Rightarrow> mode \<Rightarrow> parts \<Rightarrow> parts) \<Rightarrow> 'a unicode_scheme \<Rightarrow> mode \<Rightarrow> str \<Rightarrow> nat \<Rightarrow> parts \<Rightarrow> nat \<times> parts" where
  "plain_token rec U m s i p =
     (let rest = drop i s; c = hd rest
      in if is_ascii_digit c then
           (let e = number_run U (m_inline m) rest in (i + e, add_word (take e rest) p))
         else if is_word_start U c then
           (let e = word_run U (m_kebab m) None rest in (i + e, add_word (identifier_words U (take e rest)) p))
         else if c = 46 \<and> \<not> prefix [46, 46] rest then (i + 1, add_dot p)
         else
           (case symbol_at rest of
              Some (sy, w) \<Rightarrow> (i + length sy, add_part w p)
            | None \<Rightarrow>
                if is_combining c then (i + 1, p\<lparr>p_words := p_words p @ [c]\<rparr>)
                else (i + 1, add_word [c] p)))"

definition quoted_token ::
  "(str \<Rightarrow> mode \<Rightarrow> parts \<Rightarrow> parts) \<Rightarrow> 'a unicode_scheme \<Rightarrow> mode \<Rightarrow> str \<Rightarrow> nat \<Rightarrow> bool \<Rightarrow> parts \<Rightarrow> nat \<times> parts" where
  "quoted_token rec U m s i was_word p =
     (let rest = drop i s; c = hd rest
      in case (if m_rust m then lifetime_at U rest else None) of
           Some e \<Rightarrow> (i + 1 + e, add_part (lit ''lifetime '' @ take e (drop 1 rest)) p)
         | None \<Rightarrow>
             (case (if opens_string U s i then string_end s i c else None) of
                Some e \<Rightarrow> (e + 1, add_part (words_of (spoken_string rec U c (take (e - (i + 1)) (drop (i + 1) s)))) p)
              | None \<Rightarrow>
                  (case (if m_flags m \<and> was_word \<and> c = 45 then flag_at U rest else None) of
                     Some (dashes, e) \<Rightarrow>
                       (i + e, add_part (spoken_flag U dashes (take (e - dashes) (drop dashes rest))) p)
                   | None \<Rightarrow> plain_token rec U m s i p)))"

section \<open>One turn of the loop\<close>

text \<open>What a turn does: the line ends here, or the loop goes on at an index.\<close>

datatype turn_out = Ends parts | Goes nat bool "nat option" parts

text \<open>A \<open>{\<close> at an index opens a JSX expression.\<close>

definition jsx_at :: "str \<Rightarrow> nat \<Rightarrow> nat option \<Rightarrow> nat option" where
  "jsx_at s i otherwise = (if prefix [123] (drop i s) then Some 0 else otherwise)"

definition comment_at :: "mode \<Rightarrow> bool \<Rightarrow> str \<Rightarrow> bool" where
  "comment_at m was_word rest \<longleftrightarrow>
     m_slash_comment m \<and> was_word \<and> prefix [47, 47] rest \<or>
     m_hash_comment m \<and> hd rest = 35 \<and> was_word \<or>
     m_dash_comment m \<and> was_word \<and> prefix [45, 45] rest"

definition jsx_token ::
  "(str \<Rightarrow> mode \<Rightarrow> parts \<Rightarrow> parts) \<Rightarrow> 'a unicode_scheme \<Rightarrow> mode \<Rightarrow> str \<Rightarrow> nat \<Rightarrow> bool \<Rightarrow> nat option \<Rightarrow> parts \<Rightarrow> turn_out" where
  "jsx_token rec U m s i was_word jsx p =
     (let c = s ! i;
          other = (\<lambda>jsx. let (n, p) = quoted_token rec U m s i was_word p in Goes n False jsx p)
      in case jsx of
           None \<Rightarrow> other None
         | Some depth \<Rightarrow>
             if c = 123 then other (Some (depth + 1))
             else if c = 125 \<and> depth \<le> 1 then
               (let (n, p) = content_of U s (i + 1) (add_part (lit ''close brace'') p)
                in Goes n False (jsx_at s n None) p)
             else if c = 125 then other (Some (depth - 1))
             else other (Some depth))"

definition token_step ::
  "(str \<Rightarrow> mode \<Rightarrow> parts \<Rightarrow> parts) \<Rightarrow> 'a unicode_scheme \<Rightarrow> mode \<Rightarrow> str \<Rightarrow> nat \<Rightarrow> bool \<Rightarrow> nat option \<Rightarrow> parts \<Rightarrow> turn_out" where
  "token_step rec U m s i at_word jsx p =
     (let rest = drop i s; c = s ! i
      in if is_whitespace c then Goes (i + 1) True jsx p
         else if comment_at m at_word rest then
           Ends (add_part (words_of (dropWhile (\<lambda>c. c \<in> {47, 35, 45}) rest)) (add_part (lit ''comment'') p))
         else
           (case (if m_block_comment m then block_comment_at rest else None) of
              Some (inner, len) \<Rightarrow>
                Goes (i + len) False jsx
                  (add_part (words_of (trim_end_of (\<lambda>c. c = 42) (dropWhile (\<lambda>c. c = 42) inner)))
                    (add_part (lit ''comment'') p))
            | None \<Rightarrow>
                (case (if m_markup m then markup rec U s i p else None) of
                   Some (n, p) \<Rightarrow> Goes n False (jsx_at s n jsx) p
                 | None \<Rightarrow> jsx_token rec U m s i at_word jsx p)))"

section \<open>Every turn moves on\<close>

lemma run_of_pos: "s \<noteq> [] \<Longrightarrow> P (hd s) \<Longrightarrow> 0 < run_of P s"
  by (cases s) (simp_all add: run_of_def)

lemma content_of_from: "min at (length s) \<le> fst (content_of U s at p)"
  by (simp add: content_of_def Let_def)

lemma number_run_pos: "is_ascii_digit (hd s) \<Longrightarrow> s \<noteq> [] \<Longrightarrow> 0 < number_run U inl s"
  by (cases s) (simp_all add: digit_alphanumeric)

lemma word_run_pos: "is_word_start U (hd s) \<Longrightarrow> s \<noteq> [] \<Longrightarrow> 0 < word_run U kebab None s"
  by (cases s) (auto simp: is_word_start_def is_word_char_def alphanumeric_def)

lemma symbol_at_pos: "symbol_at rest = Some (sy, w) \<Longrightarrow> sy \<noteq> []"
proof -
  assume "symbol_at rest = Some (sy, w)"
  then have "(sy, w) \<in> set SYMBOLS" by (auto simp: symbol_at_def find_Some_iff in_set_conv_nth)
  moreover have "list_all (\<lambda>(sy, w). sy \<noteq> []) SYMBOLS" by (simp add: SYMBOLS_def)
  ultimately show ?thesis by (auto simp: list_all_iff)
qed

lemma plain_token_moves:
  assumes "i < length s"
  shows "i < fst (plain_token rec U m s i p)"
proof -
  have r: "drop i s \<noteq> []" using assms by simp
  show ?thesis
    using number_run_pos [OF _ r, of U "m_inline m"] word_run_pos [OF _ r, of U "m_kebab m"] symbol_at_pos [of "drop i s"]
    by (auto simp: plain_token_def Let_def split: option.split)
qed

lemma quoted_token_moves:
  assumes "i < length s"
  shows "i < fst (quoted_token rec U m s i was_word p)"
proof -
  have s: "i < e + 1" if "string_end s i q = Some e" for e q using that by (auto simp: string_end_def)
  have f: "0 < e" if "flag_at U (drop i s) = Some (d, e)" "hd (drop i s) = 45" for d e
    using that assms run_of_pos [of "drop i s" "\<lambda>c. c = 45"] by (auto simp: flag_at_def Let_def split: if_splits)
  show ?thesis
    using plain_token_moves [OF assms, of rec U m p] s f
    by (auto simp: quoted_token_def Let_def split: option.split if_splits)
qed

lemma block_comment_moves: "block_comment_at rest = Some (inner, len) \<Longrightarrow> 0 < len"
  by (auto simp: block_comment_at_def Let_def dest: prefix_length_le split: if_splits option.splits)

lemma name_end_from: "at \<le> name_end U s at"
  by (simp add: name_end_def)

lemma tag_end_from_start: "tag_end s start = Some e \<Longrightarrow> start \<le> e"
  by (auto simp: tag_end_def)

lemma markup_moves:
  assumes "markup rec U s i p = Some (n, q)" "i < length s"
  shows "i < n"
proof -
  have c: "i < fst (content_of U s at q)" if "i < at" for at q
    using content_of_from [of at s U q] that assms(2) by simp
  have tag: "i < fst (markup_tag rec U s i p)"
    using name_end_from [of "i + 1" U s]
    by (auto simp: markup_tag_def Let_def split: option.split intro!: c dest!: tag_end_from_start)
  have close: "i < fst (content_of U s (if 62 \<in> set (drop (name_end U s (i + 2)) s)
      then name_end U s (i + 2) + run_of (\<lambda>c. c \<noteq> 62) (drop (name_end U s (i + 2)) s) + 1 else length s) q)" for q
    using name_end_from [of "i + 2" U s] assms(2) by (intro c) simp
  have e: "0 < length (drop i s)" using assms(2) by simp
  show ?thesis
    using assms(1) tag close c [of "i + 3"] c [of "i + 2"] e
    by (auto simp: markup_def Let_def simp del: length_drop split: if_splits option.splits) (metis fst_conv)+
qed

lemma token_step_moves:
  assumes "token_step rec U m s i at_word jsx p = Goes n w j q" "i < length s"
  shows "i < n"
proof -
  have "i < fst (quoted_token rec U m s i at_word p)" by (rule quoted_token_moves [OF assms(2)])
  moreover have "i < fst (content_of U s (i + 1) q)" for q
    using content_of_from [of "i + 1" s U q] assms(2) by simp
  ultimately have j: "i < n" if "jsx_token rec U m s i at_word jsx p = Goes n w j q"
    using that by (auto simp: jsx_token_def Let_def case_prod_beta split: if_splits option.splits)
  show ?thesis
    using assms j block_comment_moves [of "drop i s"] markup_moves [of rec U s i p]
    by (auto simp: token_step_def Let_def split: if_splits option.splits)
qed

function token_loop ::
  "(str \<Rightarrow> mode \<Rightarrow> parts \<Rightarrow> parts) \<Rightarrow> 'a unicode_scheme \<Rightarrow> mode \<Rightarrow> str \<Rightarrow> nat \<Rightarrow> bool \<Rightarrow> nat option \<Rightarrow> parts \<Rightarrow> parts" where
  "token_loop rec U m s i at_word jsx p =
     (if i < length s then
        (case token_step rec U m s i at_word jsx p of
           Ends p \<Rightarrow> p
         | Goes n w j p \<Rightarrow> token_loop rec U m s n w j p)
      else p)"
  by pat_completeness auto
termination
  by (relation "measure (\<lambda>(_, _, _, s, i, _). length s - i)") (auto dest!: token_step_moves)

declare token_loop.simps [simp del]

text \<open>The recursion closed: \<open>d\<close> bounds the depth of the nesting.\<close>

fun tokens_in :: "nat \<Rightarrow> 'a unicode_scheme \<Rightarrow> str \<Rightarrow> mode \<Rightarrow> parts \<Rightarrow> parts" where
  "tokens_in 0 U s m p = p"
| "tokens_in (Suc d) U s m p = token_loop (tokens_in d U) U m s 0 True None p"

definition tokens :: "'a unicode_scheme \<Rightarrow> str \<Rightarrow> mode \<Rightarrow> parts \<Rightarrow> parts" where
  "tokens U s m p = tokens_in (length s + 1) U s m p"

section \<open>Lines and inline code\<close>

definition render :: "'a unicode_scheme \<Rightarrow> str \<Rightarrow> mode \<Rightarrow> str" where
  "render U code m = render_with (tokens U) code m"

definition inline_code :: "'a unicode_scheme \<Rightarrow> str \<Rightarrow> str" where
  "inline_code U code = inline_with (tokens U) U code"

definition code_of_line :: "str \<Rightarrow> str" where
  "code_of_line raw =
     (let code = trim raw
      in if code \<noteq> [] \<and> last code = 59 then trim_end (butlast code) else code)"

definition spoken_code :: "'a unicode_scheme \<Rightarrow> str \<Rightarrow> str \<Rightarrow> str" where
  "spoken_code U code lang =
     (let m = mode_of U lang code False in if m_prose m then words_of code else render U code m)"

definition spoken_line :: "'a unicode_scheme \<Rightarrow> str \<Rightarrow> str \<Rightarrow> nat \<Rightarrow> str option" where
  "spoken_line U raw info n =
     (let code = code_of_line raw; spoken = spoken_code U code (info_word info)
      in if code = [] then None
         else if spoken = [] then None
         else (let out = lit ''Line '' @ cardinal n @ lit '': '' @ spoken
               in Some (if last out \<in> {46, 33, 63} then out else out @ [46])))"

end
