(* ===== verification/Code_Letters.thy ===== *)
theory Code_Letters imports Code_Tokens begin

text \<open>
  Nothing written in a code line is lost when it is read aloud (\<open>crates/sonara-core/src/code_speech.rs\<close>): its
  letters and digits are spoken in order. And the bound on the depth of \<open>tokens\<close> is enough.
\<close>

section \<open>The bound on the depth\<close>

text \<open>A step only calls back on shorter text.\<close>

definition agree_below :: "nat \<Rightarrow> (str \<Rightarrow> mode \<Rightarrow> parts \<Rightarrow> parts) \<Rightarrow> (str \<Rightarrow> mode \<Rightarrow> parts \<Rightarrow> parts) \<Rightarrow> bool" where
  "agree_below n f g \<longleftrightarrow> (\<forall>x m p. length x < n \<longrightarrow> f x m p = g x m p)"

lemma agree_belowD: "agree_below n f g \<Longrightarrow> length x < n \<Longrightarrow> f x m p = g x m p"
  by (simp add: agree_below_def)

lemma trim_end_of_length: "length (trim_end_of P s) \<le> length s"
  using length_dropWhile_le [of P "rev s"] by (simp add: trim_end_of_def)

lemma trim_start_length: "length (trim_start s) \<le> length s"
  by (simp add: trim_start_def length_dropWhile_le)

lemma trim_end_length: "length (trim_end s) \<le> length s"
  using length_dropWhile_le [of is_whitespace "rev s"] by (simp add: trim_end_def)

lemma trim_length: "length (trim s) \<le> length s"
  using trim_end_length [of "trim_start s"] trim_start_length [of s] by (simp add: trim_def)

lemma inline_agree: "agree_below n f g \<Longrightarrow> length x < n \<Longrightarrow> inline_with f U x = inline_with g U x"
  using trim_length [of x] by (simp add: inline_with_def render_with_def Let_def agree_belowD)

lemma template_agree: "agree_below n f g \<Longrightarrow> length s < n \<Longrightarrow> template_from f U s = template_from g U s"
proof (induction f U s rule: template_from.induct)
  case (1 f U rest)
  show ?case
  proof (cases "find_str [36, 123] rest")
    case (Some at)
    define after where "after = drop (at + 2) rest"
    have l: "length after < n" using 1(3) by (simp add: after_def)
    have "inline_with f U (take k after) = inline_with g U (take k after)" for k
      by (rule inline_agree [OF 1(2)]) (use l in simp)
    moreover have "template_from f U (drop (run_of (\<lambda>c. c \<noteq> 125) after + 1) after) =
        template_from g U (drop (run_of (\<lambda>c. c \<noteq> 125) after + 1) after)"
      using 1(1) [OF Some after_def refl 1(2)] l by simp
    moreover have "template_from h U rest = take at rest @ lit '' insert '' @
        inline_with h U (take (run_of (\<lambda>c. c \<noteq> 125) after) after) @ [32] @
        template_from h U (drop (run_of (\<lambda>c. c \<noteq> 125) after + 1) after)" for h
      unfolding template_from.simps [of h U rest] Some option.case Let_def after_def ..
    ultimately show ?thesis by (simp only:)
  qed (simp add: template_from.simps)
qed

lemma quoted_agree:
  assumes "agree_below (length s) f g" "i < length s"
  shows "quoted_token f U m s i w p = quoted_token g U m s i w p"
proof -
  have 1: "spoken_string f U q (take k (drop (i + 1) s)) = spoken_string g U q (take k (drop (i + 1) s))" for q k
  proof -
    have "length (take k (drop (i + 1) s)) < length s" using assms(2) by simp
    then show ?thesis by (simp only: spoken_string_def template_with_def template_agree [OF assms(1)])
  qed
  have 2: "plain_token f U m s i p = plain_token g U m s i p" by (simp add: plain_token_def)
  show ?thesis unfolding quoted_token_def Let_def 1 2 ..
qed

lemma markup_agree:
  assumes "agree_below (length s) f g" "i < length s"
  shows "markup f U s i p = markup g U s i p"
proof -
  have attrs: "f (trim_end_of P (trim_end (take k (drop (name_end U s (i + 1)) s)))) m q =
      g (trim_end_of P (trim_end (take k (drop (name_end U s (i + 1)) s)))) m q" for P k m q
    using trim_end_of_length [of P "trim_end (take k (drop (name_end U s (i + 1)) s))"] assms(2)
      trim_end_length [of "take k (drop (name_end U s (i + 1)) s)"] name_end_from [of "i + 1" U s]
      length_take [of k "drop (name_end U s (i + 1)) s"] length_drop [of "name_end U s (i + 1)" s]
    by (intro agree_belowD [OF assms(1)]) linarith
  have tag: "markup_tag f U s i q = markup_tag g U s i q" for q
    unfolding markup_tag_def Let_def attrs ..
  show ?thesis unfolding markup_def tag ..
qed

lemma token_step_agree:
  assumes "agree_below (length s) f g" "i < length s"
  shows "token_step f U m s i w j p = token_step g U m s i w j p"
  unfolding token_step_def jsx_token_def quoted_agree [OF assms] markup_agree [OF assms] ..

lemma token_loop_agree:
  "agree_below (length s) f g \<Longrightarrow> token_loop f U m s i w j p = token_loop g U m s i w j p"
proof (induction f U m s i w j p rule: token_loop.induct)
  case (1 f U m s i w j p)
  show ?case
    using token_step_agree [OF 1(2), of i U m w j p] 1(1) [OF _ _ 1(2)]
    by (subst (1 2) token_loop.simps) (auto split: turn_out.split)
qed

lemma tokens_in_enough: "length s < d \<Longrightarrow> length s < e \<Longrightarrow> tokens_in d U s m p = tokens_in e U s m p"
proof (induction d arbitrary: e s m p)
  case (Suc d)
  obtain k where e: "e = Suc k" using Suc.prems(2) by (cases e) auto
  have "agree_below (length s) (tokens_in d U) (tokens_in k U)"
    unfolding agree_below_def by (intro allI impI Suc.IH) (use Suc.prems e in simp_all)
  then show ?case unfolding e tokens_in.simps by (rule token_loop_agree)
qed simp

lemma tokens_rec: "tokens U s m p = token_loop (tokens U) U m s 0 True None p"
proof -
  have "agree_below (length s) (tokens_in (length s) U) (tokens U)"
    unfolding agree_below_def tokens_def by (intro allI impI tokens_in_enough) simp_all
  then show ?thesis using token_loop_agree by (simp add: tokens_def)
qed

section \<open>Tidy closing tags\<close>

text \<open>
  The tokenizer skips what a closing tag has between its name and its \<open>>\<close>. In a tidy text there is nothing:
  the name of a closing tag ends the text or is followed by the \<open>>\<close>.
\<close>

definition tag_char :: "'a unicode_scheme \<Rightarrow> nat \<Rightarrow> bool" where
  "tag_char U c \<longleftrightarrow> alphanumeric U c \<or> c \<in> {46, 58, 45, 95}"

definition tidy_tag :: "'a unicode_scheme \<Rightarrow> str \<Rightarrow> bool" where
  "tidy_tag U s \<longleftrightarrow>
     (if prefix [60, 47] s \<and> drop 2 s \<noteq> [] \<and> alphabetic U (hd (drop 2 s))
      then dropWhile (tag_char U) (drop 2 s) = [] \<or> hd (dropWhile (tag_char U) (drop 2 s)) = 62 else True)"

fun tidy :: "'a unicode_scheme \<Rightarrow> str \<Rightarrow> bool" where
  "tidy U [] = True"
| "tidy U (c # s) = (tidy_tag U (c # s) \<and> tidy U s)"

lemma tidy_tag_prefix:
  assumes "tidy_tag U (x @ y)"
  shows "tidy_tag U x"
proof (cases "prefix [60, 47] x \<and> drop 2 x \<noteq> [] \<and> alphabetic U (hd (drop 2 x))")
  case True
  then obtain z where z: "x = [60, 47] @ z" "z \<noteq> []" "alphabetic U (hd z)" by (auto simp: prefix_def)
  then have "dropWhile (tag_char U) (z @ y) = [] \<or> hd (dropWhile (tag_char U) (z @ y)) = 62"
    using assms by (simp add: tidy_tag_def)
  moreover have "dropWhile (tag_char U) (z @ y) =
      (if dropWhile (tag_char U) z = [] then dropWhile (tag_char U) y else dropWhile (tag_char U) z @ y)"
    by (induction z) auto
  ultimately have "dropWhile (tag_char U) z = [] \<or> hd (dropWhile (tag_char U) z) = 62"
    by (auto simp del: dropWhile_eq_Nil_conv split: if_splits)
  then show ?thesis using z by (simp add: tidy_tag_def)
qed (simp only: tidy_tag_def if_False)

lemma tidy_left: "tidy U (x @ y) \<Longrightarrow> tidy U x"
proof (induction x)
  case (Cons c x)
  then show ?case using tidy_tag_prefix [of U "c # x" y] by simp
qed simp

lemma tidy_right: "tidy U (x @ y) \<Longrightarrow> tidy U y"
  by (induction x) simp_all

lemma tidy_take: "tidy U s \<Longrightarrow> tidy U (take n s)"
  by (metis append_take_drop_id tidy_left)

lemma tidy_drop: "tidy U s \<Longrightarrow> tidy U (drop n s)"
  by (metis append_take_drop_id tidy_right)

lemma tidy_trim_end_of: "tidy U s \<Longrightarrow> tidy U (trim_end_of P s)"
proof -
  have "s = trim_end_of P s @ rev (takeWhile P (rev s))"
    unfolding trim_end_of_def by (metis rev_append rev_rev_ident takeWhile_dropWhile_id)
  then show "tidy U s \<Longrightarrow> tidy U (trim_end_of P s)" by (metis tidy_left)
qed

lemma tidy_trim_end: "tidy U s \<Longrightarrow> tidy U (trim_end s)"
  using tidy_trim_end_of [of U s is_whitespace] by (simp add: trim_end_of_def trim_end_def)

lemma tidy_trim: "tidy U s \<Longrightarrow> tidy U (trim s)"
  unfolding trim_def trim_start_def by (intro tidy_trim_end) (metis takeWhile_dropWhile_id tidy_right)

lemma tidy_at:
  assumes "tidy U s" "prefix [60, 47] (drop i s)" "i + 2 < length s" "alphabetic U (s ! (i + 2))"
  shows "drop (name_end U s (i + 2)) s = [] \<or> hd (drop (name_end U s (i + 2)) s) = 62"
proof -
  have "tidy U (drop i s)" by (rule tidy_drop [OF assms(1)])
  then have "tidy_tag U (drop i s)" using assms(3) by (cases "drop i s") simp_all
  moreover have "hd (drop (i + 2) s) = s ! (i + 2)" using assms(3) by (rule hd_drop_conv_nth)
  moreover have "drop (name_end U s (i + 2)) s = dropWhile (tag_char U) (drop (i + 2) s)"
    by (simp add: name_end_def tag_char_def [abs_def] run_of_def dropWhile_eq_drop add.commute)
  ultimately show ?thesis using assms(2-4) by (simp add: tidy_tag_def add.commute)
qed

section \<open>The letters of a text\<close>

text \<open>Letters and digits, up to a folding of case \<open>F\<close>.\<close>

definition letters_of :: "'a unicode_scheme \<Rightarrow> (nat \<Rightarrow> str) \<Rightarrow> str \<Rightarrow> str" where
  "letters_of U F s = concat (map F (filter (alphanumeric U) s))"

text \<open>What is documented of the tables: white space is no letter, and lower-casing keeps the folded letters.\<close>

definition unicode_ok :: "'a unicode_scheme \<Rightarrow> (nat \<Rightarrow> str) \<Rightarrow> bool" where
  "unicode_ok U F \<longleftrightarrow>
     (\<forall>c. is_whitespace c \<longrightarrow> \<not> alphanumeric U c) \<and> (\<forall>w. letters_of U F (to_lowercase U w) = letters_of U F w)"

lemma letters_of_simps [simp]:
  "letters_of U F [] = []"
  "letters_of U F (x @ y) = letters_of U F x @ letters_of U F y"
  "letters_of U F (c # x) = (if alphanumeric U c then F c else []) @ letters_of U F x"
  by (simp_all add: letters_of_def)

lemma letters_of_none: "\<forall>c \<in> set s. \<not> alphanumeric U c \<Longrightarrow> letters_of U F s = []"
  by (induction s) simp_all

lemma letters_dropWhile: "(\<And>c. P c \<Longrightarrow> \<not> alphanumeric U c) \<Longrightarrow> letters_of U F (dropWhile P s) = letters_of U F s"
  by (induction s) simp_all

lemma letters_rev_dropWhile:
  assumes "\<And>c. P c \<Longrightarrow> \<not> alphanumeric U c"
  shows "letters_of U F (rev (dropWhile P (rev s))) = letters_of U F s"
proof (induction s rule: rev_induct)
  case (snoc c s)
  then show ?case using assms by (cases "P c") simp_all
qed simp

lemma letters_trim_end_of:
  "(\<And>c. P c \<Longrightarrow> \<not> alphanumeric U c) \<Longrightarrow> letters_of U F (trim_end_of P s) = letters_of U F s"
  unfolding trim_end_of_def by (rule letters_rev_dropWhile)

lemma letters_split_runs:
  assumes "\<And>c. sep c \<Longrightarrow> \<not> alphanumeric U c"
  shows "concat (map (letters_of U F) (split_runs sep w s)) = letters_of U F w @ letters_of U F s"
  using assms by (induction sep w s rule: split_runs.induct) auto

lemma letters_words_from:
  assumes "\<And>c. is_whitespace c \<Longrightarrow> \<not> alphanumeric U c"
  shows "concat (map (letters_of U F) (words_from w s)) = letters_of U F w @ letters_of U F s"
  using assms by (induction w s rule: words_from.induct) auto

lemma letters_join:
  "letters_of U F sep = [] \<Longrightarrow> letters_of U F (join sep ws) = concat (map (letters_of U F) ws)"
  by (induction sep ws rule: join.induct) simp_all

locale letters =
  fixes U :: "'a unicode_scheme" and F :: "nat \<Rightarrow> str"
  assumes ok: "unicode_ok U F"
begin

abbreviation lets :: "str \<Rightarrow> str" where "lets \<equiv> letters_of U F"

lemma space: "is_whitespace c \<Longrightarrow> \<not> alphanumeric U c"
  using ok by (simp add: unicode_ok_def)

lemma lower: "lets (to_lowercase U w) = lets w"
  using ok by (simp add: unicode_ok_def)

lemma trims: "lets (trim_start s) = lets s" "lets (trim_end s) = lets s" "lets (trim s) = lets s"
  by (simp_all add: trim_def trim_start_def trim_end_def letters_dropWhile letters_rev_dropWhile space)

lemma words: "lets (words_of s) = lets s"
  by (simp add: words_of_def split_whitespace_def letters_join no_alphanumeric letters_words_from space)

lemma camel: "concat (map lets (camel_pieces U prev cur s)) = lets cur @ lets s"
  by (induction U prev cur s rule: camel_pieces.induct) (auto simp: Let_def)

lemma camels: "concat (map lets (concat (map (camel_pieces U None []) ws))) = concat (map lets ws)"
  by (induction ws) (simp_all add: camel)

lemma ident: "lets (identifier_words U w) = lets w"
proof -
  define ps where "ps = concat (map (camel_pieces U None []) (split_runs (\<lambda>c. c = 95 \<or> c = 45) [] w))"
  have "concat (map lets ps) = concat (map lets (split_runs (\<lambda>c. c = 95 \<or> c = 45) [] w))"
    unfolding ps_def by (rule camels)
  also have "\<dots> = lets w" by (subst letters_split_runs) (auto simp: no_alphanumeric)
  finally have ps: "concat (map lets ps) = lets w" .
  define say where "say = (\<lambda>p. if 1 < length (filter (alphabetic U) p) \<and> (\<forall>c \<in> set p. \<not> lowercase U c) then p
      else to_lowercase U p)"
  have "lets (say p) = lets p" for p by (simp add: say_def lower)
  then have joined: "lets (join [32] (map say ps)) = concat (map lets ps)"
    by (simp add: letters_join no_alphanumeric comp_def)
  have "identifier_words U w = (if length ps \<le> 1 then (if ps = [] then [] else last ps) else join [32] (map say ps))"
    unfolding identifier_words_def Let_def ps_def say_def ..
  moreover have "ps = [] \<or> (\<exists>p. ps = [p])" if "length ps \<le> 1" using that by (cases ps) auto
  ultimately show ?thesis using ps joined by auto
qed

lemma concats: "lets (concat ws) = concat (map lets ws)"
  by (induction ws) simp_all

section \<open>What the parts hold\<close>

definition uttered :: "parts \<Rightarrow> str" where
  "uttered p = concat (p_done p) @ p_words p"

text \<open>From \<open>p\<close> to \<open>q\<close> the letters of \<open>w\<close> are added, in order.\<close>

definition says :: "str \<Rightarrow> parts \<Rightarrow> parts \<Rightarrow> bool" where
  "says w p q \<longleftrightarrow> (\<exists>x. lets (uttered q) = lets (uttered p) @ x \<and> subseq (lets w) x)"

lemma says_refl: "lets w = [] \<Longrightarrow> says w p p"
  by (simp add: says_def)

lemma says_trans:
  assumes "says v p q" "says w q r"
  shows "says (v @ w) p r"
proof -
  obtain x y where "lets (uttered q) = lets (uttered p) @ x" "subseq (lets v) x"
    "lets (uttered r) = lets (uttered q) @ y" "subseq (lets w) y"
    using assms by (auto simp: says_def)
  then show ?thesis by (auto simp: says_def intro!: list_emb_append_mono)
qed

lemma says_cong: "says w p q \<Longrightarrow> lets v = lets w \<Longrightarrow> says v p q"
  by (simp add: says_def)

lemma says_add: "lets (uttered q) = lets (uttered p) @ x \<Longrightarrow> subseq (lets w) x \<Longrightarrow> says w p q"
  by (auto simp: says_def)

lemma add_word_says: "says w p (add_word w p)"
proof (cases "w = []")
  case False
  then show ?thesis
    by (intro says_add [of _ _ "lets (if p_dot p \<and> p_words p \<noteq> [] then lit '' dot '' else if p_words p \<noteq> [] then [32] else []) @ lets w"])
      (simp_all add: uttered_def add_word_def list_emb_append2 del: lit_Cons letters_of_simps(3))
qed (simp add: says_refl add_word_def)

lemma flush_parts_says: "says [] p (flush_parts p)"
  by (intro says_add [of _ _ "lets (if p_dot p then lit '' dot'' else [])"])
    (simp_all add: flush_parts_def uttered_def Let_def)

lemma add_part_says: "says w p (add_part w p)"
proof -
  have "says w (flush_parts p) (add_part w p)"
  proof (cases "trim w = []")
    case True
    then have "lets w = []" using trims(3) [of w] by simp
    then show ?thesis using True by (simp add: says_refl add_part_def Let_def)
  next
    case False
    have "p_words (flush_parts p) = []" by (simp add: flush_parts_def Let_def)
    then show ?thesis using False trims(3) [of w]
      by (intro says_add [of _ _ "lets w"]) (simp_all add: add_part_def Let_def uttered_def)
  qed
  then show ?thesis using says_trans [OF flush_parts_says, of w p "add_part w p"] by simp
qed

lemma add_part_silent: "lets w = [] \<Longrightarrow> says w p (add_part v p)"
  using add_part_says [of v p] by (auto simp: says_def)

lemma add_dot_says: "says [46] p (add_dot p)"
  by (auto simp: add_dot_def no_alphanumeric uttered_def intro!: add_part_silent says_add [of _ _ "[]"])

lemma finish_says: "subseq (lets w) (lets (finish_parts q))" if "says w no_parts q"
proof -
  have "p_words (flush_parts q) = []" by (simp add: flush_parts_def Let_def)
  then have "lets (finish_parts q) = lets (uttered (flush_parts q))"
    by (simp add: finish_parts_def letters_join no_alphanumeric uttered_def concats)
  moreover have "says w no_parts (flush_parts q)" using says_trans [OF that flush_parts_says] by simp
  ultimately show ?thesis by (auto simp: says_def uttered_def no_parts_def)
qed

end

end
