(* ===== verification/Code_Claims.thy ===== *)
theory Code_Claims imports Code_Letters begin

text \<open>
  Every turn of the tokenizer of \<open>crates/sonara-core/src/code_speech.rs\<close> speaks the letters and digits it passes
  over, so a code line loses none of them.
\<close>

definition between :: "nat \<Rightarrow> nat \<Rightarrow> str \<Rightarrow> str" where
  "between i n s = take (n - i) (drop i s)"

lemma between_split:
  assumes "i \<le> n" "n \<le> k"
  shows "between i k s = between i n s @ between n k s"
proof -
  have "take (k - i) (drop i s) = take ((n - i) + (k - n)) (drop i s)" using assms by simp
  also have "\<dots> = take (n - i) (drop i s) @ take (k - n) (drop n s)" using assms by (simp only: take_add) simp
  finally show ?thesis by (simp add: between_def)
qed

lemma between_rest: "i \<le> n \<Longrightarrow> drop i s = between i n s @ drop n s"
  by (metis append_take_drop_id between_def drop_drop le_add_diff_inverse2)

lemma between_one: "i < length s \<Longrightarrow> between i (Suc i) s = [s ! i]"
  by (simp add: between_def take_Suc_conv_app_nth)

lemma prefix_drop: "prefix w s \<Longrightarrow> s = w @ drop (length w) s"
  by (auto simp: prefix_def)

lemma between_self [simp]: "between i i s = []"
  by (simp add: between_def)

lemma run_of_take: "take (run_of P s) s = takeWhile P s"
  by (simp add: run_of_def takeWhile_eq_take [symmetric])

context letters
begin

definition rec_ok :: "nat \<Rightarrow> (str \<Rightarrow> mode \<Rightarrow> parts \<Rightarrow> parts) \<Rightarrow> bool" where
  "rec_ok n rec \<longleftrightarrow> (\<forall>x m p. length x < n \<and> tidy U x \<longrightarrow> says x p (rec x m p))"

lemma inline_says:
  assumes "rec_ok n rec" "length code < n" "tidy U code"
  shows "subseq (lets code) (lets (inline_with rec U code))"
proof -
  have "says (trim code) no_parts (rec (trim code) m no_parts)" for m
    using assms trim_length [of code] tidy_trim [of U code] by (simp add: rec_ok_def)
  then have "subseq (lets (trim code)) (lets (render_with rec (trim code) m))" for m
    unfolding render_with_def by (rule finish_says)
  then show ?thesis by (simp add: inline_with_def Let_def trims(3))
qed

lemma drop_run: "lets (drop (run_of P s) s) = lets (drop (run_of P s + 1) s)"
  if "\<And>c. \<not> P c \<Longrightarrow> \<not> alphanumeric U c"
proof -
  have "drop (run_of P s) s = dropWhile P s" by (simp add: run_of_def dropWhile_eq_drop)
  moreover have "drop (run_of P s + 1) s = tl (dropWhile P s)"
    by (simp add: calculation [symmetric] drop_Suc tl_drop)
  ultimately show ?thesis using that hd_dropWhile [of P s] by (cases "dropWhile P s") (auto simp del: hd_dropWhile)
qed

lemma template_says: "rec_ok n rec \<Longrightarrow> length s < n \<Longrightarrow> tidy U s \<Longrightarrow> subseq (lets s) (lets (template_from rec U s))"
proof (induction s rule: length_induct)
  case (1 s)
  show ?case
  proof (cases "find_str [36, 123] s")
    case None
    then show ?thesis by (simp add: template_from.simps)
  next
    case (Some at)
    define after where "after = drop (at + 2) s"
    define close where "close = run_of (\<lambda>c. c \<noteq> 125) after"
    have at: "take 2 (drop at s) = [36, 123]" "at + 2 \<le> length s" using find_str_Some [OF Some] by (simp_all add: numeral_2_eq_2)
    have "drop at s = take 2 (drop at s) @ after" unfolding after_def
      by (metis append_take_drop_id drop_drop add.commute)
    then have "s = take at s @ take 2 (drop at s) @ after" by (metis append_take_drop_id)
    then have "lets s = lets (take at s) @ lets [36, 123] @ lets after" unfolding at by (metis letters_of_simps(2))
    moreover have "lets [36, 123] = []" by (simp add: no_alphanumeric)
    moreover have "lets after = lets (take close after) @ lets (drop close after)"
      by (metis append_take_drop_id letters_of_simps(2))
    moreover have "lets (drop close after) = lets (drop (close + 1) after)"
      unfolding close_def by (rule drop_run) (simp add: no_alphanumeric)
    ultimately have s: "lets s = lets (take at s) @ lets (take close after) @ lets (drop (close + 1) after)" by simp
    have "subseq (lets (take close after)) (lets (inline_with rec U (take close after)))"
      using inline_says [OF 1(2), of "take close after"] 1(3) at tidy_take [OF tidy_drop [OF 1(4)]] by (simp add: after_def)
    moreover have "subseq (lets (drop (close + 1) after)) (lets (template_from rec U (drop (close + 1) after)))"
      using 1(1) 1(2,3) at tidy_drop [OF 1(4)] by (simp add: after_def)
    ultimately have "subseq (lets (take close after) @ lets (drop (close + 1) after))
        (lets (lit '' insert '') @ lets (inline_with rec U (take close after)) @ lets [32] @
         lets (template_from rec U (drop (close + 1) after)))"
      by (intro list_emb_append2 [where zs = "lets _ @ _"] list_emb_append_mono list_emb_append2)
    moreover have "template_from rec U s = take at s @ lit '' insert '' @ inline_with rec U (take close after) @ [32] @
        template_from rec U (drop (close + 1) after)"
      unfolding template_from.simps [of rec U s] Some option.case Let_def after_def close_def ..
    ultimately show ?thesis unfolding s by (simp only: letters_of_simps(2) subseq_append')
  qed
qed

section \<open>Each branch says what it passes over\<close>

text \<open>A branch at \<open>i\<close> that goes on at the index it returns.\<close>

definition passes :: "str \<Rightarrow> nat \<Rightarrow> parts \<Rightarrow> nat \<times> parts \<Rightarrow> bool" where
  "passes s i p nq \<longleftrightarrow> i \<le> fst nq \<and> says (between i (fst nq) s) p (snd nq)"

lemma passes_trans: "passes s i p (n, q) \<Longrightarrow> passes s n q kr \<Longrightarrow> passes s i p kr"
proof -
  assume a: "passes s i p (n, q)" "passes s n q kr"
  then have "between i (fst kr) s = between i n s @ between n (fst kr) s" by (intro between_split) (simp_all add: passes_def)
  then show ?thesis using a says_trans [of "between i n s" p q "between n (fst kr) s" "snd kr"] by (simp add: passes_def)
qed

lemma passes_part:
  "i \<le> n \<Longrightarrow> lets (between i n s) = lets w \<Longrightarrow> passes s i p (n, add_part w p)"
  by (auto simp: passes_def intro: says_cong [OF add_part_says])

lemma passes_silent: "i \<le> n \<Longrightarrow> lets (between i n s) = [] \<Longrightarrow> passes s i p (n, add_part w p)"
  by (simp add: passes_def add_part_silent)

lemma between_take: "between i (i + k) s = take k (drop i s)"
  by (simp add: between_def)

lemma lets_prefix:
  assumes "prefix w (drop i s)" "lets w = []"
  shows "lets (between i (i + length w) s) = []"
  using assms by (auto simp: between_take prefix_def)

lemma content_of_passes:
  assumes "i \<le> length s"
  shows "passes s i p (content_of U s i p)"
proof -
  define e where "e = i + run_of (\<lambda>c. c \<noteq> 60 \<and> c \<noteq> 123) (drop i s)"
  define tx where "tx = words_of (take (e - i) (drop i s))"
  have l: "lets tx = lets (between i e s)" by (simp add: tx_def between_def words)
  have t: "lets (trim_end_of (\<lambda>c. c = 44 \<or> c = 59) tx) = lets tx"
    by (rule letters_trim_end_of) (auto simp: no_alphanumeric)
  have c: "content_of U s i p =
      (if \<not> ((\<exists>c \<in> set tx. alphanumeric U c) \<or> tx \<noteq> [] \<and> (\<forall>c \<in> set tx. c \<in> {46, 33, 63})) then (i, p)
       else (e, if trim_end_of (\<lambda>c. c = 44 \<or> c = 59) tx \<noteq> [] then add_part (trim_end_of (\<lambda>c. c = 44 \<or> c = 59) tx) p else p))"
    unfolding content_of_def Let_def tx_def e_def min_absorb1 [OF assms] ..
  have "i \<le> e" by (simp add: e_def)
  then show ?thesis unfolding c using l t
    by (auto simp: passes_def says_refl intro!: says_cong [OF add_part_says])
qed

lemma between_run: "i + run_of P (drop i s) = n \<Longrightarrow> between i n s = takeWhile P (drop i s)"
  by (auto simp: between_take run_of_take)

lemma plain_token_passes:
  assumes "i < length s"
  shows "passes s i p (plain_token rec U m s i p)"
proof -
  define rest where "rest = drop i s"
  have r: "rest = s ! i # drop (i + 1) s" "hd rest = s ! i" using assms by (simp_all add: rest_def Cons_nth_drop_Suc hd_drop_conv_nth)
  have w: "passes s i p (i + e, add_word (take e rest) p)" for e
    using add_word_says [of "take e rest" p] by (simp add: passes_def between_take rest_def)
  have ident: "passes s i p (i + e, add_word (identifier_words U (take e rest)) p)" for e
    using add_word_says [of "identifier_words U (take e rest)" p]
    by (simp add: passes_def between_take rest_def says_def ident)
  have dot: "passes s i p (i + 1, add_dot p)" if "s ! i = 46"
    using add_dot_says [of p] that assms by (simp add: passes_def between_one)
  have sym: "passes s i p (i + length sy, add_part v p)" if "symbol_at rest = Some (sy, v)" for sy v
  proof -
    have "(sy, v) \<in> set SYMBOLS" and pre: "prefix sy (drop i s)"
      using that by (auto simp: symbol_at_def find_Some_iff in_set_conv_nth rest_def)
    moreover have "list_all (\<lambda>(sy, w). list_all (\<lambda>c. c < 48 \<or> 57 < c \<and> c < 65 \<or> 90 < c \<and> c < 97 \<or> 122 < c \<and> c < 128) sy) SYMBOLS"
      by (simp add: SYMBOLS_def)
    ultimately have "\<forall>c \<in> set sy. \<not> alphanumeric U c" by (fastforce simp: list_all_iff intro!: no_alphanumeric)
    then show ?thesis using lets_prefix [OF pre] by (intro passes_silent) (simp_all add: letters_of_none)
  qed
  have acc: "passes s i p (i + 1, p\<lparr>p_words := p_words p @ [s ! i]\<rparr>)"
    using assms by (auto intro!: says_add [of _ _ "lets [s ! i]"] simp: uttered_def passes_def between_one)
  have other: "passes s i p (i + 1, add_word [s ! i] p)"
    using add_word_says [of "[s ! i]" p] assms by (simp add: passes_def between_one)
  show ?thesis
    using w ident dot sym acc other r by (auto simp: plain_token_def Let_def rest_def [symmetric] split: option.split)
qed

lemma says_more: "says w p q \<Longrightarrow> subseq (lets v) (lets w) \<Longrightarrow> says v p q"
  by (auto simp: says_def intro: subseq_order.trans)

lemma between_head: "i < length s \<Longrightarrow> i < n \<Longrightarrow> between i n s = s ! i # between (Suc i) n s"
  using between_split [of i "Suc i" n s] by (simp add: between_one)

lemma quote_end_char: "quote_end q esc s = Some e \<Longrightarrow> e < length s \<and> s ! e = q"
  by (induction q esc s arbitrary: e rule: quote_end.induct) (auto split: if_splits)

lemma quoted_token_passes:
  assumes "i < length s" "rec_ok (length s) rec" "tidy U s"
  shows "passes s i p (quoted_token rec U m s i was_word p)"
proof -
  define rest where "rest = drop i s"
  have hd: "hd rest = s ! i" using assms by (simp add: rest_def hd_drop_conv_nth)
  have life: "passes s i p (i + 1 + e, add_part (lit ''lifetime '' @ take e (drop 1 rest)) p)"
    if "lifetime_at U rest = Some e" for e
  proof -
    have "s ! i = 39" using that hd by (auto simp: lifetime_at_def Let_def split: if_splits)
    then have "lets (between i (i + 1 + e) s) = lets (take e (drop 1 rest))"
      using assms by (simp add: between_head no_alphanumeric) (simp add: between_def rest_def)
    then show ?thesis using says_more [OF add_part_says [of "lit ''lifetime '' @ take e (drop 1 rest)" p]]
      by (simp add: passes_def list_emb_append2 del: lit_Cons)
  qed
  have str: "passes s i p (e + 1, add_part (words_of (spoken_string rec U (s ! i) (take (e - (i + 1)) (drop (i + 1) s)))) p)"
    if "opens_string U s i" "string_end s i (s ! i) = Some e" for e
  proof -
    let ?content = "between (i + 1) e s"
    have e: "i + 1 \<le> e" "e < length s" "s ! e = s ! i"
      using that(2) quote_end_char [of "s ! i" False "drop (i + 1) s"] by (auto simp: string_end_def)
    have q: "s ! i \<in> {34, 39, 96}" using that(1) by (simp add: opens_string_def)
    have "between i (e + 1) s = s ! i # ?content @ [s ! e]"
      using e between_split [of "i + 1" e "e + 1" s] by (simp add: between_head between_one)
    then have l: "lets (between i (e + 1) s) = lets ?content" using q e(3) by (auto simp: no_alphanumeric)
    have "length ?content < length s" using assms(1) by (simp add: between_def)
    then have "subseq (lets ?content) (lets (template_with rec U ?content))"
      using template_says [OF assms(2)] tidy_take [OF tidy_drop [OF assms(3)]] by (simp add: template_with_def words between_def)
    then have "subseq (lets ?content) (lets (words_of (spoken_string rec U (s ! i) ?content)))"
      by (auto simp: words spoken_string_def list_emb_append2 list_emb_prefix simp del: lit_Cons)
    then show ?thesis using says_more [OF add_part_says] l e(1)
      by (simp add: passes_def between_def [of "i + 1"] between_def [of "Suc i"])
  qed
  have flag: "passes s i p (i + e, add_part (spoken_flag U d (take (e - d) (drop d rest))) p)"
    if "flag_at U rest = Some (d, e)" for d e
  proof -
    let ?name = "take (e - d) (drop d rest)"
    have d: "d = run_of (\<lambda>c. c = 45) rest" "d \<le> e" using that by (auto simp: flag_at_def Let_def split: if_splits)
    have "take e rest = take d rest @ ?name" using d(2) by (metis take_add le_add_diff_inverse)
    moreover have "lets (take d rest) = []" unfolding d run_of_take
      by (rule letters_of_none) (auto simp: no_alphanumeric dest: set_takeWhileD)
    ultimately have "lets (between i (i + e) s) = lets ?name" by (simp add: between_take rest_def)
    moreover have "lets (map (\<lambda>c. if c = 45 \<or> c = 95 then 32 else c) x) = lets x" for x
      by (induction x) (auto simp: no_alphanumeric)
    ultimately show ?thesis using says_more [OF add_part_says [of "spoken_flag U d ?name" p]]
      by (simp add: passes_def spoken_flag_def lower list_emb_append2 del: lit_Cons)
  qed
  show ?thesis
    using life str flag plain_token_passes [OF assms(1)] hd
    by (auto simp: quoted_token_def Let_def rest_def [symmetric] split: option.split if_splits)
qed

section \<open>Markup\<close>

lemma content_from:
  assumes "passes s i p (n, q)" "n \<le> length s"
  shows "passes s i p (content_of U s n q)"
  by (rule passes_trans [OF assms(1) content_of_passes [OF assms(2)]])

lemma fragment_passes:
  assumes "prefix w (drop i s)" "\<forall>c \<in> set w. \<not> alphanumeric U c" "i < length s" "k = i + length w"
  shows "passes s i p (content_of U s k (add_part v p))"
  unfolding assms(4)
proof (rule content_from [OF passes_silent])
  show "i + length w \<le> length s" using prefix_length_le [OF assms(1)] assms(3) by simp
  show "lets (between i (i + length w) s) = []" by (rule lets_prefix [OF assms(1) letters_of_none [OF assms(2)]])
qed simp

lemma markup_tag_passes:
  assumes "i < length s" "s ! i = 60" "rec_ok (length s) rec" "tidy U s"
  shows "passes s i p (markup_tag rec U s i p)"
proof -
  define e where "e = name_end U s (i + 1)"
  define name where "name = take (e - (i + 1)) (drop (i + 1) s)"
  have e: "i + 1 \<le> e" unfolding e_def by (rule name_end_from)
  have l: "lets (between i e s) = lets name"
    using e assms(1,2) by (simp add: between_head no_alphanumeric) (simp add: name_def between_def)
  have part: "passes s i p (e, add_part (v @ name) p)" for v
    using says_more [OF add_part_says [of "v @ name" p]] l e by (simp add: passes_def list_emb_append2)
  show ?thesis
  proof (cases "tag_end s e")
    case None
    have "markup_tag rec U s i p = (e, add_part (lit ''open tag '' @ name) p)"
      unfolding markup_tag_def Let_def e_def [symmetric] name_def [symmetric] None option.case ..
    then show ?thesis using part by (simp only:)
  next
    case (Some close)
    define inner where "inner = trim_end (take (close - e) (drop e s))"
    define attrs where "attrs = trim_end_of (\<lambda>c. c = 47) inner"
    define p1 where "p1 = add_part ((if inner \<noteq> [] \<and> last inner = 47 then lit ''tag '' else lit ''open tag '') @ name) p"
    define p2 where "p2 = rec attrs attrs_mode p1"
    define p3 where "p3 = (if inner \<noteq> [] \<and> last inner = 47 then add_part (lit ''self-closing'') p2 else p2)"
    have ce: "e \<le> close" "close < length s" "s ! close = 62"
    proof -
      have "k < length x \<and> x ! k = 62" if "tag_end_from d q x = Some k" for d q x k
        using that by (induction d q x arbitrary: k rule: tag_end_from.induct) (auto split: option.splits if_splits)
      then show "e \<le> close" "close < length s" "s ! close = 62"
        using Some tag_end_from_start [OF Some] by (fastforce simp: tag_end_def)+
    qed
    have "lets attrs = lets (between e close s)"
      unfolding attrs_def inner_def between_def trims(2) [of "take (close - e) (drop e s)", symmetric]
      by (rule letters_trim_end_of) (auto simp: no_alphanumeric)
    moreover have "length attrs < length s"
      using trim_end_of_length [of "\<lambda>c. c = 47" inner] trim_end_length [of "take (close - e) (drop e s)"] ce e
      by (simp add: attrs_def inner_def)
    moreover have "tidy U attrs"
      unfolding attrs_def inner_def by (intro tidy_trim_end_of tidy_trim_end tidy_take tidy_drop assms(4))
    ultimately have "says (between e close s) p1 p2" 
      using says_cong [of attrs p1 p2 "between e close s"] assms(3) by (simp add: p2_def rec_ok_def)
    then have "passes s e p1 (close, p2)" using ce by (simp add: passes_def)
    moreover have "passes s i p (e, p1)" unfolding p1_def by (rule part)
    ultimately have 1: "passes s i p (close, p2)" by (blast intro: passes_trans)
    have "passes s close p2 (close + 1, p3)"
      using ce by (simp add: p3_def passes_silent between_one no_alphanumeric) (simp add: passes_def between_one no_alphanumeric says_refl)
    then have "passes s i p (close + 1, p3)" using 1 by (blast intro: passes_trans)
    then have "passes s i p (content_of U s (close + 1) p3)" by (rule content_from) (use ce in simp)
    moreover have "markup_tag rec U s i p = content_of U s (close + 1) p3"
      unfolding markup_tag_def Let_def e_def [symmetric] name_def [symmetric] Some option.case
        inner_def [symmetric] attrs_def [symmetric] p1_def [symmetric] p2_def [symmetric] p3_def [symmetric] ..
    ultimately show ?thesis by simp
  qed
qed

lemma html_comment_passes:
  assumes "prefix [60, 33, 45, 45] (drop i s)" "find_str [45, 45, 62] (drop 4 (drop i s)) = x"
  shows "passes s i p (i + (case x of Some e \<Rightarrow> min (e + 7) (length (drop i s)) | None \<Rightarrow> length (drop i s)),
    add_part (words_of (case x of Some e \<Rightarrow> take e (drop 4 (drop i s)) | None \<Rightarrow> drop 4 (drop i s))) (add_part v p))"
proof -
  define after where "after = drop 4 (drop i s)"
  have d: "drop i s = [60, 33, 45, 45] @ after" using assms(1) unfolding after_def by (auto simp only: prefix_def) simp
  have start: "passes s i p (i, add_part v p)" by (simp add: passes_silent)
  have l: "lets (between i (i + k) s) = lets (take (k - 4) after)" for k
  proof -
    have "lets (take k [60, 33, 45, 45]) = []"
      by (rule letters_of_none) (auto dest!: in_set_takeD simp: no_alphanumeric)
    moreover have "length [60, 33, 45, 45 :: nat] = 4" by simp
    ultimately show ?thesis unfolding between_take d take_append letters_of_simps(2) by (simp only: append_Nil)
  qed
  show ?thesis
  proof (cases x)
    case None
    have "lets (between i (i + length (drop i s)) s) = lets after" unfolding l by (simp add: d del: length_drop)
    then have "passes s i (add_part v p) (i + length (drop i s), add_part (words_of after) (add_part v p))"
      by (intro passes_part) (simp_all add: words)
    then show ?thesis using None passes_trans [OF start] by (simp add: after_def del: length_drop)
  next
    case (Some e)
    have e: "e + 3 \<le> length after" "take 3 (drop e after) = [45, 45, 62]"
      using find_str_Some [of "[45, 45, 62]" after e] assms(2) Some by (simp_all add: after_def numeral_3_eq_3)
    have "take (e + 3) after = take e after @ [45, 45, 62]" using e by (simp add: take_add)
    then have "lets (between i (i + (e + 7)) s) = lets (take e after)"
      using l [of "e + 7"] by (simp add: no_alphanumeric add.commute)
    moreover have "min (e + 7) (length (drop i s)) = e + 7" using e unfolding d by simp
    ultimately have "passes s i (add_part v p) (i + min (e + 7) (length (drop i s)), add_part (words_of (take e after)) (add_part v p))"
      by (intro passes_part) (simp_all add: words)
    then show ?thesis using Some passes_trans [OF start] by (simp add: after_def del: length_drop)
  qed
qed

lemma markup_passes:
  assumes "i < length s" "rec_ok (length s) rec" "tidy U s" "markup rec U s i p = Some nq"
  shows "passes s i p nq"
proof -
  let ?rest = "drop i s"
  have frag: "passes s i p (content_of U s k (add_part v p))" if "prefix w ?rest" "\<forall>c \<in> set w. \<not> alphanumeric U c" "k = i + length w" for w k v
    by (rule fragment_passes [OF that(1,2) assms(1) that(3)])
  consider (comment) "prefix (lit ''<!--'') ?rest" | (close_fragment) "prefix (lit ''</>'') ?rest" "nq = content_of U s (i + 3) (add_part (lit ''close fragment'') p)"
    | (open_fragment) "prefix (lit ''<>'') ?rest" "nq = content_of U s (i + 2) (add_part (lit ''open fragment'') p)"
    | (self) "prefix (lit ''/>'') ?rest" "nq = content_of U s (i + 2) (add_part (lit ''self-closing'') p)"
    | (close) "prefix (lit ''</'') ?rest" "2 < length ?rest \<and> alphabetic U (?rest ! 2)" "\<not> prefix (lit ''<!--'') ?rest"
        "\<not> prefix (lit ''</>'') ?rest" "\<not> prefix (lit ''<>'') ?rest" "\<not> prefix (lit ''/>'') ?rest" "tag_can_start U s i"
    | (tag) "prefix (lit ''<'') ?rest" "nq = markup_tag rec U s i p"
    using assms(4) unfolding markup_def Let_def by (simp only: split: if_splits) blast+
  then show ?thesis
  proof cases
    case comment
    have "nq = (i + (case find_str (lit ''-->'') (drop 4 ?rest) of Some e \<Rightarrow> min (e + 7) (length ?rest) | None \<Rightarrow> length ?rest),
        add_part (words_of (case find_str (lit ''-->'') (drop 4 ?rest) of Some e \<Rightarrow> take e (drop 4 ?rest) | None \<Rightarrow> drop 4 ?rest))
          (add_part (lit ''comment'') p))"
      using assms(4) comment unfolding markup_def Let_def by (simp only: if_True option.inject)
    then show ?thesis using html_comment_passes [of i s _ p "lit ''comment''"] comment by simp
  next
    case close_fragment
    then show ?thesis using frag [of "lit ''</>''" "i + 3"] by (simp add: no_alphanumeric)
  next
    case open_fragment
    then show ?thesis using frag [of "lit ''<>''" "i + 2"] by (simp add: no_alphanumeric)
  next
    case self
    then show ?thesis using frag [of "lit ''/>''" "i + 2"] by (simp add: no_alphanumeric)
  next
    case close
    define e where "e = name_end U s (i + 2)"
    define name where "name = take (e - (i + 2)) (drop (i + 2) s)"
    define k where "k = (if 62 \<in> set (drop e s) then e + run_of (\<lambda>c. c \<noteq> 62) (drop e s) + 1 else length s)"
    have nq: "nq = content_of U s k (add_part (lit ''close tag '' @ name) p)"
      using assms(4) close unfolding markup_def Let_def e_def name_def k_def by (simp only: if_False if_True simp_thms option.inject)
    have e: "i + 2 \<le> e" unfolding e_def by (rule name_end_from)
    have pre: "prefix [60, 47] ?rest" "i + 2 < length s" "alphabetic U (s ! (i + 2))"
      using close(1,2) assms(1) by (auto simp: less_diff_conv)
    have r: "drop e s = [] \<or> hd (drop e s) = 62" unfolding e_def by (rule tidy_at [OF assms(3) pre])
    have "between i (i + 2) s = [60, 47]"
      unfolding between_take using pre(1) by (auto simp: prefix_def numeral_2_eq_2)
    then have "between i e s = [60, 47] @ between (i + 2) e s" using between_split [of i "i + 2" e s] e by simp
    then have l: "lets (between i e s) = lets name" by (simp add: no_alphanumeric name_def between_def)
    have "passes s i p (e, add_part (lit ''close tag '' @ name) p)"
      using says_more [OF add_part_says [of "lit ''close tag '' @ name" p]] l e by (simp add: passes_def list_emb_append2 del: lit_Cons)
    moreover have "passes s e q (k, q) \<and> k \<le> length s" for q
    proof (cases "drop e s = []")
      case True
      have "e \<le> length s"
        using length_takeWhile_le [of "\<lambda>c. alphanumeric U c \<or> c \<in> {46, 58, 45, 95}" "drop (i + 2) s"] pre(2)
        unfolding e_def name_end_def run_of_def by simp
      then show ?thesis using True by (simp add: k_def passes_def says_refl between_def)
    next
      case False
      then have h: "s ! e = 62" "e < length s" using r by (simp_all add: hd_drop_conv_nth)
      then have "drop e s = 62 # drop (Suc e) s" by (metis Cons_nth_drop_Suc)
      then have "k = Suc e" by (simp add: k_def run_of_def)
      then show ?thesis using h by (simp add: passes_def says_refl between_one no_alphanumeric)
    qed
    ultimately show ?thesis unfolding nq by (intro content_from) (blast intro: passes_trans)+
  next
    case tag
    have "s ! i = 60" using tag(1) assms(1) by (simp add: Cons_nth_drop_Suc [symmetric])
    then show ?thesis unfolding tag(2) by (rule markup_tag_passes [OF assms(1) _ assms(2,3)])
  qed
qed

section \<open>The loop\<close>

lemma jsx_token_passes:
  assumes "i < length s" "rec_ok (length s) rec" "tidy U s" "jsx_token rec U m s i w jsx p = Goes n v j q"
  shows "passes s i p (n, q)"
proof -
  have brace: "passes s i p (content_of U s (i + 1) (add_part v p))" if "s ! i = 125" for v
    using assms(1) that by (intro content_from passes_silent) (simp_all add: between_one no_alphanumeric)
  show ?thesis
    using assms(4) quoted_token_passes [OF assms(1-3), of p m w] brace [of "lit ''close brace''"]
    by (auto simp: jsx_token_def Let_def case_prod_beta split: if_splits option.splits)
qed

lemma step_passes:
  assumes "i < length s" "rec_ok (length s) rec" "tidy U s" "token_step rec U m s i w jsx p = Goes n v j q"
  shows "passes s i p (n, q)"
proof -
  have white: "passes s i p (i + 1, p)" if "is_whitespace (s ! i)"
    using assms(1) that by (simp add: passes_def between_one says_refl space)
  have block: "passes s i p (i + len, add_part (words_of (trim_end_of (\<lambda>c. c = 42) (dropWhile (\<lambda>c. c = 42) inner)))
      (add_part (lit ''comment'') p))" if b: "block_comment_at (drop i s) = Some (inner, len)" for inner len
  proof -
    let ?body = "drop 2 (drop i s)"
    have d: "drop i s = [47, 42] @ ?body"
      using b prefix_drop [of "[47, 42]" "drop i s"] by (simp add: block_comment_at_def numeral_2_eq_2 split: if_splits)
    have "lets (take len (drop i s)) = lets inner"
    proof (cases "find_str [42, 47] ?body")
      case None
      then have "len = length (drop i s)" "inner = ?body" using b by (auto simp: block_comment_at_def Let_def split: if_splits)
      then have "take len (drop i s) = drop i s" by simp
      also have "\<dots> = [47, 42] @ inner" using d \<open>inner = ?body\<close> by (simp only:)
      finally have "take len (drop i s) = [47, 42] @ inner" .
      then show ?thesis by (simp add: no_alphanumeric)
    next
      case (Some e)
      then have e: "len = e + 4" "inner = take e ?body" using b by (auto simp: block_comment_at_def Let_def split: if_splits)
      have "take 2 (drop e ?body) = [42, 47]" using find_str_Some [OF Some] by (simp add: numeral_2_eq_2)
      then have t: "take (e + 2) ?body = inner @ [42, 47]" unfolding take_add e by (simp only:)
      have "take len (drop i s) = take len ([47, 42] @ ?body)" using d by (simp only:)
      also have "\<dots> = [47, 42] @ take (e + 2) ?body" unfolding take_append e(1) by simp
      finally show ?thesis unfolding t by (simp add: no_alphanumeric)
    qed
    moreover have "lets (trim_end_of (\<lambda>c. c = 42) (dropWhile (\<lambda>c. c = 42) inner)) = lets inner"
      by (subst letters_trim_end_of, simp_all add: no_alphanumeric) (rule letters_dropWhile, simp add: no_alphanumeric)
    ultimately have "passes s i q (i + len, add_part (words_of (trim_end_of (\<lambda>c. c = 42) (dropWhile (\<lambda>c. c = 42) inner))) q)" for q
      by (intro passes_part) (simp_all add: between_take words)
    moreover have "passes s i p (i, add_part (lit ''comment'') p)" by (simp add: passes_silent)
    ultimately show ?thesis by (blast intro: passes_trans)
  qed
  show ?thesis
    using assms(4) white block markup_passes [OF assms(1-3), of p] jsx_token_passes [OF assms(1-3), of m w jsx p]
    unfolding token_step_def Let_def by (auto simp del: lit_Cons split: if_splits option.splits)
qed

lemma comment_says:
  assumes "token_step rec U m s i w jsx p = Ends q"
  shows "says (drop i s) p q"
proof -
  have "says (words_of (dropWhile (\<lambda>c. c \<in> {47, 35, 45}) (drop i s))) (add_part v p)
      (add_part (words_of (dropWhile (\<lambda>c. c \<in> {47, 35, 45}) (drop i s))) (add_part v p))" for v by (rule add_part_says)
  moreover have "lets (words_of (dropWhile (\<lambda>c. c \<in> {47, 35, 45}) (drop i s))) = lets (drop i s)"
    unfolding words by (rule letters_dropWhile) (auto simp: no_alphanumeric)
  moreover have "says [] p (add_part v p)" for v by (simp add: add_part_silent)
  moreover have "q = add_part (words_of (dropWhile (\<lambda>c. c \<in> {47, 35, 45}) (drop i s))) (add_part (lit ''comment'') p)"
    using assms unfolding token_step_def jsx_token_def Let_def
    by (auto simp: case_prod_beta simp del: lit_Cons split: if_splits option.splits)
  ultimately show ?thesis using says_trans [of "[]" p] by (metis append_Nil says_cong)
qed

lemma loop_says: "rec_ok (length s) rec \<Longrightarrow> tidy U s \<Longrightarrow> says (drop i s) p (token_loop rec U m s i w jsx p)"
proof (induction "length s - i" arbitrary: i w jsx p rule: less_induct)
  case less
  show ?case
  proof (cases "i < length s")
    case False
    then show ?thesis by (simp add: token_loop.simps says_refl)
  next
    case True
    show ?thesis
    proof (cases "token_step rec U m s i w jsx p")
      case (Ends q)
      then show ?thesis using True comment_says [OF Ends] by (simp add: token_loop.simps [of rec])
    next
      case (Goes n v j q)
      have n: "i < n" by (rule token_step_moves [OF Goes True])
      have "says (between i n s) p q" using step_passes [OF True less(2,3) Goes] by (simp add: passes_def)
      moreover have "says (drop n s) q (token_loop rec U m s n v j q)" using less(1) [of n] less(2,3) n True by simp
      ultimately have "says (drop i s) p (token_loop rec U m s n v j q)"
        using between_rest [of i n s] n by (metis less_imp_le says_trans)
      then show ?thesis using Goes True by (simp add: token_loop.simps [of rec U m s i])
    qed
  qed
qed

lemma tokens_in_says: "length s < d \<Longrightarrow> tidy U s \<Longrightarrow> says s p (tokens_in d U s m p)"
proof (induction d arbitrary: s m p)
  case (Suc d)
  have "rec_ok (length s) (tokens_in d U)" using Suc by (simp add: rec_ok_def)
  then show ?case using loop_says [of s "tokens_in d U" 0] Suc.prems(2) by simp
qed simp

lemma tokens_says: "rec_ok n (tokens U)"
  unfolding rec_ok_def tokens_def by (intro allI impI tokens_in_says) simp_all

lemma render_says: "tidy U code \<Longrightarrow> subseq (lets code) (lets (render U code m))"
  unfolding render_def render_with_def
  by (rule finish_says) (use tokens_says [of "length code + 1"] in \<open>simp add: rec_ok_def\<close>)

lemma line_says:
  assumes "tidy U raw" "spoken_line U raw info n = Some out"
  shows "subseq (lets raw) (lets out)"
proof -
  define code where "code = code_of_line raw"
  have "lets code = lets raw \<and> tidy U code"
  proof (cases "trim raw \<noteq> [] \<and> last (trim raw) = 59")
    case True
    then have t: "trim raw = butlast (trim raw) @ [59]" by (metis append_butlast_last_id)
    then have "lets (butlast (trim raw)) = lets (trim raw)"
      using letters_of_simps(2) [of U F "butlast (trim raw)" "[59]"] by (simp add: no_alphanumeric)
    moreover have "tidy U (butlast (trim raw))" using tidy_trim [OF assms(1)] t tidy_left by metis
    ultimately show ?thesis using True by (simp add: code_def code_of_line_def Let_def trims tidy_trim_end)
  next
    case False
    then show ?thesis using assms(1) by (auto simp: code_def code_of_line_def Let_def trims tidy_trim)
  qed
  moreover have "subseq (lets code) (lets (spoken_code U code lang))" if "tidy U code" for lang
    using that render_says by (simp add: spoken_code_def Let_def words)
  moreover have "\<exists>a b. out = a @ spoken_code U code (info_word info) @ b"
  proof -
    have "out = (lit ''Line '' @ cardinal n @ lit '': '') @ spoken_code U code (info_word info) @ [] \<or>
        out = (lit ''Line '' @ cardinal n @ lit '': '') @ spoken_code U code (info_word info) @ [46]"
      using assms(2) unfolding spoken_line_def code_def Let_def by (auto simp del: lit_Cons split: if_splits)
    then show ?thesis by blast
  qed
  ultimately obtain a b where "out = a @ spoken_code U code (info_word info) @ b"
    "subseq (lets raw) (lets (spoken_code U code (info_word info)))" by auto
  then show ?thesis using list_emb_append2 [OF list_emb_prefix] by (metis letters_of_simps(2))
qed

end

section \<open>ASCII text\<close>

text \<open>What the properties assume of the tables holds on ASCII text, with lower case as the folding.\<close>

lemma ascii_unicode_ok: "unicode_ok ascii (\<lambda>c. [ascii_lower c])"
proof -
  have "letters_of ascii (\<lambda>c. [ascii_lower c]) (map ascii_lower w) = letters_of ascii (\<lambda>c. [ascii_lower c]) w" for w
    by (induction w) (auto simp: ascii_lower_def alphanumeric_def alphabetic_def numeric_def is_ascii_alphabetic_def
        is_ascii_upper_def is_ascii_lower_def is_ascii_digit_def ascii_def)
  then show ?thesis
    by (auto simp: unicode_ok_def ascii_def is_whitespace_def alphanumeric_def alphabetic_def numeric_def
        is_ascii_alphabetic_def is_ascii_upper_def is_ascii_lower_def is_ascii_digit_def)
qed

interpretation ascii_letters: letters ascii "\<lambda>c. [ascii_lower c]"
  by unfold_locales (rule ascii_unicode_ok)

section \<open>Properties\<close>

text \<open>C27: A code line read aloud loses nothing that was written: its letters and digits are spoken, in order, whatever the
  language, up to the case of names that are split into words (in a line whose closing tags hold nothing
  but their name, which is all the reader says of them).\<close>

theorem code_line_keeps_letters:
  assumes "unicode_ok U F" "tidy U raw" "spoken_line U raw info n = Some out"
  shows "subseq (letters_of U F raw) (letters_of U F out)"
  using letters.line_says [OF letters.intro [OF assms(1)] assms(2,3)] .

text \<open>The name \<open>getId\<close> in a fence without a language.\<close>

lemma sample_run:
  "word_run ascii True None [103, 101, 116, 73, 100] = 5"
  "identifier_words ascii [103, 101, 116, 73, 100] = [103, 101, 116, 32, 105, 100]"
  by code_simp+

lemma sample_token:
  assumes "\<not> m_rust m" "m_kebab m" "\<not> m_hash_comment m" "\<not> m_block_comment m" "\<not> m_markup m"
  shows "token_step rec ascii m [103, 101, 116, 73, 100] 0 True None no_parts =
    Goes 5 False None (no_parts\<lparr>p_words := [103, 101, 116, 32, 105, 100]\<rparr>)"
  using assms
  by (simp add: token_step_def is_whitespace_def comment_at_def jsx_token_def quoted_token_def opens_string_def
      plain_token_def Let_def is_ascii_digit_def is_word_start_def alphabetic_def is_ascii_alphabetic_def
      is_ascii_lower_def sample_run add_word_def no_parts_def del: word_run.simps)

lemma lit_empty: "[] = lit s \<longleftrightarrow> s = []"
  by (cases s) simp_all

lemma sample_mode:
  "mode_of ascii [] [103, 101, 116, 73, 100] False =
     \<lparr>m_markup = False, m_flags = True, m_hash_comment = False, m_dash_comment = False, m_slash_comment = True,
      m_block_comment = False, m_prose = False, m_kebab = True, m_rust = False, m_inline = False\<rparr>"
  by (simp add: mode_of_def Let_def SHELL_def MARKUP_def HASH_COMMENT_def DASH_COMMENT_def PROSE_def KEBAB_def
      looks_like_markup_def lit_empty del: lit_Cons)

lemma sample_code: "spoken_code ascii [103, 101, 116, 73, 100] [] = [103, 101, 116, 32, 105, 100]"
  unfolding spoken_code_def sample_mode
  by (simp add: Let_def render_def render_with_def tokens_rec token_loop.simps [of _ _ _ _ 0]
      token_loop.simps [of _ _ _ _ 5] sample_token finish_parts_def flush_parts_def no_parts_def [symmetric])
     (simp add: no_parts_def)

lemma sample_line: "spoken_line ascii [103, 101, 116, 73, 100] [] 1 =
    Some (lit ''Line '' @ cardinal 1 @ lit '': '' @ [103, 101, 116, 32, 105, 100] @ [46])"
proof -
  have "info_word [] = []"
    by (simp add: info_word_def split_whitespace_def trim_end_of_def to_ascii_lowercase_def)
  moreover have "code_of_line [103, 101, 116, 73, 100] = [103, 101, 116, 73, 100]"
    by (simp add: code_of_line_def trim_def trim_start_def trim_end_def is_whitespace_def)
  ultimately show ?thesis unfolding spoken_line_def by (simp add: sample_code Let_def del: lit_Cons)
qed

theorem code_line_keeps_letters_witness:
  "subseq (letters_of ascii (\<lambda>c. [ascii_lower c]) [103, 101, 116, 73, 100])
     (letters_of ascii (\<lambda>c. [ascii_lower c]) (lit ''Line '' @ cardinal 1 @ lit '': '' @ [103, 101, 116, 32, 105, 100] @ [46]))"
proof -
  have "tidy ascii [103, 101, 116, 73, 100]" by code_simp
  then show ?thesis using code_line_keeps_letters [OF ascii_unicode_ok _ sample_line] by blast
qed

text \<open>A closing tag right after a word, as in \<open><p>Hi</p>\<close>, is not taken as one: it is read as symbols.\<close>

lemma close_tag_after_a_word:
  assumes "0 < i" "alphanumeric U (s ! (i - 1))" "prefix [60, 47, c] (drop i s)" "alphabetic U c"
  shows "markup rec U s i p = None"
proof -
  have "\<not> tag_can_start U s i" using assms by (simp add: tag_can_start_def char_before_def)
  moreover have "c \<noteq> 62" using assms(4) by (auto simp: alphabetic_def is_ascii_alphabetic_def is_ascii_upper_def is_ascii_lower_def)
  ultimately show ?thesis using assms(3) by (auto simp: markup_def Let_def prefix_def)
qed

end
