(* ===== verification/Patterns.thy ===== *)
theory Patterns imports Prelude "HOL-Library.Sublist" begin

text \<open>
  Regular expressions as the runtime uses them: the documented leftmost-first meaning of the crate \<open>regex\<close> and of
  Python's \<open>re\<close>, whose patterns some scanners replace. \<open>paths\<close> lists the ways a pattern matches at a place in the
  order a backtracking search tries them; the match is the first one.
\<close>

section \<open>Patterns and their matches\<close>

datatype pattern =
    Cls "nat \<Rightarrow> bool"
  | Empty
  | Seq pattern pattern
  | Alt pattern pattern
  | Many pattern
  | Few pattern
  | Grp nat pattern
  | Ref nat
  | Line_Start
  | Line_End
  | Text_End
  | Ahead pattern
  | Not_Ahead "nat \<Rightarrow> bool"
  | Not_Behind "nat \<Rightarrow> bool"

text \<open>A place in a text: what is before it, backwards, what is after it, and the groups matched so far.\<close>

type_synonym place = "str \<times> str \<times> (nat \<times> str) list"

text \<open>The repetitions of \<open>f\<close>, each of at least one character: the longest first, or the shortest.\<close>

fun greedy :: "(place \<Rightarrow> place list) \<Rightarrow> nat \<Rightarrow> place \<Rightarrow> place list" where
  "greedy f 0 p = [p]"
| "greedy f (Suc n) p =
     concat (map (greedy f n) (filter (\<lambda>q. length (fst (snd q)) < length (fst (snd p))) (f p))) @ [p]"

fun lazy :: "(place \<Rightarrow> place list) \<Rightarrow> nat \<Rightarrow> place \<Rightarrow> place list" where
  "lazy f 0 p = [p]"
| "lazy f (Suc n) p =
     p # concat (map (lazy f n) (filter (\<lambda>q. length (fst (snd q)) < length (fst (snd p))) (f p)))"

primrec paths :: "pattern \<Rightarrow> place \<Rightarrow> place list" where
  "paths (Cls P) = (\<lambda>(b, s, g). case s of c # s \<Rightarrow> if P c then [(c # b, s, g)] else [] | [] \<Rightarrow> [])"
| "paths Empty = (\<lambda>p. [p])"
| "paths (Seq r q) = (\<lambda>p. concat (map (paths q) (paths r p)))"
| "paths (Alt r q) = (\<lambda>p. paths r p @ paths q p)"
| "paths (Many r) = (\<lambda>p. greedy (paths r) (length (fst (snd p))) p)"
| "paths (Few r) = (\<lambda>p. lazy (paths r) (length (fst (snd p))) p)"
| "paths (Grp n r) =
     (\<lambda>(b, s, g). map (\<lambda>(b2, s2, g2). (b2, s2, (n, take (length s - length s2) s) # g2)) (paths r (b, s, g)))"
| "paths (Ref n) =
     (\<lambda>(b, s, g). case map_of g n of
        Some w \<Rightarrow> if prefix w s then [(rev w @ b, drop (length w) s, g)] else []
      | None \<Rightarrow> [])"
| "paths Line_Start = (\<lambda>(b, s, g). if b = [] \<or> hd b = 10 then [(b, s, g)] else [])"
| "paths Line_End = (\<lambda>(b, s, g). if s = [] \<or> hd s = 10 then [(b, s, g)] else [])"
| "paths Text_End = (\<lambda>(b, s, g). if s = [] then [(b, s, g)] else [])"
| "paths (Ahead r) = (\<lambda>p. if paths r p \<noteq> [] then [p] else [])"
| "paths (Not_Ahead P) = (\<lambda>(b, s, g). if s \<noteq> [] \<and> P (hd s) then [] else [(b, s, g)])"
| "paths (Not_Behind P) = (\<lambda>(b, s, g). if b \<noteq> [] \<and> P (hd b) then [] else [(b, s, g)])"

definition found :: "pattern \<Rightarrow> str \<Rightarrow> str \<Rightarrow> place option" where
  "found r b s = (case paths r (b, s, []) of [] \<Rightarrow> None | p # _ \<Rightarrow> Some p)"

text \<open>The text of a group, the whole match being group 0.\<close>

definition group :: "str \<Rightarrow> place \<Rightarrow> nat \<Rightarrow> str" where
  "group s p n =
     (if n = 0 then take (length s - length (fst (snd p))) s
      else case map_of (snd (snd p)) n of Some w \<Rightarrow> w | None \<Rightarrow> [])"

text \<open>\<open>Regex::replace_all\<close> and \<open>re.sub\<close>, from a place on. No pattern here matches the empty text.\<close>

function replace_from :: "pattern \<Rightarrow> ((nat \<Rightarrow> str) \<Rightarrow> str) \<Rightarrow> str \<Rightarrow> str \<Rightarrow> str" where
  "replace_from r f b s =
     (case found r b s of
        Some p \<Rightarrow>
          if length (fst (snd p)) < length s then f (group s p) @ replace_from r f (fst p) (fst (snd p))
          else (case s of [] \<Rightarrow> [] | c # s \<Rightarrow> c # replace_from r f (c # b) s)
      | None \<Rightarrow> (case s of [] \<Rightarrow> [] | c # s \<Rightarrow> c # replace_from r f (c # b) s))"
  by pat_completeness auto
termination
  by (relation "measure (\<lambda>(_, _, _, s). length s)") auto

declare replace_from.simps [simp del]

definition replace_all :: "pattern \<Rightarrow> ((nat \<Rightarrow> str) \<Rightarrow> str) \<Rightarrow> str \<Rightarrow> str" where
  "replace_all r f s = replace_from r f [] s"

section \<open>Notation of patterns\<close>

definition char :: "nat \<Rightarrow> pattern" where "char c = Cls (\<lambda>d. d = c)"
definition opt :: "pattern \<Rightarrow> pattern" where "opt r = Alt r Empty"
definition rep1 :: "pattern \<Rightarrow> pattern" where "rep1 r = Seq r (Many r)"
definition rep1_lazy :: "pattern \<Rightarrow> pattern" where "rep1_lazy r = Seq r (Few r)"

fun chars :: "str \<Rightarrow> pattern" where
  "chars [] = Empty"
| "chars (c # s) = Seq (char c) (chars s)"

fun seqs :: "pattern list \<Rightarrow> pattern" where
  "seqs [] = Empty"
| "seqs [r] = r"
| "seqs (r # q # rs) = Seq r (seqs (q # rs))"

fun alts :: "pattern list \<Rightarrow> pattern" where
  "alts [] = Cls (\<lambda>c. False)"
| "alts [r] = r"
| "alts (r # q # rs) = Alt r (alts (q # rs))"

text \<open>\<open>r{lo,lo + n}\<close>.\<close>

fun rep_n :: "nat \<Rightarrow> nat \<Rightarrow> pattern \<Rightarrow> pattern" where
  "rep_n (Suc lo) n r = Seq r (rep_n lo n r)"
| "rep_n 0 0 r = Empty"
| "rep_n 0 (Suc n) r = Alt (Seq r (rep_n 0 n r)) Empty"

section \<open>Repetitions of a class\<close>

lemma paths_Cls [simp]:
  "paths (Cls P) (b, [], g) = []"
  "paths (Cls P) (b, c # s, g) = (if P c then [(c # b, s, g)] else [])"
  by simp_all

declare paths.simps(1) [simp del]

lemma paths_char [simp]:
  "paths (char c) (b, [], g) = []" "paths (char c) (b, d # s, g) = (if d = c then [(d # b, s, g)] else [])"
  by (simp_all add: char_def)

lemma paths_chars: "paths (chars w) (b, s, g) = (if prefix w s then [(rev w @ b, drop (length w) s, g)] else [])"
proof (induction w arbitrary: b s)
  case (Cons c w)
  show ?case by (cases s) (simp_all add: Cons)
qed simp

lemma paths_Many_Cls:
  "paths (Many (Cls P)) (b, [], g) = [(b, [], g)]"
  "paths (Many (Cls P)) (b, c # s, g) =
     (if P c then paths (Many (Cls P)) (c # b, s, g) @ [(b, c # s, g)] else [(b, c # s, g)])"
  by simp_all

declare paths.simps(5) [simp del] paths.simps(6) [simp del]

lemma paths_Few_Cls:
  "paths (Few (Cls P)) (b, [], g) = [(b, [], g)]"
  "paths (Few (Cls P)) (b, c # s, g) =
     (b, c # s, g) # (if P c then paths (Few (Cls P)) (c # b, s, g) else [])"
  by (simp_all add: paths.simps(6))

text \<open>When the rest of the pattern cannot start with the class, only the longest repetition counts.\<close>

lemma many_then:
  assumes "\<And>b c s. P c \<Longrightarrow> paths r (b, c # s, g) = []"
  shows "concat (map (paths r) (paths (Many (Cls P)) (b, s, g))) =
    paths r (rev (takeWhile P s) @ b, dropWhile P s, g)"
  using assms by (induction s arbitrary: b) (simp_all add: paths_Many_Cls)

lemma rev_upt_shift:
  "rev [0..<Suc (Suc n)] = map Suc (rev [0..<Suc n]) @ [0]" "rev [1..<Suc (Suc n)] = map Suc (rev [0..<Suc n])"
  by (simp_all only: upt_conv_Cons [of 0 "Suc (Suc n)"] map_Suc_upt [symmetric] rev_map [symmetric] zero_less_Suc
      rev.simps One_nat_def)

lemma paths_many:
  "paths (Many (Cls P)) (b, s, g) =
     map (\<lambda>k. (rev (take k s) @ b, drop k s, g)) (rev [0..<Suc (length (takeWhile P s))])"
proof (induction s arbitrary: b)
  case (Cons c s)
  have "rev [0..<Suc 0] = [0]" by simp
  then show ?case by (simp add: paths_Many_Cls Cons comp_def rev_upt_shift del: upt_Suc)
qed (simp add: paths_Many_Cls)

lemma paths_rep1:
  "paths (rep1 (Cls P)) (b, s, g) =
     map (\<lambda>k. (rev (take k s) @ b, drop k s, g)) (rev [1..<Suc (length (takeWhile P s))])"
proof (cases s)
  case (Cons c t)
  show ?thesis using Cons rev_upt_shift(2) by (simp add: rep1_def paths_many comp_def del: upt_Suc)
qed (simp add: rep1_def)

lemma paths_rep_upto:
  "paths (rep_n 0 n (Cls P)) (b, s, g) =
     map (\<lambda>k. (rev (take k s) @ b, drop k s, g)) (rev [0..<Suc (min n (length (takeWhile P s)))])"
proof (induction n arbitrary: b s)
  case (Suc n)
  have "rev [0..<Suc 0] = [0]" by simp
  then show ?case by (cases s) (simp_all add: Suc comp_def rev_upt_shift del: upt_Suc)
qed simp

lemma paths_rep_some:
  "paths (rep_n (Suc 0) n (Cls P)) (b, s, g) =
     map (\<lambda>k. (rev (take k s) @ b, drop k s, g)) (rev [1..<Suc (min (Suc n) (length (takeWhile P s)))])"
  using rev_upt_shift(2) by (cases s) (simp_all add: paths_rep_upto comp_def del: upt_Suc)

text \<open>A group of a class that the rest of the pattern cannot start with.\<close>

lemma group_then:
  assumes "\<And>b c s w. P c \<Longrightarrow> paths r (b, c # s, (n, w) # g) = []"
  shows "paths (Seq (Grp n (rep1 (Cls P))) r) (b, s, g) =
    (if takeWhile P s = [] then []
     else paths r (rev (takeWhile P s) @ b, dropWhile P s, (n, takeWhile P s) # g))"
proof (cases "takeWhile P s = []")
  case False
  define k where "k = length (takeWhile P s)"
  let ?at = "\<lambda>j. (rev (take j s) @ b, drop j s, (n, take j s) # g)"
  have k: "take k s = takeWhile P s" "drop k s = dropWhile P s" "k \<le> length s" "0 < k"
    using False by (simp_all add: k_def takeWhile_eq_take [symmetric] dropWhile_eq_drop [symmetric] length_takeWhile_le)
  have "paths r (?at j) = []" if "j < k" for j
  proof -
    have "P (s ! j)" using that by (metis k_def nth_mem set_takeWhileD takeWhile_nth)
    then show ?thesis using that k(3) assms by (metis Cons_nth_drop_Suc order_less_le_trans)
  qed
  then have "concat (map (\<lambda>j. paths r (?at j)) (rev [1..<k])) = []" by simp
  moreover have "rev [1..<Suc k] = k # rev [1..<k]" using k(4) by simp
  moreover have "map (\<lambda>(b2, s2, g2). (b2, s2, (n, take (length s - length s2) s) # g2)) (paths (rep1 (Cls P)) (b, s, g)) =
      map ?at (rev [1..<Suc k])"
    unfolding paths_rep1 k_def [symmetric] map_map comp_def prod.case
    by (rule map_cong) (use k(3) in \<open>simp_all del: upt_Suc\<close>)
  ultimately show ?thesis using False k by (simp add: comp_def)
qed (simp add: paths_rep1)

lemma paths_few:
  "paths (Few (Cls P)) (b, s, g) =
     map (\<lambda>k. (rev (take k s) @ b, drop k s, g)) [0..<Suc (length (takeWhile P s))]"
proof (induction s arbitrary: b)
  case (Cons c s)
  have "[0..<Suc (Suc n)] = 0 # map Suc [0..<Suc n]" for n
    by (simp only: upt_conv_Cons [of 0 "Suc (Suc n)"] map_Suc_upt zero_less_Suc)
  moreover have "[0..<Suc 0] = [0]" by simp
  ultimately show ?case by (simp add: paths_Few_Cls Cons comp_def del: upt_Suc)
qed (simp add: paths_Few_Cls)

lemma paths_rep1_lazy:
  "paths (rep1_lazy (Cls P)) (b, s, g) =
     map (\<lambda>k. (rev (take k s) @ b, drop k s, g)) [1..<Suc (length (takeWhile P s))]"
proof (cases s)
  case (Cons c t)
  have "[1..<Suc (Suc n)] = map Suc [0..<Suc n]" for n by (simp only: map_Suc_upt One_nat_def)
  then show ?thesis using Cons by (simp add: rep1_lazy_def paths_few comp_def del: upt_Suc)
qed (simp add: rep1_lazy_def)

section \<open>The words of a pattern\<close>

text \<open>A pattern without groups and conditions matches the prefixes that are words of a language.\<close>

definition spells :: "pattern \<Rightarrow> str set \<Rightarrow> bool" where
  "spells r W \<longleftrightarrow>
     (\<forall>b s g. set (paths r (b, s, g)) = (\<lambda>w. (rev w @ b, drop (length w) s, g)) ` {w \<in> W. prefix w s})"

definition concats :: "str set \<Rightarrow> str set \<Rightarrow> str set" where
  "concats V W = {v @ w |v w. v \<in> V \<and> w \<in> W}"

definition repeats :: "str set \<Rightarrow> str set" where
  "repeats W = {concat ws |ws. set ws \<subseteq> W}"

lemma spells_Cls: "spells (Cls P) {[c] |c. P c}"
  unfolding spells_def
proof (intro allI)
  fix b s g show "set (paths (Cls P) (b, s, g)) = (\<lambda>w. (rev w @ b, drop (length w) s, g)) ` {w \<in> {[c] |c. P c}. prefix w s}"
    by (cases s) (auto simp: prefix_Cons)
qed

lemma spells_Empty: "spells Empty {[]}"
  by (auto simp: spells_def)

lemma spells_Alt: "spells r V \<Longrightarrow> spells q W \<Longrightarrow> spells (Alt r q) (V \<union> W)"
  by (auto simp: spells_def)

lemma concats_places:
  "(\<Union>v \<in> {v \<in> V. prefix v s}. (\<lambda>w. (rev w @ rev v @ b, drop (length w) (drop (length v) s), g)) `
      {w \<in> W. prefix w (drop (length v) s)}) =
    (\<lambda>w. (rev w @ b, drop (length w) s, g)) ` {w \<in> concats V W. prefix w s}"
  by (fastforce simp: concats_def prefix_def add.commute image_iff)

lemma spells_Seq:
  assumes "spells r V" "spells q W"
  shows "spells (Seq r q) (concats V W)"
  using assms by (simp add: spells_def concats_places [symmetric])

lemma repeats_Nil: "[] \<in> repeats W"
  by (auto simp: repeats_def intro!: exI [of _ "[]"])

lemma repeats_step: "repeats W = insert [] (concats (W - {[]}) (repeats W))"
proof (intro equalityI subsetI)
  fix x assume "x \<in> repeats W"
  then obtain ws where ws: "x = concat ws" "set ws \<subseteq> W" by (auto simp: repeats_def)
  then show "x \<in> insert [] (concats (W - {[]}) (repeats W))"
  proof (induction ws arbitrary: x)
    case (Cons w ws)
    then show ?case by (cases "w = []") (auto simp: concats_def repeats_def)
  qed simp
next
  fix x assume "x \<in> insert [] (concats (W - {[]}) (repeats W))"
  then consider "x = []" | w ws where "x = w @ concat ws" "w \<in> W" "set ws \<subseteq> W" by (auto simp: concats_def repeats_def)
  then show "x \<in> repeats W"
  proof cases
    case 2
    then show ?thesis unfolding repeats_def by (intro CollectI exI [of _ "w # ws"]) simp
  qed (simp add: repeats_Nil)
qed

lemma spells_Many:
  assumes "spells r W"
  shows "spells (Many r) (repeats W)"
proof -
  have "set (greedy (paths r) n (b, s, g)) = (\<lambda>w. (rev w @ b, drop (length w) s, g)) ` {w \<in> repeats W. prefix w s}"
    if "length s \<le> n" for n b s g
    using that
  proof (induction n arbitrary: b s)
    case 0
    then show ?case by (auto simp: repeats_Nil)
  next
    case (Suc n)
    have step: "set (filter (\<lambda>q. length (fst (snd q)) < length s) (paths r (b, s, g))) =
        (\<lambda>w. (rev w @ b, drop (length w) s, g)) ` {w \<in> W - {[]}. prefix w s}"
    proof -
      have "length (drop (length w) s) < length s \<longleftrightarrow> w \<noteq> []" if "prefix w s" for w
        using that by (cases w) (auto simp: prefix_def)
      moreover have "set (paths r (b, s, g)) = (\<lambda>w. (rev w @ b, drop (length w) s, g)) ` {w \<in> W. prefix w s}"
        using assms by (simp add: spells_def)
      ultimately show ?thesis by (auto simp del: length_drop)
    qed
    have "set (greedy (paths r) (Suc n) (b, s, g)) = insert (b, s, g)
        (\<Union>v \<in> {w \<in> W - {[]}. prefix w s}. (\<lambda>w. (rev w @ rev v @ b, drop (length w) (drop (length v) s), g)) `
           {w \<in> repeats W. prefix w (drop (length v) s)})"
    proof -
      have "set (greedy (paths r) n (rev v @ b, drop (length v) s, g)) =
          (\<lambda>w. (rev w @ rev v @ b, drop (length w) (drop (length v) s), g)) ` {w \<in> repeats W. prefix w (drop (length v) s)}"
        if "v \<in> {w \<in> W - {[]}. prefix w s}" for v
        using that Suc.prems by (intro Suc.IH) (cases v, auto)
      then show ?thesis unfolding greedy.simps fst_conv snd_conv set_append set_concat set_map step by simp
    qed
    also have "\<dots> = (\<lambda>w. (rev w @ b, drop (length w) s, g)) ` {w \<in> insert [] (concats (W - {[]}) (repeats W)). prefix w s}"
      unfolding concats_places by auto
    finally show ?case unfolding repeats_step [symmetric] .
  qed
  then show ?thesis by (simp add: spells_def paths.simps(5))
qed

end
