(* ===== verification/Clean_Text.thy ===== *)
theory Clean_Text imports Code_Tokens Patterns begin

text \<open>
  Prose made ready to be spoken, from \<open>crates/sonara-core/src/text.rs\<close>: markdown noise stripped, symbols said. The
  patterns are those of the source; \<open>emphasis_pass\<close>, \<open>replace_bare_urls\<close> and \<open>speak_snake_case\<close> are the scanners the
  source has in the place of three patterns of its Python original.

  The pronunciation rules (\<open>pronounce\<close>) are a parameter. Text is a list of characters; the scanner of the source
  that walks over bytes only stops at ASCII characters.
\<close>

section \<open>The patterns\<close>

definition space :: pattern where "space = Cls is_py_space"
definition blanks :: pattern where "blanks = Many (Cls is_blank)"

definition LINK :: pattern where
  "LINK = seqs [char 91, Grp 1 (rep1 (Cls (\<lambda>c. c \<noteq> 93 \<and> c \<noteq> 10))), char 93, char 40,
     rep1 (Cls (\<lambda>c. c \<noteq> 41 \<and> c \<noteq> 10)), char 41]"

definition INLINE_CODE :: pattern where
  "INLINE_CODE = seqs [char 96, Grp 1 (Many (Cls (\<lambda>c. c \<noteq> 96 \<and> c \<noteq> 10))), char 96]"

definition HEADING :: pattern where
  "HEADING = seqs [Line_Start, rep_n 1 5 (char 35), rep1 space]"

definition BULLET :: pattern where
  "BULLET = seqs [Line_Start, Grp 1 (Many space), Cls (\<lambda>c. c \<in> {45, 42, 43, 0x2022}), rep1 (Cls is_blank)]"

definition TABLE_SEP :: pattern where
  "TABLE_SEP =
     (let bar = Many (Cls (\<lambda>c. is_py_space c \<or> c \<in> {58, 124, 45}))
      in seqs [Line_Start, Many space, opt (char 124), bar, rep_n 3 0 (char 45), Many (char 45), bar, opt (char 124),
               Many space, Line_End])"

definition LIST_ITEM_END :: "'a unicode_scheme \<Rightarrow> pattern" where
  "LIST_ITEM_END U =
     seqs [Line_Start,
       Grp 1 (seqs [Many space, rep_n 1 2 (Cls (digit U)), chars [58, 32], Many (Cls (\<lambda>c. c \<noteq> 10)),
         Cls (\<lambda>c. \<not> is_py_space c \<and> c \<notin> {46, 33, 63, 58, 59})]),
       blanks, char 10]"

definition WHITESPACE :: pattern where "WHITESPACE = rep1 space"

definition word_char :: "nat \<Rightarrow> bool" where
  "word_char c \<longleftrightarrow> is_word c \<or> c = 95"

definition WORD_RUN :: pattern where "WORD_RUN = rep1 (Cls word_char)"

definition ARROW :: pattern where
  "ARROW = seqs [Many space, alts [chars [45, 62], chars [61, 62], chars [45, 45, 62], char 0x2192], Many space]"

definition stray_md :: "nat \<Rightarrow> bool" where
  "stray_md c \<longleftrightarrow>
     c \<in> {42, 95, 96, 126, 35, 124, 0x2022, 0x2713, 0x2714, 0x2717, 0x2718, 0x274C, 0x2705, 0x2611, 0x23F3,
          0x231B, 0x26A0, 0xFE0F}"

definition STRAY_MD :: pattern where "STRAY_MD = rep1 (Cls stray_md)"

definition STATUS_ALONE :: pattern where
  "STATUS_ALONE =
     seqs [Grp 1 (Alt (Seq Line_Start blanks)
             (Seq (Cls (\<lambda>c. c \<in> {58, 59, 44, 46, 33, 63})) (rep1 (Cls is_blank)))),
       Grp 2 (Cls (\<lambda>c. c \<in> {0x2705, 0x2714, 0x2713, 0x2611, 0x274C, 0x2717, 0x2718, 0x23F3, 0x231B, 0x26A0})),
       opt (char 0xFE0F), blanks, Grp 3 (Alt (Cls (\<lambda>c. c \<in> {46, 44, 59, 58, 33, 63})) Line_End)]"

definition status_word :: "str \<Rightarrow> str" where
  "status_word mark =
     (if mark \<in> {[0x274C], [0x2717], [0x2718]} then lit ''no''
      else if mark \<in> {[0x23F3], [0x231B]} then lit ''pending''
      else if mark = [0x26A0] then lit ''warning''
      else lit ''done'')"

section \<open>The scanners\<close>

definition emphasis_mark :: "nat \<Rightarrow> bool" where
  "emphasis_mark c \<longleftrightarrow> c = 42 \<or> c = 95"

definition emphasis_text :: "nat \<Rightarrow> bool" where
  "emphasis_text c \<longleftrightarrow> c \<noteq> 42 \<and> c \<noteq> 95 \<and> c \<noteq> 10"

text \<open>A marker run, its text and the same run again at the head: the text and the rest.\<close>

definition emphasis_at :: "str \<Rightarrow> (str \<times> str) option" where
  "emphasis_at s =
     (if s = [] \<or> \<not> emphasis_mark (hd s) then None
      else
        (let m = hd s;
             run = run_of (\<lambda>c. c = m) (take 4 s);
             content = takeWhile emphasis_text (drop run s);
             after = dropWhile emphasis_text (drop run s)
         in if run \<le> 3 \<and> content \<noteq> [] \<and> prefix (replicate run m) after then Some (content, drop run after) else None))"

lemma emphasis_at_shorter: "emphasis_at s = Some (t, r) \<Longrightarrow> length r < length s"
proof -
  assume a: "emphasis_at s = Some (t, r)"
  define run where "run = run_of (\<lambda>c. c = hd s) (take 4 s)"
  have "s \<noteq> []" "r = drop run (dropWhile emphasis_text (drop run s))"
    using a by (auto simp: emphasis_at_def Let_def run_def split: if_splits)
  moreover have "0 < run" using \<open>s \<noteq> []\<close> by (cases s) (simp_all add: run_def run_of_def)
  ultimately show ?thesis using length_dropWhile_le [of emphasis_text "drop run s"] by (cases s) simp_all
qed

function emphasis_pass :: "str \<Rightarrow> str" where
  "emphasis_pass s =
     (case emphasis_at s of
        Some (content, rest) \<Rightarrow> content @ emphasis_pass rest
      | None \<Rightarrow> (case s of [] \<Rightarrow> [] | c # s \<Rightarrow> c # emphasis_pass s))"
  by pat_completeness auto
termination
  by (relation "measure length") (auto dest: emphasis_at_shorter)

declare emphasis_pass.simps [simp del]

definition url_end :: "nat \<Rightarrow> bool" where
  "url_end c \<longleftrightarrow> c \<in> {46, 44, 59, 58, 33, 63, 41, 93}"

text \<open>A URL at the head: what is left after it.\<close>

definition url_at :: "str \<Rightarrow> str option" where
  "url_at s =
     (let scheme = (if prefix (lit ''https://'') s then 8 else if prefix (lit ''http://'') s then 7 else 0);
          rest = drop scheme s;
          token = takeWhile (\<lambda>c. \<not> is_py_space c) rest
      in if scheme = 0 \<or> token = [] then None
         else Some (drop (max (length (trim_end_of url_end token)) 1) rest))"

lemma url_at_shorter: "url_at s = Some r \<Longrightarrow> length r < length s"
  by (auto simp: url_at_def Let_def max_def dest!: prefix_length_le split: if_splits)

function replace_bare_urls :: "str \<Rightarrow> str" where
  "replace_bare_urls s =
     (case url_at s of
        Some rest \<Rightarrow> lit ''link'' @ replace_bare_urls rest
      | None \<Rightarrow> (case s of [] \<Rightarrow> [] | c # s \<Rightarrow> c # replace_bare_urls s))"
  by pat_completeness auto
termination
  by (relation "measure length") (auto dest: url_at_shorter)

declare replace_bare_urls.simps [simp del]

text \<open>\<open>str::split\<close> at a character: the parts, empty ones too.\<close>

fun split_at :: "nat \<Rightarrow> str \<Rightarrow> str \<Rightarrow> str list" where
  "split_at d w [] = [w]"
| "split_at d w (c # s) = (if c = d then w # split_at d [] s else split_at d (w @ [c]) s)"

definition is_snake :: "str \<Rightarrow> bool" where
  "is_snake run =
     (let rest = dropWhile (\<lambda>c. c = 95) run; parts = split_at 95 [] rest
      in if 2 < length run - length rest \<or> rest = [] \<or> \<not> is_ascii_alphabetic (hd rest) then False
         else [] \<notin> set parts \<and> 2 \<le> length parts)"

definition unsnake :: "str \<Rightarrow> str" where
  "unsnake s = map (\<lambda>c. if c = 95 then 32 else c) s"

definition snake_prose :: "str \<Rightarrow> str" where
  "snake_prose t = replace_all WORD_RUN (\<lambda>g. if is_snake (g 0) then unsnake (g 0) else g 0) t"

text \<open>The inline code of a text, each span with the prose before it, and the prose after the last one.\<close>

function code_spans :: "str \<Rightarrow> str \<Rightarrow> str \<Rightarrow> (str \<times> str) list \<times> str" where
  "code_spans b acc s =
     (case found INLINE_CODE b s of
        Some p \<Rightarrow>
          if length (fst (snd p)) < length s then
            (let (spans, last) = code_spans (fst p) [] (fst (snd p)) in ((acc, group s p 0) # spans, last))
          else ([], acc @ s)
      | None \<Rightarrow> (case s of [] \<Rightarrow> ([], acc) | c # s \<Rightarrow> code_spans (c # b) (acc @ [c]) s))"
  by pat_completeness auto
termination
  by (relation "measure (\<lambda>(_, _, s). length s)") auto

declare code_spans.simps [simp del]

definition speak_snake_case :: "str \<Rightarrow> str" where
  "speak_snake_case t =
     (let (spans, last) = code_spans [] [] t
      in concat (map (\<lambda>(prose, code). snake_prose prose @ code) spans) @ snake_prose last)"

section \<open>The clean-up\<close>

definition clean_markdown :: "'a unicode_scheme \<Rightarrow> str \<Rightarrow> str" where
  "clean_markdown U s =
     (let t = replace_all LINK (\<lambda>g. g 1) s;
          t = replace_all INLINE_CODE (\<lambda>g. inline_code U (g 1)) t;
          t = replace_all HEADING (\<lambda>g. []) t;
          t = replace_all BULLET (\<lambda>g. g 1) t;
          t = emphasis_pass t;
          t = emphasis_pass t;
          t = replace_bare_urls t;
          t = replace_all TABLE_SEP (\<lambda>g. [32]) t;
          t = stabilize_ordinals U t;
          t = replace_all (LIST_ITEM_END U) (\<lambda>g. g 1 @ [46, 10]) t;
          t = replace_all WHITESPACE (\<lambda>g. [32]) t
      in trim t)"

definition normalize_for_speech :: "'a unicode_scheme \<Rightarrow> (str \<Rightarrow> str) \<Rightarrow> str \<Rightarrow> str" where
  "normalize_for_speech U pronounce s =
     (let t = pronounce s;
          t = clean_markdown U (speak_snake_case t);
          t = replace_all ARROW (\<lambda>g. lit '' to '') t;
          t = replace_all (chars (lit '' & '')) (\<lambda>g. lit '' and '') t;
          t = replace_all STATUS_ALONE (\<lambda>g. g 1 @ status_word (g 2) @ g 3) t;
          t = replace_all STRAY_MD (\<lambda>g. [32]) t
      in trim (replace_all WHITESPACE (\<lambda>g. [32]) t))"

text \<open>The spoken forms the assembler uses.\<close>

definition spoken_forms :: "unicode \<Rightarrow> (str \<Rightarrow> str) \<Rightarrow> speech_lib" where
  "spoken_forms U pronounce = unicode.extend U
     \<lparr>to_speech = normalize_for_speech U pronounce, code_line = spoken_line U,
      code_announcement = announcement, code_end = end_of_code\<rparr>"

end
