(* ===== verification/Clean_Claims.thy ===== *)
theory Clean_Claims imports Clean_Text Code_Letters begin

text \<open>
  The hand-written scanners of \<open>crates/sonara-core/src/text.rs\<close> are the patterns they stand for, under the meaning of
  \<open>Patterns\<close>; and what the clean-up hands to the voice is plain text.
\<close>

section \<open>Emphasis\<close>

text \<open>\<open>(\*{1,3}|_{1,3})([^*_\n]+)\1\<close>\<close>

definition EMPHASIS :: pattern where
  "EMPHASIS = seqs [Grp 1 (Alt (rep_n 1 2 (char 42)) (rep_n 1 2 (char 95))), Grp 2 (rep1 (Cls emphasis_text)), Ref 1]"

lemma emphasis_text_mark: "emphasis_mark m \<Longrightarrow> \<not> emphasis_text m"
  by (auto simp: emphasis_mark_def emphasis_text_def)

lemma emphasis_tail:
  assumes "emphasis_mark m" "0 < k"
  shows "paths (Seq (Grp 2 (rep1 (Cls emphasis_text))) (Ref 1)) (b, s, [(1, replicate k m)]) =
    (if takeWhile emphasis_text s \<noteq> [] \<and> prefix (replicate k m) (dropWhile emphasis_text s)
     then [(rev (replicate k m) @ rev (takeWhile emphasis_text s) @ b, drop k (dropWhile emphasis_text s),
            [(2, takeWhile emphasis_text s), (1, replicate k m)])]
     else [])"
proof -
  have "paths (Ref 1) (b, c # s, [(2, w), (1, replicate k m)]) = []" if "emphasis_text c" for b c s w
    using that emphasis_text_mark [OF assms(1)] assms(2) by (cases k) auto
  then show ?thesis by (subst group_then) auto
qed

lemma run_of_take_min: "run_of P (take n s) = min n (run_of P s)"
proof (induction s arbitrary: n)
  case (Cons c s)
  then show ?case by (cases n) (simp_all add: run_of_def)
qed (simp add: run_of_def)

lemma emphasis_one:
  assumes "emphasis_mark m" "n = min 3 (run_of (\<lambda>c. c = m) s)"
  shows "concat (map (\<lambda>k. paths (Seq (Grp 2 (rep1 (Cls emphasis_text))) (Ref 1))
      (rev (take k s) @ b, drop k s, [(1, take k s)])) (rev [1..<Suc n])) =
    (let run = run_of (\<lambda>c. c = m) (take 4 s); content = takeWhile emphasis_text (drop run s);
         after = dropWhile emphasis_text (drop run s)
     in if 0 < run \<and> run \<le> 3 \<and> content \<noteq> [] \<and> prefix (replicate run m) after
        then [(rev (replicate run m) @ rev content @ rev (take run s) @ b, drop run after, [(2, content), (1, replicate run m)])]
        else [])"
proof -
  define r where "r = Seq (Grp 2 (rep1 (Cls emphasis_text))) (Ref 1)"
  define full where "full = run_of (\<lambda>c. c = m) s"
  have run: "run_of (\<lambda>c. c = m) (take 4 s) = min 4 full" by (simp add: full_def run_of_take_min)
  have take: "take k s = replicate k m" if "k \<le> full" for k
  proof -
    have "take full s = takeWhile (\<lambda>c. c = m) s"
      unfolding full_def run_of_def by (rule takeWhile_eq_take [symmetric])
    moreover have "take k s = take k (take full s)" using that by simp
    moreover have "takeWhile (\<lambda>c. c = m) s = replicate full m"
      unfolding full_def run_of_def by (induction s) auto
    ultimately show ?thesis using that by simp
  qed
  have early: "paths r (x, drop k s, [(1, take k s)]) = []" if "0 < k" "k < full" for k x
  proof -
    have l: "k < length s"
      using that(2) length_takeWhile_le [of "\<lambda>c. c = m" s] unfolding full_def run_of_def by linarith
    have "s ! k = take (Suc k) s ! k" by simp
    also have "\<dots> = m" using that(2) by (simp only: take [of "Suc k"] Suc_leI nth_replicate lessI)
    finally have "drop k s = m # drop (Suc k) s" using l by (simp add: Cons_nth_drop_Suc [symmetric])
    then show ?thesis using emphasis_tail [OF assms(1) that(1), of x "drop k s", folded r_def] take [of k] that(2)
      by (simp add: emphasis_text_mark [OF assms(1)])
  qed
  show ?thesis
  proof (cases "full = 0 \<or> 3 < full")
    case True
    then have "concat (map (\<lambda>k. paths r (rev (take k s) @ b, drop k s, [(1, take k s)])) (rev [1..<Suc n])) = []"
      using early assms(2) by (auto simp: full_def [symmetric])
    then show ?thesis using True unfolding run Let_def r_def [symmetric] by auto
  next
    case False
    then have n: "n = full" "0 < full" "run_of (\<lambda>c. c = m) (take 4 s) = full"
      using assms(2) run by (simp_all add: full_def [symmetric])
    have "rev [1..<Suc full] = full # rev [1..<full]" using n(2) by simp
    moreover have "concat (map (\<lambda>k. paths r (rev (take k s) @ b, drop k s, [(1, take k s)])) (rev [1..<full])) = []"
      using early by auto
    ultimately show ?thesis
      using emphasis_tail [OF assms(1) n(2), of "rev (take full s) @ b" "drop full s", folded r_def] take [of full] False
      unfolding n Let_def r_def [symmetric] by (simp del: upt_Suc)
  qed
qed

lemma grouped_run:
  "concat (map (paths r) (map (\<lambda>(b2, s2, g2). (b2, s2, (1, take (length s - length s2) s) # g2))
     (map (\<lambda>k. (rev (take k s) @ b, drop k s, [])) (rev [1..<Suc (min 3 (run_of P s))])))) =
   concat (map (\<lambda>k. paths r (rev (take k s) @ b, drop k s, [(1, take k s)])) (rev [1..<Suc (min 3 (run_of P s))]))"
proof -
  have "run_of P s \<le> length s" by (simp add: run_of_def length_takeWhile_le)
  then have "\<forall>k \<in> set (rev [1..<Suc (min 3 (run_of P s))]). length s - length (drop k s) = k" by auto
  then show ?thesis by (simp add: comp_def del: upt_Suc set_rev cong: map_cong)
qed

lemma emphasis_paths:
  "paths EMPHASIS (b, s, []) =
    (case emphasis_at s of
       None \<Rightarrow> []
     | Some (content, rest) \<Rightarrow>
         [(rev (replicate (run_of (\<lambda>c. c = hd s) (take 4 s)) (hd s)) @ rev content @ rev (take (run_of (\<lambda>c. c = hd s) (take 4 s)) s) @ b,
           rest, [(2, content), (1, replicate (run_of (\<lambda>c. c = hd s) (take 4 s)) (hd s))])])"
proof -
  define r where "r = Seq (Grp 2 (rep1 (Cls emphasis_text))) (Ref 1)"
  define side where "side = (\<lambda>m. concat (map (\<lambda>k. paths r (rev (take k s) @ b, drop k s, [(1, take k s)]))
      (rev [1..<Suc (min 3 (run_of (\<lambda>c. c = m) s))])))"
  define run where "run = (\<lambda>m. run_of (\<lambda>c. c = m) (take 4 s))"
  have "rep_n 1 2 (char m) = rep_n (Suc 0) 2 (Cls (\<lambda>c. c = m))" for m by (simp add: char_def)
  then have e: "EMPHASIS = Seq (Grp 1 (Alt (rep_n (Suc 0) 2 (Cls (\<lambda>c. c = 42))) (rep_n (Suc 0) 2 (Cls (\<lambda>c. c = 95))))) r"
    by (simp only: EMPHASIS_def seqs.simps r_def)
  have three: "Suc 2 = 3" by simp
  have p: "paths EMPHASIS (b, s, []) = side 42 @ side 95"
    unfolding e paths.simps(3,4,7) prod.case map_append concat_append paths_rep_some run_of_def [symmetric] three
      grouped_run side_def ..
  have none: "side m = []" if "s = [] \<or> hd s \<noteq> m" for m
    using that by (cases s) (simp_all add: run_of_def side_def)
  have one: "side m = (if 0 < run m \<and> run m \<le> 3 \<and> takeWhile emphasis_text (drop (run m) s) \<noteq> [] \<and>
        prefix (replicate (run m) m) (dropWhile emphasis_text (drop (run m) s))
      then [(rev (replicate (run m) m) @ rev (takeWhile emphasis_text (drop (run m) s)) @ rev (take (run m) s) @ b,
             drop (run m) (dropWhile emphasis_text (drop (run m) s)),
             [(2, takeWhile emphasis_text (drop (run m) s)), (1, replicate (run m) m)])] else [])"
    if "emphasis_mark m" for m
    using emphasis_one [OF that refl, of s b] unfolding side_def r_def run_def Let_def .
  show ?thesis
  proof (cases "s \<noteq> [] \<and> emphasis_mark (hd s)")
    case False
    then have "side 42 = []" "side 95 = []" using none by (auto simp: emphasis_mark_def)
    then show ?thesis using p False by (auto simp: emphasis_at_def)
  next
    case True
    then have "paths EMPHASIS (b, s, []) = side (hd s)" using p none by (auto simp: emphasis_mark_def)
    moreover have "0 < run (hd s)" using True by (cases s) (simp_all add: run_def run_of_def)
    ultimately show ?thesis using True one [of "hd s"] by (simp add: emphasis_at_def Let_def run_def)
  qed
qed

lemma emphasis_pattern: "emphasis_pass s = replace_from EMPHASIS (\<lambda>g. g 2) b s"
proof (induction s arbitrary: b rule: emphasis_pass.induct)
  case (1 s)
  show ?case
  proof (cases "emphasis_at s")
    case None
    then have "found EMPHASIS b s = None" by (simp add: found_def emphasis_paths)
    then show ?thesis using 1(1) [OF None]
      by (subst emphasis_pass.simps, subst replace_from.simps) (simp add: None split: list.split)
  next
    case (Some x)
    obtain content rest where x: "x = (content, rest)" by (cases x)
    obtain q where "found EMPHASIS b s = Some (q, rest, [(2, content), (1, replicate (run_of (\<lambda>c. c = hd s) (take 4 s)) (hd s))])"
      using Some x by (simp add: found_def emphasis_paths)
    moreover have "length rest < length s" using emphasis_at_shorter Some x by blast
    ultimately show ?thesis using 1(2) [OF Some x [symmetric]]
      by (subst emphasis_pass.simps, subst replace_from.simps) (simp add: Some x group_def)
  qed
qed

section \<open>Bare URLs\<close>

text \<open>\<open>https?://\S+?(?=[.,;:!?)\]]*(?:\s|$))\<close>\<close>

definition BARE_URL :: pattern where
  "BARE_URL = seqs [chars (lit ''http''), opt (char 115), chars (lit ''://''), rep1_lazy (Cls (\<lambda>c. \<not> is_py_space c)),
     Ahead (Seq (Many (Cls url_end)) (Alt space Text_End))]"

lemma url_end_no_space: "url_end c \<Longrightarrow> \<not> is_py_space c"
  by (auto simp: url_end_def is_py_space_def is_whitespace_def)

lemma ahead_paths:
  "paths (Ahead (Seq (Many (Cls url_end)) (Alt space Text_End))) (b, s, g) =
     (if dropWhile url_end s = [] \<or> is_py_space (hd (dropWhile url_end s)) then [(b, s, g)] else [])"
proof -
  define a where "a = Alt space Text_End"
  have a: "paths a (b, s, g) \<noteq> [] \<longleftrightarrow> s = [] \<or> is_py_space (hd s)" for b s g
    by (cases s) (simp_all add: a_def space_def)
  have "paths (Seq (Many (Cls url_end)) a) (b, s, g) = paths a (rev (takeWhile url_end s) @ b, dropWhile url_end s, g)"
    unfolding paths.simps(3) by (rule many_then) (use a url_end_no_space in force)
  then show ?thesis using a unfolding a_def [symmetric] paths.simps(12) by simp
qed

lemma concat_if: "concat (map (\<lambda>k. if P k then [f k] else []) xs) = map f (filter P xs)"
  by (induction xs) simp_all

lemma url_end_after:
  assumes "k \<le> length token" "\<forall>c \<in> set token. \<not> is_py_space c" "r = [] \<or> is_py_space (hd r)"
  shows "dropWhile url_end (drop k (token @ r)) = [] \<or> is_py_space (hd (dropWhile url_end (drop k (token @ r)))) \<longleftrightarrow>
    length (trim_end_of url_end token) \<le> k"
proof -
  have r: "dropWhile url_end r = r" using assms(3) url_end_no_space by (cases r) auto
  define x where "x = drop k token"
  have x: "\<forall>c \<in> set x. \<not> is_py_space c" using assms(2) by (auto simp: x_def dest: in_set_dropD)
  have d: "dropWhile url_end (x @ r) = (if \<forall>c \<in> set x. url_end c then r else dropWhile url_end x @ r)"
    using r by (induction x) auto
  have "dropWhile url_end x = [] \<or> \<not> is_py_space (hd (dropWhile url_end x))"
    using x by (metis hd_in_set set_dropWhileD)
  then have 1: "dropWhile url_end (x @ r) = [] \<or> is_py_space (hd (dropWhile url_end (x @ r))) \<longleftrightarrow> (\<forall>c \<in> set x. url_end c)"
    using assms(3) by (auto simp: d hd_append)
  have len: "length (trim_end_of url_end (y @ z)) \<le> length y" if "\<forall>c \<in> set z. url_end c" for y z
    using that length_dropWhile_le [of url_end "rev y"] dropWhile_append2 [of "rev z" url_end "rev y"]
    by (simp add: trim_end_of_def)
  have "length (trim_end_of url_end token) \<le> k \<longleftrightarrow> (\<forall>c \<in> set x. url_end c)"
  proof
    assume "length (trim_end_of url_end token) \<le> k"
    moreover have "token = trim_end_of url_end token @ rev (takeWhile url_end (rev token))"
      unfolding trim_end_of_def by (metis rev_append rev_rev_ident takeWhile_dropWhile_id)
    ultimately have "x = drop (k - length (trim_end_of url_end token)) (rev (takeWhile url_end (rev token)))"
      unfolding x_def by (metis append_Nil drop_all drop_append)
    then show "\<forall>c \<in> set x. url_end c" by (auto dest!: in_set_dropD set_takeWhileD)
  next
    assume "\<forall>c \<in> set x. url_end c"
    then show "length (trim_end_of url_end token) \<le> k"
      using len [of x "take k token"] assms(1) by (simp add: x_def)
  qed
  then show ?thesis using 1 assms(1) by (simp add: x_def)
qed

lemma first_from:
  assumes "0 < l" "t \<le> l"
  shows "\<exists>ks. filter (\<lambda>k. t \<le> k) [1..<Suc l] = max t 1 # ks"
proof -
  have "[1..<Suc l] = [1..<max t 1] @ [max t 1..<Suc l]"
    using assms upt_add_eq_append [of 1 "max t 1" "Suc l - max t 1"] by simp
  moreover have "filter (\<lambda>k. t \<le> k) [1..<max t 1] = []" by (auto simp: filter_empty_conv max_def)
  moreover have "[max t 1..<Suc l] = max t 1 # [Suc (max t 1)..<Suc l]"
    using assms by (intro upt_conv_Cons) simp
  ultimately show ?thesis by auto
qed

lemma url_body:
  "(case paths (Seq (rep1_lazy (Cls (\<lambda>c. \<not> is_py_space c))) (Ahead (Seq (Many (Cls url_end)) (Alt space Text_End)))) (b, s, g) of
      [] \<Rightarrow> None | p # _ \<Rightarrow> Some (fst (snd p))) =
    (let token = takeWhile (\<lambda>c. \<not> is_py_space c) s
     in if token = [] then None else Some (drop (max (length (trim_end_of url_end token)) 1) s))"
proof -
  define a where "a = Ahead (Seq (Many (Cls url_end)) (Alt space Text_End))"
  define token where "token = takeWhile (\<lambda>c. \<not> is_py_space c) s"
  define r where "r = dropWhile (\<lambda>c. \<not> is_py_space c) s"
  let ?at = "\<lambda>k. (rev (take k s) @ b, drop k s, g)"
  have s: "s = token @ r" by (simp add: token_def r_def)
  have t: "\<forall>c \<in> set token. \<not> is_py_space c" by (auto simp: token_def dest: set_takeWhileD)
  have r: "r = [] \<or> is_py_space (hd r)" using hd_dropWhile [of "\<lambda>c. \<not> is_py_space c" s] by (auto simp: r_def)
  have ok: "paths a (?at k) =
      (if length (trim_end_of url_end token) \<le> k then [?at k] else [])" if "k \<le> length token" for k
    unfolding a_def ahead_paths using url_end_after [OF that t r] s by simp
  have "paths (Seq (rep1_lazy (Cls (\<lambda>c. \<not> is_py_space c))) a) (b, s, g) =
      concat (map (\<lambda>k. paths a (?at k)) [1..<Suc (length token)])"
    unfolding paths.simps(3) paths_rep1_lazy map_map comp_def token_def [symmetric] ..
  also have "\<dots> = concat (map (\<lambda>k. if length (trim_end_of url_end token) \<le> k then [?at k] else []) [1..<Suc (length token)])"
    using ok by (intro arg_cong [where f = concat] map_cong) auto
  also have "\<dots> = map ?at (filter (\<lambda>k. length (trim_end_of url_end token) \<le> k) [1..<Suc (length token)])"
    by (rule concat_if)
  finally have p: "paths (Seq (rep1_lazy (Cls (\<lambda>c. \<not> is_py_space c))) a) (b, s, g) =
      map ?at (filter (\<lambda>k. length (trim_end_of url_end token) \<le> k) [1..<Suc (length token)])" .
  show ?thesis
  proof (cases "token = []")
    case True
    then show ?thesis unfolding a_def [symmetric] p by (simp add: token_def)
  next
    case False
    then obtain ks where "filter (\<lambda>k. length (trim_end_of url_end token) \<le> k) [1..<Suc (length token)] =
        max (length (trim_end_of url_end token)) 1 # ks"
      using first_from [of "length token" "length (trim_end_of url_end token)"] trim_end_of_length by blast
    then show ?thesis using False unfolding a_def [symmetric] p by (simp add: token_def [symmetric] Let_def)
  qed
qed

lemma prefix_cases:
  assumes "prefix w s"
  obtains r where "s = w @ r"
  using assms by (auto simp: prefix_def)

lemma url_found: "map_option (\<lambda>p. fst (snd p)) (found BARE_URL b s) = url_at s"
proof -
  define body where "body = Seq (rep1_lazy (Cls (\<lambda>c. \<not> is_py_space c))) (Ahead (Seq (Many (Cls url_end)) (Alt space Text_End)))"
  have e: "BARE_URL = Seq (chars (lit ''http'')) (Seq (opt (char 115)) (Seq (chars (lit ''://'')) body))"
    by (simp add: BARE_URL_def body_def)
  have https: "paths BARE_URL (b, lit ''https://'' @ r, []) = paths body (rev (lit ''https://'') @ b, r, [])" for r
    unfolding e by (simp add: paths_chars opt_def del: chars.simps)
  have http: "paths BARE_URL (b, lit ''http://'' @ r, []) = paths body (rev (lit ''http://'') @ b, r, [])" for r
    unfolding e by (simp add: paths_chars opt_def del: chars.simps)
  have none: "paths BARE_URL (b, s, []) = []" if n: "\<not> prefix (lit ''https://'') s" "\<not> prefix (lit ''http://'') s"
  proof (cases "prefix (lit ''http'') s")
    case True
    then obtain r where r: "s = lit ''http'' @ r" by (rule prefix_cases)
    have "\<not> prefix (lit ''://'') r" "\<not> prefix (115 # lit ''://'') r" using n unfolding r by simp_all
    then show ?thesis unfolding e r by (cases r) (auto simp: paths_chars opt_def simp del: chars.simps)
  next
    case False
    then show ?thesis unfolding e by (simp add: paths_chars del: chars.simps)
  qed
  have first: "map_option f (case ps of [] \<Rightarrow> None | p # _ \<Rightarrow> Some p) = (case ps of [] \<Rightarrow> None | p # _ \<Rightarrow> Some (f p))"
    for f :: "place \<Rightarrow> str" and ps by (cases ps) simp_all
  note body = url_body [folded body_def]
  consider r where "s = lit ''https://'' @ r" | r where "s = lit ''http://'' @ r" "\<not> prefix (lit ''https://'') s"
    | "\<not> prefix (lit ''https://'') s" "\<not> prefix (lit ''http://'') s"
    by (metis prefix_cases)
  then show ?thesis
  proof cases
    case (1 r)
    have "url_at s = (let token = takeWhile (\<lambda>c. \<not> is_py_space c) r
        in if token = [] then None else Some (drop (max (length (trim_end_of url_end token)) 1) r))"
      unfolding 1 url_at_def by (simp add: Let_def)
    then show ?thesis unfolding found_def 1 https first body by (rule sym)
  next
    case (2 r)
    have "url_at s = (let token = takeWhile (\<lambda>c. \<not> is_py_space c) r
        in if token = [] then None else Some (drop (max (length (trim_end_of url_end token)) 1) r))"
      using 2(2) unfolding 2(1) url_at_def by (simp add: Let_def)
    then show ?thesis unfolding found_def 2(1) http first body by (rule sym)
  next
    case 3
    then show ?thesis by (simp add: found_def none url_at_def del: lit_Cons)
  qed
qed

lemma url_pattern: "replace_bare_urls s = replace_from BARE_URL (\<lambda>g. lit ''link'') b s"
proof (induction s arbitrary: b rule: replace_bare_urls.induct)
  case (1 s)
  show ?case
  proof (cases "url_at s")
    case None
    then have "found BARE_URL b s = None" using url_found [of b s] by simp
    then show ?thesis using 1(1) [OF None]
      by (subst replace_bare_urls.simps, subst replace_from.simps) (simp add: None split: list.split)
  next
    case (Some rest)
    then obtain q g where "found BARE_URL b s = Some (q, rest, g)" using url_found [of b s] by auto
    moreover have "length rest < length s" using url_at_shorter Some by blast
    ultimately show ?thesis using 1(2) [OF Some]
      by (subst replace_bare_urls.simps, subst replace_from.simps) (simp add: Some)
  qed
qed

section \<open>Snake case\<close>

text \<open>\<open>(?<![A-Za-z0-9_])_{0,2}[A-Za-z][A-Za-z0-9]*(?:_[A-Za-z0-9]+)+(?![A-Za-z0-9_])\<close>\<close>

definition SNAKE :: pattern where
  "SNAKE = seqs [Not_Behind word_char, rep_n 0 2 (char 95), Cls is_ascii_alphabetic, Many (Cls is_word),
     rep1 (Seq (char 95) (rep1 (Cls is_word))), Not_Ahead word_char]"

definition snake_part :: "str \<Rightarrow> bool" where
  "snake_part p \<longleftrightarrow> p \<noteq> [] \<and> (\<forall>c \<in> set p. is_word c)"

definition snake_words :: "str set" where
  "snake_words =
     concats {replicate k 95 |k. k \<le> 2} (concats {[c] |c. is_ascii_alphabetic c}
       (concats {w. \<forall>c \<in> set w. is_word c} {concat (map ((#) 95) ps) |ps. ps \<noteq> [] \<and> (\<forall>p \<in> set ps. snake_part p)}))"

lemma snake_wordsE:
  assumes "w \<in> snake_words"
  obtains k a al ps where "w = replicate k 95 @ [a] @ al @ concat (map ((#) 95) ps)" "k \<le> 2" "is_ascii_alphabetic a"
    "\<forall>c \<in> set al. is_word c" "ps \<noteq> []" "\<forall>p \<in> set ps. snake_part p"
  using assms by (force simp: snake_words_def concats_def)

lemma snake_wordsI:
  assumes "k \<le> 2" "is_ascii_alphabetic a" "\<forall>c \<in> set al. is_word c" "ps \<noteq> []" "\<forall>p \<in> set ps. snake_part p"
  shows "replicate k 95 @ [a] @ al @ concat (map ((#) 95) ps) \<in> snake_words"
proof -
  have 1: "al @ concat (map ((#) 95) ps) \<in>
      concats {w. \<forall>c \<in> set w. is_word c} {concat (map ((#) 95) ps) |ps. ps \<noteq> [] \<and> (\<forall>p \<in> set ps. snake_part p)}"
    using assms(3-5) unfolding concats_def by blast
  have 2: "[a] @ w \<in> concats {[c] |c. is_ascii_alphabetic c} W" if "w \<in> W" for w W
    using assms(2) that unfolding concats_def by blast
  have "replicate k 95 @ w \<in> concats {replicate k 95 |k. k \<le> 2} W" if "w \<in> W" for w W
    using assms(1) that unfolding concats_def by blast
  then show ?thesis unfolding snake_words_def using 1 2 by blast
qed

lemma repeats_class: "repeats {[c] |c. P c} = {w. \<forall>c \<in> set w. P c}"
proof -
  have "\<exists>ws. w = concat ws \<and> set ws \<subseteq> {[c] |c. P c}" if "\<forall>c \<in> set w. P c" for w
    using that by (intro exI [of _ "map (\<lambda>c. [c]) w"]) auto
  then show ?thesis by (fastforce simp: repeats_def)
qed

lemma spells_parts:
  "spells (rep1 (Seq (char 95) (rep1 (Cls is_word))))
     {concat (map ((#) 95) ps) |ps. ps \<noteq> [] \<and> (\<forall>p \<in> set ps. snake_part p)}"
proof -
  define V where "V = {95 # p |p. snake_part p}"
  have "spells (rep1 (Cls is_word)) (concats {[c] |c. is_word c} {w. \<forall>c \<in> set w. is_word c})"
    unfolding rep1_def repeats_class [symmetric] by (intro spells_Seq spells_Many spells_Cls)
  moreover have "concats {[c] |c. is_word c} {w. \<forall>c \<in> set w. is_word c} = {p. snake_part p}"
  proof -
    have "\<exists>c w. p = [c] @ w \<and> is_word c \<and> (\<forall>c \<in> set w. is_word c)" if "snake_part p" for p
      using that by (cases p) (auto simp: snake_part_def)
    then have "p \<in> concats {[c] |c. is_word c} {w. \<forall>c \<in> set w. is_word c}" if "snake_part p" for p
      using that unfolding concats_def by blast
    then show ?thesis by (auto simp: concats_def snake_part_def)
  qed
  ultimately have "spells (Seq (char 95) (rep1 (Cls is_word))) (concats {[c] |c. c = 95} {p. snake_part p})"
    unfolding char_def by (intro spells_Seq spells_Cls) simp
  moreover have "concats {[c] |c. c = 95} {p. snake_part p} = V" by (auto simp: concats_def V_def)
  ultimately have "spells (rep1 (Seq (char 95) (rep1 (Cls is_word)))) (concats V (repeats V))"
    unfolding rep1_def [of "Seq _ _"] by (intro spells_Seq spells_Many) simp_all
  moreover have "concats V (repeats V) = {concat (map ((#) 95) ps) |ps. ps \<noteq> [] \<and> (\<forall>p \<in> set ps. snake_part p)}"
  proof (intro equalityI subsetI)
    fix x assume "x \<in> concats V (repeats V)"
    then obtain p ws where p: "x = (95 # p) @ concat ws" "snake_part p" "set ws \<subseteq> V"
      by (auto simp: concats_def V_def repeats_def)
    have "\<exists>ps. ws = map ((#) 95) ps \<and> (\<forall>p \<in> set ps. snake_part p)" using p(3)
    proof (induction ws)
      case (Cons w ws)
      then obtain q ps where "w = 95 # q" "snake_part q" "ws = map ((#) 95) ps" "\<forall>p \<in> set ps. snake_part p"
        by (auto simp: V_def)
      then show ?case by (intro exI [of _ "q # ps"]) simp
    qed simp
    then obtain ps where "ws = map ((#) 95) ps" "\<forall>p \<in> set ps. snake_part p" by blast
    then show "x \<in> {concat (map ((#) 95) ps) |ps. ps \<noteq> [] \<and> (\<forall>p \<in> set ps. snake_part p)}"
      using p by (intro CollectI exI [of _ "p # ps"]) simp
  next
    fix x assume "x \<in> {concat (map ((#) 95) ps) |ps. ps \<noteq> [] \<and> (\<forall>p \<in> set ps. snake_part p)}"
    then obtain p ps where "x = (95 # p) @ concat (map ((#) 95) ps)" "snake_part p" "\<forall>p \<in> set ps. snake_part p"
      by (auto simp: neq_Nil_conv)
    moreover from this have "concat (map ((#) 95) ps) \<in> repeats V"
      unfolding repeats_def V_def by (intro CollectI exI [of _ "map ((#) 95) ps"]) auto
    ultimately show "x \<in> concats V (repeats V)" unfolding concats_def V_def by blast
  qed
  ultimately show ?thesis by simp
qed

lemma spells_underscores: "spells (rep_n 0 2 (char 95)) {replicate k 95 |k. k \<le> 2}"
proof -
  have "spells (rep_n 0 2 (char 95)) (concats {[c] |c. c = 95} (concats {[c] |c. c = 95} {[]} \<union> {[]}) \<union> {[]})"
    unfolding numeral_2_eq_2 rep_n.simps char_def by (intro spells_Seq spells_Alt spells_Cls spells_Empty)
  moreover have "concats {[c] |c. c = 95} (concats {[c] |c. c = 95} {[]} \<union> {[]}) \<union> {[]} = {replicate k 95 |k. k \<le> 2}"
  proof -
    have "{replicate k (95 :: nat) |k. k \<le> 2} = (\<lambda>k. replicate k 95) ` {..2}" by auto
    also have "{..2 :: nat} = {0, 1, 2}" by auto
    finally have "{replicate k (95 :: nat) |k. k \<le> 2} = {[], [95], [95, 95]}" by (simp add: numeral_2_eq_2)
    then show ?thesis by (auto simp: concats_def)
  qed
  ultimately show ?thesis by simp
qed

lemma spells_snake:
  "spells (Seq (rep_n 0 2 (char 95)) (Seq (Cls is_ascii_alphabetic) (Seq (Many (Cls is_word))
     (rep1 (Seq (char 95) (rep1 (Cls is_word))))))) snake_words"
proof -
  have "spells (Many (Cls is_word)) {w. \<forall>c \<in> set w. is_word c}"
    unfolding repeats_class [symmetric] by (intro spells_Many spells_Cls)
  then show ?thesis unfolding snake_words_def
    by (intro spells_Seq spells_underscores spells_Cls spells_parts)
qed

section \<open>The scanner of snake case\<close>

lemma split_at_same: "95 \<notin> set q \<Longrightarrow> split_at 95 w (q @ r) = split_at 95 (w @ q) r"
  by (induction q arbitrary: w) auto

lemma split_at_concat:
  "95 \<notin> set q \<Longrightarrow> \<forall>p \<in> set ps. 95 \<notin> set p \<Longrightarrow> split_at 95 w (q @ concat (map ((#) 95) ps)) = (w @ q) # ps"
proof (induction ps arbitrary: q w)
  case Nil
  then show ?case using split_at_same [of q w "[]"] by simp
next
  case (Cons p ps)
  have "split_at 95 [] (p @ concat (map ((#) 95) ps)) = ([] @ p) # ps" using Cons by simp
  then show ?case using Cons.prems by (simp add: split_at_same)
qed

lemma split_at_parts:
  "\<exists>q ps. split_at 95 w s = (w @ q) # ps \<and> s = q @ concat (map ((#) 95) ps) \<and> (\<forall>p \<in> set (q # ps). 95 \<notin> set p)"
proof (induction s arbitrary: w)
  case (Cons c s)
  show ?case
  proof (cases "c = 95")
    case True
    then obtain q ps where "split_at 95 [] s = q # ps" "s = q @ concat (map ((#) 95) ps)" "\<forall>p \<in> set (q # ps). 95 \<notin> set p"
      using Cons [of "[]"] by auto
    then show ?thesis using True by (intro exI [of _ "[]"] exI [of _ "q # ps"]) simp
  next
    case False
    then obtain q ps where "split_at 95 (w @ [c]) s = (w @ [c] @ q) # ps" "s = q @ concat (map ((#) 95) ps)"
      "\<forall>p \<in> set (q # ps). 95 \<notin> set p"
      using Cons [of "w @ [c]"] by auto
    then show ?thesis using False by (intro exI [of _ "c # q"] exI [of _ ps]) simp
  qed
qed simp

lemma word_no_underscore: "is_word c \<Longrightarrow> c \<noteq> 95"
  by (auto simp: is_word_def)

lemma alphabetic_is_word: "is_ascii_alphabetic c \<Longrightarrow> is_word c"
  by (auto simp: is_word_def is_ascii_alphabetic_def is_ascii_upper_def is_ascii_lower_def)

lemma snake_words_chars: "w \<in> snake_words \<Longrightarrow> \<forall>c \<in> set w. word_char c"
  by (elim snake_wordsE) (auto simp: word_char_def snake_part_def alphabetic_is_word split: if_splits)

lemma is_snake_words:
  assumes "\<forall>c \<in> set w. word_char c"
  shows "is_snake w \<longleftrightarrow> w \<in> snake_words"
proof
  assume s: "is_snake w"
  define rest where "rest = dropWhile (\<lambda>c. c = 95) w"
  define k where "k = length (takeWhile (\<lambda>c. c = 95) w)"
  have w: "w = replicate k 95 @ rest"
  proof -
    have "takeWhile (\<lambda>c. c = 95) w = replicate k 95" unfolding k_def by (induction w) auto
    then show ?thesis by (metis rest_def takeWhile_dropWhile_id)
  qed
  then have k: "length w - length rest = k" by simp
  obtain q ps where q: "split_at 95 [] rest = q # ps" "rest = q @ concat (map ((#) 95) ps)" "\<forall>p \<in> set (q # ps). 95 \<notin> set p"
    using split_at_parts [of "[]" rest] by auto
  have h: "k \<le> 2" "is_ascii_alphabetic (hd rest)" "q \<noteq> []" "[] \<notin> set ps" "ps \<noteq> []"
    using s k q(1) by (auto simp: is_snake_def rest_def [symmetric] Let_def split: if_splits)
  have "\<forall>p \<in> set (q # ps). \<forall>c \<in> set p. is_word c"
  proof (intro ballI)
    fix p c assume pc: "p \<in> set (q # ps)" "c \<in> set p"
    then have "c \<in> set w" using q(2) w by auto
    moreover have "c \<noteq> 95" using pc q(3) by blast
    ultimately show "is_word c" using assms by (auto simp: word_char_def)
  qed
  moreover obtain a al where "q = a # al" using h(3) by (cases q) auto
  ultimately show "w \<in> snake_words"
    using snake_wordsI [of k a al ps] h q(2) w by (auto simp: snake_part_def)
next
  assume "w \<in> snake_words"
  then obtain k a al ps where w: "w = replicate k 95 @ [a] @ al @ concat (map ((#) 95) ps)" "k \<le> 2"
    "is_ascii_alphabetic a" "\<forall>c \<in> set al. is_word c" "ps \<noteq> []" "\<forall>p \<in> set ps. snake_part p"
    by (rule snake_wordsE)
  have a: "a \<noteq> 95" using w(3) alphabetic_is_word word_no_underscore by blast
  have d: "dropWhile (\<lambda>c. c = 95) w = (a # al) @ concat (map ((#) 95) ps)"
    using a dropWhile_append2 [of "replicate k 95" "\<lambda>c. c = 95" "[a] @ al @ concat (map ((#) 95) ps)"] by (simp add: w(1))
  have "split_at 95 [] ((a # al) @ concat (map ((#) 95) ps)) = (a # al) # ps"
    using split_at_concat [of "a # al" ps "[]"] w(4,6) a by (auto simp: snake_part_def dest: word_no_underscore)
  moreover have "[] \<notin> set ps" using w(6) by (auto simp: snake_part_def)
  moreover have "Suc 0 \<le> length ps" using w(5) by (cases ps) simp_all
  moreover have "length w - length ((a # al) @ concat (map ((#) 95) ps)) = k" by (simp add: w(1))
  ultimately show "is_snake w" using w(2,3) unfolding is_snake_def d Let_def by simp
qed

lemma paths_assoc: "paths (Seq (Seq r q) x) = paths (Seq r (Seq q x))"
proof -
  have "concat (map f (concat (map g ps))) = concat (map (\<lambda>p. concat (map f (g p))) ps)"
    for f :: "place \<Rightarrow> place list" and g ps
    by (induction ps) simp_all
  then show ?thesis by (intro ext) simp
qed

lemma paths_tail: "paths q = paths x \<Longrightarrow> paths (Seq r q) = paths (Seq r x)"
  by simp

lemma prefix_of_run:
  assumes "prefix w s" "\<forall>c \<in> set w. P c" "drop (length w) s = [] \<or> \<not> P (hd (drop (length w) s))"
  shows "w = takeWhile P s" "drop (length w) s = dropWhile P s"
proof -
  obtain r where s: "s = w @ r" using assms(1) by (auto simp: prefix_def)
  have "takeWhile P s = w" "dropWhile P s = r" using assms(2,3) unfolding s by (cases r; simp)+
  then show "w = takeWhile P s" "drop (length w) s = dropWhile P s" by (simp_all add: s)
qed

lemma snake_found:
  "found SNAKE b s =
     (if b \<noteq> [] \<and> word_char (hd b) then None
      else if is_snake (takeWhile word_char s) then Some (rev (takeWhile word_char s) @ b, dropWhile word_char s, [])
      else None)"
proof (cases "b \<noteq> [] \<and> word_char (hd b)")
  case True
  then show ?thesis by (simp add: found_def SNAKE_def)
next
  case False
  define core where "core = Seq (rep_n 0 2 (char 95)) (Seq (Cls is_ascii_alphabetic) (Seq (Many (Cls is_word))
     (rep1 (Seq (char 95) (rep1 (Cls is_word))))))"
  let ?run = "takeWhile word_char s"
  let ?stop = "(rev ?run @ b, dropWhile word_char s, [])"
  define ps where "ps = paths (Seq core (Not_Ahead word_char)) (b, s, [])"
  define inner where "inner = Seq (rep_n 0 2 (char 95)) (Seq (Cls is_ascii_alphabetic) (Seq (Many (Cls is_word))
     (Seq (rep1 (Seq (char 95) (rep1 (Cls is_word)))) (Not_Ahead word_char))))"
  have "paths (Seq core (Not_Ahead word_char)) = paths inner"
    unfolding core_def inner_def paths_assoc by (rule paths_tail, unfold paths_assoc, rule paths_tail, rule paths_assoc)
  moreover have "paths SNAKE (b, s, []) = paths inner (b, s, [])"
    using False by (auto simp: SNAKE_def inner_def [symmetric])
  ultimately have "paths SNAKE (b, s, []) = ps" unfolding ps_def by (simp only:)
  have "set ps = (\<Union>w \<in> {w \<in> snake_words. prefix w s}. set (paths (Not_Ahead word_char) (rev w @ b, drop (length w) s, [])))"
    using spells_snake [folded core_def] by (simp add: ps_def spells_def)
  also have "\<dots> = {?stop |w. w \<in> snake_words \<and> w = ?run}"
  proof -
    have 1: "w = ?run \<and> drop (length w) s = dropWhile word_char s"
      if "w \<in> snake_words" "prefix w s" "drop (length w) s = [] \<or> \<not> word_char (hd (drop (length w) s))" for w
      using prefix_of_run [OF that(2) snake_words_chars [OF that(1)] that(3)] by simp
    have 2: "prefix ?run s" "drop (length ?run) s = dropWhile word_char s"
      "dropWhile word_char s = [] \<or> \<not> word_char (hd (dropWhile word_char s))"
      using hd_dropWhile [of word_char s] by (auto simp: takeWhile_is_prefix dropWhile_eq_drop [symmetric])
    have "set (paths (Not_Ahead word_char) (rev w @ b, drop (length w) s, [])) = (if w = ?run then {?stop} else {})"
      if w: "w \<in> snake_words" "prefix w s" for w
    proof (cases "drop (length w) s = [] \<or> \<not> word_char (hd (drop (length w) s))")
      case True
      then have "set (paths (Not_Ahead word_char) (rev w @ b, drop (length w) s, [])) = {(rev w @ b, drop (length w) s, [])}"
        by auto
      moreover have "w = ?run" "drop (length w) s = dropWhile word_char s" using 1 [OF w True] by blast+
      ultimately show ?thesis by (metis (no_types, lifting))
    next
      case False
      then have "w \<noteq> ?run" using 2 by metis
      then show ?thesis using False by simp
    qed
    then show ?thesis using 2(1) by auto
  qed
  finally have set_ps: "set ps = (if ?run \<in> snake_words then {?stop} else {})" by auto
  have "is_snake ?run \<longleftrightarrow> ?run \<in> snake_words" by (rule is_snake_words) (auto dest: set_takeWhileD)
  then show ?thesis using False \<open>paths SNAKE (b, s, []) = ps\<close> set_ps
    by (cases ps) (auto simp: found_def split: if_splits)
qed

lemma snake_skips:
  "b \<noteq> [] \<and> word_char (hd b) \<Longrightarrow> \<forall>c \<in> set w. word_char c \<Longrightarrow>
     replace_from SNAKE f b (w @ r) = w @ replace_from SNAKE f (rev w @ b) r"
proof (induction w arbitrary: b)
  case (Cons c w)
  have "found SNAKE b (c # w @ r) = None" using Cons.prems(1) by (simp add: snake_found)
  then have "replace_from SNAKE f b (c # w @ r) = c # replace_from SNAKE f (c # b) (w @ r)" by (simp add: replace_from.simps)
  then show ?case using Cons by simp
qed simp

lemma class_found:
  "found (rep1 (Cls P)) b s =
     (if takeWhile P s = [] then None else Some (rev (takeWhile P s) @ b, dropWhile P s, []))"
proof (cases "takeWhile P s = []")
  case False
  define n where "n = length (takeWhile P s)"
  have "0 < n" using False by (simp add: n_def)
  then have "rev [1..<Suc n] = n # rev [1..<n]" by simp
  then have "found (rep1 (Cls P)) b s = Some (rev (take n s) @ b, drop n s, [])"
    by (simp add: found_def paths_rep1 n_def [symmetric])
  then show ?thesis using False by (simp add: n_def takeWhile_eq_take [symmetric] dropWhile_eq_drop [symmetric])
qed (simp add: found_def paths_rep1)

lemmas run_found = class_found [of word_char, folded WORD_RUN_def]

lemma snake_pattern:
  "(b = [] \<or> \<not> word_char (hd b)) \<or> s = [] \<or> \<not> word_char (hd s) \<Longrightarrow>
     replace_from WORD_RUN (\<lambda>g. if is_snake (g 0) then unsnake (g 0) else g 0) b s =
     replace_from SNAKE (\<lambda>g. unsnake (g 0)) b s"
proof (induction s arbitrary: b rule: length_induct)
  case (1 s)
  let ?run = "takeWhile word_char s" and ?rest = "dropWhile word_char s"
  let ?f = "\<lambda>g. if is_snake (g 0) then unsnake (g 0) else g 0" and ?g = "\<lambda>g. unsnake (g 0)"
  show ?case
  proof (cases "?run = []")
    case True
    have n: "found WORD_RUN b s = None" "found SNAKE b s = None"
      using True by (auto simp: run_found snake_found is_snake_def)
    show ?thesis
    proof (cases s)
      case Nil
      then show ?thesis using n by (simp add: replace_from.simps)
    next
      case (Cons c t)
      then have "\<not> word_char c" using True by (auto split: if_splits)
      then have "replace_from WORD_RUN ?f (c # b) t = replace_from SNAKE ?g (c # b) t" using 1(1) Cons by simp
      then show ?thesis using n Cons by (simp add: replace_from.simps [of _ _ b])
    qed
  next
    case False
    then have b: "\<not> (b \<noteq> [] \<and> word_char (hd b))" using 1(2) by (cases s) (auto split: if_splits)
    have s: "s = ?run @ ?rest" by simp
    have shorter: "length ?rest < length s"
      using False by (metis append_self_conv2 length_append length_greater_0_conv less_add_same_cancel2 takeWhile_dropWhile_id)
    have run: "\<forall>c \<in> set ?run. word_char c" by (auto dest: set_takeWhileD)
    have "?rest = [] \<or> \<not> word_char (hd ?rest)" using hd_dropWhile [of word_char s] by auto
    then have IH: "replace_from WORD_RUN ?f (rev ?run @ b) ?rest = replace_from SNAKE ?g (rev ?run @ b) ?rest"
      using 1(1) shorter by blast
    have g0: "group s (rev ?run @ b, ?rest, []) 0 = ?run"
      using s by (metis append_eq_conv_conj diff_add_inverse2 fst_conv group_def length_append snd_conv)
    have "replace_from WORD_RUN ?f b s = ?f (\<lambda>n. ?run) @ replace_from WORD_RUN ?f (rev ?run @ b) ?rest"
      using False shorter g0 by (simp add: replace_from.simps [of WORD_RUN ?f b s] run_found)
    moreover have "replace_from SNAKE ?g b s = ?f (\<lambda>n. ?run) @ replace_from SNAKE ?g (rev ?run @ b) ?rest"
    proof (cases "is_snake ?run")
      case True
      then have "found SNAKE b s = Some (rev ?run @ b, ?rest, [])" using b by (auto simp: snake_found)
      then show ?thesis using True shorter g0 by (simp add: replace_from.simps [of SNAKE ?g b s])
    next
      case no: False
      obtain c w where cw: "?run = c # w" using False by (cases ?run) auto
      have sc: "s = c # w @ ?rest" using s cw by simp
      have "found SNAKE b s = None" using b no by (auto simp: snake_found)
      then have "replace_from SNAKE ?g b s = c # replace_from SNAKE ?g (c # b) (w @ ?rest)"
      proof -
        have "replace_from SNAKE ?g b s = (case s of [] \<Rightarrow> [] | c # t \<Rightarrow> c # replace_from SNAKE ?g (c # b) t)"
          using \<open>found SNAKE b s = None\<close> by (simp add: replace_from.simps [of SNAKE ?g b s])
        also have "\<dots> = (case c # w @ ?rest of [] \<Rightarrow> [] | c # t \<Rightarrow> c # replace_from SNAKE ?g (c # b) t)"
          using sc by (rule arg_cong)
        finally show ?thesis by simp
      qed
      also have "\<dots> = c # w @ replace_from SNAKE ?g (rev w @ c # b) ?rest"
        using run cw by (subst snake_skips) auto
      finally show ?thesis using no cw by simp
    qed
    ultimately show ?thesis using IH by simp
  qed
qed

section \<open>Plain text\<close>

text \<open>Runs of a class squeezed to one space.\<close>

function squeeze :: "(nat \<Rightarrow> bool) \<Rightarrow> str \<Rightarrow> str" where
  "squeeze P [] = []"
| "squeeze P (c # s) = (if P c then 32 # squeeze P (dropWhile P s) else c # squeeze P s)"
  by pat_completeness auto
termination
  by (relation "measure (\<lambda>(_, s). length s)") (auto simp: le_imp_less_Suc length_dropWhile_le)

lemma replace_squeezes: "replace_from (rep1 (Cls P)) (\<lambda>g. [32]) b s = squeeze P s"
proof (induction P s arbitrary: b rule: squeeze.induct)
  case (2 P c s)
  have "length (dropWhile P s) < Suc (length s)" by (simp add: le_imp_less_Suc length_dropWhile_le)
  then show ?case using 2 by (simp add: replace_from.simps [of _ _ b] class_found)
qed (simp add: replace_from.simps class_found)

lemma squeeze_set: "c \<in> set (squeeze P s) \<Longrightarrow> c = 32 \<or> c \<in> set s \<and> \<not> P c"
  by (induction P s rule: squeeze.induct) (auto dest: set_dropWhileD split: if_splits)

lemma squeeze_single:
  assumes "P 32"
  shows "successively (\<lambda>c d. \<not> (c = 32 \<and> d = 32)) (squeeze P s) \<and> (s \<noteq> [] \<longrightarrow> \<not> P (hd s) \<longrightarrow> hd (squeeze P s) \<noteq> 32)"
proof (induction s rule: length_induct)
  case (1 s)
  show ?case
  proof (cases s)
    case (Cons c r)
    have "length (dropWhile P r) < length s" using Cons by (simp add: le_imp_less_Suc length_dropWhile_le)
    then have d: "successively (\<lambda>c d. \<not> (c = 32 \<and> d = 32)) (squeeze P (dropWhile P r))"
      "dropWhile P r \<noteq> [] \<longrightarrow> hd (squeeze P (dropWhile P r)) \<noteq> 32"
      using 1 hd_dropWhile [of P r] by blast+
    have "squeeze P (dropWhile P r) \<noteq> [] \<longrightarrow> dropWhile P r \<noteq> []" by (metis squeeze.simps(1))
    moreover have "successively (\<lambda>c d. \<not> (c = 32 \<and> d = 32)) (squeeze P r)" using 1 Cons by simp
    ultimately show ?thesis using d assms Cons by (auto simp: successively_Cons simp del: dropWhile_eq_Nil_conv)
  qed simp
qed

lemma successively_sublist: "successively Q (x @ y @ z) \<Longrightarrow> successively Q y"
  by (simp add: successively_append_iff)

lemma trim_parts: "\<exists>x z. s = x @ trim s @ z"
proof -
  have "trim_start s = trim_end (trim_start s) @ rev (takeWhile is_whitespace (rev (trim_start s)))"
    unfolding trim_end_def by (metis rev_append rev_rev_ident takeWhile_dropWhile_id)
  moreover have "s = takeWhile is_whitespace s @ trim_start s" by (simp add: trim_start_def)
  ultimately show ?thesis unfolding trim_def by metis
qed

lemma plain_trim_ends:
  assumes "trim s \<noteq> []"
  shows "\<not> is_whitespace (hd (trim s))" "\<not> is_whitespace (last (trim s))"
proof -
  have t: "trim_end (trim_start s) \<noteq> []" using assms by (simp add: trim_def)
  then have "trim_start s \<noteq> []" by (auto simp: trim_end_def)
  then have "\<not> is_whitespace (hd (trim_start s))" by (simp add: trim_start_def hd_dropWhile)
  moreover have "\<exists>z. trim_start s = trim_end (trim_start s) @ z"
    unfolding trim_end_def by (metis rev_append rev_rev_ident takeWhile_dropWhile_id)
  ultimately show "\<not> is_whitespace (hd (trim s))" using t unfolding trim_def by (metis hd_append2)
  show "\<not> is_whitespace (last (trim s))" using t unfolding trim_def trim_end_def by (simp add: last_rev hd_dropWhile)
qed

section \<open>Properties\<close>

text \<open>C28: The three scanners written for speed do what the patterns of their comments do, on every text: each is the
  leftmost-first replacement of its pattern, with its back reference, its lazy repetition and its
  conditions on what stands before and after.\<close>

theorem scanners_are_the_patterns:
  "emphasis_pass s = replace_all EMPHASIS (\<lambda>g. g 2) s \<and>
   replace_bare_urls s = replace_all BARE_URL (\<lambda>g. lit ''link'') s \<and>
   snake_prose s = replace_all SNAKE (\<lambda>g. unsnake (g 0)) s"
  unfolding replace_all_def snake_prose_def by (intro conjI emphasis_pattern url_pattern snake_pattern) simp

text \<open>The last passes of the clean-up: whatever the text, none of the characters of \<open>STRAY_MD\<close> is left, the only
  white space is single spaces, and the text starts and ends with none.\<close>

theorem spoken_text_is_plain:
  "let out = normalize_for_speech U pronounce s in
     list_all (\<lambda>c. \<not> stray_md c \<and> (is_py_space c \<longleftrightarrow> c = 32)) out \<and>
     successively (\<lambda>c d. \<not> (c = 32 \<and> d = 32)) out \<and> (out = [] \<or> hd out \<noteq> 32 \<and> last out \<noteq> 32)"
proof -
  obtain t where n: "normalize_for_speech U pronounce s = trim (squeeze is_py_space (squeeze stray_md t))"
    unfolding normalize_for_speech_def Let_def STRAY_MD_def WHITESPACE_def space_def replace_all_def replace_squeezes by blast
  define u where "u = squeeze is_py_space (squeeze stray_md t)"
  have space: "is_py_space 32" by (simp add: is_py_space_def is_whitespace_def)
  have "\<not> stray_md c \<and> (is_py_space c \<longleftrightarrow> c = 32)" if "c \<in> set u" for c
    using squeeze_set [of c is_py_space "squeeze stray_md t"] squeeze_set [of c stray_md t] that space
    by (auto simp: u_def stray_md_def)
  moreover obtain x z where u: "u = x @ trim u @ z" using trim_parts by blast
  have "set (trim u) \<subseteq> set (x @ trim u @ z)" by auto
  then have "set (trim u) \<subseteq> set u" by (rule subst [OF u [symmetric], where P = "\<lambda>v. set (trim u) \<subseteq> set v"])
  ultimately have "list_all (\<lambda>c. \<not> stray_md c \<and> (is_py_space c \<longleftrightarrow> c = 32)) (trim u)"
    unfolding list_all_iff by blast
  moreover have "successively (\<lambda>c d. \<not> (c = 32 \<and> d = 32)) (trim u)"
  proof (rule successively_sublist)
    have "successively (\<lambda>c d. \<not> (c = 32 \<and> d = 32)) u" using squeeze_single [where P = is_py_space, OF space] by (simp add: u_def)
    then show "successively (\<lambda>c d. \<not> (c = 32 \<and> d = 32)) (x @ trim u @ z)"
      by (rule subst [OF u, where P = "successively (\<lambda>c d. \<not> (c = 32 \<and> d = 32))"])
  qed
  moreover have "trim u = [] \<or> hd (trim u) \<noteq> 32 \<and> last (trim u) \<noteq> 32"
    using plain_trim_ends [of u] by (auto simp: is_whitespace_def)
  ultimately show ?thesis by (simp add: n u_def [symmetric])
qed

end
