(* ===== verification/Wav.thy ===== *)
theory Wav imports Prelude Complex_Main begin

text \<open>
  WAV files decoded into 16-bit samples, from \<open>crates/sonara-engine/src/wav.rs\<close>: what a speech engine returns and
  what a user's earcon holds. A byte is an \<open>8 word\<close>, a sample a \<open>16 word\<close> read as signed. A position in the file
  is a natural number: a file has fewer than \<open>2 ^ 63\<close> bytes and a chunk fewer than \<open>2 ^ 32\<close>, so the saturating
  sums of the source are exact. An error message is a constructor of \<open>wav_error\<close>.
\<close>

section \<open>Little-endian numbers\<close>

type_synonym byte = "8 word"

definition le_value :: "byte list \<Rightarrow> nat" where
  "le_value bs = foldr (\<lambda>b v. unat b + 256 * v) bs 0"

fun le_bytes :: "nat \<Rightarrow> nat \<Rightarrow> byte list" where
  "le_bytes 0 v = []"
| "le_bytes (Suc n) v = word_of_nat v # le_bytes n (v div 256)"

definition u16_at :: "byte list \<Rightarrow> nat \<Rightarrow> 16 word option" where
  "u16_at b i = (if i + 2 \<le> length b then Some (word_of_nat (le_value (take 2 (drop i b)))) else None)"

definition u32_at :: "byte list \<Rightarrow> nat \<Rightarrow> 32 word option" where
  "u32_at b i = (if i + 4 \<le> length b then Some (word_of_nat (le_value (take 4 (drop i b)))) else None)"

definition ascii_bytes :: "string \<Rightarrow> byte list" where
  "ascii_bytes s = map of_char s"

section \<open>The format\<close>

datatype wav_error =
    Not_riff
  | Fmt_too_short
  | Unsupported_tag "16 word"
  | Zero_format
  | Unsupported_bits "16 word"
  | Data_before_fmt
  | No_data

record wav_format =
  wav_channels :: "16 word"
  wav_rate :: "32 word"
  wav_bits :: "16 word"
  wav_float :: bool

definition FORMAT_PCM :: "16 word" where "FORMAT_PCM = 1"
definition FORMAT_FLOAT :: "16 word" where "FORMAT_FLOAT = 3"
definition FORMAT_EXTENSIBLE :: "16 word" where "FORMAT_EXTENSIBLE = 0xFFFE"

text \<open>The tag of the subformat, when the format is the extensible one; else the tag itself.\<close>

definition format_kind :: "byte list \<Rightarrow> 16 word \<Rightarrow> 16 word" where
  "format_kind body tag =
     (if tag = FORMAT_EXTENSIBLE then (case u16_at body 24 of Some k \<Rightarrow> k | None \<Rightarrow> 0) else tag)"

definition supported_bits :: "bool \<Rightarrow> 16 word \<Rightarrow> bool" where
  "supported_bits float bits \<longleftrightarrow>
     (if float then bits = 32 \<or> bits = 64 else bits = 8 \<or> bits = 16 \<or> bits = 24 \<or> bits = 32)"

definition parse_fmt :: "byte list \<Rightarrow> wav_error + wav_format" where
  "parse_fmt body =
     (case u16_at body 0 of None \<Rightarrow> Inl Fmt_too_short | Some tag \<Rightarrow>
      (case u16_at body 2 of None \<Rightarrow> Inl Fmt_too_short | Some channels \<Rightarrow>
       (case u32_at body 4 of None \<Rightarrow> Inl Fmt_too_short | Some sample_rate \<Rightarrow>
        (case u16_at body 14 of None \<Rightarrow> Inl Fmt_too_short | Some bits \<Rightarrow>
          (let kind = format_kind body tag in
           if kind \<noteq> FORMAT_PCM \<and> kind \<noteq> FORMAT_FLOAT then Inl (Unsupported_tag tag)
           else if channels = 0 \<or> sample_rate = 0 then Inl Zero_format
           else if \<not> supported_bits (kind = FORMAT_FLOAT) bits then Inl (Unsupported_bits bits)
           else Inr \<lparr>wav_channels = channels, wav_rate = sample_rate, wav_bits = bits, wav_float = (kind = FORMAT_FLOAT)\<rparr>)))))"

section \<open>Samples\<close>

record pcm_chunk =
  pcm_samples :: "16 word list"
  pcm_rate :: "32 word"
  pcm_channels :: "16 word"

text \<open>The value of an IEEE binary number with \<open>e\<close> exponent and \<open>m\<close> mantissa bits.\<close>

datatype ieee = Not_a_number | Infinite bool | Finite rat

definition ieee_value :: "nat \<Rightarrow> nat \<Rightarrow> nat \<Rightarrow> ieee" where
  "ieee_value e m v =
     (let neg = (v div 2 ^ (e + m) mod 2 = 1); ex = v div 2 ^ m mod 2 ^ e; man = v mod 2 ^ m;
          shift = 2 ^ (e - 1) - 1 + m
      in if ex = 2 ^ e - 1 then (if man = 0 then Infinite neg else Not_a_number)
         else (let x = of_nat (if ex = 0 then man * 2 else (2 ^ m + man) * 2 ^ ex) / 2 ^ shift :: rat
               in Finite (if neg then - x else x)))"

definition f32_from :: "byte list \<Rightarrow> ieee" where
  "f32_from bs = ieee_value 8 23 (le_value bs)"

definition f64_from :: "byte list \<Rightarrow> ieee" where
  "f64_from bs = ieee_value 11 52 (le_value bs)"

text \<open>\<open>f64::round\<close>: half-way cases away from zero.\<close>

definition round_away :: "rat \<Rightarrow> int" where
  "round_away x = (if 0 \<le> x then \<lfloor>x + 1 / 2\<rfloor> else - \<lfloor>1 / 2 - x\<rfloor>)"

text \<open>The product with \<open>32768.0\<close> is exact: it only raises the exponent, and where it would overflow the result is
  clamped anyway.\<close>

definition from_float :: "ieee \<Rightarrow> 16 word" where
  "from_float x =
     (case x of
        Not_a_number \<Rightarrow> 0
      | Infinite neg \<Rightarrow> if neg then word_of_int (- 32768) else 32767
      | Finite r \<Rightarrow> word_of_int (max (- 32768) (min 32767 (round_away (r * 32768)))))"

text \<open>\<open>slice::as_chunks\<close> without the remainder.\<close>

function as_chunks :: "nat \<Rightarrow> 'a list \<Rightarrow> 'a list list" where
  "as_chunks n xs = (if n = 0 \<or> length xs < n then [] else take n xs # as_chunks n (drop n xs))"
  by pat_completeness auto

termination as_chunks
  by (relation "measure (\<lambda>(n, xs). length xs)") auto

declare as_chunks.simps [simp del]

definition i16_from :: "byte list \<Rightarrow> 16 word" where
  "i16_from bs = word_of_nat (le_value bs)"

definition to_pcm :: "wav_format \<Rightarrow> byte list \<Rightarrow> pcm_chunk" where
  "to_pcm f body =
     \<lparr>pcm_samples =
        (if \<not> wav_float f then
           (if wav_bits f = 8 then map (\<lambda>s. push_bit 8 (ucast s - 128)) body
            else if wav_bits f = 16 then map i16_from (as_chunks 2 body)
            else if wav_bits f = 24 then map (\<lambda>t. i16_from [t ! 1, t ! 2]) (as_chunks 3 body)
            else map (\<lambda>q. i16_from [q ! 2, q ! 3]) (as_chunks 4 body))
         else if wav_bits f = 32 then map (\<lambda>q. from_float (f32_from q)) (as_chunks 4 body)
         else map (\<lambda>e. from_float (f64_from e)) (as_chunks 8 body)),
      pcm_rate = wav_rate f, pcm_channels = wav_channels f\<rparr>"

section \<open>The file\<close>

text \<open>The loop over the chunks from position \<open>i\<close>: unknown ones are skipped, with the pad byte after an odd size.\<close>

function decode_from :: "byte list \<Rightarrow> nat \<Rightarrow> wav_format option \<Rightarrow> wav_error + pcm_chunk" where
  "decode_from bytes i format =
     (if i + 8 \<le> length bytes then
        (let ident = take 4 (drop i bytes);
             size = (case u32_at bytes (i + 4) of Some n \<Rightarrow> unat n | None \<Rightarrow> 0);
             start = i + 8;
             stop = min (start + size) (length bytes);
             body = take (stop - start) (drop start bytes);
             after = start + size + size mod 2
         in if ident = ascii_bytes ''fmt '' then
              (case parse_fmt body of Inl e \<Rightarrow> Inl e | Inr f \<Rightarrow> decode_from bytes after (Some f))
            else if ident = ascii_bytes ''data'' then
              (case format of None \<Rightarrow> Inl Data_before_fmt | Some f \<Rightarrow> Inr (to_pcm f body))
            else decode_from bytes after format)
      else Inl No_data)"
  by pat_completeness auto

termination decode_from
  by (relation "measure (\<lambda>(bytes, i, format). length bytes - i)") (auto simp: Let_def)

declare decode_from.simps [simp del]

definition decode :: "byte list \<Rightarrow> wav_error + pcm_chunk" where
  "decode bytes =
     (if length bytes < 12 \<or> take 4 bytes \<noteq> ascii_bytes ''RIFF'' \<or> take 4 (drop 8 bytes) \<noteq> ascii_bytes ''WAVE''
      then Inl Not_riff else decode_from bytes 12 None)"

text \<open>\<open>encode\<close>, with the sums and products of a release build, which wrap.\<close>

definition encode :: "pcm_chunk \<Rightarrow> byte list" where
  "encode pcm =
     (let data_len = word_of_nat (length (pcm_samples pcm) * 2) :: 32 word; block_align = pcm_channels pcm * 2
      in ascii_bytes ''RIFF'' @ le_bytes 4 (unat (36 + data_len)) @ ascii_bytes ''WAVEfmt '' @ le_bytes 4 16 @
         le_bytes 2 (unat FORMAT_PCM) @ le_bytes 2 (unat (pcm_channels pcm)) @ le_bytes 4 (unat (pcm_rate pcm)) @
         le_bytes 4 (unat (pcm_rate pcm * ucast block_align)) @ le_bytes 2 (unat block_align) @ le_bytes 2 16 @
         ascii_bytes ''data'' @ le_bytes 4 (unat data_len) @ concat (map (\<lambda>s. le_bytes 2 (unat s)) (pcm_samples pcm)))"

end
