(* ===== verification/Wav_Claims.thy ===== *)
theory Wav_Claims imports Wav begin

text \<open>
  What a WAV file decodes to, said without positions and words: chunk by chunk, each sample as a number.
\<close>

section \<open>Little-endian numbers\<close>

lemma le_value_simps [simp]: "le_value [] = 0" "le_value (b # bs) = unat b + 256 * le_value bs"
  by (simp_all add: le_value_def)

lemma length_le_bytes [simp]: "length (le_bytes n v) = n"
  by (induction n v rule: le_bytes.induct) simp_all

lemma byte_bound [simp]: "unat (b :: byte) < 256"
proof -
  have "unat b < 2 ^ LENGTH(8)" by (rule unsigned_less)
  then show ?thesis by simp
qed

lemma le_value_bound: "le_value bs < 256 ^ length bs"
proof (induction bs)
  case (Cons b bs)
  have "x + 256 * v < 256 * m" if "x < 256" "v < m" for x v m :: nat using that by linarith
  from this [OF byte_bound Cons] show ?case by simp
qed simp

lemma unat_byte [simp]: "unat (word_of_nat v :: byte) = v mod 256"
  by (simp add: unat_of_nat)

lemma le_value_le_bytes [simp]: "le_value (le_bytes n v) = v mod 256 ^ n"
  by (induction n v rule: le_bytes.induct) (simp_all add: mod_mult2_eq)

lemma sint_i16: "v < 65536 \<Longrightarrow> sint (word_of_nat v :: 16 word) = (if v < 32768 then int v else int v - 65536)"
proof -
  assume v: "v < 65536"
  have "sint (word_of_nat v :: 16 word) = (int v + 32768) mod 65536 - 32768"
    by (simp add: signed_of_nat signed_take_bit_eq_take_bit_shift take_bit_eq_mod)
  moreover have "(int v + 32768) mod 65536 = (if v < 32768 then int v + 32768 else int v - 32768)"
  proof (cases "v < 32768")
    case False
    have "(int v + 32768) mod 65536 = (int v - 32768 + 65536) mod 65536" by (simp add: add.commute)
    also have "\<dots> = (int v - 32768) mod 65536" by (rule mod_add_self2)
    also have "\<dots> = int v - 32768" using v False by (intro mod_pos_pos_trivial) simp_all
    finally show ?thesis using False by simp
  qed simp
  ultimately show ?thesis by simp
qed

lemma i16_of_bytes: "sint (i16_from [a, b]) = (if unat b < 128 then int (unat a) + 256 * int (unat b)
    else int (unat a) + 256 * int (unat b) - 65536)"
proof -
  have "x + 256 * y < 65536" "x + 256 * y < 32768 \<longleftrightarrow> y < 128" if "x < 256" "y < 256" for x y :: nat using that by linarith+
  note * = this [OF byte_bound byte_bound, of a b]
  show ?thesis unfolding i16_from_def le_value_simps mult_0_right add_0_right sint_i16 [OF *(1)] *(2) by simp
qed

section \<open>Samples as numbers\<close>

text \<open>The number \<open>v\<close> of \<open>n\<close> bits in two's complement.\<close>

definition signed_value :: "nat \<Rightarrow> nat \<Rightarrow> int" where
  "signed_value n v = (if 2 * v < 2 ^ n then int v else int v - 2 ^ n)"

text \<open>The nearest sample to a float, full scale at 1 and clamped at both ends.\<close>

definition float_sample :: "ieee \<Rightarrow> int" where
  "float_sample x =
     (case x of
        Not_a_number \<Rightarrow> 0
      | Infinite neg \<Rightarrow> if neg then - 32768 else 32767
      | Finite r \<Rightarrow> max (- 32768) (min 32767 (round_away (32768 * r))))"

definition sample_value :: "wav_format \<Rightarrow> byte list \<Rightarrow> int" where
  "sample_value f bs =
     (let v = le_value bs; n = unat (wav_bits f) in
      if wav_float f then float_sample (if n = 32 then ieee_value 8 23 v else ieee_value 11 52 v)
      else if n = 8 then (int v - 128) * 256
      else signed_value n v div 2 ^ (n - 16))"

definition sample_values :: "wav_format \<Rightarrow> byte list \<Rightarrow> int list" where
  "sample_values f body =
     (let n = unat (wav_bits f) div 8 in map (\<lambda>i. sample_value f (take n (drop (i * n) body))) [0..<length body div n])"

lemma as_chunks_eq: "0 < n \<Longrightarrow> as_chunks n xs = map (\<lambda>i. take n (drop (i * n) xs)) [0..<length xs div n]"
proof (induction n xs rule: as_chunks.induct)
  case (1 n xs)
  show ?case
  proof (cases "length xs < n")
    case True
    then show ?thesis by (simp add: as_chunks.simps [of n xs])
  next
    case False
    define k where "k = length (drop n xs) div n"
    have k: "length xs div n = Suc k" using False 1(2) by (simp add: k_def le_div_geq)
    have "[0..<Suc k] = 0 # map Suc [0..<k]" by (simp add: map_Suc_upt upt_conv_Cons)
    moreover have "as_chunks n (drop n xs) = map (\<lambda>i. take n (drop (i * n) (drop n xs))) [0..<k]"
      using 1 False by (simp add: k_def)
    ultimately show ?thesis using False 1(2) unfolding as_chunks.simps [of n xs] k
      by (simp add: comp_def add.commute)
  qed
qed

lemma as_chunks_length: "xs \<in> set (as_chunks n ys) \<Longrightarrow> length xs = n"
  by (induction n ys rule: as_chunks.induct) (subst (asm) (2) as_chunks.simps, auto split: if_splits)

lemma bytes_of_length:
  "length bs = 2 \<Longrightarrow> \<exists>a b. bs = [a, b]" "length bs = 3 \<Longrightarrow> \<exists>a b c. bs = [a, b, c]"
  "length bs = 4 \<Longrightarrow> \<exists>a b c d. bs = [a, b, c, d]"
  by (auto simp: numeral_eq_Suc length_Suc_conv)

lemma sint_small: "- 32768 \<le> k \<Longrightarrow> k < 32768 \<Longrightarrow> sint (word_of_int k :: 16 word) = k"
  by (simp add: signed_of_int signed_take_bit_int_eq_self)

lemma sample_8: "sint (push_bit 8 (ucast (s :: byte) - 128) :: 16 word) = (int (unat s) - 128) * 256"
proof -
  obtain x where x: "unat s = x" "x < 256" using byte_bound [of s] by simp
  then have s: "(ucast s :: 16 word) = word_of_int (int x)" by (metis of_int_of_nat_eq of_nat_unat)
  have "(push_bit 8 (ucast s - 128) :: 16 word) = word_of_int ((int x - 128) * 256)"
    by (simp add: push_bit_eq_mult s)
  moreover have "sint (word_of_int ((int x - 128) * 256) :: 16 word) = (int x - 128) * 256"
    using x(2) by (intro sint_small) auto
  ultimately show ?thesis unfolding x(1) by (rule trans [OF arg_cong])
qed

lemma sample_16: "sint (i16_from [a, b]) = signed_value 16 (le_value [a, b])"
proof -
  have "2 * (x + 256 * y) < 2 ^ 16 \<longleftrightarrow> y < 128" if "x < 256" for x y :: nat using that by simp linarith
  note * = this [OF byte_bound, of a]
  show ?thesis unfolding i16_of_bytes signed_value_def le_value_simps mult_0_right add_0_right * by simp
qed

lemma sample_24: "signed_value 24 (le_value [a, b, c]) div 256 = sint (i16_from [b, c])"
proof -
  have "2 * (x + 256 * (y + 256 * z)) < 2 ^ 24 \<longleftrightarrow> z < 128" if "x < 256" "y < 256" for x y z :: nat using that by simp linarith
  note * = this [OF byte_bound byte_bound, of a b]
  have "(int x + 256 * (int y + 256 * int z)) div 256 = int y + 256 * int z"
    "(int x + 256 * (int y + 256 * int z) - 2 ^ 24) div 256 = int y + 256 * int z - 65536" if "x < 256" for x y z :: nat
    using that by (simp; linarith)+
  note ** = this [OF byte_bound, of a]
  show ?thesis unfolding i16_of_bytes signed_value_def le_value_simps mult_0_right add_0_right *
    by (simp only: of_nat_add of_nat_mult of_nat_numeral ** split: if_split) simp
qed

lemma sample_32: "signed_value 32 (le_value [a, b, c, d]) div 65536 = sint (i16_from [c, d])"
proof -
  have "2 * (x + 256 * (y + 256 * (z + 256 * t))) < 2 ^ 32 \<longleftrightarrow> t < 128" if "x < 256" "y < 256" "z < 256" for x y z t :: nat
    using that by simp linarith
  note * = this [OF byte_bound byte_bound byte_bound, of a b c]
  have "(int x + 256 * (int y + 256 * (int z + 256 * int t))) div 65536 = int z + 256 * int t"
    "(int x + 256 * (int y + 256 * (int z + 256 * int t)) - 2 ^ 32) div 65536 = int z + 256 * int t - 65536"
    if "x < 256" "y < 256" for x y z t :: nat
    using that by (simp; linarith)+
  note ** = this [OF byte_bound byte_bound, of a b]
  show ?thesis unfolding i16_of_bytes signed_value_def le_value_simps mult_0_right add_0_right *
    by (simp only: of_nat_add of_nat_mult of_nat_numeral ** split: if_split) simp
qed

lemma sample_float: "sint (from_float x) = float_sample x"
proof (cases x)
  case (Finite r)
  define v where "v = max (- 32768) (min 32767 (round_away (32768 * r)))"
  have "- 32768 \<le> v" "v < 32768" by (simp_all add: v_def)
  then show ?thesis using Finite
    by (simp add: from_float_def float_sample_def mult.commute v_def [symmetric] sint_small)
qed (simp_all add: from_float_def float_sample_def)

text \<open>\<open>float_sample\<close> is at most half a step from the float, unless that is beyond an end.\<close>

lemma float_sample_nearest:
  assumes "- 1 \<le> r" "r < 1 - 1 / 32768"
  shows "\<bar>of_int (float_sample (Finite r)) - 32768 * r\<bar> \<le> 1 / 2"
proof -
  have b: "- 32768 \<le> 32768 * r" "32768 * r \<le> 32767" using assms by simp_all
  have r: "\<bar>of_int (round_away x) - x\<bar> \<le> 1 / 2" for x :: rat
  proof -
    have "x + 1 / 2 - 1 < of_int \<lfloor>x + 1 / 2\<rfloor> \<and> of_int \<lfloor>x + 1 / 2\<rfloor> \<le> x + 1 / 2"
      "1 / 2 - x - 1 < of_int \<lfloor>1 / 2 - x\<rfloor> \<and> of_int \<lfloor>1 / 2 - x\<rfloor> \<le> 1 / 2 - x" by linarith+
    then show ?thesis unfolding round_away_def abs_le_iff by (cases "0 \<le> x") (simp_all only: if_True if_False of_int_minus, linarith+)
  qed
  have "- 32768 \<le> round_away (32768 * r)" "round_away (32768 * r) \<le> 32767"
    using r [of "32768 * r"] b by linarith+
  then show ?thesis using r [of "32768 * r"] by (simp add: float_sample_def)
qed

section \<open>A file chunk by chunk\<close>

text \<open>The format of a \<open>fmt\<close> chunk, read from the numbers in its fields.\<close>

definition field :: "byte list \<Rightarrow> nat \<Rightarrow> nat \<Rightarrow> nat" where
  "field body i n = le_value (take n (drop i body))"

definition read_format :: "byte list \<Rightarrow> wav_error + wav_format" where
  "read_format body =
     (let tag = field body 0 2; channels = field body 2 2; sample_rate = field body 4 4; bits = field body 14 2;
          kind = (if tag \<noteq> 65534 then tag else if length body < 26 then 0 else field body 24 2)
      in if length body < 16 then Inl Fmt_too_short
         else if kind \<noteq> 1 \<and> kind \<noteq> 3 then Inl (Unsupported_tag (word_of_nat tag))
         else if channels = 0 \<or> sample_rate = 0 then Inl Zero_format
         else if bits \<notin> (if kind = 3 then {32, 64} else {8, 16, 24, 32}) then Inl (Unsupported_bits (word_of_nat bits))
         else Inr \<lparr>wav_channels = word_of_nat channels, wav_rate = word_of_nat sample_rate, wav_bits = word_of_nat bits,
                    wav_float = (kind = 3)\<rparr>)"

text \<open>What is played of a list of chunks: the samples, the rate and the channels.\<close>

fun read_chunks :: "wav_format option \<Rightarrow> (byte list \<times> byte list) list \<Rightarrow> wav_error + int list \<times> nat \<times> nat" where
  "read_chunks format [] = Inl No_data"
| "read_chunks format ((ident, body) # cs) =
     (if ident = ascii_bytes ''fmt '' then
        (case read_format body of Inl e \<Rightarrow> Inl e | Inr f \<Rightarrow> read_chunks (Some f) cs)
      else if ident = ascii_bytes ''data'' then
        (case format of
           None \<Rightarrow> Inl Data_before_fmt
         | Some f \<Rightarrow> Inr (sample_values f body, unat (wav_rate f), unat (wav_channels f)))
      else read_chunks format cs)"

definition heard :: "pcm_chunk \<Rightarrow> int list \<times> nat \<times> nat" where
  "heard p = (map sint (pcm_samples p), unat (pcm_rate p), unat (pcm_channels p))"

definition told :: "wav_error + pcm_chunk \<Rightarrow> wav_error + int list \<times> nat \<times> nat" where
  "told r = (case r of Inl e \<Rightarrow> Inl e | Inr p \<Rightarrow> Inr (heard p))"

lemma told_simps [simp]: "told (Inl e) = Inl e" "told (Inr p) = Inr (heard p)"
  by (simp_all add: told_def)

text \<open>A chunk as it stands in a file, with its pad byte; the last one may promise more than it has.\<close>

definition chunk_bytes :: "byte list \<times> byte list \<Rightarrow> byte list" where
  "chunk_bytes c = fst c @ le_bytes 4 (length (snd c)) @ snd c @ replicate (length (snd c) mod 2) 0"

definition last_chunk_bytes :: "byte list \<times> byte list \<Rightarrow> nat \<Rightarrow> byte list" where
  "last_chunk_bytes c n = fst c @ le_bytes 4 n @ snd c"

definition riff_header :: "byte list \<Rightarrow> byte list" where
  "riff_header n = ascii_bytes ''RIFF'' @ n @ ascii_bytes ''WAVE''"

definition chunk_ok :: "byte list \<times> byte list \<Rightarrow> bool" where
  "chunk_ok c \<longleftrightarrow> length (fst c) = 4 \<and> length (snd c) < 2 ^ 32"

lemma ascii_bytes_simps [simp]: "ascii_bytes [] = []" "ascii_bytes (c # s) = of_char c # ascii_bytes s" "length (ascii_bytes s) = length s"
  by (simp_all add: ascii_bytes_def)

lemma le_value_take: "le_value (take n bs) < 256 ^ n"
  by (rule less_le_trans [OF le_value_bound power_increasing]) simp_all

lemma field_bound: "field body i 2 < 65536" "field body i 4 < 4294967296"
  using le_value_take [of 2 "drop i body"] le_value_take [of 4 "drop i body"] by (simp_all add: field_def)

lemma field_numeral:
  "(word_of_nat (field body i 2) :: 16 word) = 0 \<longleftrightarrow> field body i 2 = 0"
  "(word_of_nat (field body i 2) :: 16 word) = 1 \<longleftrightarrow> field body i 2 = 1"
  "numeral k < (65536 :: nat) \<Longrightarrow> (word_of_nat (field body i 2) :: 16 word) = numeral k \<longleftrightarrow> field body i 2 = numeral k"
  "(word_of_nat (field body i 4) :: 32 word) = 0 \<longleftrightarrow> field body i 4 = 0"
proof -
  have w: "(word_of_nat v :: 16 word) = word_of_nat u \<longleftrightarrow> v = u" if "v < 65536" "u < 65536" for u v
    using that by (simp add: word_of_nat_eq_iff take_bit_eq_mod)
  have w32: "(word_of_nat v :: 32 word) = word_of_nat u \<longleftrightarrow> v = u" if "v < 4294967296" "u < 4294967296" for u v
    using that by (simp add: word_of_nat_eq_iff take_bit_eq_mod)
  show "(word_of_nat (field body i 2) :: 16 word) = 0 \<longleftrightarrow> field body i 2 = 0"
    using w [OF field_bound(1), of 0 body i] by simp
  show "(word_of_nat (field body i 2) :: 16 word) = 1 \<longleftrightarrow> field body i 2 = 1"
    using w [OF field_bound(1), of 1 body i] by simp
  show "(word_of_nat (field body i 4) :: 32 word) = 0 \<longleftrightarrow> field body i 4 = 0"
    using w32 [OF field_bound(2), of 0 body i] by simp
  show "(word_of_nat (field body i 2) :: 16 word) = numeral k \<longleftrightarrow> field body i 2 = numeral k" if "numeral k < (65536 :: nat)"
    using w [OF field_bound(1) that, of body i] by simp
qed

lemma u_at_field:
  "u16_at body i = (if i + 2 \<le> length body then Some (word_of_nat (field body i 2)) else None)"
  "u32_at body i = (if i + 4 \<le> length body then Some (word_of_nat (field body i 4)) else None)"
  by (simp_all add: u16_at_def u32_at_def field_def)

text \<open>The reading by numbers agrees with the reading by words.\<close>

lemma parse_fmt_read: "parse_fmt body = read_format body"
proof (cases "length body < 16")
  case True
  then have "u16_at body 14 = None" by (simp add: u_at_field)
  then have "parse_fmt body = Inl Fmt_too_short" by (simp add: parse_fmt_def split: option.split)
  then show ?thesis using True by (simp add: read_format_def Let_def)
next
  case False
  define kind where "kind = (if field body 0 2 \<noteq> 65534 then field body 0 2 else if length body < 26 then 0 else field body 24 2)"
  have k: "format_kind body (word_of_nat (field body 0 2)) = word_of_nat kind"
    by (simp add: format_kind_def FORMAT_EXTENSIBLE_def field_numeral u_at_field kind_def)
  have kind: "(word_of_nat kind :: 16 word) = 1 \<longleftrightarrow> kind = 1" "(word_of_nat kind :: 16 word) = 3 \<longleftrightarrow> kind = 3"
    by (simp_all add: kind_def field_numeral)
  show ?thesis using False
    by (simp add: parse_fmt_def u_at_field k kind FORMAT_PCM_def FORMAT_FLOAT_def supported_bits_def field_numeral
        read_format_def Let_def kind_def [symmetric])
qed

section \<open>What is heard\<close>

lemma read_format_supported: "read_format body = Inr f \<Longrightarrow> supported_bits (wav_float f) (wav_bits f)"
  by (auto simp: read_format_def Let_def supported_bits_def split: if_splits)

lemma as_chunks_1: "as_chunks 1 xs = map (\<lambda>x. [x]) xs"
proof (induction xs)
  case Nil
  show ?case by (simp add: as_chunks.simps [of "Suc 0" "[]"])
next
  case (Cons x xs)
  then show ?case by (simp add: as_chunks.simps [of "Suc 0" "x # xs"])
qed

lemma sample_values_eq:
  "8 \<le> unat (wav_bits f) \<Longrightarrow> sample_values f body = map (sample_value f) (as_chunks (unat (wav_bits f) div 8) body)"
  by (simp add: sample_values_def Let_def as_chunks_eq)

lemma to_pcm_heard:
  assumes "supported_bits (wav_float f) (wav_bits f)"
  shows "heard (to_pcm f body) = (sample_values f body, unat (wav_rate f), unat (wav_channels f))"
proof -
  consider (i8) "\<not> wav_float f" "wav_bits f = 8" | (i16) "\<not> wav_float f" "wav_bits f = 16"
    | (i24) "\<not> wav_float f" "wav_bits f = 24" | (i32) "\<not> wav_float f" "wav_bits f = 32"
    | (f32) "wav_float f" "wav_bits f = 32" | (f64) "wav_float f" "wav_bits f = 64"
    using assms by (auto simp: supported_bits_def split: if_splits)
  then have "map sint (pcm_samples (to_pcm f body)) = sample_values f body"
  proof cases
    case i8
    have "sample_values f body = map (sample_value f) (as_chunks 1 body)" using i8 by (simp add: sample_values_eq)
    also have "\<dots> = map (\<lambda>s. (int (unat s) - 128) * 256) body"
      unfolding as_chunks_1 using i8 by (simp add: sample_value_def)
    finally show ?thesis using i8 by (simp add: to_pcm_def sample_8 del: of_nat_unat)
  next
    case i16
    then show ?thesis
      by (auto simp: to_pcm_def sample_values_eq sample_value_def sample_16 dest!: as_chunks_length bytes_of_length)
  next
    case i24
    then show ?thesis
      by (auto simp: to_pcm_def sample_values_eq sample_value_def sample_24 simp del: le_value_simps
          dest!: as_chunks_length bytes_of_length)
  next
    case i32
    then show ?thesis
      by (auto simp: to_pcm_def sample_values_eq sample_value_def sample_32 simp del: le_value_simps
          dest!: as_chunks_length bytes_of_length)
  next
    case f32
    then show ?thesis by (simp add: to_pcm_def sample_values_eq sample_value_def sample_float f32_from_def)
  next
    case f64
    then show ?thesis by (simp add: to_pcm_def sample_values_eq sample_value_def sample_float f64_from_def)
  qed
  then show ?thesis by (simp add: heard_def to_pcm_def)
qed

text \<open>One turn of the loop at a chunk.\<close>

lemma decode_from_chunk:
  assumes "bytes = pre @ ident @ le_bytes 4 n @ tail" "length ident = 4" "n < 2 ^ 32"
  shows "decode_from bytes (length pre) format =
    (let after = length pre + 8 + n + n mod 2; body = take n tail in
     if ident = ascii_bytes ''fmt '' then
       (case read_format body of Inl e \<Rightarrow> Inl e | Inr f \<Rightarrow> decode_from bytes after (Some f))
     else if ident = ascii_bytes ''data'' then
       (case format of None \<Rightarrow> Inl Data_before_fmt | Some f \<Rightarrow> Inr (to_pcm f body))
     else decode_from bytes after format)"
proof -
  have len: "length bytes = length pre + 8 + length tail" using assms by simp
  have 1: "take 4 (drop (length pre) bytes) = ident" using assms(1,2) by simp
  have "u32_at bytes (length pre + 4) = Some (word_of_nat (le_value (take 4 (drop (length pre + 4) bytes))))"
    using len by (simp add: u32_at_def)
  moreover have "take 4 (drop (length pre + 4) bytes) = le_bytes 4 n" using assms(1,2) by simp
  moreover have "unat (word_of_nat n :: 32 word) = n" using assms(3) by (simp add: unat_of_nat)
  ultimately have 2: "(case u32_at bytes (length pre + 4) of Some k \<Rightarrow> unat k | None \<Rightarrow> 0) = n" using assms(3) by simp
  have "drop (length pre + 8) bytes = tail" using assms(1,2) by simp
  then have 3: "take (min (length pre + 8 + n) (length pre + 8 + length tail) - (length pre + 8)) (drop (length pre + 8) bytes) =
    take n tail" by (simp add: min_def)
  show ?thesis
    by (subst decode_from.simps) (simp only: len 1 2 3 Let_def parse_fmt_read le_add1 if_True)
qed

lemma decode_from_end: "length bytes < i + 8 \<Longrightarrow> decode_from bytes i format = Inl No_data"
  by (subst decode_from.simps) simp

lemma decode_chunks:
  assumes "list_all chunk_ok cs" "length (fst c) = 4" "length (snd c) \<le> n" "n < 2 ^ 32"
    "case format of None \<Rightarrow> True | Some f \<Rightarrow> supported_bits (wav_float f) (wav_bits f)"
  shows "told (decode_from (pre @ concat (map chunk_bytes cs) @ last_chunk_bytes c n) (length pre) format) =
    read_chunks format (cs @ [c])"
  using assms(1,5)
proof (induction cs arbitrary: pre format)
  case Nil
  obtain ident body where c: "c = (ident, body)" by (cases c)
  let ?bytes = "pre @ ident @ le_bytes 4 n @ body"
  have over: "decode_from ?bytes (length pre + 8 + n + n mod 2) format' = Inl No_data" for format'
    using assms(2,3) c by (intro decode_from_end) simp
  have "decode_from ?bytes (length pre) format = (if ident = ascii_bytes ''fmt '' then
       (case read_format body of Inl e \<Rightarrow> Inl e | Inr f \<Rightarrow> Inl No_data)
     else if ident = ascii_bytes ''data'' then
       (case format of None \<Rightarrow> Inl Data_before_fmt | Some f \<Rightarrow> Inr (to_pcm f body))
     else Inl No_data)"
    using assms(2,3,4) c by (subst decode_from_chunk [OF refl]) (simp_all only: fst_conv snd_conv take_all over Let_def)
  then show ?case using Nil(2) to_pcm_heard
    by (auto simp: c last_chunk_bytes_def simp del: ascii_bytes_simps split: sum.splits option.splits)
next
  case (Cons d cs)
  obtain ident body where d: "d = (ident, body)" by (cases d)
  have ok: "length ident = 4" "length body < 2 ^ 32" "list_all chunk_ok cs"
    using Cons.prems(1) by (simp_all add: d chunk_ok_def [of "(ident, body)"])
  define pad where "pad = (replicate (length body mod 2) 0 :: byte list)"
  define tail where "tail = concat (map chunk_bytes cs) @ last_chunk_bytes c n"
  define pre1 where "pre1 = pre @ chunk_bytes d"
  have b: "pre @ concat (map chunk_bytes (d # cs)) @ last_chunk_bytes c n = pre @ ident @ le_bytes 4 (length body) @ (body @ pad @ tail)"
    "pre @ ident @ le_bytes 4 (length body) @ (body @ pad @ tail) = pre1 @ tail"
    "length pre + 8 + length body + length body mod 2 = length pre1"
    using ok(1) by (simp_all add: pre1_def tail_def d chunk_bytes_def pad_def)
  have body: "take (length body) (body @ pad @ tail) = body" by simp
  have IH: "told (decode_from (pre1 @ tail) (length pre1) format') = read_chunks format' (cs @ [c])"
    if "case format' of None \<Rightarrow> True | Some f \<Rightarrow> supported_bits (wav_float f) (wav_bits f)" for format'
    unfolding tail_def using Cons.IH [OF ok(3) that] .
  have "decode_from (pre1 @ tail) (length pre) format = (if ident = ascii_bytes ''fmt '' then
       (case read_format body of Inl e \<Rightarrow> Inl e | Inr f \<Rightarrow> decode_from (pre1 @ tail) (length pre1) (Some f))
     else if ident = ascii_bytes ''data'' then
       (case format of None \<Rightarrow> Inl Data_before_fmt | Some f \<Rightarrow> Inr (to_pcm f body))
     else decode_from (pre1 @ tail) (length pre1) format)"
    using decode_from_chunk [OF b(2) [symmetric] ok(1,2), of format] by (simp only: b(3) Let_def body)
  then show ?case unfolding b(1) b(2) using IH Cons.prems(2) to_pcm_heard read_format_supported
    by (auto simp: d simp del: ascii_bytes_simps split: sum.splits option.splits)
qed

lemma decode_riff:
  assumes "length filler = 4"
  shows "decode (riff_header filler @ tail) = decode_from (riff_header filler @ tail) (length (riff_header filler)) None"
proof -
  have "length (riff_header filler) = 12" using assms by (simp add: riff_header_def)
  moreover have "take 4 (riff_header filler @ tail) = ascii_bytes ''RIFF''"
    "take 4 (drop 8 (riff_header filler @ tail)) = ascii_bytes ''WAVE''"
    using assms by (simp_all add: riff_header_def)
  ultimately show ?thesis by (simp add: decode_def)
qed

text \<open>C29: A WAV file is decoded by what its chunks say: for any sequence of chunks in a RIFF/WAVE file (the number of
  bytes in the header may be anything, unknown chunks come anywhere, chunks of odd length have their pad byte) the
  result is that of the first \<open>data\<close> chunk in the format of the last \<open>fmt\<close> chunk before it. Each whole sample of
  that chunk is its number in the file (unsigned for 8 bits, else in two's complement or IEEE floating point)
  brought to 16 bits, a partial one at the end is dropped, and rate and channels are those of the format; a missing
  or unusable chunk is the error it is. The last chunk may promise more bytes than the file has (streamed files do):
  what is there is read.\<close>

theorem wav_file_is_read:
  assumes "length filler = 4" "list_all chunk_ok cs" "length (fst c) = 4" "length (snd c) \<le> n" "n < 2 ^ 32"
  shows "told (decode (riff_header filler @ concat (map chunk_bytes cs) @ last_chunk_bytes c n)) = read_chunks None (cs @ [c])"
  using decode_chunks [OF assms(2-5), of None "riff_header filler"] decode_riff [OF assms(1)] by simp

text \<open>Mono, 16 bits, after a chunk of odd length; the size of the data was not known when it was written.\<close>

theorem wav_file_is_read_witness:
  "told (decode (riff_header [0, 0, 0, 0] @
     concat (map chunk_bytes [(ascii_bytes ''LIST'', [9, 9, 9]),
       (ascii_bytes ''fmt '', le_bytes 2 1 @ le_bytes 2 1 @ le_bytes 4 8000 @ le_bytes 4 16000 @ le_bytes 2 2 @ le_bytes 2 16)]) @
     last_chunk_bytes (ascii_bytes ''data'', [1, 0, 255, 255, 66]) (2 ^ 32 - 1))) = Inr ([1, - 1], 8000, 1)"
proof -
  let ?cs = "[(ascii_bytes ''LIST'', [9, 9, 9]),
    (ascii_bytes ''fmt '', le_bytes 2 1 @ le_bytes 2 1 @ le_bytes 4 8000 @ le_bytes 4 16000 @ le_bytes 2 2 @ le_bytes 2 16)]"
  have n: "4 = Suc (Suc (Suc (Suc 0)))" "2 = Suc (Suc 0)" by simp_all
  have "le_bytes 4 8000 = [64, 31, 0, 0]" "le_bytes 4 16000 = [128, 62, 0, 0]" "le_bytes 2 1 = [1, 0]" "le_bytes 2 2 = [2, 0]"
    "le_bytes 2 16 = [16, 0]"
    by (simp_all add: n(1) [THEN arg_cong [where f = le_bytes]] n(2) [THEN arg_cong [where f = le_bytes]])
  moreover have "read_format [1, 0, 1, 0, 64, 31, 0, 0, 128, 62, 0, 0, 2, 0, 16, 0] =
    Inr \<lparr>wav_channels = 1, wav_rate = 8000, wav_bits = 16, wav_float = False\<rparr>"
    by (simp add: read_format_def field_def)
  moreover have "sample_values \<lparr>wav_channels = 1, wav_rate = 8000, wav_bits = 16, wav_float = False\<rparr> [1, 0, 255, 255, 66] = [1, - 1]"
    by (simp add: sample_values_def sample_value_def signed_value_def upt_rec)
  ultimately have "read_chunks None (?cs @ [(ascii_bytes ''data'', [1, 0, 255, 255, 66])]) = Inr ([1, - 1], 8000, 1)" by simp
  then show ?thesis
    by (subst wav_file_is_read) (simp_all add: chunk_ok_def del: ascii_bytes_simps(1,2) append_Cons le_bytes.simps)
qed

text \<open>What \<open>encode\<close> writes decodes to the same samples, as long as their size fits its field.\<close>

lemma heard_eq: "heard p = heard q \<Longrightarrow> p = q"
proof -
  assume eq: "heard p = heard q"
  have "inj (sint :: 16 word \<Rightarrow> int)" by (rule injI) (rule iffD2 [OF word_eq_iff_signed])
  then show ?thesis using eq by (intro pcm_chunk.equality) (auto simp: heard_def inj_map_eq_map intro: unsigned_word_eqI)
qed

lemma as_chunks_concat: "0 < n \<Longrightarrow> list_all (\<lambda>b. length b = n) bs \<Longrightarrow> as_chunks n (concat bs) = bs"
proof (induction bs)
  case Nil
  then show ?case by (simp add: as_chunks.simps [of n "[]"])
next
  case (Cons b bs)
  then show ?case by (simp add: as_chunks.simps [of n "b @ concat bs"])
qed

lemma signed_value_16: "signed_value 16 (unat (s :: 16 word)) = sint s"
proof -
  have "unat s < 65536" using unsigned_less [of s, where ?'a = nat] by simp
  from sint_i16 [OF this] show ?thesis by (simp add: signed_value_def)
qed

lemma encode_decodes:
  assumes "pcm_channels pcm \<noteq> 0" "pcm_rate pcm \<noteq> 0" "2 * length (pcm_samples pcm) < 2 ^ 32"
  shows "decode (encode pcm) = Inr pcm"
proof -
  define f where "f = \<lparr>wav_channels = pcm_channels pcm, wav_rate = pcm_rate pcm, wav_bits = 16, wav_float = False\<rparr>"
  define fmt where "fmt = le_bytes 2 1 @ le_bytes 2 (unat (pcm_channels pcm)) @ le_bytes 4 (unat (pcm_rate pcm)) @
    le_bytes 4 (unat (pcm_rate pcm * ucast (pcm_channels pcm * 2))) @ le_bytes 2 (unat (pcm_channels pcm * 2)) @ le_bytes 2 16"
  define body where "body = concat (map (\<lambda>s. le_bytes 2 (unat s)) (pcm_samples pcm))"
  have len: "length body = 2 * length (pcm_samples pcm)"
    unfolding body_def by (induction "pcm_samples pcm") (simp_all add: length_concat comp_def sum_list_triv)
  then have n: "unat (word_of_nat (length (pcm_samples pcm) * 2) :: 32 word) = length body"
    using assms(3) by (simp add: unat_of_nat mult.commute del: of_nat_mult)
  have fields: "read_format fmt = Inr f"
  proof -
    have u: "unat (pcm_channels pcm) < 65536" "unat (pcm_rate pcm) < 4294967296"
      using unsigned_less [of "pcm_channels pcm", where ?'a = nat] unsigned_less [of "pcm_rate pcm", where ?'a = nat] by simp_all
    have "field fmt 0 2 = 1" "field fmt 2 2 = unat (pcm_channels pcm)" "field fmt 4 4 = unat (pcm_rate pcm)" "field fmt 14 2 = 16"
      "length fmt = 16"
      using u by (simp_all add: field_def fmt_def)
    then show ?thesis using assms(1,2) by (simp add: read_format_def f_def Let_def unat_gt_0)
  qed
  have "sample_values f body = map (sample_value f) (as_chunks 2 body)" by (simp add: sample_values_eq f_def)
  also have "as_chunks 2 body = map (\<lambda>s. le_bytes 2 (unat s)) (pcm_samples pcm)"
    unfolding body_def by (rule as_chunks_concat) (simp_all add: list_all_iff)
  finally have samples: "sample_values f body = map sint (pcm_samples pcm)"
    using unsigned_less [where ?'a = nat and ?'b = 16] by (simp add: sample_value_def f_def signed_value_16)
  have enc: "encode pcm = riff_header (le_bytes 4 (unat (36 + word_of_nat (length (pcm_samples pcm) * 2) :: 32 word))) @
      concat (map chunk_bytes [(ascii_bytes ''fmt '', fmt)]) @ last_chunk_bytes (ascii_bytes ''data'', body) (length body)"
    unfolding encode_def Let_def n
    by (simp add: riff_header_def chunk_bytes_def last_chunk_bytes_def fmt_def body_def FORMAT_PCM_def)
  have "told (decode (encode pcm)) = read_chunks None ([(ascii_bytes ''fmt '', fmt)] @ [(ascii_bytes ''data'', body)])"
    unfolding enc using assms(3) len
    by (subst decode_riff, simp) (intro decode_chunks; simp add: chunk_ok_def fmt_def)
  also have "\<dots> = Inr (heard pcm)" using fields samples by (simp add: heard_def f_def)
  finally show ?thesis using heard_eq by (auto simp: told_def split: sum.splits)
qed

end
