(* ===== verification/Platform.thy ===== *)
theory Platform imports Decision_Text Unicode Complex_Main begin

text \<open>
  The system around Sonara as the audio rules see it: \<open>crates/sonara-system/src/platform.rs\<close> (other apps' audio
  and media sessions), \<open>state_file.rs\<close> (the crash-restore files) and \<open>log.rs\<close> (the activity lines).

  The state of the system is one record. Every platform call that can fail, each write or removal of a file
  included, takes its own answer from \<open>answers\<close>: \<open>None\<close> is success, \<open>Some e\<close> a failure with the message \<open>e\<close>
  that changes nothing; when the list is used up, calls succeed. \<open>trail\<close> notes what Sonara did to the system, in order. A volume (\<open>f32\<close>) is a rational number,
  so its few sums and comparisons are exact.
\<close>

section \<open>Sessions, records and the state of the system\<close>

text \<open>A session is an object of the platform: \<open>sess\<close> is which one, the same over all enumerations.\<close>

record audio_session =
  sess :: nat
  s_pid :: nat
  s_ident :: str
  s_name :: str

record media_session =
  m_sess :: nat
  m_app :: str

record duck_record =
  r_pid :: "nat option"
  r_name :: "str option"
  original :: rat
  r_id :: "str option"
  r_ducked :: "rat option"
  r_at :: "nat option"

text \<open>What Sonara does to the system: a volume lowered or put back, a media session paused, asked to pause (the
  call ran out of time, it may pause later) or played, a crash-restore file written or removed or not (the
  call failed and the file stays as it is), an activity line.\<close>

datatype os_event =
    Lowered audio_session rat
  | Put_back audio_session rat
  | Media_paused media_session
  | Media_asked media_session
  | Media_played media_session
  | Duck_written "duck_record list"
  | Duck_unwritten
  | Duck_cleared
  | Duck_uncleared
  | Pause_written "str list" nat
  | Pause_unwritten
  | Pause_cleared
  | Pause_uncleared
  | Noted str

record os =
  apps :: "audio_session list"
  volumes :: "nat \<Rightarrow> rat"
  medias :: "media_session list"
  playing :: "nat \<Rightarrow> bool"
  answers :: "str option list"
  duck_file :: "duck_record list option"
  pause_file :: "(str list \<times> nat option) option"
  trail :: "os_event list"

definition emit :: "os_event \<Rightarrow> os \<Rightarrow> os" where
  "emit e w = w\<lparr>trail := trail w @ [e]\<rparr>"

section \<open>Calls\<close>

definition ask :: "os \<Rightarrow> str option \<times> os" where
  "ask w = (case answers w of [] \<Rightarrow> (None, w) | a # rest \<Rightarrow> (a, w\<lparr>answers := rest\<rparr>))"

text \<open>A call that may fail: what it reads, and what it does when it succeeds.\<close>

definition attempt :: "(os \<Rightarrow> 'a) \<Rightarrow> (os \<Rightarrow> os) \<Rightarrow> os \<Rightarrow> (str + 'a) \<times> os" where
  "attempt rd act w = (case ask w of (None, w1) \<Rightarrow> (Inr (rd w1), act w1) | (Some e, w1) \<Rightarrow> (Inl e, w1))"

definition audio_sessions :: "os \<Rightarrow> (str + audio_session list) \<times> os" where
  "audio_sessions w = attempt apps (\<lambda>w. w) w"

definition session_volume :: "audio_session \<Rightarrow> os \<Rightarrow> (str + rat) \<times> os" where
  "session_volume s w = attempt (\<lambda>w. volumes w (sess s)) (\<lambda>w. w) w"

text \<open>\<open>set_session_volume\<close>, with what the call is for (\<open>Lowered\<close> or \<open>Put_back\<close>).\<close>

definition set_session_volume :: "(audio_session \<Rightarrow> rat \<Rightarrow> os_event) \<Rightarrow> audio_session \<Rightarrow> rat \<Rightarrow> os \<Rightarrow> (str + unit) \<times> os" where
  "set_session_volume why s v w =
     attempt (\<lambda>w. ()) (\<lambda>w. emit (why s v) (w\<lparr>volumes := (volumes w)(sess s := v)\<rparr>)) w"

definition media_sessions :: "os \<Rightarrow> (str + media_session list) \<times> os" where
  "media_sessions w = attempt medias (\<lambda>w. w) w"

definition app_id :: "media_session \<Rightarrow> os \<Rightarrow> (str + str) \<times> os" where
  "app_id s w = attempt (\<lambda>w. m_app s) (\<lambda>w. w) w"

definition is_playing :: "media_session \<Rightarrow> os \<Rightarrow> (str + bool) \<times> os" where
  "is_playing s w = attempt (\<lambda>w. playing w (m_sess s)) (\<lambda>w. w) w"

definition TIMED_OUT :: str where
  "TIMED_OUT = lit ''timed out''"

definition timed_out :: "str \<Rightarrow> bool" where
  "timed_out e \<longleftrightarrow> take (length TIMED_OUT) e = TIMED_OUT"

definition pause_media :: "media_session \<Rightarrow> os \<Rightarrow> (str + unit) \<times> os" where
  "pause_media s w =
     (case ask w of
        (None, w1) \<Rightarrow> (Inr (), emit (Media_paused s) (w1\<lparr>playing := (playing w1)(m_sess s := False)\<rparr>))
      | (Some e, w1) \<Rightarrow> (Inl e, if timed_out e then emit (Media_asked s) w1 else w1))"

definition play_media :: "media_session \<Rightarrow> os \<Rightarrow> (str + unit) \<times> os" where
  "play_media s w =
     attempt (\<lambda>w. ()) (\<lambda>w. emit (Media_played s) (w\<lparr>playing := (playing w)(m_sess s := True)\<rparr>)) w"

section \<open>The crash-restore files\<close>

text \<open>\<open>state_file::write\<close> fails as a whole (a temp file, then a rename) and \<open>write_state\<close> only reports that on the
  standard error; \<open>clear\<close> does not look at its result.\<close>

definition file_op :: "os_event \<Rightarrow> os_event \<Rightarrow> (os \<Rightarrow> os) \<Rightarrow> os \<Rightarrow> os" where
  "file_op well ill act w = (case ask w of (None, w1) \<Rightarrow> emit well (act w1) | (Some e, w1) \<Rightarrow> emit ill w1)"

definition write_duck :: "duck_record list \<Rightarrow> os \<Rightarrow> os" where
  "write_duck rs w = file_op (Duck_written rs) Duck_unwritten (\<lambda>w. w\<lparr>duck_file := Some rs\<rparr>) w"

definition clear_duck :: "os \<Rightarrow> os" where
  "clear_duck w = file_op Duck_cleared Duck_uncleared (\<lambda>w. w\<lparr>duck_file := None\<rparr>) w"

definition write_pause :: "str list \<Rightarrow> nat \<Rightarrow> os \<Rightarrow> os" where
  "write_pause as t w = file_op (Pause_written as t) Pause_unwritten (\<lambda>w. w\<lparr>pause_file := Some (as, Some t)\<rparr>) w"

definition clear_pause :: "os \<Rightarrow> os" where
  "clear_pause w = file_op Pause_cleared Pause_uncleared (\<lambda>w. w\<lparr>pause_file := None\<rparr>) w"

section \<open>Activity lines\<close>

definition noted :: "str \<Rightarrow> os \<Rightarrow> os" where
  "noted line w = emit (Noted line) w"

text \<open>\<open>char::is_control\<close>: the category \<open>Cc\<close>.\<close>

definition is_control :: "nat \<Rightarrow> bool" where
  "is_control c \<longleftrightarrow> c < 32 \<or> (127 \<le> c \<and> c \<le> 159)"

definition quoted_char :: "nat \<Rightarrow> str" where
  "quoted_char c = (if c = 34 then [92, 34] else if c = 92 then [92, 92] else if is_control c then [32] else [c])"

definition log_value :: "str \<Rightarrow> str" where
  "log_value s =
     (if s \<noteq> [] \<and> \<not> list_ex (\<lambda>c. is_whitespace c \<or> c = 34 \<or> c = 61) s then s
      else [34] @ concat (map quoted_char s) @ [34])"

definition log_apps :: "str list \<Rightarrow> str" where
  "log_apps names = (if names = [] then lit ''none'' else join [44] (map log_value names))"

section \<open>What a call leaves unchanged\<close>

lemma emit_simps [simp]:
  "apps (emit e w) = apps w" "volumes (emit e w) = volumes w" "medias (emit e w) = medias w"
  "playing (emit e w) = playing w" "answers (emit e w) = answers w" "duck_file (emit e w) = duck_file w"
  "pause_file (emit e w) = pause_file w" "trail (emit e w) = trail w @ [e]"
  by (simp_all add: emit_def)

lemma noted_simps [simp]:
  "apps (noted l w) = apps w" "volumes (noted l w) = volumes w" "medias (noted l w) = medias w"
  "playing (noted l w) = playing w" "answers (noted l w) = answers w" "duck_file (noted l w) = duck_file w"
  "pause_file (noted l w) = pause_file w" "trail (noted l w) = trail w @ [Noted l]"
  by (simp_all add: noted_def)

text \<open>Whether the next call succeeds.\<close>

definition next_ok :: "os \<Rightarrow> bool" where
  "next_ok w \<longleftrightarrow> fst (ask w) = None"

lemma next_ok_simps [simp]: "answers w = [] \<Longrightarrow> next_ok w"
  by (simp add: next_ok_def ask_def)

lemma file_op_eq: "file_op well ill act w = (if next_ok w then emit well (act (snd (ask w))) else emit ill (snd (ask w)))"
  by (simp add: file_op_def next_ok_def case_prod_beta split: option.split)

lemma ask_sel [simp]:
  "apps (snd (ask w)) = apps w" "volumes (snd (ask w)) = volumes w" "medias (snd (ask w)) = medias w"
  "playing (snd (ask w)) = playing w" "duck_file (snd (ask w)) = duck_file w" "pause_file (snd (ask w)) = pause_file w"
  "trail (snd (ask w)) = trail w" "answers (snd (ask w)) = tl (answers w)"
  by (simp_all add: ask_def split: list.split)

lemma write_duck_simps [simp]:
  "apps (write_duck rs w) = apps w" "volumes (write_duck rs w) = volumes w" "medias (write_duck rs w) = medias w"
  "playing (write_duck rs w) = playing w" "answers (write_duck rs w) = tl (answers w)"
  "pause_file (write_duck rs w) = pause_file w"
  "duck_file (write_duck rs w) = (if next_ok w then Some rs else duck_file w)"
  "trail (write_duck rs w) = trail w @ [if next_ok w then Duck_written rs else Duck_unwritten]"
  by (simp_all add: write_duck_def file_op_eq)

lemma clear_duck_simps [simp]:
  "apps (clear_duck w) = apps w" "volumes (clear_duck w) = volumes w" "medias (clear_duck w) = medias w"
  "playing (clear_duck w) = playing w" "answers (clear_duck w) = tl (answers w)"
  "pause_file (clear_duck w) = pause_file w"
  "duck_file (clear_duck w) = (if next_ok w then None else duck_file w)"
  "trail (clear_duck w) = trail w @ [if next_ok w then Duck_cleared else Duck_uncleared]"
  by (simp_all add: clear_duck_def file_op_eq)

lemma write_pause_simps [simp]:
  "apps (write_pause xs t w) = apps w" "volumes (write_pause xs t w) = volumes w"
  "medias (write_pause xs t w) = medias w" "playing (write_pause xs t w) = playing w"
  "answers (write_pause xs t w) = tl (answers w)" "duck_file (write_pause xs t w) = duck_file w"
  "pause_file (write_pause xs t w) = (if next_ok w then Some (xs, Some t) else pause_file w)"
  "trail (write_pause xs t w) = trail w @ [if next_ok w then Pause_written xs t else Pause_unwritten]"
  by (simp_all add: write_pause_def file_op_eq)

lemma clear_pause_simps [simp]:
  "apps (clear_pause w) = apps w" "volumes (clear_pause w) = volumes w" "medias (clear_pause w) = medias w"
  "playing (clear_pause w) = playing w" "answers (clear_pause w) = tl (answers w)" "duck_file (clear_pause w) = duck_file w"
  "pause_file (clear_pause w) = (if next_ok w then None else pause_file w)"
  "trail (clear_pause w) = trail w @ [if next_ok w then Pause_cleared else Pause_uncleared]"
  by (simp_all add: clear_pause_def file_op_eq)

text \<open>What may change besides the answers used up: nothing for a call that only reads.\<close>

definition same_but_answers :: "os \<Rightarrow> os \<Rightarrow> bool" where
  "same_but_answers w w' \<longleftrightarrow> w' = w\<lparr>answers := answers w'\<rparr>"

lemma same_but_answers_refl [simp]: "same_but_answers w w"
  unfolding same_but_answers_def by (rule os.equality) simp_all

lemma same_but_answersD:
  assumes "same_but_answers w w'"
  shows "apps w' = apps w" "volumes w' = volumes w" "medias w' = medias w" "playing w' = playing w"
    "duck_file w' = duck_file w" "pause_file w' = pause_file w" "trail w' = trail w"
  using assms unfolding same_but_answers_def by (metis os.select_convs os.surjective os.update_convs(5))+

lemma ask_same: "ask w = (a, w') \<Longrightarrow> same_but_answers w w'"
  by (auto simp: ask_def same_but_answers_def split: list.splits)

lemma attempt_read: "attempt rd (\<lambda>w. w) w = (a, w') \<Longrightarrow> same_but_answers w w'"
  by (auto simp: attempt_def split: prod.splits option.splits dest: ask_same)

lemma attempt_act:
  assumes "attempt rd act w = (a, w')"
  obtains (failed) e where "a = Inl e" "same_but_answers w w'"
  | (succeeded) w1 where "a = Inr (rd w1)" "same_but_answers w w1" "w' = act w1"
  using assms by (auto simp: attempt_def split: prod.splits option.splits dest: ask_same)

lemmas platform_reads = audio_sessions_def session_volume_def media_sessions_def app_id_def is_playing_def

text \<open>The calls for one kind of session leave the other kind alone.\<close>

lemma read_frame [simp]:
  "playing (snd (attempt rd (\<lambda>w. w) w)) = playing w" "volumes (snd (attempt rd (\<lambda>w. w) w)) = volumes w"
  by (simp_all add: attempt_def ask_def split: list.split option.split)

lemma volume_frame [simp]: "playing (snd (set_session_volume why s v w)) = playing w"
  by (simp add: set_session_volume_def attempt_def ask_def split: list.split option.split)

lemma media_frame [simp]: "volumes (snd (pause_media s w)) = volumes w" "volumes (snd (play_media s w)) = volumes w"
  by (simp_all add: pause_media_def play_media_def attempt_def ask_def split: list.split option.split)

lemma foldl_keeps: "(\<And>acc x. g (f acc x) = g acc) \<Longrightarrow> g (foldl f acc xs) = g acc"
  by (induction xs arbitrary: acc) simp_all

text \<open>With no failure to come a call succeeds.\<close>

lemma attempt_succeeds: "answers w = [] \<Longrightarrow> attempt rd act w = (Inr (rd w), act w)"
  by (simp add: attempt_def ask_def)

end
