(* ===== verification/Ducking.thy ===== *)
theory Ducking imports Platform begin

text \<open>
  Other apps turned down while speech plays, from \<open>crates/sonara-system/src/ducking.rs\<close>: \<open>Ducker\<close> with its
  operations \<open>duck\<close>, \<open>restore\<close> and \<open>recover\<close>, and the sweep \<open>restore_records\<close>. \<open>now\<close> is \<open>now_secs()\<close>, one
  reading per operation.
\<close>

section \<open>Records\<close>

definition NEVER_DUCK :: "str list" where
  "NEVER_DUCK =
     [lit ''audiodg.exe'', lit ''steelseriessonar.exe'', lit ''voicemeeter.exe'', lit ''voicemeeter8.exe'',
      lit ''voicemeeter8x64.exe'']"

definition RECORD_MAX_AGE :: nat where
  "RECORD_MAX_AGE = 30 * 24 * 60 * 60"

text \<open>The level is the one the record was ducked to; one that is not known counts as a match.\<close>

definition at_duck_level :: "duck_record \<Rightarrow> str + rat \<Rightarrow> bool" where
  "at_duck_level r level = (case (r_ducked r, level) of (Some d, Inr v) \<Rightarrow> \<bar>d - v\<bar> < 1 / 100 | _ \<Rightarrow> True)"

definition app_name :: "duck_record \<Rightarrow> str" where
  "app_name r =
     (case r_name r of
        Some n \<Rightarrow> if n \<noteq> [] then n else (case r_pid r of Some p \<Rightarrow> dec p | None \<Rightarrow> [63])
      | None \<Rightarrow> (case r_pid r of Some p \<Rightarrow> dec p | None \<Rightarrow> [63]))"

text \<open>The names in order, each once.\<close>

fun add_new :: "'a list \<Rightarrow> 'a list \<Rightarrow> 'a list" where
  "add_new out [] = out"
| "add_new out (x # xs) = add_new (if x \<in> set out then out else out @ [x]) xs"

definition app_names :: "duck_record list \<Rightarrow> str list" where
  "app_names rs = add_new [] (map app_name rs)"

definition same_app :: "duck_record \<Rightarrow> nat \<Rightarrow> str \<Rightarrow> bool" where
  "same_app r p n \<longleftrightarrow> r_pid r = Some p \<and> (case r_name r of Some m \<Rightarrow> m | None \<Rightarrow> []) = n"

definition eq_ignore_ascii_case :: "str \<Rightarrow> str \<Rightarrow> bool" where
  "eq_ignore_ascii_case s t \<longleftrightarrow> to_ascii_lowercase s = to_ascii_lowercase t"

record ducker =
  duck_saved :: "(audio_session \<times> duck_record) list"
  duck_pending :: "duck_record list"
  ducked :: bool

definition new_ducker :: ducker where
  "new_ducker = \<lparr>duck_saved = [], duck_pending = [], ducked = False\<rparr>"

definition duck_records :: "ducker \<Rightarrow> duck_record list" where
  "duck_records d = duck_pending d @ map snd (duck_saved d)"

text \<open>The file holds the records, or is removed when there are none.\<close>

definition keep_records :: "duck_record list \<Rightarrow> os \<Rightarrow> os" where
  "keep_records rs w = (if rs = [] then clear_duck w else write_duck rs w)"

section \<open>Restoring by a fresh lookup\<close>

record sweep =
  restored :: "duck_record list"
  failed :: "duck_record list"
  waiting :: "duck_record list"
  expired :: "duck_record list"

definition left_over :: "sweep \<Rightarrow> duck_record list" where
  "left_over sw = failed sw @ waiting sw"

text \<open>One pass over the records: each that has no session yet takes the first free one that fits.\<close>

fun take_pass :: "(duck_record \<Rightarrow> nat \<Rightarrow> bool) \<Rightarrow> nat \<Rightarrow> (duck_record \<times> nat option) list \<Rightarrow> nat list \<Rightarrow>
    (duck_record \<times> nat option) list \<times> nat list" where
  "take_pass ok n [] used = ([], used)"
| "take_pass ok n ((r, p) # ps) used =
     (let (p', used') =
            (case p of
               Some j \<Rightarrow> (p, used)
             | None \<Rightarrow> (case find (\<lambda>j. j \<notin> set used \<and> ok r j) [0..<n] of
                         Some j \<Rightarrow> (Some j, j # used) | None \<Rightarrow> (None, used)));
          (qs, used'') = take_pass ok n ps used'
      in ((r, p') # qs, used''))"

text \<open>The three tests: the session's identity, its process id, the name of its process.\<close>

definition by_ident :: "audio_session list \<Rightarrow> duck_record \<Rightarrow> nat \<Rightarrow> bool" where
  "by_ident ss r j = (case r_id r of Some i \<Rightarrow> i \<noteq> [] \<and> i = s_ident (ss ! j) | None \<Rightarrow> False)"

definition by_pid :: "audio_session list \<Rightarrow> (str + rat) list \<Rightarrow> duck_record \<Rightarrow> nat \<Rightarrow> bool" where
  "by_pid ss levels r j \<longleftrightarrow>
     r_pid r = Some (s_pid (ss ! j)) \<and>
     (case r_name r of
        Some n \<Rightarrow> s_name (ss ! j) \<noteq> [] \<and> n \<noteq> [] \<longrightarrow> eq_ignore_ascii_case n (s_name (ss ! j))
      | None \<Rightarrow> True) \<and>
     at_duck_level r (levels ! j)"

definition by_name :: "audio_session list \<Rightarrow> (str + rat) list \<Rightarrow> duck_record \<Rightarrow> nat \<Rightarrow> bool" where
  "by_name ss levels r j \<longleftrightarrow>
     s_name (ss ! j) \<noteq> [] \<and>
     (case r_name r of Some n \<Rightarrow> eq_ignore_ascii_case n (s_name (ss ! j)) | None \<Rightarrow> False) \<and>
     at_duck_level r (levels ! j)"

definition pick_sessions :: "audio_session list \<Rightarrow> (str + rat) list \<Rightarrow> duck_record list \<Rightarrow>
    (duck_record \<times> nat option) list" where
  "pick_sessions ss levels rs =
     (let n = length ss;
          (p1, u1) = take_pass (by_ident ss) n (map (\<lambda>r. (r, None)) rs) [];
          (p2, u2) = take_pass (by_pid ss levels) n p1 u1;
          (p3, u3) = take_pass (by_name ss levels) n p2 u2
      in p3)"

text \<open>The volumes of the sessions, read one by one.\<close>

fun read_levels :: "audio_session list \<Rightarrow> os \<Rightarrow> (str + rat) list \<times> os" where
  "read_levels [] w = ([], w)"
| "read_levels (s # ss) w = (let (v, w1) = session_volume s w; (vs, w2) = read_levels ss w1 in (v # vs, w2))"

definition stamp :: "nat \<Rightarrow> duck_record \<Rightarrow> duck_record" where
  "stamp now r = (case r_at r of Some t \<Rightarrow> r | None \<Rightarrow> r\<lparr>r_at := Some now\<rparr>)"

definition too_old :: "nat \<Rightarrow> duck_record \<Rightarrow> bool" where
  "too_old now r \<longleftrightarrow> RECORD_MAX_AGE < now - (case r_at r of Some t \<Rightarrow> t | None \<Rightarrow> now)"

text \<open>What becomes of one record with the session it took.\<close>

definition settle :: "nat \<Rightarrow> audio_session list \<Rightarrow> (str + rat) list \<Rightarrow> sweep \<times> os \<Rightarrow> duck_record \<times> nat option \<Rightarrow>
    sweep \<times> os" where
  "settle now ss levels acc p =
     (let (out, w) = acc; r = stamp now (fst p) in
      case snd p of
        Some j \<Rightarrow>
          if \<not> at_duck_level r (levels ! j) then (out\<lparr>restored := restored out @ [r]\<rparr>, w)
          else (case set_session_volume Put_back (ss ! j) (original r) w of
                  (Inr _, w1) \<Rightarrow> (out\<lparr>restored := restored out @ [r]\<rparr>, w1)
                | (Inl _, w1) \<Rightarrow> if too_old now r then (out\<lparr>expired := expired out @ [r]\<rparr>, w1)
                                else (out\<lparr>failed := failed out @ [r]\<rparr>, w1))
      | None \<Rightarrow> if too_old now r then (out\<lparr>expired := expired out @ [r]\<rparr>, w)
                else (out\<lparr>waiting := waiting out @ [r]\<rparr>, w))"

definition no_sweep :: sweep where
  "no_sweep = \<lparr>restored = [], failed = [], waiting = [], expired = []\<rparr>"

definition restore_records :: "nat \<Rightarrow> duck_record list \<Rightarrow> os \<Rightarrow> (str + sweep) \<times> os" where
  "restore_records now rs w =
     (case audio_sessions w of
        (Inl e, w1) \<Rightarrow> (Inl e, w1)
      | (Inr ss, w1) \<Rightarrow>
          (let (levels, w2) = read_levels ss w1;
               (out, w3) = foldl (settle now ss levels) (no_sweep, w2) (pick_sessions ss levels rs)
           in (Inr out, w3)))"

section \<open>Ducking\<close>

text \<open>The elements whose index is not one of \<open>skip\<close> (\<open>Vec::retain\<close> with a counter).\<close>

definition leave_out :: "nat list \<Rightarrow> 'a list \<Rightarrow> 'a list" where
  "leave_out skip xs = map snd (filter (\<lambda>(i, x). i \<notin> set skip) (enumerate 0 xs))"

definition lowered_record :: "audio_session \<Rightarrow> rat \<Rightarrow> rat \<Rightarrow> nat \<Rightarrow> duck_record" where
  "lowered_record s orig target now =
     \<lparr>r_pid = Some (s_pid s), r_name = (if s_name s = [] then None else Some (s_name s)), original = orig,
      r_id = (if s_ident s = [] then None else Some (s_ident s)), r_ducked = Some target, r_at = Some now\<rparr>"

definition duck_failed_line :: "str \<Rightarrow> str \<Rightarrow> str" where
  "duck_failed_line name e = lit ''duck failed app='' @ log_value name @ lit '': '' @ e"

type_synonym duck_run = "(audio_session \<times> duck_record) list \<times> nat list \<times> os"

text \<open>One session of the enumeration: \<open>taken\<close> are the pending records a session took over.\<close>

definition duck_session :: "'u unicode_scheme \<Rightarrow> nat list \<Rightarrow> rat \<Rightarrow> nat \<Rightarrow> duck_record list \<Rightarrow> duck_run \<Rightarrow> audio_session \<Rightarrow>
    duck_run" where
  "duck_session U exclude target now pend acc s =
     (let (saved, taken, w) = acc in
      if s_pid s \<in> set exclude \<or> to_lowercase U (s_name s) \<in> set NEVER_DUCK then (saved, taken, w)
      else (case session_volume s w of
        (Inl e, w1) \<Rightarrow> (saved, taken, noted (duck_failed_line (s_name s) e) w1)
      | (Inr v, w1) \<Rightarrow>
          if v \<le> target + 5 / 1000 then (saved, taken, w1)
          else (let carried = find (\<lambda>i. i \<notin> set taken \<and> same_app (pend ! i) (s_pid s) (s_name s)) [0..<length pend];
                    orig = (case carried of Some i \<Rightarrow> original (pend ! i) | None \<Rightarrow> v);
                    rec = lowered_record s orig target now;
                    skip = taken @ (case carried of Some i \<Rightarrow> [i] | None \<Rightarrow> []);
                    w2 = write_duck (leave_out skip pend @ map snd saved @ [rec]) w1
                in (case set_session_volume Lowered s target w2 of
                      (Inl e, w3) \<Rightarrow> (saved, taken, noted (duck_failed_line (s_name s) e) w3)
                    | (Inr _, w3) \<Rightarrow> (saved @ [(s, rec)], skip, w3)))))"

text \<open>The pending records are tried first: an app that is back is ducked from its own level.\<close>

definition sweep_pending :: "nat \<Rightarrow> ducker \<Rightarrow> os \<Rightarrow> ducker \<times> os" where
  "sweep_pending now d w =
     (if duck_pending d = [] then (d, w)
      else (case restore_records now (duck_pending d) w of
              (Inr sw, w1) \<Rightarrow> (d\<lparr>duck_pending := left_over sw\<rparr>, w1)
            | (Inl e, w1) \<Rightarrow> (d, w1)))"

definition duck_target :: "nat \<Rightarrow> rat" where
  "duck_target level = of_nat (min level 100) / 100"

definition duck :: "'u unicode_scheme \<Rightarrow> nat list \<Rightarrow> nat \<Rightarrow> nat \<Rightarrow> ducker \<Rightarrow> os \<Rightarrow> ducker \<times> os" where
  "duck U exclude level now d w =
     (if ducked d then (d, w)
      else
        (let (d1, w1) = sweep_pending now d w;
             pend = duck_pending d1;
             (enumerated, saved, taken, w3) =
               (case audio_sessions w1 of
                  (Inr ss, w2) \<Rightarrow> (True, foldl (duck_session U exclude (duck_target level) now pend) ([], [], w2) ss)
                | (Inl e, w2) \<Rightarrow>
                    (False, [], [], noted (lit ''duck failed: cannot enumerate audio sessions: '' @ e) w2));
             kept = leave_out taken pend
         in (d1\<lparr>ducked := enumerated \<or> saved \<noteq> [], duck_pending := kept, duck_saved := saved\<rparr>,
             keep_records (kept @ map snd saved) w3)))"

section \<open>Restoring\<close>

text \<open>Each lowered session is put back through its own object; what fails is collected.\<close>

definition put_back :: "duck_record list \<times> os \<Rightarrow> audio_session \<times> duck_record \<Rightarrow> duck_record list \<times> os" where
  "put_back acc p =
     (let (out, w) = acc in
      case set_session_volume Put_back (fst p) (original (snd p)) w of
        (Inr _, w1) \<Rightarrow> (out, w1)
      | (Inl _, w1) \<Rightarrow> (out @ [snd p], w1))"

definition restore :: "nat \<Rightarrow> ducker \<Rightarrow> os \<Rightarrow> ducker \<times> os" where
  "restore now d w =
     (let (fails, w1) = foldl put_back (duck_pending d, w) (duck_saved d);
          (rest, w2) =
            (if fails = [] then ([], w1)
             else (case restore_records now fails w1 of
                     (Inr sw, w2) \<Rightarrow>
                       (left_over sw,
                        if failed sw = [] then w2
                        else noted (lit ''restore failed apps='' @ log_apps (app_names (failed sw))) w2)
                   | (Inl e, w2) \<Rightarrow>
                       (fails, noted (lit ''restore failed: cannot enumerate audio sessions: '' @ e) w2)))
      in (d\<lparr>duck_saved := [], duck_pending := rest, ducked := False\<rparr>, keep_records rest w2))"

text \<open>The startup sweep of the file; nothing when the file is missing or the sessions cannot be listed.\<close>

definition restore_from_state_file :: "nat \<Rightarrow> os \<Rightarrow> sweep option \<times> os" where
  "restore_from_state_file now w =
     (case duck_file w of
        None \<Rightarrow> (None, w)
      | Some rs \<Rightarrow>
          (case restore_records now rs w of
             (Inr sw, w1) \<Rightarrow> (Some sw, keep_records (left_over sw) w1)
           | (Inl e, w1) \<Rightarrow> (None, w1)))"

definition sweep_note :: "string \<Rightarrow> duck_record list \<Rightarrow> string \<Rightarrow> os \<Rightarrow> os" where
  "sweep_note what rs ending w =
     (if rs = [] then w
      else noted (lit ''startup sweep: '' @ lit what @ lit '' apps='' @ log_apps (app_names rs) @ lit ending) w)"

definition recover_ducked :: "nat \<Rightarrow> ducker \<Rightarrow> os \<Rightarrow> ducker \<times> os" where
  "recover_ducked now d w =
     (let (rest, w2) =
        (case restore_from_state_file now w of
           (Some sw, w1) \<Rightarrow>
             (left_over sw,
              sweep_note ''restore waits for'' (waiting sw) '' (not running)''
                (sweep_note ''restore failed'' (failed sw) []
                  (sweep_note ''restore'' (restored sw) [] w1)))
         | (None, w1) \<Rightarrow> (case duck_file w1 of Some rs \<Rightarrow> rs | None \<Rightarrow> [], w1))
      in (d\<lparr>duck_pending := add_new (duck_pending d) rest\<rparr>, w2))"

end
