(* ===== verification/Pausing.thy ===== *)
theory Pausing imports Ducking begin

text \<open>
  Other apps' media paused while speech plays and played again after, from
  \<open>crates/sonara-system/src/pausing.rs\<close>: \<open>MediaPauser\<close> with \<open>pause\<close>, \<open>resume\<close> and \<open>recover\<close>. \<open>now\<close> is \<open>now_secs()\<close>,
  one reading per operation.
\<close>

definition PENDING_MAX_AGE :: nat where
  "PENDING_MAX_AGE = 10 * 60"

definition pause_expired :: "nat \<Rightarrow> nat \<Rightarrow> bool" where
  "pause_expired t0 now \<longleftrightarrow> PENDING_MAX_AGE < now - t0"

text \<open>A resume still owed: the session, or only its app when a previous runtime left it.\<close>

record owed_resume =
  o_session :: "media_session option"
  o_app :: str
  o_at :: nat

record pauser =
  p_saved :: "(media_session \<times> str) list"
  p_pending :: "owed_resume list"
  since :: nat
  p_paused :: bool

definition new_pauser :: pauser where
  "new_pauser = \<lparr>p_saved = [], p_pending = [], since = 0, p_paused = False\<rparr>"

definition unique_apps :: "str list \<Rightarrow> str list" where
  "unique_apps as = add_new [] as"

definition paused_apps :: "pauser \<Rightarrow> str list" where
  "paused_apps p = unique_apps (map snd (p_saved p))"

text \<open>The oldest time of what is recorded, or now.\<close>

fun oldest :: "owed_resume list \<Rightarrow> nat \<Rightarrow> nat" where
  "oldest [] now = now"
| "oldest (o1 # os) now = foldl (\<lambda>m q. min m (o_at q)) (o_at o1) os"

text \<open>The file lists the apps that would have to be resumed (\<open>record\<close>).\<close>

definition record_apps :: "nat \<Rightarrow> owed_resume list \<Rightarrow> str list \<Rightarrow> os \<Rightarrow> os" where
  "record_apps now pend as w =
     (let all = unique_apps (map o_app pend @ as)
      in if all = [] then clear_pause w else write_pause all (oldest pend now) w)"

section \<open>Pausing\<close>

definition pause_failed_line :: "str \<Rightarrow> str \<Rightarrow> str" where
  "pause_failed_line app e = lit ''media pause failed app='' @ log_value app @ lit '': '' @ e"

definition pause_session :: "nat \<Rightarrow> owed_resume list \<Rightarrow> (media_session \<times> str) list \<times> os \<Rightarrow> media_session \<Rightarrow>
    (media_session \<times> str) list \<times> os" where
  "pause_session now pend acc s =
     (let (saved, w) = acc in
      case app_id s w of
        (Inl e, w1) \<Rightarrow> (saved, w1)
      | (Inr app, w1) \<Rightarrow>
          (case is_playing s w1 of
             (Inr True, w2) \<Rightarrow>
               (let w3 = record_apps now pend (map snd saved @ [app]) w2 in
                case pause_media s w3 of
                  (Inr _, w4) \<Rightarrow> (saved @ [(s, app)], w4)
                | (Inl e, w4) \<Rightarrow>
                    (let w5 = noted (pause_failed_line app e) w4
                     in if timed_out e then (saved @ [(s, app)], w5) else (saved, w5)))
           | (_, w2) \<Rightarrow> (saved, w2)))"

definition pause :: "nat \<Rightarrow> pauser \<Rightarrow> os \<Rightarrow> pauser \<times> os" where
  "pause now p w =
     (if p_paused p then (p, w)
      else (case media_sessions w of
              (Inl e, w1) \<Rightarrow> (p, noted (lit ''media pause failed: cannot list media sessions: '' @ e) w1)
            | (Inr ss, w1) \<Rightarrow>
                (let (saved, w2) = foldl (pause_session now (p_pending p)) ([], w1) ss
                 in (p\<lparr>p_paused := True, since := now, p_saved := saved\<rparr>,
                     record_apps now (p_pending p) (map snd saved) w2))))"

section \<open>Resuming\<close>

text \<open>One owed resume with its session: what plays already, or is gone, is left alone.\<close>

definition resume_session :: "owed_resume list \<times> owed_resume list \<times> os \<Rightarrow> owed_resume \<Rightarrow>
    owed_resume list \<times> owed_resume list \<times> os" where
  "resume_session acc q =
     (let (fails, by_app, w) = acc in
      case o_session q of
        None \<Rightarrow> (fails, by_app @ [q], w)
      | Some s \<Rightarrow>
          (case is_playing s w of
             (Inr False, w1) \<Rightarrow>
               (case play_media s w1 of
                  (Inr _, w2) \<Rightarrow> (fails, by_app, w2)
                | (Inl _, w2) \<Rightarrow> (fails @ [q], by_app, w2))
           | (_, w1) \<Rightarrow> (fails, by_app, w1)))"

text \<open>The paused live sessions of some apps (\<open>resume_apps\<close>); those whose play failed are returned.\<close>

definition resume_app_session :: "str list \<Rightarrow> (media_session \<times> str) list \<times> os \<Rightarrow> media_session \<Rightarrow>
    (media_session \<times> str) list \<times> os" where
  "resume_app_session wanted acc s =
     (let (fails, w) = acc in
      case app_id s w of
        (Inl e, w1) \<Rightarrow> (fails, w1)
      | (Inr app, w1) \<Rightarrow>
          if app \<notin> set wanted then (fails, w1)
          else (case is_playing s w1 of
                  (Inr True, w2) \<Rightarrow> (fails, w2)
                | (_, w2) \<Rightarrow>
                    (case play_media s w2 of
                       (Inr _, w3) \<Rightarrow> (fails, w3)
                     | (Inl _, w3) \<Rightarrow> (fails @ [(s, app)], w3))))"

definition resume_apps :: "str list \<Rightarrow> os \<Rightarrow> (str + (media_session \<times> str) list) \<times> os" where
  "resume_apps wanted w =
     (case media_sessions w of
        (Inl e, w1) \<Rightarrow> (Inl e, w1)
      | (Inr ss, w1) \<Rightarrow> (let (fails, w2) = foldl (resume_app_session wanted) ([], w1) ss in (Inr fails, w2)))"

definition owed_now :: "nat \<Rightarrow> pauser \<Rightarrow> owed_resume list" where
  "owed_now now p =
     map (\<lambda>(s, app). \<lparr>o_session = Some s, o_app = app, o_at = if p_paused p then since p else now\<rparr>) (p_saved p) @
     filter (\<lambda>q. \<not> pause_expired (o_at q) now) (p_pending p)"

definition resume_rest :: "nat \<Rightarrow> owed_resume list \<Rightarrow> owed_resume list \<Rightarrow> os \<Rightarrow> owed_resume list \<times> os" where
  "resume_rest now fails by_app w =
     (if by_app = [] then (fails, w)
      else (case resume_apps (unique_apps (map o_app by_app)) w of
              (Inr left, w1) \<Rightarrow>
                (fails @ map (\<lambda>(s, app). \<lparr>o_session = Some s, o_app = app, o_at = oldest by_app now\<rparr>) left, w1)
            | (Inl e, w1) \<Rightarrow>
                (fails @ by_app, noted (lit ''media resume failed: cannot list media sessions: '' @ e) w1)))"

text \<open>\<open>resume\<close>, with the apps it tried.\<close>

definition resume :: "nat \<Rightarrow> pauser \<Rightarrow> os \<Rightarrow> str list \<times> pauser \<times> os" where
  "resume now p w =
     (let todo = owed_now now p; wanted = unique_apps (map o_app todo) in
      if todo = [] then (wanted, p\<lparr>p_paused := False, p_saved := [], p_pending := []\<rparr>, clear_pause w)
      else
        (let (fails, by_app, w1) = foldl resume_session ([], [], w) todo;
             (rest, w2) = resume_rest now fails by_app w1;
             as = unique_apps (map o_app rest);
             w3 = (if rest = [] then clear_pause w2
                   else write_pause as (oldest rest now) (noted (lit ''media resume failed apps='' @ log_apps as) w2))
         in (wanted, p\<lparr>p_paused := False, p_saved := [], p_pending := rest\<rparr>, w3)))"

section \<open>The startup sweep\<close>

definition pause_sweep :: "nat \<Rightarrow> os \<Rightarrow> (str list \<times> (media_session \<times> str) list) option \<times> os" where
  "pause_sweep now w =
     (case pause_file w of
        None \<Rightarrow> (None, w)
      | Some (as, t) \<Rightarrow>
          (let t0 = (case t of Some t \<Rightarrow> t | None \<Rightarrow> now) in
           if as = [] \<or> pause_expired t0 now then (Some ([], []), clear_pause w)
           else (case resume_apps as w of
                   (Inl e, w1) \<Rightarrow> (None, w1)
                 | (Inr fails, w1) \<Rightarrow>
                     (let left = unique_apps (map snd fails)
                      in (Some (filter (\<lambda>a. a \<notin> set left) as, fails),
                          if left = [] then clear_pause w1 else write_pause left t0 w1)))))"

definition recover_paused :: "nat \<Rightarrow> pauser \<Rightarrow> os \<Rightarrow> pauser \<times> os" where
  "recover_paused now p w =
     (case pause_file w of
        None \<Rightarrow> (p, w)
      | Some (as, t) \<Rightarrow>
          (let t0 = (case t of Some t \<Rightarrow> t | None \<Rightarrow> now) in
           case pause_sweep now w of
             (Some (resumed, fails), w1) \<Rightarrow>
               (let w2 = (if resumed = [] then w1
                          else noted (lit ''startup sweep: media resume apps='' @ log_apps resumed) w1);
                    w3 = (if fails = [] then w2
                          else noted (lit ''startup sweep: media resume failed apps='' @
                                 log_apps (unique_apps (map snd fails))) w2)
                in (p\<lparr>p_pending := p_pending p @
                       map (\<lambda>(s, app). \<lparr>o_session = Some s, o_app = app, o_at = t0\<rparr>) fails\<rparr>, w3))
           | (None, w1) \<Rightarrow>
               if pause_expired t0 now then (p, w1)
               else (p\<lparr>p_pending := p_pending p @ map (\<lambda>a. \<lparr>o_session = None, o_app = a, o_at = t0\<rparr>) as\<rparr>, w1)))"

end
