(* ===== verification/Ducking_Claims.thy ===== *)
theory Ducking_Claims imports Ducking begin

text \<open>
  What \<open>Ducker\<close> promises (\<open>crates/sonara-system/src/ducking.rs\<close>), whatever calls of the platform fail: a session is on
  disk before its volume moves, every record is put back, kept or accounted for, and the original that is
  recorded is never a ducked level.
\<close>

section \<open>Calls that only put sessions back\<close>

definition is_put_back :: "os_event \<Rightarrow> bool" where
  "is_put_back e = (case e of Put_back s v \<Rightarrow> True | _ \<Rightarrow> False)"

definition is_lowered :: "os_event \<Rightarrow> bool" where
  "is_lowered e = (case e of Lowered s v \<Rightarrow> True | _ \<Rightarrow> False)"

text \<open>The volumes after some events.\<close>

fun volumes_after :: "(nat \<Rightarrow> rat) \<Rightarrow> os_event list \<Rightarrow> nat \<Rightarrow> rat" where
  "volumes_after vs [] = vs"
| "volumes_after vs (e # es) =
     volumes_after (case e of Lowered s v \<Rightarrow> vs(sess s := v) | Put_back s v \<Rightarrow> vs(sess s := v) | _ \<Rightarrow> vs) es"

lemma volumes_after_append [simp]: "volumes_after vs (es @ fs) = volumes_after (volumes_after vs es) fs"
  by (induction es arbitrary: vs) simp_all

definition news :: "os \<Rightarrow> os \<Rightarrow> os_event list" where
  "news w w' = drop (length (trail w)) (trail w')"

lemma news_eq: "trail w' = trail w @ es \<Longrightarrow> news w w' = es"
  by (simp add: news_def)

definition puts_back :: "os \<Rightarrow> os_event list \<Rightarrow> os \<Rightarrow> bool" where
  "puts_back w es w' \<longleftrightarrow>
     trail w' = trail w @ es \<and> list_all is_put_back es \<and> volumes w' = volumes_after (volumes w) es \<and>
     apps w' = apps w \<and> duck_file w' = duck_file w"

lemma puts_back_refl: "puts_back w [] w"
  by (simp add: puts_back_def)

lemma puts_back_trans: "puts_back w es w1 \<Longrightarrow> puts_back w1 fs w2 \<Longrightarrow> puts_back w (es @ fs) w2"
  by (simp add: puts_back_def)

lemma reads_put_back: "same_but_answers w w' \<Longrightarrow> puts_back w [] w'"
  by (simp add: puts_back_def same_but_answersD)

lemma set_volume_puts_back:
  assumes "set_session_volume Put_back s v w = (a, w')"
  shows "puts_back w (case a of Inr _ \<Rightarrow> [Put_back s v] | Inl _ \<Rightarrow> []) w'"
  using assms unfolding set_session_volume_def
proof (cases rule: attempt_act)
  case (failed e)
  then show ?thesis by (simp add: reads_put_back)
next
  case (succeeded w1)
  then show ?thesis by (simp add: puts_back_def same_but_answersD is_put_back_def)
qed

lemma volume_reads: "session_volume s w = (a, w') \<Longrightarrow> same_but_answers w w' \<and> (\<forall>v. a = Inr v \<longrightarrow> v = volumes w (sess s))"
  unfolding session_volume_def by (elim attempt_act) (auto simp: same_but_answersD)

lemma audio_sessions_reads: "audio_sessions w = (a, w') \<Longrightarrow> same_but_answers w w' \<and> (\<forall>ss. a = Inr ss \<longrightarrow> ss = apps w)"
  unfolding audio_sessions_def by (elim attempt_act) (auto simp: same_but_answersD)

lemma read_levels_reads:
  "read_levels ss w = (vs, w') \<Longrightarrow>
     puts_back w [] w' \<and> length vs = length ss \<and> (\<forall>j < length ss. \<forall>v. vs ! j = Inr v \<longrightarrow> v = volumes w (sess (ss ! j)))"
proof (induction ss arbitrary: w vs w')
  case Nil
  then show ?case by (simp add: puts_back_refl)
next
  case (Cons s ss)
  obtain a w1 where a: "session_volume s w = (a, w1)" by (cases "session_volume s w")
  obtain as w2 where as: "read_levels ss w1 = (as, w2)" by (cases "read_levels ss w1")
  have r: "puts_back w [] w1" "volumes w1 = volumes w" "\<forall>v. a = Inr v \<longrightarrow> v = volumes w (sess s)"
    using volume_reads [OF a] by (auto simp: reads_put_back same_but_answersD)
  have w': "vs = a # as" "w' = w2" using Cons.prems a as by simp_all
  have IH: "puts_back w1 [] w2" "length as = length ss"
    "\<forall>j < length ss. \<forall>v. as ! j = Inr v \<longrightarrow> v = volumes w (sess (ss ! j))"
    using Cons.IH [OF as] r(2) by auto
  show ?case using puts_back_trans [OF r(1) IH(1)] IH(2,3) r(3)
    by (auto simp: w' nth_Cons less_Suc_eq_0_disj)
qed

text \<open>What becomes of one record: the events, and where the record ends up.\<close>

definition outcome :: "nat \<Rightarrow> audio_session list \<Rightarrow> (str + rat) list \<Rightarrow> duck_record \<times> nat option \<Rightarrow> os_event list \<Rightarrow> sweep \<Rightarrow> bool" where
  "outcome now ss levels p es out \<longleftrightarrow>
     (let r = stamp now (fst p) in
      r \<in> set (left_over out) \<or> too_old now r \<or>
      (\<exists>j. snd p = Some j \<and> (\<not> at_duck_level r (levels ! j) \<or> Put_back (ss ! j) (original r) \<in> set es)))"

lemma settle_step:
  assumes "settle now ss levels (out, w) p = (out', w')"
  obtains es where "puts_back w es w'" "outcome now ss levels p es out'"
    "set (left_over out) \<subseteq> set (left_over out')"
    "set (left_over out') \<subseteq> insert (stamp now (fst p)) (set (left_over out))"
proof -
  define r where "r = stamp now (fst p)"
  consider (gone) "snd p = None" | (changed) j where "snd p = Some j" "\<not> at_duck_level r (levels ! j)"
    | (put) j where "snd p = Some j" "at_duck_level r (levels ! j)" by fastforce
  then show ?thesis
  proof cases
    case gone
    then have "w' = w" "outcome now ss levels p [] out'" "set (left_over out) \<subseteq> set (left_over out')"
      "set (left_over out') \<subseteq> insert r (set (left_over out))"
      using assms by (auto simp: settle_def Let_def r_def [symmetric] left_over_def outcome_def split: if_splits)
    then show ?thesis using that puts_back_refl unfolding r_def by blast
  next
    case (changed j)
    then have "w' = w" "outcome now ss levels p [] out'" "set (left_over out) \<subseteq> set (left_over out')"
      "set (left_over out') \<subseteq> insert r (set (left_over out))"
      using assms by (auto simp: settle_def Let_def r_def [symmetric] left_over_def outcome_def)
    then show ?thesis using that puts_back_refl unfolding r_def by blast
  next
    case (put j)
    obtain a w1 where a: "set_session_volume Put_back (ss ! j) (original r) w = (a, w1)" by fastforce
    note pb = set_volume_puts_back [OF a]
    have "w' = w1" "outcome now ss levels p (case a of Inr _ \<Rightarrow> [Put_back (ss ! j) (original r)] | Inl _ \<Rightarrow> []) out'"
      "set (left_over out) \<subseteq> set (left_over out')" "set (left_over out') \<subseteq> insert r (set (left_over out))"
      using assms put a
      by (auto simp: settle_def Let_def r_def [symmetric] left_over_def outcome_def split: sum.splits if_splits)
    then show ?thesis using that pb unfolding r_def by blast
  qed
qed

lemma outcome_mono:
  "outcome now ss levels p es out \<Longrightarrow> set es \<subseteq> set fs \<Longrightarrow> set (left_over out) \<subseteq> set (left_over out') \<Longrightarrow>
     outcome now ss levels p fs out'"
  by (auto simp: outcome_def Let_def)

lemma settle_all:
  assumes "foldl (settle now ss levels) (out, w) ps = (out', w')"
  obtains es where "puts_back w es w'" "\<forall>p \<in> set ps. outcome now ss levels p es out'"
    "set (left_over out) \<subseteq> set (left_over out')"
    "set (left_over out') \<subseteq> set (left_over out) \<union> stamp now ` fst ` set ps"
  using assms
proof (induction ps arbitrary: out w thesis)
  case Nil
  then show ?case using puts_back_refl by (metis (no_types, lifting) Un_upper1 empty_iff foldl_Nil list.set(1) order_refl prod.inject)
next
  case (Cons p ps)
  obtain out1 w1 where s: "settle now ss levels (out, w) p = (out1, w1)" by (cases "settle now ss levels (out, w) p")
  obtain es where es: "puts_back w es w1" "outcome now ss levels p es out1"
    "set (left_over out) \<subseteq> set (left_over out1)" "set (left_over out1) \<subseteq> insert (stamp now (fst p)) (set (left_over out))"
    using settle_step [OF s] .
  have f: "foldl (settle now ss levels) (out1, w1) ps = (out', w')" using Cons.prems(2) s by simp
  obtain fs where fs: "puts_back w1 fs w'" "\<forall>p \<in> set ps. outcome now ss levels p fs out'"
    "set (left_over out1) \<subseteq> set (left_over out')"
    "set (left_over out') \<subseteq> set (left_over out1) \<union> stamp now ` fst ` set ps"
    using Cons.IH [OF _ f] by blast
  have "outcome now ss levels q (es @ fs) out'" if "q \<in> set (p # ps)" for q
  proof (cases "q = p")
    case True
    then show ?thesis using outcome_mono [OF es(2) _ fs(3)] by simp
  next
    case False
    then show ?thesis using that fs(2) outcome_mono [of now ss levels q fs out' "es @ fs" out'] by simp
  qed
  moreover have "set (left_over out) \<subseteq> set (left_over out')" using es(3) fs(3) by blast
  moreover have "set (left_over out') \<subseteq> set (left_over out) \<union> stamp now ` fst ` set (p # ps)" using es(4) fs(4) by auto
  ultimately show ?case using Cons.prems(1) puts_back_trans [OF es(1) fs(1)] by blast
qed

section \<open>Which session a record takes\<close>

definition own :: "duck_record \<Rightarrow> audio_session \<Rightarrow> bool" where
  "own r s \<longleftrightarrow> (case r_id r of Some i \<Rightarrow> i \<noteq> [] \<and> i = s_ident s | None \<Rightarrow> False)"

text \<open>A session the record may be restored to: its own, one of its process, one of its app.\<close>

definition belongs :: "duck_record \<Rightarrow> audio_session \<Rightarrow> bool" where
  "belongs r s \<longleftrightarrow>
     own r s \<or>
     r_pid r = Some (s_pid s) \<and>
       (case r_name r of Some n \<Rightarrow> n = [] \<or> s_name s = [] \<or> eq_ignore_ascii_case n (s_name s) | None \<Rightarrow> True) \<or>
     s_name s \<noteq> [] \<and> (case r_name r of Some n \<Rightarrow> eq_ignore_ascii_case n (s_name s) | None \<Rightarrow> False)"

text \<open>A level that is not the one the record was ducked to.\<close>

definition away :: "duck_record \<Rightarrow> rat \<Rightarrow> bool" where
  "away r v \<longleftrightarrow> (case r_ducked r of Some d \<Rightarrow> 1 / 100 \<le> \<bar>d - v\<bar> | None \<Rightarrow> False)"

lemma stamp_simps [simp]:
  "original (stamp now r) = original r" "r_id (stamp now r) = r_id r" "r_ducked (stamp now r) = r_ducked r"
  "r_pid (stamp now r) = r_pid r" "r_name (stamp now r) = r_name r" "too_old now (stamp now r) = too_old now r"
  by (auto simp: stamp_def too_old_def split: option.splits)

lemma take_pass_fst: "map fst (fst (take_pass ok n ps used)) = map fst ps"
  by (induction ok n ps used rule: take_pass.induct) (auto split: prod.splits option.splits)

lemma take_pass_picks:
  "(r, Some j) \<in> set (fst (take_pass ok n ps used)) \<Longrightarrow> (r, Some j) \<in> set ps \<or> ok r j \<and> j < n"
proof (induction ok n ps used rule: take_pass.induct)
  case (2 ok n r' p ps used)
  show ?case
  proof (cases p)
    case (Some k)
    then show ?thesis using 2 by (auto split: prod.splits)
  next
    case None
    show ?thesis
    proof (cases "find (\<lambda>j. j \<notin> set used \<and> ok r' j) [0..<n]")
      case n: None
      then show ?thesis using 2 None by (auto split: prod.splits)
    next
      case s: (Some k)
      then have "ok r' k" "k < n" by (auto simp: find_Some_iff)
      then show ?thesis using 2 None s by (auto split: prod.splits)
    qed
  qed
qed simp

lemma pick_sessions_fst: "map fst (pick_sessions ss levels rs) = rs"
proof -
  obtain p1 u1 where 1: "take_pass (by_ident ss) (length ss) (map (\<lambda>r. (r, None)) rs) [] = (p1, u1)" by fastforce
  obtain p2 u2 where 2: "take_pass (by_pid ss levels) (length ss) p1 u1 = (p2, u2)" by fastforce
  obtain p3 u3 where 3: "take_pass (by_name ss levels) (length ss) p2 u2 = (p3, u3)" by fastforce
  show ?thesis using take_pass_fst [of "by_ident ss" "length ss" "map (\<lambda>r. (r, None)) rs" "[]"]
      take_pass_fst [of "by_pid ss levels" "length ss" p1 u1] take_pass_fst [of "by_name ss levels" "length ss" p2 u2]
    by (simp add: pick_sessions_def Let_def 1 2 3 comp_def)
qed

lemma pick_sessions_picks:
  assumes "(r, Some j) \<in> set (pick_sessions ss levels rs)"
  shows "j < length ss \<and> (by_ident ss r j \<or> by_pid ss levels r j \<or> by_name ss levels r j)"
proof -
  obtain p1 u1 where 1: "take_pass (by_ident ss) (length ss) (map (\<lambda>r. (r, None)) rs) [] = (p1, u1)" by fastforce
  obtain p2 u2 where 2: "take_pass (by_pid ss levels) (length ss) p1 u1 = (p2, u2)" by fastforce
  obtain p3 u3 where 3: "take_pass (by_name ss levels) (length ss) p2 u2 = (p3, u3)" by fastforce
  have "(r, Some j) \<in> set (fst (take_pass (by_name ss levels) (length ss) p2 u2))"
    using assms by (simp add: pick_sessions_def Let_def 1 2 3)
  then show ?thesis
    using take_pass_picks [of r j "by_name ss levels" "length ss" p2 u2]
      take_pass_picks [of r j "by_pid ss levels" "length ss" p1 u1]
      take_pass_picks [of r j "by_ident ss" "length ss" "map (\<lambda>r. (r, None)) rs" "[]"]
    by (auto simp: 1 2)
qed

text \<open>A record after a sweep of the live sessions: kept, dropped by age, put back, or changed since.\<close>

definition swept :: "nat \<Rightarrow> os \<Rightarrow> os_event list \<Rightarrow> duck_record list \<Rightarrow> duck_record \<Rightarrow> bool" where
  "swept now w es kept r \<longleftrightarrow>
     stamp now r \<in> set kept \<or> too_old now r \<or>
     (\<exists>s \<in> set (apps w). belongs r s \<and> Put_back s (original r) \<in> set es) \<or>
     (\<exists>s \<in> set (apps w). own r s \<and> away r (volumes w (sess s)))"

lemma by_belongs:
  "by_ident ss r j \<or> by_pid ss levels r j \<or> by_name ss levels r j \<Longrightarrow> belongs r (ss ! j)"
  by (auto simp: by_ident_def by_pid_def by_name_def belongs_def own_def split: option.splits)

lemma outcome_swept:
  assumes o: "outcome now (apps w) levels (r, p) es out" and p: "(r, p) \<in> set (pick_sessions (apps w) levels rs)"
    and len: "length levels = length (apps w)"
    and lev: "\<forall>j < length (apps w). \<forall>v. levels ! j = Inr v \<longrightarrow> v = volumes w (sess (apps w ! j))"
  shows "swept now w es (left_over out) r"
proof -
  consider "stamp now r \<in> set (left_over out) \<or> too_old now r" | j where "p = Some j" "\<not> at_duck_level r (levels ! j)"
    | j where "p = Some j" "Put_back (apps w ! j) (original r) \<in> set es"
    using o by (auto simp: outcome_def Let_def at_duck_level_def)
  then show ?thesis
  proof cases
    case 1
    then show ?thesis by (auto simp: swept_def)
  next
    case (2 j)
    then have j: "j < length (apps w)" and "by_ident (apps w) r j"
      using pick_sessions_picks [of r j "apps w" levels rs] p by (auto simp: by_pid_def by_name_def)
    then have "own r (apps w ! j)" by (simp add: by_ident_def own_def)
    moreover have "away r (volumes w (sess (apps w ! j)))"
      using 2(2) lev j by (auto simp: at_duck_level_def away_def split: option.splits sum.splits)
    ultimately show ?thesis using j unfolding swept_def by (meson nth_mem)
  next
    case (3 j)
    then have "j < length (apps w)" "belongs r (apps w ! j)"
      using pick_sessions_picks [of r j "apps w" levels rs] p by_belongs by auto
    then show ?thesis using 3(2) unfolding swept_def by (meson nth_mem)
  qed
qed

lemma restore_records_sweeps:
  assumes "restore_records now rs w = (res, w')"
  obtains (listed) sw es where "res = Inr sw" "puts_back w es w'" "\<And>r. r \<in> set rs \<Longrightarrow> swept now w es (left_over sw) r"
      "set (left_over sw) \<subseteq> stamp now ` set rs"
  | (unlisted) e where "res = Inl e" "puts_back w [] w'"
proof -
  obtain a w1 where a: "audio_sessions w = (a, w1)" by fastforce
  have r: "puts_back w [] w1" "apps w1 = apps w" "volumes w1 = volumes w" "\<forall>ss. a = Inr ss \<longrightarrow> ss = apps w"
    using audio_sessions_reads [OF a] by (auto simp: reads_put_back same_but_answersD)
  show thesis
  proof (cases a)
    case (Inl e)
    then have "res = Inl e" "w' = w1" using assms a by (simp_all add: restore_records_def)
    then show ?thesis using unlisted r(1) by simp
  next
    case (Inr ss)
    then have ss: "ss = apps w" using r(4) by simp
    obtain levels w2 where l: "read_levels ss w1 = (levels, w2)" by fastforce
    note rl = read_levels_reads [OF l]
    obtain sw w3 where f: "foldl (settle now ss levels) (no_sweep, w2) (pick_sessions ss levels rs) = (sw, w3)"
      by fastforce
    have res: "res = Inr sw" "w' = w3" using assms a Inr l f by (simp_all add: restore_records_def)
    obtain es where es: "puts_back w2 es w3"
      "\<forall>p \<in> set (pick_sessions ss levels rs). outcome now ss levels p es sw"
      "set (left_over no_sweep) \<subseteq> set (left_over sw)"
      "set (left_over sw) \<subseteq> set (left_over no_sweep) \<union> stamp now ` fst ` set (pick_sessions ss levels rs)"
      using settle_all [OF f] by blast
    have fst_set: "fst ` set (pick_sessions ss levels rs) = set rs" by (metis pick_sessions_fst set_map)
    have pb: "puts_back w es w'" using puts_back_trans [OF puts_back_trans [OF r(1) conjunct1 [OF rl]] es(1)] res by simp
    have "swept now w es (left_over sw) q" if q: "q \<in> set rs" for q
    proof -
      obtain p where p: "(q, p) \<in> set (pick_sessions ss levels rs)" using q fst_set by fastforce
      have "apps w2 = apps w" "volumes w2 = volumes w" using rl r(2,3) by (simp_all add: puts_back_def)
      moreover have "swept now w2 es (left_over sw) q"
      proof (rule outcome_swept)
        show "outcome now (apps w2) levels (q, p) es sw" using es(2) p ss calculation(1) by fastforce
        show "(q, p) \<in> set (pick_sessions (apps w2) levels rs)" using p ss calculation(1) by simp
      qed (use rl r(3) ss calculation in simp_all)
      ultimately show ?thesis by (simp add: swept_def)
    qed
    moreover have "set (left_over sw) \<subseteq> stamp now ` set rs"
      using es(4) fst_set by (simp add: left_over_def no_sweep_def)
    ultimately show ?thesis using listed [OF res(1) pb] by blast
  qed
qed

section \<open>Every record is accounted for\<close>

definition accounted :: "nat \<Rightarrow> os \<Rightarrow> (audio_session \<times> duck_record) list \<Rightarrow> os_event list \<Rightarrow> duck_record list \<Rightarrow>
    duck_record \<Rightarrow> bool" where
  "accounted now w saved es kept r \<longleftrightarrow>
     r \<in> set kept \<or> stamp now r \<in> set kept \<or> too_old now r \<or>
     (\<exists>s. Put_back s (original r) \<in> set es \<and> ((s, r) \<in> set saved \<or> s \<in> set (apps w) \<and> belongs r s)) \<or>
     (\<exists>s \<in> set (apps w). own r s \<and> (\<exists>n. away r (volumes_after (volumes w) (take n es) (sess s))))"

lemma put_back_all:
  assumes "foldl put_back (out, w) ps = (out', w')"
  obtains es where "puts_back w es w'" "\<And>s r. (s, r) \<in> set ps \<Longrightarrow> r \<in> set out' \<or> Put_back s (original r) \<in> set es"
    "set out \<subseteq> set out'" "set out' \<subseteq> set out \<union> snd ` set ps"
  using assms
proof (induction ps arbitrary: out w thesis)
  case Nil
  then show ?case using puts_back_refl by auto
next
  case (Cons p ps)
  obtain s r where p: "p = (s, r)" by (cases p)
  obtain a w1 where a: "set_session_volume Put_back s (original r) w = (a, w1)" by fastforce
  define out1 where "out1 = (case a of Inr u \<Rightarrow> out | Inl e \<Rightarrow> out @ [r])"
  have "put_back (out, w) p = (out1, w1)" using a p by (auto simp: put_back_def out1_def split: sum.splits)
  then have f: "foldl put_back (out1, w1) ps = (out', w')" using Cons.prems(2) by simp
  note pb = set_volume_puts_back [OF a]
  obtain fs where fs: "puts_back w1 fs w'" "\<And>s r. (s, r) \<in> set ps \<Longrightarrow> r \<in> set out' \<or> Put_back s (original r) \<in> set fs"
    "set out1 \<subseteq> set out'" "set out' \<subseteq> set out1 \<union> snd ` set ps"
    using Cons.IH [OF _ f] by blast
  have "r \<in> set out' \<or> a = Inr ()" using fs(3) by (auto simp: out1_def split: sum.splits)
  moreover have "set out \<subseteq> set out1" "set out1 \<subseteq> insert r (set out)" by (auto simp: out1_def split: sum.splits)
  moreover note fs(2-4)
  ultimately show ?case
    using p by (intro Cons.prems(1) [OF puts_back_trans [OF pb fs(1)]]) (auto split: sum.splits)
qed

lemma restore_cases:
  assumes "restore now d w = (d', w')"
  obtains es extra where "trail w' = trail w @ es @ extra" "duck_saved d' = []" "\<not> ducked d'"
    "list_all is_put_back es" "apps w' = apps w"
    "duck_file w' = (if duck_pending d' = [] then None else Some (duck_pending d')) \<or> duck_file w' = duck_file w"
    "\<And>r. r \<in> set (duck_records d) \<Longrightarrow> accounted now w (duck_saved d) es (duck_pending d') r"
    "set (duck_pending d') \<subseteq> set (duck_records d) \<union> stamp now ` set (duck_records d)"
    "volumes w' = volumes_after (volumes w) es"
proof -
  obtain fails w1 where f: "foldl put_back (duck_pending d, w) (duck_saved d) = (fails, w1)" by fastforce
  obtain es where es: "puts_back w es w1"
    "\<And>s r. (s, r) \<in> set (duck_saved d) \<Longrightarrow> r \<in> set fails \<or> Put_back s (original r) \<in> set es"
    "set (duck_pending d) \<subseteq> set fails" "set fails \<subseteq> set (duck_pending d) \<union> snd ` set (duck_saved d)"
    using put_back_all [OF f] by blast
  have first: "accounted now w (duck_saved d) fs kept r"
    if "r \<in> set (duck_records d)" "r \<notin> set fails" "set es \<subseteq> set fs" for r fs kept
  proof -
    note h = that
    obtain s where "(s, r) \<in> set (duck_saved d)" using h(1,2) es(3) by (auto simp: duck_records_def)
    then show ?thesis using es(2) h(2,3) unfolding accounted_def by blast
  qed
  have sub: "set fails \<subseteq> set (duck_records d)" using es(4) by (auto simp: duck_records_def)
  obtain rest w2 where rw: "(if fails = [] then ([], w1)
             else (case restore_records now fails w1 of
                     (Inr sw, w2) \<Rightarrow>
                       (left_over sw,
                        if failed sw = [] then w2
                        else noted (lit ''restore failed apps='' @ log_apps (app_names (failed sw))) w2)
                   | (Inl e, w2) \<Rightarrow>
                       (fails, noted (lit ''restore failed: cannot enumerate audio sessions: '' @ e) w2))) = (rest, w2)"
    by fastforce
  have res: "d' = d\<lparr>duck_saved := [], duck_pending := rest, ducked := False\<rparr>" "w' = keep_records rest w2"
    using assms unfolding restore_def f Let_def prod.case rw by simp_all
  have "\<exists>fs extra. trail w2 = trail w1 @ fs @ extra \<and> list_all is_put_back fs \<and>
      duck_file w2 = duck_file w1 \<and> apps w2 = apps w1 \<and> volumes w2 = volumes_after (volumes w1) fs \<and>
      set rest \<subseteq> set fails \<union> stamp now ` set fails \<and> (\<forall>r \<in> set fails. r \<in> set rest \<or> swept now w1 fs rest r)"
  proof (cases "fails = []")
    case True
    then have "rest = []" "w2 = w1" using rw by simp_all
    then show ?thesis using True by (intro exI [of _ "[]"]) simp
  next
    case False
    obtain ans w3 where rr: "restore_records now fails w1 = (ans, w3)" by fastforce
    from rr show ?thesis
    proof (cases rule: restore_records_sweeps)
      case (listed sw fs)
      then have "rest = left_over sw" "w2 = (if failed sw = [] then w3
                        else noted (lit ''restore failed apps='' @ log_apps (app_names (failed sw))) w3)"
        using rw False rr by simp_all
      then show ?thesis using listed
        by (intro exI [of _ fs] exI [of _ "if failed sw = [] then []
              else [Noted (lit ''restore failed apps='' @ log_apps (app_names (failed sw)))]"])
          (auto simp: puts_back_def)
    next
      case (unlisted e)
      then have "rest = fails" "w2 = noted (lit ''restore failed: cannot enumerate audio sessions: '' @ e) w3"
        using rw False rr by simp_all
      then show ?thesis using unlisted
        by (intro exI [of _ "[]"] exI [of _ "[Noted (lit ''restore failed: cannot enumerate audio sessions: '' @ e)]"])
          (simp add: puts_back_def)
    qed
  qed
  then obtain fs extra where fs: "trail w2 = trail w1 @ fs @ extra" "list_all is_put_back fs"
    "duck_file w2 = duck_file w1" "apps w2 = apps w1" "volumes w2 = volumes_after (volumes w1) fs"
    "set rest \<subseteq> set fails \<union> stamp now ` set fails" "\<And>r. r \<in> set fails \<Longrightarrow> r \<in> set rest \<or> swept now w1 fs rest r"
    by blast
  have acc: "accounted now w (duck_saved d) (es @ fs) rest r" if r: "r \<in> set (duck_records d)" for r
  proof (cases "r \<in> set fails")
    case False
    then show ?thesis using first r by simp
  next
    case True
    have w1: "apps w1 = apps w" "volumes w1 = volumes_after (volumes w) (take (length es) (es @ fs))"
      using es(1) by (simp_all add: puts_back_def)
    show ?thesis using fs(7) [OF True] unfolding swept_def accounted_def w1
      by (metis Un_iff set_append)
  qed
  have rest: "set rest \<subseteq> set (duck_records d) \<union> stamp now ` set (duck_records d)" using fs(6) sub by blast
  show thesis
    by (rule that [of "es @ fs" "extra @ [if rest = [] then if next_ok w2 then Duck_cleared else Duck_uncleared
          else if next_ok w2 then Duck_written rest else Duck_unwritten]"])
      (use es(1) fs(1-5) res acc rest in \<open>auto simp: puts_back_def keep_records_def\<close>)
qed

lemma accounted_mono: "accounted now w saved es kept r \<Longrightarrow> accounted now w saved (es @ fs) kept r"
proof -
  assume a: "accounted now w saved es kept r"
  have "\<exists>m. away r (volumes_after (volumes w) (take m (es @ fs)) (sess s))"
    if "away r (volumes_after (volumes w) (take n es) (sess s))" for s n
  proof (cases "n \<le> length es")
    case True
    then show ?thesis using that by (intro exI [of _ n]) simp
  next
    case False
    then show ?thesis using that by (intro exI [of _ "length es"]) simp
  qed
  then show ?thesis using a unfolding accounted_def by fastforce
qed

text \<open>C32: Restoring loses no record, whatever platform calls fail: each record of a session lowered or pending is still
  pending afterwards (with a time), or it is older than 30 days, or a session that belongs to it was set to its
  original volume, or its own session is there at a level that is not the ducked one, so somebody changed it.\<close>

theorem no_record_is_lost:
  "let (d', w') = restore now d w in
     list_all (accounted now w (duck_saved d) (news w w') (duck_pending d')) (duck_records d) \<and>
     duck_saved d' = [] \<and> \<not> ducked d'"
proof -
  obtain d' w' where r: "restore now d w = (d', w')" by fastforce
  obtain es extra where e: "trail w' = trail w @ es @ extra" "duck_saved d' = []" "\<not> ducked d'"
    "\<And>r. r \<in> set (duck_records d) \<Longrightarrow> accounted now w (duck_saved d) es (duck_pending d') r"
    using restore_cases [OF r] by metis
  show ?thesis using e(2-4) by (auto simp: r news_eq [OF e(1)] list_all_iff intro: accounted_mono)
qed

end
