(* ===== verification/Ducking_Safety.thy ===== *)
theory Ducking_Safety imports Ducking_Claims begin

text \<open>
  Ducking is safe against a crash at any moment, never takes a ducked level for an original, and a restore
  undoes it (\<open>crates/sonara-system/src/ducking.rs\<close>).
\<close>

section \<open>The crash-restore file along the way\<close>

definition file_records :: "os \<Rightarrow> duck_record list" where
  "file_records w = (case duck_file w of Some rs \<Rightarrow> rs | None \<Rightarrow> [])"

text \<open>
  A record that brings session \<open>s\<close> back from the level \<open>v\<close>: it names the session by all it has, and its original is the
  volume \<open>v0\<close> the session had or, when records of the same app are pending, the original of one of them (the
  code takes that for the true level of the app, whichever of its sessions the record was of).
\<close>

definition describes :: "duck_record list \<Rightarrow> rat \<Rightarrow> audio_session \<Rightarrow> rat \<Rightarrow> duck_record \<Rightarrow> bool" where
  "describes pend v0 s v r \<longleftrightarrow>
     r_pid r = Some (s_pid s) \<and> r_name r = (if s_name s = [] then None else Some (s_name s)) \<and>
     r_id r = (if s_ident s = [] then None else Some (s_ident s)) \<and> r_ducked r = Some v \<and> r_at r \<noteq> None \<and>
     (original r = v0 \<or> list_ex (\<lambda>p. same_app p (s_pid s) (s_name s) \<and> original p = original r) pend)"

text \<open>The sessions lowered so far, each with the volume it had and the level, have a record that describes them.\<close>

definition covered :: "duck_record list \<Rightarrow> (audio_session \<times> rat \<times> rat) list \<Rightarrow> duck_record list \<Rightarrow> bool" where
  "covered pend owed rs \<longleftrightarrow> list_all (\<lambda>(s, v0, v). list_ex (describes pend v0 s v) rs) owed"

text \<open>
  What was done, event by event, with the volumes, the content of the file, whether the last write of it
  failed, and the sessions lowered so far. A volume moves only when the file describes the session, unless
  the write just before failed; every later write that succeeds describes all sessions lowered so far, also
  those a failed write left out; the file is removed only when nothing was lowered.
\<close>

type_synonym crash_state = "(nat \<Rightarrow> rat) \<times> duck_record list \<times> bool \<times> (audio_session \<times> rat \<times> rat) list"

fun crash_walk :: "duck_record list \<Rightarrow> crash_state \<Rightarrow> os_event list \<Rightarrow> crash_state option" where
  "crash_walk pend st [] = Some st"
| "crash_walk pend (was, file, blind, owed) (e # es) =
     (case e of
        Duck_written rs \<Rightarrow> if covered pend owed rs then crash_walk pend (was, rs, False, owed) es else None
      | Duck_unwritten \<Rightarrow> crash_walk pend (was, file, True, owed) es
      | Duck_cleared \<Rightarrow> if owed = [] then crash_walk pend (was, [], False, owed) es else None
      | Lowered s v \<Rightarrow>
          if blind \<or> list_ex (describes pend (was (sess s)) s v) file
          then crash_walk pend (was(sess s := v), file, blind, (s, was (sess s), v) # owed) es
          else None
      | Put_back s v \<Rightarrow> crash_walk pend (was(sess s := v), file, blind, owed) es
      | _ \<Rightarrow> crash_walk pend (was, file, blind, owed) es)"

definition crash_safe :: "ducker \<Rightarrow> os \<Rightarrow> os_event list \<Rightarrow> bool" where
  "crash_safe d w es \<longleftrightarrow> crash_walk (duck_pending d) (volumes w, file_records w, False, []) es \<noteq> None"

lemma crash_walk_append:
  "crash_walk pend st (es @ fs) = (case crash_walk pend st es of Some st' \<Rightarrow> crash_walk pend st' fs | None \<Rightarrow> None)"
  by (induction pend st es rule: crash_walk.induct) (auto split: os_event.splits option.splits)

lemma crash_walk_put_back:
  "list_all is_put_back es \<Longrightarrow>
     crash_walk pend (was, file, blind, owed) es = Some (volumes_after was es, file, blind, owed) \<and>
     filter is_lowered es = []"
proof (induction es arbitrary: was)
  case (Cons e es)
  then show ?case by (cases e) (simp_all add: is_put_back_def is_lowered_def)
qed simp

section \<open>One session\<close>

definition spared :: "'u unicode_scheme \<Rightarrow> nat list \<Rightarrow> audio_session \<Rightarrow> bool" where
  "spared U exclude s \<longleftrightarrow> s_pid s \<in> set exclude \<or> to_lowercase U (s_name s) \<in> set NEVER_DUCK"

definition carried_by :: "duck_record list \<Rightarrow> nat list \<Rightarrow> audio_session \<Rightarrow> nat option" where
  "carried_by pend taken s =
     find (\<lambda>i. i \<notin> set taken \<and> same_app (pend ! i) (s_pid s) (s_name s)) [0..<length pend]"

definition true_original :: "duck_record list \<Rightarrow> nat list \<Rightarrow> audio_session \<Rightarrow> rat \<Rightarrow> rat" where
  "true_original pend taken s v = (case carried_by pend taken s of Some i \<Rightarrow> original (pend ! i) | None \<Rightarrow> v)"

definition taken_too :: "duck_record list \<Rightarrow> nat list \<Rightarrow> audio_session \<Rightarrow> nat list" where
  "taken_too pend taken s = taken @ (case carried_by pend taken s of Some i \<Rightarrow> [i] | None \<Rightarrow> [])"

lemma duck_session_cases:
  assumes "duck_session U exclude target now pend (saved, taken, w) s = (saved', taken', w')"
  obtains (alone) w1 where "saved' = saved" "taken' = taken" "same_but_answers w w1" "w' = w1 \<or> (\<exists>l. w' = noted l w1)"
      "spared U exclude s \<or> volumes w (sess s) \<le> target + 5 / 1000 \<or> w' \<noteq> w1"
  | (refused) w1 w2 l where "saved' = saved" "taken' = taken" "same_but_answers w w1"
      "target + 5 / 1000 < volumes w (sess s)"
      "same_but_answers (write_duck (leave_out (taken_too pend taken s) pend @ map snd saved @
         [lowered_record s (true_original pend taken s (volumes w (sess s))) target now]) w1) w2" "w' = noted l w2"
  | (lowered) w1 w2 rec where "\<not> spared U exclude s" "target + 5 / 1000 < volumes w (sess s)"
      "rec = lowered_record s (true_original pend taken s (volumes w (sess s))) target now"
      "saved' = saved @ [(s, rec)]" "taken' = taken_too pend taken s" "same_but_answers w w1"
      "same_but_answers (write_duck (leave_out (taken_too pend taken s) pend @ map snd saved @ [rec]) w1) w2"
      "w' = emit (Lowered s target) (w2\<lparr>volumes := (volumes w2)(sess s := target)\<rparr>)"
proof (cases "spared U exclude s")
  case True
  then have "saved' = saved" "taken' = taken" "w' = w" using assms by (simp_all add: duck_session_def spared_def)
  then show ?thesis using alone [OF _ _ same_but_answers_refl disjI1 disjI1] True by blast
next
  case ns: False
  obtain a w1 where a: "session_volume s w = (a, w1)" by fastforce
  have r: "same_but_answers w w1" "\<forall>v. a = Inr v \<longrightarrow> v = volumes w (sess s)" using volume_reads [OF a] by simp_all
  show ?thesis
  proof (cases a)
    case (Inl e)
    then have "saved' = saved" "taken' = taken" "w' = noted (duck_failed_line (s_name s) e) w1"
      using assms ns a by (simp_all add: duck_session_def spared_def)
    moreover from this have "w' \<noteq> w1" by (metis noted_simps(8) append_self_conv not_Cons_self2)
    ultimately show ?thesis using alone r(1) by blast
  next
    case (Inr v)
    then have v: "v = volumes w (sess s)" using r(2) by simp
    show ?thesis
    proof (cases "v \<le> target + 5 / 1000")
      case True
      then have "saved' = saved" "taken' = taken" "w' = w1" using assms ns a Inr by (simp_all add: duck_session_def spared_def)
      then show ?thesis using alone r(1) True v by blast
    next
      case high: False
      define rec where "rec = lowered_record s (true_original pend taken s v) target now"
      define w2 where "w2 = write_duck (leave_out (taken_too pend taken s) pend @ map snd saved @ [rec]) w1"
      obtain b w3 where b: "set_session_volume Lowered s target w2 = (b, w3)" by fastforce
      have "duck_session U exclude target now pend (saved, taken, w) s =
          (case set_session_volume Lowered s target w2 of
             (Inl e, w3) \<Rightarrow> (saved, taken, noted (duck_failed_line (s_name s) e) w3)
           | (Inr _, w3) \<Rightarrow> (saved @ [(s, rec)], taken_too pend taken s, w3))"
        using ns high
        by (simp only: duck_session_def Let_def prod.case spared_def [symmetric] a Inr sum.case if_False
            carried_by_def [symmetric] true_original_def [symmetric] taken_too_def [symmetric] rec_def w2_def)
      then have eq: "(saved', taken', w') = (case b of Inl e \<Rightarrow> (saved, taken, noted (duck_failed_line (s_name s) e) w3)
                 | Inr _ \<Rightarrow> (saved @ [(s, rec)], taken_too pend taken s, w3))"
        unfolding assms b prod.case .
      from b [unfolded set_session_volume_def] show ?thesis
      proof (cases rule: attempt_act)
        case (failed e)
        then show ?thesis using refused [of w1 w3] r(1) eq high unfolding w2_def rec_def v by simp
      next
        case (succeeded w4)
        then show ?thesis using lowered [of rec w1 w4] ns high v r(1) eq unfolding w2_def rec_def by simp
      qed
    qed
  qed
qed

section \<open>All sessions\<close>

lemma reads_keep:
  assumes "same_but_answers w w'"
  shows "apps w' = apps w" "volumes w' = volumes w" "trail w' = trail w" "file_records w' = file_records w"
  using same_but_answersD [OF assms] by (simp_all add: file_records_def)

lemma file_records_simps [simp]:
  "file_records (noted l w) = file_records w"
  "file_records (clear_duck w) = (if next_ok w then [] else file_records w)"
  "file_records (emit e (w\<lparr>volumes := vs\<rparr>)) = file_records w"
  "file_records (write_duck rs w) = (if next_ok w then rs else file_records w)"
  by (simp_all add: file_records_def)

lemma carried_by_Some: "carried_by pend taken s = Some i \<Longrightarrow> i < length pend \<and> same_app (pend ! i) (s_pid s) (s_name s)"
  by (auto simp: carried_by_def find_Some_iff)

text \<open>The originals of the pending records, by app.\<close>

definition originals_in :: "duck_record list \<Rightarrow> duck_record list \<Rightarrow> bool" where
  "originals_in pend pend0 \<longleftrightarrow>
     (\<forall>p \<in> set pend. \<exists>q \<in> set pend0. original q = original p \<and> r_pid q = r_pid p \<and> r_name q = r_name p)"

lemma lowered_record_describes:
  assumes "originals_in pend pend0"
  shows "describes pend0 v0 s target (lowered_record s (true_original pend taken s v0) target now)"
proof (cases "carried_by pend taken s")
  case None
  then show ?thesis by (simp add: describes_def true_original_def lowered_record_def)
next
  case (Some i)
  then have "pend ! i \<in> set pend" "same_app (pend ! i) (s_pid s) (s_name s)" using carried_by_Some by fastforce+
  then obtain q where "q \<in> set pend0" "original q = original (pend ! i)" "same_app q (s_pid s) (s_name s)"
    using assms unfolding originals_in_def same_app_def by metis
  then show ?thesis using Some by (auto simp: describes_def true_original_def lowered_record_def list_ex_iff)
qed

lemma covered_simps [simp]:
  "covered pend [] rs" "covered pend owed [] = (owed = [])"
  "covered pend ((s, v0, v) # owed) rs = (list_ex (describes pend v0 s v) rs \<and> covered pend owed rs)"
  by (simp_all add: covered_def) (cases owed; auto)

lemma covered_mono: "covered pend owed rs \<Longrightarrow> set rs \<subseteq> set qs \<Longrightarrow> covered pend owed qs"
  by (fastforce simp: covered_def list_all_iff list_ex_iff)

lemma duck_loop_crash:
  assumes "foldl (duck_session U exclude target now pend) (saved, taken, w) ss = (saved', taken', w')"
    and "covered pend0 owed (map snd saved)" and pend: "originals_in pend pend0"
  shows "\<exists>es more blind' owed'. trail w' = trail w @ es \<and> saved' = saved @ more \<and>
      crash_walk pend0 (volumes w, file_records w, blind, owed) es = Some (volumes w', file_records w', blind', owed') \<and>
      covered pend0 owed' (map snd saved') \<and>
      filter is_lowered es = map (\<lambda>p. Lowered (fst p) target) more \<and> list_all (\<lambda>p. \<not> spared U exclude (fst p)) more"
  using assms(1,2)
proof (induction ss arbitrary: saved taken w blind owed)
  case Nil
  then show ?case by (intro exI [of _ "[]"]) simp
next
  case (Cons s ss)
  obtain saved1 taken1 w1 where 1: "duck_session U exclude target now pend (saved, taken, w) s = (saved1, taken1, w1)"
    by (cases "duck_session U exclude target now pend (saved, taken, w) s") auto
  have cov: "covered pend0 owed (xs @ map snd saved @ ys)" for xs ys by (rule covered_mono [OF Cons.prems(2)]) auto
  have "\<exists>es more blind1 owed1. trail w1 = trail w @ es \<and> saved1 = saved @ more \<and>
      crash_walk pend0 (volumes w, file_records w, blind, owed) es = Some (volumes w1, file_records w1, blind1, owed1) \<and>
      covered pend0 owed1 (map snd saved1) \<and>
      filter is_lowered es = map (\<lambda>p. Lowered (fst p) target) more \<and> list_all (\<lambda>p. \<not> spared U exclude (fst p)) more"
    using 1
  proof (cases rule: duck_session_cases)
    case (alone v)
    from alone(4) show ?thesis
    proof
      assume "w1 = v"
      then show ?thesis using alone reads_keep [OF alone(3)] Cons.prems(2) by (intro exI [of _ "[]"]) simp
    next
      assume "\<exists>l. w1 = noted l v"
      then obtain l where "w1 = noted l v" ..
      then show ?thesis using alone reads_keep [OF alone(3)] Cons.prems(2)
        by (intro exI [of _ "[Noted l]"]) (simp add: is_lowered_def)
    qed
  next
    case (refused v1 v2 l)
    let ?rs = "leave_out (taken_too pend taken s) pend @ map snd saved @
         [lowered_record s (true_original pend taken s (volumes w (sess s))) target now]"
    show ?thesis using refused reads_keep [OF refused(3)] reads_keep [OF refused(5)] Cons.prems(2) cov
      by (intro exI [of _ "[if next_ok v1 then Duck_written ?rs else Duck_unwritten, Noted l]"] exI [of _ "[]"]
            exI [of _ "\<not> next_ok v1"] exI [of _ owed]) (simp add: is_lowered_def)
  next
    case (lowered v1 v2 rec)
    let ?rs = "leave_out (taken_too pend taken s) pend @ map snd saved @ [rec]"
    have d: "describes pend0 (volumes w (sess s)) s target rec" using lowered_record_describes [OF pend] by (simp add: lowered(3))
    then have "list_ex (describes pend0 (volumes w (sess s)) s target) ?rs" by simp
    moreover have "covered pend0 owed ?rs" "covered pend0 owed (map snd saved @ [rec])" using cov cov [of "[]"] by simp_all
    ultimately show ?thesis using lowered reads_keep [OF lowered(6)] reads_keep [OF lowered(7)] d
      by (intro exI [of _ "[if next_ok v1 then Duck_written ?rs else Duck_unwritten, Lowered s target]"]
            exI [of _ "[(s, rec)]"] exI [of _ "\<not> next_ok v1"] exI [of _ "(s, volumes w (sess s), target) # owed"])
        (simp add: is_lowered_def)
  qed
  then obtain es more blind1 owed1 where es: "trail w1 = trail w @ es" "saved1 = saved @ more"
    "crash_walk pend0 (volumes w, file_records w, blind, owed) es = Some (volumes w1, file_records w1, blind1, owed1)"
    "covered pend0 owed1 (map snd saved1)" "filter is_lowered es = map (\<lambda>p. Lowered (fst p) target) more"
    "list_all (\<lambda>p. \<not> spared U exclude (fst p)) more" by blast
  have "foldl (duck_session U exclude target now pend) (saved1, taken1, w1) ss = (saved', taken', w')"
    using Cons.prems(1) 1 by simp
  from Cons.IH [OF this es(4), of blind1] obtain fs more' blind' owed' where fs: "trail w' = trail w1 @ fs" "saved' = saved1 @ more'"
    "crash_walk pend0 (volumes w1, file_records w1, blind1, owed1) fs = Some (volumes w', file_records w', blind', owed')"
    "covered pend0 owed' (map snd saved')" "filter is_lowered fs = map (\<lambda>p. Lowered (fst p) target) more'"
    "list_all (\<lambda>p. \<not> spared U exclude (fst p)) more'" by blast
  show ?case using es fs
    by (intro exI [of _ "es @ fs"] exI [of _ "more @ more'"] exI [of _ blind'] exI [of _ owed']) (simp add: crash_walk_append)
qed

text \<open>A pending record that was taken over lives on in the record of a lowered session of its app.\<close>

definition carried_on :: "(audio_session \<times> duck_record) list \<Rightarrow> duck_record \<Rightarrow> bool" where
  "carried_on saved r \<longleftrightarrow> list_ex (\<lambda>(s, q). same_app r (s_pid s) (s_name s) \<and> original q = original r) saved"

lemma duck_loop_taken:
  assumes "foldl (duck_session U exclude target now pend) (saved, taken, w) ss = (saved', taken', w')"
    and "list_all (\<lambda>i. carried_on saved (pend ! i)) taken"
  shows "list_all (\<lambda>i. carried_on saved' (pend ! i)) taken'"
  using assms
proof (induction ss arbitrary: saved taken w)
  case (Cons s ss)
  obtain saved1 taken1 w1 where 1: "duck_session U exclude target now pend (saved, taken, w) s = (saved1, taken1, w1)"
    by (cases "duck_session U exclude target now pend (saved, taken, w) s") auto
  have more: "list_all (\<lambda>i. carried_on (saved @ xs) (pend ! i)) taken" for xs
    using Cons.prems(2) by (auto simp: carried_on_def list_all_iff)
  from 1 have "list_all (\<lambda>i. carried_on saved1 (pend ! i)) taken1"
  proof (cases rule: duck_session_cases)
    case (lowered v1 v2 rec)
    have "carried_on saved1 (pend ! i)" if "carried_by pend taken s = Some i" for i
      using carried_by_Some [OF that] that by (simp add: lowered(3,4) carried_on_def lowered_record_def true_original_def)
    then show ?thesis using more [of "[(s, rec)]"] lowered(4,5) by (simp add: taken_too_def split: option.split)
  qed (use Cons.prems(2) in simp_all)
  then show ?case using Cons.IH [of saved1 taken1 w1] Cons.prems(1) 1 by simp
qed simp

lemma leave_out_or: "x \<in> set xs \<Longrightarrow> x \<in> set (leave_out skip xs) \<or> (\<exists>i \<in> set skip. i < length xs \<and> xs ! i = x)"
proof -
  assume "x \<in> set xs"
  then obtain i where i: "i < length xs" "xs ! i = x" by (auto simp: in_set_conv_nth)
  then have "(i, x) \<in> set (enumerate 0 xs)" by (simp add: in_set_enumerate_eq)
  then show ?thesis using i by (cases "i \<in> set skip") (force simp: leave_out_def)+
qed

lemma sweep_pending_puts_back:
  assumes "sweep_pending now d w = (d1, w1)"
  obtains es where "puts_back w es w1" "duck_saved d1 = duck_saved d" "ducked d1 = ducked d"
    "set (duck_pending d1) \<subseteq> set (duck_pending d) \<union> stamp now ` set (duck_pending d)"
    "\<And>r. r \<in> set (duck_pending d) \<Longrightarrow> r \<in> set (duck_pending d1) \<or> swept now w es (duck_pending d1) r"
proof (cases "duck_pending d = []")
  case True
  then have "d1 = d" "w1 = w" using assms by (simp_all add: sweep_pending_def)
  then show ?thesis using that [of "[]"] puts_back_refl by auto
next
  case False
  obtain a w2 where a: "restore_records now (duck_pending d) w = (a, w2)" by fastforce
  from a show ?thesis
  proof (cases rule: restore_records_sweeps)
    case (listed sw es)
    then have "d1 = d\<lparr>duck_pending := left_over sw\<rparr>" "w1 = w2" using assms False a by (simp_all add: sweep_pending_def)
    then show ?thesis using that [of es] listed by auto
  next
    case (unlisted e)
    then have "d1 = d" "w1 = w2" using assms False a by (simp_all add: sweep_pending_def)
    then show ?thesis using that [of "[]"] unlisted by auto
  qed
qed

lemma originals_in_kept: "set xs \<subseteq> set ys \<union> stamp now ` set ys \<Longrightarrow> originals_in xs ys"
  unfolding originals_in_def by (fastforce dest: subsetD)

text \<open>One call of \<open>duck\<close> from a ducker that is not ducked.\<close>

lemma duck_unfold:
  assumes "duck U exclude level now d w = (d', w')" "\<not> ducked d"
  obtains d1 w1 a w2 saved taken w3 where "sweep_pending now d w = (d1, w1)" "audio_sessions w1 = (a, w2)"
    "d' = d1\<lparr>ducked := (\<exists>ss. a = Inr ss) \<or> saved \<noteq> [], duck_pending := leave_out taken (duck_pending d1), duck_saved := saved\<rparr>"
    "w' = keep_records (leave_out taken (duck_pending d1) @ map snd saved) w3"
    "case a of Inr ss \<Rightarrow> foldl (duck_session U exclude (duck_target level) now (duck_pending d1)) ([], [], w2) ss = (saved, taken, w3)
     | Inl e \<Rightarrow> saved = [] \<and> taken = [] \<and> w3 = noted (lit ''duck failed: cannot enumerate audio sessions: '' @ e) w2"
proof -
  obtain d1 w1 where 1: "sweep_pending now d w = (d1, w1)" by fastforce
  obtain a w2 where 2: "audio_sessions w1 = (a, w2)" by fastforce
  show ?thesis
  proof (cases a)
    case (Inl e)
    then show ?thesis using that [OF 1 2, of "[]" "[]"] assms 1 2 by (auto simp: duck_def Let_def)
  next
    case (Inr ss)
    obtain saved taken w3
      where "foldl (duck_session U exclude (duck_target level) now (duck_pending d1)) ([], [], w2) ss = (saved, taken, w3)"
      by (cases "foldl (duck_session U exclude (duck_target level) now (duck_pending d1)) ([], [], w2) ss") auto
    then show ?thesis using that [OF 1 2, of saved taken w3] assms 1 2 Inr by (auto simp: duck_def Let_def)
  qed
qed

lemma set_leave_out: "set (leave_out skip xs) \<subseteq> set xs"
  by (auto simp: leave_out_def in_set_enumerate_eq)

text \<open>Where a record that was pending is after a duck: still pending, too old, put back by the sweep of a session that
  belongs to it, found changed by somebody, or carried on by a lowered session of the same app.\<close>

definition passed_on :: "nat \<Rightarrow> os \<Rightarrow> os_event list \<Rightarrow> ducker \<Rightarrow> duck_record \<Rightarrow> bool" where
  "passed_on now w es d' r \<longleftrightarrow> accounted now w [] es (duck_pending d') r \<or> carried_on (duck_saved d') r"

lemma swept_accounted: "swept now w es kept r \<Longrightarrow> accounted now w saved es kept r"
proof -
  assume s: "swept now w es kept r"
  have "volumes w = volumes_after (volumes w) (take 0 es)" by simp
  then show ?thesis using s unfolding swept_def accounted_def by metis
qed

lemma pending_passed_on:
  assumes "r \<in> set pend1 \<or> swept now w es pend1 r" "list_all (\<lambda>i. carried_on saved (pend1 ! i)) taken"
    "duck_pending d' = leave_out taken pend1" "duck_saved d' = saved"
  shows "passed_on now w (es @ fs) d' r"
proof -
  have kept: "q \<in> set (duck_pending d') \<or> carried_on saved q" if "q \<in> set pend1" for q
    using leave_out_or [OF that, of taken] assms(2,3) by (auto simp: list_all_iff)
  have st: "carried_on saved (stamp now r) = carried_on saved r" by (simp add: carried_on_def same_app_def)
  consider "r \<in> set pend1" | "stamp now r \<in> set pend1" | "swept now w es (duck_pending d') r"
    using assms(1) unfolding swept_def by blast
  then show ?thesis
  proof cases
    case 1
    then show ?thesis using kept [of r] by (auto simp: passed_on_def accounted_def assms(4))
  next
    case 2
    then show ?thesis using kept [of "stamp now r"] st by (auto simp: passed_on_def accounted_def assms(4))
  next
    case 3
    then show ?thesis using accounted_mono [OF swept_accounted] by (simp add: passed_on_def)
  qed
qed

text \<open>C30: Ducking is safe against a crash at every moment. Unless the write of the file just before failed, a session is
  lowered only when the file holds a record that names it and has its own volume as the original (or, when a
  record of the same app was still pending, the original of such a record); every later write that succeeds
  holds a record of each session lowered so far, also when its own write had failed, and the file is not
  removed. What is lowered is what the ducker holds to put back, never Sonara itself nor the audio engine. No
  original that was pending is dropped: the record is still pending, put back, changed, too old, or carried on
  by a lowered session of the same app. In the end the file holds exactly the ducker's records, unless that
  last write or removal failed.\<close>

theorem lowered_sessions_are_on_disk:
  assumes "\<not> ducked d"
  shows "let (d', w') = duck U exclude level now d w; es = news w w' in
     crash_safe d w es \<and>
     filter is_lowered es = map (\<lambda>p. Lowered (fst p) (duck_target level)) (duck_saved d') \<and>
     list_all (\<lambda>p. \<not> spared U exclude (fst p)) (duck_saved d') \<and>
     list_all (passed_on now w es d') (duck_pending d) \<and>
     (last es = Duck_unwritten \<or> last es = Duck_uncleared \<or> file_records w' = duck_records d')"
proof -
  obtain d' w' where d: "duck U exclude level now d w = (d', w')" by fastforce
  obtain d1 w1 a w2 saved taken w3 where 1: "sweep_pending now d w = (d1, w1)" and 2: "audio_sessions w1 = (a, w2)"
    and d': "d' = d1\<lparr>ducked := (\<exists>ss. a = Inr ss) \<or> saved \<noteq> [], duck_pending := leave_out taken (duck_pending d1), duck_saved := saved\<rparr>"
    and w': "w' = keep_records (leave_out taken (duck_pending d1) @ map snd saved) w3"
    and loop: "case a of Inr ss \<Rightarrow> foldl (duck_session U exclude (duck_target level) now (duck_pending d1)) ([], [], w2) ss = (saved, taken, w3)
     | Inl e \<Rightarrow> saved = [] \<and> taken = [] \<and> w3 = noted (lit ''duck failed: cannot enumerate audio sessions: '' @ e) w2"
    using duck_unfold [OF d assms] .
  obtain es where es: "puts_back w es w1" and pend: "originals_in (duck_pending d1) (duck_pending d)"
    and sw: "\<And>r. r \<in> set (duck_pending d) \<Longrightarrow> r \<in> set (duck_pending d1) \<or> swept now w es (duck_pending d1) r"
    using sweep_pending_puts_back [OF 1] originals_in_kept by metis
  have r2: "volumes w2 = volumes w1" "trail w2 = trail w1" "file_records w2 = file_records w1"
    using audio_sessions_reads [OF 2] reads_keep by auto
  let ?t = "duck_target level" and ?p = "duck_pending d"
  have "\<exists>fs blind owed. trail w3 = trail w2 @ fs \<and>
      crash_walk ?p (volumes w2, file_records w2, False, []) fs = Some (volumes w3, file_records w3, blind, owed) \<and>
      covered ?p owed (map snd saved) \<and>
      filter is_lowered fs = map (\<lambda>p. Lowered (fst p) ?t) saved \<and> list_all (\<lambda>p. \<not> spared U exclude (fst p)) saved"
  proof (cases a)
    case (Inl e)
    then show ?thesis using loop r2
      by (intro exI [of _ "[Noted (lit ''duck failed: cannot enumerate audio sessions: '' @ e)]"] exI [of _ False] exI [of _ "[]"])
        (simp add: is_lowered_def)
  next
    case (Inr ss)
    then show ?thesis
      using duck_loop_crash [OF _ _ pend, of U exclude ?t now "[]" "[]" w2 ss saved taken w3 "[]" False] loop by auto
  qed
  then obtain fs blind owed where fs: "trail w3 = trail w2 @ fs"
    "crash_walk ?p (volumes w2, file_records w2, False, []) fs = Some (volumes w3, file_records w3, blind, owed)"
    "covered ?p owed (map snd saved)" "filter is_lowered fs = map (\<lambda>p. Lowered (fst p) ?t) saved"
    "list_all (\<lambda>p. \<not> spared U exclude (fst p)) saved" by blast
  define rs where "rs = leave_out taken (duck_pending d1) @ map snd saved"
  define l where "l = (if rs = [] then if next_ok w3 then Duck_cleared else Duck_uncleared
    else if next_ok w3 then Duck_written rs else Duck_unwritten)"
  have tr: "trail w' = trail w @ es @ fs @ [l]"
    using es fs(1) r2 by (simp add: w' keep_records_def l_def rs_def [symmetric] puts_back_def)
  have e1: "crash_walk ?p (volumes w, file_records w, False, []) es = Some (volumes w1, file_records w1, False, [])"
    "filter is_lowered es = []"
    using es crash_walk_put_back [of es ?p] by (auto simp: puts_back_def file_records_def)
  have "covered ?p owed rs" by (rule covered_mono [OF fs(3)]) (simp add: rs_def)
  then have l1: "crash_walk ?p (volumes w3, file_records w3, blind, owed) [l] \<noteq> None" "\<not> is_lowered l"
    by (auto simp: l_def is_lowered_def)
  have "crash_safe d w (es @ fs @ [l])" using e1 fs(2) l1 by (simp add: crash_safe_def crash_walk_append r2)
  moreover have "l = Duck_unwritten \<or> l = Duck_uncleared \<or> file_records w' = duck_records d'"
    by (auto simp: w' d' keep_records_def duck_records_def l_def rs_def)
  moreover have "list_all (\<lambda>i. carried_on saved (duck_pending d1 ! i)) taken"
    using loop duck_loop_taken [of U exclude ?t now "duck_pending d1" "[]" "[]" w2] by (cases a) auto
  then have "list_all (passed_on now w (es @ fs @ [l]) d') ?p"
    using pending_passed_on [OF sw] by (simp add: list_all_iff d')
  ultimately show ?thesis using fs(4,5) e1 l1 by (simp add: d news_eq [OF tr]) (simp add: d')
qed

end
