(* ===== verification/Ducking_Undo.thy ===== *)
theory Ducking_Undo imports Ducking_Safety begin

text \<open>
  A restore undoes a duck, and over any run of calls no recorded original is a ducked level
  (\<open>crates/sonara-system/src/ducking.rs\<close>).
\<close>

section \<open>Runs\<close>

text \<open>The calls of a host (a duck with its level and time), and what happens around it: apps come and go, volumes
  move, calls and file operations will fail.\<close>

datatype duck_call =
    Duck "nat list" nat nat
  | Restore nat
  | Recover nat
  | Outside "audio_session list" "nat \<Rightarrow> rat" "str option list"

fun duck_step :: "'u unicode_scheme \<Rightarrow> ducker \<times> os \<Rightarrow> duck_call \<Rightarrow> ducker \<times> os" where
  "duck_step U (d, w) (Duck exclude level now) = duck U exclude level now d w"
| "duck_step U (d, w) (Restore now) = restore now d w"
| "duck_step U (d, w) (Recover now) = recover_ducked now d w"
| "duck_step U (d, w) (Outside ss vs as) = (d, w\<lparr>apps := ss, volumes := vs, answers := as\<rparr>)"

fun levels_of :: "duck_call list \<Rightarrow> nat list" where
  "levels_of [] = []"
| "levels_of (Duck exclude level now # cs) = level # levels_of cs"
| "levels_of (_ # cs) = levels_of cs"

text \<open>A record of a session that was above the level of some duck, and is ducked to one of the levels.\<close>

definition above_target :: "nat list \<Rightarrow> duck_record \<Rightarrow> bool" where
  "above_target ls r \<longleftrightarrow>
     list_ex (\<lambda>l. duck_target l + 5 / 1000 < original r) ls \<and> list_ex (\<lambda>l. r_ducked r = Some (duck_target l)) ls"

definition duck_wf :: "nat list \<Rightarrow> ducker \<Rightarrow> os \<Rightarrow> bool" where
  "duck_wf ls d w \<longleftrightarrow>
     (ducked d \<or> duck_saved d = []) \<and> list_all (above_target ls) (duck_records d @ file_records w)"

lemma above_target_stamp [simp]: "above_target ls (stamp now r) = above_target ls r"
  by (simp add: above_target_def)

lemma keep_records_file:
  "list_all P rs \<Longrightarrow> list_all P (file_records w) \<Longrightarrow> list_all P (file_records (keep_records rs w))"
  by (simp add: keep_records_def)

lemma duck_loop_above:
  assumes "foldl (duck_session U exclude (duck_target level) now pend) (saved, taken, w) ss = (saved', taken', w')"
    and "list_all (above_target ls) (pend @ map snd saved @ file_records w)" and lv: "level \<in> set ls"
  shows "list_all (above_target ls) (map snd saved' @ file_records w')"
  using assms(1,2)
proof (induction ss arbitrary: saved taken w)
  case Nil
  then show ?case by simp
next
  case (Cons s ss)
  let ?t = "duck_target level"
  obtain saved1 taken1 w1 where 1: "duck_session U exclude ?t now pend (saved, taken, w) s = (saved1, taken1, w1)"
    by (cases "duck_session U exclude ?t now pend (saved, taken, w) s") auto
  have out: "list_all (above_target ls) (leave_out skip pend)" for skip
    using Cons.prems(2) set_leave_out [of skip pend] by (auto simp: list_all_iff)
  have orig: "above_target ls (lowered_record s (true_original pend taken s v) ?t now)" if "?t + 5 / 1000 < v" for v
  proof (cases "carried_by pend taken s")
    case None
    then show ?thesis using that lv by (auto simp: above_target_def lowered_record_def true_original_def list_ex_iff)
  next
    case (Some i)
    then have "pend ! i \<in> set pend" using carried_by_Some by fastforce
    then have "above_target ls (pend ! i)" using Cons.prems(2) by (simp add: list_all_iff)
    then show ?thesis using Some lv by (auto simp: above_target_def lowered_record_def true_original_def list_ex_iff)
  qed
  have "list_all (above_target ls) (pend @ map snd saved1 @ file_records w1)"
    using 1
  proof (cases rule: duck_session_cases)
    case (alone v)
    then show ?thesis using Cons.prems(2) reads_keep [OF alone(3)] by auto
  next
    case (refused v1 v2 l)
    then show ?thesis
      using Cons.prems(2) reads_keep [OF refused(3)] reads_keep [OF refused(5)] out orig by simp
  next
    case (lowered v1 v2 rec)
    then show ?thesis
      using Cons.prems(2) reads_keep [OF lowered(6)] reads_keep [OF lowered(7)] out orig by simp
  qed
  moreover have "foldl (duck_session U exclude ?t now pend) (saved1, taken1, w1) ss = (saved', taken', w')"
    using Cons.prems(1) 1 by simp
  ultimately show ?case using Cons.IH by blast
qed

lemma duck_keeps_wf:
  assumes wf: "duck_wf ls d w" and d: "duck U exclude level now d w = (d', w')" and lv: "level \<in> set ls"
  shows "duck_wf ls d' w'"
proof (cases "ducked d")
  case True
  then show ?thesis using assms by (simp add: duck_def)
next
  case False
  obtain d1 w1 a w2 saved taken w3 where 1: "sweep_pending now d w = (d1, w1)" and 2: "audio_sessions w1 = (a, w2)"
    and d': "d' = d1\<lparr>ducked := (\<exists>ss. a = Inr ss) \<or> saved \<noteq> [], duck_pending := leave_out taken (duck_pending d1), duck_saved := saved\<rparr>"
    and w': "w' = keep_records (leave_out taken (duck_pending d1) @ map snd saved) w3"
    and loop: "case a of Inr ss \<Rightarrow> foldl (duck_session U exclude (duck_target level) now (duck_pending d1)) ([], [], w2) ss = (saved, taken, w3)
     | Inl e \<Rightarrow> saved = [] \<and> taken = [] \<and> w3 = noted (lit ''duck failed: cannot enumerate audio sessions: '' @ e) w2"
    using duck_unfold [OF d False] .
  obtain es where "puts_back w es w1" "set (duck_pending d1) \<subseteq> set (duck_pending d) \<union> stamp now ` set (duck_pending d)"
    using sweep_pending_puts_back [OF 1] .
  moreover have "file_records w2 = file_records w1" using audio_sessions_reads [OF 2] reads_keep by blast
  ultimately have pend: "list_all (above_target ls) (duck_pending d1)" "list_all (above_target ls) (file_records w2)"
    using wf by (auto simp: duck_wf_def duck_records_def list_all_iff puts_back_def file_records_def dest!: subsetD)
  have "list_all (above_target ls) (map snd saved @ file_records w3)"
  proof (cases a)
    case (Inl e)
    then show ?thesis using loop pend(2) by simp
  next
    case (Inr ss)
    then show ?thesis using loop duck_loop_above [of U exclude level now "duck_pending d1" "[]" "[]" w2 ss saved taken w3 ls] pend lv
      by simp
  qed
  moreover have "list_all (above_target ls) (leave_out taken (duck_pending d1))"
    using pend(1) set_leave_out [of taken "duck_pending d1"] by (auto simp: list_all_iff)
  ultimately show ?thesis
    using keep_records_file [of "above_target ls" "leave_out taken (duck_pending d1) @ map snd saved" w3]
    by (auto simp: duck_wf_def duck_records_def d' w')
qed

lemma restore_keeps_wf:
  assumes wf: "duck_wf ls d w" and r: "restore now d w = (d', w')"
  shows "duck_wf ls d' w'"
proof -
  have 1: "duck_saved d' = []" "set (duck_pending d') \<subseteq> set (duck_records d) \<union> stamp now ` set (duck_records d)"
    "duck_file w' = (if duck_pending d' = [] then None else Some (duck_pending d')) \<or> duck_file w' = duck_file w"
    using restore_cases [OF r] by metis+
  have 2: "list_all (above_target ls) (duck_pending d')"
    using wf 1(2) by (auto simp: duck_wf_def list_all_iff dest!: subsetD)
  then show ?thesis using wf 1(3) by (auto simp: duck_wf_def duck_records_def 1(1) file_records_def)
qed

lemma set_add_new: "set (add_new out xs) = set out \<union> set xs"
  by (induction out xs rule: add_new.induct) auto

lemma recover_keeps_wf:
  assumes wf: "duck_wf ls d w" and r: "recover_ducked now d w = (d', w')"
  shows "duck_wf ls d' w'"
proof -
  have note_file: "file_records (sweep_note what rs ending v) = file_records v" for what rs ending v
    by (simp add: sweep_note_def)
  obtain res w1 where 1: "restore_from_state_file now w = (res, w1)" by fastforce
  have disk: "list_all (above_target ls) (file_records w)" using wf by (simp add: duck_wf_def)
  have "(\<exists>sw. res = Some sw \<and> list_all (above_target ls) (left_over sw @ file_records w1)) \<or>
      res = None \<and> file_records w1 = file_records w"
  proof (cases "duck_file w")
    case None
    then show ?thesis using 1 by (simp add: restore_from_state_file_def file_records_def)
  next
    case (Some rs)
    obtain a w2 where a: "restore_records now rs w = (a, w2)" by fastforce
    have rs: "list_all (above_target ls) rs" using disk Some by (simp add: file_records_def)
    from a show ?thesis
    proof (cases rule: restore_records_sweeps)
      case (listed sw es)
      then have "res = Some sw" "w1 = keep_records (left_over sw) w2" "file_records w2 = file_records w"
        using 1 Some a by (auto simp: restore_from_state_file_def puts_back_def file_records_def)
      moreover from this have "list_all (above_target ls) (left_over sw)"
        using listed(4) rs by (auto simp: list_all_iff dest!: subsetD)
      ultimately show ?thesis using disk keep_records_file [of "above_target ls" "left_over sw" w2] by simp
    next
      case (unlisted e)
      then show ?thesis using 1 Some a by (auto simp: restore_from_state_file_def puts_back_def file_records_def)
    qed
  qed
  then have rest: "\<exists>rest. list_all (above_target ls) (rest @ file_records w1) \<and>
      d' = d\<lparr>duck_pending := add_new (duck_pending d) rest\<rparr> \<and> file_records w' = file_records w1"
  proof
    assume "\<exists>sw. res = Some sw \<and> list_all (above_target ls) (left_over sw @ file_records w1)"
    then obtain sw where "res = Some sw" "list_all (above_target ls) (left_over sw @ file_records w1)" by blast
    then show ?thesis using r 1 by (intro exI [of _ "left_over sw"]) (auto simp: recover_ducked_def note_file)
  next
    assume "res = None \<and> file_records w1 = file_records w"
    then show ?thesis using r 1 disk
      by (intro exI [of _ "file_records w1"]) (auto simp: recover_ducked_def file_records_def)
  qed
  have "list_all P (add_new out xs)" if "list_all P out" "list_all P xs" for P and out xs :: "duck_record list"
    using that by (auto simp: list_all_iff set_add_new)
  then show ?thesis using rest wf by (auto simp: duck_wf_def duck_records_def)
qed

lemma duck_step_wf:
  "duck_wf ls d w \<Longrightarrow> set (levels_of [c]) \<subseteq> set ls \<Longrightarrow> duck_step U (d, w) c = (d', w') \<Longrightarrow> duck_wf ls d' w'"
proof (cases c)
  case (Outside ss vs as)
  moreover assume "duck_wf ls d w" "duck_step U (d, w) c = (d', w')"
  ultimately show ?thesis by (auto simp: duck_wf_def file_records_def)
qed (auto dest: duck_keeps_wf restore_keeps_wf recover_keeps_wf)

lemma levels_of_Cons: "levels_of (c # cs) = levels_of [c] @ levels_of cs"
  by (cases c) simp_all

lemma duck_runs_wf:
  "duck_wf ls d w \<Longrightarrow> set (levels_of cs) \<subseteq> set ls \<Longrightarrow> foldl (duck_step U) (d, w) cs = (d', w') \<Longrightarrow> duck_wf ls d' w'"
proof (induction cs arbitrary: d w)
  case (Cons c cs)
  obtain d1 w1 where "duck_step U (d, w) c = (d1, w1)" by fastforce
  then show ?case using Cons duck_step_wf [of ls d w c U d1 w1] by (simp add: levels_of_Cons [of c cs])
qed simp

text \<open>C31: The level an app is stuck at is not taken for its original: over any run of ducks, restores and startup sweeps
  from a start without a file, whatever calls fail, whatever apps and users do in between and even when the file
  cannot be written, every record in memory and in the file is of a session that was above the level of one of
  the ducks of the run. So while one level is in use no original is at or below it. (After a change to a lower
  level this leaves open that an app stuck at the older one is recorded with that.) And only while ducked is
  anything held.\<close>

theorem originals_stay_above_the_duck_level:
  assumes "duck_file w = None"
  shows "let (d', w') = foldl (duck_step U) (new_ducker, w) cs in
     list_all (above_target (levels_of cs)) (duck_records d' @ file_records w') \<and> (ducked d' \<or> duck_saved d' = [])"
proof -
  have "duck_wf (levels_of cs) new_ducker w"
    using assms by (simp add: duck_wf_def new_ducker_def duck_records_def file_records_def)
  then show ?thesis using duck_runs_wf [of "levels_of cs" new_ducker w cs U] by (auto simp: duck_wf_def split: prod.splits)
qed

section \<open>A restore undoes a duck\<close>

lemma calls_succeed:
  assumes "answers w = []"
  shows "audio_sessions w = (Inr (apps w), w)" "session_volume s w = (Inr (volumes w (sess s)), w)"
    "set_session_volume why s v w = (Inr (), emit (why s v) (w\<lparr>volumes := (volumes w)(sess s := v)\<rparr>))"
  by (simp_all add: audio_sessions_def session_volume_def set_session_volume_def attempt_succeeds assms)

definition keys_of :: "(audio_session \<times> duck_record) list \<Rightarrow> nat set" where
  "keys_of saved = sess ` fst ` set saved"

lemma keys_of_simps [simp]: "keys_of [] = {}" "keys_of (saved @ [(s, r)]) = insert (sess s) (keys_of saved)"
  "keys_of ((s, r) # saved) = insert (sess s) (keys_of saved)"
  by (auto simp: keys_of_def)

text \<open>The sessions a duck without failures lowers.\<close>

definition to_lower :: "'u unicode_scheme \<Rightarrow> nat list \<Rightarrow> rat \<Rightarrow> (nat \<Rightarrow> rat) \<Rightarrow> audio_session list \<Rightarrow> nat set" where
  "to_lower U exclude target vs ss =
     sess ` set (filter (\<lambda>s. \<not> spared U exclude s \<and> target + 5 / 1000 < vs (sess s)) ss)"

definition lowered_so_far :: "rat \<Rightarrow> (nat \<Rightarrow> rat) \<Rightarrow> (audio_session \<times> duck_record) list \<Rightarrow> os \<Rightarrow> bool" where
  "lowered_so_far target vs saved w \<longleftrightarrow>
     answers w = [] \<and> volumes w = (\<lambda>k. if k \<in> keys_of saved then target else vs k) \<and>
     list_all (\<lambda>(s, r). original r = vs (sess s)) saved"

lemma duck_session_succeeds:
  assumes "answers w = []"
  shows "duck_session U exclude target now [] (saved, [], w) s =
    (if spared U exclude s \<or> volumes w (sess s) \<le> target + 5 / 1000 then (saved, [], w)
     else let r = lowered_record s (volumes w (sess s)) target now;
              w2 = write_duck (map snd saved @ [r]) w
          in (saved @ [(s, r)], [], emit (Lowered s target) (w2\<lparr>volumes := (volumes w)(sess s := target)\<rparr>)))"
  using assms by (simp add: duck_session_def spared_def [symmetric] calls_succeed leave_out_def)

lemma duck_loop_lowers:
  assumes "lowered_so_far target vs saved w" "keys_of saved = to_lower U exclude target vs done_ss"
  shows "\<exists>saved' w'. foldl (duck_session U exclude target now []) (saved, [], w) ss = (saved', [], w') \<and>
    lowered_so_far target vs saved' w' \<and> keys_of saved' = to_lower U exclude target vs (done_ss @ ss)"
  using assms
proof (induction ss arbitrary: saved w done_ss)
  case Nil
  then show ?case by simp
next
  case (Cons s ss)
  have ans: "answers w = []" using Cons.prems(1) by (simp add: lowered_so_far_def)
  let ?low = "\<not> spared U exclude s \<and> target + 5 / 1000 < volumes w (sess s)"
  define r where "r = lowered_record s (volumes w (sess s)) target now"
  define saved1 where "saved1 = (if ?low then saved @ [(s, r)] else saved)"
  define w1 where "w1 = (if ?low then emit (Lowered s target)
    ((write_duck (map snd saved @ [r]) w)\<lparr>volumes := (volumes w)(sess s := target)\<rparr>) else w)"
  have step: "duck_session U exclude target now [] (saved, [], w) s = (saved1, [], w1)"
    by (auto simp: duck_session_succeeds [OF ans] saved1_def w1_def r_def Let_def)
  have key: "sess s \<notin> keys_of saved" "volumes w (sess s) = vs (sess s)" if ?low
    using that Cons.prems(1) by (auto simp: lowered_so_far_def split: if_splits)
  have "lowered_so_far target vs saved1 w1"
  proof (cases ?low)
    case True
    then show ?thesis using Cons.prems(1) key
      by (simp add: lowered_so_far_def saved1_def w1_def r_def lowered_record_def) auto
  next
    case False
    then have "saved1 = saved" "w1 = w" by (simp_all only: saved1_def w1_def if_False)
    then show ?thesis using Cons.prems(1) by simp
  qed
  moreover have "keys_of saved1 = to_lower U exclude target vs (done_ss @ [s])"
  proof (cases ?low)
    case True
    then show ?thesis using key Cons.prems(2) by (simp add: saved1_def to_lower_def)
  next
    case False
    then have "sess s \<in> keys_of saved \<or> spared U exclude s \<or> \<not> target + 5 / 1000 < vs (sess s)"
      using Cons.prems(1) by (auto simp: lowered_so_far_def)
    moreover have "saved1 = saved" using False by (simp only: saved1_def if_False)
    ultimately show ?thesis using Cons.prems(2) by (auto simp: to_lower_def)
  qed
  ultimately show ?case using Cons.IH [of saved1 w1 "done_ss @ [s]"] step by simp
qed

lemma put_back_succeeds:
  assumes "answers w = []" "list_all (\<lambda>(s, r). original r = vs (sess s)) saved"
  shows "\<exists>w'. foldl put_back (out, w) saved = (out, w') \<and> answers w' = [] \<and>
    volumes w' = (\<lambda>k. if k \<in> keys_of saved then vs k else volumes w k)"
  using assms
proof (induction saved arbitrary: w)
  case Nil
  then show ?case by simp
next
  case (Cons p saved)
  obtain s r where p: "p = (s, r)" by (cases p)
  define w1 where "w1 = emit (Put_back s (original r)) (w\<lparr>volumes := (volumes w)(sess s := original r)\<rparr>)"
  have "put_back (out, w) p = (out, w1)" using Cons.prems(1) by (simp add: put_back_def p calls_succeed w1_def)
  moreover obtain w' where "foldl put_back (out, w1) saved = (out, w')" "answers w' = []"
    "volumes w' = (\<lambda>k. if k \<in> keys_of saved then vs k else volumes w1 k)"
    using Cons.IH [of w1] Cons.prems by (auto simp: w1_def)
  ultimately show ?case using Cons.prems(2) by (auto simp: p w1_def)
qed

lemma duck_lowers:
  assumes "answers w = []" "\<not> ducked d" "duck_pending d = []" and "duck U exclude level now d w = (d1, w1)"
  shows "volumes w1 = (\<lambda>k. if k \<in> to_lower U exclude (duck_target level) (volumes w) (apps w) then duck_target level
             else volumes w k)"
    "answers w1 = []" "ducked d1" "duck_pending d1 = []"
    "keys_of (duck_saved d1) = to_lower U exclude (duck_target level) (volumes w) (apps w)"
    "list_all (\<lambda>(s, r). original r = volumes w (sess s)) (duck_saved d1)"
proof -
  let ?t = "duck_target level"
  obtain saved w2 where loop: "foldl (duck_session U exclude ?t now []) ([], [], w) (apps w) = (saved, [], w2)"
    "lowered_so_far ?t (volumes w) saved w2" "keys_of saved = to_lower U exclude ?t (volumes w) (apps w)"
    using duck_loop_lowers [of ?t "volumes w" "[]" w U exclude "[]" now "apps w"] assms(1)
    by (auto simp: lowered_so_far_def to_lower_def)
  have "d1 = d\<lparr>ducked := True, duck_pending := [], duck_saved := saved\<rparr>" "w1 = keep_records (map snd saved) w2"
    using assms loop(1) by (simp_all add: duck_def sweep_pending_def calls_succeed leave_out_def)
  then show "volumes w1 = (\<lambda>k. if k \<in> to_lower U exclude ?t (volumes w) (apps w) then ?t else volumes w k)"
    "answers w1 = []" "ducked d1" "duck_pending d1 = []" "keys_of (duck_saved d1) = to_lower U exclude ?t (volumes w) (apps w)"
    "list_all (\<lambda>(s, r). original r = volumes w (sess s)) (duck_saved d1)"
    using loop(2,3) by (simp_all add: keep_records_def lowered_so_far_def)
qed

lemma restore_raises:
  assumes "answers v = []" "duck_pending d = []" "list_all (\<lambda>(s, r). original r = f (sess s)) (duck_saved d)"
  shows "let (d2, w2) = restore later d v in
     volumes w2 = (\<lambda>k. if k \<in> keys_of (duck_saved d) then f k else volumes v k) \<and> answers w2 = [] \<and>
     duck_records d2 = [] \<and> \<not> ducked d2 \<and> duck_file w2 = None"
proof -
  obtain w3 where "foldl put_back ([], v) (duck_saved d) = ([], w3)" "answers w3 = []"
    "volumes w3 = (\<lambda>k. if k \<in> keys_of (duck_saved d) then f k else volumes v k)"
    using put_back_succeeds [OF assms(1,3), of "[]"] by blast
  then show ?thesis using assms(2) by (simp add: restore_def keep_records_def duck_records_def)
qed

text \<open>Neither touches the media.\<close>

lemma duck_session_media: "playing (snd (snd (duck_session U exclude target now pend acc s))) = playing (snd (snd acc))"
proof -
  obtain saved taken w where acc: "acc = (saved, taken, w)" by (cases acc)
  obtain a w1 where a: "session_volume s w = (a, w1)" by fastforce
  have 1: "playing w1 = playing w" using read_frame(1) [of _ w] by (metis a session_volume_def snd_conv)
  have 2: "playing w3 = playing w2" if "set_session_volume Lowered s target w2 = (b, w3)" for b w2 w3
    using volume_frame [of Lowered s target w2] that by simp
  show ?thesis using 1 by (auto simp: acc duck_session_def a Let_def split: sum.splits prod.splits dest!: 2)
qed

lemma duck_media:
  assumes "answers w = []" "duck_pending d = []"
  shows "playing (snd (duck U exclude level now d w)) = playing w"
proof -
  obtain saved taken v where loop: "foldl (duck_session U exclude (duck_target level) now []) ([], [], w) (apps w) = (saved, taken, v)"
    by (cases "foldl (duck_session U exclude (duck_target level) now []) ([], [], w) (apps w)") auto
  have "playing v = playing w"
    using foldl_keeps [where g = "\<lambda>acc. playing (snd (snd acc))" and f = "duck_session U exclude (duck_target level) now []",
        OF duck_session_media, of "([], [], w)" "apps w"] loop by simp
  then show ?thesis using assms(2)
    by (simp add: duck_def sweep_pending_def calls_succeed assms(1) loop keep_records_def Let_def)
qed

lemma restore_media:
  assumes "answers w = []" "duck_pending d = []" "list_all (\<lambda>(s, r). original r = f (sess s)) (duck_saved d)"
  shows "playing (snd (restore now d w)) = playing w"
proof -
  obtain w1 where loop: "foldl put_back ([], w) (duck_saved d) = ([], w1)"
    using put_back_succeeds [OF assms(1,3), of "[]"] by blast
  have "playing (snd (put_back acc p)) = playing (snd acc)" for acc p
    using volume_frame [of Put_back "fst p" "original (snd p)" "snd acc"]
    by (cases "set_session_volume Put_back (fst p) (original (snd p)) (snd acc)", cases acc)
      (auto simp: put_back_def split: sum.splits)
  then have "playing (snd (foldl put_back ([], w) (duck_saved d))) = playing w"
    using foldl_keeps [where g = "\<lambda>acc. playing (snd acc)" and f = put_back] by simp
  then show ?thesis using loop assms(2) by (simp add: restore_def keep_records_def)
qed

text \<open>C33: When no platform call fails, ducking lowers exactly the sessions above the level that are not spared, and
  restoring gives each of them the volume it had, whatever happened to all volumes in between; the others keep
  the volume they have, no record is left and the file is gone.\<close>

theorem restore_undoes_duck:
  assumes "answers w = []" "\<not> ducked d" "duck_pending d = []"
  shows "let (d1, w1) = duck U exclude level now d w;
             (d2, w2) = restore later d1 (w1\<lparr>volumes := vs, apps := ss\<rparr>);
             keys = to_lower U exclude (duck_target level) (volumes w) (apps w)
         in volumes w1 = (\<lambda>k. if k \<in> keys then duck_target level else volumes w k) \<and>
            volumes w2 = (\<lambda>k. if k \<in> keys then volumes w k else vs k) \<and>
            duck_records d2 = [] \<and> \<not> ducked d2 \<and> duck_file w2 = None"
proof -
  obtain d1 w1 where 1: "duck U exclude level now d w = (d1, w1)" by fastforce
  define v where "v = w1\<lparr>volumes := vs, apps := ss\<rparr>"
  note low = duck_lowers [OF assms 1]
  have "answers v = []" "volumes v = vs" using low(2) by (simp_all add: v_def)
  with restore_raises [of v d1 "volumes w" later] low show ?thesis
    by (auto simp: 1 v_def [symmetric] split: prod.splits)
qed

section \<open>Concrete runs\<close>

text \<open>A player at half volume, one that is quiet already, and Sonara itself.\<close>

definition demo_os :: os where
  "demo_os =
     \<lparr>apps = [\<lparr>sess = 0, s_pid = 7, s_ident = [105], s_name = lit ''vlc.exe''\<rparr>,
              \<lparr>sess = 1, s_pid = 8, s_ident = [], s_name = []\<rparr>, \<lparr>sess = 2, s_pid = 1, s_ident = [], s_name = []\<rparr>],
      volumes = (\<lambda>k. if k = 0 then 1 / 2 else if k = 1 then 1 / 5 else 1), medias = [], playing = (\<lambda>k. False),
      answers = [], duck_file = None, pause_file = None, trail = []\<rparr>"

lemma demo_os_simps: "answers demo_os = []" "duck_file demo_os = None"
  "volumes demo_os 0 = 1 / 2" "volumes demo_os (Suc 0) = 1 / 5"
  "duck_target 30 = 3 / 10"
  "to_lower ascii [Suc 0] (3 / 10) (volumes demo_os) (apps demo_os) = {0}"
  by (simp_all add: demo_os_def to_lower_def spared_def NEVER_DUCK_def ascii_def ascii_lower_def is_ascii_upper_def
      duck_target_def)

lemma new_ducker_simps [simp]: "\<not> ducked new_ducker" "duck_pending new_ducker = []" "duck_saved new_ducker = []"
  by (simp_all add: new_ducker_def)

theorem restore_undoes_duck_witness:
  "let (d1, w1) = duck ascii [1] 30 1000 new_ducker demo_os;
       (d2, w2) = restore 1007 d1 (w1\<lparr>volumes := (\<lambda>k. 1), apps := []\<rparr>)
   in volumes w1 0 = 3 / 10 \<and> volumes w1 1 = 1 / 5 \<and> volumes w2 0 = 1 / 2 \<and> volumes w2 1 = 1 \<and> duck_file w2 = None"
  using restore_undoes_duck [of demo_os new_ducker, where U = ascii and exclude = "[1]" and level = 30 and now = 1000 and
      later = 1007 and vs = "\<lambda>k. 1" and ss = "[]"]
  by (auto simp: demo_os_simps Let_def split: prod.splits)

theorem lowered_sessions_are_on_disk_witness:
  "let (d', w') = duck ascii [1] 30 1000 new_ducker demo_os in
     crash_safe new_ducker demo_os (news demo_os w') \<and>
     filter is_lowered (news demo_os w') = map (\<lambda>p. Lowered (fst p) (duck_target 30)) (duck_saved d')"
  using lowered_sessions_are_on_disk [of new_ducker ascii "[1]" 30 1000 demo_os]
  by (simp add: Let_def split: prod.splits)

theorem originals_stay_above_the_duck_level_witness:
  "let (d', w') = foldl (duck_step ascii) (new_ducker, demo_os)
         [Duck [1] 30 1000, Outside [] (\<lambda>k. 1) [Some [101], Some [101], Some [101]], Restore 1007, Recover 2000, Duck [1] 20 2001] in
     list_all (above_target [30, 20]) (duck_records d' @ file_records w')"
  using originals_stay_above_the_duck_level [of demo_os, where U = ascii and
      cs = "[Duck [1] 30 1000, Outside [] (\<lambda>k. 1) [Some [101], Some [101], Some [101]], Restore 1007, Recover 2000, Duck [1] 20 2001]"]
  by (simp add: demo_os_simps split: prod.splits)

text \<open>
  What the code does with two sessions of one app, of which the first is stuck at the duck level with a pending
  record that cannot be put back just now: ducking gives that record to the second session. So restoring sets
  the second session to the volume of the first one (1, it had 0.9), and the first one stays at the duck level
  with no record left.
\<close>

definition first_session :: audio_session where
  "first_session = \<lparr>sess = 0, s_pid = 7, s_ident = [97], s_name = [118]\<rparr>"

definition second_session :: audio_session where
  "second_session = \<lparr>sess = 1, s_pid = 7, s_ident = [98], s_name = [118]\<rparr>"

definition first_record :: duck_record where
  "first_record = \<lparr>r_pid = Some 7, r_name = Some [118], original = 1, r_id = Some [97], r_ducked = Some (3 / 10),
     r_at = Some 1000\<rparr>"

definition two_sessions :: "str option list \<Rightarrow> os" where
  "two_sessions as = demo_os\<lparr>apps := [first_session, second_session],
     volumes := (\<lambda>k. if k = 0 then 3 / 10 else 9 / 10), answers := as\<rparr>"

definition stuck_ducker :: ducker where
  "stuck_ducker = new_ducker\<lparr>duck_pending := [first_record]\<rparr>"

lemma sibling_takes_the_record:
  "let (d1, w1) = duck ascii [] 30 1001 stuck_ducker (two_sessions [None, None, None, Some [101]]);
       (d2, w2) = restore 1002 d1 w1
   in volumes w2 0 = 3 / 10 \<and> volumes w2 1 = 1 \<and> duck_records d2 = [] \<and> duck_file w2 = None"
proof -
  let ?w = "two_sessions []" and ?t = "3 / 10 :: rat"
  have s: "apps (two_sessions as) = [first_session, second_session]" "answers (two_sessions as) = as"
    "volumes (two_sessions as) 0 = 3 / 10" "volumes (two_sessions as) (Suc 0) = 9 / 10" for as
    by (simp_all add: two_sessions_def)
  have n: "sess first_session = 0" "sess second_session = 1" by (simp_all add: first_session_def second_session_def)
  have u: "two_sessions as\<lparr>answers := bs\<rparr> = two_sessions bs" for as bs by (simp add: two_sessions_def)
  have p: "pick_sessions [first_session, second_session] [Inr (3 / 10), Inr (9 / 10)] [first_record] = [(first_record, Some 0)]"
    by (simp add: pick_sessions_def by_ident_def first_record_def first_session_def upt_rec)
  have f: "stamp 1001 first_record = first_record" "at_duck_level first_record (Inr (3 / 10))" "\<not> too_old 1001 first_record"
    by (simp_all add: first_record_def stamp_def at_duck_level_def too_old_def RECORD_MAX_AGE_def)
  have st: "settle 1001 [first_session, second_session] [Inr (3 / 10), Inr (9 / 10)] (no_sweep, two_sessions [Some [101]])
      (first_record, Some 0) = (no_sweep\<lparr>failed := [first_record]\<rparr>, ?w)"
    by (simp add: settle_def f set_session_volume_def attempt_def ask_def s u) (simp add: no_sweep_def)
  have 1: "sweep_pending 1001 stuck_ducker (two_sessions [None, None, None, Some [101]]) = (stuck_ducker, ?w)"
    by (simp add: sweep_pending_def stuck_ducker_def restore_records_def audio_sessions_def session_volume_def
        attempt_def ask_def s n u p st) (simp add: no_sweep_def left_over_def)
  define r where "r = lowered_record second_session 1 ?t 1001"
  define w2 where "w2 = emit (Lowered second_session ?t) ((write_duck [r] ?w)\<lparr>volumes := (volumes ?w)(1 := ?t)\<rparr>)"
  have low: "\<not> (s_pid s \<in> set [] \<or> to_lowercase ascii (s_name s) \<in> set NEVER_DUCK)" if "s_name s = [118]" for s
    by (simp add: that NEVER_DUCK_def ascii_def ascii_lower_def is_ascii_upper_def)
  have 2: "duck_session ascii [] ?t 1001 [first_record] ([], [], ?w) first_session = ([], [], ?w)"
    using low [of first_session] by (simp add: duck_session_def calls_succeed s n first_session_def)
  have 3: "duck_session ascii [] ?t 1001 [first_record] ([], [], ?w) second_session = ([(second_session, r)], [0], w2)"
    using low [of second_session]
    by (simp add: duck_session_def calls_succeed s n w2_def r_def second_session_def same_app_def first_record_def
        leave_out_def upt_rec Let_def)
  have d: "duck ascii [] 30 1001 stuck_ducker (two_sessions [None, None, None, Some [101]]) =
      (stuck_ducker\<lparr>ducked := True, duck_pending := [], duck_saved := [(second_session, r)]\<rparr>, write_duck [r] w2)"
    using 1 2 3 by (simp add: duck_def stuck_ducker_def new_ducker_def calls_succeed s duck_target_def keep_records_def leave_out_def)
  show ?thesis
    by (simp add: d restore_def put_back_def calls_succeed w2_def s n keep_records_def duck_records_def r_def lowered_record_def)
qed

end
