(* ===== verification/Pausing_Claims.thy ===== *)
theory Pausing_Claims imports Pausing Ducking_Undo begin

text \<open>
  What \<open>MediaPauser\<close> promises (\<open>crates/sonara-system/src/pausing.rs\<close>): an app is in the file before its media
  pauses, a resume undoes a pause, and nothing is played that was not paused before.
\<close>

section \<open>One media session\<close>

lemma app_id_reads: "app_id s w = (a, w') \<Longrightarrow> same_but_answers w w' \<and> (\<forall>x. a = Inr x \<longrightarrow> x = m_app s)"
  unfolding app_id_def by (elim attempt_act) auto

lemma is_playing_reads:
  "is_playing s w = (a, w') \<Longrightarrow> same_but_answers w w' \<and> (\<forall>x. a = Inr x \<longrightarrow> x = playing w (m_sess s))"
  unfolding is_playing_def by (elim attempt_act) (auto simp: same_but_answersD)

lemma media_sessions_reads: "media_sessions w = (a, w') \<Longrightarrow> same_but_answers w w' \<and> (\<forall>ss. a = Inr ss \<longrightarrow> ss = medias w)"
  unfolding media_sessions_def by (elim attempt_act) (auto simp: same_but_answersD)

lemma same_but_answers_trans: "same_but_answers w w1 \<Longrightarrow> same_but_answers w1 w2 \<Longrightarrow> same_but_answers w w2"
  unfolding same_but_answers_def by (metis os.surjective os.update_convs(5))

lemma play_media_cases:
  assumes "play_media s w = (a, w')"
  obtains (failed) e where "a = Inl e" "same_but_answers w w'"
  | (played) w1 where "a = Inr ()" "same_but_answers w w1"
      "w' = emit (Media_played s) (w1\<lparr>playing := (playing w1)(m_sess s := True)\<rparr>)"
  using assms unfolding play_media_def by (elim attempt_act) auto

lemma pause_session_cases:
  assumes "pause_session now pend (saved, w) s = (saved', w')"
  obtains (alone) "saved' = saved" "same_but_answers w w'"
  | (failed) w1 w2 l where "saved' = saved" "same_but_answers w w1"
      "same_but_answers (record_apps now pend (map snd saved @ [m_app s]) w1) w2" "w' = noted l w2"
  | (asked) w1 w2 l where "saved' = saved @ [(s, m_app s)]" "same_but_answers w w1"
      "same_but_answers (record_apps now pend (map snd saved @ [m_app s]) w1) w2" "w' = noted l (emit (Media_asked s) w2)"
  | (halted) w1 w2 where "saved' = saved @ [(s, m_app s)]" "same_but_answers w w1"
      "same_but_answers (record_apps now pend (map snd saved @ [m_app s]) w1) w2"
      "w' = emit (Media_paused s) (w2\<lparr>playing := (playing w2)(m_sess s := False)\<rparr>)"
proof -
  obtain a w1 where a: "app_id s w = (a, w1)" by fastforce
  note ra = app_id_reads [OF a]
  show ?thesis
  proof (cases a)
    case (Inl e)
    then show ?thesis using alone assms a ra by (simp add: pause_session_def)
  next
    case (Inr app)
    obtain b w2 where b: "is_playing s w1 = (b, w2)" by fastforce
    note rb = is_playing_reads [OF b]
    have sb: "same_but_answers w w2" using ra rb same_but_answers_trans by blast
    show ?thesis
    proof (cases "b = Inr True")
      case False
      then have "saved' = saved" "w' = w2" using assms a Inr b
        by (auto simp: pause_session_def split: sum.splits bool.splits)
      then show ?thesis using alone sb by simp
    next
      case True
      define w3 where "w3 = record_apps now pend (map snd saved @ [m_app s]) w2"
      have app: "app = m_app s" using ra Inr by simp
      obtain c w4 where c: "ask w3 = (c, w4)" by fastforce
      have s4: "same_but_answers w3 w4" using ask_same [OF c] .
      show ?thesis
      proof (cases c)
        case None
        then have "saved' = saved @ [(s, m_app s)]" "w' = emit (Media_paused s) (w4\<lparr>playing := (playing w4)(m_sess s := False)\<rparr>)"
          using assms a Inr b True c by (simp_all add: pause_session_def Let_def app w3_def [symmetric] pause_media_def)
        then show ?thesis using halted sb s4 unfolding w3_def by blast
      next
        case (Some e)
        then have "(saved', w') = (if timed_out e then (saved @ [(s, m_app s)], noted (pause_failed_line app e) (emit (Media_asked s) w4))
            else (saved, noted (pause_failed_line app e) w4))"
          using assms a Inr b True c
          by (cases "timed_out e") (simp_all add: pause_session_def Let_def app w3_def [symmetric] pause_media_def)
        then show ?thesis using failed asked sb s4 unfolding w3_def by (auto split: if_splits)
      qed
    qed
  qed
qed

section \<open>The crash-restore file along the way\<close>

definition file_apps :: "os \<Rightarrow> str list" where
  "file_apps w = (case pause_file w of Some (as, t) \<Rightarrow> as | None \<Rightarrow> [])"

text \<open>
  What was done, event by event, with the apps in the file, whether the last write of it failed, and the apps
  paused so far. A session pauses (or is asked to) only when its app is in the file, unless the write just
  before failed; every later write that succeeds lists all apps paused so far, and the file is removed only
  when none was.
\<close>

fun pause_walk :: "str list \<times> bool \<times> str list \<Rightarrow> os_event list \<Rightarrow> (str list \<times> bool \<times> str list) option" where
  "pause_walk st [] = Some st"
| "pause_walk (file, blind, owed) (e # es) =
     (case e of
        Pause_written as t \<Rightarrow> if set owed \<subseteq> set as then pause_walk (as, False, owed) es else None
      | Pause_unwritten \<Rightarrow> pause_walk (file, True, owed) es
      | Pause_cleared \<Rightarrow> if owed = [] then pause_walk ([], False, owed) es else None
      | Media_paused s \<Rightarrow> if blind \<or> m_app s \<in> set file then pause_walk (file, blind, m_app s # owed) es else None
      | Media_asked s \<Rightarrow> if blind \<or> m_app s \<in> set file then pause_walk (file, blind, m_app s # owed) es else None
      | _ \<Rightarrow> pause_walk (file, blind, owed) es)"

definition stops_media ::"os_event \<Rightarrow> bool" where
  "stops_media e = (case e of Media_paused s \<Rightarrow> True | Media_asked s \<Rightarrow> True | _ \<Rightarrow> False)"

lemma pause_walk_append:
  "pause_walk st (es @ fs) = (case pause_walk st es of Some st' \<Rightarrow> pause_walk st' fs | None \<Rightarrow> None)"
  by (induction st es rule: pause_walk.induct) (auto split: os_event.splits option.splits)

lemma set_unique_apps [simp]: "set (unique_apps as) = set as"
  by (simp add: unique_apps_def set_add_new)

lemma unique_apps_empty [simp]: "unique_apps as = [] \<longleftrightarrow> as = []"
  by (metis set_empty set_unique_apps)

lemma unique_apps_Nil [simp]: "unique_apps [] = []"
  by (simp add: unique_apps_def)

definition record_event :: "nat \<Rightarrow> owed_resume list \<Rightarrow> str list \<Rightarrow> bool \<Rightarrow> os_event" where
  "record_event now pend as ok =
     (if pend = [] \<and> as = [] then if ok then Pause_cleared else Pause_uncleared
      else if ok then Pause_written (unique_apps (map o_app pend @ as)) (oldest pend now) else Pause_unwritten)"

lemma record_apps_simps [simp]:
  "trail (record_apps now pend as w) = trail w @ [record_event now pend as (next_ok w)]"
  "file_apps (record_apps now pend as w) = (if next_ok w then unique_apps (map o_app pend @ as) else file_apps w)"
  "playing (record_apps now pend as w) = playing w"
  "answers (record_apps now pend as w) = tl (answers w)" "medias (record_apps now pend as w) = medias w"
  by (auto simp: record_apps_def Let_def record_event_def file_apps_def)

lemma reads_keep_media:
  assumes "same_but_answers w w'"
  shows "trail w' = trail w" "file_apps w' = file_apps w"
  using same_but_answersD [OF assms] by (simp_all add: file_apps_def)

lemma file_apps_simps [simp]:
  "file_apps (noted l w) = file_apps w" "file_apps (emit e w) = file_apps w"
  "file_apps (w\<lparr>playing := f\<rparr>) = file_apps w"
  by (simp_all add: file_apps_def)

lemma pause_loop_walk:
  assumes "foldl (pause_session now pend) (saved, w) ss = (saved', w')"
  shows "\<exists>es more blind'. trail w' = trail w @ es \<and> saved' = saved @ more \<and>
      pause_walk (file_apps w, blind, rev (map snd saved)) es = Some (file_apps w', blind', rev (map snd saved')) \<and>
      list_all (\<lambda>p. snd p = m_app (fst p)) more \<and>
      list_all2 (\<lambda>e p. e = Media_paused (fst p) \<or> e = Media_asked (fst p)) (filter stops_media es) more"
  using assms
proof (induction ss arbitrary: saved w blind)
  case Nil
  then show ?case by (intro exI [of _ "[]"]) simp
next
  case (Cons s ss)
  obtain saved1 w1 where 1: "pause_session now pend (saved, w) s = (saved1, w1)"
    by (cases "pause_session now pend (saved, w) s")
  define e where "e = (\<lambda>ok. record_event now pend (map snd saved @ [m_app s]) ok)"
  have e: "e True = Pause_written (unique_apps (map o_app pend @ map snd saved @ [m_app s])) (oldest pend now)"
    "e False = Pause_unwritten"
    by (simp_all add: record_event_def e_def)
  have "\<exists>es more blind1. trail w1 = trail w @ es \<and> saved1 = saved @ more \<and>
      pause_walk (file_apps w, blind, rev (map snd saved)) es = Some (file_apps w1, blind1, rev (map snd saved1)) \<and>
      list_all (\<lambda>p. snd p = m_app (fst p)) more \<and>
      list_all2 (\<lambda>e p. e = Media_paused (fst p) \<or> e = Media_asked (fst p)) (filter stops_media es) more"
    using 1
  proof (cases rule: pause_session_cases)
    case alone
    then show ?thesis using reads_keep_media [OF alone(2)] by (intro exI [of _ "[]"] exI [of _ blind]) simp
  next
    case (failed v1 v2 l)
    show ?thesis
      using failed reads_keep_media [OF failed(2)] reads_keep_media [OF failed(3)]
      by (intro exI [of _ "[e (next_ok v1), Noted l]"] exI [of _ "[]"] exI [of _ "\<not> next_ok v1"]; cases "next_ok v1")
        (auto simp: e stops_media_def e_def [symmetric])
  next
    case (asked v1 v2 l)
    show ?thesis
      using asked reads_keep_media [OF asked(2)] reads_keep_media [OF asked(3)]
      by (intro exI [of _ "[e (next_ok v1), Media_asked s, Noted l]"] exI [of _ "[(s, m_app s)]"] exI [of _ "\<not> next_ok v1"];
          cases "next_ok v1") (auto simp: e stops_media_def e_def [symmetric])
  next
    case (halted v1 v2)
    show ?thesis
      using halted reads_keep_media [OF halted(2)] reads_keep_media [OF halted(3)]
      by (intro exI [of _ "[e (next_ok v1), Media_paused s]"] exI [of _ "[(s, m_app s)]"] exI [of _ "\<not> next_ok v1"];
          cases "next_ok v1") (auto simp: e stops_media_def e_def [symmetric])
  qed
  then obtain es more blind1 where es: "trail w1 = trail w @ es" "saved1 = saved @ more"
    "pause_walk (file_apps w, blind, rev (map snd saved)) es = Some (file_apps w1, blind1, rev (map snd saved1))"
    "list_all (\<lambda>p. snd p = m_app (fst p)) more"
    "list_all2 (\<lambda>e p. e = Media_paused (fst p) \<or> e = Media_asked (fst p)) (filter stops_media es) more" by blast
  have "foldl (pause_session now pend) (saved1, w1) ss = (saved', w')" using Cons.prems(1) 1 by simp
  from Cons.IH [OF this, of blind1] obtain fs more' blind' where fs: "trail w' = trail w1 @ fs" "saved' = saved1 @ more'"
    "pause_walk (file_apps w1, blind1, rev (map snd saved1)) fs = Some (file_apps w', blind', rev (map snd saved'))"
    "list_all (\<lambda>p. snd p = m_app (fst p)) more'"
    "list_all2 (\<lambda>e p. e = Media_paused (fst p) \<or> e = Media_asked (fst p)) (filter stops_media fs) more'" by blast
  show ?case using es fs
    by (intro exI [of _ "es @ fs"] exI [of _ "more @ more'"] exI [of _ blind']) (simp add: pause_walk_append list_all2_appendI)
qed

text \<open>C34: Pausing is safe against a crash at every moment. Unless the write of the file just before failed, a media session
  is paused only when the file lists its app; every later write that succeeds lists the app of each session
  paused so far, also when its own write had failed, and the file is not removed. The sessions paused (or asked
  to, when the call ran out of time) are those the pauser holds to resume, each with its app, and in the end
  the file lists the apps of these and of the resumes still owed, unless that last write or removal failed.\<close>

theorem paused_media_is_on_disk:
  assumes "\<not> p_paused p"
  shows "let (p', w') = pause now p w; es = news w w' in
     pause_walk (file_apps w, False, []) es \<noteq> None \<and>
     (if p_paused p'
      then list_all2 (\<lambda>e q. e = Media_paused (fst q) \<or> e = Media_asked (fst q)) (filter stops_media es) (p_saved p') \<and>
        list_all (\<lambda>q. snd q = m_app (fst q)) (p_saved p') \<and>
        (last es = Pause_unwritten \<or> last es = Pause_uncleared \<or>
         file_apps w' = unique_apps (map o_app (p_pending p') @ map snd (p_saved p')))
      else filter stops_media es = [] \<and> p' = p \<and> file_apps w' = file_apps w)"
proof -
  obtain a w1 where a: "media_sessions w = (a, w1)" by fastforce
  have r: "trail w1 = trail w" "file_apps w1 = file_apps w"
    using media_sessions_reads [OF a] reads_keep_media by auto
  show ?thesis
  proof (cases a)
    case (Inl e)
    then show ?thesis using assms a r by (simp add: pause_def news_def stops_media_def) blast
  next
    case (Inr ss)
    obtain saved w2 where f: "foldl (pause_session now (p_pending p)) ([], w1) ss = (saved, w2)" by fastforce
    obtain es blind where es: "trail w2 = trail w1 @ es"
      "pause_walk (file_apps w1, False, []) es = Some (file_apps w2, blind, rev (map snd saved))"
      "list_all (\<lambda>q. snd q = m_app (fst q)) saved"
      "list_all2 (\<lambda>e q. e = Media_paused (fst q) \<or> e = Media_asked (fst q)) (filter stops_media es) saved"
      using pause_loop_walk [OF f, of False] by auto
    define l where "l = record_event now (p_pending p) (map snd saved) (next_ok w2)"
    have n: "news w (record_apps now (p_pending p) (map snd saved) w2) = es @ [l]"
      using es(1) r by (simp add: news_def l_def)
    have l: "pause_walk (file_apps w2, blind, rev (map snd saved)) [l] \<noteq> None" "\<not> stops_media l"
      "l = Pause_unwritten \<or> l = Pause_uncleared \<or> next_ok w2"
      by (auto simp: l_def record_event_def stops_media_def)
    then show ?thesis using assms a Inr f es r
      by (auto simp: pause_def n pause_walk_append)
  qed
qed

end
