(* ===== verification/Pausing_Runs.thy ===== *)
theory Pausing_Runs imports Pausing_Claims begin

text \<open>
  Over any run nothing is played that was not paused, and a resume undoes a pause
  (\<open>crates/sonara-system/src/pausing.rs\<close>).
\<close>

section \<open>Every play has its pause\<close>

text \<open>
  The pauses of each session that no play has answered yet. A play without one is an error, unless the app of
  the session is one of \<open>A\<close>: the apps a startup sweep found in the file a runtime before left.
\<close>

fun play_walk :: "str list \<Rightarrow> (media_session \<Rightarrow> nat) \<Rightarrow> os_event list \<Rightarrow> (media_session \<Rightarrow> nat) option" where
  "play_walk A c [] = Some c"
| "play_walk A c (e # es) =
     (case e of
        Media_paused s \<Rightarrow> play_walk A (c(s := c s + 1)) es
      | Media_asked s \<Rightarrow> play_walk A (c(s := c s + 1)) es
      | Media_played s \<Rightarrow>
          if 0 < c s then play_walk A (c(s := c s - 1)) es
          else if m_app s \<in> set A then play_walk A c es
          else None
      | _ \<Rightarrow> play_walk A c es)"

lemma play_walk_append:
  "play_walk A c (es @ fs) = (case play_walk A c es of Some c' \<Rightarrow> play_walk A c' fs | None \<Rightarrow> None)"
  by (induction A c es rule: play_walk.induct) (auto split: os_event.splits option.splits simp del: fun_upd_apply)

lemma play_walk_mono: "play_walk A c es = Some c' \<Longrightarrow> set A \<subseteq> set B \<Longrightarrow> play_walk B c es = Some c'"
  by (induction A c es rule: play_walk.induct) (auto split: os_event.splits if_splits simp del: fun_upd_apply)

lemma play_walk_events:
  "play_walk A c (Media_paused s # es) = play_walk A (c(s := c s + 1)) es"
  "play_walk A c (Media_asked s # es) = play_walk A (c(s := c s + 1)) es"
  "play_walk A c (Media_played s # es) =
     (if 0 < c s then play_walk A (c(s := c s - 1)) es else if m_app s \<in> set A then play_walk A c es else None)"
  "play_walk A c (Noted l # es) = play_walk A c es"
  "play_walk A c (Pause_written as t # es) = play_walk A c es"
  "play_walk A c (Pause_unwritten # es) = play_walk A c es"
  "play_walk A c (Pause_cleared # es) = play_walk A c es"
  "play_walk A c (Pause_uncleared # es) = play_walk A c es"
  by simp_all

declare play_walk.simps(2) [simp del] play_walk_events [simp]

datatype pause_call =
    Do_pause nat
  | Do_resume nat
  | Do_recover nat
  | Media_outside "media_session list" "nat \<Rightarrow> bool" "str option list"

text \<open>With the apps the startup sweeps found in the file.\<close>

fun pause_step :: "pauser \<times> os \<times> str list \<Rightarrow> pause_call \<Rightarrow> pauser \<times> os \<times> str list" where
  "pause_step (p, w, A) (Do_pause now) = (let (p', w') = pause now p w in (p', w', A))"
| "pause_step (p, w, A) (Do_resume now) = (let (wanted, p', w') = resume now p w in (p', w', A))"
| "pause_step (p, w, A) (Do_recover now) = (let (p', w') = recover_paused now p w in (p', w', A @ file_apps w))"
| "pause_step (p, w, A) (Media_outside ss f as) = (p, w\<lparr>medias := ss, playing := f, answers := as\<rparr>, A)"

definition held_count :: "(media_session \<times> str) list \<Rightarrow> media_session \<Rightarrow> nat" where
  "held_count saved s = count_list (map fst saved) s"

definition owed_count :: "owed_resume list \<Rightarrow> media_session \<Rightarrow> nat" where
  "owed_count os s = count_list (map o_session os) (Some s)"

lemma count_simps [simp]:
  "held_count [] s = 0" "held_count (saved @ [(t, a)]) s = held_count saved s + (if t = s then 1 else 0)"
  "owed_count [] s = 0" "owed_count (os @ os') s = owed_count os s + owed_count os' s"
  "owed_count (q # os) s = (if o_session q = Some s then 1 else 0) + owed_count os s"
  by (simp_all add: held_count_def owed_count_def)

lemma record_event_walk [simp]: "play_walk A c (record_event now pend as ok # es) = play_walk A c es"
  by (simp add: record_event_def)

lemma pause_loop_credit:
  assumes "foldl (pause_session now pend) (saved, w) ss = (saved', w')" "\<And>s. m_app s \<notin> set A \<Longrightarrow> k s + held_count saved s \<le> c s"
  shows "\<exists>es c'. trail w' = trail w @ es \<and> play_walk A c es = Some c' \<and>
    (\<forall>s. m_app s \<notin> set A \<longrightarrow> k s + held_count saved' s \<le> c' s)"
  using assms
proof (induction ss arbitrary: saved w c)
  case Nil
  then show ?case by (intro exI [of _ "[]"] exI [of _ c]) simp
next
  case (Cons s ss)
  obtain saved1 w1 where 1: "pause_session now pend (saved, w) s = (saved1, w1)"
    by (cases "pause_session now pend (saved, w) s")
  note c = Cons.prems(2)
  have "\<exists>es c'. trail w1 = trail w @ es \<and> play_walk A c es = Some c' \<and>
      (\<forall>s. m_app s \<notin> set A \<longrightarrow> k s + held_count saved1 s \<le> c' s)"
    using 1
  proof (cases rule: pause_session_cases)
    case alone
    then show ?thesis using same_but_answersD(7) [OF alone(2)] c
      by (intro exI [of _ "[]"] exI [of _ c]) simp
  next
    case (failed v1 v2 l)
    let ?e = "record_event now pend (map snd saved @ [m_app s]) (next_ok v1)"
    show ?thesis using failed(1,4) same_but_answersD(7) [OF failed(2)] same_but_answersD(7) [OF failed(3)] c
      by (intro exI [of _ "[?e, Noted l]"] exI [of _ c]) simp
  next
    case (asked v1 v2 l)
    let ?e = "record_event now pend (map snd saved @ [m_app s]) (next_ok v1)"
    show ?thesis using asked(1,4) same_but_answersD(7) [OF asked(2)] same_but_answersD(7) [OF asked(3)] c
      by (intro exI [of _ "[?e, Media_asked s, Noted l]"] exI [of _ "c(s := c s + 1)"]) (simp add: le_SucI)
  next
    case (halted v1 v2)
    let ?e = "record_event now pend (map snd saved @ [m_app s]) (next_ok v1)"
    show ?thesis using halted(1,4) same_but_answersD(7) [OF halted(2)] same_but_answersD(7) [OF halted(3)] c
      by (intro exI [of _ "[?e, Media_paused s]"] exI [of _ "c(s := c s + 1)"]) (simp add: le_SucI)
  qed
  then obtain es c1 where es: "trail w1 = trail w @ es" "play_walk A c es = Some c1"
    "\<And>s. m_app s \<notin> set A \<Longrightarrow> k s + held_count saved1 s \<le> c1 s" by blast
  have "foldl (pause_session now pend) (saved1, w1) ss = (saved', w')" using Cons.prems(1) 1 by simp
  from Cons.IH [OF this es(3)] show ?case using es(1,2) by (auto simp: play_walk_append)
qed

text \<open>What is owed without a session is of an app of the sweeps.\<close>

definition sweep_owed :: "str list \<Rightarrow> owed_resume list \<Rightarrow> bool" where
  "sweep_owed A os \<longleftrightarrow> list_all (\<lambda>q. o_session q \<noteq> None \<or> o_app q \<in> set A) os"

lemma sweep_owed_simps [simp]:
  "sweep_owed A []" "sweep_owed A (os @ os') = (sweep_owed A os \<and> sweep_owed A os')"
  "sweep_owed A (q # os) = ((o_session q \<noteq> None \<or> o_app q \<in> set A) \<and> sweep_owed A os)"
  by (simp_all add: sweep_owed_def)

lemma resume_loop_credit:
  assumes "foldl resume_session (fails, by_app, w) todo = (fails', by_app', w')"
    "sweep_owed A (fails @ todo)" "list_all (\<lambda>q. o_app q \<in> set A) by_app"
    "\<And>s. m_app s \<notin> set A \<Longrightarrow> owed_count (fails @ todo) s \<le> c s"
  shows "list_all (\<lambda>q. o_app q \<in> set A) by_app' \<and> sweep_owed A fails' \<and>
    (\<exists>es c'. trail w' = trail w @ es \<and> play_walk A c es = Some c' \<and>
       (\<forall>s. m_app s \<notin> set A \<longrightarrow> owed_count fails' s \<le> c' s))"
  using assms
proof (induction todo arbitrary: fails by_app w c)
  case Nil
  then show ?case by (auto intro!: exI [of _ "[]"] exI [of _ c])
next
  case (Cons q todo)
  show ?case
  proof (cases "o_session q")
    case None
    then have "resume_session (fails, by_app, w) q = (fails, by_app @ [q], w)" by (simp add: resume_session_def)
    then have "foldl resume_session (fails, by_app @ [q], w) todo = (fails', by_app', w')" using Cons.prems(1) by simp
    moreover have "sweep_owed A (fails @ todo)" "list_all (\<lambda>q. o_app q \<in> set A) (by_app @ [q])" using None Cons.prems(2,3) by simp_all
    moreover have "owed_count (fails @ todo) s \<le> c s" if "m_app s \<notin> set A" for s using Cons.prems(4) [OF that] None by simp
    ultimately show ?thesis by (rule Cons.IH)
  next
    case s: (Some s)
    obtain a w1 where a: "is_playing s w = (a, w1)" by fastforce
    have t1: "trail w1 = trail w" using is_playing_reads [OF a] same_but_answersD(7) by blast
    show ?thesis
    proof (cases "a = Inr False")
      case False
      then have "resume_session (fails, by_app, w) q = (fails, by_app, w1)" using s a
        by (auto simp: resume_session_def split: sum.splits bool.splits)
      then have f: "foldl resume_session (fails, by_app, w1) todo = (fails', by_app', w')" using Cons.prems(1) by simp
      have "owed_count (fails @ todo) t \<le> c t" if "m_app t \<notin> set A" for t
        using Cons.prems(4) [OF that] by (simp split: if_splits)
      from Cons.IH [OF f _ Cons.prems(3) this] show ?thesis using Cons.prems(2) t1 by simp
    next
      case True
      obtain b w2 where b: "play_media s w1 = (b, w2)" by fastforce
      from b show ?thesis
      proof (cases rule: play_media_cases)
        case (failed e)
        then have "resume_session (fails, by_app, w) q = (fails @ [q], by_app, w2)"
          using s a True b by (simp add: resume_session_def)
        then have f: "foldl resume_session (fails @ [q], by_app, w2) todo = (fails', by_app', w')" using Cons.prems(1) by simp
        have "owed_count ((fails @ [q]) @ todo) t \<le> c t" if "m_app t \<notin> set A" for t using Cons.prems(4) [OF that] by simp
        from Cons.IH [OF f _ Cons.prems(3) this] show ?thesis using Cons.prems(2) t1 same_but_answersD(7) [OF failed(2)] by simp
      next
        case (played v)
        then have "resume_session (fails, by_app, w) q = (fails, by_app, w2)" using s a True b by (simp add: resume_session_def)
        then have f: "foldl resume_session (fails, by_app, w2) todo = (fails', by_app', w')" using Cons.prems(1) by simp
        define c1 where "c1 = (if 0 < c s then c(s := c s - 1) else c)"
        have "0 < c s" if "m_app s \<notin> set A" using Cons.prems(4) [OF that] s by simp
        then have step: "play_walk A c (Media_played s # es) = play_walk A c1 es" for es by (auto simp: c1_def)
        have "owed_count (fails @ todo) t \<le> c1 t" if "m_app t \<notin> set A" for t
          using Cons.prems(4) [OF that] s by (auto simp: c1_def split: if_splits)
        from Cons.IH [OF f _ Cons.prems(3) this] obtain es c' where "list_all (\<lambda>q. o_app q \<in> set A) by_app'" "sweep_owed A fails'"
          "trail w' = trail w2 @ es" "play_walk A c1 es = Some c'" "\<forall>t. m_app t \<notin> set A \<longrightarrow> owed_count fails' t \<le> c' t"
          using Cons.prems(2) by auto
        then show ?thesis using played(2,3) t1 same_but_answersD(7) [OF played(2)] step
          by (auto intro!: exI [of _ "Media_played s # es"] simp del: play_walk.simps)
      qed
    qed
  qed
qed

text \<open>A sweep of the live sessions of some apps plays only sessions of these apps.\<close>

lemma resume_apps_loop:
  assumes "foldl (resume_app_session wanted) (fails, w) ss = (fails', w')" "set wanted \<subseteq> set A"
    "list_all (\<lambda>p. snd p = m_app (fst p) \<and> snd p \<in> set A) fails"
  shows "list_all (\<lambda>p. snd p = m_app (fst p) \<and> snd p \<in> set A) fails' \<and>
    (\<exists>es. trail w' = trail w @ es \<and> (\<forall>c. \<exists>c'. play_walk A c es = Some c' \<and> (\<forall>s. m_app s \<notin> set A \<longrightarrow> c' s = c s)))"
  using assms
proof (induction ss arbitrary: fails w)
  case Nil
  then show ?case by (auto intro!: exI [of _ "[]"])
next
  case (Cons s ss)
  obtain fails1 w1 where 1: "resume_app_session wanted (fails, w) s = (fails1, w1)" by fastforce
  obtain a v where a: "app_id s w = (a, v)" by fastforce
  have tv: "trail v = trail w" "a = Inr x \<Longrightarrow> x = m_app s" for x using app_id_reads [OF a] same_but_answersD(7) by blast+
  have "list_all (\<lambda>p. snd p = m_app (fst p) \<and> snd p \<in> set A) fails1 \<and>
      (trail w1 = trail w \<or> trail w1 = trail w @ [Media_played s] \<and> m_app s \<in> set A)"
  proof (cases "\<exists>x. a = Inr x \<and> x \<in> set wanted")
    case False
    then have "fails1 = fails" "w1 = v" using 1 a by (auto simp: resume_app_session_def split: sum.splits if_splits)
    then show ?thesis using Cons.prems(3) tv by simp
  next
    case True
    then have app: "a = Inr (m_app s)" "m_app s \<in> set wanted" using tv(2) by auto
    obtain b u where b: "is_playing s v = (b, u)" by fastforce
    have tu: "trail u = trail v" using is_playing_reads [OF b] same_but_answersD(7) by blast
    show ?thesis
    proof (cases "b = Inr True")
      case True
      then have "fails1 = fails" "w1 = u" using 1 a app b by (auto simp: resume_app_session_def)
      then show ?thesis using Cons.prems(3) tv tu by simp
    next
      case False
      obtain d z where d: "play_media s u = (d, z)" by fastforce
      have eq: "(fails1, w1) = (case d of Inr _ \<Rightarrow> (fails, z) | Inl _ \<Rightarrow> (fails @ [(s, m_app s)], z))"
        using 1 a app b d False by (auto simp: resume_app_session_def split: sum.splits bool.splits)
      from d show ?thesis
      proof (cases rule: play_media_cases)
        case (failed e)
        then show ?thesis using eq Cons.prems(2,3) app(2) tv tu same_but_answersD(7) [OF failed(2)] by auto
      next
        case (played y)
        then show ?thesis using eq Cons.prems(2,3) app(2) tv tu same_but_answersD(7) [OF played(2)] by auto
      qed
    qed
  qed
  moreover have "\<exists>c'. play_walk A c [Media_played s] = Some c' \<and> (\<forall>t. m_app t \<notin> set A \<longrightarrow> c' t = c t)"
    if "m_app s \<in> set A" for c using that by auto
  ultimately obtain es where es: "list_all (\<lambda>p. snd p = m_app (fst p) \<and> snd p \<in> set A) fails1" "trail w1 = trail w @ es"
    "\<forall>c. \<exists>c'. play_walk A c es = Some c' \<and> (\<forall>s. m_app s \<notin> set A \<longrightarrow> c' s = c s)"
    by (metis append_Nil2 play_walk.simps(1))
  have "foldl (resume_app_session wanted) (fails1, w1) ss = (fails', w')" using Cons.prems(1) 1 by simp
  from Cons.IH [OF this Cons.prems(2) es(1)] obtain fs where
    fs: "list_all (\<lambda>p. snd p = m_app (fst p) \<and> snd p \<in> set A) fails'" "trail w' = trail w1 @ fs"
    "\<forall>c. \<exists>c'. play_walk A c fs = Some c' \<and> (\<forall>s. m_app s \<notin> set A \<longrightarrow> c' s = c s)" by blast
  have "\<exists>c'. play_walk A c (es @ fs) = Some c' \<and> (\<forall>s. m_app s \<notin> set A \<longrightarrow> c' s = c s)" for c
  proof -
    obtain c1 where "play_walk A c es = Some c1" "\<forall>s. m_app s \<notin> set A \<longrightarrow> c1 s = c s" using es(3) by blast
    moreover obtain c2 where "play_walk A c1 fs = Some c2" "\<forall>s. m_app s \<notin> set A \<longrightarrow> c2 s = c1 s" using fs(3) by blast
    ultimately show ?thesis by (simp add: play_walk_append)
  qed
  then show ?case using fs(1,2) es(2) by (intro conjI exI [of _ "es @ fs"]) simp_all
qed

lemma resume_apps_walk:
  assumes "resume_apps wanted w = (res, w')" "set wanted \<subseteq> set A"
  shows "(\<forall>fails. res = Inr fails \<longrightarrow> list_all (\<lambda>p. snd p = m_app (fst p) \<and> snd p \<in> set A) fails) \<and>
    (\<exists>es. trail w' = trail w @ es \<and> (\<forall>c. \<exists>c'. play_walk A c es = Some c' \<and> (\<forall>s. m_app s \<notin> set A \<longrightarrow> c' s = c s)))"
proof -
  obtain a w1 where a: "media_sessions w = (a, w1)" by fastforce
  have t: "trail w1 = trail w" using media_sessions_reads [OF a] same_but_answersD(7) by blast
  show ?thesis
  proof (cases a)
    case (Inl e)
    then have "res = Inl e" "w' = w1" using assms(1) a by (simp_all add: resume_apps_def)
    then show ?thesis using t by (auto intro!: exI [of _ "[]"])
  next
    case (Inr ss)
    obtain fails w2 where f: "foldl (resume_app_session wanted) ([], w1) ss = (fails, w2)" by fastforce
    then have "res = Inr fails" "w' = w2" using assms(1) a Inr by (simp_all add: resume_apps_def)
    then show ?thesis using resume_apps_loop [OF f assms(2)] t by simp
  qed
qed

text \<open>The invariant of a run: what is held or owed has a pause that is not answered, or is of an app of the sweeps.\<close>

definition credit_ok :: "str list \<Rightarrow> pauser \<Rightarrow> os_event list \<Rightarrow> bool" where
  "credit_ok A p es \<longleftrightarrow> sweep_owed A (p_pending p) \<and>
     (\<exists>c. play_walk A (\<lambda>s. 0) es = Some c \<and>
        (\<forall>s. m_app s \<notin> set A \<longrightarrow> owed_count (p_pending p) s + held_count (p_saved p) s \<le> c s))"

lemma credit_more:
  assumes "play_walk A (\<lambda>s. 0) es = Some c" "play_walk A c fs = Some c'" "sweep_owed A (p_pending p)"
    "\<And>s. m_app s \<notin> set A \<Longrightarrow> owed_count (p_pending p) s + held_count (p_saved p) s \<le> c' s"
  shows "credit_ok A p (es @ fs)"
  using assms by (auto simp: credit_ok_def play_walk_append)

lemma pause_credit:
  assumes ok: "credit_ok A p es" and p: "pause now p w = (p', w')"
  shows "\<exists>fs. trail w' = trail w @ fs \<and> credit_ok A p' (es @ fs)"
proof (cases "p_paused p")
  case True
  then show ?thesis using assms by (intro exI [of _ "[]"]) (simp add: pause_def)
next
  case False
  obtain c where c: "sweep_owed A (p_pending p)" "play_walk A (\<lambda>s. 0) es = Some c"
    "\<And>s. m_app s \<notin> set A \<Longrightarrow> owed_count (p_pending p) s + held_count (p_saved p) s \<le> c s" using ok by (auto simp: credit_ok_def)
  obtain a w1 where a: "media_sessions w = (a, w1)" by fastforce
  have t: "trail w1 = trail w" using media_sessions_reads [OF a] same_but_answersD(7) by blast
  show ?thesis
  proof (cases a)
    case (Inl e)
    then have "p' = p" "trail w' = trail w @ [Noted (lit ''media pause failed: cannot list media sessions: '' @ e)]"
      using p False a t by (auto simp: pause_def)
    then show ?thesis using credit_more [OF c(2) _ c(1) c(3)] by auto
  next
    case (Inr ss)
    obtain saved w2 where f: "foldl (pause_session now (p_pending p)) ([], w1) ss = (saved, w2)" by fastforce
    have "owed_count (p_pending p) s + held_count [] s \<le> c s" if "m_app s \<notin> set A" for s using c(3) [OF that] by simp
    from pause_loop_credit [OF f this] obtain fs c' where fs: "trail w2 = trail w1 @ fs" "play_walk A c fs = Some c'"
      "\<And>s. m_app s \<notin> set A \<Longrightarrow> owed_count (p_pending p) s + held_count saved s \<le> c' s" by blast
    let ?e = "record_event now (p_pending p) (map snd saved) (next_ok w2)"
    have p': "p' = p\<lparr>p_paused := True, since := now, p_saved := saved\<rparr>" "trail w' = trail w @ fs @ [?e]"
      using p False a Inr f fs(1) t by (auto simp: pause_def)
    have "play_walk A c (fs @ [?e]) = Some c'" using fs(2) by (simp add: play_walk_append)
    then have "credit_ok A p' (es @ (fs @ [?e]))" using c(1) fs(3) by (intro credit_more [OF c(2)]) (auto simp: p')
    then show ?thesis using p'(2) by blast
  qed
qed

lemma sweep_owed_filter: "sweep_owed A os \<Longrightarrow> sweep_owed A (filter P os)"
  by (auto simp: sweep_owed_def list_all_iff)

lemma owed_count_filter: "owed_count (filter P os) s \<le> owed_count os s"
  by (induction os) auto

lemma owed_count_saved: "owed_count (map (\<lambda>(s, app). \<lparr>o_session = Some s, o_app = app, o_at = t\<rparr>) saved) s = held_count saved s"
  by (induction saved) (auto simp: held_count_def)

lemma owed_of_sweep:
  assumes "list_all (\<lambda>p. snd p = m_app (fst p) \<and> snd p \<in> set A) fails"
  shows "sweep_owed A (map (\<lambda>(s, app). \<lparr>o_session = Some s, o_app = app, o_at = t\<rparr>) fails)"
    "m_app s \<notin> set A \<Longrightarrow> owed_count (map (\<lambda>(s, app). \<lparr>o_session = Some s, o_app = app, o_at = t\<rparr>) fails) s = 0"
  using assms by (induction fails) auto

lemma resume_rest_walk:
  assumes "resume_rest now fails by_app w = (rest, w')" "list_all (\<lambda>q. o_app q \<in> set A) by_app" "sweep_owed A fails"
  shows "sweep_owed A rest \<and> (\<forall>s. m_app s \<notin> set A \<longrightarrow> owed_count rest s \<le> owed_count (fails @ by_app) s) \<and>
    (\<exists>es. trail w' = trail w @ es \<and> (\<forall>c. \<exists>c'. play_walk A c es = Some c' \<and> (\<forall>s. m_app s \<notin> set A \<longrightarrow> c' s = c s)))"
proof (cases "by_app = []")
  case True
  then have "rest = fails" "w' = w" using assms(1) by (simp_all add: resume_rest_def)
  then show ?thesis using assms(3) by (auto intro!: exI [of _ "[]"])
next
  case False
  obtain res w1 where r: "resume_apps (unique_apps (map o_app by_app)) w = (res, w1)" by fastforce
  have "set (unique_apps (map o_app by_app)) \<subseteq> set A" using assms(2) by (auto simp: list_all_iff)
  note walk = resume_apps_walk [OF r this]
  show ?thesis
  proof (cases res)
    case (Inl e)
    then have rw: "rest = fails @ by_app" "w' = noted (lit ''media resume failed: cannot list media sessions: '' @ e) w1"
      using assms(1) False r by (simp_all add: resume_rest_def)
    obtain es where es: "trail w1 = trail w @ es"
      "\<forall>c. \<exists>c'. play_walk A c es = Some c' \<and> (\<forall>s. m_app s \<notin> set A \<longrightarrow> c' s = c s)" using walk by blast
    have "\<exists>c'. play_walk A c (es @ [Noted l]) = Some c' \<and> (\<forall>s. m_app s \<notin> set A \<longrightarrow> c' s = c s)" for c l
    proof -
      obtain c' where "play_walk A c es = Some c'" "\<forall>s. m_app s \<notin> set A \<longrightarrow> c' s = c s" using es(2) by blast
      then show ?thesis by (simp add: play_walk_append)
    qed
    moreover have "sweep_owed A by_app" using assms(2) by (auto simp: sweep_owed_def list_all_iff)
    moreover have "trail w' = trail w @ (es @ [Noted (lit ''media resume failed: cannot list media sessions: '' @ e)])"
      using rw es(1) by simp
    ultimately show ?thesis using assms(3) rw(1) by (metis order_refl sweep_owed_simps(2))
  next
    case (Inr left)
    then have rw: "rest = fails @ map (\<lambda>(s, app). \<lparr>o_session = Some s, o_app = app, o_at = oldest by_app now\<rparr>) left" "w' = w1"
      using assms(1) False r by (simp_all add: resume_rest_def)
    have "list_all (\<lambda>p. snd p = m_app (fst p) \<and> snd p \<in> set A) left" using walk Inr by blast
    note left = owed_of_sweep [OF this]
    show ?thesis using walk left assms(3) unfolding rw by simp
  qed
qed

lemma resume_by_app:
  "foldl resume_session (fails, by_app, w) todo = (fails', by_app', w') \<Longrightarrow> q \<in> set by_app' \<Longrightarrow>
     q \<in> set by_app \<or> o_session q = None"
proof (induction todo arbitrary: fails by_app w)
  case (Cons x todo)
  obtain f1 b1 w1 where 1: "resume_session (fails, by_app, w) x = (f1, b1, w1)"
    by (cases "resume_session (fails, by_app, w) x") auto
  then have "b1 = by_app \<or> o_session x = None \<and> b1 = by_app @ [x]"
    by (auto simp: resume_session_def split: option.splits prod.splits sum.splits bool.splits)
  then show ?case using Cons 1 by fastforce
qed simp

lemma resume_credit:
  assumes ok: "credit_ok A p es" and p: "resume now p w = (wanted, p', w')"
  shows "\<exists>fs. trail w' = trail w @ fs \<and> credit_ok A p' (es @ fs)"
proof -
  obtain c where c: "sweep_owed A (p_pending p)" "play_walk A (\<lambda>s. 0) es = Some c"
    "\<And>s. m_app s \<notin> set A \<Longrightarrow> owed_count (p_pending p) s + held_count (p_saved p) s \<le> c s" using ok by (auto simp: credit_ok_def)
  show ?thesis
  proof (cases "owed_now now p = []")
    case True
    then have "p' = p\<lparr>p_paused := False, p_saved := [], p_pending := []\<rparr>"
      "trail w' = trail w @ [if next_ok w then Pause_cleared else Pause_uncleared]"
      using p by (auto simp: resume_def)
    then show ?thesis using credit_more [OF c(2), of "[if next_ok w then Pause_cleared else Pause_uncleared]" c p'] by simp
  next
    case False
    obtain fails by_app w1 where f: "foldl resume_session ([], [], w) (owed_now now p) = (fails, by_app, w1)"
      by (cases "foldl resume_session ([], [], w) (owed_now now p)") auto
    have "sweep_owed A ([] @ owed_now now p)"
      using sweep_owed_filter [OF c(1)] by (auto simp: owed_now_def sweep_owed_def list_all_iff)
    moreover have "owed_count ([] @ owed_now now p) s \<le> c s" if "m_app s \<notin> set A" for s
      using c(3) [OF that] owed_count_filter [of "\<lambda>q. \<not> pause_expired (o_at q) now" "p_pending p" s]
      by (simp add: owed_now_def owed_count_saved)
    ultimately have "list_all (\<lambda>q. o_app q \<in> set A) by_app \<and> sweep_owed A fails \<and>
      (\<exists>es c'. trail w1 = trail w @ es \<and> play_walk A c es = Some c' \<and>
         (\<forall>s. m_app s \<notin> set A \<longrightarrow> owed_count fails s \<le> c' s))"
      by (intro resume_loop_credit [OF f]) simp_all
    then obtain fs c1 where fs: "list_all (\<lambda>q. o_app q \<in> set A) by_app" "sweep_owed A fails" "trail w1 = trail w @ fs"
      "play_walk A c fs = Some c1" "\<And>s. m_app s \<notin> set A \<Longrightarrow> owed_count fails s \<le> c1 s"
      by (elim conjE exE) blast
    obtain rest w2 where r: "resume_rest now fails by_app w1 = (rest, w2)" by fastforce
    obtain gs c2 where gs: "sweep_owed A rest" "\<And>s. m_app s \<notin> set A \<Longrightarrow> owed_count rest s \<le> owed_count (fails @ by_app) s"
      "trail w2 = trail w1 @ gs" "play_walk A c1 gs = Some c2" "\<And>s. m_app s \<notin> set A \<Longrightarrow> c2 s = c1 s"
      using resume_rest_walk [OF r fs(1,2)] by blast
    define l where "l = lit ''media resume failed apps='' @ log_apps (unique_apps (map o_app rest))"
    define hs where "hs = (if rest = [] then [if next_ok w2 then Pause_cleared else Pause_uncleared]
      else [Noted l, if next_ok (noted l w2) then Pause_written (unique_apps (map o_app rest)) (oldest rest now) else Pause_unwritten])"
    have p': "p' = p\<lparr>p_paused := False, p_saved := [], p_pending := rest\<rparr>" "trail w' = trail w @ fs @ gs @ hs"
      using p False f r fs(3) gs(3) by (auto simp: resume_def Let_def hs_def l_def)
    have "play_walk A c (fs @ gs @ hs) = Some c2" using fs(4) gs(4) by (simp add: play_walk_append hs_def)
    moreover have "owed_count rest s \<le> c2 s" if "m_app s \<notin> set A" for s
    proof -
      have "owed_count by_app s = 0"
        using resume_by_app [OF f] by (simp add: owed_count_def count_list_0_iff) blast
      then show ?thesis using gs(2,5) [OF that] fs(5) [OF that] by simp
    qed
    ultimately have "credit_ok A p' (es @ (fs @ gs @ hs))"
      using gs(1) by (intro credit_more [OF c(2)]) (auto simp: p')
    then show ?thesis using p'(2) by blast
  qed
qed

lemma recover_credit:
  assumes ok: "credit_ok A p es" and p: "recover_paused now p w = (p', w')"
  shows "\<exists>fs. trail w' = trail w @ fs \<and> credit_ok (A @ file_apps w) p' (es @ fs)"
proof -
  let ?A = "A @ file_apps w"
  obtain c where c: "sweep_owed A (p_pending p)" "play_walk A (\<lambda>s. 0) es = Some c"
    "\<And>s. m_app s \<notin> set A \<Longrightarrow> owed_count (p_pending p) s + held_count (p_saved p) s \<le> c s" using ok by (auto simp: credit_ok_def)
  have c1: "sweep_owed ?A (p_pending p)" "play_walk ?A (\<lambda>s. 0) es = Some c"
    using c(1) play_walk_mono [OF c(2), of ?A] by (auto simp: sweep_owed_def list_all_iff)
  show ?thesis
  proof (cases "pause_file w")
    case None
    then have "p' = p" "w' = w" using p by (simp_all add: recover_paused_def)
    then show ?thesis using ok None by (intro exI [of _ "[]"]) (simp add: file_apps_def)
  next
    case (Some f)
    obtain as t where f: "pause_file w = Some (as, t)" using Some by (cases f) simp
    have as: "file_apps w = as" by (simp add: file_apps_def f)
    obtain res w1 where s: "pause_sweep now w = (res, w1)" by fastforce
    have sw: "(\<forall>resumed fails. res = Some (resumed, fails) \<longrightarrow>
          list_all (\<lambda>p. snd p = m_app (fst p) \<and> snd p \<in> set ?A) fails) \<and>
        (\<exists>fs c'. trail w1 = trail w @ fs \<and> play_walk ?A c fs = Some c' \<and> (\<forall>s. m_app s \<notin> set ?A \<longrightarrow> c' s = c s))"
    proof (cases "as = [] \<or> pause_expired (case t of Some t \<Rightarrow> t | None \<Rightarrow> now) now")
      case True
      then have "res = Some ([], [])" "w1 = clear_pause w" using s by (auto simp: pause_sweep_def f Let_def)
      then show ?thesis by (auto intro!: exI [of _ "[if next_ok w then Pause_cleared else Pause_uncleared]"] exI [of _ c])
    next
      case False
      obtain a w2 where a: "resume_apps as w = (a, w2)" by fastforce
      have "set as \<subseteq> set ?A" by (simp add: as)
      note walk = resume_apps_walk [OF a this]
      have "\<exists>fs c'. trail w2 = trail w @ fs \<and> play_walk ?A c fs = Some c' \<and> (\<forall>s. m_app s \<notin> set ?A \<longrightarrow> c' s = c s)"
        using conjunct2 [OF walk] by (elim exE conjE) blast
      then obtain fs c' where
        fs: "\<forall>fails. a = Inr fails \<longrightarrow> list_all (\<lambda>p. snd p = m_app (fst p) \<and> snd p \<in> set ?A) fails"
        "trail w2 = trail w @ fs" "play_walk ?A c fs = Some c'" "\<forall>s. m_app s \<notin> set ?A \<longrightarrow> c' s = c s"
        using conjunct1 [OF walk] by blast
      show ?thesis
      proof (cases a)
        case (Inl e)
        then have "res = None" "w1 = w2" using s False a by (auto simp: pause_sweep_def f Let_def)
        then show ?thesis using fs by auto
      next
        case (Inr fails)
        then have r: "res = Some (filter (\<lambda>a. a \<notin> set (unique_apps (map snd fails))) as, fails)"
          "w1 = (if unique_apps (map snd fails) = [] then clear_pause w2
             else write_pause (unique_apps (map snd fails)) (case t of Some t \<Rightarrow> t | None \<Rightarrow> now) w2)"
          using s False a by (auto simp: pause_sweep_def f Let_def)
        have "\<exists>e. trail w1 = trail w2 @ [e] \<and> (\<forall>c. play_walk ?A c [e] = Some c)" unfolding r(2) by auto
        then obtain e where "trail w1 = trail w @ fs @ [e]" "play_walk ?A c (fs @ [e]) = Some c'"
          using fs(2,3) by (auto simp: play_walk_append)
        then show ?thesis using fs(1,4) Inr r(1) by blast
      qed
    qed
    then obtain fs c' where fs: "trail w1 = trail w @ fs" "play_walk ?A c fs = Some c'" "\<And>s. m_app s \<notin> set ?A \<Longrightarrow> c' s = c s"
      by blast
    have "\<exists>gs more. trail w' = trail w1 @ gs \<and> (\<forall>c. play_walk ?A c gs = Some c) \<and> p' = p\<lparr>p_pending := p_pending p @ more\<rparr> \<and>
        sweep_owed ?A more \<and> (\<forall>s. m_app s \<notin> set ?A \<longrightarrow> owed_count more s = 0)"
    proof (cases res)
      case None
      let ?more = "if pause_expired (case t of Some t \<Rightarrow> t | None \<Rightarrow> now) now then []
        else map (\<lambda>a. \<lparr>o_session = None, o_app = a, o_at = (case t of Some t \<Rightarrow> t | None \<Rightarrow> now)\<rparr>) as"
      have "w' = w1" "p' = p\<lparr>p_pending := p_pending p @ ?more\<rparr>"
        using p s None by (auto simp: recover_paused_def f Let_def split: if_splits)
      moreover have "sweep_owed ?A ?more" "owed_count ?more q = 0" for q
        by (auto simp: sweep_owed_def list_all_iff as owed_count_def count_list_0_iff)
      ultimately show ?thesis by (intro exI [of _ "[]"] exI [of _ ?more]) simp
    next
      case (Some x)
      obtain resumed fails where x: "res = Some (resumed, fails)" using Some by (cases x) simp
      let ?more = "map (\<lambda>(s, app). \<lparr>o_session = Some s, o_app = app, o_at = (case t of Some t \<Rightarrow> t | None \<Rightarrow> now)\<rparr>) fails"
      define w2 where "w2 = (if resumed = [] then w1
                          else noted (lit ''startup sweep: media resume apps='' @ log_apps resumed) w1)"
      define w3 where "w3 = (if fails = [] then w2
                          else noted (lit ''startup sweep: media resume failed apps='' @
                                 log_apps (unique_apps (map snd fails))) w2)"
      have pw: "p' = p\<lparr>p_pending := p_pending p @ ?more\<rparr>" "w' = w3"
        using p unfolding recover_paused_def f s x w2_def w3_def by (simp_all only: option.case prod.case Let_def prod.inject)
      have q: "\<exists>gs. trail (if b then v else noted l v) = trail v @ gs \<and> (\<forall>c. play_walk ?A c gs = Some c)" for b v l
        by (cases b) auto
      obtain gs where gs: "trail w2 = trail w1 @ gs" "\<forall>c. play_walk ?A c gs = Some c" unfolding w2_def using q by blast
      obtain hs where hs: "trail w3 = trail w2 @ hs" "\<forall>c. play_walk ?A c hs = Some c" unfolding w3_def using q by blast
      have "trail w' = trail w1 @ gs @ hs" "\<forall>c. play_walk ?A c (gs @ hs) = Some c" using pw(2) gs hs by (simp_all add: play_walk_append)
      moreover have "list_all (\<lambda>p. snd p = m_app (fst p) \<and> snd p \<in> set ?A) fails" using sw x by blast
      ultimately show ?thesis using owed_of_sweep pw(1) by blast
    qed
    then obtain gs more where gs: "trail w' = trail w1 @ gs" "\<forall>c. play_walk ?A c gs = Some c"
      "p' = p\<lparr>p_pending := p_pending p @ more\<rparr>" "sweep_owed ?A more" "\<And>s. m_app s \<notin> set ?A \<Longrightarrow> owed_count more s = 0" by blast
    have "credit_ok ?A p' (es @ (fs @ gs))"
    proof (rule credit_more [OF c1(2)])
      show "play_walk ?A c (fs @ gs) = Some c'" using fs(2) gs(2) by (simp add: play_walk_append)
      show "sweep_owed ?A (p_pending p')" using c1(1) gs(3,4) by simp
      show "owed_count (p_pending p') s + held_count (p_saved p') s \<le> c' s" if "m_app s \<notin> set ?A" for s
        using that c(3) [of s] fs(3) [OF that] gs(3) gs(5) [OF that] by simp
    qed
    then show ?thesis using fs(1) gs(1) by auto
  qed
qed

lemma pause_step_credit:
  assumes "credit_ok A p es" "pause_step (p, w, A) i = (p', w', A')"
  shows "\<exists>fs. trail w' = trail w @ fs \<and> credit_ok A' p' (es @ fs)"
proof (cases i)
  case (Do_pause now)
  then show ?thesis using assms pause_credit by (auto split: prod.splits)
next
  case (Do_resume now)
  obtain wanted q v where r: "resume now p w = (wanted, q, v)" by (cases "resume now p w") auto
  then show ?thesis using resume_credit [OF assms(1) r] assms(2) Do_resume by simp
next
  case (Do_recover now)
  then show ?thesis using assms recover_credit by (auto split: prod.splits)
next
  case (Media_outside ss f as)
  then show ?thesis using assms by (intro exI [of _ "[]"]) auto
qed

lemma pause_runs_credit:
  "credit_ok A p es \<Longrightarrow> foldl pause_step (p, w, A) is = (p', w', A') \<Longrightarrow>
     \<exists>fs. trail w' = trail w @ fs \<and> credit_ok A' p' (es @ fs)"
proof (induction "is" arbitrary: p w A es)
  case Nil
  then show ?case by (intro exI [of _ "[]"]) simp
next
  case (Cons i "is")
  obtain p1 w1 A1 where 1: "pause_step (p, w, A) i = (p1, w1, A1)" by (cases "pause_step (p, w, A) i") auto
  obtain fs where fs: "trail w1 = trail w @ fs" "credit_ok A1 p1 (es @ fs)" using pause_step_credit [OF Cons.prems(1) 1] by blast
  from Cons.IH [OF fs(2)] obtain gs where "trail w' = trail w1 @ gs" "credit_ok A' p' ((es @ fs) @ gs)"
    using Cons.prems(2) 1 by auto
  then show ?case using fs(1) by (intro exI [of _ "fs @ gs"]) simp
qed

text \<open>C35: Sonara plays no media it did not pause: over any run of pauses, resumes and startup sweeps (whatever calls and
  file operations fail or time out, whatever apps and users do in between) each play of a session answers a
  pause of that very session, asked for before and answered by no other play, or is of an app that a startup
  sweep found in the file an earlier runtime left; and what is still held or owed, but for those apps, has its
  unanswered pause. So a tab that was paused by the user stays paused, also when it shares its app with one
  that played, except after a crash, when only the app is known.\<close>

theorem every_play_answers_a_pause:
  "let (p', w', A) = foldl pause_step (new_pauser, w, []) is in
     case play_walk A (\<lambda>s. 0) (news w w') of
       None \<Rightarrow> False
     | Some c \<Rightarrow> (\<forall>s. m_app s \<in> set A \<or> owed_count (p_pending p') s + held_count (p_saved p') s \<le> c s)"
proof -
  obtain p' w' A where r: "foldl pause_step (new_pauser, w, []) is = (p', w', A)"
    by (cases "foldl pause_step (new_pauser, w, []) is") auto
  have "credit_ok [] new_pauser []" by (simp add: credit_ok_def new_pauser_def)
  from pause_runs_credit [OF this r] show ?thesis by (auto simp: r credit_ok_def news_eq)
qed

section \<open>A resume undoes a pause\<close>

lemma media_calls_succeed:
  assumes "answers w = []"
  shows "media_sessions w = (Inr (medias w), w)" "app_id s w = (Inr (m_app s), w)"
    "is_playing s w = (Inr (playing w (m_sess s)), w)"
    "pause_media s w = (Inr (), emit (Media_paused s) (w\<lparr>playing := (playing w)(m_sess s := False)\<rparr>))"
    "play_media s w = (Inr (), emit (Media_played s) (w\<lparr>playing := (playing w)(m_sess s := True)\<rparr>))"
  by (simp_all add: media_sessions_def app_id_def is_playing_def pause_media_def play_media_def attempt_succeeds ask_def
      assms)

definition media_keys :: "(media_session \<times> str) list \<Rightarrow> nat set" where
  "media_keys saved = (\<lambda>q. m_sess (fst q)) ` set saved"

lemma media_keys_simps [simp]: "media_keys [] = {}" "media_keys (saved @ [(s, a)]) = insert (m_sess s) (media_keys saved)"
  "media_keys ((s, a) # saved) = insert (m_sess s) (media_keys saved)"
  by (auto simp: media_keys_def)

lemma pause_loop_succeeds:
  assumes "answers w = []" "playing w = (\<lambda>k. f k \<and> k \<notin> media_keys saved)"
    "media_keys saved = m_sess ` set (filter (\<lambda>s. f (m_sess s)) seen)"
  shows "\<exists>saved' w'. foldl (pause_session now pend) (saved, w) ss = (saved', w') \<and> answers w' = [] \<and>
    playing w' = (\<lambda>k. f k \<and> k \<notin> media_keys saved') \<and>
    media_keys saved' = m_sess ` set (filter (\<lambda>s. f (m_sess s)) (seen @ ss))"
  using assms
proof (induction ss arbitrary: saved w seen)
  case Nil
  then show ?case by simp
next
  case (Cons s ss)
  let ?on = "playing w (m_sess s)"
  define saved1 where "saved1 = (if ?on then saved @ [(s, m_app s)] else saved)"
  define w1 where "w1 = (if ?on then emit (Media_paused s)
    ((record_apps now pend (map snd saved @ [m_app s]) w)\<lparr>playing := (playing w)(m_sess s := False)\<rparr>) else w)"
  have step: "pause_session now pend (saved, w) s = (saved1, w1)"
    using Cons.prems(1) by (simp add: pause_session_def media_calls_succeed saved1_def w1_def)
  have inv: "answers w1 = []" "playing w1 = (\<lambda>k. f k \<and> k \<notin> media_keys saved1)"
    using Cons.prems(1,2) by (auto simp: w1_def saved1_def fun_eq_iff)
  have "media_keys saved1 = m_sess ` set (filter (\<lambda>s. f (m_sess s)) (seen @ [s]))"
  proof (cases ?on)
    case True
    then show ?thesis using Cons.prems(2,3) by (auto simp: saved1_def)
  next
    case False
    then have "\<not> f (m_sess s) \<or> m_sess s \<in> media_keys saved" using Cons.prems(2) by simp
    then show ?thesis using False Cons.prems(3) by (auto simp: saved1_def)
  qed
  from Cons.IH [OF inv this] show ?case using step by simp
qed

lemma resume_loop_succeeds:
  assumes "answers w = []"
  shows "\<exists>w'. foldl resume_session ([], [], w) (map (\<lambda>(s, app). \<lparr>o_session = Some s, o_app = app, o_at = t\<rparr>) saved) =
      ([], [], w') \<and> answers w' = [] \<and> playing w' = (\<lambda>k. k \<in> media_keys saved \<or> playing w k)"
  using assms
proof (induction saved arbitrary: w)
  case Nil
  then show ?case by simp
next
  case (Cons q saved)
  obtain s a where q: "q = (s, a)" by (cases q)
  define w1 where "w1 = (if playing w (m_sess s) then w
    else emit (Media_played s) (w\<lparr>playing := (playing w)(m_sess s := True)\<rparr>))"
  have step: "resume_session ([], [], w) \<lparr>o_session = Some s, o_app = a, o_at = t\<rparr> = ([], [], w1)"
    using Cons.prems by (simp add: resume_session_def media_calls_succeed w1_def split: bool.splits)
  have 1: "answers w1 = []" "playing w1 = (playing w)(m_sess s := True)" using Cons.prems by (auto simp: w1_def fun_eq_iff)
  from Cons.IH [OF 1(1)] show ?case using step 1(2) by (auto simp: q)
qed

text \<open>The calls for media leave the volumes alone.\<close>

lemma pause_session_volumes: "volumes (snd (pause_session now pend acc s)) = volumes (snd acc)"
proof -
  obtain saved w where acc: "acc = (saved, w)" by (cases acc)
  have 1: "volumes w2 = volumes w1" if "app_id s w1 = (a, w2)" for a w1 w2
    using read_frame(2) [of _ w1] that by (metis app_id_def snd_conv)
  have 2: "volumes w2 = volumes w1" if "is_playing s w1 = (a, w2)" for a w1 w2
    using read_frame(2) [of _ w1] that by (metis is_playing_def snd_conv)
  have 3: "volumes w2 = volumes w1" if "pause_media s w1 = (a, w2)" for a w1 w2
    using media_frame(1) [of s w1] that by simp
  have 4: "volumes (record_apps now pend as v) = volumes v" for as v by (simp add: record_apps_def Let_def)
  show ?thesis
    by (auto simp: acc pause_session_def Let_def 4 split: sum.splits prod.splits bool.splits if_splits dest!: 1 2 3)
qed

lemma resume_session_volumes: "volumes (snd (snd (resume_session acc q))) = volumes (snd (snd acc))"
proof -
  obtain fails by_app w where acc: "acc = (fails, by_app, w)" by (cases acc)
  have 1: "volumes w2 = volumes w1" if "is_playing s w1 = (a, w2)" for s a w1 w2
    using read_frame(2) [of _ w1] that by (metis is_playing_def snd_conv)
  have 2: "volumes w2 = volumes w1" if "play_media s w1 = (a, w2)" for s a w1 w2
    using media_frame(2) [of s w1] that by simp
  show ?thesis
    by (auto simp: acc resume_session_def split: option.splits sum.splits prod.splits bool.splits dest!: 1 2)
qed

lemma pause_halts:
  assumes "answers w = []" "\<not> p_paused p" "p_pending p = []" "pause now p w = (p1, w1)"
  shows "playing w1 = (\<lambda>k. playing w k \<and> k \<notin> media_keys (p_saved p1))"
    "media_keys (p_saved p1) = m_sess ` set (filter (\<lambda>s. playing w (m_sess s)) (medias w))"
    "answers w1 = []" "p_paused p1" "p_pending p1 = []" "volumes w1 = volumes w"
proof -
  obtain saved v where loop: "foldl (pause_session now []) ([], w) (medias w) = (saved, v)" "answers v = []"
    "playing v = (\<lambda>k. playing w k \<and> k \<notin> media_keys saved)"
    "media_keys saved = m_sess ` set (filter (\<lambda>s. playing w (m_sess s)) (medias w))"
    using pause_loop_succeeds [of w "playing w" "[]" "[]" now "[]" "medias w"] assms(1) by auto
  have vol: "volumes v = volumes w"
    using foldl_keeps [where g = "\<lambda>acc. volumes (snd acc)" and f = "pause_session now []", OF pause_session_volumes, of "([], w)" "medias w"]
      loop(1) by simp
  have 1: "p1 = p\<lparr>p_paused := True, since := now, p_saved := saved\<rparr>" "w1 = record_apps now [] (map snd saved) v"
    using assms loop(1) by (simp_all add: pause_def media_calls_succeed)
  show "playing w1 = (\<lambda>k. playing w k \<and> k \<notin> media_keys (p_saved p1))"
    "media_keys (p_saved p1) = m_sess ` set (filter (\<lambda>s. playing w (m_sess s)) (medias w))"
    "answers w1 = []" "p_paused p1" "p_pending p1 = []"
    using loop assms(3) by (simp_all add: 1)
  show "volumes w1 = volumes w" using vol by (simp add: 1 record_apps_def Let_def)
qed

lemma resume_plays:
  assumes "answers w = []" "p_paused p" "p_pending p = []" "resume later p w = (wanted, p2, w2)"
  shows "playing w2 = (\<lambda>k. k \<in> media_keys (p_saved p) \<or> playing w k)" "answers w2 = []" "wanted = paused_apps p"
    "p2 = p\<lparr>p_paused := False, p_saved := [], p_pending := []\<rparr>" "volumes w2 = volumes w" "pause_file w2 = None"
proof -
  have todo: "owed_now later p = map (\<lambda>(s, app). \<lparr>o_session = Some s, o_app = app, o_at = since p\<rparr>) (p_saved p)"
    using assms(2,3) by (simp add: owed_now_def)
  have "map o_app (owed_now later p) = map snd (p_saved p)" unfolding todo by (induction "p_saved p") auto
  then have ap: "unique_apps (map o_app (owed_now later p)) = paused_apps p" by (simp add: paused_apps_def)
  obtain v where v: "foldl resume_session ([], [], w) (owed_now later p) = ([], [], v)"
    "playing v = (\<lambda>k. k \<in> media_keys (p_saved p) \<or> playing w k)" "answers v = []"
    using resume_loop_succeeds [OF assms(1), of "since p" "p_saved p"] by (auto simp: todo)
  have vol: "volumes v = volumes w"
    using foldl_keeps [where g = "\<lambda>acc. volumes (snd (snd acc))" and f = resume_session, OF resume_session_volumes,
        of "([], [], w)" "owed_now later p"] v(1) by simp
  have "resume later p w = (paused_apps p, p\<lparr>p_paused := False, p_saved := [], p_pending := []\<rparr>, clear_pause v)"
    using v(1) ap by (cases "owed_now later p = []") (auto simp: resume_def Let_def resume_rest_def)
  then have 2: "wanted = paused_apps p" "p2 = p\<lparr>p_paused := False, p_saved := [], p_pending := []\<rparr>" "w2 = clear_pause v"
    using assms(4) by simp_all
  show "playing w2 = (\<lambda>k. k \<in> media_keys (p_saved p) \<or> playing w k)" "answers w2 = []" "wanted = paused_apps p"
    "p2 = p\<lparr>p_paused := False, p_saved := [], p_pending := []\<rparr>" "volumes w2 = volumes w" "pause_file w2 = None"
    using v vol 2 by simp_all
qed

text \<open>C36: When no platform call fails, pausing stops exactly the media that plays, and resuming plays exactly these
  sessions again, whatever the user stopped or started in between: what plays already is left alone, what was
  paused before stays paused. Nothing stays owed and the file is gone.\<close>

theorem resume_undoes_pause:
  assumes "answers w = []" "\<not> p_paused p" "p_pending p = []"
  shows "let (p1, w1) = pause now p w;
             (wanted, p2, w2) = resume later p1 (w1\<lparr>playing := f, medias := ss\<rparr>);
             keys = m_sess ` set (filter (\<lambda>s. playing w (m_sess s)) (medias w))
         in playing w1 = (\<lambda>k. playing w k \<and> k \<notin> keys) \<and> playing w2 = (\<lambda>k. k \<in> keys \<or> f k) \<and>
            wanted = paused_apps p1 \<and> \<not> p_paused p2 \<and> p_saved p2 = [] \<and> p_pending p2 = [] \<and> pause_file w2 = None"
proof -
  obtain p1 w1 where 1: "pause now p w = (p1, w1)" by fastforce
  note halt = pause_halts [OF assms 1]
  define v where "v = w1\<lparr>playing := f, medias := ss\<rparr>"
  obtain wanted p2 w2 where 2: "resume later p1 v = (wanted, p2, w2)" by (cases "resume later p1 v") auto
  have "answers v = []" "playing v = f" using halt(3) by (simp_all add: v_def)
  with resume_plays [OF _ halt(4,5) 2] halt(1,2) show ?thesis by (simp add: 1 v_def [symmetric] 2)
qed

text \<open>Two tabs of a browser, one of them playing.\<close>

definition demo_media :: os where
  "demo_media = demo_os\<lparr>medias := [\<lparr>m_sess = 0, m_app = [98]\<rparr>, \<lparr>m_sess = 1, m_app = [98]\<rparr>], playing := (\<lambda>k. k = 0)\<rparr>"

lemma demo_media_simps: "answers demo_media = []"
  "playing demo_media = (\<lambda>k. k = 0)" "medias demo_media = [\<lparr>m_sess = 0, m_app = [98]\<rparr>, \<lparr>m_sess = 1, m_app = [98]\<rparr>]"
  "\<not> p_paused new_pauser" "p_pending new_pauser = []"
  by (simp_all add: demo_media_def demo_os_simps new_pauser_def)

theorem resume_undoes_pause_witness:
  "let (p1, w1) = pause 1000 new_pauser demo_media;
       (wanted, p2, w2) = resume 1007 p1 (w1\<lparr>playing := (\<lambda>k. False), medias := []\<rparr>)
   in playing w1 = (\<lambda>k. False) \<and> playing w2 = (\<lambda>k. k = 0) \<and> pause_file w2 = None"
  using resume_undoes_pause [of demo_media new_pauser, where now = 1000 and later = 1007 and f = "\<lambda>k. False" and ss = "[]"]
  by (auto simp: demo_media_simps Let_def split: prod.splits)

theorem paused_media_is_on_disk_witness:
  "let (p', w') = pause 1000 new_pauser demo_media in
     pause_walk (file_apps demo_media, False, []) (news demo_media w') \<noteq> None"
  using paused_media_is_on_disk [of new_pauser 1000 demo_media]
  by (simp add: demo_media_simps Let_def split: prod.splits)

end
