(* ===== verification/Audio_Worker.thy ===== *)
theory Audio_Worker imports Pausing_Runs Reader begin

text \<open>
  When other apps are turned down or paused, and when they come back: \<open>crates/sonara-system/src/audio.rs\<close>. The
  status the clients set and the worker reads (\<open>Status\<close>), the worker thread's own state (\<open>Worker\<close>) and the
  system it drives are one record; one turn of its loop is \<open>turn\<close>, at the time \<open>ms\<close> of a clock in milliseconds
  and \<open>secs\<close> of the calendar clock.
\<close>

section \<open>Modes, activities, commands\<close>

datatype audio_mode = Audio_off | Audio_duck | Audio_pause

definition audio_mode_parse :: "str \<Rightarrow> audio_mode option" where
  "audio_mode_parse s =
     (if s = lit ''off'' then Some Audio_off else if s = lit ''duck'' then Some Audio_duck
      else if s = lit ''pause'' then Some Audio_pause else None)"

fun audio_mode_str :: "audio_mode \<Rightarrow> str" where
  "audio_mode_str Audio_off = lit ''off''"
| "audio_mode_str Audio_duck = lit ''duck''"
| "audio_mode_str Audio_pause = lit ''pause''"

datatype activity = Act_idle | Act_held | Act_stepping | Act_speaking

definition activity_of :: "reader_state \<Rightarrow> activity" where
  "activity_of st =
     (case st_now_playing st of
        None \<Rightarrow> Act_idle
      | Some _ \<Rightarrow>
          if st_stepping st \<and> \<not> st_muted st then Act_stepping
          else if st_paused st \<or> st_muted st then Act_held else Act_speaking)"

text \<open>Why other apps are engaged: the item being read, with its label when it has one (\<open>log.rs\<close>).\<close>

definition reading_reason :: "reader_state \<Rightarrow> str option" where
  "reading_reason st =
     (case st_now_playing st of
        None \<Rightarrow> None
      | Some np \<Rightarrow>
          Some (lit ''reading item='' @ dec (np_item_id np) @
            (case np_label np of
               Some l \<Rightarrow> if l = [] then [] else lit '' session='' @ log_value l
             | None \<Rightarrow> [])))"

definition DEFAULT_DUCK_LEVEL :: nat where "DEFAULT_DUCK_LEVEL = 30"
definition IDLE_GRACE :: nat where "IDLE_GRACE = 400"
definition STEP_GRACE :: nat where "STEP_GRACE = 30 * 1000"

datatype cmd =
    Cmd_activity activity "str option"
  | Cmd_mode
  | Cmd_level nat
  | Cmd_arm
  | Cmd_recover
  | Cmd_sync
  | Cmd_shutdown

text \<open>What ends the worker's wait: a command, the time it waits at most, or that all clients are gone.\<close>

datatype wake = Got cmd | Timed_out | Hung_up

record audio =
  mode :: audio_mode
  duck_level :: nat
  armed :: bool
  activity :: activity
  shown_ducked :: bool
  shown_paused :: bool
  ducker :: ducker
  pauser :: pauser
  idle_since :: "nat option"
  why_engaged :: "str option"
  stopped :: bool
  sys :: os

record audio_config =
  exclude_pids :: "nat list"
  idle_grace :: nat

definition new_audio :: "os \<Rightarrow> audio" where
  "new_audio w =
     \<lparr>mode = Audio_off, duck_level = DEFAULT_DUCK_LEVEL, armed = False, activity = Act_idle, shown_ducked = False,
      shown_paused = False, ducker = new_ducker, pauser = new_pauser, idle_since = None, why_engaged = None,
      stopped = False, sys = w\<rparr>"

section \<open>The worker\<close>

definition publish :: "audio \<Rightarrow> audio" where
  "publish a = a\<lparr>shown_ducked := ducked (ducker a), shown_paused := p_paused (pauser a)\<rparr>"

definition engaged :: "audio \<Rightarrow> bool" where
  "engaged a \<longleftrightarrow> ducked (ducker a) \<or> p_paused (pauser a)"

definition say_line :: "str list \<Rightarrow> str \<Rightarrow> audio \<Rightarrow> audio" where
  "say_line names line a = (if names = [] then a else a\<lparr>sys := noted line (sys a)\<rparr>)"

definition duck_line :: "str list \<Rightarrow> nat \<Rightarrow> str \<Rightarrow> str" where
  "duck_line names level why =
     lit ''duck apps='' @ log_apps names @ lit '' level='' @ dec level @ lit '' (reason: '' @ why @ lit '')''"

definition because :: "string \<Rightarrow> str list \<Rightarrow> str \<Rightarrow> str" where
  "because what names why = lit what @ lit '' apps='' @ log_apps names @ lit '' (reason: '' @ why @ lit '')''"

definition engage_reason :: "audio \<Rightarrow> str" where
  "engage_reason a = (case why_engaged a of Some r \<Rightarrow> r | None \<Rightarrow> lit ''reading'')"

definition work_duck :: "'u unicode_scheme \<Rightarrow> audio_config \<Rightarrow> nat \<Rightarrow> nat \<Rightarrow> str \<Rightarrow> audio \<Rightarrow> audio" where
  "work_duck U cfg secs level why a =
     (let (d, w) = duck U (exclude_pids cfg) level secs (ducker a) (sys a);
          names = app_names (map snd (duck_saved d))
      in say_line names (duck_line names level why) (a\<lparr>ducker := d, sys := w\<rparr>))"

definition work_restore :: "nat \<Rightarrow> str \<Rightarrow> audio \<Rightarrow> audio" where
  "work_restore secs why a =
     (let names = app_names (map snd (duck_saved (ducker a)));
          (d, w) = restore secs (ducker a) (sys a)
      in say_line names (because ''restore'' names why) (a\<lparr>ducker := d, sys := w\<rparr>))"

definition work_pause :: "nat \<Rightarrow> str \<Rightarrow> audio \<Rightarrow> audio" where
  "work_pause secs why a =
     (let (p, w) = pause secs (pauser a) (sys a); names = paused_apps p
      in say_line names (because ''media pause'' names why) (a\<lparr>pauser := p, sys := w\<rparr>))"

definition work_resume :: "nat \<Rightarrow> str \<Rightarrow> audio \<Rightarrow> audio" where
  "work_resume secs why a =
     (let (names, p, w) = resume secs (pauser a) (sys a)
      in say_line names (because ''media resume'' names why) (a\<lparr>pauser := p, sys := w\<rparr>))"

definition restore_all :: "nat \<Rightarrow> str \<Rightarrow> audio \<Rightarrow> audio" where
  "restore_all secs why a =
     (let a1 = (if ducked (ducker a) then work_restore secs why a else a);
          a2 = (if p_paused (pauser a1) then work_resume secs why a1 else a1)
      in a2\<lparr>idle_since := None\<rparr>)"

definition grace_for :: "audio_config \<Rightarrow> activity \<Rightarrow> nat option" where
  "grace_for cfg act =
     (case act of Act_idle \<Rightarrow> Some (idle_grace cfg) | Act_stepping \<Rightarrow> Some STEP_GRACE | _ \<Rightarrow> None)"

definition restore_reason :: "audio \<Rightarrow> str" where
  "restore_reason a =
     (if \<not> armed a then lit ''disarmed'' else if mode a = Audio_off then lit ''mode off''
      else if activity a = Act_held then lit ''paused or muted'' else lit ''idle'')"

definition wanted :: "audio \<Rightarrow> bool" where
  "wanted a \<longleftrightarrow> armed a \<and> activity a = Act_speaking \<and> mode a \<noteq> Audio_off"

text \<open>Engage in the mode, releasing the other way first.\<close>

definition engage :: "'u unicode_scheme \<Rightarrow> audio_config \<Rightarrow> nat \<Rightarrow> audio \<Rightarrow> audio" where
  "engage U cfg secs a =
     (case mode a of
        Audio_duck \<Rightarrow>
          (let a1 = (if p_paused (pauser a) then work_resume secs (lit ''mode duck'') a else a)
           in if ducked (ducker a1) then a1 else work_duck U cfg secs (duck_level a1) (engage_reason a1) a1)
      | Audio_pause \<Rightarrow>
          (let a1 = (if ducked (ducker a) then work_restore secs (lit ''mode pause'') a else a)
           in if p_paused (pauser a1) then a1 else work_pause secs (engage_reason a1) a1)
      | Audio_off \<Rightarrow> a)"

definition reconcile :: "'u unicode_scheme \<Rightarrow> audio_config \<Rightarrow> nat \<Rightarrow> nat \<Rightarrow> audio \<Rightarrow> audio" where
  "reconcile U cfg ms secs a =
     publish
       (if wanted a then engage U cfg secs (a\<lparr>idle_since := None\<rparr>)
        else if engaged a then
          (let wait = grace_for cfg (activity a);
               grace = armed a \<and> mode a \<noteq> Audio_off \<and> (case wait of Some g \<Rightarrow> g \<noteq> 0 | None \<Rightarrow> False)
           in if \<not> grace then restore_all secs (restore_reason a) a
              else (let t0 = (case idle_since a of Some s \<Rightarrow> s | None \<Rightarrow> ms);
                        a1 = a\<lparr>idle_since := Some t0\<rparr>
                    in if (case wait of Some g \<Rightarrow> g | None \<Rightarrow> 0) \<le> ms - t0
                       then restore_all secs (if activity a = Act_stepping then lit ''step wait'' else lit ''idle'') a1
                       else a1))
        else a\<lparr>idle_since := None\<rparr>)"

definition recover_all :: "nat \<Rightarrow> audio \<Rightarrow> audio" where
  "recover_all secs a =
     (let (d, w1) = recover_ducked secs (ducker a) (sys a); (p, w2) = recover_paused secs (pauser a) w1
      in a\<lparr>ducker := d, pauser := p, sys := w2\<rparr>)"

text \<open>How long the worker waits for a command at most; nothing bounds the wait when no grace runs.\<close>

definition wait_left :: "audio_config \<Rightarrow> nat \<Rightarrow> audio \<Rightarrow> nat option" where
  "wait_left cfg ms a =
     (case idle_since a of
        Some t0 \<Rightarrow>
          Some ((case grace_for cfg (activity a) of Some g \<Rightarrow> g | None \<Rightarrow> idle_grace cfg) - (ms - t0))
      | None \<Rightarrow> None)"

definition handle :: "'u unicode_scheme \<Rightarrow> audio_config \<Rightarrow> nat \<Rightarrow> cmd \<Rightarrow> audio \<Rightarrow> audio" where
  "handle U cfg secs c a =
     (case c of
        Cmd_activity act why \<Rightarrow>
          (let a1 = (case why of Some r \<Rightarrow> a\<lparr>why_engaged := Some r\<rparr> | None \<Rightarrow> a) in a1\<lparr>activity := act\<rparr>)
      | Cmd_mode \<Rightarrow> restore_all secs (lit ''mode '' @ audio_mode_str (mode a)) a
      | Cmd_level level \<Rightarrow>
          if ducked (ducker a)
          then (let (d, w) = restore secs (ducker a) (sys a)
                in work_duck U cfg secs level (lit ''level change'') (a\<lparr>ducker := d, sys := w\<rparr>))
          else a
      | Cmd_recover \<Rightarrow> recover_all secs a
      | _ \<Rightarrow> a)"

text \<open>One turn of the loop (\<open>run\<close>).\<close>

definition turn :: "'u unicode_scheme \<Rightarrow> audio_config \<Rightarrow> nat \<Rightarrow> nat \<Rightarrow> wake \<Rightarrow> audio \<Rightarrow> audio" where
  "turn U cfg ms secs wk a =
     (case wk of
        Timed_out \<Rightarrow> reconcile U cfg ms secs a
      | Hung_up \<Rightarrow>
          (let a1 = (restore_all secs (lit ''shutdown'') a)\<lparr>stopped := True\<rparr>
           in if idle_since a = None then publish a1 else a1)
      | Got Cmd_shutdown \<Rightarrow> publish ((restore_all secs (lit ''shutdown'') a)\<lparr>stopped := True\<rparr>)
      | Got c \<Rightarrow> reconcile U cfg ms secs (handle U cfg secs c a))"

section \<open>The clients and the world\<close>

datatype audio_input =
    Turn nat nat wake
  | Set_mode audio_mode
  | Set_level nat
  | Arm bool
  | World "os \<Rightarrow> os"

text \<open>A client changes the status at once and sends the command after it; the worker's turns come when they come.\<close>

definition set_mode :: "audio_mode \<Rightarrow> audio \<Rightarrow> audio" where
  "set_mode m a = a\<lparr>mode := m\<rparr>"

definition set_duck_level :: "nat \<Rightarrow> audio \<Rightarrow> audio" where
  "set_duck_level level a = a\<lparr>duck_level := min level 100\<rparr>"

definition arm :: "bool \<Rightarrow> audio \<Rightarrow> audio" where
  "arm b a = a\<lparr>armed := b\<rparr>"

fun audio_step :: "'u unicode_scheme \<Rightarrow> audio_config \<Rightarrow> audio \<Rightarrow> audio_input \<Rightarrow> audio" where
  "audio_step U cfg a (Turn ms secs wk) = (if stopped a then a else turn U cfg ms secs wk a)"
| "audio_step U cfg a (Set_mode m) = set_mode m a"
| "audio_step U cfg a (Set_level level) = set_duck_level level a"
| "audio_step U cfg a (Arm b) = arm b a"
| "audio_step U cfg a (World f) = a\<lparr>sys := f (sys a)\<rparr>"

end
