(* ===== verification/Audio_Claims.thy ===== *)
theory Audio_Claims imports Audio_Worker begin

text \<open>
  The product rule of \<open>crates/sonara-system/src/audio.rs\<close>: other apps are never left ducked or paused.
\<close>

section \<open>What the parts do to the two flags\<close>

lemma restore_flag [simp]: "\<not> ducked (fst (restore now d w))"
  by (simp add: restore_def Let_def split: prod.splits)

lemma resume_flag [simp]: "\<not> p_paused (fst (snd (resume now p w)))"
  by (simp add: resume_def Let_def split: prod.splits)

lemma say_line_simps [simp]:
  "mode (say_line ns l a) = mode a" "duck_level (say_line ns l a) = duck_level a" "armed (say_line ns l a) = armed a"
  "activity (say_line ns l a) = activity a" "ducker (say_line ns l a) = ducker a" "pauser (say_line ns l a) = pauser a"
  "idle_since (say_line ns l a) = idle_since a" "why_engaged (say_line ns l a) = why_engaged a"
  "stopped (say_line ns l a) = stopped a"
  by (simp_all add: say_line_def)

text \<open>The status and the clock of a record, which no work on the platform changes.\<close>

definition frame_of :: "audio \<Rightarrow> audio_mode \<times> nat \<times> bool \<times> activity \<times> nat option \<times> bool" where
  "frame_of a = (mode a, duck_level a, armed a, activity a, idle_since a, stopped a)"

lemma work_frame [simp]:
  "frame_of (work_duck U cfg secs level why a) = frame_of a" "frame_of (work_restore secs why a) = frame_of a"
  "frame_of (work_pause secs why a) = frame_of a" "frame_of (work_resume secs why a) = frame_of a"
  by (simp_all add: work_duck_def work_restore_def work_pause_def work_resume_def frame_of_def Let_def split: prod.splits)

lemma work_duck_parts:
  "pauser (work_duck U cfg secs level why a) = pauser a"
  "ducker (work_duck U cfg secs level why a) = fst (duck U (exclude_pids cfg) level secs (ducker a) (sys a))"
  by (simp_all add: work_duck_def Let_def split: prod.splits)

lemma work_restore_parts:
  "pauser (work_restore secs why a) = pauser a" "\<not> ducked (ducker (work_restore secs why a))"
  using restore_flag [of secs "ducker a" "sys a"]
  by (cases "restore secs (ducker a) (sys a)", simp add: work_restore_def Let_def)+

lemma work_pause_parts: "ducker (work_pause secs why a) = ducker a"
  by (simp add: work_pause_def Let_def split: prod.splits)

lemma work_resume_parts:
  "ducker (work_resume secs why a) = ducker a" "\<not> p_paused (pauser (work_resume secs why a))"
  using resume_flag [of secs "pauser a" "sys a"]
  by (cases "resume secs (pauser a) (sys a)", simp add: work_resume_def Let_def)+

lemma restore_all_releases: "\<not> engaged (restore_all secs why a)"
  by (simp add: restore_all_def engaged_def Let_def work_restore_parts work_resume_parts)

lemma frame_upd: "frame_of (a\<lparr>idle_since := t\<rparr>) = (mode a, duck_level a, armed a, activity a, t, stopped a)"
  by (simp add: frame_of_def)

lemma restore_all_frame: "frame_of (restore_all secs why a) = (mode a, duck_level a, armed a, activity a, None, stopped a)"
proof -
  have "frame_of (if p_paused (pauser b) then work_resume secs why b else b) = frame_of b" for b by simp
  then have "frame_of (restore_all secs why a) = frame_of ((if ducked (ducker a) then work_restore secs why a else a)\<lparr>idle_since := None\<rparr>)"
    unfolding restore_all_def Let_def by (simp add: frame_of_def)
  also have "\<dots> = frame_of (a\<lparr>idle_since := None\<rparr>)"
    using work_frame(2) [of secs why a] by (simp add: frame_of_def)
  finally show ?thesis by (simp add: frame_of_def)
qed

section \<open>Never both, and only as long as needed\<close>

definition both :: "audio \<Rightarrow> bool" where
  "both a \<longleftrightarrow> ducked (ducker a) \<and> p_paused (pauser a)"

text \<open>After a turn at time \<open>ms\<close>: other apps are turned down or paused only while speech is on, in the mode that is
  set, or within the grace that began when it went off.\<close>

definition settled :: "audio_config \<Rightarrow> nat \<Rightarrow> audio \<Rightarrow> bool" where
  "settled cfg ms a \<longleftrightarrow>
     (if wanted a then (if mode a = Audio_duck then \<not> p_paused (pauser a) else \<not> ducked (ducker a))
      else if engaged a then
        armed a \<and> mode a \<noteq> Audio_off \<and>
        (case (grace_for cfg (activity a), idle_since a) of (Some g, Some t) \<Rightarrow> ms - t < g | _ \<Rightarrow> False)
      else idle_since a = None) \<and>
     shown_ducked a = ducked (ducker a) \<and> shown_paused a = p_paused (pauser a)"

lemma publish_simps [simp]:
  "frame_of (publish a) = frame_of a" "ducker (publish a) = ducker a" "pauser (publish a) = pauser a"
  "shown_ducked (publish a) = ducked (ducker a)" "shown_paused (publish a) = p_paused (pauser a)"
  by (simp_all add: publish_def frame_of_def)

lemma engage_frame [simp]: "frame_of (engage U cfg secs a) = frame_of a"
  by (auto simp: engage_def Let_def split: audio_mode.splits)

lemma engage_one:
  "mode a \<noteq> Audio_off \<Longrightarrow>
     (if mode a = Audio_duck then \<not> p_paused (pauser (engage U cfg secs a)) else \<not> ducked (ducker (engage U cfg secs a)))"
  by (cases "mode a") (simp_all add: engage_def Let_def work_duck_parts work_pause_parts work_restore_parts work_resume_parts)

lemma frame_eq:
  "frame_of a = frame_of b \<longleftrightarrow> mode a = mode b \<and> duck_level a = duck_level b \<and> armed a = armed b \<and>
     activity a = activity b \<and> idle_since a = idle_since b \<and> stopped a = stopped b"
  by (simp add: frame_of_def)

lemma reconcile_settles: "settled cfg ms (reconcile U cfg ms secs a)"
proof (cases "wanted a")
  case True
  define b where "b = publish (engage U cfg secs (a\<lparr>idle_since := None\<rparr>))"
  have r: "reconcile U cfg ms secs a = b" using True by (simp add: reconcile_def b_def)
  have "frame_of b = frame_of (a\<lparr>idle_since := None\<rparr>)" by (simp add: b_def)
  then have f: "mode b = mode a" "armed b = armed a" "activity b = activity a" unfolding frame_eq by simp_all
  have "mode (a\<lparr>idle_since := None\<rparr>) \<noteq> Audio_off" using True by (simp add: wanted_def)
  from engage_one [OF this, of U cfg secs]
  have "if mode a = Audio_duck then \<not> p_paused (pauser b) else \<not> ducked (ducker b)" by (simp add: b_def)
  moreover have "shown_ducked b = ducked (ducker b)" "shown_paused b = p_paused (pauser b)" by (simp_all add: b_def)
  moreover have "wanted b" using True f by (simp add: wanted_def)
  ultimately show ?thesis unfolding r settled_def using f by simp
next
  case w: False
  show ?thesis
  proof (cases "engaged a")
    case False
    then have "reconcile U cfg ms secs a = publish (a\<lparr>idle_since := None\<rparr>)" using w by (simp add: reconcile_def)
    then show ?thesis using w False by (simp add: settled_def wanted_def engaged_def publish_def)
  next
    case True
    define why where "why = (if activity a = Act_stepping then lit ''step wait'' else lit ''idle'')"
    define t where "t = (case idle_since a of Some s \<Rightarrow> s | None \<Rightarrow> ms)"
    define grace where "grace \<longleftrightarrow> armed a \<and> mode a \<noteq> Audio_off \<and>
      (case grace_for cfg (activity a) of Some g \<Rightarrow> g \<noteq> 0 | None \<Rightarrow> False)"
    have released: "settled cfg ms (publish (restore_all secs why' b))" if "frame_of b = frame_of (a\<lparr>idle_since := x\<rparr>)" for why' b x
    proof -
      have "frame_of (restore_all secs why' b) = (mode a, duck_level a, armed a, activity a, None, stopped a)"
        using that unfolding restore_all_frame by (simp add: frame_of_def)
      then have "\<not> wanted (publish (restore_all secs why' b))" "idle_since (publish (restore_all secs why' b)) = None"
        using w by (auto simp: wanted_def frame_of_def publish_def)
      moreover have "\<not> engaged (publish (restore_all secs why' b))"
        using restore_all_releases [of secs why' b] by (simp add: engaged_def)
      ultimately show ?thesis by (simp add: settled_def)
    qed
    have r: "reconcile U cfg ms secs a = publish (if \<not> grace then restore_all secs (restore_reason a) a
        else if (case grace_for cfg (activity a) of Some g \<Rightarrow> g | None \<Rightarrow> 0) \<le> ms - t
          then restore_all secs why (a\<lparr>idle_since := Some t\<rparr>) else a\<lparr>idle_since := Some t\<rparr>)"
      using w True by (simp add: reconcile_def Let_def grace_def t_def why_def)
    show ?thesis
    proof (cases "grace \<and> \<not> (case grace_for cfg (activity a) of Some g \<Rightarrow> g | None \<Rightarrow> 0) \<le> ms - t")
      case False
      have "frame_of a = frame_of (a\<lparr>idle_since := idle_since a\<rparr>)" by (simp add: frame_of_def)
      note this [THEN released]
      then show ?thesis unfolding r using False released [of "a\<lparr>idle_since := Some t\<rparr>" "Some t"] by auto
    next
      case g: True
      then have "reconcile U cfg ms secs a = publish (a\<lparr>idle_since := Some t\<rparr>)" unfolding r by simp
      then show ?thesis using g w True
        by (auto simp: settled_def wanted_def engaged_def publish_def grace_def split: option.splits)
    qed
  qed
qed

lemma engage_keeps_one: "\<not> both a \<Longrightarrow> \<not> both (engage U cfg secs a)"
  by (cases "mode a") (auto simp: both_def engage_def Let_def work_duck_parts work_pause_parts work_restore_parts
      work_resume_parts)

lemma released_not_both: "\<not> engaged a \<Longrightarrow> \<not> both a"
  by (simp add: engaged_def both_def)

lemma reconcile_keeps_one: "\<not> both a \<Longrightarrow> \<not> both (reconcile U cfg ms secs a)"
proof -
  assume a: "\<not> both a"
  have p: "both (publish b) = both b" for b by (simp add: both_def)
  have i: "\<not> both (a\<lparr>idle_since := t\<rparr>)" for t using a by (simp add: both_def)
  show ?thesis unfolding reconcile_def p Let_def
    using a i by (simp add: engage_keeps_one released_not_both restore_all_releases)
qed

lemma recover_ducked_flag: "ducked (fst (recover_ducked now d w)) = ducked d"
  by (simp add: recover_ducked_def Let_def split: prod.splits)

lemma recover_paused_flag: "p_paused (fst (recover_paused now p w)) = p_paused p"
  by (simp add: recover_paused_def Let_def split: option.splits prod.splits)

lemma handle_keeps_one: "\<not> both a \<Longrightarrow> \<not> both (handle U cfg secs c a)"
proof (cases c)
  case Cmd_mode
  then show ?thesis using released_not_both [OF restore_all_releases] by (simp add: handle_def)
next
  case (Cmd_level level)
  moreover assume "\<not> both a"
  ultimately show ?thesis by (auto simp: handle_def both_def work_duck_parts split: prod.splits)
next
  case Cmd_recover
  moreover assume "\<not> both a"
  ultimately show ?thesis
    using recover_ducked_flag [of secs "ducker a" "sys a"] recover_paused_flag [of secs "pauser a"]
    by (auto simp: handle_def recover_all_def both_def Let_def split: prod.splits) (metis fst_conv)+
qed (auto simp: handle_def both_def Let_def split: option.splits)

lemma turn_keeps_one: "\<not> both a \<Longrightarrow> \<not> both (turn U cfg ms secs wk a)"
proof -
  assume a: "\<not> both a"
  have s: "\<not> both ((restore_all secs why a)\<lparr>stopped := True\<rparr>)" "\<not> both (publish ((restore_all secs why a)\<lparr>stopped := True\<rparr>))" for why
    using released_not_both [OF restore_all_releases [of secs why a]] by (simp_all add: both_def)
  show ?thesis using a s
    by (auto simp add: turn_def Let_def reconcile_keeps_one handle_keeps_one split: wake.split cmd.split)
qed

lemma stopped_simps [simp]:
  "stopped (restore_all secs why a) = stopped a" "stopped (publish a) = stopped a"
  "stopped (engage U cfg secs a) = stopped a" "stopped (work_duck U cfg secs level why a) = stopped a"
  using restore_all_frame [of secs why a] engage_frame [of U cfg secs a] work_frame(1) [of U cfg secs level why a]
  by (simp_all add: frame_of_def publish_def)

lemma reconcile_stopped [simp]: "stopped (reconcile U cfg ms secs a) = stopped a"
  by (simp add: reconcile_def Let_def)

lemma handle_stopped [simp]: "stopped (handle U cfg secs c a) = stopped a"
  by (simp add: handle_def recover_all_def Let_def split: cmd.split option.split prod.split)

lemma turn_settles: "\<not> stopped a \<Longrightarrow>
  (if stopped (turn U cfg ms secs wk a) then \<not> engaged (turn U cfg ms secs wk a) else settled cfg ms (turn U cfg ms secs wk a))"
proof -
  assume run: "\<not> stopped a"
  have eng: "engaged (a\<lparr>stopped := b\<rparr>) = engaged a" "engaged (publish a) = engaged a" for a b
    by (simp_all add: engaged_def)
  show ?thesis using run
    by (auto simp add: turn_def Let_def eng reconcile_settles restore_all_releases split: wake.split cmd.split)
qed

definition released :: "audio \<Rightarrow> bool" where
  "released a \<longleftrightarrow> \<not> both a \<and> (stopped a \<longrightarrow> \<not> engaged a)"

lemma audio_step_released: "released a \<Longrightarrow> released (audio_step U cfg a i)"
proof (cases i)
  case (Turn ms secs wk)
  assume "released a"
  then show ?thesis using turn_settles [of a U cfg ms secs wk]
    by (cases "stopped a") (auto simp: Turn released_def turn_keeps_one split: if_splits)
qed (auto simp: released_def both_def engaged_def set_mode_def set_duck_level_def arm_def)

lemma audio_run_released: "released a \<Longrightarrow> released (foldl (audio_step U cfg) a is)"
  by (induction "is" arbitrary: a) (simp_all add: audio_step_released)

section \<open>What the other apps have\<close>

text \<open>\<open>f\<close> are the volumes and \<open>g\<close> the playing sessions as they were before Sonara; no call fails.\<close>

definition duck_ok :: "(nat \<Rightarrow> rat) \<Rightarrow> ducker \<Rightarrow> os \<Rightarrow> bool" where
  "duck_ok f d w \<longleftrightarrow> answers w = [] \<and> duck_pending d = [] \<and> (\<not> ducked d \<longrightarrow> duck_saved d = []) \<and>
     list_all (\<lambda>(s, r). original r = f (sess s)) (duck_saved d) \<and>
     (\<forall>k. volumes w k = f k \<or> k \<in> keys_of (duck_saved d) \<and> volumes w k \<le> f k)"

definition pause_ok :: "(nat \<Rightarrow> bool) \<Rightarrow> pauser \<Rightarrow> os \<Rightarrow> bool" where
  "pause_ok g p w \<longleftrightarrow> answers w = [] \<and> p_pending p = [] \<and> (\<not> p_paused p \<longrightarrow> p_saved p = []) \<and>
     media_keys (p_saved p) \<subseteq> {k. g k} \<and> playing w = (\<lambda>k. g k \<and> k \<notin> media_keys (p_saved p))"

lemma ok_simps [simp]:
  "duck_ok f d (noted l w) = duck_ok f d w" "pause_ok g p (noted l w) = pause_ok g p w"
  by (simp_all add: duck_ok_def pause_ok_def)

lemma duck_ok_frame: "duck_ok f d w \<Longrightarrow> volumes w' = volumes w \<Longrightarrow> answers w' = [] \<Longrightarrow> duck_ok f d w'"
  by (simp add: duck_ok_def)

lemma pause_ok_frame: "pause_ok g p w \<Longrightarrow> playing w' = playing w \<Longrightarrow> answers w' = [] \<Longrightarrow> pause_ok g p w'"
  by (simp add: pause_ok_def)

lemma duck_ok_undone: "duck_ok f d w \<Longrightarrow> \<not> ducked d \<Longrightarrow> volumes w = f"
  by (auto simp: duck_ok_def fun_eq_iff)

lemma pause_ok_undone: "pause_ok g p w \<Longrightarrow> \<not> p_paused p \<Longrightarrow> playing w = g"
  by (simp add: pause_ok_def)

lemma duck_keeps_ok:
  assumes ok: "duck_ok f d w" and r: "duck U exclude level now d w = (d', w')"
  shows "duck_ok f d' w'" "playing w' = playing w" "answers w' = []"
proof -
  show m: "playing w' = playing w" using duck_media [of w d U exclude level now] ok r by (simp add: duck_ok_def)
  have "duck_ok f d' w' \<and> answers w' = []"
  proof (cases "ducked d")
    case True
    then show ?thesis using ok r by (simp add: duck_def duck_ok_def)
  next
    case False
    have 1: "answers w = []" "duck_pending d = []" using ok by (simp_all add: duck_ok_def)
    note low = duck_lowers [OF 1(1) False 1(2) r]
    have "duck_target level \<le> f k" if "k \<in> to_lower U exclude (duck_target level) f (apps w)" for k
      using that by (auto simp: to_lower_def)
    then show ?thesis using low duck_ok_undone [OF ok False] by (simp add: duck_ok_def)
  qed
  then show "duck_ok f d' w'" "answers w' = []" by simp_all
qed

lemma restore_keeps_ok:
  assumes ok: "duck_ok f d w" and r: "restore now d w = (d', w')"
  shows "duck_ok f d' w'" "playing w' = playing w" "answers w' = []"
proof -
  have 1: "answers w = []" "duck_pending d = []" "list_all (\<lambda>(s, r). original r = f (sess s)) (duck_saved d)"
    using ok by (simp_all add: duck_ok_def)
  show "playing w' = playing w" using restore_media [OF 1, of now] r by simp
  have raise: "volumes w' = (\<lambda>k. if k \<in> keys_of (duck_saved d) then f k else volumes w k)" "answers w' = []" "duck_records d' = []"
    using restore_raises [OF 1, of now] r by (simp_all add: Let_def)
  then have "volumes w' = f" using ok by (auto simp: duck_ok_def fun_eq_iff)
  then show "duck_ok f d' w'" "answers w' = []" using raise by (simp_all add: duck_ok_def duck_records_def)
qed

lemma pause_keeps_ok:
  assumes ok: "pause_ok g p w" and r: "pause now p w = (p', w')"
  shows "pause_ok g p' w'" "volumes w' = volumes w" "answers w' = []"
proof -
  have "pause_ok g p' w' \<and> volumes w' = volumes w \<and> answers w' = []"
  proof (cases "p_paused p")
    case True
    then show ?thesis using ok r by (simp add: pause_def pause_ok_def)
  next
    case False
    have 1: "answers w = []" "p_pending p = []" using ok by (simp_all add: pause_ok_def)
    note halt = pause_halts [OF 1(1) False 1(2) r]
    have "playing w = g" using pause_ok_undone [OF ok False] .
    then show ?thesis using halt by (auto simp: pause_ok_def)
  qed
  then show "pause_ok g p' w'" "volumes w' = volumes w" "answers w' = []" by simp_all
qed

lemma resume_keeps_ok:
  assumes ok: "pause_ok g p w" and p: "p_paused p" and r: "resume now p w = (names, p', w')"
  shows "pause_ok g p' w'" "volumes w' = volumes w" "answers w' = []"
proof -
  have 1: "answers w = []" "p_pending p = []" using ok by (simp_all add: pause_ok_def)
  note plays = resume_plays [OF 1(1) p 1(2) r]
  have "playing w' = g" using ok plays(1) by (auto simp: pause_ok_def fun_eq_iff)
  then show "pause_ok g p' w'" "volumes w' = volumes w" "answers w' = []" using plays by (simp_all add: pause_ok_def)
qed

definition both_ok :: "os \<Rightarrow> audio \<Rightarrow> bool" where
  "both_ok w a \<longleftrightarrow> duck_ok (volumes w) (ducker a) (sys a) \<and> pause_ok (playing w) (pauser a) (sys a)"

lemma both_ok_upd [simp]:
  "both_ok w (a\<lparr>idle_since := x1\<rparr>) = both_ok w a" "both_ok w (a\<lparr>stopped := x2\<rparr>) = both_ok w a"
  "both_ok w (a\<lparr>activity := x3\<rparr>) = both_ok w a" "both_ok w (a\<lparr>why_engaged := x4\<rparr>) = both_ok w a"
  "both_ok w (set_mode m a) = both_ok w a" "both_ok w (set_duck_level l a) = both_ok w a" "both_ok w (arm b a) = both_ok w a"
  "both_ok w (publish a) = both_ok w a" "both_ok w (say_line ns line a) = both_ok w a"
  by (simp_all add: both_ok_def set_mode_def set_duck_level_def arm_def publish_def say_line_def)

lemma duck_both_ok:
  "both_ok w a \<Longrightarrow> duck U exclude level secs (ducker a) (sys a) = (d, v) \<Longrightarrow> both_ok w (a\<lparr>ducker := d, sys := v\<rparr>)"
  using duck_keeps_ok [of "volumes w" "ducker a" "sys a" U exclude level secs d v] pause_ok_frame [of "playing w" "pauser a" "sys a" v]
  by (simp add: both_ok_def)

lemma restore_both_ok:
  "both_ok w a \<Longrightarrow> restore secs (ducker a) (sys a) = (d, v) \<Longrightarrow> both_ok w (a\<lparr>ducker := d, sys := v\<rparr>)"
  using restore_keeps_ok [of "volumes w" "ducker a" "sys a" secs d v] pause_ok_frame [of "playing w" "pauser a" "sys a" v]
  by (simp add: both_ok_def)

lemma pause_both_ok:
  "both_ok w a \<Longrightarrow> pause secs (pauser a) (sys a) = (p, v) \<Longrightarrow> both_ok w (a\<lparr>pauser := p, sys := v\<rparr>)"
  using pause_keeps_ok [of "playing w" "pauser a" "sys a" secs p v] duck_ok_frame [of "volumes w" "ducker a" "sys a" v]
  by (simp add: both_ok_def)

lemma resume_both_ok:
  "both_ok w a \<Longrightarrow> p_paused (pauser a) \<Longrightarrow> resume secs (pauser a) (sys a) = (names, p, v) \<Longrightarrow>
     both_ok w (a\<lparr>pauser := p, sys := v\<rparr>)"
  using resume_keeps_ok [of "playing w" "pauser a" "sys a" secs names p v] duck_ok_frame [of "volumes w" "ducker a" "sys a" v]
  by (simp add: both_ok_def)

lemma work_both_ok:
  "both_ok w a \<Longrightarrow> both_ok w (work_duck U cfg secs level why a)" "both_ok w a \<Longrightarrow> both_ok w (work_restore secs why a)"
  "both_ok w a \<Longrightarrow> both_ok w (work_pause secs why a)"
  "both_ok w a \<Longrightarrow> p_paused (pauser a) \<Longrightarrow> both_ok w (work_resume secs why a)"
  by (auto simp: work_duck_def work_restore_def work_pause_def work_resume_def Let_def duck_both_ok restore_both_ok pause_both_ok
      resume_both_ok split: prod.splits)

lemma restore_all_both_ok: "both_ok w a \<Longrightarrow> both_ok w (restore_all secs why a)"
  by (simp add: restore_all_def Let_def work_both_ok)

lemma engage_both_ok: "both_ok w a \<Longrightarrow> both_ok w (engage U cfg secs a)"
  by (cases "mode a") (simp_all add: engage_def Let_def work_both_ok)

lemma reconcile_both_ok: "both_ok w a \<Longrightarrow> both_ok w (reconcile U cfg ms secs a)"
  by (simp add: reconcile_def Let_def engage_both_ok restore_all_both_ok)

lemma handle_both_ok: "both_ok w a \<Longrightarrow> c \<noteq> Cmd_recover \<Longrightarrow> both_ok w (handle U cfg secs c a)"
  by (cases c) (auto simp: handle_def Let_def restore_all_both_ok restore_both_ok work_both_ok split: option.splits prod.splits)

text \<open>Nobody else touches volumes or media, no call begins to fail and no startup sweep comes in.\<close>

fun calm :: "audio_input \<Rightarrow> bool" where
  "calm (Turn ms secs wk) = (wk \<noteq> Got Cmd_recover)"
| "calm (World f) = (\<forall>v. volumes (f v) = volumes v \<and> playing (f v) = playing v \<and> answers (f v) = answers v)"
| "calm i = True"

lemma audio_step_both_ok: "both_ok w a \<Longrightarrow> calm i \<Longrightarrow> both_ok w (audio_step U cfg a i)"
proof (cases i)
  case (Turn ms secs wk)
  moreover assume "both_ok w a" "calm i"
  ultimately show ?thesis
    by (auto simp: turn_def Let_def reconcile_both_ok restore_all_both_ok handle_both_ok split: wake.split cmd.split)
next
  case (World f)
  moreover assume "both_ok w a" "calm i"
  ultimately show ?thesis by (simp add: both_ok_def duck_ok_def pause_ok_def)
qed simp_all

lemma audio_run_both_ok: "both_ok w a \<Longrightarrow> list_all calm is \<Longrightarrow> both_ok w (foldl (audio_step U cfg) a is)"
  by (induction "is" arbitrary: a) (simp_all add: audio_step_both_ok del: audio_step.simps)

text \<open>The other apps have what they had: nothing is louder and nothing plays that did not, and volumes and media are as
  in \<open>w\<close> but for what the worker knows to have turned down or paused.\<close>

definition given_back :: "os \<Rightarrow> audio \<Rightarrow> bool" where
  "given_back w a \<longleftrightarrow>
     (\<forall>k. volumes (sys a) k \<le> volumes w k) \<and> (\<forall>k. playing (sys a) k \<longrightarrow> playing w k) \<and>
     (if ducked (ducker a) then \<forall>k. k \<notin> keys_of (duck_saved (ducker a)) \<longrightarrow> volumes (sys a) k = volumes w k
      else volumes (sys a) = volumes w) \<and>
     (if p_paused (pauser a) then \<forall>k. k \<notin> media_keys (p_saved (pauser a)) \<longrightarrow> playing (sys a) k = playing w k
      else playing (sys a) = playing w)"

lemma both_ok_given_back:
  assumes "both_ok w a"
  shows "given_back w a"
proof -
  have d: "duck_ok (volumes w) (ducker a) (sys a)" and p: "pause_ok (playing w) (pauser a) (sys a)"
    using assms by (simp_all add: both_ok_def)
  have "volumes (sys a) k \<le> volumes w k" for k using d by (auto simp: duck_ok_def dest: spec [of _ k])
  moreover have "volumes (sys a) k = volumes w k" if "k \<notin> keys_of (duck_saved (ducker a))" for k
    using d that by (auto simp: duck_ok_def dest: spec [of _ k])
  ultimately show ?thesis using duck_ok_undone [OF d] pause_ok_undone [OF p] p by (simp add: given_back_def pause_ok_def)
qed

text \<open>C37: Other apps come back. After any run of commands, mode changes and turns, whatever the system does and
  whatever of it fails, the worker never holds other apps both turned down and paused; after each of its turns it
  holds them only while armed speech is on, in the mode that is set, or within the grace since it went off (never
  when disarmed, off, muted or paused), and not at all once it has stopped. And when no platform call fails and
  nobody else sets volumes or media, holding nothing means that everything is back: unless it is turned down every
  volume is exactly what it was before the run, unless it is paused exactly the sessions play that played before,
  and while it is held nothing but the recorded sessions differs, none of them louder. (A call that fails leaves
  its app as it is, with a record for a later attempt.)\<close>

theorem other_apps_come_back:
  "let a = foldl (audio_step U cfg) (new_audio w) inputs; b = audio_step U cfg a (Turn ms secs wk) in
     \<not> both a \<and> \<not> both b \<and> (if stopped b then \<not> engaged b else settled cfg ms b) \<and>
     (answers w = [] \<and> list_all calm (inputs @ [Turn ms secs wk]) \<longrightarrow> given_back w a \<and> given_back w b)"
proof -
  define a where "a = foldl (audio_step U cfg) (new_audio w) inputs"
  define b where "b = audio_step U cfg a (Turn ms secs wk)"
  have "released (new_audio w)" by (simp add: released_def new_audio_def both_def)
  then have a: "released a" unfolding a_def by (rule audio_run_released)
  then have "released b" unfolding b_def by (rule audio_step_released)
  then have flags: "\<not> both a" "\<not> both b" "if stopped b then \<not> engaged b else settled cfg ms b"
    using a turn_settles [of a U cfg ms secs wk] by (cases "stopped a"; simp add: released_def b_def)+
  have "given_back w a \<and> given_back w b" if calm: "answers w = []" "list_all calm (inputs @ [Turn ms secs wk])"
  proof -
    have "both_ok w (new_audio w)"
      using calm(1) by (simp add: both_ok_def duck_ok_def pause_ok_def new_audio_def new_pauser_def)
    then have "both_ok w a" unfolding a_def using calm(2) by (intro audio_run_both_ok) simp_all
    moreover from this have "both_ok w b" unfolding b_def using calm(2) by (intro audio_step_both_ok) simp_all
    ultimately show ?thesis using both_ok_given_back by blast
  qed
  then show ?thesis using flags by (simp add: Let_def a_def [symmetric] b_def [symmetric] del: audio_step.simps)
qed

text \<open>When speech has gone off and no command comes, the worker wakes when the grace is over and brings the other
  apps back: it waits no longer than that, and that very turn leaves nothing turned down or paused.\<close>

theorem silence_brings_apps_back:
  assumes "\<not> stopped a" "activity a \<noteq> Act_speaking" "idle_since a = Some t" "wait_left cfg ms a = Some left" "t \<le> ms"
  shows "\<not> engaged (audio_step U cfg a (Turn (ms + left) secs Timed_out))"
proof -
  define b where "b = reconcile U cfg (ms + left) secs a"
  have s: "settled cfg (ms + left) b" unfolding b_def by (rule reconcile_settles)
  have nw: "\<not> wanted a" using assms(2) by (simp add: wanted_def)
  have left: "(case grace_for cfg (activity a) of Some g \<Rightarrow> g | None \<Rightarrow> 0) \<le> ms + left - t"
    using assms(3,4,5) by (auto simp: wait_left_def split: option.splits)
  have "\<not> engaged b"
  proof (cases "engaged a")
    case False
    then have "b = publish (a\<lparr>idle_since := None\<rparr>)" using nw by (simp add: b_def reconcile_def)
    then show ?thesis using False by (simp add: engaged_def)
  next
    case True
    then have "\<exists>why c. b = publish (restore_all secs why c)"
      using nw left assms(3) unfolding b_def reconcile_def Let_def by auto
    then show ?thesis using restore_all_releases by (auto simp: engaged_def)
  qed
  then show ?thesis using assms(1) by (simp add: turn_def b_def)
qed

section \<open>From the start of speech to its end\<close>

lemma say_line_sys [simp]:
  "volumes (sys (say_line ns l a)) = volumes (sys a)" "answers (sys (say_line ns l a)) = answers (sys a)"
  "duck_file (sys (say_line ns l a)) = duck_file (sys a)" "apps (sys (say_line ns l a)) = apps (sys a)"
  by (simp_all add: say_line_def)

lemma publish_sys [simp]: "sys (publish a) = sys a"
  by (simp add: publish_def)

text \<open>C38: From the start of speech to its end in the mode \<open>duck\<close>, when no platform call fails: the turn that hears of the
  speech lowers exactly the other apps above the level, the turn that hears that it was paused or muted gives each
  of them the volume it had before, whatever the volumes were set to while Sonara spoke.\<close>

theorem speech_leaves_volumes_as_they_were:
  assumes "answers (sys a) = []" "armed a" "mode a = Audio_duck" "\<not> stopped a" "\<not> engaged a" "duck_pending (ducker a) = []"
  shows "let keys = to_lower U (exclude_pids cfg) (duck_target (duck_level a)) (volumes (sys a)) (apps (sys a));
             a1 = audio_step U cfg a (Turn ms secs (Got (Cmd_activity Act_speaking why)));
             a2 = audio_step U cfg a1 (World (\<lambda>w. w\<lparr>volumes := vs, apps := ss\<rparr>));
             a3 = audio_step U cfg a2 (Turn ms' secs' (Got (Cmd_activity Act_held why')))
         in volumes (sys a1) = (\<lambda>k. if k \<in> keys then duck_target (duck_level a) else volumes (sys a) k) \<and>
            volumes (sys a3) = (\<lambda>k. if k \<in> keys then volumes (sys a) k else vs k) \<and>
            \<not> engaged a3 \<and> duck_file (sys a3) = None"
proof -
  have off: "\<not> ducked (ducker a)" "\<not> p_paused (pauser a)" using assms(5) by (simp_all add: engaged_def)
  define b where "b = (handle U cfg secs (Cmd_activity Act_speaking why) a)\<lparr>idle_since := None\<rparr>"
  have b: "mode b = Audio_duck" "ducker b = ducker a" "pauser b = pauser a" "sys b = sys a" "duck_level b = duck_level a"
    using assms(3) by (simp_all add: b_def handle_def Let_def split: option.splits)
  have want: "wanted (handle U cfg secs (Cmd_activity Act_speaking why) a)"
    using assms(2,3) by (simp add: wanted_def handle_def Let_def split: option.splits)
  obtain d1 w1 where d1: "duck U (exclude_pids cfg) (duck_level a) secs (ducker a) (sys a) = (d1, w1)" by fastforce
  note low = duck_lowers [OF assms(1) off(1) assms(6) d1]
  define a1 where "a1 = audio_step U cfg a (Turn ms secs (Got (Cmd_activity Act_speaking why)))"
  have a1: "a1 = publish (work_duck U cfg secs (duck_level b) (engage_reason b) b)"
    using assms(4) off b want by (simp add: a1_def turn_def reconcile_def b_def [symmetric] engage_def)
  have f1: "ducker a1 = d1" "volumes (sys a1) = volumes w1" "answers (sys a1) = []" "pauser a1 = pauser a" "stopped a1 = stopped a"
    using low(2) by (simp_all add: a1 work_duck_def b d1 Let_def) (simp add: b_def)
  define a2 where "a2 = audio_step U cfg a1 (World (\<lambda>w. w\<lparr>volumes := vs, apps := ss\<rparr>))"
  have f2: "ducker a2 = d1" "volumes (sys a2) = vs" "answers (sys a2) = []" "\<not> p_paused (pauser a2)" "\<not> stopped a2"
    using f1 off assms(4) by (simp_all add: a2_def)
  define c where "c = handle U cfg secs' (Cmd_activity Act_held why') a2"
  have c: "ducker c = d1" "sys c = sys a2" "pauser c = pauser a2" "activity c = Act_held"
    using f2 by (simp_all add: c_def handle_def Let_def split: option.splits)
  define a3 where "a3 = audio_step U cfg a2 (Turn ms' secs' (Got (Cmd_activity Act_held why')))"
  have a3: "a3 = publish ((work_restore secs' (restore_reason c) c)\<lparr>idle_since := None\<rparr>)"
    using f2 low(3) c
    by (simp add: a3_def turn_def reconcile_def c_def [symmetric] wanted_def engaged_def grace_for_def restore_all_def
        work_restore_parts)
  obtain d3 w3 where r: "restore secs' d1 (sys a2) = (d3, w3)" by fastforce
  have w3: "volumes w3 = (\<lambda>k. if k \<in> keys_of (duck_saved d1) then volumes (sys a) k else vs k)" "\<not> ducked d3" "duck_file w3 = None"
    using restore_raises [OF f2(3) low(4) low(6), of secs'] unfolding f2(2) by (simp_all add: r)
  have "volumes (sys a3) = volumes w3" "\<not> engaged a3" "duck_file (sys a3) = None"
    using w3 f2 by (simp_all add: a3 work_restore_def c r engaged_def Let_def)
  then show ?thesis using f1(2) low(1,5) w3(1)
    by (simp add: Let_def a1_def [symmetric] a2_def [symmetric] a3_def [symmetric] del: audio_step.simps)
qed

definition demo_audio :: audio where
  "demo_audio = (new_audio demo_os)\<lparr>mode := Audio_duck, armed := True\<rparr>"

lemma demo_audio_simps: "answers (sys demo_audio) = []" "armed demo_audio" "mode demo_audio = Audio_duck"
  "\<not> stopped demo_audio" "\<not> engaged demo_audio" "duck_pending (ducker demo_audio) = []" "sys demo_audio = demo_os"
  "duck_level demo_audio = 30"
  by (simp_all add: demo_audio_def new_audio_def demo_os_simps engaged_def DEFAULT_DUCK_LEVEL_def new_pauser_def)

definition demo_config :: audio_config where
  "demo_config = \<lparr>exclude_pids = [1], idle_grace = IDLE_GRACE\<rparr>"

theorem speech_leaves_volumes_as_they_were_witness:
  "let a1 = audio_step ascii demo_config demo_audio (Turn 0 1000 (Got (Cmd_activity Act_speaking None)));
       a2 = audio_step ascii demo_config a1 (World (\<lambda>w. w\<lparr>volumes := (\<lambda>k. 1), apps := []\<rparr>));
       a3 = audio_step ascii demo_config a2 (Turn 9000 1009 (Got (Cmd_activity Act_held None)))
   in volumes (sys a1) 0 = 3 / 10 \<and> volumes (sys a3) 0 = 1 / 2 \<and> \<not> engaged a3"
  using speech_leaves_volumes_as_they_were [of demo_audio, where U = ascii and cfg = demo_config and ms = 0 and secs = 1000
      and why = None and vs = "\<lambda>k. 1" and ss = "[]" and ms' = 9000 and secs' = 1009 and why' = None]
  by (simp add: demo_audio_simps demo_os_simps demo_config_def Let_def del: audio_step.simps)

theorem silence_brings_apps_back_witness:
  "let a = demo_audio\<lparr>idle_since := Some 5, ducker := new_ducker\<lparr>ducked := True\<rparr>\<rparr> in
     engaged a \<and> wait_left demo_config 105 a = Some 300 \<and>
     \<not> engaged (audio_step ascii demo_config a (Turn 405 1000 Timed_out))"
  using silence_brings_apps_back [of "demo_audio\<lparr>idle_since := Some 5, ducker := new_ducker\<lparr>ducked := True\<rparr>\<rparr>" 5
      demo_config 105 300, where U = ascii and secs = 1000]
  by (simp add: demo_audio_def new_audio_def engaged_def wait_left_def grace_for_def demo_config_def IDLE_GRACE_def
      del: audio_step.simps)

theorem other_apps_come_back_witness:
  "let a = foldl (audio_step ascii demo_config) (new_audio demo_os)
         [Set_mode Audio_duck, Arm True, Turn 0 1000 (Got (Cmd_activity Act_speaking None)), World (\<lambda>w. w\<lparr>apps := []\<rparr>)];
       b = audio_step ascii demo_config a (Turn 5 1001 Hung_up)
   in \<not> engaged b \<and> volumes (sys b) = volumes demo_os \<and> playing (sys b) = playing demo_os"
  using other_apps_come_back [of ascii demo_config demo_os
      "[Set_mode Audio_duck, Arm True, Turn 0 1000 (Got (Cmd_activity Act_speaking None)), World (\<lambda>w. w\<lparr>apps := []\<rparr>)]" 5 1001 Hung_up]
  by (simp add: demo_os_simps Let_def turn_def given_back_def engaged_def new_audio_def set_mode_def arm_def split: if_splits)

end
