(* ===== verification/Keymap.thy ===== *)
theory Keymap imports Decision_Text Unicode "HOL-Library.List_Lexorder" begin

text \<open>
  The hotkeys and \<open>keymap.json\<close>: \<open>crates/sonara-system/src/keymap.rs\<close>. The file holds the user's overrides: a JSON
  object, modelled as its entries in the order of the object, each with the binding it holds or \<open>None\<close> for a value
  that is none (\<open>serde_json\<close> reads it). A missing or unreadable file is \<open>None\<close>. Modifier masks are \<open>u32\<close>.
\<close>

unbundle bit_operations_syntax

section \<open>Actions\<close>

datatype action =
  Hot_restart | Hot_flush | Hot_pause | Hot_mute | Hot_next_channel | Hot_faster | Hot_slower
  | Hot_previous_question | Hot_next_question

definition ALL_ACTIONS :: "action list" where
  "ALL_ACTIONS =
     [Hot_restart, Hot_flush, Hot_pause, Hot_mute, Hot_next_channel, Hot_faster, Hot_slower, Hot_previous_question,
      Hot_next_question]"

fun action_str :: "action \<Rightarrow> str" where
  "action_str Hot_restart = lit ''restart''"
| "action_str Hot_flush = lit ''flush''"
| "action_str Hot_pause = lit ''pause''"
| "action_str Hot_mute = lit ''mute''"
| "action_str Hot_next_channel = lit ''next_channel''"
| "action_str Hot_faster = lit ''faster''"
| "action_str Hot_slower = lit ''slower''"
| "action_str Hot_previous_question = lit ''previous_question''"
| "action_str Hot_next_question = lit ''next_question''"

definition action_parse :: "str \<Rightarrow> action option" where
  "action_parse n =
     (if n = lit ''restart'' \<or> n = lit ''nav_start'' then Some Hot_restart
      else if n = lit ''flush'' then Some Hot_flush
      else if n = lit ''pause'' then Some Hot_pause
      else if n = lit ''mute'' then Some Hot_mute
      else if n = lit ''next_channel'' \<or> n = lit ''next_session'' then Some Hot_next_channel
      else if n = lit ''faster'' then Some Hot_faster
      else if n = lit ''slower'' then Some Hot_slower
      else if n = lit ''previous_question'' then Some Hot_previous_question
      else if n = lit ''next_question'' then Some Hot_next_question
      else None)"

definition holdable :: "action \<Rightarrow> bool" where
  "holdable a \<longleftrightarrow> a \<in> {Hot_restart, Hot_flush, Hot_previous_question, Hot_next_question, Hot_mute}"

definition debounced :: "action \<Rightarrow> bool" where
  "debounced a \<longleftrightarrow> a \<in> {Hot_pause, Hot_mute}"

text \<open>The registration id, 1-based, and back (\<open>i32\<close>).\<close>

definition action_id :: "action \<Rightarrow> int" where
  "action_id a = (case position (\<lambda>b. b = a) ALL_ACTIONS of Some i \<Rightarrow> int i | None \<Rightarrow> 0) + 1"

definition from_id :: "int \<Rightarrow> action option" where
  "from_id i = (if i - 1 < 0 then None else get ALL_ACTIONS (nat (i - 1)))"

section \<open>Keys and modifiers\<close>

definition MOD_NOREPEAT :: "32 word" where "MOD_NOREPEAT = 0x4000"
definition MOD_ALT :: "32 word" where "MOD_ALT = 1"
definition MOD_CTRL :: "32 word" where "MOD_CTRL = 2"
definition MOD_SHIFT :: "32 word" where "MOD_SHIFT = 4"
definition MOD_WIN :: "32 word" where "MOD_WIN = 8"

definition DEFAULT_MODS :: "str list" where
  "DEFAULT_MODS = [lit ''ctrl'', lit ''alt'']"

definition DEFAULT_KEYS :: "(action \<times> str) list" where
  "DEFAULT_KEYS = [(Hot_restart, lit ''up''), (Hot_flush, lit ''down''), (Hot_mute, lit ''m''), (Hot_next_channel, lit ''p'')]"

definition NAMED_KEYS :: "(str \<times> nat) list" where
  "NAMED_KEYS =
     [(lit ''period'', 0xBE), (lit ''.'', 0xBE), (lit ''rightbracket'', 0xDD), (lit '']'', 0xDD),
      (lit ''leftbracket'', 0xDB), (lit ''['', 0xDB), (lit ''left'', 0x25), (lit ''leftarrow'', 0x25),
      (lit ''up'', 0x26), (lit ''uparrow'', 0x26), (lit ''right'', 0x27), (lit ''rightarrow'', 0x27),
      (lit ''down'', 0x28), (lit ''downarrow'', 0x28), (lit ''home'', 0x24), (lit ''end'', 0x23),
      (lit ''pageup'', 0x21), (lit ''pagedown'', 0x22)]"

definition MODS :: "(str \<times> 32 word) list" where
  "MODS =
     [(lit ''alt'', MOD_ALT), (lit ''ctrl'', MOD_CTRL), (lit ''control'', MOD_CTRL), (lit ''shift'', MOD_SHIFT),
      (lit ''win'', MOD_WIN), (lit ''cmd'', MOD_WIN)]"

definition key_code :: "str \<Rightarrow> nat option" where
  "key_code name =
     (let n = to_ascii_lowercase name in
      case map_of NAMED_KEYS n of
        Some vk \<Rightarrow> Some vk
      | None \<Rightarrow> (case n of
                  [c] \<Rightarrow> if is_ascii_lower c then Some (c - 32) else if is_ascii_digit c then Some c else None
                | _ \<Rightarrow> None))"

definition mod_mask :: "str \<Rightarrow> 32 word option" where
  "mod_mask name = map_of MODS (to_ascii_lowercase name)"

definition key_names :: "str list" where
  "key_names = sort (map fst NAMED_KEYS @ map (\<lambda>c. [c]) [97..<123] @ map (\<lambda>c. [c]) [48..<58])"

definition mod_names :: "str list" where
  "mod_names = sort (map fst MODS)"

section \<open>The keymap\<close>

record binding =
  b_key :: "str option"
  b_mods :: "str list"

definition unbound :: binding where
  "unbound = \<lparr>b_key = None, b_mods = []\<rparr>"

definition is_bound :: "binding \<Rightarrow> bool" where
  "is_bound b = (case b_key b of Some k \<Rightarrow> k \<noteq> [] | None \<Rightarrow> False)"

type_synonym keymap = "(action \<times> binding) list"

text \<open>The first binding of an action; the code panics when there is none.\<close>

definition km_get :: "keymap \<Rightarrow> action \<Rightarrow> binding option" where
  "km_get km a = map_of km a"

definition km_set :: "action \<Rightarrow> binding \<Rightarrow> keymap \<Rightarrow> keymap" where
  "km_set a b km = upd_first (\<lambda>p. fst p = a) (\<lambda>p. (fst p, b)) km"

definition default_binding :: "action \<Rightarrow> binding" where
  "default_binding a =
     (case map_of DEFAULT_KEYS a of Some k \<Rightarrow> \<lparr>b_key = Some k, b_mods = DEFAULT_MODS\<rparr> | None \<Rightarrow> unbound)"

definition default_keymap :: keymap where
  "default_keymap = map (\<lambda>a. (a, default_binding a)) ALL_ACTIONS"

section \<open>The file\<close>

type_synonym keymap_file = "(str \<times> binding option) list option"

definition override_step :: "keymap \<Rightarrow> str \<times> binding option \<Rightarrow> keymap" where
  "override_step out e =
     (case action_parse (fst e) of
        None \<Rightarrow> out
      | Some a \<Rightarrow>
          (case snd e of
             None \<Rightarrow> out
           | Some b \<Rightarrow>
               if a \<in> fst ` set out then (if action_str a = fst e then km_set a b out else out) else out @ [(a, b)]))"

definition read_overrides :: "keymap_file \<Rightarrow> keymap" where
  "read_overrides f = (case f of None \<Rightarrow> [] | Some raw \<Rightarrow> foldl override_step [] raw)"

text \<open>An ordered map (\<open>BTreeMap\<close>): a later value for a key replaces the earlier one.\<close>

fun tree_insert :: "str \<Rightarrow> 'a \<Rightarrow> (str \<times> 'a) list \<Rightarrow> (str \<times> 'a) list" where
  "tree_insert k v [] = [(k, v)]"
| "tree_insert k v ((k', v') # m) =
     (if k < k' then (k, v) # (k', v') # m else if k = k' then (k, v) # m else (k', v') # tree_insert k v m)"

text \<open>The new content, or why it could not be written (\<open>refused\<close>).\<close>

definition write_overrides :: "str option \<Rightarrow> keymap \<Rightarrow> str + keymap_file" where
  "write_overrides refused km =
     (case refused of
        Some e \<Rightarrow> Inl e
      | None \<Rightarrow> Inr (Some (foldl (\<lambda>m (a, b). tree_insert (action_str a) (Some b) m) [] km)))"

definition load_keymap :: "keymap_file \<Rightarrow> keymap" where
  "load_keymap f = foldl (\<lambda>km (a, b). km_set a b km) default_keymap (read_overrides f)"

section \<open>Registration\<close>

record resolved =
  res_action :: action
  res_vk :: nat
  res_mods :: "32 word"

text \<open>The mask of the modifiers and the names it does not know.\<close>

fun mods_mask :: "str list \<Rightarrow> 32 word \<Rightarrow> str list \<Rightarrow> 32 word \<times> str list" where
  "mods_mask [] held bad = (held, bad)"
| "mods_mask (m # ms) held bad =
     (case mod_mask m of Some v \<Rightarrow> mods_mask ms (held OR v) bad | None \<Rightarrow> mods_mask ms held (bad @ [m]))"

definition resolve_step :: "resolved list \<times> str list \<Rightarrow> action \<times> binding \<Rightarrow> resolved list \<times> str list" where
  "resolve_step acc p =
     (let (out, problems) = acc; (a, b) = p in
      if \<not> is_bound b then acc
      else
        (let key = (case b_key b of Some k \<Rightarrow> k | None \<Rightarrow> []) in
         case key_code key of
           None \<Rightarrow> (out, problems @ [action_str a @ lit '': unknown key '' @ [39] @ key @ [39]])
         | Some vk \<Rightarrow>
             (let (held, bad) = mods_mask (b_mods b) 0 [];
                  problems' = problems @ map (\<lambda>m. action_str a @ lit '': unknown modifier '' @ [39] @ m @ [39]) bad
              in if bad = [] then (out @ [\<lparr>res_action = a, res_vk = vk, res_mods = held\<rparr>], problems')
                 else (out, problems'))))"

definition resolve :: "keymap \<Rightarrow> resolved list \<times> str list" where
  "resolve km = foldl resolve_step ([], []) km"

definition combo_label :: "32 word \<Rightarrow> nat \<Rightarrow> str" where
  "combo_label mods vk =
     (let parts = map snd (filter (\<lambda>(m, n). mods AND m \<noteq> 0)
            [(MOD_WIN, lit ''Win''), (MOD_CTRL, lit ''Ctrl''), (MOD_SHIFT, lit ''Shift''), (MOD_ALT, lit ''Alt'')]);
          named = [(0xBE, lit ''.''), (0xDD, lit '']''), (0xDB, lit ''[''), (0x25, lit ''Left''), (0x26, lit ''Up''),
                   (0x27, lit ''Right''), (0x28, lit ''Down''), (0x24, lit ''Home''), (0x23, lit ''End''),
                   (0x21, lit ''PageUp''), (0x22, lit ''PageDown'')];
          label = (case map_of named vk of
                     Some n \<Rightarrow> n
                   | None \<Rightarrow> if (0x41 \<le> vk \<and> vk \<le> 0x5A) \<or> (0x30 \<le> vk \<and> vk \<le> 0x39) then [vk]
                             else lit ''key'' @ dec vk)
      in join [43] (parts @ [label]))"

definition label :: "keymap \<Rightarrow> action \<Rightarrow> str option" where
  "label km a =
     map_option (\<lambda>r. combo_label (res_mods r) (res_vk r)) (find (\<lambda>r. res_action r = a) (fst (resolve km)))"

definition next_section_label :: "keymap \<Rightarrow> str option" where
  "next_section_label km = (case label km Hot_flush of Some l \<Rightarrow> Some l | None \<Rightarrow> label km Hot_next_question)"

section \<open>Changing the file\<close>

text \<open>The modifiers checked: the mask they hold and their names in lower case, each once.\<close>

fun check_mods :: "str list \<Rightarrow> 32 word \<Rightarrow> str list \<Rightarrow> str + 32 word \<times> str list" where
  "check_mods [] held clean = Inr (held, clean)"
| "check_mods (m # ms) held clean =
     (case mod_mask m of
        None \<Rightarrow> Inl (lit ''unsupported modifier '' @ [39] @ m @ [39])
      | Some v \<Rightarrow>
          (let l = to_ascii_lowercase m
           in check_mods ms (held OR v) (if l \<in> set clean then clean else clean @ [l])))"

definition bare_message :: str where
  "bare_message =
     lit ''a hotkey needs Ctrl, Alt or Win: without one it would take that key away from every app''"

definition put_override :: "action \<Rightarrow> binding \<Rightarrow> keymap \<Rightarrow> keymap" where
  "put_override a b km = (if a \<in> fst ` set km then km_set a b km else km @ [(a, b)])"

definition bind_key :: "str option \<Rightarrow> keymap_file \<Rightarrow> action \<Rightarrow> str \<Rightarrow> str list \<Rightarrow> str + keymap_file" where
  "bind_key refused f a key mods =
     (let key = to_ascii_lowercase (trim key) in
      if key = [] then Inl (lit ''empty key'')
      else (case key_code key of
        None \<Rightarrow> Inl (lit ''unsupported key '' @ [39] @ key @ [39])
      | Some vk \<Rightarrow>
          (case check_mods mods 0 [] of
             Inl e \<Rightarrow> Inl e
           | Inr (held, clean) \<Rightarrow>
               if held AND (MOD_CTRL OR MOD_ALT OR MOD_WIN) = 0 then Inl bare_message
               else (case find (\<lambda>r. res_action r \<noteq> a \<and> res_vk r = vk \<and> res_mods r = held)
                            (fst (resolve (load_keymap f))) of
                  Some r \<Rightarrow>
                    Inl (combo_label held vk @ lit '' is already bound to '' @ action_str (res_action r) @
                         lit '': unbind it there first'')
                | None \<Rightarrow>
                    write_overrides refused
                      (put_override a \<lparr>b_key = Some key, b_mods = clean\<rparr> (read_overrides f))))))"

definition unbind_key :: "str option \<Rightarrow> keymap_file \<Rightarrow> action \<Rightarrow> str + keymap_file" where
  "unbind_key refused f a =
     (let km = filter (\<lambda>p. fst p \<noteq> a) (read_overrides f)
      in write_overrides refused (if is_bound (default_binding a) then km @ [(a, unbound)] else km))"

definition reset_keymap :: "str option \<Rightarrow> str + keymap_file" where
  "reset_keymap refused = write_overrides refused (filter (\<lambda>p. is_bound (snd p)) default_keymap)"

section \<open>AltGr\<close>

text \<open>Ctrl+Alt hotkeys without Win that type a character on the layout: \<open>layout\<close> is the keyboard's table.\<close>

definition altgr_conflicts :: "(nat \<Rightarrow> bool \<Rightarrow> str option) \<Rightarrow> resolved list \<Rightarrow> (action \<times> str \<times> str) list" where
  "altgr_conflicts layout rs =
     (let ctrl_alt = MOD_CTRL OR MOD_ALT in
      concat (map (\<lambda>r. case layout (res_vk r) (res_mods r AND MOD_SHIFT \<noteq> 0) of
                         Some ch \<Rightarrow> [(res_action r, combo_label (res_mods r) (res_vk r), ch)] | None \<Rightarrow> [])
        (filter (\<lambda>r. res_mods r AND ctrl_alt = ctrl_alt \<and> res_mods r AND MOD_WIN = 0) rs)))"

end
