(* ===== verification/Keymap_Claims.thy ===== *)
theory Keymap_Claims imports Keymap begin

text \<open>
  A binding that is accepted takes effect and disturbs nothing else; a keymap without a shared chord keeps none;
  unbinding and resetting do what they say (\<open>crates/sonara-system/src/keymap.rs\<close>).
\<close>

section \<open>Names\<close>

lemma action_parse_str [simp]: "action_parse (action_str a) = Some a"
  by (cases a) (simp_all add: action_parse_def)

lemma action_str_inj [simp]: "action_str a = action_str b \<longleftrightarrow> a = b"
  by (metis action_parse_str option.inject)

lemma all_actions [simp]: "set ALL_ACTIONS = UNIV" "distinct ALL_ACTIONS"
proof -
  have "a \<in> set ALL_ACTIONS" for a by (cases a) (simp_all add: ALL_ACTIONS_def)
  then show "set ALL_ACTIONS = UNIV" by auto
qed (simp add: ALL_ACTIONS_def)

section \<open>Maps\<close>

abbreviation strict :: "(str \<times> 'a) list \<Rightarrow> bool" where
  "strict m \<equiv> sorted_wrt (<) (map fst m)"

lemma tree_insert_keys: "fst ` set (tree_insert k v m) = insert k (fst ` set m)"
  by (induction k v m rule: tree_insert.induct) auto

lemma tree_insert_strict: "strict m \<Longrightarrow> strict (tree_insert k v m)"
proof (induction k v m rule: tree_insert.induct)
  case (2 k v k' v' m)
  have k': "\<forall>x \<in> set (map fst m). k' < x" and m: "strict m" using 2(2) by simp_all
  consider "k < k'" | "k = k'" | "\<not> k < k'" "k \<noteq> k'" by blast
  then show ?case
  proof cases
    case 1
    then have "\<forall>x \<in> set (map fst m). k < x" using k' order.strict_trans by blast
    then show ?thesis using 1 k' m by simp
  next
    case 2
    then show ?thesis using k' m by simp
  next
    case 3
    then have "k' < k" by (metis linorder_neqE)
    then have "\<forall>x \<in> fst ` set (tree_insert k v m). k' < x" using k' by (simp add: tree_insert_keys)
    then show ?thesis using 3 2(1) [OF 3 m] by simp
  qed
qed simp

lemma map_of_tree_insert: "strict m \<Longrightarrow> map_of (tree_insert k v m) = (map_of m)(k \<mapsto> v)"
proof (induction k v m rule: tree_insert.induct)
  case (2 k v k' v' m)
  then show ?case by (auto simp: fun_eq_iff)
qed simp

lemma strict_distinct: "strict m \<Longrightarrow> distinct (map fst m)"
  by (simp add: strict_sorted_iff)

lemma map_of_km_set: "map_of (km_set a b km) = (if a \<in> fst ` set km then (map_of km)(a \<mapsto> b) else map_of km)"
proof (induction km)
  case (Cons p km)
  then show ?case by (cases p) (auto simp: km_set_def fun_eq_iff)
qed (simp add: km_set_def)

lemma fst_km_set [simp]: "map fst (km_set a b km) = map fst km"
  unfolding km_set_def by (induction km) auto

lemma fst_set_km_set [simp]: "fst ` set (km_set a b km) = fst ` set km"
  by (metis fst_km_set list.set_map)

section \<open>The overrides in the file\<close>

lemma distinct_override_step: "distinct (map fst out) \<Longrightarrow> distinct (map fst (override_step out e))"
  by (auto simp: override_step_def split: option.splits)

lemma distinct_read_overrides: "distinct (map fst (read_overrides f))"
proof -
  have "distinct (map fst out) \<Longrightarrow> distinct (map fst (foldl override_step out raw))" for out raw
    by (induction raw arbitrary: out) (simp_all add: distinct_override_step)
  then show ?thesis by (simp add: read_overrides_def split: option.splits)
qed

text \<open>A file that Sonara wrote: its keys are the current names of actions.\<close>

definition own_names :: "(str \<times> binding option) list \<Rightarrow> bool" where
  "own_names raw \<longleftrightarrow> (\<forall>e \<in> set raw. \<exists>a. fst e = action_str a)"

lemma read_own_names:
  assumes "own_names raw" "distinct (map fst raw)" "\<forall>a \<in> fst ` set out. action_str a \<notin> fst ` set raw"
  shows "map_of (foldl override_step out raw) a =
    (case map_of raw (action_str a) of Some (Some b) \<Rightarrow> Some b | _ \<Rightarrow> map_of out a)"
  using assms
proof (induction raw arbitrary: out)
  case Nil
  then show ?case by simp
next
  case (Cons e raw)
  obtain c v where e: "e = (action_str c, v)" using Cons.prems(1) by (cases e) (auto simp: own_names_def)
  have c: "c \<notin> fst ` set out" using Cons.prems(3) e by auto
  define out1 where "out1 = override_step out e"
  have out1: "out1 = (case v of Some b \<Rightarrow> out @ [(c, b)] | None \<Rightarrow> out)"
    using c by (simp add: out1_def override_step_def e split: option.splits)
  have "map_of (foldl override_step out1 raw) a =
      (case map_of raw (action_str a) of Some (Some b) \<Rightarrow> Some b | _ \<Rightarrow> map_of out1 a)"
  proof (rule Cons.IH)
    show "own_names raw" "distinct (map fst raw)" using Cons.prems(1,2) by (simp_all add: own_names_def)
    show "\<forall>a \<in> fst ` set out1. action_str a \<notin> fst ` set raw"
      using Cons.prems(2,3) e by (auto simp: out1 split: option.splits)
  qed
  moreover have "map_of raw (action_str c) = None" using Cons.prems(2) e by (simp add: map_of_eq_None_iff)
  moreover have "map_of out c = None" using c by (simp add: map_of_eq_None_iff)
  moreover have "foldl override_step out (e # raw) = foldl override_step out1 raw" by (simp add: out1_def)
  ultimately show ?case unfolding \<open>foldl override_step out (e # raw) = _\<close> e out1
    by (auto simp: map_add_def split: option.splits)
qed

lemma map_of_rev: "distinct (map fst xs) \<Longrightarrow> map_of (rev xs) = map_of xs"
  by (metis distinct_rev map_of_inject_set rev_map set_rev)

lemma write_then_read:
  assumes "write_overrides refused km = Inr f" "distinct (map fst km)"
  shows "map_of (read_overrides f) = map_of km"
proof -
  define raw where "raw = foldl (\<lambda>m (a, b). tree_insert (action_str a) (Some b) m) [] km"
  have f: "f = Some raw" using assms(1) by (auto simp: write_overrides_def raw_def split: option.splits)
  have inv: "strict m \<Longrightarrow> own_names m \<Longrightarrow> strict (foldl (\<lambda>m (a, b). tree_insert (action_str a) (Some b) m) m ks) \<and>
      own_names (foldl (\<lambda>m (a, b). tree_insert (action_str a) (Some b) m) m ks) \<and>
      (\<forall>a. map_of (foldl (\<lambda>m (a, b). tree_insert (action_str a) (Some b) m) m ks) (action_str a) =
        (case map_of (rev ks) a of Some b \<Rightarrow> Some (Some b) | None \<Rightarrow> map_of m (action_str a)))" for m and ks :: keymap
  proof (induction ks arbitrary: m)
    case Nil
    then show ?case by simp
  next
    case (Cons p ks)
    obtain c b where p: "p = (c, b)" by (cases p)
    have "fst ` set (tree_insert (action_str c) (Some b) m) = insert (action_str c) (fst ` set m)"
      by (rule tree_insert_keys)
    then have "own_names (tree_insert (action_str c) (Some b) m)"
      using Cons.prems(2) unfolding own_names_def by (metis (no_types, lifting) image_iff insert_iff)
    from Cons.IH [OF tree_insert_strict [OF Cons.prems(1)] this] show ?case
      using map_of_tree_insert [OF Cons.prems(1), of "action_str c" "Some b"]
      by (auto simp: p map_add_def split: option.splits)
  qed
  have r: "strict raw" "own_names raw" "map_of raw (action_str a) = map_option Some (map_of km a)" for a
    using inv [of "[]" km] assms(2) by (auto simp: raw_def own_names_def map_of_rev split: option.splits)
  have "map_of (read_overrides f) a = map_of km a" for a
    using read_own_names [OF r(2) strict_distinct [OF r(1)], of "[]" a] r(3) [of a]
    by (simp add: read_overrides_def f split: option.splits)
  then show ?thesis by blast
qed

lemma load_keymap_get:
  "map fst (load_keymap f) = ALL_ACTIONS"
  "map_of (load_keymap f) a =
     Some (case map_of (read_overrides f) a of Some b \<Rightarrow> b | None \<Rightarrow> default_binding a)"
proof -
  let ?set = "\<lambda>km (a, b). km_set a b km"
  have fold: "map fst (foldl ?set km ks) = map fst km \<and>
      (distinct (map fst ks) \<longrightarrow> fst ` set km = UNIV \<longrightarrow>
        map_of (foldl ?set km ks) a = (case map_of ks a of Some b \<Rightarrow> Some b | None \<Rightarrow> map_of km a))" for km ks
  proof (induction ks arbitrary: km)
    case Nil
    then show ?case by simp
  next
    case (Cons p ks)
    obtain c b where p: "p = (c, b)" by (cases p)
    show ?case
    proof (intro conjI impI)
      show "map fst (foldl ?set km (p # ks)) = map fst km" using Cons.IH [of "km_set c b km"] by (simp add: p)
      assume d: "distinct (map fst (p # ks))" "fst ` set km = UNIV"
      have "map_of ks c = None" using d(1) by (simp add: p map_of_eq_None_iff)
      then show "map_of (foldl ?set km (p # ks)) a = (case map_of (p # ks) a of Some b \<Rightarrow> Some b | None \<Rightarrow> map_of km a)"
        using Cons.IH [of "km_set c b km"] d by (auto simp: p map_of_km_set split: option.splits)
    qed
  qed
  have "map fst default_keymap = ALL_ACTIONS" by (simp add: default_keymap_def comp_def)
  moreover from this have "fst ` set default_keymap = UNIV" by (metis all_actions(1) list.set_map)
  moreover have "map_of default_keymap a = Some (default_binding a)"
    unfolding default_keymap_def using all_actions(1) by (simp add: map_of_map_restrict)
  ultimately show "map fst (load_keymap f) = ALL_ACTIONS" "map_of (load_keymap f) a =
     Some (case map_of (read_overrides f) a of Some b \<Rightarrow> b | None \<Rightarrow> default_binding a)"
    using fold [of default_keymap "read_overrides f"] distinct_read_overrides [of f]
    by (auto simp: load_keymap_def split: option.splits)
qed

section \<open>What is registered\<close>

definition resolve_one :: "action \<times> binding \<Rightarrow> resolved option" where
  "resolve_one p =
     (if \<not> is_bound (snd p) then None
      else (case key_code (case b_key (snd p) of Some k \<Rightarrow> k | None \<Rightarrow> []) of
              None \<Rightarrow> None
            | Some vk \<Rightarrow>
                (let (held, bad) = mods_mask (b_mods (snd p)) 0 []
                 in if bad = [] then Some \<lparr>res_action = fst p, res_vk = vk, res_mods = held\<rparr> else None)))"

lemma resolve_step_fst:
  "fst (resolve_step acc p) = fst acc @ (case resolve_one p of Some r \<Rightarrow> [r] | None \<Rightarrow> [])"
  by (cases acc; cases p) (simp add: resolve_step_def resolve_one_def Let_def split: option.splits prod.splits)

lemma set_resolve: "r \<in> set (fst (resolve km)) \<longleftrightarrow> (\<exists>p \<in> set km. resolve_one p = Some r)"
proof -
  have "set (fst (foldl resolve_step acc km)) = set (fst acc) \<union> {r. \<exists>p \<in> set km. resolve_one p = Some r}" for acc
    by (induction km arbitrary: acc) (auto simp: resolve_step_fst split: option.splits)
  then show ?thesis by (simp add: resolve_def)
qed

lemma resolve_one_action: "resolve_one p = Some r \<Longrightarrow> res_action r = fst p"
  by (auto simp: resolve_one_def Let_def split: if_splits option.splits prod.splits)

lemma set_resolve_load:
  "r \<in> set (fst (resolve (load_keymap f))) \<longleftrightarrow>
     (\<exists>b. map_of (load_keymap f) (res_action r) = Some b \<and> resolve_one (res_action r, b) = Some r)"
proof -
  have "distinct (map fst (load_keymap f))" by (simp add: load_keymap_get(1))
  then have m: "(a, b) \<in> set (load_keymap f) \<longleftrightarrow> map_of (load_keymap f) a = Some b" for a b by simp
  have "(\<exists>p \<in> set (load_keymap f). resolve_one p = Some r) \<longleftrightarrow>
      (\<exists>b. (res_action r, b) \<in> set (load_keymap f) \<and> resolve_one (res_action r, b) = Some r)"
    using resolve_one_action [of _ r] by (metis prod.collapse)
  then show ?thesis unfolding set_resolve m .
qed

section \<open>Modifiers\<close>

lemma lower_idem [simp]: "to_ascii_lowercase (to_ascii_lowercase s) = to_ascii_lowercase s"
  by (simp add: to_ascii_lowercase_def ascii_lower_def is_ascii_upper_def)

lemma mod_mask_lower [simp]: "mod_mask (to_ascii_lowercase m) = mod_mask m"
  by (simp add: mod_mask_def)

lemma key_code_lower [simp]: "key_code (to_ascii_lowercase k) = key_code k"
  by (simp add: key_code_def)

lemma mods_mask_append: "mods_mask (xs @ ys) h bad = (let (h1, bad1) = mods_mask xs h bad in mods_mask ys h1 bad1)"
  by (induction xs h bad rule: mods_mask.induct) (auto split: option.splits)

lemma mods_mask_grows: "mods_mask xs h bad = (h', bad') \<Longrightarrow> h OR h' = h'"
proof (induction xs h bad rule: mods_mask.induct)
  case (2 m ms h bad)
  show ?case
  proof (cases "mod_mask m")
    case None
    then show ?thesis using 2 by simp
  next
    case (Some v)
    then have "(h OR v) OR h' = h'" using 2 by simp
    then show ?thesis by (metis or.assoc or.idem)
  qed
qed simp

lemma mods_mask_has:
  "mods_mask xs h bad = (h', bad') \<Longrightarrow> l \<in> set xs \<Longrightarrow> mod_mask l = Some v \<Longrightarrow> h' OR v = h'"
proof (induction xs h bad rule: mods_mask.induct)
  case (2 m ms h bad)
  show ?case
  proof (cases "l = m")
    case True
    then have "(h OR v) OR h' = h'" using 2 mods_mask_grows by simp
    then show ?thesis by (metis or.assoc or.commute or.idem)
  next
    case False
    then show ?thesis using 2 by (auto split: option.splits)
  qed
qed simp

lemma check_mods_mask:
  "check_mods ms held clean = Inr (h, c) \<Longrightarrow> mods_mask clean 0 [] = (held, []) \<Longrightarrow> mods_mask c 0 [] = (h, [])"
proof (induction ms held clean rule: check_mods.induct)
  case (2 m ms held clean)
  obtain v where v: "mod_mask m = Some v" using 2(2) by (cases "mod_mask m") simp_all
  let ?l = "to_ascii_lowercase m"
  show ?case
  proof (cases "?l \<in> set clean")
    case True
    then have "held OR v = held" using mods_mask_has [OF 2(3)] v by simp
    then show ?thesis using 2 v True by (simp add: Let_def)
  next
    case False
    then show ?thesis using 2 v by (simp add: Let_def mods_mask_append)
  qed
qed simp

section \<open>Changing the keymap\<close>

lemma map_of_put_override: "map_of (put_override a b km) = (map_of km)(a \<mapsto> b)"
proof (cases "a \<in> fst ` set km")
  case True
  then show ?thesis by (simp add: put_override_def map_of_km_set)
next
  case False
  then have "map_of km a = None" by (simp add: map_of_eq_None_iff)
  then show ?thesis using False by (auto simp: put_override_def map_add_def fun_eq_iff split: option.splits)
qed

lemma distinct_put_override: "distinct (map fst km) \<Longrightarrow> distinct (map fst (put_override a b km))"
  by (auto simp: put_override_def)

lemma load_eq:
  assumes "map_of (read_overrides f') = (map_of (read_overrides f))(a \<mapsto> b)"
  shows "map_of (load_keymap f') = (map_of (load_keymap f))(a \<mapsto> b)"
  by (rule ext) (simp add: load_keymap_get(2) assms)

text \<open>No two actions share a chord.\<close>

definition own_chords :: "keymap \<Rightarrow> bool" where
  "own_chords km \<longleftrightarrow>
     (let rs = fst (resolve km) in
      list_all (\<lambda>r. list_all (\<lambda>s. (res_vk r, res_mods r) = (res_vk s, res_mods s) \<longrightarrow> res_action r = res_action s) rs) rs)"

lemma bind_key_cases:
  assumes "bind_key refused f a key mods = Inr f'"
  obtains vk held clean where "key_code (trim key) = Some vk" "trim key \<noteq> []"
    "check_mods mods 0 [] = Inr (held, clean)" "held AND (MOD_CTRL OR MOD_ALT OR MOD_WIN) \<noteq> 0"
    "\<And>r. r \<in> set (fst (resolve (load_keymap f))) \<Longrightarrow> res_action r = a \<or> (res_vk r, res_mods r) \<noteq> (vk, held)"
    "write_overrides refused (put_override a \<lparr>b_key = Some (to_ascii_lowercase (trim key)), b_mods = clean\<rparr>
       (read_overrides f)) = Inr f'"
proof -
  define k where "k = to_ascii_lowercase (trim key)"
  have 1: "k \<noteq> []" using assms by (auto simp: bind_key_def k_def [symmetric])
  obtain vk where 2: "key_code k = Some vk" using assms 1
    by (cases "key_code k") (simp_all add: bind_key_def k_def [symmetric])
  obtain held clean where 3: "check_mods mods 0 [] = Inr (held, clean)" using assms 1 2
    by (cases "check_mods mods 0 []") (auto simp: bind_key_def k_def [symmetric])
  have 4: "held AND (MOD_CTRL OR MOD_ALT OR MOD_WIN) \<noteq> 0" using assms 1 2 3
    by (auto simp: bind_key_def k_def [symmetric] split: if_splits)
  have 5: "find (\<lambda>r. res_action r \<noteq> a \<and> res_vk r = vk \<and> res_mods r = held) (fst (resolve (load_keymap f))) = None"
    using assms 1 2 3 4
    by (cases "find (\<lambda>r. res_action r \<noteq> a \<and> res_vk r = vk \<and> res_mods r = held) (fst (resolve (load_keymap f)))")
      (simp_all add: bind_key_def k_def [symmetric])
  have 6: "write_overrides refused (put_override a \<lparr>b_key = Some k, b_mods = clean\<rparr> (read_overrides f)) = Inr f'"
    using assms 1 2 3 4 5 by (simp add: bind_key_def k_def [symmetric])
  have "trim key \<noteq> []" using 1 by (auto simp: k_def to_ascii_lowercase_def)
  then show thesis using 2 3 4 6 5 by (intro that) (auto simp: find_None_iff k_def)
qed

lemma lower_nonempty: "s \<noteq> [] \<Longrightarrow> to_ascii_lowercase s \<noteq> []"
  by (simp add: to_ascii_lowercase_def)

lemma bound_resolves:
  assumes "key_code k = Some vk" "k \<noteq> []" "check_mods mods 0 [] = Inr (held, clean)"
  shows "resolve_one (a, \<lparr>b_key = Some k, b_mods = clean\<rparr>) = Some \<lparr>res_action = a, res_vk = vk, res_mods = held\<rparr>"
  using assms check_mods_mask [OF assms(3)] by (simp add: resolve_one_def is_bound_def)

text \<open>C39: A binding that is accepted takes effect and disturbs nothing else: reading the file back, the action has the
  key and modifiers (in lower case), every other action what it had; the chord is registered for that action
  with Ctrl, Alt or Win held, and for no other one; and a keymap in which no two actions share a chord stays so.\<close>

theorem bind_takes_effect:
  assumes "bind_key refused f a key mods = Inr f'"
  shows "\<exists>vk held clean.
     key_code (trim key) = Some vk \<and> check_mods mods 0 [] = Inr (held, clean) \<and>
     held AND (MOD_CTRL OR MOD_ALT OR MOD_WIN) \<noteq> 0 \<and>
     map_of (load_keymap f') =
       (map_of (load_keymap f))(a \<mapsto> \<lparr>b_key = Some (to_ascii_lowercase (trim key)), b_mods = clean\<rparr>) \<and>
     \<lparr>res_action = a, res_vk = vk, res_mods = held\<rparr> \<in> set (fst (resolve (load_keymap f'))) \<and>
     list_all (\<lambda>r. res_action r = a \<or> (res_vk r, res_mods r) \<noteq> (vk, held)) (fst (resolve (load_keymap f'))) \<and>
     (own_chords (load_keymap f) \<longrightarrow> own_chords (load_keymap f'))"
proof -
  obtain vk held clean where b: "key_code (trim key) = Some vk" "trim key \<noteq> []" "check_mods mods 0 [] = Inr (held, clean)"
    "held AND (MOD_CTRL OR MOD_ALT OR MOD_WIN) \<noteq> 0"
    "\<And>r. r \<in> set (fst (resolve (load_keymap f))) \<Longrightarrow> res_action r = a \<or> (res_vk r, res_mods r) \<noteq> (vk, held)"
    "write_overrides refused (put_override a \<lparr>b_key = Some (to_ascii_lowercase (trim key)), b_mods = clean\<rparr>
       (read_overrides f)) = Inr f'"
    using bind_key_cases [OF assms] by metis
  define new where "new = \<lparr>b_key = Some (to_ascii_lowercase (trim key)), b_mods = clean\<rparr>"
  define chord where "chord = \<lparr>res_action = a, res_vk = vk, res_mods = held\<rparr>"
  have "map_of (read_overrides f') = (map_of (read_overrides f))(a \<mapsto> new)"
    using write_then_read [OF b(6) distinct_put_override [OF distinct_read_overrides]]
    by (simp add: map_of_put_override new_def)
  then have load: "map_of (load_keymap f') = (map_of (load_keymap f))(a \<mapsto> new)" by (rule load_eq)
  have one: "resolve_one (a, new) = Some chord"
    unfolding new_def chord_def using b(1-3) lower_nonempty [OF b(2)] by (intro bound_resolves) simp_all
  have mem: "r \<in> set (fst (resolve (load_keymap f'))) \<longleftrightarrow>
      (if res_action r = a then r = chord else r \<in> set (fst (resolve (load_keymap f))))" for r
    using one by (auto simp: set_resolve_load load chord_def)
  have "chord \<in> set (fst (resolve (load_keymap f')))" using mem by (simp add: chord_def)
  moreover have other: "list_all (\<lambda>r. res_action r = a \<or> (res_vk r, res_mods r) \<noteq> (vk, held)) (fst (resolve (load_keymap f')))"
    unfolding list_all_iff
  proof
    fix r assume "r \<in> set (fst (resolve (load_keymap f')))"
    then show "res_action r = a \<or> (res_vk r, res_mods r) \<noteq> (vk, held)" using mem [of r] b(5) [of r] by metis
  qed
  moreover have "own_chords (load_keymap f')" if chords: "own_chords (load_keymap f)"
    unfolding own_chords_def Let_def list_all_iff
  proof (intro ballI impI)
    fix r s assume rs: "r \<in> set (fst (resolve (load_keymap f')))" "s \<in> set (fst (resolve (load_keymap f')))"
      and eq: "(res_vk r, res_mods r) = (res_vk s, res_mods s)"
    have old: "x = chord \<or> res_action x \<noteq> a \<and> x \<in> set (fst (resolve (load_keymap f)))"
      if "x \<in> set (fst (resolve (load_keymap f')))" for x
      using that mem [of x] by (simp split: if_splits)
    have chord: "res_action chord = a" "(res_vk chord, res_mods chord) = (vk, held)" by (simp_all add: chord_def)
    have mixed: "res_action x = a" if "x \<in> set (fst (resolve (load_keymap f)))" "(res_vk x, res_mods x) = (vk, held)" for x
      using b(5) [OF that(1)] that(2) by metis
    consider "r = chord" "s = chord" | "r = chord" "s \<in> set (fst (resolve (load_keymap f)))"
      | "s = chord" "r \<in> set (fst (resolve (load_keymap f)))"
      | "r \<in> set (fst (resolve (load_keymap f)))" "s \<in> set (fst (resolve (load_keymap f)))"
      using old [OF rs(1)] old [OF rs(2)] by metis
    then show "res_action r = res_action s"
    proof cases
      case 4
      then show ?thesis using chords eq unfolding own_chords_def Let_def list_all_iff by metis
    qed (use mixed chord eq in metis)+
  qed
  ultimately show ?thesis using b(1,3,4) load unfolding new_def chord_def by blast
qed

lemma map_of_without: "map_of (filter (\<lambda>p. fst p \<noteq> a) km) x = (if x = a then None else map_of km x)"
  by (induction km) auto

lemma map_of_tabulated:
  "map_of (filter (\<lambda>p. P (snd p)) (map (\<lambda>a. (a, g a)) xs)) x = (if x \<in> set xs \<and> P (g x) then Some (g x) else None)"
  "map_of (map (\<lambda>a. (a, g a)) xs) x = (if x \<in> set xs then Some (g x) else None)"
  by (induction xs) auto

lemma map_of_same:
  assumes "map fst xs = map fst ys" "distinct (map fst ys)" "\<And>x. map_of xs x = map_of ys x"
  shows "xs = ys"
proof -
  have "zs = map (\<lambda>a. (a, the (map_of zs a))) (map fst zs)" if "distinct (map fst zs)" for zs :: "('a \<times> 'b) list"
  proof (intro nth_equalityI)
    fix i assume "i < length zs"
    moreover from this have "map_of zs (fst (zs ! i)) = Some (snd (zs ! i))" using that by simp
    ultimately show "zs ! i = map (\<lambda>a. (a, the (map_of zs a))) (map fst zs) ! i" by simp
  qed simp
  then show ?thesis using assms by (metis ext)
qed

text \<open>C40: Unbinding leaves the action without a hotkey whatever was in the file (a default binding included) and every
  other one as it was; resetting gives the default keymap whatever was in the file.\<close>

theorem unbind_and_reset:
  assumes "unbind_key refused f a = Inr f1" "reset_keymap refused = Inr f2"
  shows "map_of (load_keymap f1) = (map_of (load_keymap f))(a \<mapsto> unbound) \<and> load_keymap f2 = default_keymap"
proof
  let ?km = "filter (\<lambda>p. fst p \<noteq> a) (read_overrides f)"
  let ?new = "if is_bound (default_binding a) then ?km @ [(a, unbound)] else ?km"
  have d: "distinct (map fst ?new)" using distinct_read_overrides [of f] by (auto simp: distinct_map_filter)
  have "write_overrides refused ?new = Inr f1" using assms(1) by (simp add: unbind_key_def Let_def)
  from write_then_read [OF this d] have r: "map_of (read_overrides f1) = map_of ?new" .
  show "map_of (load_keymap f1) = (map_of (load_keymap f))(a \<mapsto> unbound)"
  proof
    fix x
    have nd: "\<not> is_bound (default_binding a) \<Longrightarrow> default_binding a = unbound"
      by (auto simp: default_binding_def is_bound_def DEFAULT_KEYS_def split: if_splits)
    show "map_of (load_keymap f1) x = ((map_of (load_keymap f))(a \<mapsto> unbound)) x"
      unfolding load_keymap_get(2) r using nd by (auto simp: map_of_without map_add_def load_keymap_get(2) split: option.splits)
  qed
  have dk: "distinct (map fst (filter (\<lambda>p. is_bound (snd p)) default_keymap))"
    by (simp add: default_keymap_def distinct_map filter_map comp_def inj_on_def)
  have "map_of (read_overrides f2) = map_of (filter (\<lambda>p. is_bound (snd p)) default_keymap)"
    using assms(2) write_then_read [OF _ dk] by (simp add: reset_keymap_def)
  then have "map_of (load_keymap f2) x = map_of default_keymap x" for x
    by (simp add: load_keymap_get(2) default_keymap_def map_of_tabulated)
  moreover have "map fst default_keymap = ALL_ACTIONS" by (simp add: default_keymap_def comp_def)
  ultimately show "load_keymap f2 = default_keymap"
    by (intro map_of_same) (auto simp: load_keymap_get(1))
qed

section \<open>Concrete changes\<close>

lemma demo_bind: "\<exists>f'. bind_key None None Hot_faster [107] [lit ''Ctrl'', lit ''alt''] = Inr f'"
proof -
  have "bind_key None None Hot_faster [107] [lit ''Ctrl'', lit ''alt''] \<noteq> Inl e" for e
    by (simp add: bind_key_def trim_def trim_end_def trim_start_def is_whitespace_def key_code_def to_ascii_lowercase_def
        ascii_lower_def is_ascii_upper_def is_ascii_lower_def NAMED_KEYS_def mod_mask_def MODS_def MOD_CTRL_def
        MOD_ALT_def MOD_WIN_def MOD_SHIFT_def load_keymap_def read_overrides_def default_keymap_def
        default_binding_def DEFAULT_KEYS_def DEFAULT_MODS_def ALL_ACTIONS_def resolve_def resolve_step_def unbound_def
        is_bound_def write_overrides_def)
  then show ?thesis by (cases "bind_key None None Hot_faster [107] [lit ''Ctrl'', lit ''alt'']") auto
qed

theorem bind_takes_effect_witness:
  "\<exists>f' b. bind_key None None Hot_faster [107] [lit ''Ctrl'', lit ''alt''] = Inr f' \<and>
     map_of (load_keymap f') Hot_faster = Some b \<and> is_bound b"
proof -
  obtain f' where f': "bind_key None None Hot_faster [107] [lit ''Ctrl'', lit ''alt''] = Inr f'" using demo_bind by blast
  have "to_ascii_lowercase (trim [107]) \<noteq> []"
    by (simp add: trim_def trim_end_def trim_start_def is_whitespace_def to_ascii_lowercase_def)
  then show ?thesis using f' bind_takes_effect [OF f'] by (auto simp: is_bound_def)
qed

theorem unbind_and_reset_witness:
  "\<exists>f1 f2. unbind_key None None Hot_mute = Inr f1 \<and> reset_keymap None = Inr f2 \<and>
     map_of (load_keymap f1) Hot_mute = Some unbound \<and> load_keymap f2 = default_keymap"
proof -
  obtain f1 f2 where f: "unbind_key None None Hot_mute = Inr f1" "reset_keymap None = Inr f2"
    by (simp add: unbind_key_def reset_keymap_def write_overrides_def Let_def)
  then show ?thesis using unbind_and_reset [OF f] by simp
qed

end
