(* ===== verification/Hotkeys.thy ===== *)
theory Hotkeys imports Keymap begin

text \<open>
  The hotkeys while they run: \<open>crates/sonara-system/src/hotkeys.rs\<close>. Registration of the resolved bindings, the
  debouncing of toggles, a tap told from a hold. The registrar is the system's: its answers (\<open>None\<close> or an error
  code) are a list. Times are milliseconds.
\<close>

definition ERROR_HOTKEY_ALREADY_REGISTERED :: nat where "ERROR_HOTKEY_ALREADY_REGISTERED = 1409"
definition DEBOUNCE :: nat where "DEBOUNCE = 300"
definition HOLD :: nat where "HOLD = 500"
definition HOLD_POLL :: nat where "HOLD_POLL = 10"

datatype press = Tap | Hold

text \<open>The key is looked at every \<open>HOLD_POLL\<close>: \<open>down t\<close> is whether it is down at time \<open>t\<close>.\<close>

function watch :: "(nat \<Rightarrow> bool) \<Rightarrow> nat \<Rightarrow> nat \<Rightarrow> press" where
  "watch down start t =
     (if down t then (if HOLD \<le> t - start then Hold else watch down start (t + HOLD_POLL)) else Tap)"
  by auto

termination
  by (relation "measure (\<lambda>(down, start, t). start + HOLD - t)") (auto simp: HOLD_POLL_def)

declare watch.simps [simp del]

record collision =
  col_action :: action
  col_error :: nat
  taken_by :: "action option"

definition already_owned :: "collision \<Rightarrow> bool" where
  "already_owned c \<longleftrightarrow> col_error c = ERROR_HOTKEY_ALREADY_REGISTERED \<and> taken_by c = None"

text \<open>The ids, the bindings and the collisions so far, and the answers to come.\<close>

definition register_step :: "int list \<times> resolved list \<times> collision list \<times> nat option list \<Rightarrow> resolved \<Rightarrow>
    int list \<times> resolved list \<times> collision list \<times> nat option list" where
  "register_step acc b =
     (let (ids, registered, collisions, answers) = acc in
      case find (\<lambda>r. res_vk r = res_vk b \<and> res_mods r = res_mods b) registered of
        Some first \<Rightarrow>
          (ids, registered,
           collisions @ [\<lparr>col_action = res_action b, col_error = ERROR_HOTKEY_ALREADY_REGISTERED,
                          taken_by = Some (res_action first)\<rparr>], answers)
      | None \<Rightarrow>
          (case answers of
             Some e # rest \<Rightarrow>
               (ids, registered, collisions @ [\<lparr>col_action = res_action b, col_error = e, taken_by = None\<rparr>], rest)
           | _ \<Rightarrow> (ids @ [action_id (res_action b)], registered @ [b], collisions, tl answers)))"

definition register_all :: "nat option list \<Rightarrow> resolved list \<Rightarrow> int list \<times> resolved list \<times> collision list" where
  "register_all answers bs =
     (let (ids, registered, collisions, rest) = foldl register_step ([], [], [], answers) bs
      in (ids, registered, collisions))"

text \<open>\<open>Debounce::allow\<close>: the last time each action ran.\<close>

definition allow :: "action \<Rightarrow> nat \<Rightarrow> (action \<Rightarrow> nat option) \<Rightarrow> bool \<times> (action \<Rightarrow> nat option)" where
  "allow a now l =
     (if \<not> debounced a then (True, l)
      else (case l a of
              Some prev \<Rightarrow> if now - prev < DEBOUNCE then (False, l) else (True, l(a \<mapsto> now))
            | None \<Rightarrow> (True, l(a \<mapsto> now))))"

text \<open>One press the registrar reports: what is handed to the dispatch thread.\<close>

definition on_press :: "resolved list \<Rightarrow> int list \<Rightarrow> int \<Rightarrow> nat \<Rightarrow> (action \<Rightarrow> nat option) \<Rightarrow>
    resolved option \<times> (action \<Rightarrow> nat option)" where
  "on_press bindings ids i now l =
     (case from_id i of
        None \<Rightarrow> (None, l)
      | Some a \<Rightarrow>
          if i \<notin> set ids then (None, l)
          else (let (go, l') = allow a now l
                in if go then (find (\<lambda>b. res_action b = a) bindings, l') else (None, l')))"

definition dispatched :: "(nat \<Rightarrow> bool) \<Rightarrow> nat \<Rightarrow> resolved \<Rightarrow> action \<times> press" where
  "dispatched down now b = (res_action b, if holdable (res_action b) then watch down now now else Tap)"

section \<open>Presses\<close>

lemma id_round_trip [simp]: "from_id (action_id a) = Some a"
  by (cases a) (simp_all add: action_id_def from_id_def ALL_ACTIONS_def get_def)

text \<open>The times at which presses of one action run.\<close>

fun runs_of :: "action \<Rightarrow> nat list \<Rightarrow> (action \<Rightarrow> nat option) \<Rightarrow> nat list" where
  "runs_of a [] l = []"
| "runs_of a (t # ts) l = (let (go, l') = allow a t l in if go then t # runs_of a ts l' else runs_of a ts l')"

lemma runs_of_after:
  "debounced a \<Longrightarrow> l a = Some p \<Longrightarrow> sorted ts \<Longrightarrow> \<forall>t \<in> set ts. p \<le> t \<Longrightarrow>
     sorted_wrt (\<lambda>s t. s + DEBOUNCE \<le> t) (runs_of a ts l) \<and> (\<forall>t \<in> set (runs_of a ts l). p + DEBOUNCE \<le> t)"
proof (induction ts arbitrary: l p)
  case (Cons t ts)
  show ?case
  proof (cases "t - p < DEBOUNCE")
    case True
    then show ?thesis using Cons.IH [of l p] Cons.prems by (simp add: allow_def)
  next
    case False
    then have "p + DEBOUNCE \<le> t" using Cons.prems(4) by (simp add: not_less) linarith
    moreover have "sorted_wrt (\<lambda>s t. s + DEBOUNCE \<le> t) (runs_of a ts (l(a \<mapsto> t))) \<and>
        (\<forall>u \<in> set (runs_of a ts (l(a \<mapsto> t))). t + DEBOUNCE \<le> u)"
      using Cons.prems by (intro Cons.IH) auto
    moreover have "runs_of a (t # ts) l = t # runs_of a ts (l(a \<mapsto> t))"
      using False Cons.prems(1,2) by (simp add: allow_def)
    ultimately show ?thesis by (auto dest!: bspec)
  qed
qed simp

text \<open>A toggle never runs twice within the debounce time, however fast it is pressed.\<close>

theorem toggles_are_debounced:
  assumes "debounced a" "sorted ts"
  shows "sorted_wrt (\<lambda>s t. s + DEBOUNCE \<le> t) (runs_of a ts (\<lambda>a. None))"
proof (cases ts)
  case (Cons t us)
  then show ?thesis using assms runs_of_after [of a "(\<lambda>a. None)(a \<mapsto> t)" t us] by (auto simp: allow_def)
qed simp

section \<open>Registration\<close>

lemma register_invariant:
  assumes "foldl register_step (ids, reg, col, ans) bs = (ids', reg', col', ans')"
    and "distinct (map (\<lambda>r. (res_vk r, res_mods r)) reg)" "ids = map (action_id \<circ> res_action) reg"
  shows "distinct (map (\<lambda>r. (res_vk r, res_mods r)) reg') \<and> ids' = map (action_id \<circ> res_action) reg' \<and>
    (\<exists>more cs. reg' = reg @ more \<and> col' = col @ cs \<and> length more + length cs = length bs \<and> set more \<subseteq> set bs \<and>
      set (map res_action more) \<union> set (map col_action cs) = set (map res_action bs))"
  using assms
proof (induction bs arbitrary: ids reg col ans)
  case Nil
  then show ?case by auto
next
  case (Cons b bs)
  obtain ids1 reg1 col1 ans1 where 1: "register_step (ids, reg, col, ans) b = (ids1, reg1, col1, ans1)"
    by (cases "register_step (ids, reg, col, ans) b") auto
  have step: "(\<exists>c. reg1 = reg \<and> ids1 = ids \<and> col1 = col @ [c] \<and> col_action c = res_action b) \<or>
      reg1 = reg @ [b] \<and> ids1 = ids @ [action_id (res_action b)] \<and> col1 = col \<and>
        (res_vk b, res_mods b) \<notin> (\<lambda>r. (res_vk r, res_mods r)) ` set reg"
  proof (cases "find (\<lambda>r. res_vk r = res_vk b \<and> res_mods r = res_mods b) reg")
    case None
    then have "(res_vk b, res_mods b) \<notin> (\<lambda>r. (res_vk r, res_mods r)) ` set reg" by (auto simp: find_None_iff)
    then show ?thesis using 1 None by (auto simp: register_step_def split: list.splits option.splits)
  next
    case (Some r)
    then show ?thesis using 1 by (auto simp: register_step_def)
  qed
  have "foldl register_step (ids1, reg1, col1, ans1) bs = (ids', reg', col', ans')" using Cons.prems(1) 1 by simp
  moreover have "distinct (map (\<lambda>r. (res_vk r, res_mods r)) reg1)" "ids1 = map (action_id \<circ> res_action) reg1"
    using step Cons.prems(2,3) by auto
  ultimately obtain more cs where IH: "distinct (map (\<lambda>r. (res_vk r, res_mods r)) reg')"
    "ids' = map (action_id \<circ> res_action) reg'" "reg' = reg1 @ more" "col' = col1 @ cs" "length more + length cs = length bs"
    "set more \<subseteq> set bs" "set (map res_action more) \<union> set (map col_action cs) = set (map res_action bs)"
    using Cons.IH by blast
  from step show ?case
  proof
    assume "\<exists>c. reg1 = reg \<and> ids1 = ids \<and> col1 = col @ [c] \<and> col_action c = res_action b"
    then obtain c where "reg1 = reg" "col1 = col @ [c]" "col_action c = res_action b" by blast
    then show ?thesis using IH by (intro conjI exI [of _ more] exI [of _ "c # cs"]) auto
  next
    assume "reg1 = reg @ [b] \<and> ids1 = ids @ [action_id (res_action b)] \<and> col1 = col \<and>
        (res_vk b, res_mods b) \<notin> (\<lambda>r. (res_vk r, res_mods r)) ` set reg"
    then show ?thesis using IH by (intro conjI exI [of _ "b # more"] exI [of _ cs]) auto
  qed
qed

text \<open>Each binding is registered or reported as a collision, none is lost; no chord is registered twice; a press of a
  registered id finds its action.\<close>

theorem hotkeys_are_accounted:
  "let (ids, reg, col) = register_all answers bs in
     length reg + length col = length bs \<and> set (map res_action reg) \<union> set (map col_action col) = set (map res_action bs) \<and>
     distinct (map (\<lambda>r. (res_vk r, res_mods r)) reg) \<and>
     map from_id ids = map (Some \<circ> res_action) reg"
proof -
  obtain ids reg col ans where f: "foldl register_step ([], [], [], answers) bs = (ids, reg, col, ans)"
    by (cases "foldl register_step ([], [], [], answers) bs") auto
  show ?thesis using register_invariant [OF f] by (auto simp: register_all_def f)
qed

end
