(* ===== verification/Spec2Isabelle.thy ===== *)
theory Spec2Isabelle imports Reader_Claims Packing Router_Claims Delta_Claims Agent_Safety Agent_Speech Earcon_Schedule Numbers Reply_Claims Code_Claims Clean_Claims Wav_Claims Audio_Claims Keymap_Claims Hotkeys begin

text \<open>
  Sonara reads the output of coding agents aloud. Hook processes and clients send an agent's streamed
  text to the daemon; the agent extension decides what is heard; channels decide which session has the
  floor; the reader turns items into chunks and drives a speech engine and an audio output. This library
  models the rules of the runtime, the code without threads, sockets and platform calls, and proves what
  they promise.

  \<^bold>\<open>The parts and their theories\<close> (paths under \<open>src/crates\<close>)

  \<^item> \<open>sonara-core/src/reader/mod.rs\<close>, \<open>types.rs\<close>: \<open>Reader\<close> (record \<open>reader\<close>, one definition per method,
    \<open>reader_call\<close> for the whole interface). \<open>Reader_Inv\<close> is the structural invariant, \<open>Reader_Host\<close> the
    protocol a host relies on as a monitor over calls and effects, \<open>Reader_Props\<close> reading to the end, step
    mode and prefetching, \<open>Reader_Claims\<close> the properties with the run their witnesses use.
  \<^item> \<open>sonara-core/src/reader/chunks.rs\<close>: \<open>Chunks\<close> (the cutting of an item), \<open>Packing\<close> (a packed message has the
    fewest chunks under the limit; no chunk is silent; code markers are lossless).
  \<^item> \<open>sonara-channels/src/router.rs\<close>: \<open>Router\<close> (record \<open>router\<close>: channels with batches and read cursors, pick,
    feed, push, rewind, drop). \<open>Router_Inv\<close> and \<open>Router_Wf\<close>: every call keeps the fields consistent.
    \<open>Router_Props\<close>, \<open>Router_Claims\<close>: what is picked and fed, and that all of it is read.
  \<^item> \<open>sonara-agent/src/rules.rs\<close>: \<open>Delta_Order\<close> (\<open>DeltaOrder\<close>, the deltas of a block in index order, with a
    locale for a buffer that gives back what it took in), \<open>Agent_State\<close> (the record \<open>rules\<close>, actions and
    timers), \<open>Agent_Prose\<close> (streamed prose), \<open>Agent_Summary\<close> (summaries and their reorder buffer),
    \<open>Agent_Rules\<close> (the messages), \<open>Agent_Questions\<close> (question navigation). \<open>Agent_Inv\<close>, \<open>Agent_Steps\<close>,
    \<open>Agent_Calls\<close>, \<open>Agent_Reach\<close> and \<open>Agent_Driver\<close> carry one relation, \<open>steps r0 r\<close>, through every operation:
    what a call may change and what it keeps. \<open>Agent_Claims\<close> and \<open>Agent_Safety\<close> read the properties off
    it over the states a driver can reach; \<open>Agent_Speech\<close> and \<open>Reply_Claims\<close> follow a reply from racing hook
    processes to what is spoken; \<open>Agent_Eval\<close> holds the concrete states of the witnesses.
  \<^item> \<open>sonara-agent/src/settings.rs\<close>, \<open>decision.rs\<close>, \<open>sequencer.rs\<close>: \<open>Agent_Settings\<close>, \<open>Decision_Text\<close>,
    \<open>Earcon_Schedule\<close>.
  \<^item> \<open>sonara-core/src/assembler.rs\<close>, \<open>table.rs\<close>: \<open>Sentences\<close> (the functions that cut raw text), \<open>Tables\<close>,
    \<open>Assembler\<close> (the streaming \<open>ProseAssembler\<close>). \<open>Assembler_Words\<close>: no word is lost or doubled by the cutting.
    \<open>Assembler_Read\<close> is the reply read at once, the reference; \<open>Assembler_Scan\<close> and \<open>Assembler_Claims\<close>: the
    streaming scan is a refinement of it, however the reply is cut into deltas, and it ends.
  \<^item> \<open>sonara-core/src/code_speech.rs\<close>: \<open>Code_Speech\<close> (the parts of a line), \<open>Code_Tokens\<close> (the tokenizer and
    the reading of a line), \<open>Code_Letters\<close> and \<open>Code_Claims\<close>: no letter or digit of a line is lost.
  \<^item> \<open>sonara-core/src/text.rs\<close>: \<open>Clean_Text\<close> over \<open>Patterns\<close> (the leftmost-first meaning of regular
    expressions); \<open>Clean_Claims\<close>: the hand-written scanners equal the patterns they replaced.
  \<^item> \<open>sonara-core/src/numbers.rs\<close>: \<open>Numbers\<close>. \<open>Unicode\<close> and \<open>Prelude\<close> are shared by all.
  \<^item> \<open>sonara-engine/src/wav.rs\<close>: \<open>Wav\<close> (bytes and samples as words); \<open>Wav_Claims\<close>: a file decodes to what its
    chunks say, each sample as a number, and what \<open>encode\<close> writes decodes to the same samples.
  \<^item> \<open>sonara-system/src/platform.rs\<close>, \<open>state_file.rs\<close>, \<open>log.rs\<close>: \<open>Platform\<close>, the other apps' audio and media as one
    record \<open>os\<close>. Each call that can fail, each write and removal of a file included, takes its own answer from
    \<open>answers\<close>; \<open>trail\<close> is what was done, in order. A failing call changes nothing, but a pause that timed out
    may take effect later and is an event of its own. Volumes are rationals.
  \<^item> \<open>sonara-system/src/ducking.rs\<close>: \<open>Ducking\<close> (\<open>Ducker\<close>). \<open>Ducking_Claims\<close>: a restore accounts for every record;
    \<open>Ducking_Safety\<close>: the file is ahead of the volumes at every moment; \<open>Ducking_Undo\<close>: originals over any run, and
    a restore undoes a duck.
  \<^item> \<open>sonara-system/src/pausing.rs\<close>: \<open>Pausing\<close> (\<open>MediaPauser\<close>), \<open>Pausing_Claims\<close> (the file is ahead of the media),
    \<open>Pausing_Runs\<close> (every play answers a pause; a resume undoes a pause). Both read the clock once per operation.
  \<^item> \<open>sonara-system/src/audio.rs\<close>: \<open>Audio_Worker\<close> (one turn of the worker's loop per command, timeout or hang-up);
    \<open>Audio_Claims\<close>: when other apps are held, and that they get everything back.
  \<^item> \<open>sonara-system/src/keymap.rs\<close>, \<open>hotkeys.rs\<close>: \<open>Keymap\<close>, \<open>Keymap_Claims\<close> (binding, unbinding and reset take
    effect) and \<open>Hotkeys\<close> (what is registered, and the debounce of toggles).

  \<^bold>\<open>How the components meet\<close>

  A delta of a hook process enters \<open>Agent_Prose\<close>, which orders it (\<open>Delta_Order\<close>) and feeds the assembler
  (\<open>Assembler\<close>); the pieces are spoken through \<open>Clean_Text\<close> and \<open>Code_Tokens\<close>, and become items of a
  channel (\<open>Router\<close>) that the reader cuts into chunks (\<open>Chunks\<close>, \<open>Reader\<close>).
  \<open>racing_reply_is_read\<close> composes the first three; \<open>spoken_forms\<close> instantiates the assembler's
  parameters with \<open>Clean_Text\<close> and \<open>Code_Tokens\<close>.

  \<^bold>\<open>Conventions\<close>

  A \<open>str\<close> is the list of its Unicode scalar values (\<open>nat\<close>); offsets count characters where the source
  counts bytes, at character boundaries. A struct is a record, an enum a datatype, \<open>u32\<close> and \<open>u64\<close> values that
  can overflow are words; other counters are \<open>nat\<close>. Times are in milliseconds, as \<open>int\<close> where the source
  compares instants. A method with \<open>&mut self\<close> returns the updated record; the reader, the
  rules and the schedule return their effects as lists. Errors and early returns are values.

  \<^bold>\<open>Parameters\<close>

  What lies outside the modelled code is an argument: \<open>text_lib\<close> (the spoken forms an item's text takes),
  \<open>agent_lib\<close> (assembler, normalizer and summarizer behind the rules), \<open>speech_lib\<close> (spoken forms of prose and
  code), \<open>unicode\<close> (Unicode tables; their ASCII part is written out as \<open>ascii\<close>), and the
  pronunciation rules in \<open>Clean_Text\<close>. No property assumes more of them than its statement says.

  \<^bold>\<open>Fuel and bounds\<close>

  Recursions that are not structural carry fuel that is proved enough: feeding a router to the end takes at
  most \<open>2 * total_pending + 2\<close> feeds; the scan of a delta takes at most one turn per pending character and one
  (\<open>scan_ends\<close>); the tokenizer's depth is bounded by the length of the line and one.

  \<^bold>\<open>What the model showed\<close>

  \<^item> \<open>rules.rs\<close>: a client's delta index is only checked to be a \<open>u32\<close>; a large one makes \<open>missing\<close> and \<open>release\<close>
    build collections of up to \<open>2 ^ 32\<close> entries, and the largest overflows \<open>index + 1\<close>.
  \<^item> \<open>code_speech.rs\<close>: a closing tag right after a letter or digit is not taken as a tag.
  \<^item> \<open>ducking.rs\<close>: with two sessions of one app, a pending record can be given to the sibling
    (\<open>sibling_takes_the_record\<close>); and an app that was restarted while its record was pending can be recorded with an
    older duck level as its original after a change of level, when the sweep before the duck cannot set its volume.
  \<^item> \<open>wav.rs\<close>: its comment counts the data size 0 of streamed files among those that are clamped; \<open>decode\<close> gives no
    samples for it.

  \<^bold>\<open>Not modelled\<close>

  \<open>pronounce.rs\<close> and the grapheme-to-phoneme port \<open>misaki\<close> are tables and dictionaries; the speech engines beyond
  the WAV decoder are HTTP clients and inference; \<open>sonara-audio\<close> and \<open>win.rs\<close> are device and Windows calls; the
  threads, processes, locks and channels around the agent, the router, the reader and the audio worker, the daemon,
  the command line, the hook, the client library and the clients in other languages are glue over the rules here.
  An interleaving is an arbitrary sequence of calls; nothing is said of data races or of how long a call takes.
\<close>

end
